(* ===== verification/Prelude.thy ===== *)
theory Prelude
  imports Main "HOL-Library.Word"
begin

text \<open>
  The vocabulary the component theories share.

  \<^item> \<open>u8\<close>, \<open>u32\<close>, \<open>u64\<close>: the machine integers of the code. \<open>size_t\<close> is \<open>u64\<close> and a pointer
    has 8 bytes, as on the 64-bit iOS targets the Pods are built for.
  \<^item> The outcome of a C function that returns \<open>bool\<close> and changes some state is
    \<open>(bool \<times> 's) option\<close>. \<open>None\<close> stands for an execution the C language gives no result: an
    access outside mapped memory, a call through a NULL function pointer, an invalid
    \<open>free\<close>, or a recursion that runs out of the fuel the model gives it.
    \<open>Some (False, s)\<close> is the code's own \<open>return false\<close>, with the state it leaves behind.
  \<^item> \<open>ifok r k\<close> is the pattern \<open>if (!f(...)) return false; k\<close>.
  \<^item> \<open>outcome_simps\<close> collects the rules for \<open>ifok\<close>, \<open>le_simps\<close> those for little-endian bytes.
\<close>

unbundle bit_operations_syntax

named_theorems outcome_simps
named_theorems le_simps

type_synonym u8 = "8 word"
type_synonym u32 = "32 word"
type_synonym u64 = "64 word"

type_synonym 's outcome = "(bool \<times> 's) option"

section \<open>Sequencing of fallible operations\<close>

definition ifok :: "'s outcome \<Rightarrow> ('s \<Rightarrow> 's outcome) \<Rightarrow> 's outcome" where
  "ifok r k = (case r of None \<Rightarrow> None | Some (ok, s) \<Rightarrow> if ok then k s else Some (False, s))"

text \<open>
  Operations that hand a value back through a pointer (\<open>bool f(stream, *dest)\<close>) write it only
  when they return true: their outcome is \<open>('v option \<times> 's) option\<close>, \<open>Some (None, s)\<close> being
  \<open>return false\<close>. \<open>ifval r ret k\<close> sequences such a call; \<open>ret\<close> builds the caller's own state
  from \<open>s\<close> when the call fails.
\<close>

type_synonym ('v, 's) valued = "('v option \<times> 's) option"

definition ifval :: "('v, 's) valued \<Rightarrow> ('s \<Rightarrow> 't outcome) \<Rightarrow> ('v \<Rightarrow> 's \<Rightarrow> 't outcome) \<Rightarrow> 't outcome" where
  "ifval r ret k = (case r of None \<Rightarrow> None
     | Some (None, s) \<Rightarrow> ret s | Some (Some v, s) \<Rightarrow> k v s)"

lemma ifok_simps [simp, outcome_simps]:
  "ifok None k = None"
  "ifok (Some (True, s)) k = k s"
  "ifok (Some (False, s)) k = Some (False, s)"
  by (simp_all add: ifok_def)

lemma ifval_simps [simp, outcome_simps]:
  "ifval None ret k = None"
  "ifval (Some (Some v, s)) ret k = k v s"
  "ifval (Some (None, s)) ret k = ret s"
  by (simp_all add: ifval_def)

lemma ifok_Some_True:
  "ifok r k = Some (True, t) \<longleftrightarrow> (\<exists>s. r = Some (True, s) \<and> k s = Some (True, t))"
  by (auto simp: ifok_def split: option.splits if_splits)

lemma ifok_Some:
  "ifok r k = Some (b, t) \<longleftrightarrow>
     (\<exists>s. r = Some (True, s) \<and> k s = Some (b, t)) \<or> (\<not> b \<and> r = Some (False, t))"
  by (auto simp: ifok_def split: option.splits if_splits)

lemma ifok_cong [fundef_cong]:
  assumes "r = r'" and "\<And>s. r' = Some (True, s) \<Longrightarrow> k s = k' s"
  shows "ifok r k = ifok r' k'"
  using assms by (auto simp: ifok_def split: option.splits)

lemma ifok_bind: "ifok r k = Option.bind r (\<lambda>x. if fst x then k (snd x) else Some (False, snd x))"
  by (auto simp: ifok_def split: option.splits)

lemma ifok_mono [partial_function_mono]:
  assumes "mono_option r" and "\<And>s. mono_option (\<lambda>f. k f s)"
  shows "mono_option (\<lambda>f. ifok (r f) (k f))"
  unfolding ifok_bind by (intro bind_mono if_mono assms option.const_mono)

lemma ifok_assoc: "ifok (ifok r k) l = ifok r (\<lambda>s. ifok (k s) l)"
  by (auto simp: ifok_def split: option.splits)

section \<open>Little-endian bytes\<close>

primrec word_of_bytes :: "u8 list \<Rightarrow> 'a::len word" where
  "word_of_bytes [] = 0"
| "word_of_bytes (b # bs) = ucast b OR push_bit 8 (word_of_bytes bs)"

primrec bytes_of_word :: "nat \<Rightarrow> 'a::len word \<Rightarrow> u8 list" where
  "bytes_of_word 0 w = []"
| "bytes_of_word (Suc n) w = ucast w # bytes_of_word n (drop_bit 8 w)"

lemma length_bytes_of_word [simp, le_simps]: "length (bytes_of_word n w) = n"
  by (induction n arbitrary: w) simp_all

lemma word_of_bytes_of_word_take:
  "word_of_bytes (bytes_of_word n w) = take_bit (8 * n) (w :: 'a::len word)"
proof (induction n arbitrary: w)
  case 0
  then show ?case by simp
next
  case (Suc n)
  have "word_of_bytes (bytes_of_word (Suc n) w)
          = (ucast (ucast w :: u8) :: 'a word) OR push_bit 8 (take_bit (8 * n) (drop_bit 8 w))"
    by (simp add: Suc)
  also have "\<dots> = take_bit (8 * Suc n) w"
    by (rule bit_word_eqI) (auto simp: bit_simps)
  finally show ?case .
qed

lemma word_of_bytes_of_word [le_simps]:
  "LENGTH('a) \<le> 8 * n \<Longrightarrow> word_of_bytes (bytes_of_word n w) = (w :: 'a::len word)"
  by (simp add: word_of_bytes_of_word_take take_bit_word_eq_self)

section \<open>Lists used as C arrays\<close>

text \<open>The \<open>n\<close> elements of \<open>xs\<close> from \<open>i\<close> on are replaced by \<open>ys\<close> (a bounded array copy).\<close>

definition blit :: "'a list \<Rightarrow> nat \<Rightarrow> 'a list \<Rightarrow> 'a list" where
  "blit xs i ys = take i xs @ ys @ drop (i + length ys) xs"

lemma length_blit [simp]: "i + length ys \<le> length xs \<Longrightarrow> length (blit xs i ys) = length xs"
  by (simp add: blit_def)

lemma blit_Nil [simp]: "blit xs i [] = xs"
  by (simp add: blit_def)

lemma blit_blit:
  assumes "i + length ys + length zs \<le> length xs"
  shows "blit (blit xs i ys) (i + length ys) zs = blit xs i (ys @ zs)"
  using assms by (cases ys) (auto simp: blit_def min_def ac_simps)

lemma take_blit [simp]: "i \<le> length xs \<Longrightarrow> take i (blit xs i ys) = take i xs"
  by (simp add: blit_def)

lemma drop_blit:
  "i + length ys \<le> k \<Longrightarrow> k \<le> length xs \<Longrightarrow> drop k (blit xs i ys) = drop k xs"
  by (simp add: blit_def add.commute)

lemma blit_middle:
  "i + length ys \<le> length xs \<Longrightarrow> take (length ys) (drop i (blit xs i ys)) = ys"
  by (simp add: blit_def)

section \<open>Word arithmetic without wrap-around\<close>

lemma unat_add_noov:
  "unat x + unat y < 2 ^ LENGTH('a) \<Longrightarrow> unat (x + y) = unat x + unat (y :: 'a::len word)"
  by (simp add: unat_word_ariths)

lemma unat_of_nat_small:
  "n < 2 ^ LENGTH('a) \<Longrightarrow> unat (of_nat n :: 'a::len word) = n"
  by (simp add: unsigned_of_nat take_bit_nat_eq_self)

lemma unat_of_nat64 [simp]: "n < 2 ^ 64 \<Longrightarrow> unat (of_nat n :: u64) = n"
  by (rule unat_of_nat_small) simp

lemma sint_of_nat: "m < 2 ^ 31 \<Longrightarrow> sint (of_nat m :: u32) = int m"
proof -
  assume m: "m < 2 ^ 31"
  have "sint (of_nat m :: u32) = signed_take_bit 31 (int m)"
    by (simp only: signed_of_nat) simp
  moreover have "signed_take_bit 31 (int m) = int m"
    using m by (intro signed_take_bit_int_eq_self) simp_all
  ultimately show ?thesis by simp
qed

end
