(* ===== verification/Memory.thy ===== *)
theory Memory
  imports Prelude
begin

text \<open>
  The C memory the library works on: a partial map from addresses to bytes. \<open>None\<close> at an
  address means no object lives there, so that reading or writing it has no defined result.
  Addresses are integers; 0 is NULL. Scalars are stored little-endian, as on the targets.
\<close>

type_synonym addr = int
type_synonym mem = "addr \<Rightarrow> u8 option"

abbreviation (input) NULL :: addr where "NULL \<equiv> 0"

section \<open>Reading and writing bytes\<close>

primrec load_bytes :: "mem \<Rightarrow> addr \<Rightarrow> nat \<Rightarrow> u8 list option" where
  "load_bytes m a 0 = Some []"
| "load_bytes m a (Suc n) = (case m a of None \<Rightarrow> None
     | Some b \<Rightarrow> map_option ((#) b) (load_bytes m (a + 1) n))"

primrec store_bytes :: "mem \<Rightarrow> addr \<Rightarrow> u8 list \<Rightarrow> mem option" where
  "store_bytes m a [] = Some m"
| "store_bytes m a (b # bs) = (case m a of None \<Rightarrow> None
     | Some _ \<Rightarrow> store_bytes (m(a \<mapsto> b)) (a + 1) bs)"

definition load_u8 :: "mem \<Rightarrow> addr \<Rightarrow> u8 option" where
  "load_u8 m a = m a"

definition load_u16 :: "mem \<Rightarrow> addr \<Rightarrow> 16 word option" where
  "load_u16 m a = map_option word_of_bytes (load_bytes m a 2)"

definition load_u32 :: "mem \<Rightarrow> addr \<Rightarrow> u32 option" where
  "load_u32 m a = map_option word_of_bytes (load_bytes m a 4)"

definition load_u64 :: "mem \<Rightarrow> addr \<Rightarrow> u64 option" where
  "load_u64 m a = map_option word_of_bytes (load_bytes m a 8)"

definition load_ptr :: "mem \<Rightarrow> addr \<Rightarrow> addr option" where
  "load_ptr m a = map_option uint (load_u64 m a)"

definition load_bool :: "mem \<Rightarrow> addr \<Rightarrow> bool option" where
  "load_bool m a = map_option (\<lambda>b. b \<noteq> 0) (m a)"

definition store_u32 :: "mem \<Rightarrow> addr \<Rightarrow> u32 \<Rightarrow> mem option" where
  "store_u32 m a v = store_bytes m a (bytes_of_word 4 v)"

definition store_ptr :: "mem \<Rightarrow> addr \<Rightarrow> addr \<Rightarrow> mem option" where
  "store_ptr m a p = store_bytes m a (bytes_of_word 8 (word_of_int p :: u64))"

definition store_bool :: "mem \<Rightarrow> addr \<Rightarrow> bool \<Rightarrow> mem option" where
  "store_bool m a v = store_bytes m a [if v then 1 else 0]"

text \<open>\<open>mapped m a n\<close>: the \<open>n\<close> bytes from \<open>a\<close> on belong to objects.\<close>

definition mapped :: "mem \<Rightarrow> addr \<Rightarrow> nat \<Rightarrow> bool" where
  "mapped m a n \<longleftrightarrow> (\<forall>i < n. m (a + int i) \<noteq> None)"

section \<open>Laws of memory\<close>

lemma mapped_0 [simp]: "mapped m a 0"
  by (simp add: mapped_def)

lemma mapped_Suc: "mapped m a (Suc n) \<longleftrightarrow> m a \<noteq> None \<and> mapped m (a + 1) n"
proof -
  have "(\<forall>i < Suc n. m (a + int i) \<noteq> None) \<longleftrightarrow>
      m a \<noteq> None \<and> (\<forall>i < n. m (a + int (Suc i)) \<noteq> None)"
    by (auto simp: less_Suc_eq_0_disj)
  then show ?thesis by (simp add: mapped_def algebra_simps)
qed

lemma mapped_mono: "mapped m a n \<Longrightarrow> k \<le> n \<Longrightarrow> mapped m a k"
  by (simp add: mapped_def)

lemma mapped_sub: "mapped m a n \<Longrightarrow> j + k \<le> n \<Longrightarrow> mapped m (a + int j) k"
  by (auto simp: mapped_def add.assoc simp flip: of_nat_add)

lemma load_bytes_length: "load_bytes m a n = Some bs \<Longrightarrow> length bs = n"
  by (induction n arbitrary: a bs) (auto split: option.splits)

lemma load_bytes_mapped: "(\<exists>bs. load_bytes m a n = Some bs) \<longleftrightarrow> mapped m a n"
  by (induction n arbitrary: a) (auto simp: mapped_Suc split: option.splits)

lemma load_bytes_Some_mapped [simp]: "load_bytes m a n = Some bs \<Longrightarrow> mapped m a n"
  using load_bytes_mapped by blast

lemma load_bytes_nth:
  "load_bytes m a n = Some bs \<Longrightarrow> i < n \<Longrightarrow> m (a + int i) = Some (bs ! i)"
proof (induction n arbitrary: a bs i)
  case (Suc n)
  then show ?case
    by (cases i) (fastforce simp: add.assoc [symmetric] split: option.splits)+
qed simp

lemma load_bytes_add:
  "load_bytes m a (j + k) = (case load_bytes m a j of None \<Rightarrow> None
     | Some bs \<Rightarrow> map_option ((@) bs) (load_bytes m (a + int j) k))"
proof (induction j arbitrary: a)
  case (Suc j)
  have "map_option ((#) x) (map_option ((@) bs) r) = map_option ((@) (x # bs)) r" for x :: u8 and bs r
    by (cases r) simp_all
  then show ?case
    by (auto simp: Suc add.assoc split: option.splits)
qed (auto simp: option.map_ident_strong)

lemma load_bytes_cong:
  "(\<And>i. i < n \<Longrightarrow> m (a + int i) = m' (a + int i)) \<Longrightarrow> load_bytes m a n = load_bytes m' a n"
proof (induction n arbitrary: a)
  case (Suc n)
  have "m a = m' a" using Suc.prems [of 0] by simp
  moreover have "load_bytes m (a + 1) n = load_bytes m' (a + 1) n"
    by (rule Suc.IH) (use Suc.prems [of "Suc i" for i] in \<open>auto simp: algebra_simps\<close>)
  ultimately show ?case by (simp only: load_bytes.simps)
qed simp

lemma mapped_upd [simp]: "m x \<noteq> None \<Longrightarrow> mapped (m(x \<mapsto> b)) a n \<longleftrightarrow> mapped m a n"
  unfolding mapped_def by (metis domIff dom_fun_upd insert_absorb option.discI)

lemma store_bytes_defined: "(\<exists>m'. store_bytes m a bs = Some m') \<longleftrightarrow> mapped m a (length bs)"
proof (induction bs arbitrary: m a)
  case (Cons b bs)
  show ?case
  proof (cases "m a")
    case (Some c)
    then have "mapped (m(a \<mapsto> b)) (a + 1) (length bs) \<longleftrightarrow> mapped m (a + 1) (length bs)"
      by (intro mapped_upd) simp
    with Some Cons [of "m(a \<mapsto> b)" "a + 1"] show ?thesis
      by (simp add: mapped_Suc del: fun_upd_apply)
  qed (simp add: mapped_Suc)
qed simp

lemma store_bytes_outside:
  "store_bytes m a bs = Some m' \<Longrightarrow> x < a \<or> a + int (length bs) \<le> x \<Longrightarrow> m' x = m x"
proof (induction bs arbitrary: m a)
  case (Cons b bs)
  then have "store_bytes (m(a \<mapsto> b)) (a + 1) bs = Some m'"
    by (auto split: option.splits)
  then have "m' x = (m(a \<mapsto> b)) x"
    by (rule Cons.IH) (use Cons.prems in auto)
  with Cons.prems show ?case by auto
qed simp

lemma store_bytes_inside:
  "store_bytes m a bs = Some m' \<Longrightarrow> i < length bs \<Longrightarrow> m' (a + int i) = Some (bs ! i)"
proof (induction bs arbitrary: m a i)
  case (Cons b bs)
  then have st: "store_bytes (m(a \<mapsto> b)) (a + 1) bs = Some m'"
    by (auto split: option.splits)
  show ?case
  proof (cases i)
    case 0
    with store_bytes_outside [OF st, of a] show ?thesis by simp
  next
    case (Suc j)
    with Cons.IH [OF st, of j] Cons.prems show ?thesis
      by (simp add: algebra_simps)
  qed
qed simp

lemma store_bytes_dom: "store_bytes m a bs = Some m' \<Longrightarrow> dom m' = dom m"
  by (induction bs arbitrary: m a) (auto split: option.splits)

lemma store_bytes_mapped: "store_bytes m a bs = Some m' \<Longrightarrow> mapped m' b n \<longleftrightarrow> mapped m b n"
  unfolding mapped_def by (metis domIff store_bytes_dom)

lemma load_store_same:
  assumes "store_bytes m a bs = Some m'"
  shows "load_bytes m' a (length bs) = Some bs"
proof -
  have "mapped m' a (length bs)"
    using assms store_bytes_mapped store_bytes_defined by blast
  then obtain cs where cs: "load_bytes m' a (length bs) = Some cs"
    using load_bytes_mapped by blast
  have "cs = bs"
  proof (rule nth_equalityI)
    show "length cs = length bs" using load_bytes_length [OF cs] .
    fix i assume "i < length cs"
    then show "cs ! i = bs ! i"
      using load_bytes_nth [OF cs, of i] store_bytes_inside [OF assms, of i] load_bytes_length [OF cs]
      by simp
  qed
  with cs show ?thesis by simp
qed

lemma load_store_other:
  assumes "store_bytes m a bs = Some m'" "b + int n \<le> a \<or> a + int (length bs) \<le> b"
  shows "load_bytes m' b n = load_bytes m b n"
  by (rule load_bytes_cong) (use store_bytes_outside [OF assms(1)] assms(2) in auto)

section \<open>Images of arrays\<close>

text \<open>A memory that holds the bytes \<open>bs\<close> from address \<open>a\<close> on and nothing else.\<close>

definition bytes_at :: "addr \<Rightarrow> u8 list \<Rightarrow> mem" where
  "bytes_at a bs p = (if a \<le> p \<and> p < a + int (length bs) then Some (bs ! nat (p - a)) else None)"

end
