(* ===== verification/PbTypes.thy ===== *)
theory PbTypes
  imports Memory
begin

text \<open>
  \<open>nanopb/pb.h\<close>: the type codes of a field, the field descriptor, the layouts of the structs
  the library reads through pointers, and the macros the generated descriptor tables are made
  of. The configuration is the one of \<open>Target Support Files/nanopb/nanopb.xcconfig\<close>:
  \<open>PB_FIELD_32BIT\<close> (so \<open>pb_size_t\<close> has 32 bits), \<open>PB_NO_PACKED_STRUCTS\<close> and
  \<open>PB_ENABLE_MALLOC\<close>; error messages and 64-bit support are on, \<open>PB_BUFFER_ONLY\<close> is off.
\<close>

section \<open>Type codes\<close>

type_synonym pb_type = u8
type_synonym pb_size = u32
type_synonym pb_byte = u8

definition PB_LTYPE_VARINT :: pb_type where "PB_LTYPE_VARINT = 0x00"
definition PB_LTYPE_UVARINT :: pb_type where "PB_LTYPE_UVARINT = 0x01"
definition PB_LTYPE_SVARINT :: pb_type where "PB_LTYPE_SVARINT = 0x02"
definition PB_LTYPE_FIXED32 :: pb_type where "PB_LTYPE_FIXED32 = 0x03"
definition PB_LTYPE_FIXED64 :: pb_type where "PB_LTYPE_FIXED64 = 0x04"
definition PB_LTYPE_LAST_PACKABLE :: pb_type where "PB_LTYPE_LAST_PACKABLE = 0x04"
definition PB_LTYPE_BYTES :: pb_type where "PB_LTYPE_BYTES = 0x05"
definition PB_LTYPE_STRING :: pb_type where "PB_LTYPE_STRING = 0x06"
definition PB_LTYPE_SUBMESSAGE :: pb_type where "PB_LTYPE_SUBMESSAGE = 0x07"
definition PB_LTYPE_EXTENSION :: pb_type where "PB_LTYPE_EXTENSION = 0x08"
definition PB_LTYPE_FIXED_LENGTH_BYTES :: pb_type where "PB_LTYPE_FIXED_LENGTH_BYTES = 0x09"
definition PB_LTYPES_COUNT :: nat where "PB_LTYPES_COUNT = 0x0A"

definition PB_HTYPE_REQUIRED :: pb_type where "PB_HTYPE_REQUIRED = 0x00"
definition PB_HTYPE_OPTIONAL :: pb_type where "PB_HTYPE_OPTIONAL = 0x10"
definition PB_HTYPE_REPEATED :: pb_type where "PB_HTYPE_REPEATED = 0x20"
definition PB_HTYPE_ONEOF :: pb_type where "PB_HTYPE_ONEOF = 0x30"

definition PB_ATYPE_STATIC :: pb_type where "PB_ATYPE_STATIC = 0x00"
definition PB_ATYPE_POINTER :: pb_type where "PB_ATYPE_POINTER = 0x80"
definition PB_ATYPE_CALLBACK :: pb_type where "PB_ATYPE_CALLBACK = 0x40"

definition PB_ATYPE :: "pb_type \<Rightarrow> pb_type" where "PB_ATYPE x = x AND 0xC0"
definition PB_HTYPE :: "pb_type \<Rightarrow> pb_type" where "PB_HTYPE x = x AND 0x30"
definition PB_LTYPE :: "pb_type \<Rightarrow> pb_type" where "PB_LTYPE x = x AND 0x0F"

definition PB_SIZE_MAX :: pb_size where "PB_SIZE_MAX = - 1"

lemmas ltype_defs = PB_LTYPE_VARINT_def PB_LTYPE_UVARINT_def PB_LTYPE_SVARINT_def
  PB_LTYPE_FIXED32_def PB_LTYPE_FIXED64_def PB_LTYPE_LAST_PACKABLE_def PB_LTYPE_BYTES_def
  PB_LTYPE_STRING_def PB_LTYPE_SUBMESSAGE_def PB_LTYPE_EXTENSION_def
  PB_LTYPE_FIXED_LENGTH_BYTES_def PB_LTYPES_COUNT_def
lemmas htype_defs = PB_HTYPE_REQUIRED_def PB_HTYPE_OPTIONAL_def PB_HTYPE_REPEATED_def
  PB_HTYPE_ONEOF_def
lemmas atype_defs = PB_ATYPE_STATIC_def PB_ATYPE_POINTER_def PB_ATYPE_CALLBACK_def
lemmas pb_type_defs = ltype_defs htype_defs atype_defs PB_ATYPE_def PB_HTYPE_def PB_LTYPE_def
  PB_SIZE_MAX_def

text \<open>The wire types; a value read from a tag is any three-bit number.\<close>

type_synonym pb_wire_type = u32

definition PB_WT_VARINT :: pb_wire_type where "PB_WT_VARINT = 0"
definition PB_WT_64BIT :: pb_wire_type where "PB_WT_64BIT = 1"
definition PB_WT_STRING :: pb_wire_type where "PB_WT_STRING = 2"
definition PB_WT_32BIT :: pb_wire_type where "PB_WT_32BIT = 5"

lemmas wt_defs = PB_WT_VARINT_def PB_WT_64BIT_def PB_WT_STRING_def PB_WT_32BIT_def

section \<open>The field descriptor\<close>

text \<open>
  \<open>f_size_offset\<close> is the signed \<open>pb_ssize_t\<close>, read with \<open>sint\<close>. \<open>f_ptr\<close> is the
  \<open>const void *ptr\<close>: the address of a submessage's descriptor table, or of a default value,
  or NULL. A descriptor table is the list of its entries before \<open>PB_LAST_FIELD\<close>; indexing it at
  or past its end gives that terminator.
\<close>

record pb_field =
  f_tag :: u32
  f_type :: pb_type
  f_data_offset :: u32
  f_size_offset :: u32
  f_data_size :: u32
  f_array_size :: u32
  f_ptr :: addr

definition PB_LAST_FIELD :: pb_field where
  "PB_LAST_FIELD = \<lparr>f_tag = 0, f_type = 0, f_data_offset = 0, f_size_offset = 0,
     f_data_size = 0, f_array_size = 0, f_ptr = NULL\<rparr>"

definition field_at :: "pb_field list \<Rightarrow> nat \<Rightarrow> pb_field" where
  "field_at fs i = (if i < length fs then fs ! i else PB_LAST_FIELD)"

abbreviation ltype :: "pb_field \<Rightarrow> pb_type" where "ltype f \<equiv> PB_LTYPE (f_type f)"
abbreviation htype :: "pb_field \<Rightarrow> pb_type" where "htype f \<equiv> PB_HTYPE (f_type f)"
abbreviation atype :: "pb_field \<Rightarrow> pb_type" where "atype f \<equiv> PB_ATYPE (f_type f)"

text \<open>A table is well formed when no entry before the terminator has tag 0.\<close>

definition fields_ok :: "pb_field list \<Rightarrow> bool" where
  "fields_ok fs \<longleftrightarrow> (\<forall>f \<in> set fs. f_tag f \<noteq> 0)"

lemma field_at_last [simp]: "length fs \<le> i \<Longrightarrow> field_at fs i = PB_LAST_FIELD"
  by (simp add: field_at_def)

lemma field_at_nth [simp]: "i < length fs \<Longrightarrow> field_at fs i = fs ! i"
  by (simp add: field_at_def)

lemma PB_LAST_FIELD_tag [simp]: "f_tag PB_LAST_FIELD = 0"
  by (simp add: PB_LAST_FIELD_def)

lemma fields_ok_tag: "fields_ok fs \<Longrightarrow> f_tag (field_at fs i) = 0 \<longleftrightarrow> length fs \<le> i"
  by (cases "i < length fs") (auto simp: fields_ok_def)

lemma field_at_tag_nonzero: "f_tag (field_at fs i) \<noteq> 0 \<Longrightarrow> i < length fs"
  by (rule ccontr) simp

section \<open>Struct layouts\<close>

text \<open>
  \<open>pb_bytes_array_t\<close> is a 32-bit size followed by the bytes; \<open>pb_callback_t\<close> a function
  pointer and \<open>arg\<close>; \<open>pb_extension_type_t\<close> two function pointers and \<open>arg\<close>;
  \<open>pb_extension_t\<close> the type, the destination, the next extension and the found flag.
\<close>

definition BYTES_OFFSET :: int where "BYTES_OFFSET = 4"

definition PB_BYTES_ARRAY_T_ALLOCSIZE :: "u32 \<Rightarrow> u64" where
  "PB_BYTES_ARRAY_T_ALLOCSIZE n = ucast n + 4"

definition callback_fn :: "mem \<Rightarrow> addr \<Rightarrow> addr option" where
  "callback_fn m cb = load_ptr m cb"
definition callback_arg :: "addr \<Rightarrow> addr" where
  "callback_arg cb = cb + 8"

definition exttype_decode :: "mem \<Rightarrow> addr \<Rightarrow> addr option" where
  "exttype_decode m t = load_ptr m t"
definition exttype_encode :: "mem \<Rightarrow> addr \<Rightarrow> addr option" where
  "exttype_encode m t = load_ptr m (t + 8)"
definition exttype_arg :: "mem \<Rightarrow> addr \<Rightarrow> addr option" where
  "exttype_arg m t = load_ptr m (t + 16)"

definition ext_type :: "mem \<Rightarrow> addr \<Rightarrow> addr option" where
  "ext_type m e = load_ptr m e"
definition ext_dest :: "addr \<Rightarrow> addr" where
  "ext_dest e = e + 8"
definition ext_next :: "mem \<Rightarrow> addr \<Rightarrow> addr option" where
  "ext_next m e = load_ptr m (e + 16)"
definition ext_found :: "addr \<Rightarrow> addr" where
  "ext_found e = e + 24"

section \<open>The descriptor macros\<close>

text \<open>
  What \<open>offsetof\<close> and \<open>sizeof\<close> say of a struct member: its offset, its size and the size of
  one element (\<open>m[0]\<close>, for arrays and for what a pointer member points to).
\<close>

record c_member =
  cm_offset :: nat
  cm_size :: nat
  cm_elem :: nat

definition pb_membersize :: "c_member \<Rightarrow> u32" where
  "pb_membersize m = of_nat (cm_size m)"

definition pb_arraysize :: "c_member \<Rightarrow> u32" where
  "pb_arraysize m = of_nat (cm_size m div cm_elem m)"

definition pb_delta :: "c_member \<Rightarrow> c_member \<Rightarrow> u32" where
  "pb_delta m1 m2 = word_of_int (int (cm_offset m1) - int (cm_offset m2))"

definition PB_DATAOFFSET_FIRST :: "c_member \<Rightarrow> c_member \<Rightarrow> u32" where
  "PB_DATAOFFSET_FIRST m1 m2 = of_nat (cm_offset m1)"

definition PB_DATAOFFSET_OTHER :: "c_member \<Rightarrow> c_member \<Rightarrow> u32" where
  "PB_DATAOFFSET_OTHER m1 m2 =
     word_of_int (int (cm_offset m1) - int (cm_offset m2) - int (cm_size m2))"

definition PB_DATAOFFSET_UNION :: "c_member \<Rightarrow> c_member \<Rightarrow> u32" where
  "PB_DATAOFFSET_UNION m1 m2 = PB_SIZE_MAX"

definition PB_REQUIRED_STATIC :: "u32 \<Rightarrow> c_member \<Rightarrow> u32 \<Rightarrow> pb_type \<Rightarrow> addr \<Rightarrow> pb_field" where
  "PB_REQUIRED_STATIC tag m fd lty p = \<lparr>f_tag = tag,
     f_type = PB_ATYPE_STATIC OR PB_HTYPE_REQUIRED OR lty, f_data_offset = fd,
     f_size_offset = 0, f_data_size = pb_membersize m, f_array_size = 0, f_ptr = p\<rparr>"

definition PB_OPTIONAL_STATIC ::
    "u32 \<Rightarrow> c_member \<Rightarrow> c_member \<Rightarrow> u32 \<Rightarrow> pb_type \<Rightarrow> addr \<Rightarrow> pb_field" where
  "PB_OPTIONAL_STATIC tag has m fd lty p = \<lparr>f_tag = tag,
     f_type = PB_ATYPE_STATIC OR PB_HTYPE_OPTIONAL OR lty, f_data_offset = fd,
     f_size_offset = pb_delta has m, f_data_size = pb_membersize m, f_array_size = 0, f_ptr = p\<rparr>"

definition PB_SINGULAR_STATIC :: "u32 \<Rightarrow> c_member \<Rightarrow> u32 \<Rightarrow> pb_type \<Rightarrow> addr \<Rightarrow> pb_field" where
  "PB_SINGULAR_STATIC tag m fd lty p = \<lparr>f_tag = tag,
     f_type = PB_ATYPE_STATIC OR PB_HTYPE_OPTIONAL OR lty, f_data_offset = fd,
     f_size_offset = 0, f_data_size = pb_membersize m, f_array_size = 0, f_ptr = p\<rparr>"

definition PB_REPEATED_STATIC ::
    "u32 \<Rightarrow> c_member \<Rightarrow> c_member \<Rightarrow> u32 \<Rightarrow> pb_type \<Rightarrow> addr \<Rightarrow> pb_field" where
  "PB_REPEATED_STATIC tag cnt m fd lty p = \<lparr>f_tag = tag,
     f_type = PB_ATYPE_STATIC OR PB_HTYPE_REPEATED OR lty, f_data_offset = fd,
     f_size_offset = pb_delta cnt m, f_data_size = of_nat (cm_elem m),
     f_array_size = pb_arraysize m, f_ptr = p\<rparr>"

definition PB_REQUIRED_POINTER :: "u32 \<Rightarrow> c_member \<Rightarrow> u32 \<Rightarrow> pb_type \<Rightarrow> addr \<Rightarrow> pb_field" where
  "PB_REQUIRED_POINTER tag m fd lty p = \<lparr>f_tag = tag,
     f_type = PB_ATYPE_POINTER OR PB_HTYPE_REQUIRED OR lty, f_data_offset = fd,
     f_size_offset = 0, f_data_size = of_nat (cm_elem m), f_array_size = 0, f_ptr = p\<rparr>"

definition PB_OPTIONAL_POINTER :: "u32 \<Rightarrow> c_member \<Rightarrow> u32 \<Rightarrow> pb_type \<Rightarrow> addr \<Rightarrow> pb_field" where
  "PB_OPTIONAL_POINTER tag m fd lty p = \<lparr>f_tag = tag,
     f_type = PB_ATYPE_POINTER OR PB_HTYPE_OPTIONAL OR lty, f_data_offset = fd,
     f_size_offset = 0, f_data_size = of_nat (cm_elem m), f_array_size = 0, f_ptr = p\<rparr>"

definition PB_REPEATED_POINTER ::
    "u32 \<Rightarrow> c_member \<Rightarrow> c_member \<Rightarrow> u32 \<Rightarrow> pb_type \<Rightarrow> addr \<Rightarrow> pb_field" where
  "PB_REPEATED_POINTER tag cnt m fd lty p = \<lparr>f_tag = tag,
     f_type = PB_ATYPE_POINTER OR PB_HTYPE_REPEATED OR lty, f_data_offset = fd,
     f_size_offset = pb_delta cnt m, f_data_size = of_nat (cm_elem m), f_array_size = 0,
     f_ptr = p\<rparr>"

definition PB_CALLBACK :: "pb_type \<Rightarrow> u32 \<Rightarrow> c_member \<Rightarrow> u32 \<Rightarrow> pb_type \<Rightarrow> addr \<Rightarrow> pb_field" where
  "PB_CALLBACK hty tag m fd lty p = \<lparr>f_tag = tag,
     f_type = PB_ATYPE_CALLBACK OR hty OR lty, f_data_offset = fd,
     f_size_offset = 0, f_data_size = pb_membersize m, f_array_size = 0, f_ptr = p\<rparr>"

definition PB_OPTEXT_STATIC :: "u32 \<Rightarrow> c_member \<Rightarrow> u32 \<Rightarrow> pb_type \<Rightarrow> addr \<Rightarrow> pb_field" where
  "PB_OPTEXT_STATIC tag m fd lty p = \<lparr>f_tag = tag,
     f_type = PB_ATYPE_STATIC OR PB_HTYPE_REQUIRED OR lty, f_data_offset = 0,
     f_size_offset = 0, f_data_size = pb_membersize m, f_array_size = 0, f_ptr = p\<rparr>"

definition PB_REPEATED_FIXED_COUNT :: "u32 \<Rightarrow> c_member \<Rightarrow> u32 \<Rightarrow> pb_type \<Rightarrow> addr \<Rightarrow> pb_field" where
  "PB_REPEATED_FIXED_COUNT tag m fd lty p = \<lparr>f_tag = tag,
     f_type = PB_ATYPE_STATIC OR PB_HTYPE_REPEATED OR lty, f_data_offset = fd,
     f_size_offset = 0, f_data_size = of_nat (cm_elem m),
     f_array_size = pb_arraysize m, f_ptr = p\<rparr>"

definition PB_ONEOF_STATIC ::
    "u32 \<Rightarrow> c_member \<Rightarrow> c_member \<Rightarrow> u32 \<Rightarrow> pb_type \<Rightarrow> addr \<Rightarrow> pb_field" where
  "PB_ONEOF_STATIC tag which m fd lty p = \<lparr>f_tag = tag,
     f_type = PB_ATYPE_STATIC OR PB_HTYPE_ONEOF OR lty, f_data_offset = fd,
     f_size_offset = pb_delta which m, f_data_size = pb_membersize m, f_array_size = 0,
     f_ptr = p\<rparr>"

definition PB_ONEOF_POINTER ::
    "u32 \<Rightarrow> c_member \<Rightarrow> c_member \<Rightarrow> u32 \<Rightarrow> pb_type \<Rightarrow> addr \<Rightarrow> pb_field" where
  "PB_ONEOF_POINTER tag which m fd lty p = \<lparr>f_tag = tag,
     f_type = PB_ATYPE_POINTER OR PB_HTYPE_ONEOF OR lty, f_data_offset = fd,
     f_size_offset = pb_delta which m, f_data_size = of_nat (cm_elem m), f_array_size = 0,
     f_ptr = p\<rparr>"

lemmas macro_defs = PB_REQUIRED_STATIC_def PB_OPTIONAL_STATIC_def PB_SINGULAR_STATIC_def
  PB_REPEATED_STATIC_def PB_REQUIRED_POINTER_def PB_OPTIONAL_POINTER_def
  PB_REPEATED_POINTER_def PB_CALLBACK_def PB_OPTEXT_STATIC_def PB_REPEATED_FIXED_COUNT_def
  PB_ONEOF_STATIC_def PB_ONEOF_POINTER_def pb_membersize_def pb_arraysize_def pb_delta_def
  PB_DATAOFFSET_FIRST_def PB_DATAOFFSET_OTHER_def PB_DATAOFFSET_UNION_def

section \<open>\<open>PB_FIELD\<close>\<close>

text \<open>
  The arguments of the macros the generator writes a descriptor table with. \<open>aux\<close> is the
  \<open>has_\<close>, \<open>_count\<close> or \<open>which_\<close> member that goes with the field; \<open>ANONYMOUS_ONEOF\<close> differs from
  \<open>ONEOF\<close> only in how the C member is named.
\<close>

datatype pb_proto_type = BOOL | BYTES | DOUBLE | ENUM | UENUM | FIXED32 | FIXED64 | FLOAT | INT32
  | INT64 | MESSAGE | SFIXED32 | SFIXED64 | SINT32 | SINT64 | STRING | UINT32 | UINT64
  | EXTENSION | FIXED_LENGTH_BYTES

datatype pb_rules = REQUIRED | OPTIONAL | SINGULAR | REPEATED | OPTEXT
datatype pb_allocation = STATIC | POINTER | CALLBACK
datatype pb_placement = FIRST | OTHER | UNION

fun PB_LTYPE_MAP :: "pb_proto_type \<Rightarrow> pb_type" where
  "PB_LTYPE_MAP BOOL = PB_LTYPE_VARINT"
| "PB_LTYPE_MAP BYTES = PB_LTYPE_BYTES"
| "PB_LTYPE_MAP DOUBLE = PB_LTYPE_FIXED64"
| "PB_LTYPE_MAP ENUM = PB_LTYPE_VARINT"
| "PB_LTYPE_MAP UENUM = PB_LTYPE_UVARINT"
| "PB_LTYPE_MAP FIXED32 = PB_LTYPE_FIXED32"
| "PB_LTYPE_MAP FIXED64 = PB_LTYPE_FIXED64"
| "PB_LTYPE_MAP FLOAT = PB_LTYPE_FIXED32"
| "PB_LTYPE_MAP INT32 = PB_LTYPE_VARINT"
| "PB_LTYPE_MAP INT64 = PB_LTYPE_VARINT"
| "PB_LTYPE_MAP MESSAGE = PB_LTYPE_SUBMESSAGE"
| "PB_LTYPE_MAP SFIXED32 = PB_LTYPE_FIXED32"
| "PB_LTYPE_MAP SFIXED64 = PB_LTYPE_FIXED64"
| "PB_LTYPE_MAP SINT32 = PB_LTYPE_SVARINT"
| "PB_LTYPE_MAP SINT64 = PB_LTYPE_SVARINT"
| "PB_LTYPE_MAP STRING = PB_LTYPE_STRING"
| "PB_LTYPE_MAP UINT32 = PB_LTYPE_UVARINT"
| "PB_LTYPE_MAP UINT64 = PB_LTYPE_UVARINT"
| "PB_LTYPE_MAP EXTENSION = PB_LTYPE_EXTENSION"
| "PB_LTYPE_MAP FIXED_LENGTH_BYTES = PB_LTYPE_FIXED_LENGTH_BYTES"

fun PB_DATAOFFSET :: "pb_placement \<Rightarrow> c_member \<Rightarrow> c_member \<Rightarrow> u32" where
  "PB_DATAOFFSET FIRST m prev = PB_DATAOFFSET_FIRST m prev"
| "PB_DATAOFFSET OTHER m prev = PB_DATAOFFSET_OTHER m prev"
| "PB_DATAOFFSET UNION m prev = PB_DATAOFFSET_UNION m prev"

definition PB_FIELD :: "u32 \<Rightarrow> pb_proto_type \<Rightarrow> pb_rules \<Rightarrow> pb_allocation \<Rightarrow> pb_placement
    \<Rightarrow> c_member \<Rightarrow> c_member \<Rightarrow> c_member \<Rightarrow> addr \<Rightarrow> pb_field" where
  "PB_FIELD tag type rules allocation placement m aux prev p =
     (let fd = PB_DATAOFFSET placement m prev; l = PB_LTYPE_MAP type in
      case (rules, allocation) of
        (REQUIRED, STATIC) \<Rightarrow> PB_REQUIRED_STATIC tag m fd l p
      | (OPTIONAL, STATIC) \<Rightarrow> PB_OPTIONAL_STATIC tag aux m fd l p
      | (SINGULAR, STATIC) \<Rightarrow> PB_SINGULAR_STATIC tag m fd l p
      | (REPEATED, STATIC) \<Rightarrow> PB_REPEATED_STATIC tag aux m fd l p
      | (OPTEXT, STATIC) \<Rightarrow> PB_OPTEXT_STATIC tag m fd l p
      | (REQUIRED, POINTER) \<Rightarrow> PB_REQUIRED_POINTER tag m fd l p
      | (REPEATED, POINTER) \<Rightarrow> PB_REPEATED_POINTER tag aux m fd l p
      | (_, POINTER) \<Rightarrow> PB_OPTIONAL_POINTER tag m fd l p
      | (REQUIRED, CALLBACK) \<Rightarrow> PB_CALLBACK PB_HTYPE_REQUIRED tag m fd l p
      | (REPEATED, CALLBACK) \<Rightarrow> PB_CALLBACK PB_HTYPE_REPEATED tag m fd l p
      | (_, CALLBACK) \<Rightarrow> PB_CALLBACK PB_HTYPE_OPTIONAL tag m fd l p)"

definition PB_ONEOF_FIELD :: "u32 \<Rightarrow> pb_proto_type \<Rightarrow> pb_allocation \<Rightarrow> pb_placement
    \<Rightarrow> c_member \<Rightarrow> c_member \<Rightarrow> c_member \<Rightarrow> addr \<Rightarrow> pb_field" where
  "PB_ONEOF_FIELD tag type allocation placement m which prev p =
     (let fd = PB_DATAOFFSET placement m prev; l = PB_LTYPE_MAP type in
      if allocation = POINTER then PB_ONEOF_POINTER tag which m fd l p
      else PB_ONEOF_STATIC tag which m fd l p)"

text \<open>The three parts of a type byte do not overlap.\<close>

lemma PB_type_or [simp]:
  "PB_HTYPE (x OR y) = PB_HTYPE x OR PB_HTYPE y" "PB_ATYPE (x OR y) = PB_ATYPE x OR PB_ATYPE y"
  "PB_LTYPE (x OR y) = PB_LTYPE x OR PB_LTYPE y"
  by (simp_all add: PB_HTYPE_def PB_ATYPE_def PB_LTYPE_def bit.conj_disj_distrib2)

lemma PB_HTYPE_parts [simp]:
  "PB_HTYPE PB_ATYPE_STATIC = 0" "PB_HTYPE PB_ATYPE_POINTER = 0" "PB_HTYPE PB_ATYPE_CALLBACK = 0"
  "PB_HTYPE PB_HTYPE_REQUIRED = PB_HTYPE_REQUIRED" "PB_HTYPE PB_HTYPE_OPTIONAL = PB_HTYPE_OPTIONAL"
  "PB_HTYPE PB_HTYPE_REPEATED = PB_HTYPE_REPEATED" "PB_HTYPE PB_HTYPE_ONEOF = PB_HTYPE_ONEOF"
  "PB_HTYPE (PB_LTYPE_MAP t) = 0"
  by (simp_all add: pb_type_defs) (cases t; simp add: pb_type_defs)

lemma PB_ATYPE_parts [simp]:
  "PB_ATYPE PB_HTYPE_REQUIRED = 0" "PB_ATYPE PB_HTYPE_OPTIONAL = 0"
  "PB_ATYPE PB_HTYPE_REPEATED = 0" "PB_ATYPE PB_HTYPE_ONEOF = 0"
  "PB_ATYPE PB_ATYPE_STATIC = PB_ATYPE_STATIC" "PB_ATYPE PB_ATYPE_POINTER = PB_ATYPE_POINTER"
  "PB_ATYPE PB_ATYPE_CALLBACK = PB_ATYPE_CALLBACK"
  "PB_ATYPE (PB_LTYPE_MAP t) = 0"
  by (simp_all add: pb_type_defs) (cases t; simp add: pb_type_defs)

lemma PB_LTYPE_parts [simp]:
  "PB_LTYPE PB_ATYPE_STATIC = 0" "PB_LTYPE PB_ATYPE_POINTER = 0" "PB_LTYPE PB_ATYPE_CALLBACK = 0"
  "PB_LTYPE PB_HTYPE_REQUIRED = 0" "PB_LTYPE PB_HTYPE_OPTIONAL = 0"
  "PB_LTYPE PB_HTYPE_REPEATED = 0" "PB_LTYPE PB_HTYPE_ONEOF = 0"
  "PB_LTYPE (PB_LTYPE_MAP t) = PB_LTYPE_MAP t"
  by (simp_all add: pb_type_defs) (cases t; simp add: pb_type_defs)

lemma htype_distinct [simp]:
  "PB_HTYPE_REQUIRED \<noteq> PB_HTYPE_OPTIONAL" "PB_HTYPE_OPTIONAL \<noteq> PB_HTYPE_REQUIRED"
  "PB_HTYPE_REQUIRED \<noteq> PB_HTYPE_REPEATED" "PB_HTYPE_REPEATED \<noteq> PB_HTYPE_REQUIRED"
  "PB_HTYPE_REQUIRED \<noteq> PB_HTYPE_ONEOF" "PB_HTYPE_ONEOF \<noteq> PB_HTYPE_REQUIRED"
  "PB_HTYPE_OPTIONAL \<noteq> PB_HTYPE_REPEATED" "PB_HTYPE_REPEATED \<noteq> PB_HTYPE_OPTIONAL"
  "PB_HTYPE_OPTIONAL \<noteq> PB_HTYPE_ONEOF" "PB_HTYPE_ONEOF \<noteq> PB_HTYPE_OPTIONAL"
  "PB_HTYPE_REPEATED \<noteq> PB_HTYPE_ONEOF" "PB_HTYPE_ONEOF \<noteq> PB_HTYPE_REPEATED"
  by (simp_all add: htype_defs)

lemma atype_distinct [simp]:
  "PB_ATYPE_STATIC \<noteq> PB_ATYPE_POINTER" "PB_ATYPE_POINTER \<noteq> PB_ATYPE_STATIC"
  "PB_ATYPE_STATIC \<noteq> PB_ATYPE_CALLBACK" "PB_ATYPE_CALLBACK \<noteq> PB_ATYPE_STATIC"
  "PB_ATYPE_POINTER \<noteq> PB_ATYPE_CALLBACK" "PB_ATYPE_CALLBACK \<noteq> PB_ATYPE_POINTER"
  by (simp_all add: atype_defs)

end
