(* ===== verification/IStream.thy ===== *)
theory IStream
  imports PbTypes
begin

text \<open>
  The input half of the stream layer, \<open>nanopb/pb_decode.h\<close> and the parts of
  \<open>nanopb/pb_decode.c\<close> that read from a stream without storing into a message:
  \<open>pb_istream_t\<close>, \<open>buf_read\<close>, \<open>pb_read\<close>, the decoders of varints, tags and fixed-width
  integers, the skipping functions and the substreams.

  The \<open>state\<close> pointer of a memory stream is the list of the bytes from that pointer to the end of
  the array (\<open>IBuf\<close>); the array does not overlap the message being decoded. The \<open>state\<close> of a
  custom stream belongs to its callback, \<open>ie_read\<close>, a parameter: given its state and the
  count, it says whether it succeeded, which bytes it put at the start of the buffer, and its
  new state. By the rules in \<open>pb_decode.h\<close> it changes nothing else, never writes past the count,
  and has filled the buffer when it returns true; a callback that breaks them has no outcome.

  A read returns the bytes it stored in the caller's buffer, also where it fails half-way.
\<close>

datatype icallback = IBufRead | IUser

datatype 'u istate = IBuf "u8 list" | IUserState 'u

record 'u istream =
  i_callback :: icallback
  i_state :: "'u istate"
  i_bytes_left :: u64
  i_errmsg :: "string option"

record 'u ienv =
  ie_read :: "'u \<Rightarrow> nat \<Rightarrow> bool \<times> u8 list \<times> 'u"

type_synonym 'u read_result = "(bool \<times> u8 list \<times> 'u istream) option"

definition i_set_error :: "string \<Rightarrow> 'u istream \<Rightarrow> 'u istream" where
  "i_set_error msg s = s\<lparr>i_errmsg := (case i_errmsg s of None \<Rightarrow> Some msg | Some e \<Rightarrow> Some e)\<rparr>"

definition i_return_error :: "string \<Rightarrow> 'u istream \<Rightarrow> 'u istream outcome" where
  "i_return_error msg s = Some (False, i_set_error msg s)"

definition i_value_error :: "string \<Rightarrow> 'u istream \<Rightarrow> ('v, 'u istream) valued" where
  "i_value_error msg s = Some (None, i_set_error msg s)"

section \<open>Reading\<close>

definition buf_read :: "'u istream \<Rightarrow> bool \<Rightarrow> u64 \<Rightarrow> 'u read_result" where
  "buf_read s null count = (case i_state s of
     IBuf rest \<Rightarrow>
       (if unat count \<le> length rest
        then Some (True, if null then [] else take (unat count) rest,
                   s\<lparr>i_state := IBuf (drop (unat count) rest)\<rparr>)
        else None)
   | IUserState _ \<Rightarrow> None)"

definition call_istream :: "'u ienv \<Rightarrow> 'u istream \<Rightarrow> bool \<Rightarrow> u64 \<Rightarrow> 'u read_result" where
  "call_istream env s null count = (case i_callback s of
     IBufRead \<Rightarrow> buf_read s null count
   | IUser \<Rightarrow> (case i_state s of
        IBuf _ \<Rightarrow> None
      | IUserState u \<Rightarrow> (case ie_read env u (unat count) of (ok, bs, u') \<Rightarrow>
          if length bs \<le> unat count \<and> (ok \<longrightarrow> length bs = unat count)
          then Some (ok, bs, s\<lparr>i_state := IUserState u'\<rparr>) else None)))"

text \<open>The part of \<open>pb_read\<close> behind the skipping loop, and that loop (16 bytes at a time).\<close>

definition read_chunk :: "'u ienv \<Rightarrow> bool \<Rightarrow> u64 \<Rightarrow> 'u istream \<Rightarrow> 'u read_result" where
  "read_chunk env null count s =
     (if i_bytes_left s < count then Some (False, [], i_set_error ''end-of-stream'' s)
      else (case call_istream env s null count of
          None \<Rightarrow> None
        | Some (False, bs, s) \<Rightarrow> Some (False, bs, i_set_error ''io error'' s)
        | Some (True, bs, s) \<Rightarrow> Some (True, bs, s\<lparr>i_bytes_left := i_bytes_left s - count\<rparr>)))"

function skip_chunks :: "'u ienv \<Rightarrow> u64 \<Rightarrow> 'u istream \<Rightarrow> 'u istream outcome" where
  "skip_chunks env count s =
     (if 16 < count
      then (case read_chunk env False 16 s of
          None \<Rightarrow> None
        | Some (False, _, s) \<Rightarrow> Some (False, s)
        | Some (True, _, s) \<Rightarrow> skip_chunks env (count - 16) s)
      else (case read_chunk env False count s of
          None \<Rightarrow> None
        | Some (ok, _, s) \<Rightarrow> Some (ok, s)))"
  by pat_completeness auto
termination
  by (relation "measure (\<lambda>(env, count, s). unat count)")
    (auto simp: word_less_nat_alt unat_sub_if')

declare skip_chunks.simps [simp del]

definition pb_read :: "'u ienv \<Rightarrow> bool \<Rightarrow> u64 \<Rightarrow> 'u istream \<Rightarrow> 'u read_result" where
  "pb_read env null count s =
     (if null \<and> i_callback s \<noteq> IBufRead
      then map_option (\<lambda>(ok, s). (ok, [], s)) (skip_chunks env count s)
      else read_chunk env null count s)"

lemma pb_read_False [simp]: "pb_read env False count s = read_chunk env False count s"
  by (simp add: pb_read_def)

text \<open>\<open>pb_read(stream, NULL, count)\<close>.\<close>

definition pb_skip :: "'u ienv \<Rightarrow> u64 \<Rightarrow> 'u istream \<Rightarrow> 'u istream outcome" where
  "pb_skip env count s = map_option (\<lambda>(ok, _, s). (ok, s)) (pb_read env True count s)"

definition pb_readbyte :: "'u ienv \<Rightarrow> 'u istream \<Rightarrow> (u8, 'u istream) valued" where
  "pb_readbyte env s =
     (if i_bytes_left s = 0 then i_value_error ''end-of-stream'' s
      else (case call_istream env s False 1 of
          None \<Rightarrow> None
        | Some (False, _, s) \<Rightarrow> i_value_error ''io error'' s
        | Some (True, bs, s) \<Rightarrow> Some (Some (hd bs), s\<lparr>i_bytes_left := i_bytes_left s - 1\<rparr>)))"

definition pb_istream_from_buffer :: "u8 list \<Rightarrow> u64 \<Rightarrow> 'u istream" where
  "pb_istream_from_buffer buf bufsize = \<lparr>i_callback = IBufRead, i_state = IBuf buf,
     i_bytes_left = bufsize, i_errmsg = None\<rparr>"

section \<open>Every read uses up the stream\<close>

lemma call_istream_bytes_left:
  "call_istream env s null count = Some (ok, bs, s') \<Longrightarrow> i_bytes_left s' = i_bytes_left s"
  by (auto simp: call_istream_def buf_read_def Let_def split: icallback.splits istate.splits if_splits prod.splits)

lemma call_istream_length:
  "call_istream env s False count = Some (True, bs, s') \<Longrightarrow> length bs = unat count"
  by (auto simp: call_istream_def buf_read_def split: icallback.splits istate.splits if_splits prod.splits)

lemma pb_readbyte_bytes_left:
  assumes "pb_readbyte env s = Some (Some b, s')"
  shows "i_bytes_left s \<noteq> 0" "i_bytes_left s' = i_bytes_left s - 1"
    "unat (i_bytes_left s') < unat (i_bytes_left s)"
proof -
  show a: "i_bytes_left s \<noteq> 0" and b: "i_bytes_left s' = i_bytes_left s - 1"
    using assms by (auto simp: pb_readbyte_def i_value_error_def split: if_splits option.splits bool.splits
        dest!: call_istream_bytes_left)
  show "unat (i_bytes_left s') < unat (i_bytes_left s)"
    using a b by (simp add: unat_gt_0 unat_minus_one)
qed

lemma read_chunk_bytes_left:
  assumes "read_chunk env null count s = Some (True, bs, s')"
  shows "count \<le> i_bytes_left s" "i_bytes_left s' = i_bytes_left s - count"
    "unat (i_bytes_left s') = unat (i_bytes_left s) - unat count"
proof -
  show a: "count \<le> i_bytes_left s" and b: "i_bytes_left s' = i_bytes_left s - count"
    using assms by (auto simp: read_chunk_def split: if_splits option.splits bool.splits
        dest!: call_istream_bytes_left)
  show "unat (i_bytes_left s') = unat (i_bytes_left s) - unat count"
    using a b by (simp add: unat_sub_if' word_le_nat_alt)
qed

lemma read_byte_bytes_left:
  assumes "read_chunk env False 1 s = Some (True, bs, s')"
  shows "unat (i_bytes_left s') < unat (i_bytes_left s)"
proof -
  have "1 \<le> unat (i_bytes_left s)"
    using read_chunk_bytes_left(1) [OF assms] by (simp add: word_le_nat_alt)
  with read_chunk_bytes_left(3) [OF assms] show ?thesis by simp
qed

section \<open>Varints\<close>

text \<open>
  The loop of \<open>pb_decode_varint32_eof\<close> behind its first byte. \<open>bitpos\<close> is a \<open>uint_fast8_t\<close>,
  8 bits wide on these targets, and wraps.
\<close>

function varint32_loop :: "'u ienv \<Rightarrow> u8 \<Rightarrow> u32 \<Rightarrow> 'u istream \<Rightarrow> (u32, 'u istream) valued" where
  "varint32_loop env bitpos result s = (case pb_readbyte env s of
     None \<Rightarrow> None
   | Some (None, s) \<Rightarrow> Some (None, s)
   | Some (Some byte, s) \<Rightarrow>
      (let sign_extension = (if bitpos < 63 then 0xFF else 0x01 :: u8) in
       if 32 \<le> bitpos \<and> byte AND 0x7F \<noteq> 0 \<and> (drop_bit 31 result = 0 \<or> byte \<noteq> sign_extension)
       then i_value_error ''varint overflow'' s
       else
        (let result = (if 32 \<le> bitpos then result
                       else result OR push_bit (unat bitpos) (ucast (byte AND 0x7F)));
             bitpos = bitpos + 7 in
         if byte AND 0x80 \<noteq> 0 then varint32_loop env bitpos result s
         else if bitpos = 35 \<and> byte AND 0x70 \<noteq> 0 then i_value_error ''varint overflow'' s
         else Some (Some result, s))))"
  by pat_completeness auto
termination
  by (relation "measure (\<lambda>(env, bitpos, result, s). unat (i_bytes_left s))")
    (auto dest: pb_readbyte_bytes_left(3))

declare varint32_loop.simps [simp del]

text \<open>The result, and whether \<open>*eof\<close> is set.\<close>

definition pb_decode_varint32_eof :: "'u ienv \<Rightarrow> 'u istream \<Rightarrow> (u32 option \<times> bool \<times> 'u istream) option" where
  "pb_decode_varint32_eof env s = (case pb_readbyte env s of
     None \<Rightarrow> None
   | Some (None, s) \<Rightarrow> Some (None, i_bytes_left s = 0, s)
   | Some (Some byte, s) \<Rightarrow>
       (if byte AND 0x80 = 0 then Some (Some (ucast byte), False, s)
        else map_option (\<lambda>(r, s). (r, False, s)) (varint32_loop env 7 (ucast (byte AND 0x7F)) s)))"

definition pb_decode_varint32 :: "'u ienv \<Rightarrow> 'u istream \<Rightarrow> (u32, 'u istream) valued" where
  "pb_decode_varint32 env s = map_option (\<lambda>(r, _, s). (r, s)) (pb_decode_varint32_eof env s)"

function varint_loop :: "'u ienv \<Rightarrow> u8 \<Rightarrow> u64 \<Rightarrow> 'u istream \<Rightarrow> (u64, 'u istream) valued" where
  "varint_loop env bitpos result s =
     (if 64 \<le> bitpos then i_value_error ''varint overflow'' s
      else case pb_readbyte env s of
          None \<Rightarrow> None
        | Some (None, s) \<Rightarrow> Some (None, s)
        | Some (Some byte, s) \<Rightarrow>
           (let result = result OR push_bit (unat bitpos) (ucast (byte AND 0x7F)) in
            if byte AND 0x80 \<noteq> 0 then varint_loop env (bitpos + 7) result s
            else Some (Some result, s)))"
  by pat_completeness auto
termination
  by (relation "measure (\<lambda>(env, bitpos, result, s). unat (i_bytes_left s))")
    (auto dest: pb_readbyte_bytes_left(3))

declare varint_loop.simps [simp del]

definition pb_decode_varint :: "'u ienv \<Rightarrow> 'u istream \<Rightarrow> (u64, 'u istream) valued" where
  "pb_decode_varint env s = varint_loop env 0 0 s"

function pb_skip_varint :: "'u ienv \<Rightarrow> 'u istream \<Rightarrow> 'u istream outcome" where
  "pb_skip_varint env s = (case pb_read env False 1 s of
     None \<Rightarrow> None
   | Some (False, _, s) \<Rightarrow> Some (False, s)
   | Some (True, bs, s) \<Rightarrow> if hd bs AND 0x80 \<noteq> 0 then pb_skip_varint env s else Some (True, s))"
  by pat_completeness auto
termination
  by (relation "measure (\<lambda>(env, s). unat (i_bytes_left s))")
    (auto dest: read_byte_bytes_left)

declare pb_skip_varint.simps [simp del]

section \<open>Tags, strings, fields\<close>

definition pb_skip_string :: "'u ienv \<Rightarrow> 'u istream \<Rightarrow> 'u istream outcome" where
  "pb_skip_string env s = (case pb_decode_varint32 env s of
     None \<Rightarrow> None
   | Some (None, s) \<Rightarrow> Some (False, s)
   | Some (Some n, s) \<Rightarrow> pb_skip env (ucast n) s)"

text \<open>\<open>pb_decode_tag\<close> always sets \<open>*wire_type\<close>, \<open>*tag\<close> and \<open>*eof\<close>.\<close>

record 'u tag_result =
  t_ok :: bool
  t_wire_type :: pb_wire_type
  t_tag :: u32
  t_eof :: bool
  t_stream :: "'u istream"

definition pb_decode_tag :: "'u ienv \<Rightarrow> 'u istream \<Rightarrow> 'u tag_result option" where
  "pb_decode_tag env s = (case pb_decode_varint32_eof env s of
     None \<Rightarrow> None
   | Some (None, eof, s) \<Rightarrow>
       Some \<lparr>t_ok = False, t_wire_type = 0, t_tag = 0, t_eof = eof, t_stream = s\<rparr>
   | Some (Some temp, eof, s) \<Rightarrow>
       (if temp = 0
        then Some \<lparr>t_ok = False, t_wire_type = 0, t_tag = 0, t_eof = True, t_stream = s\<rparr>
        else Some \<lparr>t_ok = True, t_wire_type = temp AND 7, t_tag = drop_bit 3 temp,
                   t_eof = eof, t_stream = s\<rparr>))"

definition pb_skip_field :: "'u ienv \<Rightarrow> pb_wire_type \<Rightarrow> 'u istream \<Rightarrow> 'u istream outcome" where
  "pb_skip_field env wire_type s =
     (if wire_type = PB_WT_VARINT then pb_skip_varint env s
      else if wire_type = PB_WT_64BIT then pb_skip env 8 s
      else if wire_type = PB_WT_STRING then pb_skip_string env s
      else if wire_type = PB_WT_32BIT then pb_skip env 4 s
      else i_return_error ''invalid wire_type'' s)"

text \<open>
  \<open>read_raw_value\<close>: the bytes stored in \<open>buf\<close>; on success \<open>*size\<close> is their number. \<open>got\<close> holds
  the bytes the loop has stored so far.
\<close>

function raw_varint :: "'u ienv \<Rightarrow> nat \<Rightarrow> u8 list \<Rightarrow> 'u istream \<Rightarrow> 'u read_result" where
  "raw_varint env max_size got s =
     (if max_size < Suc (length got) then Some (False, got, s)
      else case pb_read env False 1 s of
          None \<Rightarrow> None
        | Some (False, bs, s) \<Rightarrow> Some (False, got @ bs, s)
        | Some (True, bs, s) \<Rightarrow>
           (if hd bs AND 0x80 \<noteq> 0 then raw_varint env max_size (got @ [hd bs]) s
            else Some (True, got @ [hd bs], s)))"
  by pat_completeness auto
termination
  by (relation "measure (\<lambda>(env, max_size, got, s). max_size - length got)") auto

declare raw_varint.simps [simp del]

definition read_raw_value :: "'u ienv \<Rightarrow> pb_wire_type \<Rightarrow> nat \<Rightarrow> 'u istream \<Rightarrow> 'u read_result" where
  "read_raw_value env wire_type max_size s =
     (if wire_type = PB_WT_VARINT then raw_varint env max_size [] s
      else if wire_type = PB_WT_64BIT then pb_read env False 8 s
      else if wire_type = PB_WT_32BIT then pb_read env False 4 s
      else Some (False, [], i_set_error ''invalid wire_type'' s))"

section \<open>Substreams\<close>

definition pb_make_string_substream :: "'u ienv \<Rightarrow> 'u istream \<Rightarrow> ('u istream, 'u istream) valued" where
  "pb_make_string_substream env s = (case pb_decode_varint32 env s of
     None \<Rightarrow> None
   | Some (None, s) \<Rightarrow> Some (None, s)
   | Some (Some sz, s) \<Rightarrow>
       (if i_bytes_left s < ucast sz then i_value_error ''parent stream too short'' s
        else Some (Some (s\<lparr>i_bytes_left := ucast sz\<rparr>), s\<lparr>i_bytes_left := i_bytes_left s - ucast sz\<rparr>)))"

definition pb_close_string_substream :: "'u ienv \<Rightarrow> 'u istream \<Rightarrow> 'u istream \<Rightarrow> 'u istream outcome" where
  "pb_close_string_substream env sub s =
     (case (if i_bytes_left sub \<noteq> 0 then pb_skip env (i_bytes_left sub) sub else Some (True, sub)) of
        None \<Rightarrow> None
      | Some (False, _) \<Rightarrow> Some (False, s)
      | Some (True, sub) \<Rightarrow> Some (True, s\<lparr>i_state := i_state sub, i_errmsg := i_errmsg sub\<rparr>))"

section \<open>Signed and fixed-width integers\<close>

definition unzigzag :: "u64 \<Rightarrow> u64" where
  "unzigzag value = (if value AND 1 \<noteq> 0 then NOT (drop_bit 1 value) else drop_bit 1 value)"

definition pb_decode_svarint :: "'u ienv \<Rightarrow> 'u istream \<Rightarrow> (u64, 'u istream) valued" where
  "pb_decode_svarint env s =
     map_option (\<lambda>(r, s). (map_option unzigzag r, s)) (pb_decode_varint env s)"

definition fixed32_value :: "u8 list \<Rightarrow> u32" where
  "fixed32_value bs =
     push_bit 0 (ucast (bs ! 0)) OR push_bit 8 (ucast (bs ! 1)) OR
     push_bit 16 (ucast (bs ! 2)) OR push_bit 24 (ucast (bs ! 3))"

definition fixed64_value :: "u8 list \<Rightarrow> u64" where
  "fixed64_value bs =
     push_bit 0 (ucast (bs ! 0)) OR push_bit 8 (ucast (bs ! 1)) OR
     push_bit 16 (ucast (bs ! 2)) OR push_bit 24 (ucast (bs ! 3)) OR
     push_bit 32 (ucast (bs ! 4)) OR push_bit 40 (ucast (bs ! 5)) OR
     push_bit 48 (ucast (bs ! 6)) OR push_bit 56 (ucast (bs ! 7))"

definition pb_decode_fixed32 :: "'u ienv \<Rightarrow> 'u istream \<Rightarrow> (u32, 'u istream) valued" where
  "pb_decode_fixed32 env s = map_option
     (\<lambda>(ok, bs, s). (if ok then Some (fixed32_value bs) else None, s)) (pb_read env False 4 s)"

definition pb_decode_fixed64 :: "'u ienv \<Rightarrow> 'u istream \<Rightarrow> (u64, 'u istream) valued" where
  "pb_decode_fixed64 env s = map_option
     (\<lambda>(ok, bs, s). (if ok then Some (fixed64_value bs) else None, s)) (pb_read env False 8 s)"

end
