(* ===== verification/OStream.thy ===== *)
theory OStream
  imports PbTypes
begin

text \<open>
  The output half of the stream layer, \<open>nanopb/pb_encode.h\<close> and the first and last thirds of
  \<open>nanopb/pb_encode.c\<close>: \<open>pb_ostream_t\<close>, \<open>buf_write\<close>, \<open>pb_write\<close> and the encoders of tags and
  scalars.

  The \<open>state\<close> pointer of a memory stream is the array it writes (\<open>OBuf dest pos\<close>: the array and
  the offset the pointer has reached); the array does not overlap the message being encoded.
  The \<open>state\<close> of a custom stream belongs to its callback, which is code of the application: it
  is a parameter, \<open>oe_write\<close>, and by the rules in \<open>pb_encode.h\<close> changes nothing but that state.

  The argument \<open>buf\<close> of a write is \<open>Some bytes\<close>, or \<open>None\<close> where the pointer may not be read;
  a sizing stream never reads it.
\<close>

datatype ocallback = ONull | OBufWrite | OUser

datatype 'u ostate = ONoState | OBuf "u8 list" nat | OUserState 'u

record 'u ostream =
  o_callback :: ocallback
  o_state :: "'u ostate"
  o_max_size :: u64
  o_bytes_written :: u64
  o_errmsg :: "string option"

text \<open>
  What an encoding run is given: the memory of the message, the descriptor tables by address,
  and the application's callbacks: the stream's, the encode callbacks of callback fields by
  function pointer, and the encode handlers of extension types by function pointer.
\<close>

record 'u oenv =
  oe_mem :: mem
  oe_fields :: "addr \<Rightarrow> pb_field list option"
  oe_write :: "'u \<Rightarrow> u8 list \<Rightarrow> bool \<times> 'u"
  oe_encode_cb :: "addr \<Rightarrow> pb_field \<Rightarrow> addr \<Rightarrow> 'u ostream \<Rightarrow> 'u ostream outcome"
  oe_encode_ext :: "addr \<Rightarrow> addr \<Rightarrow> 'u ostream \<Rightarrow> 'u ostream outcome"

definition PB_OSTREAM_SIZING :: "'u ostream" where
  "PB_OSTREAM_SIZING = \<lparr>o_callback = ONull, o_state = ONoState, o_max_size = 0,
     o_bytes_written = 0, o_errmsg = None\<rparr>"

text \<open>\<open>PB_SET_ERROR\<close> keeps the first message; \<open>PB_RETURN_ERROR\<close> also returns false.\<close>

definition o_set_error :: "string \<Rightarrow> 'u ostream \<Rightarrow> 'u ostream" where
  "o_set_error msg s = s\<lparr>o_errmsg := (case o_errmsg s of None \<Rightarrow> Some msg | Some e \<Rightarrow> Some e)\<rparr>"

definition o_return_error :: "string \<Rightarrow> 'u ostream \<Rightarrow> 'u ostream outcome" where
  "o_return_error msg s = Some (False, o_set_error msg s)"

section \<open>Writing\<close>

definition buf_write :: "'u ostream \<Rightarrow> u8 list option \<Rightarrow> u64 \<Rightarrow> 'u ostream outcome" where
  "buf_write s buf count = (case o_state s of
     OBuf dest pos \<Rightarrow>
       (if count = 0 then Some (True, s)
        else (case buf of None \<Rightarrow> None
          | Some bs \<Rightarrow>
             (if unat count \<le> length bs \<and> pos + unat count \<le> length dest
              then Some (True, s\<lparr>o_state := OBuf (blit dest pos (take (unat count) bs))
                                              (pos + unat count)\<rparr>)
              else None)))
   | _ \<Rightarrow> None)"

definition pb_ostream_from_buffer :: "u8 list \<Rightarrow> u64 \<Rightarrow> 'u ostream" where
  "pb_ostream_from_buffer buf bufsize = \<lparr>o_callback = OBufWrite, o_state = OBuf buf 0,
     o_max_size = bufsize, o_bytes_written = 0, o_errmsg = None\<rparr>"

definition call_ostream :: "'u oenv \<Rightarrow> 'u ostream \<Rightarrow> u8 list option \<Rightarrow> u64 \<Rightarrow> 'u ostream outcome" where
  "call_ostream env s buf count = (case o_callback s of
     ONull \<Rightarrow> None
   | OBufWrite \<Rightarrow> buf_write s buf count
   | OUser \<Rightarrow> (case (o_state s, buf) of
        (OUserState u, Some bs) \<Rightarrow>
          (if unat count \<le> length bs
           then (case oe_write env u (take (unat count) bs) of
                   (ok, u') \<Rightarrow> Some (ok, s\<lparr>o_state := OUserState u'\<rparr>))
           else None)
      | _ \<Rightarrow> None))"

definition pb_write :: "'u oenv \<Rightarrow> u8 list option \<Rightarrow> u64 \<Rightarrow> 'u ostream \<Rightarrow> 'u ostream outcome" where
  "pb_write env buf count s =
     (if o_callback s \<noteq> ONull then
        (if o_bytes_written s + count > o_max_size s then o_return_error ''stream full'' s
         else (case call_ostream env s buf count of
             None \<Rightarrow> None
           | Some (False, s) \<Rightarrow> o_return_error ''io error'' s
           | Some (True, s) \<Rightarrow> Some (True, s\<lparr>o_bytes_written := o_bytes_written s + count\<rparr>)))
      else Some (True, s\<lparr>o_bytes_written := o_bytes_written s + count\<rparr>))"

section \<open>Varints, fixed-width integers, tags, strings\<close>

text \<open>The loop of \<open>pb_encode_varint\<close>, filling \<open>pb_byte_t buffer[10]\<close>; a store past it has no result.\<close>

function varint_fill :: "u8 list \<Rightarrow> nat \<Rightarrow> u64 \<Rightarrow> (u8 list \<times> nat) option" where
  "varint_fill buffer i value =
     (if value = 0 then Some (buffer, i)
      else if length buffer \<le> i then None
      else varint_fill (buffer[i := ucast ((value AND 0x7F) OR 0x80)]) (Suc i) (drop_bit 7 value))"
  by pat_completeness auto
termination
  by (relation "measure (\<lambda>(buffer, i, value). length buffer - i)") auto

declare varint_fill.simps [simp del]

definition pb_encode_varint :: "'u oenv \<Rightarrow> u64 \<Rightarrow> 'u ostream \<Rightarrow> 'u ostream outcome" where
  "pb_encode_varint env value s =
     (if value \<le> 0x7F then pb_write env (Some [ucast value]) 1 s
      else (case varint_fill (replicate 10 0) 0 value of
          None \<Rightarrow> None
        | Some (buffer, i) \<Rightarrow>
            pb_write env (Some (buffer[i - 1 := (buffer ! (i - 1)) AND 0x7F])) (of_nat i) s))"

definition zigzag :: "u64 \<Rightarrow> u64" where
  "zigzag value = (if value <s 0 then NOT (push_bit 1 value) else push_bit 1 value)"

definition pb_encode_svarint :: "'u oenv \<Rightarrow> u64 \<Rightarrow> 'u ostream \<Rightarrow> 'u ostream outcome" where
  "pb_encode_svarint env value s = pb_encode_varint env (zigzag value) s"

definition fixed32_bytes :: "u32 \<Rightarrow> u8 list" where
  "fixed32_bytes val =
     [ucast (val AND 0xFF), ucast (drop_bit 8 val AND 0xFF),
      ucast (drop_bit 16 val AND 0xFF), ucast (drop_bit 24 val AND 0xFF)]"

definition fixed64_bytes :: "u64 \<Rightarrow> u8 list" where
  "fixed64_bytes val =
     [ucast (val AND 0xFF), ucast (drop_bit 8 val AND 0xFF),
      ucast (drop_bit 16 val AND 0xFF), ucast (drop_bit 24 val AND 0xFF),
      ucast (drop_bit 32 val AND 0xFF), ucast (drop_bit 40 val AND 0xFF),
      ucast (drop_bit 48 val AND 0xFF), ucast (drop_bit 56 val AND 0xFF)]"

definition pb_encode_fixed32 :: "'u oenv \<Rightarrow> addr \<Rightarrow> 'u ostream \<Rightarrow> 'u ostream outcome" where
  "pb_encode_fixed32 env p s = (case load_u32 (oe_mem env) p of
     None \<Rightarrow> None | Some val \<Rightarrow> pb_write env (Some (fixed32_bytes val)) 4 s)"

definition pb_encode_fixed64 :: "'u oenv \<Rightarrow> addr \<Rightarrow> 'u ostream \<Rightarrow> 'u ostream outcome" where
  "pb_encode_fixed64 env p s = (case load_u64 (oe_mem env) p of
     None \<Rightarrow> None | Some val \<Rightarrow> pb_write env (Some (fixed64_bytes val)) 8 s)"

definition pb_encode_tag :: "'u oenv \<Rightarrow> pb_wire_type \<Rightarrow> u32 \<Rightarrow> 'u ostream \<Rightarrow> 'u ostream outcome" where
  "pb_encode_tag env wiretype field_number s =
     pb_encode_varint env (push_bit 3 (ucast field_number) OR ucast wiretype) s"

definition field_wire_type :: "pb_field \<Rightarrow> pb_wire_type option" where
  "field_wire_type f =
     (let l = ltype f in
      if l = PB_LTYPE_VARINT \<or> l = PB_LTYPE_UVARINT \<or> l = PB_LTYPE_SVARINT then Some PB_WT_VARINT
      else if l = PB_LTYPE_FIXED32 then Some PB_WT_32BIT
      else if l = PB_LTYPE_FIXED64 then Some PB_WT_64BIT
      else if l = PB_LTYPE_BYTES \<or> l = PB_LTYPE_STRING \<or> l = PB_LTYPE_SUBMESSAGE
              \<or> l = PB_LTYPE_FIXED_LENGTH_BYTES then Some PB_WT_STRING
      else None)"

definition pb_encode_tag_for_field :: "'u oenv \<Rightarrow> pb_field \<Rightarrow> 'u ostream \<Rightarrow> 'u ostream outcome" where
  "pb_encode_tag_for_field env f s = (case field_wire_type f of
     None \<Rightarrow> o_return_error ''invalid field type'' s
   | Some wiretype \<Rightarrow> pb_encode_tag env wiretype (f_tag f) s)"

definition pb_encode_string :: "'u oenv \<Rightarrow> u8 list option \<Rightarrow> u64 \<Rightarrow> 'u ostream \<Rightarrow> 'u ostream outcome" where
  "pb_encode_string env buffer sz s =
     ifok (pb_encode_varint env sz s) (pb_write env buffer sz)"

end
