(* ===== verification/Varint.thy ===== *)
theory Varint
  imports Prelude
begin

text \<open>
  Base-128 varints as the Protocol Buffers documentation defines them: the encoding of a natural
  number and the parser of at most \<open>k\<close> bytes. Both nanopb and leveldb are proved against them.
\<close>

function varint_bytes :: "nat \<Rightarrow> u8 list" where
  "varint_bytes n = (if n < 128 then [of_nat n] else of_nat (128 + n mod 128) # varint_bytes (n div 128))"
  by pat_completeness auto
termination
  by (relation "measure id") auto

declare varint_bytes.simps [simp del]

lemma length_varint_bytes_le: "n < 128 ^ k \<Longrightarrow> 0 < k \<Longrightarrow> length (varint_bytes n) \<le> k"
proof (induction k arbitrary: n)
  case (Suc k)
  show ?case
  proof (cases "n < 128")
    case True
    then show ?thesis by (subst varint_bytes.simps) simp
  next
    case False
    with Suc.prems have "n div 128 < 128 ^ k" "0 < k"
      by (auto simp: div_less_iff_less_mult mult.commute intro: gr0I)
    with Suc.IH have "length (varint_bytes (n div 128)) \<le> k" by blast
    with False show ?thesis by (subst varint_bytes.simps) simp
  qed
qed simp

lemma varint_bytes_nonempty [simp]: "varint_bytes n \<noteq> []"
  by (subst varint_bytes.simps) simp

lemma length_varint_bytes64: "length (varint_bytes (unat (v :: u64))) \<le> 10"
  by (rule length_varint_bytes_le) (use unsigned_less [of v, where ?'a = nat] in auto)

text \<open>\<open>parse_varint k bs\<close>: the value and the length of the varint at the start of \<open>bs\<close>, of \<open>k\<close>
  bytes at most.\<close>

fun parse_varint :: "nat \<Rightarrow> u8 list \<Rightarrow> (nat \<times> nat) option" where
  "parse_varint 0 bs = None"
| "parse_varint (Suc k) [] = None"
| "parse_varint (Suc k) (b # bs) =
     (if unat b < 128 then Some (unat b, 1)
      else map_option (\<lambda>(v, n). (unat b - 128 + 128 * v, Suc n)) (parse_varint k bs))"

lemma parse_varint_length:
  "parse_varint k bs = Some (v, n) \<Longrightarrow> 1 \<le> n \<and> n \<le> k \<and> n \<le> length bs"
  by (induction k bs arbitrary: v n rule: parse_varint.induct) (auto split: if_splits)

lemma parse_varint_bound: "parse_varint k bs = Some (v, n) \<Longrightarrow> v < 128 ^ n"
proof (induction k bs arbitrary: v n rule: parse_varint.induct)
  case (3 k b bs)
  show ?case
  proof (cases "unat b < 128")
    case True
    then show ?thesis using 3 by auto
  next
    case False
    then obtain v' n' where v': "parse_varint k bs = Some (v', n')" "v = unat b - 128 + 128 * v'" "n = Suc n'"
      using "3.prems" by auto
    then have "v' < 128 ^ n'" using "3.IH" False by blast
    moreover have "unat b < 256" using unsigned_less [of b, where ?'a = nat] by simp
    ultimately show ?thesis using v' by auto
  qed
qed simp_all

lemma parse_varint_bytes:
  "length (varint_bytes n) \<le> k \<Longrightarrow> parse_varint k (varint_bytes n @ rest) = Some (n, length (varint_bytes n))"
proof (induction n arbitrary: k rule: varint_bytes.induct)
  case (1 n)
  show ?case
  proof (cases "n < 128")
    case True
    then have "unat (of_nat n :: u8) = n"
      by (simp add: unsigned_of_nat take_bit_nat_eq_self)
    then show ?thesis
      using True 1 by (cases k) (simp_all add: varint_bytes.simps [of n])
  next
    case False
    obtain k' where k': "k = Suc k'" "length (varint_bytes (n div 128)) \<le> k'"
      using 1(2) False by (cases k) (simp_all add: varint_bytes.simps [of n])
    have "unat (of_nat (128 + n mod 128) :: u8) = 128 + n mod 128"
      using mod_less_divisor [of 128 n] by (intro unat_of_nat_small) simp
    then show ?thesis
      using False 1(1) [OF False k'(2)] k'(1)
      by (simp add: varint_bytes.simps [of n] del: of_nat_add)
  qed
qed

text \<open>A parser of \<open>j\<close> bytes finds what a parser of more bytes finds, when that is short enough.\<close>

lemma parse_varint_mono:
  "parse_varint k bs = Some (v, n) \<Longrightarrow> n \<le> j \<Longrightarrow> parse_varint j bs = Some (v, n)"
proof (induction k bs arbitrary: v n j rule: parse_varint.induct)
  case (3 k b bs)
  then obtain j' where j: "j = Suc j'"
    using parse_varint_length [OF "3.prems"(1)] by (cases j) simp_all
  show ?case
  proof (cases "unat b < 128")
    case True
    then show ?thesis using "3.prems"(1) by (simp add: j)
  next
    case False
    then obtain v' n' where v': "parse_varint k bs = Some (v', n')" "v = unat b - 128 + 128 * v'" "n = Suc n'"
      using "3.prems" by auto
    then have "parse_varint j' bs = Some (v', n')"
      using "3.IH" [OF False v'(1)] "3.prems"(2) j by simp
    then show ?thesis
      using v' False by (simp add: j)
  qed
qed simp_all

section \<open>Bytes of a varint\<close>

lemma byte_and_7F: "unat (b AND 0x7F :: u8) = unat b mod 128"
proof -
  have "b AND 0x7F = take_bit 7 b"
    by (simp add: take_bit_eq_mask mask_eq_exp_minus_1)
  then show ?thesis
    by (simp add: unsigned_take_bit_eq take_bit_eq_mod unat_mod)
qed

lemma byte_and_80: "b AND 0x80 = 0 \<longleftrightarrow> unat (b :: u8) < 128"
proof -
  have "b AND 0x80 = 0 \<longleftrightarrow> \<not> bit b 7"
    using and_exp_eq_0_iff_not_bit [of b 7] by simp
  also have "\<dots> \<longleftrightarrow> drop_bit 7 b = 0"
  proof
    assume n: "\<not> bit b 7"
    show "drop_bit 7 b = 0"
    proof (rule bit_word_eqI)
      fix n assume "n < LENGTH(8)"
      show "bit (drop_bit 7 b) n = bit 0 n"
      proof (cases "n = 0")
        case True then show ?thesis using \<open>\<not> bit b 7\<close> by (simp add: bit_simps)
      next
        case False
        then show ?thesis by (auto simp: bit_simps dest!: bit_imp_le_length)
      qed
    qed
  next
    assume "drop_bit 7 b = 0"
    then have "\<not> bit (drop_bit 7 b) 0" by simp
    then show "\<not> bit b 7" by (simp add: bit_drop_bit_eq)
  qed
  also have "\<dots> \<longleftrightarrow> unat b div 128 = 0"
    by (simp add: word_unat_eq_iff unat_drop_bit_eq drop_bit_eq_div unat_div)
  finally show ?thesis by auto
qed

text \<open>Adding one more group of seven bits above the \<open>p\<close> bits gathered so far.\<close>

lemma or_push_bit_add:
  fixes r v :: "'a::len word"
  assumes "unat r < 2 ^ p"
  shows "r OR push_bit p v = r + of_nat (2 ^ p) * v"
proof -
  have "r AND push_bit p v = 0"
  proof (rule bit_word_eqI)
    fix n assume "n < LENGTH('a)"
    have "\<not> bit r n" if "p \<le> n"
    proof -
      have "take_bit p r = r"
        using assms by (metis word_unat_eq_iff unsigned_take_bit_eq take_bit_nat_eq_self)
      then show ?thesis using that by (metis bit_take_bit_iff not_le)
    qed
    then show "bit (r AND push_bit p v) n = bit 0 n"
      by (auto simp: bit_simps)
  qed
  then have "r OR push_bit p v = r + push_bit p v"
    by (simp add: disjunctive_add_eq_or)
  then show ?thesis
    by (simp add: push_bit_eq_mult mult.commute)
qed

lemma group_add:
  fixes r :: "'a::len word"
  assumes "unat r < 2 ^ p" "8 \<le> LENGTH('a)"
  shows "r OR push_bit p (ucast (b AND 0x7F :: u8)) = r + of_nat (2 ^ p * (unat b mod 128))"
proof -
  have "(2::nat) ^ 8 \<le> 2 ^ LENGTH('a)" using assms(2) by (intro power_increasing) simp_all
  moreover have "unat b mod 128 < 128" by simp
  ultimately have "take_bit LENGTH('a) (unat b mod 128) = unat b mod 128"
    by (intro take_bit_nat_eq_self) simp
  then have "(ucast (b AND 0x7F) :: 'a word) = of_nat (unat b mod 128)"
    by (simp add: word_unat_eq_iff unsigned_ucast_eq byte_and_7F unsigned_of_nat)
  then show ?thesis
    using or_push_bit_add [OF assms(1), of "ucast (b AND 0x7F)"] by simp
qed

lemma group_bound:
  fixes r :: "'a::len word"
  assumes "unat r < 2 ^ p" "p + 7 \<le> LENGTH('a)"
  shows "unat (r + of_nat (2 ^ p * (unat (b :: u8) mod 128))) < 2 ^ (p + 7)"
proof -
  have lt: "2 ^ p * (unat b mod 128) + 2 ^ p \<le> (2::nat) ^ (p + 7)"
  proof -
    have "2 ^ p * (unat b mod 128) + 2 ^ p = 2 ^ p * Suc (unat b mod 128)" by simp
    also have "\<dots> \<le> 2 ^ p * 128"
      by (intro mult_le_mono2) (simp add: Suc_le_eq)
    finally show ?thesis by (simp add: power_add)
  qed
  also have "(2::nat) ^ (p + 7) \<le> 2 ^ LENGTH('a)"
    using assms(2) by (intro power_increasing) simp_all
  finally have "2 ^ p * (unat b mod 128) + 2 ^ p \<le> (2::nat) ^ LENGTH('a)" .
  then have "2 ^ p * (unat b mod 128) < (2::nat) ^ LENGTH('a)"
    using zero_less_power [of "2::nat" p] by linarith
  then have "unat (of_nat (2 ^ p * (unat b mod 128)) :: 'a word) = 2 ^ p * (unat b mod 128)"
    by (intro unat_of_nat_small)
  then have "unat (r + of_nat (2 ^ p * (unat b mod 128))) \<le> unat r + 2 ^ p * (unat b mod 128)"
    by (metis unat_word_ariths(1) mod_less_eq_dividend)
  with lt assms(1) show ?thesis by linarith
qed

end
