(* ===== verification/Emit.thy ===== *)
theory Emit
  imports OStream Varint
begin

text \<open>
  The contract of an encoding operation. \<open>wire\<close> is what the operation is meant to put on the
  wire; \<open>meets f w\<close> says that the stream operation \<open>f\<close> does so on every kind of stream:
  a sizing stream counts the bytes, a memory stream with room receives exactly them, a memory
  stream without room is refused with false and nothing outside its window is changed.
  The components prove \<open>meets\<close> for each operation of the code; \<open>wseq\<close> composes.
\<close>

section \<open>What goes on the wire\<close>

datatype wire = Emit "u8 list" | Reject | Undef

text \<open>
  \<open>Reject\<close>: the code reports an error of the data. \<open>Undef\<close>: nothing is promised (unreadable
  memory, or 2^63 bytes and more, where the code's \<open>size_t\<close> sums may wrap).
\<close>

fun wbound :: "u8 list \<Rightarrow> wire" where
  "wbound bs = (if length bs < 2 ^ 63 then Emit bs else Undef)"

fun wseq :: "wire \<Rightarrow> wire \<Rightarrow> wire" where
  "wseq (Emit a) (Emit b) = wbound (a @ b)"
| "wseq (Emit a) w = w"
| "wseq Reject _ = Reject"
| "wseq Undef _ = Undef"

definition wconcat :: "wire list \<Rightarrow> wire" where
  "wconcat ws = foldr wseq ws (Emit [])"

lemma wconcat_simps [simp]: "wconcat [] = Emit []" "wconcat (w # ws) = wseq w (wconcat ws)"
  by (simp_all add: wconcat_def)

lemma wbound_code [code]:
  "wbound bs = (if int (length bs) < 9223372036854775808 then Emit bs else Undef)"
  by simp

section \<open>Streams in a good state\<close>

definition o_room :: "'u ostream \<Rightarrow> nat" where
  "o_room s = unat (o_max_size s) - unat (o_bytes_written s)"

definition mem_stream :: "'u ostream \<Rightarrow> bool" where
  "mem_stream s \<longleftrightarrow> o_callback s = OBufWrite \<and>
     (\<exists>dest pos. o_state s = OBuf dest pos \<and> pos + o_room s \<le> length dest) \<and>
     o_bytes_written s \<le> o_max_size s \<and> unat (o_max_size s) < 2 ^ 63 \<and> o_errmsg s = None"

definition o_count :: "'u ostream \<Rightarrow> nat \<Rightarrow> 'u ostream" where
  "o_count s n = s\<lparr>o_bytes_written := o_bytes_written s + of_nat n\<rparr>"

definition o_push :: "'u ostream \<Rightarrow> u8 list \<Rightarrow> 'u ostream" where
  "o_push s bs = s\<lparr>
     o_state := (case o_state s of OBuf dest pos \<Rightarrow> OBuf (blit dest pos bs) (pos + length bs)
                 | st \<Rightarrow> st),
     o_bytes_written := o_bytes_written s + of_nat (length bs)\<rparr>"

text \<open>
  What a refused operation leaves: a stream over the same array, unchanged before the position
  the stream had and after the end of its window, with no more than \<open>max_size\<close> bytes counted.
\<close>

definition within_window :: "'u ostream \<Rightarrow> 'u ostream \<Rightarrow> bool" where
  "within_window s s' \<longleftrightarrow> o_callback s' = o_callback s \<and> o_max_size s' = o_max_size s \<and>
     o_bytes_written s' \<le> o_max_size s' \<and>
     (\<exists>d p d' p'. o_state s = OBuf d p \<and> o_state s' = OBuf d' p' \<and> length d' = length d \<and>
        take p d' = take p d \<and> drop (p + o_room s) d' = drop (p + o_room s) d)"

section \<open>The contract\<close>

definition meets_emit :: "('u ostream \<Rightarrow> 'u ostream outcome) \<Rightarrow> u8 list \<Rightarrow> bool" where
  "meets_emit f bs \<longleftrightarrow> length bs < 2 ^ 63 \<and>
     (\<forall>s. o_callback s = ONull \<longrightarrow> f s = Some (True, o_count s (length bs))) \<and>
     (\<forall>s. mem_stream s \<longrightarrow> length bs \<le> o_room s \<longrightarrow> f s = Some (True, o_push s bs)) \<and>
     (\<forall>s. mem_stream s \<longrightarrow> \<not> length bs \<le> o_room s \<longrightarrow>
        (\<exists>s'. f s = Some (False, s') \<and> within_window s s'))"

definition meets_reject :: "('u ostream \<Rightarrow> 'u ostream outcome) \<Rightarrow> bool" where
  "meets_reject f \<longleftrightarrow>
     (\<forall>s. o_callback s = ONull \<longrightarrow> (\<exists>s'. f s = Some (False, s'))) \<and>
     (\<forall>s. mem_stream s \<longrightarrow> (\<exists>s'. f s = Some (False, s') \<and> within_window s s'))"

definition meets :: "('u ostream \<Rightarrow> 'u ostream outcome) \<Rightarrow> wire \<Rightarrow> bool" where
  "meets f w = (case w of Emit bs \<Rightarrow> meets_emit f bs | Reject \<Rightarrow> meets_reject f | Undef \<Rightarrow> True)"

lemma meets_simps [simp]:
  "meets f (Emit bs) = meets_emit f bs" "meets f Reject = meets_reject f" "meets f Undef"
  by (simp_all add: meets_def)

section \<open>Laws\<close>

lemma mem_streamE:
  assumes "mem_stream s"
  obtains dest pos where "o_callback s = OBufWrite" "o_state s = OBuf dest pos"
    "pos + o_room s \<le> length dest" "unat (o_bytes_written s) \<le> unat (o_max_size s)"
    "unat (o_max_size s) < 2 ^ 63" "o_errmsg s = None"
  using assms by (auto simp: mem_stream_def word_le_nat_alt)

lemma o_push_Nil [simp]: "o_push s [] = s"
  by (cases "o_state s") (simp_all add: o_push_def)

lemma o_push_sel [simp]:
  "o_callback (o_push s bs) = o_callback s" "o_max_size (o_push s bs) = o_max_size s"
  "o_errmsg (o_push s bs) = o_errmsg s"
  by (simp_all add: o_push_def)

lemma o_count_0 [simp]: "o_count s 0 = s"
  by (simp add: o_count_def)

lemma o_count_add: "o_count (o_count s m) n = o_count s (m + n)"
  by (simp add: o_count_def add.assoc)

lemma o_count_callback [simp]: "o_callback (o_count s n) = o_callback s"
  by (simp add: o_count_def)

lemma unat_pushed:
  assumes "mem_stream s" "length bs \<le> o_room s"
  shows "unat (o_bytes_written (o_push s bs)) = unat (o_bytes_written s) + length bs"
  using assms by (auto elim!: mem_streamE simp: o_push_def o_room_def unat_word_ariths
      unsigned_of_nat take_bit_nat_eq_self)

lemma o_room_push:
  assumes "mem_stream s" "length bs \<le> o_room s"
  shows "o_room (o_push s bs) = o_room s - length bs"
  using unat_pushed [OF assms] by (simp add: o_room_def o_push_def)

lemma mem_stream_push:
  assumes "mem_stream s" "length bs \<le> o_room s"
  shows "mem_stream (o_push s bs)"
proof -
  obtain dest pos where st: "o_callback s = OBufWrite" "o_state s = OBuf dest pos"
    "pos + o_room s \<le> length dest" "unat (o_bytes_written s) \<le> unat (o_max_size s)"
    "unat (o_max_size s) < 2 ^ 63" "o_errmsg s = None"
    using assms(1) by (rule mem_streamE)
  have "unat (o_bytes_written (o_push s bs)) \<le> unat (o_max_size (o_push s bs))"
    using unat_pushed [OF assms] assms(2) st by (simp add: o_room_def o_push_def)
  moreover have "o_callback (o_push s bs) = OBufWrite" "o_errmsg (o_push s bs) = None"
    "unat (o_max_size (o_push s bs)) < 2 ^ 63"
    "o_state (o_push s bs) = OBuf (blit dest pos bs) (pos + length bs)"
    using st by (simp_all add: o_push_def)
  ultimately show ?thesis
    using st assms(2) o_room_push [OF assms] by (simp add: mem_stream_def word_le_nat_alt)
qed

lemma o_push_push:
  assumes "mem_stream s" "length a + length b \<le> o_room s"
  shows "o_push (o_push s a) b = o_push s (a @ b)"
  using assms by (auto elim!: mem_streamE simp: o_push_def blit_blit add.assoc)

lemma within_window_push:
  assumes "mem_stream s" "length a \<le> o_room s" "within_window (o_push s a) s'"
  shows "within_window s s'"
proof -
  obtain dest pos where st: "o_state s = OBuf dest pos" "pos + o_room s \<le> length dest"
    using assms(1) by (rule mem_streamE)
  obtain d' p' where w: "o_state s' = OBuf d' p'" "length d' = length (blit dest pos a)"
    "take (pos + length a) d' = take (pos + length a) (blit dest pos a)"
    "drop (pos + length a + o_room (o_push s a)) d' =
       drop (pos + length a + o_room (o_push s a)) (blit dest pos a)"
    using assms(3) st by (auto simp: within_window_def o_push_def)
  have room: "pos + length a + o_room (o_push s a) = pos + o_room s"
    using o_room_push [OF assms(1,2)] assms(2) by simp
  have "take pos d' = take pos (take (pos + length a) d')"
    by (simp add: min_def)
  also have "\<dots> = take pos dest"
    using st assms(2) by (simp add: w(3) min_def)
  finally have "take pos d' = take pos dest" .
  moreover have "drop (pos + o_room s) d' = drop (pos + o_room s) dest"
    using w(4) st assms(2) by (simp add: room drop_blit)
  moreover have "length d' = length dest"
    using w(2) st assms(2) by simp
  moreover have "o_callback s' = o_callback s" "o_max_size s' = o_max_size s"
    "o_bytes_written s' \<le> o_max_size s'"
    using assms(3) unfolding within_window_def by auto
  ultimately show ?thesis
    using st w(1) by (simp add: within_window_def)
qed

lemma within_window_refl: "mem_stream s \<Longrightarrow> within_window s s"
  by (auto elim!: mem_streamE simp: within_window_def word_le_nat_alt)

lemma within_window_set_error [simp]:
  "within_window s (o_set_error msg s') \<longleftrightarrow> within_window s s'"
  by (simp add: within_window_def o_set_error_def)

lemma meets_return_error: "meets (o_return_error msg) Reject"
  by (simp add: meets_reject_def o_return_error_def within_window_refl)

lemma meets_return_True: "meets (\<lambda>s. Some (True, s)) (Emit [])"
  by (auto simp: meets_emit_def)

lemma meets_cong: "meets f w \<Longrightarrow> (\<And>s. f s = g s) \<Longrightarrow> meets g w"
  by (metis ext)

lemma meets_seq:
  assumes f: "meets f a" and g: "meets g b"
  shows "meets (\<lambda>s. ifok (f s) g) (wseq a b)"
proof (cases a)
  case (Emit x)
  then have fx: "meets_emit f x" using f by simp
  show ?thesis
  proof (cases b)
    case (Emit y)
    then have gy: "meets_emit g y" using g by simp
    have "meets_emit (\<lambda>s. ifok (f s) g) (x @ y)" if len: "length (x @ y) < 2 ^ 63"
      unfolding meets_emit_def
    proof (intro conjI allI impI)
      show "length (x @ y) < 2 ^ 63" by (rule len)
      fix s :: "'a ostream"
      show "ifok (f s) g = Some (True, o_count s (length (x @ y)))" if "o_callback s = ONull"
        using fx gy that by (simp add: meets_emit_def o_count_add)
      assume s: "mem_stream s"
      show "ifok (f s) g = Some (True, o_push s (x @ y))" if "length (x @ y) \<le> o_room s"
      proof -
        have "f s = Some (True, o_push s x)"
          using fx s that by (simp add: meets_emit_def)
        moreover have "g (o_push s x) = Some (True, o_push (o_push s x) y)"
          using gy s that by (simp add: meets_emit_def mem_stream_push o_room_push)
        ultimately show ?thesis
          using s that by (simp add: o_push_push)
      qed
      show "\<exists>s'. ifok (f s) g = Some (False, s') \<and> within_window s s'"
        if "\<not> length (x @ y) \<le> o_room s"
      proof (cases "length x \<le> o_room s")
        case True
        then have "f s = Some (True, o_push s x)"
          using fx s by (simp add: meets_emit_def)
        moreover have "\<exists>s'. g (o_push s x) = Some (False, s') \<and> within_window (o_push s x) s'"
          using gy s that True by (simp add: meets_emit_def mem_stream_push o_room_push)
        ultimately show ?thesis
          using within_window_push [OF s True] by auto
      next
        case False
        then obtain s' where "f s = Some (False, s')" "within_window s s'"
          using fx s by (auto simp: meets_emit_def)
        then show ?thesis by simp
      qed
    qed
    then show ?thesis by (simp add: \<open>a = Emit x\<close> Emit)
  next
    case Reject
    then have gr: "meets_reject g" using g by simp
    have "\<exists>s'. ifok (f s) g = Some (False, s') \<and> within_window s s'" if s: "mem_stream s" for s
    proof (cases "length x \<le> o_room s")
      case True
      then have "f s = Some (True, o_push s x)"
        using fx s by (simp add: meets_emit_def)
      moreover have "\<exists>s'. g (o_push s x) = Some (False, s') \<and> within_window (o_push s x) s'"
        using gr mem_stream_push [OF s True] by (simp add: meets_reject_def)
      ultimately show ?thesis
        using within_window_push [OF s True] by auto
    next
      case False
      then obtain s' where "f s = Some (False, s')" "within_window s s'"
        using fx s by (auto simp: meets_emit_def)
      then show ?thesis by simp
    qed
    moreover have "\<exists>s'. ifok (f s) g = Some (False, s')" if "o_callback s = ONull" for s
      using fx gr that by (simp add: meets_emit_def meets_reject_def)
    ultimately show ?thesis
      by (simp add: \<open>a = Emit x\<close> Reject meets_reject_def)
  qed (simp add: Emit)
next
  case Reject
  have "ifok (f s) g = f s" if "f s = Some (False, s')" for s s'
    using that by simp
  then show ?thesis
    using f by (fastforce simp: Reject meets_reject_def)
qed simp

end
