(* ===== verification/OStreamSpec.thy ===== *)
theory OStreamSpec
  imports Emit
begin

text \<open>
  The scalar operations of the output stream against their contract: what \<open>pb_write\<close>,
  \<open>pb_encode_varint\<close>, \<open>pb_encode_svarint\<close>, \<open>pb_encode_fixed32/64\<close>, \<open>pb_encode_tag\<close> and
  \<open>pb_encode_string\<close> put on the wire, on all kinds of streams.
\<close>

section \<open>pb_write\<close>

lemma word_gt_room:
  fixes b c m :: u64
  assumes "unat b \<le> unat m" "unat m < 2 ^ 63" "n < 2 ^ 63"
  shows "b + of_nat n > m \<longleftrightarrow> \<not> n \<le> unat m - unat b"
proof -
  have "unat (b + of_nat n) = unat b + n"
    using assms by (simp add: unat_word_ariths unsigned_of_nat take_bit_nat_eq_self)
  then show ?thesis
    using assms by (auto simp: word_less_nat_alt)
qed

lemma pb_write_meets:
  assumes "n \<le> length bs" "n < 2 ^ 63" "buf = Some bs \<or> n = 0"
  shows "meets (pb_write env buf (of_nat n)) (Emit (take n bs))"
proof -
  have len: "length (take n bs) = n" using assms by simp
  have call: "call_ostream env s buf (of_nat n) = Some (True, s\<lparr>o_state := OBuf (blit dest pos (take n bs)) (pos + n)\<rparr>)"
    if s: "o_callback s = OBufWrite" "o_state s = OBuf dest pos" "pos + n \<le> length dest" for s :: "'a ostream" and dest pos
  proof (cases "n = 0")
    case True
    with s show ?thesis by (simp add: call_ostream_def buf_write_def)
  next
    case False
    have un: "unat (of_nat n :: u64) = n"
      using assms(2) by simp
    with False have nz: "(of_nat n :: u64) \<noteq> 0"
      by (metis unsigned_0)
    show ?thesis
      using s False nz un assms by (simp add: call_ostream_def buf_write_def)
  qed
  have "meets_emit (pb_write env buf (of_nat n)) (take n bs)"
    unfolding meets_emit_def len
  proof (intro conjI allI impI)
    fix s :: "'a ostream"
    show "n < 2 ^ 63" by (rule assms)
    show "pb_write env buf (of_nat n) s = Some (True, o_count s n)" if "o_callback s = ONull"
      using that by (simp add: pb_write_def o_count_def)
    assume s: "mem_stream s"
    obtain dest pos where st: "o_callback s = OBufWrite" "o_state s = OBuf dest pos"
      "pos + o_room s \<le> length dest" "unat (o_bytes_written s) \<le> unat (o_max_size s)"
      "unat (o_max_size s) < 2 ^ 63" "o_errmsg s = None"
      using s by (rule mem_streamE)
    have full: "o_bytes_written s + of_nat n > o_max_size s \<longleftrightarrow> \<not> n \<le> o_room s"
      unfolding o_room_def by (rule word_gt_room) (use st assms in auto)
    show "pb_write env buf (of_nat n) s = Some (True, o_push s (take n bs))" if "n \<le> o_room s"
      using st that full call [of s dest pos] len
      by (simp add: pb_write_def o_push_def)
    show "\<exists>s'. pb_write env buf (of_nat n) s = Some (False, s') \<and> within_window s s'"
      if "\<not> n \<le> o_room s"
      using st that full s
      by (simp add: pb_write_def o_return_error_def within_window_refl)
  qed
  then show ?thesis by simp
qed

section \<open>Varints\<close>

lemma ucast_of_nat_small:
  "k < 2 ^ LENGTH('a) \<Longrightarrow> (ucast (of_nat k :: 'a::len word) :: 'b::len word) = of_nat k"
  by (simp add: unsigned_of_nat take_bit_nat_eq_self)

lemma unat_and_7F: "unat (v AND 0x7F :: u64) = unat v mod 128"
proof -
  have "v AND 0x7F = take_bit 7 v"
    by (simp add: take_bit_eq_mask mask_eq_exp_minus_1)
  then show ?thesis by (simp only: unsigned_take_bit_eq) (simp add: take_bit_eq_mod)
qed

lemma varint_cont_byte:
  "(ucast ((v AND 0x7F) OR 0x80 :: u64) :: u8) = of_nat (128 + unat v mod 128)"
proof -
  have disj: "(v AND 0x7F) AND 0x80 = 0"
    by (simp add: and.assoc)
  have "(v AND 0x7F) OR 0x80 = (v AND 0x7F) + 0x80"
    by (rule disjunctive_add_eq_or [OF disj, symmetric])
  also have "\<dots> = of_nat (128 + unat v mod 128)"
    by (simp add: unat_and_7F [symmetric])
  finally show ?thesis
    using ucast_of_nat_small [where k = "128 + unat v mod 128" and ?'a = 64 and ?'b = 8] by simp
qed

lemma drop7: "unat (drop_bit 7 v :: u64) = unat v div 128"
  by (simp only: unat_drop_bit_eq) (simp add: drop_bit_eq_div)

lemma blit_update:
  assumes "i < length xs"
  shows "xs[i := y] = blit xs i [y]"
  using assms by (simp add: blit_def upd_conv_take_nth_drop)

lemma update_last: "xs \<noteq> [] \<Longrightarrow> xs[length xs - 1 := y] = butlast xs @ [y]"
  by (cases xs rule: rev_cases) auto

text \<open>The bytes the loop leaves, every one with its continuation bit set.\<close>

lemma varint_fill_result:
  assumes "v \<noteq> 0" "i + length (varint_bytes (unat v)) \<le> length buffer"
  shows "\<exists>bs. varint_fill buffer i v = Some (blit buffer i bs, i + length bs) \<and> bs \<noteq> [] \<and>
           varint_bytes (unat v) = butlast bs @ [last bs AND 0x7F]"
  using assms
proof (induction buffer i v rule: varint_fill.induct)
  case (1 buffer i v)
  let ?b = "ucast ((v AND 0x7F) OR 0x80) :: u8"
  have b: "?b = of_nat (128 + unat v mod 128)" by (rule varint_cont_byte)
  have ib: "i < length buffer"
    using "1.prems"(2) varint_bytes_nonempty [of "unat v"]
    by (cases "varint_bytes (unat v)") auto
  have step: "varint_fill buffer i v = varint_fill (blit buffer i [?b]) (Suc i) (drop_bit 7 v)"
    using "1.prems" ib by (subst varint_fill.simps) (simp add: blit_update)
  show ?case
  proof (cases "unat v < 128")
    case True
    then have "unat (drop_bit 7 v) = 0" by (simp add: drop7)
    then have "drop_bit 7 v = 0" by (simp only: unat_eq_0)
    then have fill: "varint_fill buffer i v = Some (blit buffer i [?b], i + length [?b])"
      by (subst step) (simp add: varint_fill.simps [of _ _ 0])
    have "varint_bytes (unat v) = [of_nat (unat v)]"
      using True by (subst varint_bytes.simps) simp
    moreover have "?b AND 0x7F = of_nat (unat v)"
    proof -
      have "unat ?b = 128 + unat v"
        unfolding b using True by (subst unat_of_nat_small) simp_all
      then have "unat (take_bit 7 ?b) = unat v"
        using True by (simp only: unsigned_take_bit_eq) (simp add: take_bit_eq_mod)
      moreover have "?b AND 0x7F = take_bit 7 ?b"
        by (simp add: take_bit_eq_mask mask_eq_exp_minus_1)
      ultimately show ?thesis by (metis of_nat_unat ucast_id)
    qed
    ultimately show ?thesis using fill by (intro exI [of _ "[?b]"]) simp
  next
    case False
    have vb: "varint_bytes (unat v) = ?b # varint_bytes (unat (drop_bit 7 v))"
      using False by (subst varint_bytes.simps) (simp add: drop7 b)
    have nz: "drop_bit 7 v \<noteq> 0"
      using False by (metis drop7 div_eq_0_iff unsigned_0 zero_neq_numeral)
    have "\<exists>bs. varint_fill (buffer[i := ?b]) (Suc i) (drop_bit 7 v) =
        Some (blit (buffer[i := ?b]) (Suc i) bs, Suc i + length bs) \<and> bs \<noteq> [] \<and>
        varint_bytes (unat (drop_bit 7 v)) = butlast bs @ [last bs AND 0x7F]"
      by (rule "1.IH") (use "1.prems" ib nz vb in auto)
    then obtain bs where bs: "varint_fill (buffer[i := ?b]) (Suc i) (drop_bit 7 v) =
        Some (blit (buffer[i := ?b]) (Suc i) bs, Suc i + length bs)" "bs \<noteq> []"
        "varint_bytes (unat (drop_bit 7 v)) = butlast bs @ [last bs AND 0x7F]"
      by blast
    have len: "length (varint_bytes (unat (drop_bit 7 v))) = length bs"
      using bs(2,3) by simp
    have "blit (buffer[i := ?b]) (Suc i) bs = blit buffer i (?b # bs)"
      using blit_blit [of i "[?b]" bs buffer] "1.prems"(2) ib len vb by (simp add: blit_update)
    with bs step ib vb show ?thesis
      by (intro exI [of _ "?b # bs"]) (simp add: blit_update)
  qed
qed

lemma pb_encode_varint_meets:
  "meets (pb_encode_varint env v) (Emit (varint_bytes (unat v)))"
proof (cases "v \<le> 0x7F")
  case True
  then have small: "unat v < 128"
    by (simp add: word_le_nat_alt)
  then have vb: "varint_bytes (unat v) = [ucast v]"
    by (subst varint_bytes.simps) simp
  show ?thesis
    using pb_write_meets [of 1 "[ucast v]" "Some [ucast v]" env]
    by (rule_tac meets_cong) (simp_all add: True vb pb_encode_varint_def)
next
  case False
  then have "v \<noteq> 0" by auto
  obtain bs where bs: "varint_fill (replicate 10 0) 0 v = Some (blit (replicate 10 0) 0 bs, 0 + length bs)"
      "bs \<noteq> []" "varint_bytes (unat v) = butlast bs @ [last bs AND 0x7F]"
    using varint_fill_result [of v 0 "replicate 10 0"] \<open>v \<noteq> 0\<close> length_varint_bytes64 [of v] by auto
  have len: "length bs = length (varint_bytes (unat v))"
    using bs(2,3) by simp
  then have len10: "length bs \<le> 10"
    using length_varint_bytes64 [of v] by simp
  define buf where "buf = (blit (replicate 10 0) 0 bs)[length bs - 1 :=
      blit (replicate 10 0) 0 bs ! (length bs - 1) AND 0x7F]"
  have "take (length bs) (blit (replicate 10 0) 0 bs) = bs"
    by (simp add: blit_def)
  moreover have "blit (replicate 10 0) 0 bs ! (length bs - 1) = last bs"
    using bs(2) by (simp add: blit_def nth_append last_conv_nth)
  ultimately have "take (length bs) buf = bs[length bs - 1 := last bs AND 0x7F]"
    by (simp add: buf_def take_update_swap)
  also have "\<dots> = varint_bytes (unat v)"
    using bs(2,3) by (simp add: update_last del: One_nat_def)
  finally have take_buf: "take (length bs) buf = varint_bytes (unat v)" .
  have "meets (pb_write env (Some buf) (of_nat (length bs))) (Emit (take (length bs) buf))"
    by (rule pb_write_meets) (use len10 in \<open>auto simp: buf_def\<close>)
  then show ?thesis
    unfolding take_buf by (rule meets_cong) (use False bs in \<open>simp add: pb_encode_varint_def buf_def\<close>)
qed

section \<open>Fixed-width values, tags, strings\<close>

lemma ucast_and_FF: "(ucast (x AND mask 8 :: 'a::len word) :: u8) = ucast x"
  by (rule bit_word_eqI) (auto simp: bit_simps dest: bit_imp_le_length)

lemma fixed32_bytes_le: "fixed32_bytes w = bytes_of_word 4 w"
proof -
  have "(0xFF :: u32) = mask 8" by (simp add: mask_eq_exp_minus_1)
  then show ?thesis
    unfolding fixed32_bytes_def by (simp only: ucast_and_FF) (simp add: eval_nat_numeral)
qed

lemma fixed64_bytes_le: "fixed64_bytes w = bytes_of_word 8 w"
proof -
  have "(0xFF :: u64) = mask 8" by (simp add: mask_eq_exp_minus_1)
  then show ?thesis
    unfolding fixed64_bytes_def by (simp only: ucast_and_FF) (simp add: eval_nat_numeral)
qed

lemma pb_encode_fixed32_meets:
  "meets (pb_encode_fixed32 env p)
     (case load_u32 (oe_mem env) p of None \<Rightarrow> Undef | Some w \<Rightarrow> Emit (bytes_of_word 4 w))"
proof (cases "load_u32 (oe_mem env) p")
  case (Some w)
  have "meets (pb_write env (Some (bytes_of_word 4 w)) (of_nat 4)) (Emit (take 4 (bytes_of_word 4 w)))"
    by (rule pb_write_meets) auto
  moreover have "pb_encode_fixed32 env p = pb_write env (Some (bytes_of_word 4 w)) 4"
    by (rule ext) (simp add: Some pb_encode_fixed32_def fixed32_bytes_le)
  ultimately show ?thesis by (simp add: Some)
qed simp

lemma pb_encode_fixed64_meets:
  "meets (pb_encode_fixed64 env p)
     (case load_u64 (oe_mem env) p of None \<Rightarrow> Undef | Some w \<Rightarrow> Emit (bytes_of_word 8 w))"
proof (cases "load_u64 (oe_mem env) p")
  case (Some w)
  have "meets (pb_write env (Some (bytes_of_word 8 w)) (of_nat 8)) (Emit (take 8 (bytes_of_word 8 w)))"
    by (rule pb_write_meets) auto
  moreover have "pb_encode_fixed64 env p = pb_write env (Some (bytes_of_word 8 w)) 8"
    by (rule ext) (simp add: Some pb_encode_fixed64_def fixed64_bytes_le)
  ultimately show ?thesis by (simp add: Some)
qed simp

text \<open>A tag is the varint of \<open>8 * field_number + wire_type\<close>.\<close>

definition tag_bytes :: "pb_wire_type \<Rightarrow> u32 \<Rightarrow> u8 list" where
  "tag_bytes wt num = varint_bytes (8 * unat num + unat wt)"

lemma tag_word:
  assumes "unat (wt :: u32) < 8"
  shows "unat (push_bit 3 (ucast (num :: u32)) OR ucast wt :: u64) = 8 * unat num + unat wt"
proof -
  have "(push_bit 3 (ucast num) :: u64) AND ucast wt = 0"
  proof (rule bit_word_eqI)
    fix n assume "n < LENGTH(64)"
    have "\<not> bit wt n" if "3 \<le> n"
    proof -
      have "wt = take_bit 3 wt"
        using assms by (simp add: word_eq_iff_unsigned [where ?'a = nat] unsigned_take_bit_eq take_bit_nat_eq_self)
      then have "bit wt n \<Longrightarrow> n < 3" by (metis bit_take_bit_iff)
      with that show ?thesis by auto
    qed
    then show "bit (push_bit 3 (ucast num) AND ucast wt :: u64) n = bit (0 :: u64) n"
      by (auto simp: bit_simps)
  qed
  then have "push_bit 3 (ucast num) OR ucast wt = (push_bit 3 (ucast num) + ucast wt :: u64)"
    by (rule disjunctive_add_eq_or [symmetric])
  also have "\<dots> = of_nat (8 * unat num + unat wt)"
    by (simp add: push_bit_eq_mult)
  also have "unat \<dots> = 8 * unat num + unat wt"
    using unsigned_less [of num, where ?'a = nat] assms by (intro unat_of_nat64) simp
  finally show ?thesis .
qed

lemma pb_encode_tag_meets:
  "unat wt < 8 \<Longrightarrow> meets (pb_encode_tag env wt num) (Emit (tag_bytes wt num))"
  unfolding pb_encode_tag_def [abs_def] tag_bytes_def tag_word [symmetric]
  by (rule pb_encode_varint_meets)

lemma field_wire_type_bound: "field_wire_type f = Some wt \<Longrightarrow> unat wt < 8"
  by (auto simp: field_wire_type_def Let_def wt_defs split: if_splits)

definition field_tag_wire :: "pb_field \<Rightarrow> wire" where
  "field_tag_wire f = (case field_wire_type f of None \<Rightarrow> Reject
     | Some wt \<Rightarrow> Emit (tag_bytes wt (f_tag f)))"

lemma pb_encode_tag_for_field_meets: "meets (pb_encode_tag_for_field env f) (field_tag_wire f)"
proof (cases "field_wire_type f")
  case None
  then have "pb_encode_tag_for_field env f = o_return_error ''invalid field type''"
    by (auto simp: pb_encode_tag_for_field_def)
  with None show ?thesis
    by (simp only: field_tag_wire_def option.case meets_return_error)
next
  case (Some wt)
  then have "pb_encode_tag_for_field env f = pb_encode_tag env wt (f_tag f)"
    by (auto simp: pb_encode_tag_for_field_def)
  with Some show ?thesis
    using pb_encode_tag_meets [OF field_wire_type_bound [OF Some]]
    by (simp only: field_tag_wire_def option.case)
qed

lemma pb_encode_svarint_meets: "meets (pb_encode_svarint env v) (Emit (varint_bytes (unat (zigzag v))))"
  unfolding pb_encode_svarint_def [abs_def] by (rule pb_encode_varint_meets)

text \<open>A string or bytes field: the length as a varint, then the bytes.\<close>

definition len_delimited :: "u8 list \<Rightarrow> u8 list" where
  "len_delimited bs = varint_bytes (length bs) @ bs"

lemma pb_encode_string_meets:
  assumes "length bs = n" "n < 2 ^ 62"
  shows "meets (pb_encode_string env (Some bs) (of_nat n)) (Emit (len_delimited bs))"
proof -
  have un: "unat (of_nat n :: u64) = n" using assms by simp
  have "length (varint_bytes n) \<le> 10"
    using length_varint_bytes64 [of "of_nat n"] by (simp only: un)
  with assms have "wseq (Emit (varint_bytes n)) (Emit bs) = Emit (len_delimited bs)"
    by (simp add: len_delimited_def)
  moreover have "meets (\<lambda>s. ifok (pb_encode_varint env (of_nat n) s) (pb_write env (Some bs) (of_nat n)))
      (wseq (Emit (varint_bytes n)) (Emit bs))"
  proof (rule meets_seq)
    show "meets (pb_encode_varint env (of_nat n)) (Emit (varint_bytes n))"
      using pb_encode_varint_meets [of env "of_nat n"] by (simp only: un)
    show "meets (pb_write env (Some bs) (of_nat n)) (Emit bs)"
      using pb_write_meets [of n bs "Some bs" env] assms by simp
  qed
  ultimately show ?thesis
    by (simp only: pb_encode_string_def [abs_def])
qed

end
