(* ===== verification/IStreamSpec.thy ===== *)
theory IStreamSpec
  imports IStream OStreamSpec
begin

text \<open>
  What the operations of \<open>IStream\<close> do on a memory stream, as functions of the bytes that are
  left to read (\<open>avail\<close>): a reference parser of varints, its agreement with the code's loops,
  and the round trips with the encoders of \<open>OStream\<close>.
\<close>

section \<open>Memory streams\<close>

definition mem_istream :: "'u istream \<Rightarrow> bool" where
  "mem_istream s \<longleftrightarrow> i_callback s = IBufRead \<and>
     (\<exists>rest. i_state s = IBuf rest \<and> unat (i_bytes_left s) \<le> length rest)"

definition avail :: "'u istream \<Rightarrow> u8 list" where
  "avail s = (case i_state s of IBuf rest \<Rightarrow> take (unat (i_bytes_left s)) rest | IUserState _ \<Rightarrow> [])"

definition i_advance :: "'u istream \<Rightarrow> nat \<Rightarrow> 'u istream" where
  "i_advance s n = s\<lparr>
     i_state := (case i_state s of IBuf rest \<Rightarrow> IBuf (drop n rest) | st \<Rightarrow> st),
     i_bytes_left := i_bytes_left s - of_nat n\<rparr>"

lemma mem_istreamE:
  assumes "mem_istream s"
  obtains rest where "i_callback s = IBufRead" "i_state s = IBuf rest"
    "unat (i_bytes_left s) \<le> length rest" "avail s = take (unat (i_bytes_left s)) rest"
  using assms by (auto simp: mem_istream_def avail_def)

lemma length_avail: "mem_istream s \<Longrightarrow> length (avail s) = unat (i_bytes_left s)"
  by (auto elim!: mem_istreamE)

lemma bytes_left_0: "mem_istream s \<Longrightarrow> i_bytes_left s = 0 \<longleftrightarrow> avail s = []"
  using length_avail [of s] by (auto simp: unat_eq_0)

lemma length_avail_64: "mem_istream s \<Longrightarrow> length (avail s) < 2 ^ 64"
  using unsigned_less [of "i_bytes_left s", where ?'a = nat] by (simp add: length_avail)

lemma unat_advance:
  assumes "mem_istream s" "n \<le> length (avail s)"
  shows "unat (i_bytes_left (i_advance s n)) = unat (i_bytes_left s) - n"
proof -
  have "n < 2 ^ 64" using assms length_avail_64 [OF assms(1)] by simp
  then have "unat (of_nat n :: u64) = n" by simp
  then show ?thesis
    using assms by (simp add: i_advance_def length_avail unat_sub_if')
qed

lemma avail_advance [simp]:
  assumes "mem_istream s" "n \<le> length (avail s)"
  shows "avail (i_advance s n) = drop n (avail s)"
  using assms unat_advance [OF assms]
  by (auto elim!: mem_istreamE simp: avail_def drop_take) (simp add: i_advance_def drop_take)

lemma mem_istream_advance [simp]:
  assumes "mem_istream s" "n \<le> length (avail s)"
  shows "mem_istream (i_advance s n)"
proof -
  obtain rest where r: "i_callback s = IBufRead" "i_state s = IBuf rest"
    "unat (i_bytes_left s) \<le> length rest"
    using assms(1) by (rule mem_istreamE)
  then have "i_callback (i_advance s n) = IBufRead" "i_state (i_advance s n) = IBuf (drop n rest)"
    by (simp_all add: i_advance_def)
  with r unat_advance [OF assms] show ?thesis
    by (simp add: mem_istream_def)
qed

lemma i_advance_0 [simp]: "i_advance s 0 = s"
  by (cases s) (simp add: i_advance_def split: istate.split)

lemma i_advance_advance [simp]: "i_advance (i_advance s m) n = i_advance s (m + n)"
  by (cases s) (simp add: i_advance_def drop_drop add.commute split: istate.split)

lemma i_advance_errmsg [simp]: "i_errmsg (i_advance s n) = i_errmsg s"
  by (simp add: i_advance_def)

lemma i_set_error_sel [simp]:
  "i_callback (i_set_error msg s) = i_callback s" "i_state (i_set_error msg s) = i_state s"
  "i_bytes_left (i_set_error msg s) = i_bytes_left s"
  by (simp_all add: i_set_error_def)

lemma i_set_error_errmsg [simp]: "i_errmsg (i_set_error msg s) \<noteq> None"
  by (cases "i_errmsg s") (simp_all add: i_set_error_def)

lemma mem_istream_set_error [simp]: "mem_istream (i_set_error msg s) = mem_istream s"
  by (simp add: mem_istream_def)

lemma avail_set_error [simp]: "avail (i_set_error msg s) = avail s"
  by (cases "i_state s") (simp_all add: avail_def)

lemma mem_istream_from_buffer:
  assumes "length buf < 2 ^ 64"
  shows "mem_istream (pb_istream_from_buffer buf (of_nat (length buf)))"
    "avail (pb_istream_from_buffer buf (of_nat (length buf))) = buf"
  using assms by (simp_all add: mem_istream_def avail_def pb_istream_from_buffer_def)

section \<open>Reading\<close>

lemma read_chunk_mem:
  assumes "mem_istream s"
  shows "read_chunk env null count s =
     (if unat count \<le> length (avail s)
      then Some (True, if null then [] else take (unat count) (avail s), i_advance s (unat count))
      else Some (False, [], i_set_error ''end-of-stream'' s))"
proof -
  obtain rest where r: "i_callback s = IBufRead" "i_state s = IBuf rest"
    "unat (i_bytes_left s) \<le> length rest" "avail s = take (unat (i_bytes_left s)) rest"
    using assms by (rule mem_istreamE)
  show ?thesis
    using r by (auto simp: read_chunk_def call_istream_def buf_read_def i_advance_def
        word_less_nat_alt min_def)
qed

lemma pb_read_mem:
  assumes "mem_istream s"
  shows "pb_read env null count s =
     (if unat count \<le> length (avail s)
      then Some (True, if null then [] else take (unat count) (avail s), i_advance s (unat count))
      else Some (False, [], i_set_error ''end-of-stream'' s))"
  using assms by (simp add: pb_read_def read_chunk_mem mem_istream_def)

lemma pb_skip_mem:
  assumes "mem_istream s"
  shows "pb_skip env count s = (if unat count \<le> length (avail s)
     then Some (True, i_advance s (unat count)) else i_return_error ''end-of-stream'' s)"
  by (simp add: pb_skip_def pb_read_mem [OF assms] i_return_error_def)

lemma pb_readbyte_mem:
  assumes "mem_istream s"
  shows "pb_readbyte env s = (case avail s of [] \<Rightarrow> i_value_error ''end-of-stream'' s
     | b # _ \<Rightarrow> Some (Some b, i_advance s 1))"
proof (cases "avail s")
  case Nil
  then show ?thesis
    using bytes_left_0 [OF assms] by (simp add: pb_readbyte_def)
next
  case (Cons b bs)
  obtain rest where r: "i_callback s = IBufRead" "i_state s = IBuf rest"
    "unat (i_bytes_left s) \<le> length rest" "avail s = take (unat (i_bytes_left s)) rest"
    using assms by (rule mem_istreamE)
  have ne: "i_bytes_left s \<noteq> 0" using Cons bytes_left_0 [OF assms] by simp
  then have "0 < unat (i_bytes_left s)" by (simp add: unat_gt_0)
  then have "rest \<noteq> []" "hd rest = b" "Suc 0 \<le> length rest"
    using r Cons by (cases rest; cases "unat (i_bytes_left s)"; simp)+
  then have "pb_readbyte env s = Some (Some b, i_advance s 1)"
    using r(1-3) ne by (cases rest) (simp_all add: pb_readbyte_def call_istream_def buf_read_def i_advance_def)
  then show ?thesis by (simp add: Cons)
qed

section \<open>The reference parser of varints\<close>

section \<open>64-bit varints\<close>

lemma bitpos_of: "k \<le> 10 \<Longrightarrow> unat (of_nat (7 * k) :: u8) = 7 * k"
  by (rule unat_of_nat_small) simp

lemma varint_loop_parse:
  assumes "mem_istream s" "k \<le> 10" "k \<le> 9 \<Longrightarrow> unat r < 2 ^ (7 * k)"
  shows "varint_loop env (of_nat (7 * k)) r s = (case parse_varint (10 - k) (avail s) of
     Some (v, n) \<Rightarrow> Some (Some (r + of_nat (2 ^ (7 * k) * v)), i_advance s n)
   | None \<Rightarrow> i_value_error (if length (avail s) < 10 - k then ''end-of-stream'' else ''varint overflow'')
       (i_advance s (min (10 - k) (length (avail s)))))"
  using assms
proof (induction "10 - k" arbitrary: k r s)
  case 0
  then have k: "k = 10" by simp
  have "64 \<le> (of_nat (7 * k) :: u8)"
    unfolding word_le_nat_alt bitpos_of [OF \<open>k \<le> 10\<close>] by (simp add: k)
  then show ?case
    by (subst varint_loop.simps) (simp add: k)
next
  case (Suc j)
  then have k: "k \<le> 9" "10 - k = Suc j" "10 - Suc k = j" by simp_all
  have bp: "\<not> 64 \<le> (of_nat (7 * k) :: u8)"
    unfolding word_le_nat_alt bitpos_of [OF \<open>k \<le> 10\<close>] using k(1) by simp
  have bp7: "(of_nat (7 * k) + 7 :: u8) = of_nat (7 * Suc k)"
    by (simp add: add.commute)
  show ?case
  proof (cases "avail s")
    case Nil
    then show ?thesis
      using Suc.prems bp
      by (subst varint_loop.simps) (simp add: pb_readbyte_mem k(2) i_value_error_def)
  next
    case (Cons b bs)
    have s1: "mem_istream (i_advance s 1)" "avail (i_advance s 1) = bs"
      using Suc.prems Cons by simp_all
    let ?r = "r OR push_bit (7 * k) (ucast (b AND 0x7F))"
    have r: "?r = r + of_nat (2 ^ (7 * k) * (unat b mod 128))"
      by (rule group_add) (use Suc.prems k in simp_all)
    have rb: "unat ?r < 2 ^ (7 * Suc k)" if "Suc k \<le> 9"
      unfolding r using group_bound [of r "7 * k" b] that Suc.prems k by (simp add: add.commute)
    have step: "varint_loop env (of_nat (7 * k)) r s =
        (if unat b < 128 then Some (Some ?r, i_advance s 1)
         else varint_loop env (of_nat (7 * Suc k)) ?r (i_advance s 1))"
      using bp Suc.prems Cons bitpos_of [OF \<open>k \<le> 10\<close>] unfolding bp7 [symmetric]
      by (subst varint_loop.simps) (simp add: pb_readbyte_mem byte_and_80 Let_def)
    show ?thesis
    proof (cases "unat b < 128")
      case True
      then show ?thesis
        unfolding step r using k Cons by simp
    next
      case False
      have b: "unat b mod 128 = unat b - 128"
        using False unsigned_less [of b, where ?'a = nat] by (simp add: mod_if)
      have IH: "varint_loop env (of_nat (7 * Suc k)) ?r (i_advance s 1) = (case parse_varint j bs of
           Some (v, n) \<Rightarrow> Some (Some (?r + of_nat (2 ^ (7 * Suc k) * v)), i_advance s (1 + n))
         | None \<Rightarrow> i_value_error (if length bs < j then ''end-of-stream'' else ''varint overflow'')
             (i_advance s (1 + min j (length bs))))"
        using Suc.hyps(1) [of "Suc k" "i_advance s 1" ?r] s1 rb k
        by (simp split: option.split)
      have sum: "?r + of_nat (2 ^ (7 * Suc k) * v) = r + of_nat (2 ^ (7 * k) * (unat b - 128 + 128 * v))" for v
        unfolding r b of_nat_add [symmetric] add.assoc
        by (simp add: power_add algebra_simps)
      show ?thesis
      proof (cases "parse_varint j bs")
        case None
        then show ?thesis
          unfolding step IH using False k Cons by simp
      next
        case (Some vn)
        obtain v n where vn: "vn = (v, n)" by (cases vn)
        then have "parse_varint (10 - k) (avail s) = Some (unat b - 128 + 128 * v, Suc n)"
          using Some False k Cons by simp
        then show ?thesis
          unfolding step IH Some vn option.case prod.case sum using False by simp
      qed
    qed
  qed
qed

lemma pb_decode_varint_parse:
  assumes "mem_istream s"
  shows "pb_decode_varint env s = (case parse_varint 10 (avail s) of
     Some (v, n) \<Rightarrow> Some (Some (of_nat v), i_advance s n)
   | None \<Rightarrow> i_value_error (if length (avail s) < 10 then ''end-of-stream'' else ''varint overflow'')
       (i_advance s (min 10 (length (avail s)))))"
  using varint_loop_parse [OF assms, of 0 0 env] by (simp add: pb_decode_varint_def split: option.split)

lemma pb_skip_varint_parse:
  assumes "mem_istream s"
  shows "pb_skip_varint env s = (case parse_varint (length (avail s)) (avail s) of
     Some (v, n) \<Rightarrow> Some (True, i_advance s n)
   | None \<Rightarrow> i_return_error ''end-of-stream'' (i_advance s (length (avail s))))"
  using assms
proof (induction "length (avail s)" arbitrary: s)
  case 0
  then show ?case
    by (subst pb_skip_varint.simps) (simp add: read_chunk_mem i_return_error_def)
next
  case (Suc n)
  then obtain b bs where b: "avail s = b # bs" by (cases "avail s") simp_all
  then have s1: "mem_istream (i_advance s 1)" "avail (i_advance s 1) = bs" "n = length bs"
    using Suc by simp_all
  have "pb_skip_varint env s = (if unat b < 128 then Some (True, i_advance s 1)
      else pb_skip_varint env (i_advance s 1))"
    using b by (subst pb_skip_varint.simps) (simp add: read_chunk_mem Suc.prems byte_and_80)
  then show ?case
    using Suc.hyps(1) [of "i_advance s 1"] s1 b by (auto simp: split: option.split)
qed

section \<open>32-bit varints\<close>

lemma group_add32:
  assumes "unat (r :: u32) < 2 ^ p"
  shows "r OR push_bit p (ucast (b AND 0x7F :: u8)) = r + of_nat (2 ^ p * (unat b mod 128))"
proof -
  have "(ucast (b AND 0x7F) :: u32) = of_nat (unat b mod 128)"
    by (simp add: word_unat_eq_iff unsigned_ucast_eq byte_and_7F unsigned_of_nat)
  then show ?thesis
    using or_push_bit_add [OF assms, of "ucast (b AND 0x7F)"] by simp
qed

lemma byte_and_70: "b AND 0x70 = 0 \<longleftrightarrow> unat (b :: u8) div 16 mod 8 = 0"
proof -
  have "b AND push_bit 4 (mask 3) = push_bit 4 (take_bit 3 (drop_bit 4 b))"
    by (rule bit_word_eqI) (auto simp: bit_simps)
  then have e: "b AND 0x70 = push_bit 4 (take_bit 3 (drop_bit 4 b))"
    by (simp add: mask_eq_exp_minus_1)
  have "unat (take_bit 3 (drop_bit 4 b)) = unat b div 16 mod 8"
    by (simp add: unsigned_take_bit_eq unat_drop_bit_eq take_bit_eq_mod drop_bit_eq_div unat_div unat_mod)
  moreover from this have "unat (push_bit 4 (take_bit 3 (drop_bit 4 b))) = 16 * (unat b div 16 mod 8)"
    by (simp add: push_bit_eq_mult unat_word_ariths)
  ultimately show ?thesis
    unfolding e word_unat_eq_iff by simp
qed

text \<open>One byte below bit 32: \<open>m\<close> is the value of the groups read so far.\<close>

lemma varint32_step_low:
  assumes "mem_istream s" "avail s = b # bs" "k \<le> 4" "m < 2 ^ (7 * k)"
  shows "varint32_loop env (of_nat (7 * k)) (of_nat m) s =
    (if 128 \<le> unat b
     then varint32_loop env (of_nat (7 * Suc k)) (of_nat (m + 2 ^ (7 * k) * (unat b mod 128))) (i_advance s 1)
     else if k = 4 \<and> 16 \<le> unat b then i_value_error ''varint overflow'' (i_advance s 1)
     else Some (Some (of_nat (m + 2 ^ (7 * k) * unat b)), i_advance s 1))"
proof -
  define p q :: u8 where p_def: "p = of_nat (7 * k)" and q_def: "q = of_nat (7 * Suc k)"
  have bp: "unat (of_nat (7 * k) :: u8) = 7 * k"
    by (rule bitpos_of) (use assms(3) in simp)
  then have lt: "\<not> 32 \<le> (of_nat (7 * k) :: u8)"
    unfolding word_le_nat_alt using assms(3) by simp
  have bp7: "(of_nat (7 * k) + 7 :: u8) = of_nat (7 * Suc k)"
    by (simp add: add.commute)
  have bp35: "(of_nat (7 * Suc k) :: u8) = 35 \<longleftrightarrow> k = 4"
  proof -
    have "unat (of_nat (7 * Suc k) :: u8) = 7 * Suc k"
      by (rule bitpos_of) (use assms(3) in simp)
    then show ?thesis unfolding word_unat_eq_iff by simp
  qed
  have m32: "m < 2 ^ 32"
  proof -
    have "(2::nat) ^ (7 * k) \<le> 2 ^ 28"
      using assms(3) by (intro power_increasing) simp_all
    with assms(4) show ?thesis by simp
  qed
  have r: "(of_nat m :: u32) OR push_bit (7 * k) (ucast (b AND 0x7F)) =
      of_nat (m + 2 ^ (7 * k) * (unat b mod 128))"
    using group_add32 [of "of_nat m" "7 * k" b] assms(4) m32
    by (simp add: unsigned_of_nat take_bit_nat_eq_self)
  have x70: "b AND 0x70 = 0 \<longleftrightarrow> unat b < 16" if "unat b < 128"
    using that unfolding byte_and_70 by (simp add: div_eq_0_iff)
  define R where "R = (of_nat (m + 2 ^ (7 * k) * (unat b mod 128)) :: u32)"
  have "varint32_loop env p (of_nat m) s =
      (if \<not> unat b < 128 then varint32_loop env q R (i_advance s 1)
       else if q = 35 \<and> b AND 0x70 \<noteq> 0 then i_value_error ''varint overflow'' (i_advance s 1)
       else Some (Some R, i_advance s 1))"
    using lt bp r bp7 unfolding p_def [symmetric] q_def [symmetric] R_def [symmetric]
    by (subst varint32_loop.simps) (simp add: pb_readbyte_mem assms(1,2) byte_and_80 Let_def)
  then show ?thesis
    using x70 bp35 unfolding p_def [symmetric] q_def [symmetric] R_def by auto
qed

text \<open>One byte from bit 35 on, where only a sign extension is accepted.\<close>

lemma varint32_step_high:
  assumes "mem_istream s" "avail s = b # bs" "5 \<le> k" "k \<le> 9"
  shows "varint32_loop env (of_nat (7 * k)) r s =
    (if unat b mod 128 \<noteq> 0 \<and> (drop_bit 31 r = 0 \<or> unat b \<noteq> (if k \<le> 8 then 255 else 1))
     then i_value_error ''varint overflow'' (i_advance s 1)
     else if 128 \<le> unat b then varint32_loop env (of_nat (7 * Suc k)) r (i_advance s 1)
     else Some (Some r, i_advance s 1))"
proof -
  define p q :: u8 where p_def: "p = of_nat (7 * k)" and q_def: "q = of_nat (7 * Suc k)"
  have bp: "unat (of_nat (7 * k) :: u8) = 7 * k" "unat (of_nat (7 * Suc k) :: u8) = 7 * Suc k"
    using assms(4) bitpos_of [of k] bitpos_of [of "Suc k"] by simp_all
  have ge: "32 \<le> (of_nat (7 * k) :: u8)" "(of_nat (7 * k) :: u8) < 63 \<longleftrightarrow> k \<le> 8"
    unfolding word_le_nat_alt word_less_nat_alt bp using assms(3) by auto
  have bp7: "(of_nat (7 * k) + 7 :: u8) = of_nat (7 * Suc k)"
    by (simp add: add.commute)
  have bp35: "(of_nat (7 * Suc k) :: u8) \<noteq> 35"
  proof
    assume "of_nat (7 * Suc k) = (35 :: u8)"
    then have "unat (of_nat (7 * Suc k) :: u8) = 35" by (simp only:) simp
    then show False using bp(2) assms(3) by simp
  qed
  have b0: "b AND 0x7F \<noteq> 0 \<longleftrightarrow> unat b mod 128 \<noteq> 0"
    by (simp add: word_unat_eq_iff byte_and_7F)
  have bs: "b \<noteq> (if k \<le> 8 then 0xFF else 0x01) \<longleftrightarrow> unat b \<noteq> (if k \<le> 8 then 255 else 1)"
    by (simp add: word_unat_eq_iff)
  show ?thesis
    using ge bp35 bp7 b0 bs unfolding p_def [symmetric] q_def [symmetric]
    by (subst varint32_loop.simps) (simp add: pb_readbyte_mem assms(1,2) byte_and_80 Let_def not_less)
qed

lemma varint_bytes_Cons:
  obtains b bs where "varint_bytes n = b # bs" "unat b = (if n < 128 then n else 128 + n mod 128)"
    "bs = (if n < 128 then [] else varint_bytes (n div 128))"
proof -
  have "unat (of_nat (if n < 128 then n else 128 + n mod 128) :: u8) = (if n < 128 then n else 128 + n mod 128)"
    using mod_less_divisor [of 128 n] by (intro unat_of_nat_small) auto
  then show ?thesis
    using that [of "of_nat (if n < 128 then n else 128 + n mod 128)" "if n < 128 then [] else varint_bytes (n div 128)"]
    by (simp add: varint_bytes.simps [of n] split: if_splits)
qed

lemma pow_minus_7: "7 * Suc k \<le> c \<Longrightarrow> (2::nat) ^ (c - 7 * k) = 2 ^ (c - 7 * Suc k) * 128"
proof -
  assume "7 * Suc k \<le> c"
  then have "c - 7 * k = (c - 7 * Suc k) + 7" by simp
  then show ?thesis by (simp only: power_add) simp
qed

lemma group_step:
  fixes m q k :: nat
  assumes "m < 2 ^ (7 * k)"
  shows "m + 2 ^ (7 * k) * (q mod 128) < 2 ^ (7 * Suc k)"
    "m + 2 ^ (7 * k) * (q mod 128) + 2 ^ (7 * Suc k) * (q div 128) = m + 2 ^ (7 * k) * q"
proof -
  have "m + 2 ^ (7 * k) * (q mod 128) < 2 ^ (7 * k) * Suc (q mod 128)"
    using assms by simp
  also have "\<dots> \<le> 2 ^ (7 * k) * 128"
    by (intro mult_le_mono2) (simp add: Suc_le_eq)
  finally show "m + 2 ^ (7 * k) * (q mod 128) < 2 ^ (7 * Suc k)"
    by (simp add: power_add)
  have "2 ^ (7 * Suc k) * (q div 128) = 2 ^ (7 * k) * (128 * (q div 128))"
    by (simp add: power_add)
  then show "m + 2 ^ (7 * k) * (q mod 128) + 2 ^ (7 * Suc k) * (q div 128) = m + 2 ^ (7 * k) * q"
    by (metis add.assoc distrib_left mod_mult_div_eq)
qed

lemma varint32_low:
  assumes "mem_istream s" "avail s = varint_bytes q @ rest" "k \<le> 4" "m < 2 ^ (7 * k)" "q < 2 ^ (32 - 7 * k)"
  shows "varint32_loop env (of_nat (7 * k)) (of_nat m) s =
     Some (Some (of_nat (m + 2 ^ (7 * k) * q)), i_advance s (length (varint_bytes q)))"
  using assms
proof (induction q arbitrary: k m s rule: varint_bytes.induct)
  case (1 q)
  obtain b bs where b: "varint_bytes q = b # bs" "unat b = (if q < 128 then q else 128 + q mod 128)"
    "bs = (if q < 128 then [] else varint_bytes (q div 128))"
    by (rule varint_bytes_Cons)
  have av: "avail s = b # (bs @ rest)" using "1.prems"(2) b(1) by simp
  note step = varint32_step_low [OF "1.prems"(1) av "1.prems"(3,4), of env]
  show ?case
  proof (cases "q < 128")
    case True
    then have "\<not> (k = 4 \<and> 16 \<le> q)" using "1.prems"(5) by auto
    with True show ?thesis unfolding step using b by auto
  next
    case False
    then have k: "Suc k \<le> 4" using "1.prems"(3,5) by (cases "k = 4") auto
    have s1: "mem_istream (i_advance s 1)" "avail (i_advance s 1) = varint_bytes (q div 128) @ rest"
      using "1.prems"(1,2) b False by simp_all
    have "(2::nat) ^ (32 - 7 * k) = 2 ^ (32 - 7 * Suc k) * 128"
      using k by (intro pow_minus_7) simp
    then have "q div 128 < 2 ^ (32 - 7 * Suc k)"
      using "1.prems"(5) by (simp add: less_mult_imp_div_less)
    note IH = "1.IH" [OF False s1 k group_step(1) [OF "1.prems"(4)] this]
    have "varint32_loop env (of_nat (7 * k)) (of_nat m) s =
        varint32_loop env (of_nat (7 * Suc k)) (of_nat (m + 2 ^ (7 * k) * (q mod 128))) (i_advance s 1)"
      unfolding step using b False by auto
    then show ?thesis
      unfolding IH group_step(2) [OF "1.prems"(4)] using b False by simp
  qed
qed

lemma varint32_mid:
  assumes "mem_istream s" "avail s = varint_bytes q @ rest" "k \<le> 4" "m < 2 ^ (7 * k)"
    "2 ^ (32 - 7 * k) \<le> q" "q < 2 ^ (35 - 7 * k)"
  shows "varint32_loop env (of_nat (7 * k)) (of_nat m) s =
     i_value_error ''varint overflow'' (i_advance s (length (varint_bytes q)))"
  using assms
proof (induction q arbitrary: k m s rule: varint_bytes.induct)
  case (1 q)
  obtain b bs where b: "varint_bytes q = b # bs" "unat b = (if q < 128 then q else 128 + q mod 128)"
    "bs = (if q < 128 then [] else varint_bytes (q div 128))"
    by (rule varint_bytes_Cons)
  have av: "avail s = b # (bs @ rest)" using "1.prems"(2) b(1) by simp
  note step = varint32_step_low [OF "1.prems"(1) av "1.prems"(3,4), of env]
  show ?case
  proof (cases "k = 4")
    case True
    then have "q < 128" "16 \<le> q" using "1.prems"(5,6) by simp_all
    with True show ?thesis unfolding step using b by auto
  next
    case False
    then have k: "Suc k \<le> 4" using "1.prems"(3) by simp
    have "(2::nat) ^ 11 \<le> 2 ^ (32 - 7 * k)"
      using k by (intro power_increasing) simp_all
    then have q: "\<not> q < 128" using "1.prems"(5) by simp
    have s1: "mem_istream (i_advance s 1)" "avail (i_advance s 1) = varint_bytes (q div 128) @ rest"
      using "1.prems"(1,2) b q by simp_all
    have p: "(2::nat) ^ (32 - 7 * k) = 2 ^ (32 - 7 * Suc k) * 128" "(2::nat) ^ (35 - 7 * k) = 2 ^ (35 - 7 * Suc k) * 128"
      using k by (intro pow_minus_7; simp)+
    have lo: "2 ^ (32 - 7 * Suc k) \<le> q div 128"
      using "1.prems"(5) by (simp add: p less_eq_div_iff_mult_less_eq)
    have hi: "q div 128 < 2 ^ (35 - 7 * Suc k)"
      using "1.prems"(6) by (simp add: p less_mult_imp_div_less)
    note IH = "1.IH" [OF q s1 k group_step(1) [OF "1.prems"(4)] lo hi]
    have "varint32_loop env (of_nat (7 * k)) (of_nat m) s =
        varint32_loop env (of_nat (7 * Suc k)) (of_nat (m + 2 ^ (7 * k) * (q mod 128))) (i_advance s 1)"
      unfolding step using b q by auto
    then show ?thesis
      unfolding IH using b q by (simp add: i_value_error_def)
  qed
qed

lemma varint32_high:
  assumes "mem_istream s" "avail s = varint_bytes q @ rest" "k \<le> 5" "m < 2 ^ (7 * k)" "2 ^ (35 - 7 * k) \<le> q"
  shows "varint32_loop env (of_nat (7 * k)) (of_nat m) s =
       varint32_loop env (of_nat (7 * 5)) (of_nat ((m + 2 ^ (7 * k) * q) mod 2 ^ 35)) (i_advance s (5 - k)) \<and>
     5 - k \<le> length (avail s) \<and>
     avail (i_advance s (5 - k)) = varint_bytes (q div 2 ^ (35 - 7 * k)) @ rest"
  using assms
proof (induction "5 - k" arbitrary: k m s q)
  case 0
  then have "k = 5" by simp
  then show ?case using 0 by simp
next
  case (Suc j)
  then have k: "k \<le> 4" "Suc k \<le> 5" "5 - k = Suc j" by simp_all
  obtain b bs where b: "varint_bytes q = b # bs" "unat b = (if q < 128 then q else 128 + q mod 128)"
    "bs = (if q < 128 then [] else varint_bytes (q div 128))"
    by (rule varint_bytes_Cons)
  have av: "avail s = b # (bs @ rest)" using Suc.prems(2) b(1) by simp
  note step = varint32_step_low [OF Suc.prems(1) av k(1) Suc.prems(4), of env]
  have "(2::nat) ^ 7 \<le> 2 ^ (35 - 7 * k)"
    using k(1) by (intro power_increasing) simp_all
  then have q: "\<not> q < 128" using Suc.prems(5) by simp
  have s1: "mem_istream (i_advance s 1)" "avail (i_advance s 1) = varint_bytes (q div 128) @ rest"
    using Suc.prems(1,2) b q by simp_all
  have p: "(2::nat) ^ (35 - 7 * k) = 2 ^ (35 - 7 * Suc k) * 128"
    using k by (intro pow_minus_7) simp
  have lo: "2 ^ (35 - 7 * Suc k) \<le> q div 128"
    using Suc.prems(5) by (simp add: p less_eq_div_iff_mult_less_eq)
  have "j = 5 - Suc k" using k by simp
  note IH = Suc.hyps(1) [OF this s1 k(2) group_step(1) [OF Suc.prems(4)] lo, of q]
  have "varint32_loop env (of_nat (7 * k)) (of_nat m) s =
      varint32_loop env (of_nat (7 * Suc k)) (of_nat (m + 2 ^ (7 * k) * (q mod 128))) (i_advance s 1)"
    unfolding step using b q by auto
  moreover have "q div 128 div 2 ^ (35 - 7 * Suc k) = q div 2 ^ (35 - 7 * k)"
    unfolding p by (metis div_mult2_eq mult.commute)
  moreover have "5 - Suc k = j" using k by simp
  moreover have "Suc j \<le> length (avail s)" "drop (Suc j) (avail s) = varint_bytes (q div 2 ^ (35 - 7 * k)) @ rest"
    using IH calculation(2,3) s1 av b(3) q Suc.prems(1) by auto
  ultimately show ?case
    using IH Suc.prems(1) unfolding group_step(2) [OF Suc.prems(4)] k(3) i_advance_advance
    by simp
qed

lemma varint32_high_reject:
  assumes "mem_istream s" "avail s = varint_bytes q @ rest" "5 \<le> k" "k \<le> 8" "1 \<le> q" "q < 128 ^ (9 - k)"
  shows "\<exists>n \<le> length (varint_bytes q). varint32_loop env (of_nat (7 * k)) r s =
     i_value_error ''varint overflow'' (i_advance s n)"
  using assms
proof (induction q arbitrary: k s rule: varint_bytes.induct)
  case (1 q)
  obtain b bs where b: "varint_bytes q = b # bs" "unat b = (if q < 128 then q else 128 + q mod 128)"
    "bs = (if q < 128 then [] else varint_bytes (q div 128))"
    by (rule varint_bytes_Cons)
  have av: "avail s = b # (bs @ rest)" using "1.prems"(2) b(1) by simp
  have k9: "k \<le> 9" using "1.prems"(4) by simp
  note step = varint32_step_high [OF "1.prems"(1) av "1.prems"(3) k9, of env r]
  have one: "1 \<le> length (varint_bytes q)" using b(1) by simp
  show ?case
  proof (cases "q < 128")
    case True
    then have "unat b mod 128 \<noteq> 0" "unat b \<noteq> 255" using b "1.prems"(5) by simp_all
    then have "varint32_loop env (of_nat (7 * k)) r s = i_value_error ''varint overflow'' (i_advance s 1)"
      unfolding step using "1.prems"(4) by simp
    with one show ?thesis by blast
  next
    case False
    then have k: "Suc k \<le> 8"
      using "1.prems"(4,6) by (cases "k = 8") auto
    have s1: "mem_istream (i_advance s 1)" "avail (i_advance s 1) = varint_bytes (q div 128) @ rest"
      using "1.prems"(1,2) b False by simp_all
    have "(128::nat) ^ (9 - k) = 128 ^ (9 - Suc k) * 128"
    proof -
      have "9 - k = Suc (9 - Suc k)" using k by simp
      then show ?thesis by simp
    qed
    then have "q div 128 < 128 ^ (9 - Suc k)" "1 \<le> q div 128"
      using "1.prems"(6) False by (simp_all add: less_mult_imp_div_less less_eq_div_iff_mult_less_eq)
    then obtain n where n: "n \<le> length (varint_bytes (q div 128))"
      "varint32_loop env (of_nat (7 * Suc k)) r (i_advance s 1) =
         i_value_error ''varint overflow'' (i_advance (i_advance s 1) n)"
      using "1.IH" [OF False s1 _ k] "1.prems"(3) by (metis le_SucI)
    have "length (varint_bytes q) = Suc (length (varint_bytes (q div 128)))"
      using b False by simp
    then have len: "1 + n \<le> length (varint_bytes q)" using n(1) by simp
    have "varint32_loop env (of_nat (7 * k)) r s \<in>
        {i_value_error ''varint overflow'' (i_advance s 1), i_value_error ''varint overflow'' (i_advance s (1 + n))}"
      unfolding step n(2) using b False by auto
    with one len show ?thesis by blast
  qed
qed

lemma varint32_high_negative:
  assumes "mem_istream s" "avail s = varint_bytes (2 ^ (64 - 7 * k) - 1) @ rest" "5 \<le> k" "k \<le> 9"
    "drop_bit 31 r \<noteq> 0"
  shows "varint32_loop env (of_nat (7 * k)) r s = Some (Some r, i_advance s (10 - k))"
  using assms
proof (induction "9 - k" arbitrary: k s)
  case 0
  then have k: "k = 9" by simp
  have "varint_bytes 1 = [1]" by (simp add: varint_bytes.simps)
  then have "avail s = 1 # rest" using 0 k by simp
  from varint32_step_high [OF "0.prems"(1) this "0.prems"(3,4), of env r]
  show ?case using "0.prems"(5) k by simp
next
  case (Suc j)
  then have k: "k \<le> 8" "Suc k \<le> 9" "j = 9 - Suc k" "5 \<le> Suc k" by simp_all
  let ?q = "2 ^ (64 - 7 * k) - 1 :: nat"
  have pw: "(2::nat) ^ (64 - 7 * k) = 2 ^ (64 - 7 * Suc k) * 128"
    using k by (intro pow_minus_7) simp
  have pos: "1 \<le> (2::nat) ^ (64 - 7 * Suc k)" by simp
  define X where "X = (2::nat) ^ (64 - 7 * Suc k)"
  have q: "?q = (X - 1) * 128 + 127" "?q div 128 = X - 1" "?q mod 128 = 127"
  proof -
    obtain Y where "X = Suc Y" using pos unfolding X_def [symmetric] by (cases X) simp_all
    then show "?q = (X - 1) * 128 + 127" "?q div 128 = X - 1" "?q mod 128 = 127"
      unfolding pw X_def [symmetric] by (simp_all add: add.commute [of 127])
  qed
  have "(2::nat) ^ 1 \<le> X"
    unfolding X_def using k by (intro power_increasing) simp_all
  then have ge: "\<not> ?q < 128" using q(1) by simp
  obtain b bs where b: "varint_bytes ?q = b # bs" "unat b = (if ?q < 128 then ?q else 128 + ?q mod 128)"
    "bs = (if ?q < 128 then [] else varint_bytes (?q div 128))"
    by (rule varint_bytes_Cons)
  have ub: "unat b = 255" "bs = varint_bytes (2 ^ (64 - 7 * Suc k) - 1)"
    using b ge q unfolding X_def by simp_all
  have av: "avail s = b # (bs @ rest)" using Suc.prems(2) b(1) by simp
  have s1: "mem_istream (i_advance s 1)" "avail (i_advance s 1) = varint_bytes (2 ^ (64 - 7 * Suc k) - 1) @ rest"
    using Suc.prems(1) av ub by simp_all
  note IH = Suc.hyps(1) [OF k(3) s1 k(4) k(2) Suc.prems(5)]
  have "varint32_loop env (of_nat (7 * k)) r s = varint32_loop env (of_nat (7 * Suc k)) r (i_advance s 1)"
    unfolding varint32_step_high [OF Suc.prems(1) av Suc.prems(3,4)] using ub(1) k(1) Suc.prems(5) by simp
  moreover have "1 + (10 - Suc k) = 10 - k" using k by simp
  ultimately show ?case
    unfolding IH i_advance_advance by simp
qed

lemma varint32_eof_loop:
  assumes "mem_istream s" "avail s \<noteq> []"
  shows "pb_decode_varint32_eof env s = map_option (\<lambda>(r, s). (r, False, s)) (varint32_loop env 0 0 s)"
proof -
  obtain b bs where b: "avail s = b # bs" using assms(2) by (cases "avail s") simp_all
  have "unat b mod 128 = unat b" if "unat b < 128" using that by simp
  moreover have "(ucast (b AND 0x7F) :: u32) = of_nat (unat b mod 128)"
    by (simp add: word_unat_eq_iff unsigned_ucast_eq byte_and_7F unsigned_of_nat)
  moreover have "(ucast b :: u32) = of_nat (unat b)"
    by simp
  ultimately show ?thesis
    using varint32_step_low [OF assms(1) b, of 0 0 env] b
    by (simp add: pb_decode_varint32_eof_def pb_readbyte_mem assms(1) byte_and_80 not_less del: of_nat_unat)
qed

text \<open>The canonical encodings of 64-bit numbers, read as 32-bit ones.\<close>

lemma varint32_canonical_low:
  assumes "mem_istream s" "avail s = varint_bytes n @ rest" "n < 2 ^ 32"
  shows "pb_decode_varint32_eof env s =
     Some (Some (of_nat n), False, i_advance s (length (varint_bytes n)))"
  using varint32_low [OF assms(1,2), of 0 0 env] assms by (simp add: varint32_eof_loop)

lemma varint32_canonical_range:
  assumes "mem_istream s" "avail s = varint_bytes n @ rest" "2 ^ 32 \<le> n" "n < 2 ^ 63"
  shows "\<exists>j \<le> length (varint_bytes n). pb_decode_varint32_eof env s =
     Some (None, False, i_set_error ''varint overflow'' (i_advance s j))"
proof -
  have loop: "pb_decode_varint32_eof env s = map_option (\<lambda>(r, s). (r, False, s)) (varint32_loop env 0 0 s)"
    using assms(1,2) by (simp add: varint32_eof_loop)
  show ?thesis
  proof (cases "n < 2 ^ 35")
    case True
    then show ?thesis
      using varint32_mid [OF assms(1,2), of 0 0 env] assms(3) unfolding loop
      by (auto simp: i_value_error_def)
  next
    case False
    note hi = varint32_high [OF assms(1,2), of 0 0 env]
    let ?s = "i_advance s 5" and ?q = "n div 2 ^ 35"
    have h: "varint32_loop env 0 0 s = varint32_loop env (of_nat (7 * 5)) (of_nat (n mod 2 ^ 35)) ?s"
      "5 \<le> length (avail s)" "avail ?s = varint_bytes ?q @ rest"
      using hi False by simp_all
    have s: "mem_istream ?s" using assms(1) h(2) by simp
    have "1 \<le> ?q" "?q < 128 ^ (9 - 5)"
      using False assms(4) by (simp_all add: less_eq_div_iff_mult_less_eq less_mult_imp_div_less)
    then obtain j where "j \<le> length (varint_bytes ?q)"
      "varint32_loop env (of_nat (7 * 5)) (of_nat (n mod 2 ^ 35)) ?s =
         i_value_error ''varint overflow'' (i_advance ?s j)"
      using varint32_high_reject [OF s h(3), of 5 env] by force
    moreover have "length (varint_bytes n) = 5 + length (varint_bytes ?q)"
    proof -
      have "drop 5 (varint_bytes n @ rest) = varint_bytes ?q @ rest"
        using h(2,3) assms(1,2) by simp
      then have "length (varint_bytes n) + length rest - 5 = length (varint_bytes ?q) + length rest"
        by (metis length_append length_drop)
      then show ?thesis using h(2) assms(2) by simp
    qed
    ultimately have "5 + j \<le> length (varint_bytes n)" "pb_decode_varint32_eof env s =
        Some (None, False, i_set_error ''varint overflow'' (i_advance s (5 + j)))"
      unfolding loop h(1) by (simp_all add: i_value_error_def)
    then show ?thesis by blast
  qed
qed

lemma varint32_canonical_negative:
  assumes "mem_istream s" "avail s = varint_bytes n @ rest" "2 ^ 64 - 2 ^ 31 \<le> n" "n < 2 ^ 64"
  shows "pb_decode_varint32_eof env s = Some (Some (of_nat n), False, i_advance s 10)"
proof -
  have loop: "pb_decode_varint32_eof env s = map_option (\<lambda>(r, s). (r, False, s)) (varint32_loop env 0 0 s)"
    using assms(1,2) by (simp add: varint32_eof_loop)
  let ?s = "i_advance s 5" and ?r = "of_nat (n mod 2 ^ 35) :: u32"
  have h: "varint32_loop env 0 0 s = varint32_loop env (of_nat (7 * 5)) ?r ?s"
    "5 \<le> length (avail s)" "avail ?s = varint_bytes (n div 2 ^ 35) @ rest"
    using varint32_high [OF assms(1,2), of 0 0 env] assms(3) by simp_all
  have q: "n div 2 ^ 35 = 2 ^ (64 - 7 * 5) - 1"
    using assms(3,4) by simp
  have r: "?r = of_nat n"
    by (simp add: word_unat_eq_iff unsigned_of_nat take_bit_eq_mod mod_mod_cancel)
  have "unat (drop_bit 31 (of_nat n :: u32)) = n mod 2 ^ 32 div 2 ^ 31"
    by (simp add: unat_drop_bit_eq drop_bit_eq_div unsigned_of_nat take_bit_eq_mod unat_div)
  also have "n mod 2 ^ 32 div 2 ^ 31 = 1"
  proof -
    obtain t where t: "n = 2 ^ 64 - 2 ^ 31 + t" using assms(3) le_Suc_ex by blast
    then have "t < 2 ^ 31" using assms(4) by simp
    moreover have "n = 4294967295 * 2 ^ 32 + (2 ^ 31 + t)" using t by simp
    ultimately have "n mod 2 ^ 32 = 2 ^ 31 + t"
      by (simp only: mod_mult_self3) simp
    with \<open>t < 2 ^ 31\<close> show ?thesis by simp
  qed
  finally have neg: "drop_bit 31 ?r \<noteq> 0" unfolding r by auto
  have "mem_istream ?s" using assms(1) h(2) by simp
  from varint32_high_negative [OF this _ _ _ neg, of 5 rest env] h(3) q
  have "varint32_loop env (of_nat (7 * 5)) ?r ?s = Some (Some ?r, i_advance s 10)"
    by simp
  then show ?thesis unfolding loop h(1) r by simp
qed

lemma varint32_canonical:
  assumes "mem_istream s" "avail s = varint_bytes n @ rest" "n < 2 ^ 32"
  shows "pb_decode_varint32 env s = Some (Some (of_nat n), i_advance s (length (varint_bytes n)))"
  using varint32_canonical_low [OF assms] by (simp add: pb_decode_varint32_def)

section \<open>Signed and fixed-width integers\<close>

lemma fixed32_value_bytes: "fixed32_value (bytes_of_word 4 w) = w"
proof -
  have "fixed32_value (bytes_of_word 4 w) = word_of_bytes (bytes_of_word 4 w)"
    by (rule bit_word_eqI) (auto simp: fixed32_value_def numeral_eq_Suc bit_simps)
  then show ?thesis by (simp add: word_of_bytes_of_word)
qed

lemma fixed64_value_bytes: "fixed64_value (bytes_of_word 8 w) = w"
proof -
  have "fixed64_value (bytes_of_word 8 w) = word_of_bytes (bytes_of_word 8 w)"
    by (simp add: fixed64_value_def numeral_eq_Suc push_bit_or or.assoc del: push_bit_Suc)
  then show ?thesis by (simp add: word_of_bytes_of_word)
qed

lemma pb_decode_fixed32_mem:
  assumes "mem_istream s" "4 \<le> length (avail s)"
  shows "pb_decode_fixed32 env s = Some (Some (fixed32_value (take 4 (avail s))), i_advance s 4)"
  using assms by (simp add: pb_decode_fixed32_def read_chunk_mem)

lemma pb_decode_fixed64_mem:
  assumes "mem_istream s" "8 \<le> length (avail s)"
  shows "pb_decode_fixed64 env s = Some (Some (fixed64_value (take 8 (avail s))), i_advance s 8)"
  using assms by (simp add: pb_decode_fixed64_def read_chunk_mem)

section \<open>Tags and substreams\<close>

lemma pb_decode_tag_canonical:
  assumes "mem_istream s" "avail s = tag_bytes wt num @ rest" "unat wt < 8" "unat num < 2 ^ 29" "num \<noteq> 0"
  shows "pb_decode_tag env s = Some \<lparr>t_ok = True, t_wire_type = wt, t_tag = num, t_eof = False,
     t_stream = i_advance s (length (tag_bytes wt num))\<rparr>"
proof -
  let ?n = "8 * unat num + unat wt"
  define t where "t = (of_nat ?n :: u32)"
  have lt: "?n < 2 ^ 32" using assms(3,4) by simp
  then have un: "unat t = ?n" unfolding t_def by (intro unat_of_nat_small) simp
  have "0 < unat num" using assms(5) by (simp add: unat_gt_0)
  then have "t \<noteq> 0" using un by (metis add_gr_0 nat_0_less_mult_iff unat_0 not_less0 zero_less_numeral)
  moreover have "drop_bit 3 t = num"
    unfolding word_unat_eq_iff unat_drop_bit_eq un using assms(3) by (simp add: drop_bit_eq_div)
  moreover have "t AND 7 = wt"
  proof -
    have "t AND 7 = take_bit 3 t"
      by (simp add: take_bit_eq_mask mask_eq_exp_minus_1)
    also have "\<dots> = wt"
      unfolding word_unat_eq_iff unsigned_take_bit_eq un using assms(3) by (simp add: take_bit_eq_mod)
    finally show ?thesis .
  qed
  moreover have "pb_decode_varint32_eof env s = Some (Some t, False, i_advance s (length (tag_bytes wt num)))"
    using varint32_canonical_low [OF assms(1,2) [unfolded tag_bytes_def] lt] by (simp only: t_def tag_bytes_def)
  ultimately show ?thesis
    by (simp add: pb_decode_tag_def)
qed

lemma pb_make_string_substream_canonical:
  assumes "mem_istream s" "avail s = len_delimited bs @ rest" "length bs < 2 ^ 32"
  shows "\<exists>sub s'. pb_make_string_substream env s = Some (Some sub, s') \<and>
     mem_istream sub \<and> avail sub = bs \<and> i_errmsg sub = i_errmsg s \<and> i_errmsg s' = i_errmsg s \<and>
     i_callback s' = IBufRead \<and> i_bytes_left s' = i_bytes_left s - of_nat (length (len_delimited bs)) \<and>
     i_state sub = i_state s' \<and> i_state s' = i_state (i_advance s (length (varint_bytes (length bs)))) \<and>
     i_bytes_left sub = of_nat (length bs)"
proof -
  let ?k = "length (varint_bytes (length bs))"
  let ?t = "i_advance s ?k"
  have r: "pb_decode_varint32 env s = Some (Some (of_nat (length bs)), ?t)"
    by (rule varint32_canonical [OF assms(1) _ assms(3)]) (use assms(2) in \<open>simp add: len_delimited_def\<close>)
  have k: "?k \<le> length (avail s)" "length bs \<le> length (avail ?t)"
    using assms(1,2) by (simp_all add: len_delimited_def)
  have t: "mem_istream ?t" "avail ?t = bs @ rest"
    using assms(1,2) by (simp_all add: len_delimited_def)
  then obtain r where st: "i_callback ?t = IBufRead" "i_state ?t = IBuf r"
    "unat (i_bytes_left ?t) \<le> length r" "avail ?t = take (unat (i_bytes_left ?t)) r"
    by (elim mem_istreamE)
  have u: "unat (ucast (of_nat (length bs) :: u32) :: u64) = length bs"
    using assms(3) by (simp add: unsigned_ucast_eq unsigned_of_nat take_bit_nat_eq_self)
  have nlt: "\<not> i_bytes_left ?t < ucast (of_nat (length bs) :: u32)"
    unfolding word_less_nat_alt u using t(2) length_avail [OF t(1)] by simp
  let ?sub = "?t\<lparr>i_bytes_left := ucast (of_nat (length bs) :: u32)\<rparr>"
  have le: "length bs \<le> length r" using st(3) t(2) length_avail [OF t(1)] by simp
  have "take (length bs) (bs @ rest) = take (length bs) r"
    using st(4) t(2) length_avail [OF t(1)] by (metis length_append le_add1 min.absorb1 take_take)
  then have sub: "mem_istream ?sub" "avail ?sub = bs"
    using st le by (simp_all add: mem_istream_def avail_def u)
  have bl: "ucast (of_nat (length bs) :: u32) = (of_nat (length bs) :: u64)"
    using u assms(3) by (simp add: word_unat_eq_iff unsigned_of_nat take_bit_nat_eq_self)
  show ?thesis
    using r nlt sub st by (simp add: pb_make_string_substream_def bl len_delimited_def)
      (simp add: i_advance_def diff_diff_eq)
qed

end
