(* ===== verification/FieldIter.thy ===== *)
theory FieldIter
  imports PbTypes
begin

text \<open>
  \<open>nanopb/pb_common.c\<close>: the iterator over the fields of a message. \<open>it_pos\<close> is the index of
  \<open>iter->pos\<close> in the table \<open>it_start\<close>. \<open>it_pSize\<close> is an address, or the local variable
  \<open>fixed_count_size\<close> that \<open>pb_decode_noinit\<close> substitutes for it.
\<close>

datatype psize = AtAddr addr | FixedCountSize

record pb_field_iter =
  it_start :: "pb_field list"
  it_pos :: nat
  it_required_field_index :: u32
  it_dest_struct :: addr
  it_pData :: addr
  it_pSize :: psize

definition it_field :: "pb_field_iter \<Rightarrow> pb_field" where
  "it_field it = field_at (it_start it) (it_pos it)"

definition pb_field_iter_begin :: "pb_field list \<Rightarrow> addr \<Rightarrow> bool \<times> pb_field_iter" where
  "pb_field_iter_begin flds dest_struct =
     (let f = field_at flds 0;
          pData = dest_struct + uint (f_data_offset f) in
      (f_tag f \<noteq> 0,
       \<lparr>it_start = flds, it_pos = 0, it_required_field_index = 0,
        it_dest_struct = dest_struct, it_pData = pData,
        it_pSize = AtAddr (pData + sint (f_size_offset f))\<rparr>))"

definition prev_data_size :: "pb_field \<Rightarrow> int" where
  "prev_data_size f =
     (if atype f = PB_ATYPE_STATIC \<and> htype f = PB_HTYPE_REPEATED
      then uint (f_data_size f) * uint (f_array_size f)
      else if atype f = PB_ATYPE_POINTER then 8
      else uint (f_data_size f))"

definition inside_union :: "pb_field \<Rightarrow> pb_field \<Rightarrow> bool" where
  "inside_union prev cur \<longleftrightarrow> htype prev = PB_HTYPE_ONEOF \<and> htype cur = PB_HTYPE_ONEOF \<and>
     f_data_offset cur = PB_SIZE_MAX"

definition pb_field_iter_next :: "pb_field_iter \<Rightarrow> bool \<times> pb_field_iter" where
  "pb_field_iter_next iter =
     (let prev = it_field iter in
      if f_tag prev = 0 then (False, iter)
      else
       (let iter = iter\<lparr>it_pos := Suc (it_pos iter)\<rparr>; cur = it_field iter in
        if f_tag cur = 0
        then (False, snd (pb_field_iter_begin (it_start iter) (it_dest_struct iter)))
        else if inside_union prev cur then (True, iter)
        else
         (let iter = (if htype prev = PB_HTYPE_REQUIRED
                      then iter\<lparr>it_required_field_index := it_required_field_index iter + 1\<rparr>
                      else iter);
              pData = it_pData iter + prev_data_size prev + uint (f_data_offset cur) in
          (True, iter\<lparr>it_pData := pData,
                      it_pSize := AtAddr (pData + sint (f_size_offset cur))\<rparr>))))"

text \<open>
  The search loops \<open>do ... while (iter->pos != start)\<close>; \<open>n\<close> bounds the number of rounds, and
  one more than the number of fields is always enough (\<open>find_loop_correct\<close>).
\<close>

primrec find_loop :: "nat \<Rightarrow> (pb_field \<Rightarrow> bool) \<Rightarrow> nat \<Rightarrow> pb_field_iter
    \<Rightarrow> (bool \<times> pb_field_iter) option" where
  "find_loop 0 wanted start iter = None"
| "find_loop (Suc n) wanted start iter =
     (if wanted (it_field iter) then Some (True, iter)
      else
       (let iter = snd (pb_field_iter_next iter) in
        if it_pos iter \<noteq> start then find_loop n wanted start iter else Some (False, iter)))"

definition pb_field_iter_find :: "pb_field_iter \<Rightarrow> u32 \<Rightarrow> (bool \<times> pb_field_iter) option" where
  "pb_field_iter_find iter tag =
     find_loop (Suc (length (it_start iter)))
       (\<lambda>f. f_tag f = tag \<and> ltype f \<noteq> PB_LTYPE_EXTENSION) (it_pos iter) iter"

text \<open>
  The loop \<open>do body while (pb_field_iter_next(&iter))\<close> of the message functions, over a state
  \<open>s\<close>; it stops early where the body returns false.
\<close>

lemma iter_next_True_measure:
  assumes "pb_field_iter_next it = (True, it')"
  shows "it_start it' = it_start it \<and> it_pos it' = Suc (it_pos it) \<and> it_pos it' < length (it_start it')"
proof -
  have "f_tag (field_at (it_start it) (Suc (it_pos it))) \<noteq> 0"
    using assms by (auto simp: pb_field_iter_next_def Let_def it_field_def split: if_splits)
  then have "Suc (it_pos it) < length (it_start it)"
    by (rule field_at_tag_nonzero)
  with assms show ?thesis
    by (auto simp: pb_field_iter_next_def Let_def split: if_splits)
qed

function iter_loop :: "(pb_field_iter \<Rightarrow> 's \<Rightarrow> 's outcome) \<Rightarrow> pb_field_iter \<Rightarrow> 's \<Rightarrow> 's outcome" where
  "iter_loop body it s =
     ifok (body it s) (\<lambda>s. case pb_field_iter_next it of
        (go, it') \<Rightarrow> if go then iter_loop body it' s else Some (True, s))"
  by pat_completeness auto
termination
proof (relation "measure (\<lambda>(body, it, s). length (it_start it) - it_pos it)")
  fix body :: "pb_field_iter \<Rightarrow> 's \<Rightarrow> 's outcome" and it it' go s s'
  assume "(go, it') = pb_field_iter_next it" and "go"
  then have "pb_field_iter_next it = (True, it')" by simp
  then show "((body, it', s'), body, it, s)
      \<in> measure (\<lambda>(body, it, s). length (it_start it) - it_pos it)"
    using iter_next_True_measure [of it it'] by auto
qed simp

declare iter_loop.simps [simp del]

section \<open>Closed form of the iterator\<close>

text \<open>
  Offsets of the \<open>i\<close>-th field and of its count or has-flag from the start of the struct, the
  number of required fields before it, and the iterator that stands on it.
\<close>

primrec field_offset :: "pb_field list \<Rightarrow> nat \<Rightarrow> int" where
  "field_offset fs 0 = uint (f_data_offset (field_at fs 0))"
| "field_offset fs (Suc i) =
     (if inside_union (field_at fs i) (field_at fs (Suc i)) then field_offset fs i
      else field_offset fs i + prev_data_size (field_at fs i)
             + uint (f_data_offset (field_at fs (Suc i))))"

primrec size_field_offset :: "pb_field list \<Rightarrow> nat \<Rightarrow> int" where
  "size_field_offset fs 0 = field_offset fs 0 + sint (f_size_offset (field_at fs 0))"
| "size_field_offset fs (Suc i) =
     (if inside_union (field_at fs i) (field_at fs (Suc i)) then size_field_offset fs i
      else field_offset fs (Suc i) + sint (f_size_offset (field_at fs (Suc i))))"

definition required_before :: "pb_field list \<Rightarrow> nat \<Rightarrow> nat" where
  "required_before fs i = length (filter (\<lambda>f. htype f = PB_HTYPE_REQUIRED) (take i fs))"

definition iter_at :: "pb_field list \<Rightarrow> addr \<Rightarrow> nat \<Rightarrow> pb_field_iter" where
  "iter_at fs d i = \<lparr>it_start = fs, it_pos = i,
     it_required_field_index = of_nat (required_before fs i), it_dest_struct = d,
     it_pData = d + field_offset fs i, it_pSize = AtAddr (d + size_field_offset fs i)\<rparr>"

lemma iter_at_sel [simp]:
  "it_start (iter_at fs d i) = fs" "it_pos (iter_at fs d i) = i"
  "it_dest_struct (iter_at fs d i) = d" "it_field (iter_at fs d i) = field_at fs i"
  "it_pData (iter_at fs d i) = d + field_offset fs i"
  "it_pSize (iter_at fs d i) = AtAddr (d + size_field_offset fs i)"
  "it_required_field_index (iter_at fs d i) = of_nat (required_before fs i)"
  by (simp_all add: iter_at_def it_field_def)

lemma required_before_0 [simp]: "required_before fs 0 = 0"
  by (simp add: required_before_def)

lemma required_before_Suc:
  "i < length fs \<Longrightarrow> required_before fs (Suc i) =
     required_before fs i + (if htype (fs ! i) = PB_HTYPE_REQUIRED then 1 else 0)"
  by (simp add: required_before_def take_Suc_conv_app_nth)

lemma iter_begin: "pb_field_iter_begin fs d = (f_tag (field_at fs 0) \<noteq> 0, iter_at fs d 0)"
  by (simp add: pb_field_iter_begin_def iter_at_def Let_def)

lemma inside_union_not_required: "inside_union p c \<Longrightarrow> htype p \<noteq> PB_HTYPE_REQUIRED"
  by (auto simp: inside_union_def htype_defs)

lemma iter_next_inside:
  assumes "fields_ok fs" "Suc i < length fs"
  shows "pb_field_iter_next (iter_at fs d i) = (True, iter_at fs d (Suc i))"
proof -
  have tags: "f_tag (fs ! i) \<noteq> 0" "f_tag (fs ! Suc i) \<noteq> 0"
    using assms by (auto simp: fields_ok_def)
  have "it_field (iter_at fs d i\<lparr>it_pos := Suc i\<rparr>) = fs ! Suc i"
    using assms by (simp add: it_field_def iter_at_def)
  with tags assms show ?thesis
    by (auto simp: pb_field_iter_next_def Let_def iter_at_def required_before_Suc it_field_def
        dest: inside_union_not_required)
qed

lemma iter_next_last:
  assumes "fields_ok fs" "Suc i = length fs"
  shows "pb_field_iter_next (iter_at fs d i) = (False, iter_at fs d 0)"
proof -
  have "f_tag (fs ! i) \<noteq> 0"
    using assms by (auto simp: fields_ok_def)
  moreover have "it_field (iter_at fs d i\<lparr>it_pos := Suc i\<rparr>) = PB_LAST_FIELD"
    using assms by (simp add: it_field_def iter_at_def)
  ultimately show ?thesis
    using assms by (simp add: pb_field_iter_next_def Let_def iter_begin)
qed

lemma iter_next:
  assumes "fields_ok fs" "i < length fs"
  shows "pb_field_iter_next (iter_at fs d i) =
           (if Suc i < length fs then (True, iter_at fs d (Suc i)) else (False, iter_at fs d 0))"
proof (cases "Suc i < length fs")
  case True
  with assms show ?thesis by (simp add: iter_next_inside)
next
  case False
  with assms have "Suc i = length fs" by simp
  with assms False show ?thesis by (simp add: iter_next_last)
qed

lemma iter_next_empty [simp]: "pb_field_iter_next (iter_at [] d 0) = (False, iter_at [] d 0)"
  by (simp add: pb_field_iter_next_def)

section \<open>The loop over all fields\<close>

text \<open>\<open>body\<close> folded over the indices of the fields, stopping at the first false.\<close>

primrec fold_ok :: "('a \<Rightarrow> 's \<Rightarrow> 's outcome) \<Rightarrow> 'a list \<Rightarrow> 's \<Rightarrow> 's outcome" where
  "fold_ok f [] s = Some (True, s)"
| "fold_ok f (x # xs) s = ifok (f x s) (fold_ok f xs)"

lemma fold_ok_Nil [simp]: "fold_ok f [] = (\<lambda>s. Some (True, s))"
  by (rule ext) simp

lemma iter_loop_fold:
  assumes "fields_ok fs" "i < length fs"
  shows "iter_loop body (iter_at fs d i) s =
           fold_ok (\<lambda>j. body (iter_at fs d j)) [i..<length fs] s"
  using assms(2)
proof (induction "length fs - i" arbitrary: i s)
  case (Suc k)
  have upt: "[i..<length fs] = i # [Suc i..<length fs]"
    using Suc.prems by (simp add: upt_conv_Cons)
  show ?case
  proof (cases "Suc i < length fs")
    case True
    with Suc have "iter_loop body (iter_at fs d (Suc i)) t =
        fold_ok (\<lambda>j. body (iter_at fs d j)) [Suc i..<length fs] t" for t
      by simp
    with True assms(1) show ?thesis
      by (subst iter_loop.simps) (simp add: iter_next upt)
  next
    case False
    with Suc.prems assms(1) show ?thesis
      by (subst iter_loop.simps) (simp add: iter_next upt)
  qed
qed simp

section \<open>Searching\<close>

text \<open>The steps from position \<open>i\<close> until the search is back at \<open>start\<close>.\<close>

definition rounds_left :: "nat \<Rightarrow> nat \<Rightarrow> nat \<Rightarrow> nat" where
  "rounds_left len start i = (if i < start then start - i else len - i + start)"

definition find_result :: "pb_field list \<Rightarrow> addr \<Rightarrow> (pb_field \<Rightarrow> bool) \<Rightarrow> nat
    \<Rightarrow> (bool \<times> pb_field_iter) option \<Rightarrow> bool" where
  "find_result fs d wanted start r \<longleftrightarrow>
     (\<exists>j < length fs. r = Some (True, iter_at fs d j) \<and> wanted (fs ! j)) \<or>
     (r = Some (False, iter_at fs d start) \<and> (\<forall>k < length fs. \<not> wanted (fs ! k)))"

lemma find_loop_correct:
  assumes "fields_ok fs" "i < length fs" "start < length fs"
    and "rounds_left (length fs) start i \<le> n"
    and "\<And>k. k < length fs \<Longrightarrow> (if i < start then start \<le> k \<or> k < i else start \<le> k \<and> k < i)
           \<Longrightarrow> \<not> wanted (fs ! k)"
  shows "find_result fs d wanted start (find_loop n wanted start (iter_at fs d i))"
  using assms(2-)
proof (induction n arbitrary: i)
  case 0
  then show ?case by (simp add: rounds_left_def split: if_splits)
next
  case (Suc n)
  show ?case
  proof (cases "wanted (fs ! i)")
    case True
    with Suc.prems show ?thesis by (auto simp: find_result_def)
  next
    case False
    define j where "j = (if Suc i < length fs then Suc i else 0)"
    have next_j: "snd (pb_field_iter_next (iter_at fs d i)) = iter_at fs d j"
      using assms(1) Suc.prems by (simp add: iter_next j_def)
    have seen: "\<not> wanted (fs ! k)"
      if "k < length fs" "if i < start then start \<le> k \<or> k \<le> i else start \<le> k \<and> k \<le> i" for k
      using Suc.prems(4) [of k] False that by (cases "k = i") (auto split: if_splits)
    show ?thesis
    proof (cases "j = start")
      case True
      have "\<not> wanted (fs ! k)" if "k < length fs" for k
        by (rule seen) (use True that Suc.prems in \<open>auto simp: j_def split: if_splits\<close>)
      with True False Suc.prems next_j show ?thesis
        by (simp add: find_result_def)
    next
      case neq: False
      have "find_result fs d wanted start (find_loop n wanted start (iter_at fs d j))"
      proof (rule Suc.IH)
        show "j < length fs" using Suc.prems by (auto simp: j_def)
        show "rounds_left (length fs) start j \<le> n"
          using Suc.prems neq by (auto simp: rounds_left_def j_def split: if_splits)
        show "\<not> wanted (fs ! k)"
          if "k < length fs" "if j < start then start \<le> k \<or> k < j else start \<le> k \<and> k < j" for k
          by (rule seen) (use that neq Suc.prems in \<open>auto simp: j_def split: if_splits\<close>)
      qed (use Suc.prems in auto)
      with False neq Suc.prems next_j show ?thesis by simp
    qed
  qed
qed

lemma find_loop_start:
  assumes "fields_ok fs" "i < length fs" "length fs \<le> n"
  shows "find_result fs d wanted i (find_loop n wanted i (iter_at fs d i))"
  by (rule find_loop_correct) (use assms in \<open>auto simp: rounds_left_def\<close>)

lemma pb_field_iter_find_result:
  assumes "fields_ok fs" "i < length fs"
  shows "find_result fs d (\<lambda>f. f_tag f = tag \<and> ltype f \<noteq> PB_LTYPE_EXTENSION) i
           (pb_field_iter_find (iter_at fs d i) tag)"
  unfolding pb_field_iter_find_def by (simp only: iter_at_sel) (rule find_loop_start, use assms in auto)

lemma pb_field_iter_find_empty:
  "pb_field_iter_find (iter_at [] d 0) tag = Some (tag = 0, iter_at [] d 0)"
  by (simp add: pb_field_iter_find_def PB_LAST_FIELD_def pb_type_defs)

end
