(* ===== verification/Encode.thy ===== *)
theory Encode
  imports OStream FieldIter
begin

text \<open>
  The message encoder of \<open>nanopb/pb_encode.c\<close>. The C functions call each other in a cycle
  through \<open>pb_encode\<close>; here every function below \<open>pb_encode\<close> takes the encoder of a message,
  \<open>enc\<close>, as an argument, and \<open>pb_encode\<close> ties the knot with a fuel that bounds the nesting of
  submessages (and the length of an extension chain). \<open>None\<close> is the result when it runs out.
\<close>

type_synonym 'u msg_encoder = "pb_field list \<Rightarrow> addr \<Rightarrow> 'u ostream \<Rightarrow> 'u ostream outcome"
type_synonym 'u field_encoder = "pb_field \<Rightarrow> addr \<Rightarrow> 'u ostream \<Rightarrow> 'u ostream outcome"

section \<open>Field encoders\<close>

definition int_size_ok :: "u32 \<Rightarrow> bool" where
  "int_size_ok n \<longleftrightarrow> n = 1 \<or> n = 2 \<or> n = 4 \<or> n = 8"

definition load_sint :: "mem \<Rightarrow> u32 \<Rightarrow> addr \<Rightarrow> u64 option" where
  "load_sint m n a =
     (if n = 1 then map_option scast (load_u8 m a)
      else if n = 2 then map_option scast (load_u16 m a)
      else if n = 4 then map_option scast (load_u32 m a)
      else load_u64 m a)"

definition load_uint :: "mem \<Rightarrow> u32 \<Rightarrow> addr \<Rightarrow> u64 option" where
  "load_uint m n a =
     (if n = 1 then map_option ucast (load_u8 m a)
      else if n = 2 then map_option ucast (load_u16 m a)
      else if n = 4 then map_option ucast (load_u32 m a)
      else load_u64 m a)"

definition pb_enc_varint :: "'u oenv \<Rightarrow> 'u field_encoder" where
  "pb_enc_varint env f src s =
     (if \<not> int_size_ok (f_data_size f) then o_return_error ''invalid data_size'' s
      else case load_sint (oe_mem env) (f_data_size f) src of
          None \<Rightarrow> None
        | Some v \<Rightarrow> pb_encode_varint env v s)"

definition pb_enc_uvarint :: "'u oenv \<Rightarrow> 'u field_encoder" where
  "pb_enc_uvarint env f src s =
     (if \<not> int_size_ok (f_data_size f) then o_return_error ''invalid data_size'' s
      else case load_uint (oe_mem env) (f_data_size f) src of
          None \<Rightarrow> None
        | Some v \<Rightarrow> pb_encode_varint env v s)"

definition pb_enc_svarint :: "'u oenv \<Rightarrow> 'u field_encoder" where
  "pb_enc_svarint env f src s =
     (if \<not> int_size_ok (f_data_size f) then o_return_error ''invalid data_size'' s
      else case load_sint (oe_mem env) (f_data_size f) src of
          None \<Rightarrow> None
        | Some v \<Rightarrow> pb_encode_svarint env v s)"

definition pb_enc_fixed32 :: "'u oenv \<Rightarrow> 'u field_encoder" where
  "pb_enc_fixed32 env f src s = pb_encode_fixed32 env src s"

definition pb_enc_fixed64 :: "'u oenv \<Rightarrow> 'u field_encoder" where
  "pb_enc_fixed64 env f src s = pb_encode_fixed64 env src s"

definition pb_enc_bytes :: "'u oenv \<Rightarrow> 'u field_encoder" where
  "pb_enc_bytes env f src s =
     (if src = NULL then pb_encode_string env (Some []) 0 s
      else case load_u32 (oe_mem env) src of
          None \<Rightarrow> None
        | Some sz \<Rightarrow>
            (if atype f = PB_ATYPE_STATIC \<and> PB_BYTES_ARRAY_T_ALLOCSIZE sz > ucast (f_data_size f)
             then o_return_error ''bytes size exceeded'' s
             else pb_encode_string env
                    (load_bytes (oe_mem env) (src + BYTES_OFFSET) (unat sz)) (ucast sz) s))"

text \<open>The loop of \<open>pb_enc_string\<close>: the length of the string, \<open>max_size\<close> at most.\<close>

function string_length :: "mem \<Rightarrow> addr \<Rightarrow> nat \<Rightarrow> nat \<Rightarrow> nat option" where
  "string_length m p sz max_size =
     (if sz < max_size
      then (case m p of None \<Rightarrow> None
        | Some b \<Rightarrow> if b = 0 then Some sz else string_length m (p + 1) (Suc sz) max_size)
      else Some sz)"
  by pat_completeness auto
termination
  by (relation "measure (\<lambda>(m, p, sz, max_size). max_size - sz)") auto

declare string_length.simps [simp del]

definition pb_enc_string :: "'u oenv \<Rightarrow> 'u field_encoder" where
  "pb_enc_string env f src s =
     (let max_size = (if atype f = PB_ATYPE_POINTER then 2 ^ 64 - 1 else unat (f_data_size f)) in
      case (if src = NULL then Some 0 else string_length (oe_mem env) src 0 max_size) of
        None \<Rightarrow> None
      | Some sz \<Rightarrow> pb_encode_string env (load_bytes (oe_mem env) src sz) (of_nat sz) s)"

text \<open>
  \<open>pb_encode_submessage\<close> encodes twice: on a sizing stream, and, behind the size, through a
  substream limited to that size (\<open>write_submessage\<close>, the part after the size is written).
\<close>

definition write_submessage :: "'u msg_encoder \<Rightarrow> 'u oenv \<Rightarrow> u64 \<Rightarrow> 'u msg_encoder" where
  "write_submessage enc env sz flds src s =
     (if o_callback s = ONull then pb_write env None sz s
      else if o_bytes_written s + sz > o_max_size s then o_return_error ''stream full'' s
      else
        (case enc flds src \<lparr>o_callback = o_callback s, o_state = o_state s,
                o_max_size = sz, o_bytes_written = 0, o_errmsg = None\<rparr> of
           None \<Rightarrow> None
         | Some (status, substream) \<Rightarrow>
            (let s = s\<lparr>o_bytes_written := o_bytes_written s + o_bytes_written substream,
                       o_state := o_state substream, o_errmsg := o_errmsg substream\<rparr> in
             if o_bytes_written substream \<noteq> sz
             then o_return_error ''submsg size changed'' s
             else Some (status, s))))"

definition pb_encode_submessage :: "'u msg_encoder \<Rightarrow> 'u oenv \<Rightarrow> 'u msg_encoder" where
  "pb_encode_submessage enc env flds src s =
     (case enc flds src PB_OSTREAM_SIZING of
        None \<Rightarrow> None
      | Some (False, substream) \<Rightarrow> Some (False, s\<lparr>o_errmsg := o_errmsg substream\<rparr>)
      | Some (True, substream) \<Rightarrow>
         (let sz = o_bytes_written substream in
          ifok (pb_encode_varint env sz s) (write_submessage enc env sz flds src)))"

definition pb_enc_submessage :: "'u msg_encoder \<Rightarrow> 'u oenv \<Rightarrow> 'u field_encoder" where
  "pb_enc_submessage enc env f src s =
     (if f_ptr f = NULL then o_return_error ''invalid field descriptor'' s
      else case oe_fields env (f_ptr f) of
          None \<Rightarrow> None
        | Some flds \<Rightarrow> pb_encode_submessage enc env flds src s)"

definition pb_enc_fixed_length_bytes :: "'u oenv \<Rightarrow> 'u field_encoder" where
  "pb_enc_fixed_length_bytes env f src s =
     pb_encode_string env (load_bytes (oe_mem env) src (unat (f_data_size f)))
       (ucast (f_data_size f)) s"

text \<open>The dispatch table; a NULL entry is \<open>None\<close>.\<close>

definition PB_ENCODERS :: "'u msg_encoder \<Rightarrow> 'u oenv \<Rightarrow> 'u field_encoder option list" where
  "PB_ENCODERS enc env =
     [Some (pb_enc_varint env),
      Some (pb_enc_uvarint env),
      Some (pb_enc_svarint env),
      Some (pb_enc_fixed32 env),
      Some (pb_enc_fixed64 env),
      Some (pb_enc_bytes env),
      Some (pb_enc_string env),
      Some (pb_enc_submessage enc env),
      None,
      Some (pb_enc_fixed_length_bytes env)]"

definition call_encoder :: "'u field_encoder option \<Rightarrow> 'u field_encoder" where
  "call_encoder func f src s = (case func of None \<Rightarrow> None | Some g \<Rightarrow> g f src s)"

section \<open>Arrays\<close>

text \<open>\<open>for (i = 0; i < count; i++) { if (!g(p)) return false; p += step; }\<close>\<close>

primrec for_items :: "(addr \<Rightarrow> 's \<Rightarrow> 's outcome) \<Rightarrow> int \<Rightarrow> nat \<Rightarrow> addr \<Rightarrow> 's \<Rightarrow> 's outcome" where
  "for_items g step 0 p s = Some (True, s)"
| "for_items g step (Suc n) p s = ifok (g p s) (\<lambda>s. for_items g step n (p + step) s)"

definition array_items ::
    "pb_field \<Rightarrow> addr \<Rightarrow> u64 \<Rightarrow> 'u field_encoder option \<Rightarrow> 'u ostream \<Rightarrow> 'u ostream outcome" where
  "array_items f pData count func =
     for_items (call_encoder func f) (uint (f_data_size f)) (unat count) pData"

text \<open>The total size of a packed array; \<open>Some None\<close> where its items cannot be encoded.\<close>

definition packed_size ::
    "pb_field \<Rightarrow> addr \<Rightarrow> u64 \<Rightarrow> 'u field_encoder option \<Rightarrow> u64 option option" where
  "packed_size f pData count func =
     (if ltype f = PB_LTYPE_FIXED32 then Some (Some (4 * count))
      else if ltype f = PB_LTYPE_FIXED64 then Some (Some (8 * count))
      else (case array_items f pData count func PB_OSTREAM_SIZING of
              None \<Rightarrow> None
            | Some (ok, sizestream) \<Rightarrow> Some (if ok then Some (o_bytes_written sizestream) else None)))"

definition encode_array ::
    "'u oenv \<Rightarrow> pb_field \<Rightarrow> addr \<Rightarrow> u64 \<Rightarrow> 'u field_encoder option \<Rightarrow> 'u ostream \<Rightarrow> 'u ostream outcome" where
  "encode_array env f pData count func s =
     (if count = 0 then Some (True, s)
      else if atype f \<noteq> PB_ATYPE_POINTER \<and> count > ucast (f_array_size f)
      then o_return_error ''array max size exceeded'' s
      else if ltype f \<le> PB_LTYPE_LAST_PACKABLE then
        ifok (pb_encode_tag env PB_WT_STRING (f_tag f) s) (\<lambda>s.
          case packed_size f pData count func of
            None \<Rightarrow> None
          | Some None \<Rightarrow> Some (False, s)
          | Some (Some sz) \<Rightarrow>
              ifok (pb_encode_varint env sz s) (\<lambda>s.
                if o_callback s = ONull then pb_write env None sz s
                else array_items f pData count func s))
      else
        for_items (\<lambda>p s. ifok (pb_encode_tag_for_field env f s) (\<lambda>s.
            if atype f = PB_ATYPE_POINTER \<and> (ltype f = PB_LTYPE_STRING \<or> ltype f = PB_LTYPE_BYTES)
            then (case load_ptr (oe_mem env) p of None \<Rightarrow> None | Some q \<Rightarrow> call_encoder func f q s)
            else call_encoder func f p s))
          (uint (f_data_size f)) (unat count) pData s)"

section \<open>Default values of proto3 fields\<close>

primrec zero_bytes :: "mem \<Rightarrow> addr \<Rightarrow> nat \<Rightarrow> bool option" where
  "zero_bytes m a 0 = Some True"
| "zero_bytes m a (Suc n) = (case m a of None \<Rightarrow> None
     | Some b \<Rightarrow> if b \<noteq> 0 then Some False else zero_bytes m (a + 1) n)"

primrec pb_check_proto3_default_value :: "nat \<Rightarrow> 'u oenv \<Rightarrow> pb_field \<Rightarrow> addr \<Rightarrow> bool option" where
  "pb_check_proto3_default_value 0 env f pData = None"
| "pb_check_proto3_default_value (Suc n) env f pData =
     (let m = oe_mem env; pSize = pData + sint (f_size_offset f) in
      if htype f = PB_HTYPE_REQUIRED then Some False
      else if htype f = PB_HTYPE_REPEATED then map_option (\<lambda>v. v = 0) (load_u32 m pSize)
      else if htype f = PB_HTYPE_ONEOF then map_option (\<lambda>v. v = 0) (load_u32 m pSize)
      else if htype f = PB_HTYPE_OPTIONAL \<and> f_size_offset f \<noteq> 0
      then map_option (\<lambda>has. has = False) (load_bool m pSize)
      else if atype f = PB_ATYPE_STATIC \<and> ltype f = PB_LTYPE_BYTES
      then map_option (\<lambda>v. v = 0) (load_u32 m pData)
      else if atype f = PB_ATYPE_STATIC \<and> ltype f = PB_LTYPE_STRING
      then map_option (\<lambda>v. v = 0) (m pData)
      else if atype f = PB_ATYPE_STATIC \<and> ltype f = PB_LTYPE_FIXED_LENGTH_BYTES
      then Some (f_data_size f = 0)
      else if atype f = PB_ATYPE_STATIC \<and> ltype f = PB_LTYPE_SUBMESSAGE
      then (case oe_fields env (f_ptr f) of
              None \<Rightarrow> None
            | Some flds \<Rightarrow>
               (case pb_field_iter_begin flds pData of (nonempty, iter) \<Rightarrow>
                  if nonempty
                  then map_option fst (iter_loop (\<lambda>iter u.
                         map_option (\<lambda>b. (b, u))
                           (pb_check_proto3_default_value n env (it_field iter) (it_pData iter)))
                         iter ())
                  else Some True))
      else zero_bytes m pData (unat (f_data_size f)))"

section \<open>Fields\<close>

definition encode_basic_field :: "'u msg_encoder \<Rightarrow> nat \<Rightarrow> 'u oenv \<Rightarrow> 'u field_encoder" where
  "encode_basic_field enc n env f pData s =
     (let m = oe_mem env in
      if PB_LTYPES_COUNT \<le> unat (ltype f) then None
      else
       (let func = PB_ENCODERS enc env ! unat (ltype f);
            pSize = (if f_size_offset f \<noteq> 0 then Some (pData + sint (f_size_offset f)) else None);
            implicit = (if f_size_offset f \<noteq> 0 then Some False
                        else if htype f = PB_HTYPE_OPTIONAL
                        then map_option Not (pb_check_proto3_default_value n env f pData)
                        else Some True);
            target = (if atype f = PB_ATYPE_POINTER then load_ptr m pData else Some pData)
        in case (implicit, target) of
             (Some implicit0, Some pData) \<Rightarrow>
              (let implicit_has = (if atype f = PB_ATYPE_POINTER then pData \<noteq> NULL else implicit0)
               in
               if htype f = PB_HTYPE_REQUIRED then
                 (if pData = NULL then o_return_error ''missing required field'' s
                  else ifok (pb_encode_tag_for_field env f s) (\<lambda>s. call_encoder func f pData s))
               else if htype f = PB_HTYPE_OPTIONAL then
                 (case (case pSize of None \<Rightarrow> Some implicit_has | Some a \<Rightarrow> load_bool m a) of
                    None \<Rightarrow> None
                  | Some has \<Rightarrow>
                      if has
                      then ifok (pb_encode_tag_for_field env f s) (\<lambda>s. call_encoder func f pData s)
                      else Some (True, s))
               else if htype f = PB_HTYPE_REPEATED then
                 (case (case pSize of None \<Rightarrow> Some (f_array_size f) | Some a \<Rightarrow> load_u32 m a) of
                    None \<Rightarrow> None
                  | Some count \<Rightarrow> encode_array env f pData (ucast count) func s)
               else \<comment> \<open>\<open>PB_HTYPE_ONEOF\<close>, the only value left of the two-bit mask\<close>
                 (case (case pSize of None \<Rightarrow> None | Some a \<Rightarrow> load_u32 m a) of
                    None \<Rightarrow> None
                  | Some which \<Rightarrow>
                      if which = f_tag f
                      then ifok (pb_encode_tag_for_field env f s) (\<lambda>s. call_encoder func f pData s)
                      else Some (True, s)))
           | _ \<Rightarrow> None))"

definition encode_callback_field :: "'u oenv \<Rightarrow> 'u field_encoder" where
  "encode_callback_field env f pData s =
     (case callback_fn (oe_mem env) pData of
        None \<Rightarrow> None
      | Some fn \<Rightarrow>
         (if fn \<noteq> NULL
          then (case oe_encode_cb env fn f (callback_arg pData) s of
                  None \<Rightarrow> None
                | Some (False, s) \<Rightarrow> o_return_error ''callback error'' s
                | Some (True, s) \<Rightarrow> Some (True, s))
          else Some (True, s)))"

definition encode_field :: "'u msg_encoder \<Rightarrow> nat \<Rightarrow> 'u oenv \<Rightarrow> 'u field_encoder" where
  "encode_field enc n env f pData s =
     (if atype f = PB_ATYPE_STATIC \<or> atype f = PB_ATYPE_POINTER
      then encode_basic_field enc n env f pData s
      else if atype f = PB_ATYPE_CALLBACK then encode_callback_field env f pData s
      else o_return_error ''invalid field type'' s)"

section \<open>Extensions\<close>

definition default_extension_encoder ::
    "'u msg_encoder \<Rightarrow> nat \<Rightarrow> 'u oenv \<Rightarrow> addr \<Rightarrow> 'u ostream \<Rightarrow> 'u ostream outcome" where
  "default_extension_encoder enc n env extension s =
     (let m = oe_mem env in
      case Option.bind (ext_type m extension) (\<lambda>t. Option.bind (exttype_arg m t) (oe_fields env)) of
        None \<Rightarrow> None
      | Some flds \<Rightarrow>
         (let f = field_at flds 0 in
          if atype f = PB_ATYPE_POINTER
          then encode_field enc n env f (ext_dest extension) s
          else (case load_ptr m (ext_dest extension) of
                  None \<Rightarrow> None
                | Some dest \<Rightarrow> encode_field enc n env f dest s)))"

text \<open>The \<open>while (extension)\<close> loop; \<open>k\<close> bounds the extensions it visits.\<close>

primrec encode_extensions ::
    "'u msg_encoder \<Rightarrow> nat \<Rightarrow> 'u oenv \<Rightarrow> nat \<Rightarrow> addr \<Rightarrow> 'u ostream \<Rightarrow> 'u ostream outcome" where
  "encode_extensions enc n env 0 extension s = (if extension = NULL then Some (True, s) else None)"
| "encode_extensions enc n env (Suc k) extension s =
     (if extension = NULL then Some (True, s)
      else
       (let m = oe_mem env in
        case Option.bind (ext_type m extension) (exttype_encode m) of
          None \<Rightarrow> None
        | Some fn \<Rightarrow>
            ifok (if fn \<noteq> NULL then oe_encode_ext env fn extension s
                  else default_extension_encoder enc n env extension s)
              (\<lambda>s. case ext_next m extension of
                     None \<Rightarrow> None
                   | Some e \<Rightarrow> encode_extensions enc n env k e s)))"

definition encode_extension_field :: "'u msg_encoder \<Rightarrow> nat \<Rightarrow> 'u oenv \<Rightarrow> 'u field_encoder" where
  "encode_extension_field enc n env f pData s = (case load_ptr (oe_mem env) pData of
     None \<Rightarrow> None | Some extension \<Rightarrow> encode_extensions enc n env n extension s)"

section \<open>Messages\<close>

definition encode_message_field :: "'u msg_encoder \<Rightarrow> nat \<Rightarrow> 'u oenv \<Rightarrow> 'u field_encoder" where
  "encode_message_field enc n env f pData s =
     (if ltype f = PB_LTYPE_EXTENSION then encode_extension_field enc n env f pData s
      else encode_field enc n env f pData s)"

primrec pb_encode :: "nat \<Rightarrow> 'u oenv \<Rightarrow> 'u msg_encoder" where
  "pb_encode 0 env flds src_struct s = None"
| "pb_encode (Suc n) env flds src_struct s =
     (case pb_field_iter_begin flds src_struct of (nonempty, iter) \<Rightarrow>
        if nonempty
        then iter_loop (\<lambda>iter s.
               encode_message_field (pb_encode n env) n env (it_field iter) (it_pData iter) s) iter s
        else Some (True, s))"

definition pb_encode_delimited :: "nat \<Rightarrow> 'u oenv \<Rightarrow> 'u msg_encoder" where
  "pb_encode_delimited n env flds src_struct s =
     pb_encode_submessage (pb_encode n env) env flds src_struct s"

definition pb_encode_nullterminated :: "nat \<Rightarrow> 'u oenv \<Rightarrow> 'u msg_encoder" where
  "pb_encode_nullterminated n env flds src_struct s =
     ifok (pb_encode n env flds src_struct s) (pb_write env (Some [0]) 1)"

text \<open>The size, where the message can be encoded; \<open>Some None\<close> is \<open>return false\<close>.\<close>

definition pb_get_encoded_size :: "nat \<Rightarrow> 'u oenv \<Rightarrow> pb_field list \<Rightarrow> addr \<Rightarrow> u64 option option" where
  "pb_get_encoded_size n env flds src_struct =
     (case pb_encode n env flds src_struct PB_OSTREAM_SIZING of
        None \<Rightarrow> None
      | Some (ok, s) \<Rightarrow> Some (if ok then Some (o_bytes_written s) else None))"

end
