(* ===== verification/EncodeSpec.thy ===== *)
theory EncodeSpec
  imports Encode OStreamSpec
begin

text \<open>
  The reference encoder and the refinement. \<open>message_wire\<close> says what bytes a message in memory
  has on the wire, with no streams, buffers, size passes or iterators: fields at their offsets,
  each one a tag followed by its value, strings, packed arrays and submessages length-prefixed.
  \<open>pb_encode_meets\<close> proves that \<open>pb_encode\<close> puts exactly these bytes on every kind of stream.
\<close>

section \<open>Reference encoder\<close>

text \<open>What the application's callbacks are expected to write.\<close>

record callback_wires =
  cw_field :: "addr \<Rightarrow> pb_field \<Rightarrow> addr \<Rightarrow> wire"
  cw_ext :: "addr \<Rightarrow> addr \<Rightarrow> wire"

definition no_callbacks :: callback_wires where
  "no_callbacks = \<lparr>cw_field = \<lambda>_ _ _. Undef, cw_ext = \<lambda>_ _. Undef\<rparr>"

type_synonym msg_wire = "pb_field list \<Rightarrow> addr \<Rightarrow> wire"

fun wlen :: "wire \<Rightarrow> wire" where
  "wlen (Emit bs) = (if length bs < 2 ^ 62 then Emit (len_delimited bs) else Undef)"
| "wlen w = w"

lemma wlen_code [code]:
  "wlen (Emit bs) = (if int (length bs) < 4611686018427387904 then Emit (len_delimited bs) else Undef)"
  "wlen Reject = Reject" "wlen Undef = Undef"
  by simp_all

definition bytes_wire :: "u8 list option \<Rightarrow> wire" where
  "bytes_wire r = (case r of None \<Rightarrow> Undef | Some bs \<Rightarrow> wlen (Emit bs))"

text \<open>The zigzag code of a signed number.\<close>

definition zigzag_nat :: "int \<Rightarrow> nat" where
  "zigzag_nat i = nat (if i < 0 then - 2 * i - 1 else 2 * i)"

definition varint_wire :: "u32 \<Rightarrow> u64 option \<Rightarrow> (u64 \<Rightarrow> nat) \<Rightarrow> wire" where
  "varint_wire data_size r num = (if \<not> int_size_ok data_size then Reject
     else case r of None \<Rightarrow> Undef | Some v \<Rightarrow> Emit (varint_bytes (num v)))"

definition value_wire :: "msg_wire \<Rightarrow> 'u oenv \<Rightarrow> pb_field \<Rightarrow> addr \<Rightarrow> wire" where
  "value_wire ref env f a =
     (let m = oe_mem env; l = ltype f; sz = f_data_size f in
      if l = PB_LTYPE_VARINT then varint_wire sz (load_sint m sz a) unat
      else if l = PB_LTYPE_UVARINT then varint_wire sz (load_uint m sz a) unat
      else if l = PB_LTYPE_SVARINT then varint_wire sz (load_sint m sz a) (\<lambda>v. zigzag_nat (sint v))
      else if l = PB_LTYPE_FIXED32
      then (case load_u32 m a of None \<Rightarrow> Undef | Some w \<Rightarrow> Emit (bytes_of_word 4 w))
      else if l = PB_LTYPE_FIXED64
      then (case load_u64 m a of None \<Rightarrow> Undef | Some w \<Rightarrow> Emit (bytes_of_word 8 w))
      else if l = PB_LTYPE_BYTES
      then (if a = NULL then Emit (len_delimited [])
            else case load_u32 m a of None \<Rightarrow> Undef
             | Some n \<Rightarrow> if atype f = PB_ATYPE_STATIC \<and> unat n + 4 > unat sz then Reject
                        else bytes_wire (load_bytes m (a + 4) (unat n)))
      else if l = PB_LTYPE_STRING
      then (case (if a = NULL then Some 0 else string_length m a 0
                    (if atype f = PB_ATYPE_POINTER then 2 ^ 64 - 1 else unat sz)) of
              None \<Rightarrow> Undef | Some n \<Rightarrow> bytes_wire (load_bytes m a n))
      else if l = PB_LTYPE_SUBMESSAGE
      then (if f_ptr f = NULL then Reject
            else case oe_fields env (f_ptr f) of None \<Rightarrow> Undef | Some flds \<Rightarrow> wlen (ref flds a))
      else if l = PB_LTYPE_FIXED_LENGTH_BYTES then bytes_wire (load_bytes m a (unat sz))
      else Undef)"

definition tagged_wire :: "msg_wire \<Rightarrow> 'u oenv \<Rightarrow> pb_field \<Rightarrow> addr \<Rightarrow> wire" where
  "tagged_wire ref env f a = wseq (field_tag_wire f) (value_wire ref env f a)"

definition item_addr :: "pb_field \<Rightarrow> addr \<Rightarrow> nat \<Rightarrow> addr" where
  "item_addr f a i = a + int i * uint (f_data_size f)"

definition items_wire :: "msg_wire \<Rightarrow> 'u oenv \<Rightarrow> pb_field \<Rightarrow> addr \<Rightarrow> nat \<Rightarrow> wire" where
  "items_wire ref env f a n = wconcat (map (\<lambda>i. value_wire ref env f (item_addr f a i)) [0..<n])"

definition array_wire :: "msg_wire \<Rightarrow> 'u oenv \<Rightarrow> pb_field \<Rightarrow> addr \<Rightarrow> nat \<Rightarrow> wire" where
  "array_wire ref env f a n =
     (if n = 0 then Emit []
      else if atype f \<noteq> PB_ATYPE_POINTER \<and> n > unat (f_array_size f) then Reject
      else if ltype f \<le> PB_LTYPE_LAST_PACKABLE
      then wseq (Emit (tag_bytes PB_WT_STRING (f_tag f)))
             (wlen (items_wire ref env f a n))
      else wconcat (map (\<lambda>i. wseq (field_tag_wire f)
             (if atype f = PB_ATYPE_POINTER \<and> (ltype f = PB_LTYPE_STRING \<or> ltype f = PB_LTYPE_BYTES)
              then (case load_ptr (oe_mem env) (item_addr f a i) of
                      None \<Rightarrow> Undef | Some q \<Rightarrow> value_wire ref env f q)
              else value_wire ref env f (item_addr f a i))) [0..<n]))"

text \<open>Whether an optional or oneof field is present; \<open>None\<close> where that cannot be read.\<close>

definition field_present :: "nat \<Rightarrow> 'u oenv \<Rightarrow> pb_field \<Rightarrow> addr \<Rightarrow> addr \<Rightarrow> bool option" where
  "field_present n env f pData target =
     (let m = oe_mem env; pSize = pData + sint (f_size_offset f) in
      if htype f = PB_HTYPE_OPTIONAL
      then (if f_size_offset f \<noteq> 0 then load_bool m pSize
            else if atype f = PB_ATYPE_POINTER then Some (target \<noteq> NULL)
            else map_option Not (pb_check_proto3_default_value n env f pData))
      else if f_size_offset f = 0 then None
      else map_option (\<lambda>which. which = f_tag f) (load_u32 m pSize))"

definition basic_wire :: "msg_wire \<Rightarrow> nat \<Rightarrow> 'u oenv \<Rightarrow> pb_field \<Rightarrow> addr \<Rightarrow> wire" where
  "basic_wire ref n env f pData =
     (let m = oe_mem env in
      if PB_LTYPES_COUNT \<le> unat (ltype f) then Undef
      else if f_size_offset f = 0 \<and> htype f = PB_HTYPE_OPTIONAL
              \<and> pb_check_proto3_default_value n env f pData = None then Undef
      else case (if atype f = PB_ATYPE_POINTER then load_ptr m pData else Some pData) of
          None \<Rightarrow> Undef
        | Some target \<Rightarrow>
           (if htype f = PB_HTYPE_REQUIRED
            then (if target = NULL then Reject else tagged_wire ref env f target)
            else if htype f = PB_HTYPE_REPEATED
            then (case (if f_size_offset f = 0 then Some (f_array_size f)
                        else load_u32 m (pData + sint (f_size_offset f))) of
                    None \<Rightarrow> Undef
                  | Some count \<Rightarrow> array_wire ref env f target (unat count))
            else (case field_present n env f pData target of
                    None \<Rightarrow> Undef
                  | Some has \<Rightarrow> if has then tagged_wire ref env f target else Emit [])))"

definition callback_wire :: "callback_wires \<Rightarrow> 'u oenv \<Rightarrow> pb_field \<Rightarrow> addr \<Rightarrow> wire" where
  "callback_wire cw env f pData = (case callback_fn (oe_mem env) pData of
     None \<Rightarrow> Undef
   | Some fn \<Rightarrow> if fn = NULL then Emit [] else cw_field cw fn f (callback_arg pData))"

definition plain_field_wire :: "callback_wires \<Rightarrow> msg_wire \<Rightarrow> nat \<Rightarrow> 'u oenv \<Rightarrow> pb_field \<Rightarrow> addr \<Rightarrow> wire" where
  "plain_field_wire cw ref n env f pData =
     (if atype f = PB_ATYPE_STATIC \<or> atype f = PB_ATYPE_POINTER then basic_wire ref n env f pData
      else if atype f = PB_ATYPE_CALLBACK then callback_wire cw env f pData
      else Reject)"

definition default_extension_wire ::
    "callback_wires \<Rightarrow> msg_wire \<Rightarrow> nat \<Rightarrow> 'u oenv \<Rightarrow> addr \<Rightarrow> wire" where
  "default_extension_wire cw ref n env e =
     (let m = oe_mem env in
      case Option.bind (ext_type m e) (\<lambda>t. Option.bind (exttype_arg m t) (oe_fields env)) of
        None \<Rightarrow> Undef
      | Some flds \<Rightarrow>
         (if atype (field_at flds 0) = PB_ATYPE_POINTER
          then plain_field_wire cw ref n env (field_at flds 0) (ext_dest e)
          else case load_ptr m (ext_dest e) of
              None \<Rightarrow> Undef
            | Some dest \<Rightarrow> plain_field_wire cw ref n env (field_at flds 0) dest))"

primrec extensions_wire ::
    "callback_wires \<Rightarrow> msg_wire \<Rightarrow> nat \<Rightarrow> 'u oenv \<Rightarrow> nat \<Rightarrow> addr \<Rightarrow> wire" where
  "extensions_wire cw ref n env 0 e = (if e = NULL then Emit [] else Undef)"
| "extensions_wire cw ref n env (Suc k) e =
     (let m = oe_mem env in
      if e = NULL then Emit []
      else case Option.bind (ext_type m e) (exttype_encode m) of
          None \<Rightarrow> Undef
        | Some fn \<Rightarrow>
            wseq (if fn \<noteq> NULL then cw_ext cw fn e else default_extension_wire cw ref n env e)
              (case ext_next m e of None \<Rightarrow> Undef | Some e' \<Rightarrow> extensions_wire cw ref n env k e'))"

definition message_field_wire ::
    "callback_wires \<Rightarrow> msg_wire \<Rightarrow> nat \<Rightarrow> 'u oenv \<Rightarrow> pb_field \<Rightarrow> addr \<Rightarrow> wire" where
  "message_field_wire cw ref n env f pData =
     (if ltype f = PB_LTYPE_EXTENSION
      then (case load_ptr (oe_mem env) pData of
              None \<Rightarrow> Undef | Some e \<Rightarrow> extensions_wire cw ref n env n e)
      else plain_field_wire cw ref n env f pData)"

primrec message_wire :: "nat \<Rightarrow> callback_wires \<Rightarrow> 'u oenv \<Rightarrow> msg_wire" where
  "message_wire 0 cw env flds a = Undef"
| "message_wire (Suc n) cw env flds a =
     (if fields_ok flds
      then wconcat (map (\<lambda>i. message_field_wire cw (message_wire n cw env) n env (flds ! i)
                                (a + field_offset flds i)) [0..<length flds])
      else Undef)"

section \<open>Composite operations meet the reference\<close>

lemma meets_if:
  "(c \<Longrightarrow> meets f a) \<Longrightarrow> (\<not> c \<Longrightarrow> meets g b) \<Longrightarrow>
     meets (\<lambda>s. if c then f s else g s) (if c then a else b)"
  by simp

lemma meets_option:
  "(\<And>x. r = Some x \<Longrightarrow> meets (f x) (w x)) \<Longrightarrow>
     meets (\<lambda>s. case r of None \<Rightarrow> None | Some x \<Rightarrow> f x s) (case r of None \<Rightarrow> Undef | Some x \<Rightarrow> w x)"
  by (cases r) simp_all

lemmas meets_intros = meets_if meets_option meets_return_error

lemma sizing_callback [simp]: "o_callback PB_OSTREAM_SIZING = ONull"
  by (simp add: PB_OSTREAM_SIZING_def)

lemma for_items_meets:
  assumes "\<And>i. i < n \<Longrightarrow> meets (g (p + int i * step)) (w i)"
  shows "meets (for_items g step n p) (wconcat (map w [0..<n]))"
  using assms
proof (induction n arbitrary: p w)
  case 0
  show ?case using meets_return_True by (simp add: fun_eq_iff flip: meets_simps)
next
  case (Suc n)
  have "meets (for_items g step n (p + step)) (wconcat (map (\<lambda>i. w (Suc i)) [0..<n]))"
  proof (rule Suc.IH)
    fix i assume "i < n"
    then have "meets (g (p + int (Suc i) * step)) (w (Suc i))"
      by (intro Suc.prems) simp
    then show "meets (g (p + step + int i * step)) (w (Suc i))"
      by (simp add: algebra_simps)
  qed
  moreover have "meets (g p) (w 0)"
    using Suc.prems [of 0] by simp
  ultimately have "meets (\<lambda>s. ifok (g p s) (for_items g step n (p + step)))
      (wseq (w 0) (wconcat (map (\<lambda>i. w (Suc i)) [0..<n])))"
    by (intro meets_seq)
  moreover have "map w [0..<Suc n] = w 0 # map (\<lambda>i. w (Suc i)) [0..<n]"
    by (simp add: upt_conv_Cons map_Suc_upt [symmetric] comp_def del: upt_Suc)
  moreover have "for_items g step (Suc n) p = (\<lambda>s. ifok (g p s) (for_items g step n (p + step)))"
    by (rule ext) simp
  ultimately show ?case
    by simp
qed

lemma fold_ok_meets:
  assumes "\<And>x. x \<in> set xs \<Longrightarrow> meets (g x) (w x)"
  shows "meets (fold_ok g xs) (wconcat (map w xs))"
  using assms
proof (induction xs)
  case Nil
  show ?case using meets_return_True by (simp add: fun_eq_iff flip: meets_simps)
next
  case (Cons x xs)
  then have "meets (\<lambda>s. ifok (g x s) (fold_ok g xs)) (wseq (w x) (wconcat (map w xs)))"
    by (intro meets_seq) auto
  moreover have "fold_ok g (x # xs) = (\<lambda>s. ifok (g x s) (fold_ok g xs))"
    by (rule ext) simp
  ultimately show ?case by simp
qed

text \<open>An operation behind a size prefix: counted with \<open>pb_write(stream, NULL, size)\<close> on a sizing
  stream, performed on any other.\<close>

lemma counted_meets:
  assumes "meets_emit g bs"
  shows "meets_emit (\<lambda>s. if o_callback s = ONull then pb_write env None (of_nat (length bs)) s else g s) bs"
  using assms by (auto simp: meets_emit_def pb_write_def o_count_def mem_stream_def)

lemma len_prefix_meets:
  assumes "meets_emit g bs" "length bs < 2 ^ 62"
  shows "meets (\<lambda>s. ifok (pb_encode_varint env (of_nat (length bs)) s) g) (Emit (len_delimited bs))"
proof -
  have un: "unat (of_nat (length bs) :: u64) = length bs" using assms by simp
  have "length (varint_bytes (length bs)) \<le> 10"
    using length_varint_bytes64 [of "of_nat (length bs)"] by (simp only: un)
  then have "wseq (Emit (varint_bytes (length bs))) (Emit bs) = Emit (len_delimited bs)"
    using assms by (simp add: len_delimited_def)
  moreover have "meets (pb_encode_varint env (of_nat (length bs))) (Emit (varint_bytes (length bs)))"
    using pb_encode_varint_meets [of env "of_nat (length bs)"] by (simp only: un)
  ultimately show ?thesis
    using meets_seq [of "pb_encode_varint env (of_nat (length bs))" "Emit (varint_bytes (length bs))" g "Emit bs"]
      assms by simp
qed

lemma unat_word_of_int64: "0 \<le> x \<Longrightarrow> x < 2 ^ 64 \<Longrightarrow> unat (word_of_int x :: u64) = nat x"
  by (simp add: unat_eq_nat_uint uint_word_of_int_eq take_bit_int_eq_self del: of_int_add of_int_mult)

lemma zigzag_unat: "unat (zigzag v) = zigzag_nat (sint v)"
proof -
  have range: "- (2 ^ 63) \<le> sint v" "sint v < 2 ^ 63"
    using sint_ge [of v] sint_lt [of v] by simp_all
  have "push_bit 1 v = word_of_int 2 * word_of_int (sint v)"
    by (simp add: push_bit_eq_mult)
  then have two: "push_bit 1 v = word_of_int (2 * sint v)"
    by (simp only: of_int_mult)
  show ?thesis
  proof (cases "sint v < 0")
    case True
    then have "zigzag v = NOT (word_of_int (2 * sint v))"
      by (simp only: zigzag_def word_sless_alt two signed_0 if_True)
    also have "\<dots> = word_of_int (NOT (2 * sint v))"
      by (simp only: of_int_not_eq)
    also have "NOT (2 * sint v) = - 2 * sint v - 1"
      by (simp add: not_int_def)
    finally have z: "zigzag v = word_of_int (- 2 * sint v - 1)" .
    have "unat (word_of_int (- 2 * sint v - 1) :: u64) = nat (- 2 * sint v - 1)"
      by (rule unat_word_of_int64) (use True range in auto)
    with True show ?thesis
      by (simp only: z zigzag_nat_def if_True)
  next
    case False
    then have "zigzag v = word_of_int (2 * sint v)"
      by (simp only: zigzag_def word_sless_alt two signed_0 if_False)
    then show ?thesis
      using False range unat_word_of_int64 [of "2 * sint v"] by (simp only: zigzag_nat_def) simp
  qed
qed

lemma u8_less_10:
  "unat x < 10 \<Longrightarrow> x = 0 \<or> x = 1 \<or> x = 2 \<or> x = 3 \<or> x = 4 \<or> x = 5 \<or> x = 6 \<or> x = 7 \<or> x = 8 \<or> x = (9 :: u8)"
  by (simp add: word_unat_eq_iff) arith

lemma ltype_cases:
  assumes "unat (ltype f) < PB_LTYPES_COUNT"
  obtains "ltype f = 0" | "ltype f = 1" | "ltype f = 2" | "ltype f = 3" | "ltype f = 4"
    | "ltype f = 5" | "ltype f = 6" | "ltype f = 7" | "ltype f = 8" | "ltype f = 9"
  using u8_less_10 [of "ltype f"] assms by (auto simp: PB_LTYPES_COUNT_def)

lemma wseq_eq_Emit:
  "wseq a b = Emit bs \<longleftrightarrow> (\<exists>x y. a = Emit x \<and> b = Emit y \<and> bs = x @ y \<and> length bs < 2 ^ 63)"
  by (cases a; cases b) auto

lemma wseq_eq_Reject: "wseq a b = Reject \<longleftrightarrow> a = Reject \<or> (\<exists>x. a = Emit x \<and> b = Reject)"
  by (cases a; cases b) auto

lemma wconcat_Emit_length:
  assumes "wconcat (map w xs) = Emit bs" "\<forall>x \<in> set xs. \<forall>b. w x = Emit b \<longrightarrow> length b = k"
  shows "length bs = k * length xs"
  using assms by (induction xs arbitrary: bs) (auto simp: wseq_eq_Emit)

lemma wconcat_Reject: "wconcat (map w xs) = Reject \<Longrightarrow> \<exists>x \<in> set xs. w x = Reject"
  by (induction xs) (auto simp: wseq_eq_Reject)

lemma value_wire_fixed32:
  "ltype f = PB_LTYPE_FIXED32 \<Longrightarrow> value_wire ref env f p =
     (case load_u32 (oe_mem env) p of None \<Rightarrow> Undef | Some w \<Rightarrow> Emit (bytes_of_word 4 w))"
  by (simp add: value_wire_def ltype_defs)

lemma value_wire_fixed64:
  "ltype f = PB_LTYPE_FIXED64 \<Longrightarrow> value_wire ref env f p =
     (case load_u64 (oe_mem env) p of None \<Rightarrow> Undef | Some w \<Rightarrow> Emit (bytes_of_word 8 w))"
  by (simp add: value_wire_def ltype_defs)

lemma fixed_value_length:
  "ltype f = PB_LTYPE_FIXED32 \<Longrightarrow> value_wire ref env f p = Emit b \<Longrightarrow> length b = 4"
  "ltype f = PB_LTYPE_FIXED64 \<Longrightarrow> value_wire ref env f p = Emit b \<Longrightarrow> length b = 8"
  by (auto simp only: value_wire_fixed32 value_wire_fixed64 wire.simps length_bytes_of_word
      split: option.splits)

lemma fixed_value_not_Reject:
  "ltype f = PB_LTYPE_FIXED32 \<or> ltype f = PB_LTYPE_FIXED64 \<Longrightarrow> value_wire ref env f p \<noteq> Reject"
  by (auto simp only: value_wire_fixed32 value_wire_fixed64 wire.simps split: option.splits)

section \<open>The interface between the encoder of a message and the encoders of its fields\<close>

text \<open>
  What the field encoders rely on: an encoder \<open>enc\<close> of whole messages that puts \<open>ref\<close> on the
  wire, and callbacks that write what \<open>cw\<close> says. Everything below \<open>pb_encode\<close> is proved against
  this interface; \<open>pb_encode\<close> itself then provides it.
\<close>

locale message_encoder =
  fixes env :: "'u oenv" and enc :: "'u msg_encoder" and ref :: msg_wire
    and cw :: callback_wires and n :: nat
  assumes enc_meets: "meets (enc flds a) (ref flds a)"
    and cb_meets: "meets (oe_encode_cb env fn f arg) (cw_field cw fn f arg)"
    and ext_meets: "meets (oe_encode_ext env fn e) (cw_ext cw fn e)"
begin

lemma write_submessage_meets:
  assumes "ref flds src = Emit bs"
  shows "meets_emit (write_submessage enc env (of_nat (length bs)) flds src) bs"
  (is "meets_emit ?g bs")
proof -
  have e: "meets_emit (enc flds src) bs"
    using enc_meets [of flds src] assms by simp
  then have len: "length bs < 2 ^ 63" by (simp add: meets_emit_def)
  show ?thesis
    unfolding meets_emit_def
  proof (intro conjI allI impI)
    fix s :: "'u ostream"
    show "?g s = Some (True, o_count s (length bs))" if "o_callback s = ONull"
      using that by (simp add: write_submessage_def pb_write_def o_count_def)
    assume s: "mem_stream s"
    obtain dest pos where st: "o_callback s = OBufWrite" "o_state s = OBuf dest pos"
      "pos + o_room s \<le> length dest" "unat (o_bytes_written s) \<le> unat (o_max_size s)"
      "unat (o_max_size s) < 2 ^ 63" "o_errmsg s = None"
      using s by (rule mem_streamE)
    have full: "o_bytes_written s + of_nat (length bs) > o_max_size s \<longleftrightarrow> \<not> length bs \<le> o_room s"
      unfolding o_room_def by (rule word_gt_room) (use st len in auto)
    show "\<exists>s'. ?g s = Some (False, s') \<and> within_window s s'" if "\<not> length bs \<le> o_room s"
      using st that full s by (simp add: write_submessage_def o_return_error_def within_window_refl)
    show "?g s = Some (True, o_push s bs)" if fits: "length bs \<le> o_room s"
    proof -
      let ?sub = "\<lparr>o_callback = OBufWrite, o_state = OBuf dest pos,
          o_max_size = of_nat (length bs), o_bytes_written = 0, o_errmsg = None\<rparr> :: 'u ostream"
      have room: "o_room ?sub = length bs"
        using len by (simp add: o_room_def)
      then have "mem_stream ?sub"
        using st fits len by (simp add: mem_stream_def)
      then have "enc flds src ?sub = Some (True, o_push ?sub bs)"
        using e room unfolding meets_emit_def by simp
      then show ?thesis
        using st fits full by (simp add: write_submessage_def o_push_def)
    qed
  qed (rule len)
qed

lemma pb_encode_submessage_meets: "meets (pb_encode_submessage enc env flds src) (wlen (ref flds src))"
proof (cases "ref flds src")
  case (Emit bs)
  have "enc flds src PB_OSTREAM_SIZING = Some (True, o_count PB_OSTREAM_SIZING (length bs))"
    using enc_meets [of flds src] Emit by (simp add: meets_emit_def PB_OSTREAM_SIZING_def)
  moreover have "o_bytes_written (o_count (PB_OSTREAM_SIZING :: 'u ostream) (length bs)) = of_nat (length bs)"
    by (simp add: o_count_def PB_OSTREAM_SIZING_def)
  ultimately show ?thesis
    using len_prefix_meets [OF write_submessage_meets [OF Emit], of env] Emit
    by (simp add: pb_encode_submessage_def [abs_def] Let_def)
next
  case Reject
  then have "meets_reject (enc flds src)"
    using enc_meets [of flds src] by simp
  then obtain sub where "enc flds src PB_OSTREAM_SIZING = Some (False, sub)"
    unfolding meets_reject_def using sizing_callback by blast
  then show ?thesis
    by (auto simp: Reject meets_reject_def pb_encode_submessage_def within_window_def
        word_le_nat_alt elim!: mem_streamE)
qed simp

lemma bytes_meets:
  "meets (pb_encode_string env (load_bytes m a k) (of_nat k)) (bytes_wire (load_bytes m a k))"
proof (cases "load_bytes m a k")
  case (Some bs)
  then have "length bs = k" by (rule load_bytes_length)
  then show ?thesis
    using pb_encode_string_meets [of bs k env] by (simp add: Some bytes_wire_def)
qed (simp add: bytes_wire_def)

lemma alloc_size: "unat (PB_BYTES_ARRAY_T_ALLOCSIZE k) = unat k + 4"
  using unsigned_less [of k, where ?'a = nat]
  by (simp add: PB_BYTES_ARRAY_T_ALLOCSIZE_def unat_word_ariths unsigned_ucast_eq take_bit_nat_eq_self)

lemma pb_enc_bytes_meets:
  "meets (pb_enc_bytes env f a)
     (if a = NULL then Emit (len_delimited [])
      else case load_u32 (oe_mem env) a of None \<Rightarrow> Undef
       | Some k \<Rightarrow> if atype f = PB_ATYPE_STATIC \<and> unat k + 4 > unat (f_data_size f) then Reject
                  else bytes_wire (load_bytes (oe_mem env) (a + 4) (unat k)))"
  unfolding pb_enc_bytes_def [abs_def]
proof (intro meets_intros)
  show "meets (pb_encode_string env (Some []) 0) (Emit (len_delimited []))"
    using pb_encode_string_meets [of "[]" 0 env] by simp
next
  fix k
  have gt: "PB_BYTES_ARRAY_T_ALLOCSIZE k > ucast (f_data_size f) \<longleftrightarrow> unat k + 4 > unat (f_data_size f)"
    using unsigned_less [of "f_data_size f", where ?'a = nat]
    by (simp add: word_less_nat_alt alloc_size unsigned_ucast_eq take_bit_nat_eq_self)
  have "meets (pb_encode_string env (load_bytes (oe_mem env) (a + BYTES_OFFSET) (unat k)) (ucast k))
      (bytes_wire (load_bytes (oe_mem env) (a + 4) (unat k)))"
    using bytes_meets [of "oe_mem env" "a + 4" "unat k"] by (simp add: BYTES_OFFSET_def)
  then show "meets
       (\<lambda>s. if atype f = PB_ATYPE_STATIC \<and> ucast (f_data_size f) < PB_BYTES_ARRAY_T_ALLOCSIZE k
             then o_return_error ''bytes size exceeded'' s
             else pb_encode_string env (load_bytes (oe_mem env) (a + BYTES_OFFSET) (unat k)) (ucast k) s)
       (if atype f = PB_ATYPE_STATIC \<and> unat (f_data_size f) < unat k + 4 then Reject
        else bytes_wire (load_bytes (oe_mem env) (a + 4) (unat k)))"
    unfolding gt by (intro meets_intros)
qed

lemma pb_enc_string_meets:
  "meets (pb_enc_string env f a)
     (case (if a = NULL then Some 0 else string_length (oe_mem env) a 0
             (if atype f = PB_ATYPE_POINTER then 2 ^ 64 - 1 else unat (f_data_size f))) of
        None \<Rightarrow> Undef | Some k \<Rightarrow> bytes_wire (load_bytes (oe_mem env) a k))"
  unfolding pb_enc_string_def [abs_def] Let_def by (intro meets_option bytes_meets)

lemma varint_wire_meets:
  assumes "\<And>v. meets (g v) (Emit (varint_bytes (num v)))"
  shows "meets (\<lambda>s. if \<not> int_size_ok k then o_return_error ''invalid data_size'' s
             else case r of None \<Rightarrow> None | Some v \<Rightarrow> g v s) (varint_wire k r num)"
  unfolding varint_wire_def by (intro meets_intros assms)

lemma pb_enc_submessage_meets:
  "meets (pb_enc_submessage enc env f a)
     (if f_ptr f = NULL then Reject
      else case oe_fields env (f_ptr f) of None \<Rightarrow> Undef | Some flds \<Rightarrow> wlen (ref flds a))"
  unfolding pb_enc_submessage_def [abs_def] by (intro meets_intros pb_encode_submessage_meets)


text \<open>The encoder the dispatch table holds for a field puts its value on the wire.\<close>

lemma pb_enc_fixed_length_bytes_meets:
  "meets (pb_enc_fixed_length_bytes env f a) (bytes_wire (load_bytes (oe_mem env) a (unat (f_data_size f))))"
  using bytes_meets [of "oe_mem env" a "unat (f_data_size f)"]
  by (simp add: pb_enc_fixed_length_bytes_def [abs_def])

lemma call_encoder_Some [simp]: "call_encoder (Some g) = g"
  by (intro ext) (simp add: call_encoder_def)

lemma call_encoder_meets:
  assumes "unat (ltype f) < PB_LTYPES_COUNT"
  shows "meets (call_encoder (PB_ENCODERS enc env ! unat (ltype f)) f a) (value_wire ref env f a)"
  using assms
proof (cases rule: ltype_cases)
  case 1
  then show ?thesis
    using varint_wire_meets [of "pb_encode_varint env" unat, OF pb_encode_varint_meets]
    by (simp add: PB_ENCODERS_def value_wire_def ltype_defs Let_def pb_enc_varint_def [abs_def])
next
  case 2
  then show ?thesis
    using varint_wire_meets [of "pb_encode_varint env" unat, OF pb_encode_varint_meets]
    by (simp add: PB_ENCODERS_def value_wire_def ltype_defs Let_def pb_enc_uvarint_def [abs_def])
next
  case 3
  then show ?thesis
    using varint_wire_meets [of "pb_encode_svarint env" "\<lambda>v. zigzag_nat (sint v)",
        OF pb_encode_svarint_meets [unfolded zigzag_unat]]
    by (simp add: PB_ENCODERS_def value_wire_def ltype_defs Let_def pb_enc_svarint_def [abs_def])
next
  case 4
  then show ?thesis
    using pb_encode_fixed32_meets [of env a]
    by (simp add: PB_ENCODERS_def value_wire_def ltype_defs Let_def pb_enc_fixed32_def [abs_def])
next
  case 5
  then show ?thesis
    using pb_encode_fixed64_meets [of env a]
    by (simp add: PB_ENCODERS_def value_wire_def ltype_defs Let_def pb_enc_fixed64_def [abs_def])
next
  case 6
  then show ?thesis
    using pb_enc_bytes_meets [of f a]
    by (simp add: PB_ENCODERS_def value_wire_def ltype_defs Let_def)
next
  case 7
  then show ?thesis
    using pb_enc_string_meets [of f a]
    by (simp add: PB_ENCODERS_def value_wire_def ltype_defs Let_def)
next
  case 8
  then show ?thesis
    using pb_enc_submessage_meets [of f a]
    by (simp add: PB_ENCODERS_def value_wire_def ltype_defs Let_def)
next
  case 9
  then show ?thesis
    by (simp add: value_wire_def ltype_defs Let_def)
next
  case 10
  then show ?thesis
    using pb_enc_fixed_length_bytes_meets [of f a]
    by (simp add: PB_ENCODERS_def value_wire_def ltype_defs Let_def)
qed

lemma tagged_meets:
  assumes "unat (ltype f) < PB_LTYPES_COUNT"
  shows "meets (\<lambda>s. ifok (pb_encode_tag_for_field env f s)
             (\<lambda>s. call_encoder (PB_ENCODERS enc env ! unat (ltype f)) f a s)) (tagged_wire ref env f a)"
  unfolding tagged_wire_def
  by (intro meets_seq pb_encode_tag_for_field_meets call_encoder_meets assms)

lemma items_meets:
  assumes "unat (ltype f) < PB_LTYPES_COUNT"
  shows "meets (array_items f a count (PB_ENCODERS enc env ! unat (ltype f)))
           (items_wire ref env f a (unat count))"
  unfolding items_wire_def item_addr_def array_items_def
  by (intro for_items_meets call_encoder_meets assms)

lemma packed_size_Emit:
  assumes "unat (ltype f) < PB_LTYPES_COUNT" "items_wire ref env f a (unat count) = Emit bs"
  shows "packed_size f a count (PB_ENCODERS enc env ! unat (ltype f)) = Some (Some (of_nat (length bs)))"
proof -
  have len32: "length bs = 4 * unat count" if "ltype f = PB_LTYPE_FIXED32"
    using wconcat_Emit_length [OF assms(2) [unfolded items_wire_def], of 4]
      fixed_value_length(1) [OF that, of ref env] by simp
  have len64: "length bs = 8 * unat count" if "ltype f = PB_LTYPE_FIXED64"
    using wconcat_Emit_length [OF assms(2) [unfolded items_wire_def], of 8]
      fixed_value_length(2) [OF that, of ref env] by simp
  have "array_items f a count (PB_ENCODERS enc env ! unat (ltype f)) PB_OSTREAM_SIZING
          = Some (True, o_count PB_OSTREAM_SIZING (length bs))"
    using items_meets [OF assms(1), of a count] assms(2) by (simp add: meets_emit_def)
  then show ?thesis
    by (simp add: packed_size_def len32 len64 o_count_def PB_OSTREAM_SIZING_def)
qed

lemma packed_size_Reject:
  assumes "unat (ltype f) < PB_LTYPES_COUNT" "items_wire ref env f a (unat count) = Reject"
  shows "packed_size f a count (PB_ENCODERS enc env ! unat (ltype f)) = Some None"
proof -
  have "ltype f \<noteq> PB_LTYPE_FIXED32 \<and> ltype f \<noteq> PB_LTYPE_FIXED64"
    using wconcat_Reject [OF assms(2) [unfolded items_wire_def]] fixed_value_not_Reject by blast
  moreover have "meets_reject (array_items f a count (PB_ENCODERS enc env ! unat (ltype f)))"
    using items_meets [OF assms(1), of a count] assms(2) by simp
  then obtain s' where "array_items f a count (PB_ENCODERS enc env ! unat (ltype f)) PB_OSTREAM_SIZING
      = Some (False, s')"
    unfolding meets_reject_def using sizing_callback by blast
  ultimately show ?thesis
    by (simp add: packed_size_def)
qed

lemma packed_meets:
  assumes "unat (ltype f) < PB_LTYPES_COUNT"
  shows "meets (\<lambda>s. case packed_size f a count (PB_ENCODERS enc env ! unat (ltype f)) of
               None \<Rightarrow> None
             | Some None \<Rightarrow> Some (False, s)
             | Some (Some sz) \<Rightarrow>
                 ifok (pb_encode_varint env sz s) (\<lambda>s.
                   if o_callback s = ONull then pb_write env None sz s
                   else array_items f a count (PB_ENCODERS enc env ! unat (ltype f)) s))
           (wlen (items_wire ref env f a (unat count)))"
proof (cases "items_wire ref env f a (unat count)")
  case (Emit bs)
  let ?items = "array_items f a count (PB_ENCODERS enc env ! unat (ltype f))"
  have "meets_emit ?items bs"
    using items_meets [OF assms, of a count] Emit by simp
  then have "meets_emit (\<lambda>s. if o_callback s = ONull then pb_write env None (of_nat (length bs)) s
      else ?items s) bs"
    by (rule counted_meets)
  then show ?thesis
    using len_prefix_meets [where env = env] by (simp add: Emit packed_size_Emit [OF assms Emit])
next
  case Reject
  then show ?thesis
    by (simp add: packed_size_Reject [OF assms] meets_reject_def within_window_refl)
qed simp

lemma encode_array_meets:
  assumes "unat (ltype f) < PB_LTYPES_COUNT"
  shows "meets (encode_array env f a (ucast (count :: u32)) (PB_ENCODERS enc env ! unat (ltype f)))
           (array_wire ref env f a (unat count))"
proof -
  have uc: "unat (ucast x :: u64) = unat x" for x :: u32
    using unsigned_less [of x, where ?'a = nat] by (simp add: unsigned_ucast_eq take_bit_nat_eq_self)
  have zero: "(ucast count :: u64) = 0 \<longleftrightarrow> unat count = 0"
    by (simp only: uc word_unat_eq_iff) simp
  have gt: "(ucast count :: u64) > ucast (f_array_size f) \<longleftrightarrow> unat count > unat (f_array_size f)"
    by (simp add: word_less_nat_alt uc)
  have tag: "meets (pb_encode_tag env PB_WT_STRING (f_tag f)) (Emit (tag_bytes PB_WT_STRING (f_tag f)))"
    by (rule pb_encode_tag_meets) (simp add: wt_defs)
  show ?thesis
    unfolding encode_array_def [abs_def] array_wire_def zero gt uc
    by (intro meets_if meets_return_True meets_return_error
        meets_seq [OF tag packed_meets [OF assms, of a "ucast count", unfolded uc]])
      (unfold item_addr_def, intro for_items_meets meets_seq meets_if meets_option
          pb_encode_tag_for_field_meets call_encoder_meets assms)
qed

lemma encode_basic_field_meets: "meets (encode_basic_field enc n env f a) (basic_wire ref n env f a)"
proof -
  let ?m = "oe_mem env"
  let ?func = "PB_ENCODERS enc env ! unat (ltype f)"
  let ?implicit = "if f_size_offset f \<noteq> 0 then Some False
     else if htype f = PB_HTYPE_OPTIONAL then map_option Not (pb_check_proto3_default_value n env f a)
     else Some True"
  show ?thesis
  proof (cases "PB_LTYPES_COUNT \<le> unat (ltype f) \<or>
      (f_size_offset f = 0 \<and> htype f = PB_HTYPE_OPTIONAL \<and> pb_check_proto3_default_value n env f a = None) \<or>
      (if atype f = PB_ATYPE_POINTER then load_ptr ?m a else Some a) = None")
    case True
    then have "basic_wire ref n env f a = Undef"
      by (auto simp: basic_wire_def Let_def)
    then show ?thesis by simp
  next
    case False
    then obtain t where lt: "unat (ltype f) < PB_LTYPES_COUNT"
      and t: "(if atype f = PB_ATYPE_POINTER then load_ptr ?m a else Some a) = Some t"
      and chk: "\<not> (f_size_offset f = 0 \<and> htype f = PB_HTYPE_OPTIONAL \<and> pb_check_proto3_default_value n env f a = None)"
      by auto
    have "?implicit \<noteq> None"
      using chk by auto
    then obtain i where i: "?implicit = Some i" by blast
    have body: "meets (\<lambda>s. ifok (pb_encode_tag_for_field env f s) (call_encoder ?func f t)) (tagged_wire ref env f t)"
      using tagged_meets [OF lt] by simp
    have present: "meets (\<lambda>s. if has then ifok (pb_encode_tag_for_field env f s) (call_encoder ?func f t)
        else Some (True, s)) (if has then tagged_wire ref env f t else Emit [])" for has
      by (intro meets_if body meets_return_True)
    consider (req) "htype f = PB_HTYPE_REQUIRED"
      | (opt) "htype f = PB_HTYPE_OPTIONAL"
      | (rep) "htype f = PB_HTYPE_REPEATED"
      | (oneof) "htype f \<noteq> PB_HTYPE_REQUIRED" "htype f \<noteq> PB_HTYPE_OPTIONAL" "htype f \<noteq> PB_HTYPE_REPEATED"
      by blast
    then show ?thesis
    proof cases
      case req
      then have "encode_basic_field enc n env f a = (\<lambda>s. if t = NULL then o_return_error ''missing required field'' s
          else ifok (pb_encode_tag_for_field env f s) (call_encoder ?func f t))"
        using lt t i by (intro ext) (simp add: encode_basic_field_def htype_defs Let_def)
      moreover have "basic_wire ref n env f a = (if t = NULL then Reject else tagged_wire ref env f t)"
        using req lt t chk by (simp add: basic_wire_def htype_defs Let_def)
      ultimately show ?thesis
        by (simp only:) (intro meets_if meets_return_error body)
    next
      case opt
      have has: "(case (if f_size_offset f \<noteq> 0 then Some (a + sint (f_size_offset f)) else None) of
                   None \<Rightarrow> Some (if atype f = PB_ATYPE_POINTER then t \<noteq> NULL else i)
                 | Some p \<Rightarrow> load_bool ?m p) = field_present n env f a t"
        using opt i by (auto simp: field_present_def Let_def)
      have "encode_basic_field enc n env f a = (\<lambda>s. case field_present n env f a t of
          None \<Rightarrow> None
        | Some has \<Rightarrow> if has then ifok (pb_encode_tag_for_field env f s) (call_encoder ?func f t)
                     else Some (True, s))"
        unfolding has [symmetric]
        using opt lt t i by (intro ext) (simp add: encode_basic_field_def htype_defs Let_def)
      moreover have "basic_wire ref n env f a = (case field_present n env f a t of
          None \<Rightarrow> Undef | Some has \<Rightarrow> if has then tagged_wire ref env f t else Emit [])"
        using opt lt t chk by (auto simp: basic_wire_def htype_defs Let_def)
      ultimately show ?thesis
        by (simp only:) (intro meets_option present)
    next
      case rep
      have "encode_basic_field enc n env f a = (\<lambda>s.
          case (if f_size_offset f = 0 then Some (f_array_size f) else load_u32 ?m (a + sint (f_size_offset f))) of
            None \<Rightarrow> None | Some count \<Rightarrow> encode_array env f t (ucast count) ?func s)"
        using rep lt t i by (intro ext) (simp add: encode_basic_field_def htype_defs Let_def)
      moreover have "basic_wire ref n env f a =
          (case (if f_size_offset f = 0 then Some (f_array_size f) else load_u32 ?m (a + sint (f_size_offset f))) of
            None \<Rightarrow> Undef | Some count \<Rightarrow> array_wire ref env f t (unat count))"
        using rep lt t chk by (simp add: basic_wire_def htype_defs Let_def)
      ultimately show ?thesis
        by (simp only:) (intro meets_option encode_array_meets lt)
    next
      case oneof
      have "encode_basic_field enc n env f a = (\<lambda>s. case field_present n env f a t of
          None \<Rightarrow> None
        | Some has \<Rightarrow> if has then ifok (pb_encode_tag_for_field env f s) (call_encoder ?func f t)
                     else Some (True, s))"
        using oneof lt t i
        by (intro ext) (auto simp: encode_basic_field_def field_present_def Let_def split: option.splits)
      moreover have "basic_wire ref n env f a = (case field_present n env f a t of
          None \<Rightarrow> Undef | Some has \<Rightarrow> if has then tagged_wire ref env f t else Emit [])"
        using oneof lt t chk by (simp add: basic_wire_def Let_def)
      ultimately show ?thesis
        by (simp only:) (intro meets_option present)
    qed
  qed
qed

lemma callback_error_meets:
  assumes "meets g w"
  shows "meets (\<lambda>s. case g s of None \<Rightarrow> None | Some (False, s) \<Rightarrow> o_return_error msg s
                   | Some (True, s) \<Rightarrow> Some (True, s)) w"
proof (cases w)
  case (Emit bs)
  then show ?thesis
    using assms by (fastforce simp: meets_emit_def o_return_error_def)
next
  case Reject
  then show ?thesis
    using assms by (fastforce simp: meets_reject_def o_return_error_def)
qed simp

lemma encode_callback_field_meets: "meets (encode_callback_field env f a) (callback_wire cw env f a)"
proof -
  have "meets (\<lambda>s. if fn \<noteq> NULL
          then (case oe_encode_cb env fn f (callback_arg a) s of
                  None \<Rightarrow> None
                | Some (False, s) \<Rightarrow> o_return_error ''callback error'' s
                | Some (True, s) \<Rightarrow> Some (True, s))
          else Some (True, s)) (if fn \<noteq> NULL then cw_field cw fn f (callback_arg a) else Emit [])" for fn
    by (intro meets_if callback_error_meets cb_meets meets_return_True)
  moreover have "(if fn = 0 then Emit [] else w) = (if fn \<noteq> 0 then w else Emit [])" for fn :: addr and w
    by simp
  ultimately show ?thesis
    unfolding encode_callback_field_def [abs_def] callback_wire_def
    by (simp only:) (intro meets_option)
qed

lemma encode_field_meets: "meets (encode_field enc n env f a) (plain_field_wire cw ref n env f a)"
  unfolding encode_field_def [abs_def] plain_field_wire_def
  by (intro meets_if encode_basic_field_meets encode_callback_field_meets meets_return_error)

lemma default_extension_meets:
  "meets (default_extension_encoder enc n env e) (default_extension_wire cw ref n env e)"
  unfolding default_extension_encoder_def [abs_def] default_extension_wire_def Let_def
  by (intro meets_option meets_if encode_field_meets)

lemma encode_extensions_meets:
  "meets (encode_extensions enc n env k e) (extensions_wire cw ref n env k e)"
proof (induction k arbitrary: e)
  case 0
  have "encode_extensions enc n env 0 e = (\<lambda>s. if e = NULL then Some (True, s) else None)"
    by (rule ext) simp
  then show ?case
    by (simp only: extensions_wire.simps) (intro meets_if meets_return_True meets_simps(3))
next
  case (Suc k)
  have "encode_extensions enc n env (Suc k) e = (\<lambda>s. if e = NULL then Some (True, s)
     else case Option.bind (ext_type (oe_mem env) e) (exttype_encode (oe_mem env)) of
          None \<Rightarrow> None
        | Some fn \<Rightarrow>
            ifok (if fn \<noteq> NULL then oe_encode_ext env fn e s else default_extension_encoder enc n env e s)
              (\<lambda>s. case ext_next (oe_mem env) e of
                     None \<Rightarrow> None | Some e' \<Rightarrow> encode_extensions enc n env k e' s))"
    by (rule ext) (simp add: Let_def)
  then show ?case
    by (simp only: extensions_wire.simps Let_def)
      (intro meets_if meets_return_True meets_option meets_seq ext_meets default_extension_meets Suc)
qed

lemma encode_message_field_meets:
  "meets (encode_message_field enc n env f a) (message_field_wire cw ref n env f a)"
  unfolding encode_message_field_def [abs_def] message_field_wire_def encode_extension_field_def
  by (intro meets_if meets_option encode_extensions_meets encode_field_meets)

text \<open>All fields of a message, in order.\<close>

lemma message_fields_meet:
  assumes "fields_ok flds"
  shows "meets (\<lambda>s. case pb_field_iter_begin flds a of (nonempty, iter) \<Rightarrow>
            if nonempty
            then iter_loop (\<lambda>iter s. encode_message_field enc n env (it_field iter) (it_pData iter) s) iter s
            else Some (True, s))
          (wconcat (map (\<lambda>i. message_field_wire cw ref n env (flds ! i) (a + field_offset flds i))
             [0..<length flds]))"
proof (cases "flds = []")
  case True
  then show ?thesis using meets_return_True by (simp add: iter_begin)
next
  case False
  then have ne: "f_tag (field_at flds 0) \<noteq> 0" "0 < length flds"
    using assms by (auto simp: fields_ok_def)
  have "meets (fold_ok (\<lambda>j s. encode_message_field enc n env (it_field (iter_at flds a j)) (it_pData (iter_at flds a j)) s)
            [0..<length flds])
          (wconcat (map (\<lambda>i. message_field_wire cw ref n env (flds ! i) (a + field_offset flds i))
             [0..<length flds]))"
    by (rule fold_ok_meets) (simp add: encode_message_field_meets)
  moreover have "iter_loop (\<lambda>iter s. encode_message_field enc n env (it_field iter) (it_pData iter) s)
        (iter_at flds a 0) =
      fold_ok (\<lambda>j s. encode_message_field enc n env (it_field (iter_at flds a j)) (it_pData (iter_at flds a j)) s)
            [0..<length flds]"
    by (rule ext) (simp add: iter_loop_fold [OF assms ne(2)])
  ultimately show ?thesis
    using ne by (simp add: iter_begin)
qed

end

section \<open>The refinement\<close>

text \<open>The application's callbacks write what \<open>cw\<close> says.\<close>

definition callbacks_meet :: "'u oenv \<Rightarrow> callback_wires \<Rightarrow> bool" where
  "callbacks_meet env cw \<longleftrightarrow>
     (\<forall>fn f arg. meets (oe_encode_cb env fn f arg) (cw_field cw fn f arg)) \<and>
     (\<forall>fn e. meets (oe_encode_ext env fn e) (cw_ext cw fn e))"

lemma callbacks_meet_none [simp]: "callbacks_meet env no_callbacks"
  by (simp add: callbacks_meet_def no_callbacks_def)

lemma message_encoder_intro:
  assumes "callbacks_meet env cw" "\<And>flds a. meets (enc flds a) (ref flds a)"
  shows "message_encoder env enc ref cw"
  by unfold_locales (use assms in \<open>auto simp: callbacks_meet_def\<close>)

lemma pb_encode_meets_wire:
  assumes "callbacks_meet env cw"
  shows "meets (pb_encode n env flds a) (message_wire n cw env flds a)"
proof (induction n arbitrary: flds a)
  case 0
  show ?case by simp
next
  case (Suc n)
  have "message_encoder env (pb_encode n env) (message_wire n cw env) cw"
    using assms Suc by (rule message_encoder_intro)
  note fields = message_encoder.message_fields_meet [OF this, where flds = flds and a = a and n = n]
  have "pb_encode (Suc n) env flds a = (\<lambda>s. case pb_field_iter_begin flds a of (nonempty, iter) \<Rightarrow>
            if nonempty
            then iter_loop (\<lambda>iter s. encode_message_field (pb_encode n env) n env (it_field iter) (it_pData iter) s) iter s
            else Some (True, s))"
    by (rule ext) simp
  then show ?case
    using fields by (cases "fields_ok flds") simp_all
qed

text \<open>\<open>pb_encode\<close> provides the interface its field encoders rely on, at every nesting depth.\<close>

interpretation pb_encoder: message_encoder env "pb_encode n env" "message_wire n no_callbacks env" no_callbacks k
  for env :: "'u oenv" and n k
    by unfold_locales
    (rule pb_encode_meets_wire [OF callbacks_meet_none], simp_all add: no_callbacks_def)

end
