(* ===== verification/EncodeProps.thy ===== *)
theory EncodeProps
  imports EncodeSpec
begin

text \<open>
  What the encoder promises its callers, as statements about buffers and sizes, each one a
  consequence of the refinement \<open>pb_encode_meets_wire\<close>; and an example message on which the
  statements are evaluated.
\<close>

section \<open>Consequences of the contract\<close>

lemma mem_stream_from_buffer:
  assumes "length buf < 2 ^ 63"
  shows "mem_stream (pb_ostream_from_buffer buf (of_nat (length buf)))"
    "o_room (pb_ostream_from_buffer buf (of_nat (length buf))) = length buf"
  using assms by (auto simp: mem_stream_def pb_ostream_from_buffer_def o_room_def)

lemma o_push_from_buffer:
  "o_push (pb_ostream_from_buffer buf n) bs = \<lparr>o_callback = OBufWrite,
     o_state = OBuf (bs @ drop (length bs) buf) (length bs), o_max_size = n,
     o_bytes_written = of_nat (length bs), o_errmsg = None\<rparr>"
  by (simp add: o_push_def pb_ostream_from_buffer_def blit_def)

lemma meets_to_buffer:
  assumes "meets f (Emit bs)" "length bs \<le> length buf" "length buf < 2 ^ 63"
  shows "f (pb_ostream_from_buffer buf (of_nat (length buf))) = Some (True,
     \<lparr>o_callback = OBufWrite, o_state = OBuf (bs @ drop (length bs) buf) (length bs),
      o_max_size = of_nat (length buf), o_bytes_written = of_nat (length bs), o_errmsg = None\<rparr>)"
proof -
  note s = mem_stream_from_buffer [OF assms(3)]
  have "\<forall>s. mem_stream s \<longrightarrow> length bs \<le> o_room s \<longrightarrow> f s = Some (True, o_push s bs)"
    using assms(1) by (simp add: meets_emit_def)
  from this [rule_format, OF s(1)] show ?thesis
    using assms(2) by (simp only: s(2) o_push_from_buffer)
qed

lemma within_window_bytes:
  assumes "within_window s s'" "o_state s = OBuf dest pos" "mem_stream s"
  shows "\<exists>dest' pos'. o_state s' = OBuf dest' pos' \<and> length dest' = length dest \<and>
     (\<forall>i < length dest. i < pos \<or> pos + o_room s \<le> i \<longrightarrow> dest' ! i = dest ! i)"
proof -
  obtain d' p' where d': "o_state s' = OBuf d' p'" "length d' = length dest"
    "take pos d' = take pos dest" "drop (pos + o_room s) d' = drop (pos + o_room s) dest"
    using assms(1,2) by (auto simp: within_window_def)
  have "d' ! i = dest ! i" if "i < length dest" "i < pos \<or> pos + o_room s \<le> i" for i
  proof (cases "i < pos")
    case True
    then show ?thesis using d'(3) by (metis nth_take)
  next
    case False
    then have "d' ! i = drop (pos + o_room s) d' ! (i - (pos + o_room s))"
      using that d'(2) by simp
    also have "\<dots> = dest ! i"
      using that d' False by simp
    finally show ?thesis .
  qed
  with d' show ?thesis by blast
qed

lemma within_window_pushed:
  assumes "mem_stream s" "length bs \<le> o_room s"
  shows "within_window s (o_push s bs)"
  using within_window_push [OF assms within_window_refl [OF mem_stream_push [OF assms]]] .

lemma meets_within:
  assumes "meets f w" "w \<noteq> Undef" "mem_stream s"
  shows "\<exists>ok s'. f s = Some (ok, s') \<and> within_window s s' \<and>
     (ok \<longleftrightarrow> (\<exists>bs. w = Emit bs \<and> length bs \<le> o_room s))"
proof (cases w)
  case (Emit bs)
  then have f: "meets_emit f bs" using assms(1) by simp
  show ?thesis
  proof (cases "length bs \<le> o_room s")
    case True
    then have "f s = Some (True, o_push s bs)"
      using f assms(3) by (simp add: meets_emit_def)
    then show ?thesis
      using True Emit within_window_pushed [OF assms(3)] by auto
  next
    case False
    then have "\<exists>s'. f s = Some (False, s') \<and> within_window s s'"
      using f assms(3) by (simp add: meets_emit_def)
    then show ?thesis
      using False Emit by auto
  qed
next
  case Reject
  then have "\<exists>s'. f s = Some (False, s') \<and> within_window s s'"
    using assms by (simp add: meets_reject_def)
  then show ?thesis using Reject by auto
qed (use assms in simp)

lemma meets_counted:
  assumes "meets f w" "w \<noteq> Undef"
  shows "\<exists>s'. f PB_OSTREAM_SIZING = (case w of
     Emit bs \<Rightarrow> Some (True, o_count PB_OSTREAM_SIZING (length bs)) | _ \<Rightarrow> Some (False, s'))"
  using assms by (cases w) (simp_all add: meets_emit_def meets_reject_def)

section \<open>An example\<close>

text \<open>
  \<open>struct shape { uint32_t id; bool has_at; struct { int32_t x; } at; }\<close> at address 4096, with
  id 150, the flag set and x = 5; the descriptor table of the submessage is at address 64.
\<close>

definition point_fields :: "pb_field list" where
  "point_fields =
     [PB_REQUIRED_STATIC 1 \<lparr>cm_offset = 0, cm_size = 4, cm_elem = 1\<rparr> 0 PB_LTYPE_VARINT NULL]"

definition shape_fields :: "pb_field list" where
  "shape_fields =
    [PB_REQUIRED_STATIC 1 \<lparr>cm_offset = 0, cm_size = 4, cm_elem = 1\<rparr> 0 PB_LTYPE_UVARINT NULL,
     PB_OPTIONAL_STATIC 3 \<lparr>cm_offset = 4, cm_size = 1, cm_elem = 1\<rparr>
       \<lparr>cm_offset = 8, cm_size = 4, cm_elem = 1\<rparr> 4 PB_LTYPE_SUBMESSAGE 64]"

definition shape_env :: "unit oenv" where
  "shape_env = \<lparr>oe_mem = bytes_at 4096 [150, 0, 0, 0, 1, 0, 0, 0, 5, 0, 0, 0],
     oe_fields = [64 \<mapsto> point_fields], oe_write = \<lambda>u bs. (True, u),
     oe_encode_cb = \<lambda>fn f a s. None, oe_encode_ext = \<lambda>fn e s. None\<rparr>"

lemma shape_wire:
  "message_wire 3 no_callbacks shape_env shape_fields 4096 = Emit [0x08, 0x96, 0x01, 0x1A, 0x02, 0x08, 0x05]"
  by code_simp

section \<open>The promises\<close>

text \<open>C1. Encoding into a buffer that is large enough returns true, and the buffer starts with
  exactly the bytes the reference encoder gives for the message; the rest of the buffer is
  untouched and \<open>bytes_written\<close> is the number of those bytes.\<close>

theorem pb_encode_to_buffer:
  assumes "callbacks_meet env cw" and "message_wire n cw env flds src = Emit bs"
    and "length bs \<le> length buf" and "length buf < 2 ^ 63"
  shows "pb_encode n env flds src (pb_ostream_from_buffer buf (of_nat (length buf))) = Some (True,
     \<lparr>o_callback = OBufWrite, o_state = OBuf (bs @ drop (length bs) buf) (length bs),
      o_max_size = of_nat (length buf), o_bytes_written = of_nat (length bs), o_errmsg = None\<rparr>)"
  using pb_encode_meets_wire [OF assms(1), of n flds src] assms(2-)
  by (intro meets_to_buffer) simp_all

theorem pb_encode_to_buffer_witness:
  "pb_encode 3 shape_env shape_fields 4096 (pb_ostream_from_buffer (replicate 8 0xFF) 8) = Some (True,
     \<lparr>o_callback = OBufWrite, o_state = OBuf [0x08, 0x96, 0x01, 0x1A, 0x02, 0x08, 0x05, 0xFF] 7,
      o_max_size = 8, o_bytes_written = 7, o_errmsg = None\<rparr>)"
  using pb_encode_to_buffer [OF callbacks_meet_none shape_wire, of "replicate 8 0xFF"]
  by simp

text \<open>C2. Whatever the message holds, as long as its memory is readable: encoding to a memory
  stream changes no byte of the array before the stream's position or past its limit, never
  counts more than \<open>max_size\<close> bytes, and returns true exactly when the message is valid and
  its encoding fits.\<close>

theorem pb_encode_stays_in_buffer:
  assumes "callbacks_meet env cw" and "message_wire n cw env flds src \<noteq> Undef"
    and "mem_stream s" and "o_state s = OBuf dest pos"
  shows "\<exists>ok s' dest' pos'. pb_encode n env flds src s = Some (ok, s') \<and>
     o_state s' = OBuf dest' pos' \<and> length dest' = length dest \<and>
     (\<forall>i < length dest. i < pos \<or> pos + o_room s \<le> i \<longrightarrow> dest' ! i = dest ! i) \<and>
     o_bytes_written s' \<le> o_max_size s \<and>
     (ok \<longleftrightarrow> (\<exists>bs. message_wire n cw env flds src = Emit bs \<and> length bs \<le> o_room s))"
proof -
  obtain ok s' where r: "pb_encode n env flds src s = Some (ok, s')" "within_window s s'"
    "ok \<longleftrightarrow> (\<exists>bs. message_wire n cw env flds src = Emit bs \<and> length bs \<le> o_room s)"
    using meets_within [OF pb_encode_meets_wire [OF assms(1)] assms(2,3)] by blast
  have "o_max_size s' = o_max_size s" "o_bytes_written s' \<le> o_max_size s'"
    using r(2) unfolding within_window_def by blast+
  then have "o_bytes_written s' \<le> o_max_size s"
    by simp
  moreover obtain dest' pos' where "o_state s' = OBuf dest' pos'" "length dest' = length dest"
    "\<forall>i < length dest. i < pos \<or> pos + o_room s \<le> i \<longrightarrow> dest' ! i = dest ! i"
    using within_window_bytes [OF r(2) assms(4,3)] by blast
  ultimately show ?thesis
    using r(1,3) by blast
qed

theorem pb_encode_stays_in_buffer_witness:
  "\<exists>ok s' dest' pos'.
     pb_encode 3 shape_env shape_fields 4096 (pb_ostream_from_buffer (replicate 5 0xFF) 5) = Some (ok, s') \<and>
     o_state s' = OBuf dest' pos' \<and> length dest' = 5 \<and> o_bytes_written s' \<le> 5 \<and> \<not> ok"
proof -
  have s: "mem_stream (pb_ostream_from_buffer (replicate 5 0xFF) 5)"
    "o_room (pb_ostream_from_buffer (replicate 5 0xFF) 5) = 5"
    using mem_stream_from_buffer [of "replicate 5 0xFF"] by simp_all
  have "message_wire 3 no_callbacks shape_env shape_fields 4096 \<noteq> Undef"
    by (simp add: shape_wire)
  from pb_encode_stays_in_buffer [OF callbacks_meet_none this s(1)]
  show ?thesis
    by (fastforce simp: pb_ostream_from_buffer_def s [unfolded pb_ostream_from_buffer_def] shape_wire)
qed

text \<open>C3. \<open>pb_get_encoded_size\<close> is exact: it gives the number of bytes of the encoding, and
  false where the message is invalid.\<close>

theorem pb_get_encoded_size_exact:
  assumes "callbacks_meet env cw" and "message_wire n cw env flds src \<noteq> Undef"
  shows "pb_get_encoded_size n env flds src = (case message_wire n cw env flds src of
     Emit bs \<Rightarrow> Some (Some (of_nat (length bs))) | _ \<Rightarrow> Some None)"
proof -
  obtain s' where "pb_encode n env flds src PB_OSTREAM_SIZING = (case message_wire n cw env flds src of
      Emit bs \<Rightarrow> Some (True, o_count PB_OSTREAM_SIZING (length bs)) | _ \<Rightarrow> Some (False, s'))"
    using meets_counted [OF pb_encode_meets_wire [OF assms(1)] assms(2)] by blast
  then show ?thesis
    using assms(2) by (cases "message_wire n cw env flds src")
      (simp_all add: pb_get_encoded_size_def o_count_def PB_OSTREAM_SIZING_def)
qed

theorem pb_get_encoded_size_exact_witness:
  "pb_get_encoded_size 3 shape_env shape_fields 4096 = Some (Some 7)"
  using pb_get_encoded_size_exact [OF callbacks_meet_none, of 3 shape_env shape_fields 4096]
  by (simp add: shape_wire)

text \<open>C4. A delimited message is its length as a varint followed by its encoding: the size
  counted in the first pass is the size written in the second one, so \<open>submsg size changed\<close>
  is never reported.\<close>

theorem pb_encode_delimited_to_buffer:
  assumes "callbacks_meet env cw" and "message_wire n cw env flds src = Emit bs"
    and "length (len_delimited bs) \<le> length buf" and "length buf < 2 ^ 62"
  shows "pb_encode_delimited n env flds src (pb_ostream_from_buffer buf (of_nat (length buf))) =
     Some (True, \<lparr>o_callback = OBufWrite,
       o_state = OBuf (len_delimited bs @ drop (length (len_delimited bs)) buf) (length (len_delimited bs)),
       o_max_size = of_nat (length buf), o_bytes_written = of_nat (length (len_delimited bs)),
       o_errmsg = None\<rparr>)"
proof -
  have "message_encoder env (pb_encode n env) (message_wire n cw env) cw"
    by (rule message_encoder_intro [OF assms(1)]) (rule pb_encode_meets_wire [OF assms(1)])
  from message_encoder.pb_encode_submessage_meets [OF this, of flds src]
  have "meets (pb_encode_delimited n env flds src) (Emit (len_delimited bs))"
    using assms(2-) by (simp add: pb_encode_delimited_def [abs_def] len_delimited_def)
  then show ?thesis
    by (rule meets_to_buffer) (use assms in simp_all)
qed

theorem pb_encode_delimited_to_buffer_witness:
  "pb_encode_delimited 3 shape_env shape_fields 4096 (pb_ostream_from_buffer (replicate 8 0xFF) 8) =
     Some (True, \<lparr>o_callback = OBufWrite,
       o_state = OBuf [0x07, 0x08, 0x96, 0x01, 0x1A, 0x02, 0x08, 0x05] 8,
       o_max_size = 8, o_bytes_written = 8, o_errmsg = None\<rparr>)"
  using pb_encode_delimited_to_buffer [OF callbacks_meet_none shape_wire, of "replicate 8 0xFF"]
  by (simp add: len_delimited_def varint_bytes.simps)

end
