(* ===== verification/WireRoundtrip.thy ===== *)
theory WireRoundtrip
  imports IStreamSpec EncodeProps
begin

text \<open>
  What the two halves of the stream layer promise together: everything the encoder writes is
  read back by the decoder as it was, and the decoder leaves the stream exactly behind it.
\<close>

section \<open>Zigzag\<close>

lemma word_of_int_sint_id [simp]: "word_of_int (sint v) = v"
  by simp

lemma unzigzag_unat:
  "unzigzag z = (if even (unat z) then word_of_int (int (unat z div 2)) else word_of_int (- int (unat z div 2) - 1))"
proof -
  have "z AND 1 = z mod 2" by (simp add: and_one_eq)
  also have "unat \<dots> = unat z mod 2" by (simp add: unat_mod)
  finally have "z AND 1 = 0 \<longleftrightarrow> even (unat z)"
    by (simp add: word_unat_eq_iff even_iff_mod_2_eq_zero)
  moreover have d: "drop_bit 1 z = word_of_int (int (unat z div 2))"
  proof -
    have "unat z div 2 < 2 ^ 64"
      using unsigned_less [of z, where ?'a = nat] by simp
    then have "unat (of_nat (unat z div 2) :: u64) = unat z div 2"
      by (rule unat_of_nat64)
    then show ?thesis by (simp add: word_unat_eq_iff drop_bit_eq_div unat_div)
  qed
  moreover have "NOT (drop_bit 1 z) = word_of_int (- int (unat z div 2) - 1)"
    unfolding d by (simp add: not_eq_complement)
  ultimately show ?thesis
    by (simp only: unzigzag_def) simp
qed

lemma unzigzag_zigzag: "unzigzag (zigzag v) = v"
proof (cases "sint v < 0")
  case True
  then have u: "unat (zigzag v) = nat (- 2 * sint v - 1)"
    by (simp only: zigzag_unat zigzag_nat_def if_True)
  then have "int (unat (zigzag v)) = 2 * (- sint v - 1) + 1" using True by simp
  then have "odd (unat (zigzag v))" "int (unat (zigzag v) div 2) = - sint v - 1"
    by presburger+
  then show ?thesis by (simp add: unzigzag_unat)
next
  case False
  then have u: "unat (zigzag v) = nat (2 * sint v)"
    by (simp only: zigzag_unat zigzag_nat_def if_False)
  then have "int (unat (zigzag v)) = 2 * sint v" using False by simp
  then have "even (unat (zigzag v))" "int (unat (zigzag v) div 2) = sint v"
    by presburger+
  then show ?thesis by (simp add: unzigzag_unat)
qed

section \<open>From the encoder's buffer to the decoder's stream\<close>

text \<open>\<open>writes f bs\<close>: on a buffer with room, \<open>f\<close> returns true and leaves \<open>bs\<close> at its start. The
  decoder is then given that buffer.\<close>

definition written :: "('u ostream \<Rightarrow> 'u ostream outcome) \<Rightarrow> u8 list \<Rightarrow> (u8 list \<times> nat) option" where
  "written f buf = (case f (pb_ostream_from_buffer buf (of_nat (length buf))) of
     Some (True, s) \<Rightarrow> (case o_state s of OBuf out k \<Rightarrow> Some (out, k) | _ \<Rightarrow> None)
   | _ \<Rightarrow> None)"

abbreviation reading :: "u8 list \<Rightarrow> 'u istream" where
  "reading buf \<equiv> pb_istream_from_buffer buf (of_nat (length buf))"

lemma written_meets:
  assumes "meets f (Emit bs)" "length bs \<le> length buf" "length buf < 2 ^ 63"
  shows "written f buf = Some (bs @ drop (length bs) buf, length bs)"
  using meets_to_buffer [OF assms] by (simp add: written_def)

lemma reading_written:
  assumes "length bs \<le> length buf" "length buf < 2 ^ 63"
  shows "mem_istream (reading (bs @ drop (length bs) buf))"
    "avail (reading (bs @ drop (length bs) buf)) = bs @ drop (length bs) buf"
  using mem_istream_from_buffer [of "bs @ drop (length bs) buf"] assms by simp_all

lemma length_tag_bytes: "unat wt < 8 \<Longrightarrow> length (tag_bytes wt num) \<le> 10"
  using length_varint_bytes64 [of "push_bit 3 (ucast num) OR ucast wt"] tag_word [of wt num]
  by (simp add: tag_bytes_def)

text \<open>For the examples: memory streams only, so that the callback is never called.\<close>

definition no_reader :: "unit ienv" where
  "no_reader = \<lparr>ie_read = \<lambda>u n. (False, [], u)\<rparr>"

section \<open>Round trips\<close>

text \<open>C7. Every 64-bit number written by \<open>pb_encode_varint\<close> takes between one and ten bytes and is
  read back by \<open>pb_decode_varint\<close>, which leaves the stream right behind it.\<close>

theorem varint_roundtrip:
  assumes "10 \<le> length buf" and "length buf < 2 ^ 63"
  shows "\<exists>out k. written (pb_encode_varint env v) buf = Some (out, k) \<and> 1 \<le> k \<and> k \<le> 10 \<and>
     pb_decode_varint ienv (reading out) = Some (Some v, i_advance (reading out) k)"
proof -
  let ?bs = "varint_bytes (unat v)"
  have len: "length ?bs \<le> 10" by (rule length_varint_bytes64)
  then have fits: "length ?bs \<le> length buf" using assms(1) by simp
  have "1 \<le> length ?bs" by (simp add: Suc_le_eq)
  moreover note w = written_meets [OF pb_encode_varint_meets fits assms(2)]
  moreover have "pb_decode_varint ienv (reading (?bs @ drop (length ?bs) buf)) =
      Some (Some v, i_advance (reading (?bs @ drop (length ?bs) buf)) (length ?bs))"
    using pb_decode_varint_parse [OF reading_written(1) [OF fits assms(2)], of ienv]
    unfolding reading_written(2) [OF fits assms(2)] parse_varint_bytes [OF len] by simp
  ultimately show ?thesis using len by blast
qed

theorem varint_roundtrip_witness:
  "\<exists>out k. written (pb_encode_varint shape_env 300) (replicate 12 0) = Some (out, k) \<and>
     pb_decode_varint no_reader (reading out) = Some (Some 300, i_advance (reading out) k)"
  using varint_roundtrip [of "replicate 12 0" shape_env 300 no_reader] by auto

text \<open>C8. The signed counterpart: \<open>pb_decode_svarint\<close> reads back what \<open>pb_encode_svarint\<close> writes, so
  the zigzag code loses nothing, \<open>INT64_MIN\<close> included.\<close>

theorem svarint_roundtrip:
  assumes "10 \<le> length buf" and "length buf < 2 ^ 63"
  shows "\<exists>out k. written (pb_encode_svarint env v) buf = Some (out, k) \<and>
     pb_decode_svarint ienv (reading out) = Some (Some v, i_advance (reading out) k)"
proof -
  let ?bs = "varint_bytes (unat (zigzag v))"
  have len: "length ?bs \<le> 10" by (rule length_varint_bytes64)
  then have fits: "length ?bs \<le> length buf" using assms(1) by simp
  have "pb_decode_svarint ienv (reading (?bs @ drop (length ?bs) buf)) =
      Some (Some v, i_advance (reading (?bs @ drop (length ?bs) buf)) (length ?bs))"
    using pb_decode_varint_parse [OF reading_written(1) [OF fits assms(2)], of ienv]
    unfolding reading_written(2) [OF fits assms(2)] parse_varint_bytes [OF len] pb_decode_svarint_def
    by (simp add: unzigzag_zigzag)
  then show ?thesis
    using written_meets [OF pb_encode_svarint_meets fits assms(2)] by blast
qed

theorem svarint_roundtrip_witness:
  "\<exists>out k. written (pb_encode_svarint shape_env (- 3)) (replicate 10 0) = Some (out, k) \<and>
     pb_decode_svarint no_reader (reading out) = Some (Some (- 3), i_advance (reading out) k)"
  using svarint_roundtrip [of "replicate 10 0" shape_env "- 3" no_reader] by auto

text \<open>A field tag survives the round trip: for any field number protobuf allows (1 to
  2^29 - 1) and any wire type, \<open>pb_decode_tag\<close> gives back both, without end-of-file.\<close>

theorem tag_roundtrip:
  assumes "10 \<le> length buf" and "length buf < 2 ^ 63"
    and "unat wt < 8" and "num \<noteq> 0" and "unat num < 2 ^ 29"
  shows "\<exists>out k. written (pb_encode_tag env wt num) buf = Some (out, k) \<and>
     pb_decode_tag ienv (reading out) = Some \<lparr>t_ok = True, t_wire_type = wt, t_tag = num,
       t_eof = False, t_stream = i_advance (reading out) k\<rparr>"
proof -
  have fits: "length (tag_bytes wt num) \<le> length buf"
    using length_tag_bytes [OF assms(3), of num] assms(1) by simp
  show ?thesis
    using written_meets [OF pb_encode_tag_meets [OF assms(3)] fits assms(2)]
      pb_decode_tag_canonical [OF reading_written [OF fits assms(2)] assms(3,5,4)] by blast
qed

theorem tag_roundtrip_witness:
  "\<exists>out k. written (pb_encode_tag shape_env PB_WT_STRING 536870911) (replicate 10 0) = Some (out, k) \<and>
     pb_decode_tag no_reader (reading out) = Some \<lparr>t_ok = True, t_wire_type = PB_WT_STRING,
       t_tag = 536870911, t_eof = False, t_stream = i_advance (reading out) k\<rparr>"
  using tag_roundtrip [of "replicate 10 0" PB_WT_STRING 536870911 shape_env no_reader]
  by (simp add: wt_defs)

text \<open>Fixed-width integers are stored little-endian, in exactly four and eight bytes, and read
  back unchanged.\<close>

theorem fixed_roundtrip:
  assumes "load_u32 (oe_mem env) p = Some v" and "load_u64 (oe_mem env) q = Some w"
    and "8 \<le> length buf" and "length buf < 2 ^ 63"
  shows "(\<exists>out. written (pb_encode_fixed32 env p) buf = Some (out, 4) \<and>
       pb_decode_fixed32 ienv (reading out) = Some (Some v, i_advance (reading out) 4)) \<and>
     (\<exists>out. written (pb_encode_fixed64 env q) buf = Some (out, 8) \<and>
       pb_decode_fixed64 ienv (reading out) = Some (Some w, i_advance (reading out) 8))"
proof (rule conjI)
  have f4: "length (bytes_of_word 4 v) \<le> length buf" and f8: "length (bytes_of_word 8 w) \<le> length buf"
    using assms(3) by simp_all
  have "meets (pb_encode_fixed32 env p) (Emit (bytes_of_word 4 v))"
    using pb_encode_fixed32_meets [of env p] assms(1) by simp
  note w4 = written_meets [OF this f4 assms(4)]
  show "\<exists>out. written (pb_encode_fixed32 env p) buf = Some (out, 4) \<and>
       pb_decode_fixed32 ienv (reading out) = Some (Some v, i_advance (reading out) 4)"
    using w4 pb_decode_fixed32_mem [OF reading_written(1) [OF f4 assms(4)], of ienv]
    unfolding reading_written(2) [OF f4 assms(4)] by (auto simp: fixed32_value_bytes)
  have "meets (pb_encode_fixed64 env q) (Emit (bytes_of_word 8 w))"
    using pb_encode_fixed64_meets [of env q] assms(2) by simp
  note w8 = written_meets [OF this f8 assms(4)]
  show "\<exists>out. written (pb_encode_fixed64 env q) buf = Some (out, 8) \<and>
       pb_decode_fixed64 ienv (reading out) = Some (Some w, i_advance (reading out) 8)"
    using w8 pb_decode_fixed64_mem [OF reading_written(1) [OF f8 assms(4)], of ienv]
    unfolding reading_written(2) [OF f8 assms(4)] by (auto simp: fixed64_value_bytes)
qed

theorem fixed_roundtrip_witness:
  "\<exists>out. written (pb_encode_fixed64 shape_env 4096) (replicate 8 0) = Some (out, 8) \<and>
     pb_decode_fixed64 no_reader (reading out) = Some (Some 0x100000096, i_advance (reading out) 8)"
proof -
  have "load_u32 (oe_mem shape_env) 4096 = Some 150" "load_u64 (oe_mem shape_env) 4096 = Some 0x100000096"
    by code_simp+
  from fixed_roundtrip [OF this, of "replicate 8 0" no_reader] show ?thesis by simp
qed

section \<open>What the decoders accept\<close>

text \<open>C9. \<open>pb_decode_varint\<close> on arbitrary bytes agrees with the reference parser: it accepts a
  varint of at most ten bytes, modulo 2^64, and stops right behind it; a longer one is a
  varint overflow, and a stream that ends inside one is an error, with everything read.\<close>

theorem pb_decode_varint_correct:
  assumes "mem_istream s"
  shows "pb_decode_varint env s = (case parse_varint 10 (avail s) of
     Some (v, n) \<Rightarrow> Some (Some (of_nat v), i_advance s n)
   | None \<Rightarrow> i_value_error (if length (avail s) < 10 then ''end-of-stream'' else ''varint overflow'')
       (i_advance s (min 10 (length (avail s)))))"
  using assms by (rule pb_decode_varint_parse)

theorem pb_decode_varint_correct_witness:
  "pb_decode_varint no_reader (reading [0xAC, 0x02, 0x55]) =
     Some (Some 300, i_advance (reading [0xAC, 0x02, 0x55]) 2)"
proof -
  let ?s = "reading [0xAC, 0x02, 0x55] :: unit istream"
  have s: "mem_istream ?s" "avail ?s = [0xAC, 0x02, 0x55]"
    by (rule mem_istream_from_buffer; simp)+
  have p: "parse_varint 10 [0xAC, 0x02, 0x55] = Some (300, 2)" by code_simp
  show ?thesis
    using pb_decode_varint_correct [OF s(1), of no_reader] unfolding s(2) p by simp
qed

lemma length_varint_bytes_gt: "128 ^ k \<le> n \<Longrightarrow> k < length (varint_bytes n)"
proof (induction n arbitrary: k rule: varint_bytes.induct)
  case (1 n)
  show ?case
  proof (cases k)
    case 0
    then show ?thesis by simp
  next
    case (Suc j)
    then have "\<not> n < 128" "128 ^ j \<le> n div 128"
      using 1(2) by (simp_all add: less_eq_div_iff_mult_less_eq mult.commute)
        (metis less_le_trans mult_le_mono2 mult.right_neutral not_less one_le_power one_le_numeral order.trans)
    with 1(1) [of j] show ?thesis
      by (simp add: varint_bytes.simps [of n] Suc)
  qed
qed

lemma unat_sint64:
  fixes v :: u64
  shows "0 \<le> sint v \<Longrightarrow> int (unat v) = sint v" "sint v < 0 \<Longrightarrow> int (unat v) = sint v + 2 ^ 64"
proof -
  have range: "- (2 ^ 63) \<le> sint v" "sint v < 2 ^ 63"
    using sint_ge [of v] sint_lt [of v] by simp_all
  have "uint v = sint v mod 2 ^ 64"
    using uint_word_of_int [of "sint v", where ?'a = 64] by simp
  moreover have "sint v mod 2 ^ 64 = (sint v + 2 ^ 64) mod 2 ^ 64" by simp
  ultimately show "0 \<le> sint v \<Longrightarrow> int (unat v) = sint v" "sint v < 0 \<Longrightarrow> int (unat v) = sint v + 2 ^ 64"
    using range mod_pos_pos_trivial [of "sint v" "2 ^ 64"] mod_pos_pos_trivial [of "sint v + 2 ^ 64" "2 ^ 64"]
    by simp_all
qed

text \<open>C10. Read as 32 bits, the canonical encoding of a 64-bit number gives that number if it fits,
  its low half if it is a sign-extended negative 32-bit number, and an overflow error if it is
  any other number below 2^63: nothing is truncated silently there.\<close>

theorem pb_decode_varint32_range:
  assumes "mem_istream s" and "avail s = varint_bytes (unat (v :: u64)) @ rest"
  shows "(unat v < 2 ^ 32 \<or> (- (2 ^ 31) \<le> sint v \<and> sint v < 0) \<longrightarrow> pb_decode_varint32 env s =
       Some (Some (ucast v), i_advance s (length (varint_bytes (unat v))))) \<and>
     (2 ^ 32 \<le> unat v \<and> 0 \<le> sint v \<longrightarrow>
       (\<exists>s'. pb_decode_varint32 env s = Some (None, s') \<and> i_errmsg s' \<noteq> None))"
proof (intro conjI impI; (elim conjE)?)
  let ?n = "unat v"
  have lt: "?n < 2 ^ 64" using unsigned_less [of v, where ?'a = nat] by simp
  have un: "of_nat ?n = (ucast v :: u32)" by simp
  show "pb_decode_varint32 env s = Some (Some (ucast v), i_advance s (length (varint_bytes ?n)))"
    if "?n < 2 ^ 32 \<or> (- (2 ^ 31) \<le> sint v \<and> sint v < 0)"
  proof (cases "?n < 2 ^ 32")
    case True
    then show ?thesis using varint32_canonical [OF assms] un by simp
  next
    case False
    then have "int ?n = sint v + 2 ^ 64" "- (2 ^ 31) \<le> sint v"
      using that unat_sint64(2) [of v] by auto
    then have "int (2 ^ 64 - 2 ^ 31) \<le> int ?n" by simp
    then have ge: "2 ^ 64 - 2 ^ 31 \<le> ?n" by (simp only: of_nat_le_iff)
    then have "length (varint_bytes ?n) = 10"
      using length_varint_bytes_gt [of 9 ?n] length_varint_bytes64 [of v] by simp
    then show ?thesis
      using varint32_canonical_negative [OF assms ge lt] un by (simp add: pb_decode_varint32_def)
  qed
  show "\<exists>s'. pb_decode_varint32 env s = Some (None, s') \<and> i_errmsg s' \<noteq> None"
    if "2 ^ 32 \<le> ?n" "0 \<le> sint v"
  proof -
    have "int ?n < 2 ^ 63" using that(2) unat_sint64(1) [of v] sint_lt [of v] by simp
    then have "int ?n < int (2 ^ 63)" by simp
    then have "?n < 2 ^ 63" by (simp only: of_nat_less_iff)
    from varint32_canonical_range [OF assms that(1) this, of env] obtain j where
      "pb_decode_varint32_eof env s = Some (None, False, i_set_error ''varint overflow'' (i_advance s j))"
      by blast
    then have "pb_decode_varint32 env s = Some (None, i_set_error ''varint overflow'' (i_advance s j))"
      by (simp add: pb_decode_varint32_def)
    then show ?thesis using i_set_error_errmsg by blast
  qed
qed

theorem pb_decode_varint32_range_witness:
  "pb_decode_varint32 no_reader (reading (varint_bytes 18446744073709551611)) =
     Some (Some 0xFFFFFFFB, i_advance (reading (varint_bytes 18446744073709551611)) 10)"
proof -
  let ?v = "0xFFFFFFFFFFFFFFFB :: u64"
  have n: "unat ?v = 18446744073709551611" by simp
  have len: "length (varint_bytes 18446744073709551611) = 10"
    by (simp add: varint_bytes.simps)
  let ?s = "reading (varint_bytes 18446744073709551611) :: unit istream"
  have "length (varint_bytes 18446744073709551611) < 2 ^ 64" by (simp add: len)
  then have s: "mem_istream ?s" "avail ?s = varint_bytes (unat ?v) @ []"
    unfolding n by (simp_all add: mem_istream_from_buffer)
  have "sint ?v = - 5" by code_simp
  then have c: "unat ?v < 2 ^ 32 \<or> (- (2 ^ 31) \<le> sint ?v \<and> sint ?v < 0)" by simp
  have "(ucast ?v :: u32) = 0xFFFFFFFB" by code_simp
  then show ?thesis
    using pb_decode_varint32_range [OF s, of no_reader] c unfolding n len by simp
qed


section \<open>Skipping and substreams\<close>

text \<open>The encodings of one value of a wire type.\<close>

definition value_of_wire_type :: "pb_wire_type \<Rightarrow> u8 list \<Rightarrow> bool" where
  "value_of_wire_type wt bs \<longleftrightarrow>
     (wt = PB_WT_VARINT \<and> (\<exists>n. parse_varint (length bs) bs = Some (n, length bs))) \<or>
     (wt = PB_WT_64BIT \<and> length bs = 8) \<or>
     (wt = PB_WT_STRING \<and> (\<exists>p. length p < 2 ^ 32 \<and> bs = len_delimited p)) \<or>
     (wt = PB_WT_32BIT \<and> length bs = 4)"

lemma parse_varint_append:
  "parse_varint k bs = Some (v, n) \<Longrightarrow> parse_varint k (bs @ rest) = Some (v, n)"
  by (induction k bs arbitrary: v n rule: parse_varint.induct) (auto split: if_splits)

text \<open>C12. \<open>pb_skip_field\<close> skips exactly one value of the wire type it is told, varints of any
  length included, and reports every other wire type as an error without reading anything.\<close>

theorem pb_skip_field_exact:
  assumes "mem_istream s"
  shows "(avail s = bs @ rest \<and> value_of_wire_type wt bs \<longrightarrow>
       pb_skip_field env wt s = Some (True, i_advance s (length bs))) \<and>
     (wt \<notin> {PB_WT_VARINT, PB_WT_64BIT, PB_WT_STRING, PB_WT_32BIT} \<longrightarrow>
       pb_skip_field env wt s = i_return_error ''invalid wire_type'' s)"
proof (intro conjI impI; (elim conjE)?)
  show "pb_skip_field env wt s = i_return_error ''invalid wire_type'' s"
    if "wt \<notin> {PB_WT_VARINT, PB_WT_64BIT, PB_WT_STRING, PB_WT_32BIT}"
    using that by (simp add: pb_skip_field_def)
  assume av: "avail s = bs @ rest" and v: "value_of_wire_type wt bs"
  from v consider (varint) n where "wt = PB_WT_VARINT" "parse_varint (length bs) bs = Some (n, length bs)"
    | (b64) "wt = PB_WT_64BIT" "length bs = 8"
    | (string) p where "wt = PB_WT_STRING" "length p < 2 ^ 32" "bs = len_delimited p"
    | (b32) "wt = PB_WT_32BIT" "length bs = 4"
    by (auto simp: value_of_wire_type_def)
  then show "pb_skip_field env wt s = Some (True, i_advance s (length bs))"
  proof cases
    case varint
    have "parse_varint (length (avail s)) (avail s) = Some (n, length bs)"
      unfolding av by (rule parse_varint_mono [OF parse_varint_append [OF varint(2)]]) simp
    then show ?thesis
      using varint(1) by (simp add: pb_skip_field_def pb_skip_varint_parse [OF assms])
  next
    case b64
    then show ?thesis
      using av by (simp add: pb_skip_field_def pb_skip_mem [OF assms] wt_defs)
  next
    case string
    let ?k = "length (varint_bytes (length p))"
    have k: "?k \<le> length (avail s)" and av': "avail s = varint_bytes (length p) @ (p @ rest)"
      using av string(3) by (simp_all add: len_delimited_def)
    have s1: "mem_istream (i_advance s ?k)" "avail (i_advance s ?k) = p @ rest"
      using assms k av' by simp_all
    have u: "unat (ucast (of_nat (length p) :: u32) :: u64) = length p"
      using string(2) by (simp add: unsigned_ucast_eq unsigned_of_nat take_bit_nat_eq_self)
    have "pb_skip_string env s = Some (True, i_advance s (?k + length p))"
      using s1 by (simp add: pb_skip_string_def varint32_canonical [OF assms av' string(2)] pb_skip_mem u
          del: ucast_of_nat_small)
    then show ?thesis
      using string by (simp add: pb_skip_field_def wt_defs len_delimited_def)
  next
    case b32
    then show ?thesis
      using av by (simp add: pb_skip_field_def pb_skip_mem [OF assms] wt_defs)
  qed
qed

theorem pb_skip_field_exact_witness:
  "pb_skip_field no_reader PB_WT_STRING (reading [2, 7, 8, 9]) =
     Some (True, i_advance (reading [2, 7, 8, 9]) 3)"
proof -
  let ?s = "reading [2, 7, 8, 9] :: unit istream"
  have s: "mem_istream ?s" "avail ?s = [2, 7, 8] @ [9]"
    using mem_istream_from_buffer [of "[2, 7, 8, 9]"] by simp_all
  have "[2, 7, 8] = len_delimited [7, 8]" by code_simp
  then have "value_of_wire_type PB_WT_STRING [2, 7, 8]"
    unfolding value_of_wire_type_def by (intro disjI2 disjI1 conjI exI [of _ "[7, 8]"]) simp_all
  with pb_skip_field_exact [OF s(1), of "[2, 7, 8]" "[9]" PB_WT_STRING no_reader] s(2)
  show ?thesis by (simp add: numeral_3_eq_3)
qed

text \<open>C13. A length-delimited value read through a substream: the substream holds exactly the
  payload, and however much of it has been read when it is closed, the parent stream goes on
  right behind the value.\<close>

theorem substream_roundtrip:
  assumes "mem_istream s" and "avail s = len_delimited bs @ rest" and "length bs < 2 ^ 32"
    and "m \<le> length bs"
  shows "\<exists>sub s' s''. pb_make_string_substream env s = Some (Some sub, s') \<and> avail sub = bs \<and>
     pb_close_string_substream env (i_advance sub m) s' = Some (True, s'') \<and>
     mem_istream s'' \<and> avail s'' = rest"
proof -
  let ?d = "len_delimited bs" and ?k = "length (varint_bytes (length bs))"
  obtain sub s' where mk: "pb_make_string_substream env s = Some (Some sub, s')"
    "mem_istream sub" "avail sub = bs" "i_callback s' = IBufRead"
    "i_bytes_left s' = i_bytes_left s - of_nat (length ?d)" "i_state s' = i_state sub"
    "i_state s' = i_state (i_advance s ?k)" "i_bytes_left sub = of_nat (length bs)"
    using pb_make_string_substream_canonical [OF assms(1-3), of env] by auto
  let ?t = "i_advance sub m"
  have t: "mem_istream ?t" "avail ?t = drop m bs" using mk assms(4) by simp_all
  have skip: "(if i_bytes_left ?t \<noteq> 0 then pb_skip env (i_bytes_left ?t) ?t else Some (True, ?t)) =
      Some (True, i_advance sub (length bs))"
  proof (cases "m = length bs")
    case True
    then show ?thesis using t bytes_left_0 [OF t(1)] by simp
  next
    case False
    then have "unat (i_bytes_left ?t) = length bs - m"
      using t length_avail [OF t(1)] by simp
    then show ?thesis
      using False assms(4) t bytes_left_0 [OF t(1)] by (simp add: pb_skip_mem)
  qed
  let ?s = "s'\<lparr>i_state := i_state (i_advance sub (length bs)), i_errmsg := i_errmsg (i_advance sub (length bs))\<rparr>"
  have close: "pb_close_string_substream env ?t s' = Some (True, ?s)"
    unfolding pb_close_string_substream_def skip by simp
  have full: "length ?d \<le> length (avail s)" using assms(2) by simp
  have st: "i_state (i_advance sub (length bs)) = i_state (i_advance s (length ?d))"
  proof -
    obtain r where r: "i_state s = IBuf r" using assms(1) by (rule mem_istreamE)
    then have "i_state sub = IBuf (drop ?k r)" using mk(6,7) by (simp add: i_advance_def)
    with r show ?thesis by (simp add: i_advance_def len_delimited_def add.commute)
  qed
  have "i_callback ?s = i_callback (i_advance s (length ?d))" "i_bytes_left ?s = i_bytes_left (i_advance s (length ?d))"
    "i_state ?s = i_state (i_advance s (length ?d))"
    using mk(4,5) st assms(1) by (simp_all add: i_advance_def mem_istream_def)
  then have "mem_istream ?s = mem_istream (i_advance s (length ?d))" "avail ?s = avail (i_advance s (length ?d))"
    by (simp_all only: mem_istream_def avail_def)
  then have "mem_istream ?s" "avail ?s = rest"
    using assms(1,2) full by simp_all
  with mk(1,3) close show ?thesis by blast
qed

theorem substream_roundtrip_witness:
  "\<exists>sub s' s''. pb_make_string_substream no_reader (reading [2, 7, 8, 9]) = Some (Some sub, s') \<and>
     avail sub = [7, 8] \<and> pb_close_string_substream no_reader (i_advance sub 1) s' = Some (True, s'') \<and> avail s'' = [9]"
proof -
  let ?s = "reading [2, 7, 8, 9] :: unit istream"
  have "[2, 7, 8] = len_delimited [7, 8]" by code_simp
  then have s: "mem_istream ?s" "avail ?s = len_delimited [7, 8] @ [9]"
    using mem_istream_from_buffer [of "[2, 7, 8, 9]"] by (simp_all flip: \<open>[2, 7, 8] = len_delimited [7, 8]\<close>)
  have "length [7, 8 :: u8] < 2 ^ 32" "1 \<le> length [7, 8 :: u8]" by simp_all
  from substream_roundtrip [OF s this, of no_reader] show ?thesis by blast
qed

section \<open>No read passes the end of a stream\<close>

lemma read_chunk_fail_bytes_left:
  "read_chunk env null count s = Some (False, bs, s') \<Longrightarrow> i_bytes_left s' = i_bytes_left s"
  by (auto simp: read_chunk_def i_set_error_def split: if_splits option.splits bool.splits
      dest!: call_istream_bytes_left)

lemma skip_chunks_bytes_left:
  "skip_chunks env count s = Some (ok, s') \<Longrightarrow>
     (if ok then unat (i_bytes_left s') + unat count = unat (i_bytes_left s)
      else unat (i_bytes_left s') \<le> unat (i_bytes_left s))"
proof (induction env count s arbitrary: ok s' rule: skip_chunks.induct)
  case (1 env count s)
  show ?case
  proof (cases "16 < count")
    case True
    then obtain r bs t where t: "read_chunk env False 16 s = Some (r, bs, t)"
      using "1.prems" by (subst (asm) skip_chunks.simps) (auto split: option.splits)
    show ?thesis
    proof (cases r)
      case True': True
      then have r: "r = True" by simp
      note c = read_chunk_bytes_left [OF t [unfolded r]]
      have "skip_chunks env (count - 16) t = Some (ok, s')"
        using "1.prems" True t r by (subst (asm) skip_chunks.simps) simp
      then have "if ok then unat (i_bytes_left s') + unat (count - 16) = unat (i_bytes_left t)
          else unat (i_bytes_left s') \<le> unat (i_bytes_left t)"
        by (rule "1.IH" [OF True t [unfolded r] refl refl, rotated -1]) simp_all
      moreover have "unat (count - 16) = unat count - 16" "16 < unat count" "16 \<le> unat (i_bytes_left s)"
        using True c(1) by (simp_all add: unat_sub_if' word_less_nat_alt word_le_nat_alt)
      ultimately show ?thesis
        using c(3) by (auto split: if_splits)
    next
      case False
      then have "ok = False" "i_bytes_left s' = i_bytes_left s"
        using "1.prems" True t read_chunk_fail_bytes_left [of env False 16 s bs t]
        by (subst (asm) skip_chunks.simps; simp)+
      then show ?thesis by simp
    qed
  next
    case False
    then obtain bs where "read_chunk env False count s = Some (ok, bs, s')"
      using "1.prems" by (subst (asm) skip_chunks.simps) (auto split: option.splits)
    then show ?thesis
      using read_chunk_bytes_left [of env False count s bs s'] read_chunk_fail_bytes_left [of env False count s bs s']
      by (cases ok) (auto simp: word_le_nat_alt)
  qed
qed

text \<open>C14. On every kind of stream, custom callbacks and skipping included: a \<open>pb_read\<close> that
  returns true has taken exactly \<open>count\<close> of the bytes that were left and filled the buffer; one
  that returns false has not increased what is left.\<close>

theorem pb_read_accounts:
  assumes "pb_read env null count s = Some (ok, bs, s')"
  shows "(ok \<longrightarrow> count \<le> i_bytes_left s \<and> i_bytes_left s' = i_bytes_left s - count \<and>
       (\<not> null \<longrightarrow> length bs = unat count)) \<and> (\<not> ok \<longrightarrow> i_bytes_left s' \<le> i_bytes_left s)"
proof -
  show "(ok \<longrightarrow> count \<le> i_bytes_left s \<and> i_bytes_left s' = i_bytes_left s - count \<and>
       (\<not> null \<longrightarrow> length bs = unat count)) \<and> (\<not> ok \<longrightarrow> i_bytes_left s' \<le> i_bytes_left s)"
  proof (cases "null \<and> i_callback s \<noteq> IBufRead")
    case True
    then have "skip_chunks env count s = Some (ok, s')"
      using assms by (auto simp: pb_read_def)
    from skip_chunks_bytes_left [OF this] True show ?thesis
      by (auto simp: word_le_nat_alt word_unat_eq_iff unat_sub_if' split: if_splits)
  next
    case False
    then have r: "read_chunk env null count s = Some (ok, bs, s')"
      using assms False by (simp only: pb_read_def if_False)
    have "length bs = unat count" if "ok" "\<not> null"
      using r that by (auto simp: read_chunk_def split: if_splits option.splits bool.splits
          dest!: call_istream_length)
    with r show ?thesis
      using read_chunk_bytes_left [of env null count s bs s'] read_chunk_fail_bytes_left [of env null count s bs s']
      by (cases ok) auto
  qed
qed

text \<open>A custom stream that hands out the numbers from its state on.\<close>

definition counting_stream :: "u64 \<Rightarrow> u8 istream" where
  "counting_stream n = \<lparr>i_callback = IUser, i_state = IUserState 1, i_bytes_left = n, i_errmsg = None\<rparr>"

definition counting_env :: "u8 ienv" where
  "counting_env = \<lparr>ie_read = \<lambda>u n. (True, map (\<lambda>i. u + of_nat i) [0..<n], u + of_nat n)\<rparr>"

theorem pb_read_accounts_witness:
  "\<exists>bs s'. pb_read counting_env True 20 (counting_stream 50) = Some (True, bs, s') \<and>
     i_state s' = IUserState 21 \<and> i_bytes_left s' = 30"
proof -
  have "map_option fst (pb_read counting_env True 20 (counting_stream 50)) = Some True"
    "map_option (\<lambda>(_, _, s). i_state s) (pb_read counting_env True 20 (counting_stream 50)) = Some (IUserState 21)"
    by code_simp+
  then obtain bs s' where r: "pb_read counting_env True 20 (counting_stream 50) = Some (True, bs, s')"
    "i_state s' = IUserState 21" by auto
  from pb_read_accounts [OF r(1)] r show ?thesis
    by (simp add: counting_stream_def)
qed

end
