(* ===== verification/Layout.thy ===== *)
theory Layout
  imports FieldIter
begin

text \<open>
  Descriptor tables and the structs they describe. A \<open>row\<close> holds the arguments of one
  descriptor macro of the generated code; \<open>table_of\<close> is the table a list of rows expands to.
  For a struct laid out as a C compiler does it, the iterator, which only adds up differences,
  stands on every member of the struct in turn.
\<close>

datatype row_kind = Plain pb_rules pb_allocation | FixedCount | Oneof pb_allocation

record row =
  r_tag :: u32
  r_type :: pb_proto_type
  r_kind :: row_kind
  r_place :: pb_placement
  r_member :: c_member
  r_aux :: c_member
  r_ptr :: addr

definition row_field :: "row \<Rightarrow> c_member \<Rightarrow> pb_field" where
  "row_field r prev = (case r_kind r of
     Plain rules alloc \<Rightarrow>
       PB_FIELD (r_tag r) (r_type r) rules alloc (r_place r) (r_member r) (r_aux r) prev (r_ptr r)
   | FixedCount \<Rightarrow> PB_REPEATED_FIXED_COUNT (r_tag r) (r_member r)
       (PB_DATAOFFSET (r_place r) (r_member r) prev) (PB_LTYPE_MAP (r_type r)) (r_ptr r)
   | Oneof alloc \<Rightarrow>
       PB_ONEOF_FIELD (r_tag r) (r_type r) alloc (r_place r) (r_member r) (r_aux r) prev (r_ptr r))"

fun table_from :: "c_member \<Rightarrow> row list \<Rightarrow> pb_field list" where
  "table_from prev [] = []"
| "table_from prev (r # rs) = row_field r prev # table_from (r_member r) rs"

definition table_of :: "row list \<Rightarrow> pb_field list" where
  "table_of rs = (case rs of [] \<Rightarrow> [] | r # _ \<Rightarrow> table_from (r_member r) rs)"

text \<open>
  What the C compiler guarantees of a struct's members, and the generator of the rows: sizes
  of arrays are multiples of the size of an element, pointers have 8 bytes, members do not
  overlap except inside a union, and everything lies in the first 2^31 bytes.
\<close>

definition row_ok :: "row \<Rightarrow> bool" where
  "row_ok r \<longleftrightarrow>
     r_tag r \<noteq> 0 \<and>
     cm_offset (r_member r) + cm_size (r_member r) < 2 ^ 31 \<and>
     cm_offset (r_aux r) < 2 ^ 31 \<and>
     (case r_kind r of
        Plain rules alloc \<Rightarrow> rules \<noteq> OPTEXT \<and> (alloc = POINTER \<longrightarrow> cm_size (r_member r) = 8) \<and>
          (rules = REPEATED \<and> alloc = STATIC \<longrightarrow> cm_elem (r_member r) dvd cm_size (r_member r))
      | FixedCount \<Rightarrow> cm_elem (r_member r) dvd cm_size (r_member r)
      | Oneof alloc \<Rightarrow> alloc \<noteq> CALLBACK \<and> (alloc = POINTER \<longrightarrow> cm_size (r_member r) = 8))"

definition is_oneof :: "row \<Rightarrow> bool" where
  "is_oneof r \<longleftrightarrow> (\<exists>alloc. r_kind r = Oneof alloc)"

definition follows :: "row \<Rightarrow> row \<Rightarrow> bool" where
  "follows p r \<longleftrightarrow>
     (r_place r = OTHER \<and> cm_offset (r_member p) + cm_size (r_member p) \<le> cm_offset (r_member r)) \<or>
     (r_place r = UNION \<and> is_oneof p \<and> is_oneof r \<and>
      cm_offset (r_member r) = cm_offset (r_member p) \<and> cm_offset (r_aux r) = cm_offset (r_aux p))"

fun rows_follow :: "row \<Rightarrow> row list \<Rightarrow> bool" where
  "rows_follow p [] = True"
| "rows_follow p (r # rs) = (row_ok r \<and> follows p r \<and> rows_follow r rs)"

definition struct_ok :: "row list \<Rightarrow> bool" where
  "struct_ok rs = (case rs of [] \<Rightarrow> True
     | r # rs' \<Rightarrow> row_ok r \<and> r_place r = FIRST \<and> rows_follow r rs')"

text \<open>Whether the row has a has-flag, count or which-member of its own in the struct.\<close>

definition has_aux :: "row \<Rightarrow> bool" where
  "has_aux r \<longleftrightarrow> (case r_kind r of
     Plain rules alloc \<Rightarrow> (rules = OPTIONAL \<and> alloc = STATIC) \<or> (rules = REPEATED \<and> alloc \<noteq> CALLBACK)
   | FixedCount \<Rightarrow> False
   | Oneof _ \<Rightarrow> True)"

section \<open>Rows and the fields they expand to\<close>

lemmas row_defs = row_field_def PB_FIELD_def PB_ONEOF_FIELD_def macro_defs

lemma row_field_tag [simp]: "f_tag (row_field r prev) = r_tag r"
  by (simp add: row_defs Let_def split: row_kind.split pb_rules.split pb_allocation.split)

lemma row_field_offset:
  "row_ok r \<Longrightarrow> f_data_offset (row_field r prev) = PB_DATAOFFSET (r_place r) (r_member r) prev"
  by (auto simp: row_ok_def row_defs Let_def split: row_kind.split pb_rules.split pb_allocation.split)

lemma row_field_oneof: "htype (row_field r prev) = PB_HTYPE_ONEOF \<longleftrightarrow> is_oneof r"
  by (auto simp: is_oneof_def row_defs Let_def split: row_kind.split pb_rules.split pb_allocation.split)

lemma uint_of_nat31: "n < 2 ^ 31 \<Longrightarrow> uint (of_nat n :: u32) = int n"
  by (simp add: uint_nat unsigned_of_nat take_bit_nat_eq_self)

lemma uint_of_int31: "0 \<le> i \<Longrightarrow> i < 2 ^ 31 \<Longrightarrow> uint (word_of_int i :: u32) = i"
  by (simp add: uint_word_of_int_eq take_bit_int_eq_self)

lemma sint_delta31:
  assumes "a < 2 ^ 31" "b < 2 ^ 31"
  shows "sint (word_of_int (int a - int b) :: u32) = int a - int b"
proof -
  have "sint (word_of_int (int a - int b) :: u32) = signed_take_bit 31 (int a - int b)"
    by (simp add: sint_sbintrunc' signed_take_bit_int_eq_self del: of_int_diff of_int_of_nat_eq)
  also have "\<dots> = int a - int b"
    by (rule signed_take_bit_int_eq_self) (use assms in auto)
  finally show ?thesis .
qed

lemma row_field_size:
  assumes "row_ok r"
  shows "prev_data_size (row_field r prev) = int (cm_size (r_member r))"
proof -
  have sz: "cm_size (r_member r) < 2 ^ 31" using assms by (simp add: row_ok_def)
  have mem: "uint (pb_membersize (r_member r)) = int (cm_size (r_member r))"
    using uint_of_nat31 [OF sz] by (simp add: pb_membersize_def)
  have arr: "uint (of_nat (cm_elem (r_member r)) :: u32) * uint (pb_arraysize (r_member r)) =
      int (cm_size (r_member r))" if "cm_elem (r_member r) dvd cm_size (r_member r)"
  proof (cases "cm_size (r_member r) = 0")
    case True
    then show ?thesis by (simp add: pb_arraysize_def)
  next
    case False
    then have "cm_elem (r_member r) \<le> cm_size (r_member r)"
      using that by (auto intro: dvd_imp_le)
    then have "cm_elem (r_member r) < 2 ^ 31" "cm_size (r_member r) div cm_elem (r_member r) < 2 ^ 31"
      using sz div_le_dividend [of "cm_size (r_member r)" "cm_elem (r_member r)"] by linarith+
    note u = this [THEN uint_of_nat31]
    show ?thesis
      unfolding pb_arraysize_def u of_nat_mult [symmetric] using that by simp
  qed
  show ?thesis
  proof (cases "r_kind r")
    case (Plain rules alloc)
    then show ?thesis
      using assms arr mem
      by (cases rules; cases alloc)
        (simp_all add: row_ok_def row_field_def PB_FIELD_def prev_data_size_def PB_REQUIRED_STATIC_def
          PB_OPTIONAL_STATIC_def PB_SINGULAR_STATIC_def PB_REPEATED_STATIC_def
          PB_REQUIRED_POINTER_def PB_OPTIONAL_POINTER_def PB_REPEATED_POINTER_def PB_CALLBACK_def)
  next
    case FixedCount
    then show ?thesis
      using assms arr
      by (simp add: row_ok_def row_field_def PB_REPEATED_FIXED_COUNT_def prev_data_size_def)
  next
    case (Oneof alloc)
    then show ?thesis
      using assms mem
      by (cases alloc) (simp_all add: row_ok_def row_field_def PB_ONEOF_FIELD_def PB_ONEOF_STATIC_def
          PB_ONEOF_POINTER_def prev_data_size_def)
  qed
qed

lemma row_field_aux:
  assumes "row_ok r" "has_aux r"
  shows "int (cm_offset (r_member r)) + sint (f_size_offset (row_field r prev)) = int (cm_offset (r_aux r))"
proof -
  have "f_size_offset (row_field r prev) = pb_delta (r_aux r) (r_member r)"
    using assms(2)
    by (auto simp: has_aux_def row_field_def PB_FIELD_def PB_ONEOF_FIELD_def Let_def PB_OPTIONAL_STATIC_def
        PB_REPEATED_STATIC_def PB_REPEATED_POINTER_def PB_ONEOF_STATIC_def PB_ONEOF_POINTER_def
        split: row_kind.splits pb_rules.splits pb_allocation.splits)
  moreover have "sint (pb_delta (r_aux r) (r_member r)) =
      int (cm_offset (r_aux r)) - int (cm_offset (r_member r))"
    unfolding pb_delta_def by (rule sint_delta31) (use assms(1) in \<open>auto simp: row_ok_def\<close>)
  ultimately show ?thesis by simp
qed

section \<open>The table of a struct\<close>

lemma length_table_from [simp]: "length (table_from prev rs) = length rs"
  by (induction rs arbitrary: prev) simp_all

lemma length_table_of [simp]: "length (table_of rs) = length rs"
  by (simp add: table_of_def split: list.split)

lemma table_from_nth:
  "i < length rs \<Longrightarrow> table_from prev rs ! i =
     row_field (rs ! i) (if i = 0 then prev else r_member (rs ! (i - 1)))"
  by (induction rs arbitrary: prev i) (auto simp: nth_Cons split: nat.split)

lemma table_of_nth:
  "i < length rs \<Longrightarrow> table_of rs ! i = row_field (rs ! i) (r_member (rs ! (i - 1)))"
  by (cases rs) (simp_all add: table_of_def table_from_nth del: table_from.simps)

lemma rows_follow_nth:
  "rows_follow p rs \<Longrightarrow> i < length rs \<Longrightarrow>
     row_ok (rs ! i) \<and> follows (if i = 0 then p else rs ! (i - 1)) (rs ! i)"
proof (induction rs arbitrary: p i)
  case (Cons r rs)
  show ?case
  proof (cases i)
    case 0
    then show ?thesis using Cons.prems by simp
  next
    case (Suc j)
    then show ?thesis using Cons.prems Cons.IH [of r j] by (cases j) simp_all
  qed
qed simp

lemma struct_ok_nth:
  assumes "struct_ok rs" "i < length rs"
  shows "row_ok (rs ! i)" "i = 0 \<Longrightarrow> r_place (rs ! i) = FIRST" "0 < i \<Longrightarrow> follows (rs ! (i - 1)) (rs ! i)"
proof -
  obtain r rs' where rs: "rs = r # rs'" "row_ok r" "r_place r = FIRST" "rows_follow r rs'"
    using assms by (cases rs) (auto simp: struct_ok_def)
  show "row_ok (rs ! i)"
    using rs rows_follow_nth [OF rs(4), of "i - 1"] assms(2) by (cases i) simp_all
  show "r_place (rs ! i) = FIRST" if "i = 0"
    using rs that by simp
  show "follows (rs ! (i - 1)) (rs ! i)" if "0 < i"
    using rs rows_follow_nth [OF rs(4), of "i - 1"] assms(2) that
    by (cases i; cases "i - 1") (simp_all split: if_splits)
qed

lemma fields_ok_table:
  assumes "struct_ok rs"
  shows "fields_ok (table_of rs)"
proof -
  have "f_tag (table_of rs ! i) \<noteq> 0" if "i < length rs" for i
    using struct_ok_nth(1) [OF assms that] that by (simp add: table_of_nth row_ok_def)
  then show ?thesis
    by (auto simp: fields_ok_def in_set_conv_nth)
qed

lemma follows_offset:
  assumes "row_ok p" "row_ok r" "follows p r"
  shows "inside_union (row_field p pp) (row_field r (r_member p)) \<longleftrightarrow> r_place r = UNION"
    and "r_place r \<noteq> UNION \<Longrightarrow> uint (f_data_offset (row_field r (r_member p))) =
       int (cm_offset (r_member r)) - int (cm_offset (r_member p)) - int (cm_size (r_member p))"
proof -
  have fo: "f_data_offset (row_field r (r_member p)) = PB_DATAOFFSET (r_place r) (r_member r) (r_member p)"
    using assms(2) by (rule row_field_offset)
  have other: "uint (f_data_offset (row_field r (r_member p))) =
       int (cm_offset (r_member r)) - int (cm_offset (r_member p)) - int (cm_size (r_member p))"
    if "r_place r = OTHER"
  proof -
    have "uint (word_of_int (int (cm_offset (r_member r)) - int (cm_offset (r_member p)) - int (cm_size (r_member p))) :: u32)
        = int (cm_offset (r_member r)) - int (cm_offset (r_member p)) - int (cm_size (r_member p))"
      by (rule uint_of_int31) (use assms that in \<open>auto simp: follows_def row_ok_def\<close>)
    with that fo show ?thesis by (simp add: PB_DATAOFFSET_OTHER_def)
  qed
  then show "r_place r \<noteq> UNION \<Longrightarrow> uint (f_data_offset (row_field r (r_member p))) =
       int (cm_offset (r_member r)) - int (cm_offset (r_member p)) - int (cm_size (r_member p))"
    using assms(3) by (auto simp: follows_def)
  show "inside_union (row_field p pp) (row_field r (r_member p)) \<longleftrightarrow> r_place r = UNION"
  proof (cases "r_place r = UNION")
    case True
    with assms(3) fo show ?thesis
      by (auto simp: inside_union_def row_field_oneof follows_def PB_DATAOFFSET_UNION_def)
  next
    case False
    with assms(3) have "r_place r = OTHER" by (auto simp: follows_def)
    then have "uint (f_data_offset (row_field r (r_member p))) < 2 ^ 31"
      using other assms(2) by (simp add: row_ok_def)
    moreover have "uint PB_SIZE_MAX = 2 ^ 32 - 1"
      by (simp add: PB_SIZE_MAX_def unsigned_minus_1_eq_mask mask_eq_exp_minus_1)
    ultimately have "f_data_offset (row_field r (r_member p)) \<noteq> PB_SIZE_MAX"
      by auto
    with False show ?thesis by (simp add: inside_union_def)
  qed
qed

lemma table_offset:
  assumes "struct_ok rs" "i < length rs"
  shows "field_offset (table_of rs) i = int (cm_offset (r_member (rs ! i))) \<and>
    (has_aux (rs ! i) \<longrightarrow> size_field_offset (table_of rs) i = int (cm_offset (r_aux (rs ! i))))"
  using assms(2)
proof (induction i)
  case 0
  note ok = struct_ok_nth [OF assms(1) 0]
  have off: "uint (f_data_offset (table_of rs ! 0)) = int (cm_offset (r_member (rs ! 0)))"
    using ok uint_of_nat31 [of "cm_offset (r_member (rs ! 0))"] 0
    by (simp add: table_of_nth row_field_offset PB_DATAOFFSET_FIRST_def row_ok_def)
  with 0 row_field_aux [OF ok(1)] show ?case
    by (auto simp: table_of_nth)
next
  case (Suc i)
  let ?p = "rs ! i" and ?r = "rs ! Suc i"
  have i: "i < length rs" using Suc by simp
  have ok: "row_ok ?p" "row_ok ?r" and fol: "follows ?p ?r"
    using struct_ok_nth [OF assms(1) i] struct_ok_nth [OF assms(1) Suc.prems] by simp_all
  note IH = Suc.IH [OF i]
  have fields: "field_at (table_of rs) i = row_field ?p (r_member (rs ! (i - 1)))"
    "field_at (table_of rs) (Suc i) = row_field ?r (r_member ?p)"
    using i Suc.prems by (simp_all add: table_of_nth)
  show ?case
  proof (cases "r_place ?r = UNION")
    case True
    then have "has_aux ?p" "cm_offset (r_member ?r) = cm_offset (r_member ?p)"
      "cm_offset (r_aux ?r) = cm_offset (r_aux ?p)"
      using fol by (auto simp: follows_def is_oneof_def has_aux_def)
    with IH follows_offset(1) [OF ok fol] True fields show ?thesis
      by simp
  next
    case False
    then have "field_offset (table_of rs) (Suc i) = int (cm_offset (r_member ?r))"
      using IH follows_offset [OF ok fol] row_field_size [OF ok(1)] fields by simp
    with False follows_offset(1) [OF ok fol] row_field_aux [OF ok(2)] fields show ?thesis
      by auto
  qed
qed

lemma iterate_iter:
  assumes "fields_ok fs" "i < length fs"
  shows "((\<lambda>it. snd (pb_field_iter_next it)) ^^ i) (snd (pb_field_iter_begin fs d)) = iter_at fs d i"
  using assms(2)
proof (induction i)
  case (Suc i)
  then show ?case
    using assms(1) by (simp add: iter_next)
qed (simp add: iter_begin)

section \<open>The promises\<close>

text \<open>
  An example: \<open>struct { uint32_t id; pb_size_t which_u; union { uint32_t a; double b; } u; bool has_t;
  char t[7]; }\<close>.
\<close>

definition oneof_rows :: "row list" where
  "oneof_rows =
    [\<lparr>r_tag = 1, r_type = UINT32, r_kind = Plain REQUIRED STATIC, r_place = FIRST,
      r_member = \<lparr>cm_offset = 0, cm_size = 4, cm_elem = 1\<rparr>,
      r_aux = \<lparr>cm_offset = 0, cm_size = 4, cm_elem = 1\<rparr>, r_ptr = 0\<rparr>,
     \<lparr>r_tag = 2, r_type = UINT32, r_kind = Oneof STATIC, r_place = OTHER,
      r_member = \<lparr>cm_offset = 8, cm_size = 4, cm_elem = 1\<rparr>,
      r_aux = \<lparr>cm_offset = 4, cm_size = 4, cm_elem = 1\<rparr>, r_ptr = 0\<rparr>,
     \<lparr>r_tag = 3, r_type = DOUBLE, r_kind = Oneof STATIC, r_place = UNION,
      r_member = \<lparr>cm_offset = 8, cm_size = 8, cm_elem = 1\<rparr>,
      r_aux = \<lparr>cm_offset = 4, cm_size = 4, cm_elem = 1\<rparr>, r_ptr = 0\<rparr>,
     \<lparr>r_tag = 4, r_type = STRING, r_kind = Plain OPTIONAL STATIC, r_place = OTHER,
      r_member = \<lparr>cm_offset = 17, cm_size = 7, cm_elem = 1\<rparr>,
      r_aux = \<lparr>cm_offset = 16, cm_size = 1, cm_elem = 1\<rparr>, r_ptr = 0\<rparr>]"

lemma oneof_rows_ok: "struct_ok oneof_rows"
  by (simp add: oneof_rows_def struct_ok_def row_ok_def follows_def is_oneof_def)

text \<open>C5. For the table the descriptor macros make of a struct, \<open>pb_field_iter_begin\<close> followed by
  \<open>i\<close> calls of \<open>pb_field_iter_next\<close> stands on the \<open>i\<close>-th member: the tag is the member's, \<open>pData\<close> is
  its address, and \<open>pSize\<close> the address of its has-flag, count or which-member, unions included.\<close>

theorem iter_visits_members:
  assumes "struct_ok rs" and "i < length rs"
  shows "\<exists>it. ((\<lambda>it. snd (pb_field_iter_next it)) ^^ i) (snd (pb_field_iter_begin (table_of rs) d)) = it \<and>
     f_tag (it_field it) = r_tag (rs ! i) \<and>
     it_pData it = d + int (cm_offset (r_member (rs ! i))) \<and>
     (has_aux (rs ! i) \<longrightarrow> it_pSize it = AtAddr (d + int (cm_offset (r_aux (rs ! i)))))"
  using iterate_iter [OF fields_ok_table [OF assms(1)], of i d] table_offset [OF assms] assms(2)
  by (simp add: table_of_nth)

theorem iter_visits_members_witness:
  "\<exists>it. ((\<lambda>it. snd (pb_field_iter_next it)) ^^ 3) (snd (pb_field_iter_begin (table_of oneof_rows) 4096)) = it \<and>
     f_tag (it_field it) = 4 \<and> it_pData it = 4113 \<and> it_pSize it = AtAddr 4112"
  using iter_visits_members [OF oneof_rows_ok, of 3 4096] by (simp add: oneof_rows_def has_aux_def)

text \<open>C6. \<open>pb_field_iter_find\<close>, started on any field, returns: true standing on a field with the
  tag that is not the extension range, or false standing where it started, and then the
  message has no such field.\<close>

theorem pb_field_iter_find_correct:
  assumes "fields_ok fs" and "i < length fs"
  shows "(\<exists>j < length fs. pb_field_iter_find (iter_at fs d i) tag = Some (True, iter_at fs d j) \<and>
            f_tag (fs ! j) = tag \<and> ltype (fs ! j) \<noteq> PB_LTYPE_EXTENSION) \<or>
     (pb_field_iter_find (iter_at fs d i) tag = Some (False, iter_at fs d i) \<and>
        (\<forall>f \<in> set fs. f_tag f = tag \<longrightarrow> ltype f = PB_LTYPE_EXTENSION))"
  using pb_field_iter_find_result [OF assms, of d tag]
  by (auto simp: find_result_def in_set_conv_nth)

theorem pb_field_iter_find_correct_witness:
  "\<exists>j < 4. pb_field_iter_find (iter_at (table_of oneof_rows) 4096 2) 1 =
     Some (True, iter_at (table_of oneof_rows) 4096 j) \<and> f_tag (table_of oneof_rows ! j) = 1"
proof -
  have "table_of oneof_rows ! 0 \<in> set (table_of oneof_rows)"
    by (rule nth_mem) (simp add: oneof_rows_def)
  moreover have "f_tag (table_of oneof_rows ! 0) = 1" "ltype (table_of oneof_rows ! 0) \<noteq> PB_LTYPE_EXTENSION"
    by code_simp+
  moreover have "length (table_of oneof_rows) = 4"
    by (simp add: oneof_rows_def)
  ultimately show ?thesis
    using pb_field_iter_find_correct [OF fields_ok_table [OF oneof_rows_ok], of 2 4096 1]
    by (metis numeral_less_iff semiring_norm(76,78))
qed

end
