(* ===== verification/Heap.thy ===== *)
theory Heap
  imports FieldIter
begin

text \<open>
  The state a message is decoded into: the memory, and the blocks \<open>pb_realloc\<close> has handed out.
  The allocator is not part of the repository (\<open>realloc\<close> and \<open>free\<close> by default): which address
  it chooses, or 0 when it is out of memory, is the parameter \<open>choose\<close>; what a new block holds
  before it is written is the parameter \<open>junk\<close>. What C says of them is written out: a block
  keeps the old contents up to the smaller size, and an address that is not a live block may
  not be resized or freed.
\<close>

record world =
  w_mem :: mem
  w_heap :: "addr \<Rightarrow> nat option"

record allocator =
  a_choose :: "world \<Rightarrow> addr \<Rightarrow> u64 \<Rightarrow> addr"
  a_junk :: "addr \<Rightarrow> u8"

section \<open>Mapping and unmapping\<close>

definition unmap :: "mem \<Rightarrow> addr \<Rightarrow> nat \<Rightarrow> mem" where
  "unmap m a n = (\<lambda>p. if a \<le> p \<and> p < a + int n then None else m p)"

definition map_block :: "mem \<Rightarrow> addr \<Rightarrow> nat \<Rightarrow> (addr \<Rightarrow> u8) \<Rightarrow> mem" where
  "map_block m a n v = (\<lambda>p. if a \<le> p \<and> p < a + int n then Some (v p) else m p)"

definition pb_free :: "addr \<Rightarrow> world \<Rightarrow> world option" where
  "pb_free p w =
     (if p = NULL then Some w
      else case w_heap w p of
          None \<Rightarrow> None
        | Some n \<Rightarrow> Some (w\<lparr>w_mem := unmap (w_mem w) p n, w_heap := (w_heap w)(p := None)\<rparr>))"

text \<open>The new address, 0 on failure, with the world it leaves.\<close>

definition pb_realloc :: "allocator \<Rightarrow> addr \<Rightarrow> u64 \<Rightarrow> world \<Rightarrow> (addr \<times> world) option" where
  "pb_realloc al p n w =
     (if p \<noteq> NULL \<and> w_heap w p = None then None
      else
       (let q = a_choose al w p n;
            old = (if p = NULL then 0 else the (w_heap w p));
            keep = min old (unat n);
            m = map_block (unmap (w_mem w) p old) q (unat n)
                  (\<lambda>a. if a < q + int keep
                       then (case w_mem w (p + (a - q)) of Some b \<Rightarrow> b | None \<Rightarrow> a_junk al a)
                       else a_junk al a)
        in if q = NULL then Some (NULL, w)
           else Some (q, w\<lparr>w_mem := m, w_heap := (w_heap w)(p := None, q := Some (unat n))\<rparr>)))"

section \<open>Stores\<close>

definition w_store :: "addr \<Rightarrow> u8 list \<Rightarrow> world \<Rightarrow> world option" where
  "w_store a bs w = map_option (\<lambda>m. w\<lparr>w_mem := m\<rparr>) (store_bytes (w_mem w) a bs)"

definition w_store_u32 :: "addr \<Rightarrow> u32 \<Rightarrow> world \<Rightarrow> world option" where
  "w_store_u32 a v = w_store a (bytes_of_word 4 v)"

definition w_store_ptr :: "addr \<Rightarrow> addr \<Rightarrow> world \<Rightarrow> world option" where
  "w_store_ptr a p = w_store a (bytes_of_word 8 (word_of_int p :: u64))"

definition w_store_bool :: "addr \<Rightarrow> bool \<Rightarrow> world \<Rightarrow> world option" where
  "w_store_bool a b = w_store a [if b then 1 else 0]"

definition w_memset0 :: "addr \<Rightarrow> nat \<Rightarrow> world \<Rightarrow> world option" where
  "w_memset0 a n = w_store a (replicate n 0)"

definition w_memcpy :: "addr \<Rightarrow> addr \<Rightarrow> nat \<Rightarrow> world \<Rightarrow> world option" where
  "w_memcpy a src n w = Option.bind (load_bytes (w_mem w) src n) (\<lambda>bs. w_store a bs w)"

section \<open>Loops over a message for their effect\<close>

text \<open>\<open>do body while (pb_field_iter_next(&iter))\<close> where \<open>body\<close> returns nothing.\<close>

definition iter_do :: "(pb_field_iter \<Rightarrow> world \<Rightarrow> world option) \<Rightarrow> pb_field_iter \<Rightarrow> world \<Rightarrow> world option" where
  "iter_do body it w = map_option snd (iter_loop (\<lambda>it w. map_option (Pair True) (body it w)) it w)"

section \<open>Extensions\<close>

text \<open>
  What decoding and releasing are given: the descriptor tables by address and the allocator.
  A field iterator for an extension: \<open>extension->type->arg\<close> is a descriptor table of one field.
\<close>

record tables =
  t_fields :: "addr \<Rightarrow> pb_field list option"
  t_alloc :: allocator

definition iter_from_extension :: "tables \<Rightarrow> mem \<Rightarrow> addr \<Rightarrow> pb_field_iter option" where
  "iter_from_extension tb m extension =
     Option.bind (ext_type m extension) (\<lambda>t.
     Option.bind (exttype_arg m t) (\<lambda>arg.
     Option.bind (t_fields tb arg) (\<lambda>flds.
     Option.bind (load_ptr m (ext_dest extension)) (\<lambda>dest.
       (let iter = snd (pb_field_iter_begin flds dest) in
        Some (iter\<lparr>it_pData := (if atype (field_at flds 0) = PB_ATYPE_POINTER
                                then ext_dest extension else dest),
                   it_pSize := AtAddr (ext_found extension)\<rparr>))))))"

section \<open>Default values\<close>

text \<open>
  \<open>pb_field_set_to_default\<close> and \<open>pb_message_set_to_defaults\<close> call each other; the fuel bounds
  the nesting of messages and extensions. \<open>each_extension\<close> is the loop over a chain of
  extensions, at most \<open>k\<close> of them.
\<close>

primrec each_extension :: "(addr \<Rightarrow> world \<Rightarrow> world option) \<Rightarrow> nat \<Rightarrow> addr \<Rightarrow> world \<Rightarrow> world option" where
  "each_extension body 0 ext w = (if ext = NULL then Some w else None)"
| "each_extension body (Suc k) ext w =
     (if ext = NULL then Some w
      else Option.bind (body ext w) (\<lambda>w.
           Option.bind (ext_next (w_mem w) ext) (\<lambda>next. each_extension body k next w)))"

definition message_defaults ::
    "(pb_field_iter \<Rightarrow> world \<Rightarrow> world option) \<Rightarrow> pb_field list \<Rightarrow> addr \<Rightarrow> world \<Rightarrow> world option" where
  "message_defaults set_field flds dest w =
     (case pb_field_iter_begin flds dest of (nonempty, iter) \<Rightarrow>
        if nonempty then iter_do set_field iter w else Some w)"

definition iter_store_size :: "pb_field_iter \<Rightarrow> u32 \<Rightarrow> world \<Rightarrow> world option" where
  "iter_store_size it v w = (case it_pSize it of AtAddr a \<Rightarrow> w_store_u32 a v w | FixedCountSize \<Rightarrow> None)"

definition iter_store_has :: "pb_field_iter \<Rightarrow> bool \<Rightarrow> world \<Rightarrow> world option" where
  "iter_store_has it b w = (case it_pSize it of AtAddr a \<Rightarrow> w_store_bool a b w | FixedCountSize \<Rightarrow> None)"

primrec pb_field_set_to_default :: "nat \<Rightarrow> tables \<Rightarrow> pb_field_iter \<Rightarrow> world \<Rightarrow> world option" where
  "pb_field_set_to_default 0 tb iter w = None"
| "pb_field_set_to_default (Suc n) tb iter w =
     (let f = it_field iter in
      if ltype f = PB_LTYPE_EXTENSION then
        Option.bind (load_ptr (w_mem w) (it_pData iter)) (\<lambda>ext.
          each_extension (\<lambda>ext w.
            Option.bind (w_store_bool (ext_found ext) False w) (\<lambda>w.
            Option.bind (iter_from_extension tb (w_mem w) ext) (\<lambda>ext_iter.
              pb_field_set_to_default n tb ext_iter w))) n ext w)
      else if atype f = PB_ATYPE_STATIC then
        Option.bind
          (if htype f = PB_HTYPE_OPTIONAL \<and> it_pSize iter \<noteq> AtAddr (it_pData iter)
           then iter_store_has iter False w
           else if htype f = PB_HTYPE_REPEATED \<or> htype f = PB_HTYPE_ONEOF
           then iter_store_size iter 0 w
           else Some w)
          (\<lambda>w.
           if htype f = PB_HTYPE_REPEATED \<or> htype f = PB_HTYPE_ONEOF then Some w
           else if ltype f = PB_LTYPE_SUBMESSAGE
           then Option.bind (t_fields tb (f_ptr f)) (\<lambda>flds.
                  message_defaults (pb_field_set_to_default n tb) flds (it_pData iter) w)
           else if f_ptr f \<noteq> NULL
           then w_memcpy (it_pData iter) (f_ptr f) (unat (f_data_size f)) w
           else w_memset0 (it_pData iter) (unat (f_data_size f)) w)
      else if atype f = PB_ATYPE_POINTER then
        Option.bind (w_store_ptr (it_pData iter) NULL w) (\<lambda>w.
          if htype f = PB_HTYPE_REPEATED \<or> htype f = PB_HTYPE_ONEOF
          then iter_store_size iter 0 w else Some w)
      else Some w)"

definition pb_message_set_to_defaults ::
    "nat \<Rightarrow> tables \<Rightarrow> pb_field list \<Rightarrow> addr \<Rightarrow> world \<Rightarrow> world option" where
  "pb_message_set_to_defaults n tb flds dest w =
     message_defaults (pb_field_set_to_default n tb) flds dest w"

section \<open>Releasing\<close>

definition iter_load_size :: "pb_field_iter \<Rightarrow> world \<Rightarrow> u32 option" where
  "iter_load_size it w = (case it_pSize it of AtAddr a \<Rightarrow> load_u32 (w_mem w) a | FixedCountSize \<Rightarrow> None)"

text \<open>The loops \<open>while (count--)\<close> over the items of an array.\<close>

primrec release_items :: "(addr \<Rightarrow> world \<Rightarrow> world option) \<Rightarrow> int \<Rightarrow> nat \<Rightarrow> addr \<Rightarrow> world \<Rightarrow> world option" where
  "release_items rel step 0 pItem w = Some w"
| "release_items rel step (Suc k) pItem w =
     Option.bind (rel pItem w) (release_items rel step k (pItem + step))"

definition free_item :: "addr \<Rightarrow> world \<Rightarrow> world option" where
  "free_item pItem w =
     Option.bind (load_ptr (w_mem w) pItem) (\<lambda>p.
     Option.bind (pb_free p w) (w_store_ptr pItem NULL))"

definition release_message ::
    "(pb_field_iter \<Rightarrow> world \<Rightarrow> world option) \<Rightarrow> pb_field list \<Rightarrow> addr \<Rightarrow> world \<Rightarrow> world option" where
  "release_message release_field flds dest w =
     (if dest = NULL then Some w
      else case pb_field_iter_begin flds dest of (nonempty, iter) \<Rightarrow>
        if nonempty then iter_do release_field iter w else Some w)"

text \<open>The number of submessages at \<open>pItem\<close>.\<close>

definition release_count :: "pb_field_iter \<Rightarrow> world \<Rightarrow> u32 option" where
  "release_count iter w =
     (let f = it_field iter in
      if htype f = PB_HTYPE_REPEATED then
        map_option (\<lambda>count. if atype f = PB_ATYPE_STATIC \<and> count > f_array_size f then f_array_size f else count)
          (if atype f = PB_ATYPE_STATIC \<and> it_pSize iter = AtAddr (it_pData iter)
           then Some (f_array_size f) else iter_load_size iter w)
      else Some 1)"

definition release_pointer :: "pb_field_iter \<Rightarrow> world \<Rightarrow> world option" where
  "release_pointer iter w =
     (let f = it_field iter in
      Option.bind
        (if htype f = PB_HTYPE_REPEATED \<and> (ltype f = PB_LTYPE_STRING \<or> ltype f = PB_LTYPE_BYTES)
         then Option.bind (load_ptr (w_mem w) (it_pData iter)) (\<lambda>pItem.
              Option.bind (iter_load_size iter w) (\<lambda>count.
                release_items free_item 8 (unat count) pItem w))
         else Some w)
        (\<lambda>w.
         Option.bind (if htype f = PB_HTYPE_REPEATED then iter_store_size iter 0 w else Some w)
           (free_item (it_pData iter))))"

primrec pb_release_single_field :: "nat \<Rightarrow> tables \<Rightarrow> pb_field_iter \<Rightarrow> world \<Rightarrow> world option" where
  "pb_release_single_field 0 tb iter w = None"
| "pb_release_single_field (Suc n) tb iter w =
     (let f = it_field iter in
      Option.bind (if htype f = PB_HTYPE_ONEOF then map_option (\<lambda>which. which = f_tag f) (iter_load_size iter w)
                   else Some True) (\<lambda>current.
      if \<not> current then Some w
      else
        Option.bind
          (if ltype f = PB_LTYPE_EXTENSION then
             Option.bind (load_ptr (w_mem w) (it_pData iter)) (\<lambda>ext.
               each_extension (\<lambda>ext w.
                 Option.bind (iter_from_extension tb (w_mem w) ext) (\<lambda>ext_iter.
                   pb_release_single_field n tb ext_iter w)) n ext w)
           else if ltype f = PB_LTYPE_SUBMESSAGE then
             Option.bind (if atype f = PB_ATYPE_POINTER then load_ptr (w_mem w) (it_pData iter)
                          else Some (it_pData iter)) (\<lambda>pItem.
             Option.bind (release_count iter w) (\<lambda>count.
               if pItem \<noteq> NULL
               then release_items (\<lambda>p w. Option.bind (t_fields tb (f_ptr f)) (\<lambda>flds.
                        release_message (pb_release_single_field n tb) flds p w))
                      (uint (f_data_size f)) (unat count) pItem w
               else Some w))
           else Some w)
          (\<lambda>w. if atype f = PB_ATYPE_POINTER then release_pointer iter w else Some w)))"

definition pb_release :: "nat \<Rightarrow> tables \<Rightarrow> pb_field list \<Rightarrow> addr \<Rightarrow> world \<Rightarrow> world option" where
  "pb_release n tb flds dest w = release_message (pb_release_single_field n tb) flds dest w"

end
