(* ===== verification/Decode.thy ===== *)
theory Decode
  imports Heap IStream
begin

text \<open>
  The message decoder of \<open>nanopb/pb_decode.c\<close>. The state of a run is the input stream, the
  memory with its heap blocks, and \<open>fixed_count_size\<close>, the local variable of
  \<open>pb_decode_noinit\<close> that stands in for the counter a fixed-count array does not have.
  Substreams are copies of the stream: an operation on a substream runs with it in place of the
  stream, and closing it puts the parent back.

  As in \<open>Encode\<close>, the functions below \<open>pb_decode\<close> take the decoders of submessages as
  arguments, and a fuel bounds the nesting. The loops over the stream are \<open>partial_function\<close>s:
  \<open>None\<close> is also the value of a loop that never ends.
\<close>

record 'u dstate =
  d_stream :: "'u istream"
  d_world :: world
  d_fcs :: u32

type_synonym 'u dec = "'u dstate \<Rightarrow> 'u dstate outcome"

text \<open>
  The application's code: the stream callback, the decode callbacks of callback fields by
  function pointer (given the field and the address of \<open>arg\<close>), the decode handlers of extension
  types by function pointer (given the extension, the tag and the wire type).
\<close>

record 'u denv =
  de_in :: "'u ienv"
  de_tables :: tables
  de_decode_cb :: "addr \<Rightarrow> pb_field \<Rightarrow> addr \<Rightarrow> 'u dec"
  de_decode_ext :: "addr \<Rightarrow> addr \<Rightarrow> u32 \<Rightarrow> pb_wire_type \<Rightarrow> 'u dec"

type_synonym 'u field_decoder = "pb_field \<Rightarrow> addr \<Rightarrow> 'u dec"
type_synonym 'u msg_decoder = "pb_field list \<Rightarrow> addr \<Rightarrow> 'u dec"

section \<open>Access to the parts of the state\<close>

abbreviation d_mem :: "'u dstate \<Rightarrow> mem" where "d_mem st \<equiv> w_mem (d_world st)"

definition d_error :: "string \<Rightarrow> 'u dec" where
  "d_error msg st = Some (False, st\<lparr>d_stream := i_set_error msg (d_stream st)\<rparr>)"

definition on_stream :: "('u istream \<Rightarrow> 'u istream outcome) \<Rightarrow> 'u dec" where
  "on_stream f st = map_option (\<lambda>(ok, s). (ok, st\<lparr>d_stream := s\<rparr>)) (f (d_stream st))"

definition read_value ::
    "('u istream \<Rightarrow> ('v, 'u istream) valued) \<Rightarrow> 'u dstate \<Rightarrow> ('v \<Rightarrow> 'u dec) \<Rightarrow> 'u dstate outcome" where
  "read_value g st k = (case g (d_stream st) of
     None \<Rightarrow> None
   | Some (None, s) \<Rightarrow> Some (False, st\<lparr>d_stream := s\<rparr>)
   | Some (Some v, s) \<Rightarrow> k v (st\<lparr>d_stream := s\<rparr>))"

definition on_world :: "(world \<Rightarrow> world option) \<Rightarrow> 'u dec" where
  "on_world f st = map_option (\<lambda>w. (True, st\<lparr>d_world := w\<rparr>)) (f (d_world st))"

definition load_size :: "psize \<Rightarrow> 'u dstate \<Rightarrow> u32 option" where
  "load_size ps st = (case ps of AtAddr a \<Rightarrow> load_u32 (d_mem st) a | FixedCountSize \<Rightarrow> Some (d_fcs st))"

definition store_size :: "psize \<Rightarrow> u32 \<Rightarrow> 'u dec" where
  "store_size ps v st = (case ps of
     AtAddr a \<Rightarrow> on_world (w_store_u32 a v) st | FixedCountSize \<Rightarrow> Some (True, st\<lparr>d_fcs := v\<rparr>))"

text \<open>\<open>pb_read\<close> into memory: what it stored stays there also where it fails.\<close>

definition read_into :: "'u denv \<Rightarrow> addr \<Rightarrow> u64 \<Rightarrow> 'u dec" where
  "read_into env dest count st = (case pb_read (de_in env) False count (d_stream st) of
     None \<Rightarrow> None
   | Some (ok, bs, s) \<Rightarrow>
       map_option (\<lambda>w. (ok, st\<lparr>d_stream := s, d_world := w\<rparr>)) (w_store dest bs (d_world st)))"

text \<open>Opening a substream, decoding from it with \<open>body\<close>, and what follows with the parent at hand.\<close>

definition with_substream ::
    "'u denv \<Rightarrow> 'u dstate \<Rightarrow> ('u istream \<Rightarrow> 'u dec) \<Rightarrow> 'u dstate outcome" where
  "with_substream env st body =
     read_value (pb_make_string_substream (de_in env)) st
       (\<lambda>sub st. body (d_stream st) (st\<lparr>d_stream := sub\<rparr>))"

definition close_substream :: "'u denv \<Rightarrow> 'u istream \<Rightarrow> 'u dec" where
  "close_substream env parent st =
     on_stream (\<lambda>sub. pb_close_string_substream (de_in env) sub parent) st"

section \<open>Dynamic allocation\<close>

definition allocate_field :: "'u denv \<Rightarrow> addr \<Rightarrow> u64 \<Rightarrow> u64 \<Rightarrow> 'u dec" where
  "allocate_field env pData data_size array_size st =
     Option.bind (load_ptr (d_mem st) pData) (\<lambda>ptr.
     if data_size = 0 \<or> array_size = 0 then d_error ''invalid size'' st
     else if (push_bit 32 1 \<le> data_size \<or> push_bit 32 1 \<le> array_size)
             \<and> (- 1) div array_size < data_size
     then d_error ''size too large'' st
     else Option.bind (pb_realloc (t_alloc (de_tables env)) ptr (array_size * data_size) (d_world st))
       (\<lambda>(ptr, w).
        if ptr = NULL then d_error ''realloc failed'' (st\<lparr>d_world := w\<rparr>)
        else on_world (w_store_ptr pData ptr) (st\<lparr>d_world := w\<rparr>)))"

definition initialize_pointer_field :: "nat \<Rightarrow> 'u denv \<Rightarrow> addr \<Rightarrow> pb_field_iter \<Rightarrow> world \<Rightarrow> world option" where
  "initialize_pointer_field n env pItem iter w =
     (let f = it_field iter in
      if ltype f = PB_LTYPE_STRING \<or> ltype f = PB_LTYPE_BYTES then w_store_ptr pItem NULL w
      else if ltype f = PB_LTYPE_SUBMESSAGE then
        Option.bind (w_memset0 pItem (unat (f_data_size f)) w) (\<lambda>w.
        Option.bind (t_fields (de_tables env) (f_ptr f)) (\<lambda>flds.
          pb_message_set_to_defaults n (de_tables env) flds pItem w))
      else Some w)"

section \<open>Field decoders\<close>

definition store_int :: "u32 \<Rightarrow> addr \<Rightarrow> u64 \<Rightarrow> world \<Rightarrow> world option" where
  "store_int data_size dest v = w_store dest (bytes_of_word (unat data_size) v)"

text \<open>The value as it is stored: cut to \<open>data_size\<close> bytes and widened again.\<close>

definition clamp_sint :: "u32 \<Rightarrow> u64 \<Rightarrow> u64" where
  "clamp_sint data_size v =
     (if data_size = 8 then v
      else if data_size = 4 then scast (ucast v :: 32 word)
      else if data_size = 2 then scast (ucast v :: 16 word)
      else scast (ucast v :: 8 word))"

definition clamp_uint :: "u32 \<Rightarrow> u64 \<Rightarrow> u64" where
  "clamp_uint data_size v =
     (if data_size = 8 then v
      else if data_size = 4 then ucast (ucast v :: 32 word)
      else if data_size = 2 then ucast (ucast v :: 16 word)
      else ucast (ucast v :: 8 word))"

definition store_clamped :: "(u32 \<Rightarrow> u64 \<Rightarrow> u64) \<Rightarrow> pb_field \<Rightarrow> addr \<Rightarrow> u64 \<Rightarrow> 'u dec" where
  "store_clamped clamp f dest v st =
     (let sz = f_data_size f in
      if \<not> (sz = 8 \<or> sz = 4 \<or> sz = 2 \<or> sz = 1) then d_error ''invalid data_size'' st
      else ifok (on_world (store_int sz dest v) st) (\<lambda>st.
        if clamp sz v \<noteq> v then d_error ''integer too large'' st else Some (True, st)))"

definition pb_dec_varint :: "'u denv \<Rightarrow> 'u field_decoder" where
  "pb_dec_varint env f dest st =
     read_value (pb_decode_varint (de_in env)) st (\<lambda>v st.
       let svalue = (if f_data_size f = 8 then v else scast (ucast v :: 32 word)) in
       store_clamped clamp_sint f dest svalue st)"

definition pb_dec_uvarint :: "'u denv \<Rightarrow> 'u field_decoder" where
  "pb_dec_uvarint env f dest st =
     read_value (pb_decode_varint (de_in env)) st (store_clamped clamp_uint f dest)"

definition pb_dec_svarint :: "'u denv \<Rightarrow> 'u field_decoder" where
  "pb_dec_svarint env f dest st =
     read_value (pb_decode_svarint (de_in env)) st (store_clamped clamp_sint f dest)"

definition pb_dec_fixed32 :: "'u denv \<Rightarrow> 'u field_decoder" where
  "pb_dec_fixed32 env f dest st =
     read_value (pb_decode_fixed32 (de_in env)) st (\<lambda>v. on_world (w_store dest (bytes_of_word 4 v)))"

definition pb_dec_fixed64 :: "'u denv \<Rightarrow> 'u field_decoder" where
  "pb_dec_fixed64 env f dest st =
     read_value (pb_decode_fixed64 (de_in env)) st (\<lambda>v. on_world (w_store dest (bytes_of_word 8 v)))"

definition pb_dec_bytes :: "'u denv \<Rightarrow> 'u field_decoder" where
  "pb_dec_bytes env f dest st =
     read_value (pb_decode_varint32 (de_in env)) st (\<lambda>sz st.
       if sz > PB_SIZE_MAX then d_error ''bytes overflow'' st
       else
        (let alloc_size = PB_BYTES_ARRAY_T_ALLOCSIZE sz in
         if ucast sz > alloc_size then d_error ''size too large'' st
         else
          ifok (if atype f = PB_ATYPE_POINTER then allocate_field env dest alloc_size 1 st
                else if alloc_size > ucast (f_data_size f) then d_error ''bytes overflow'' st
                else Some (True, st)) (\<lambda>st.
          Option.bind (if atype f = PB_ATYPE_POINTER then load_ptr (d_mem st) dest else Some dest) (\<lambda>bdest.
          ifok (on_world (w_store_u32 bdest sz) st) (read_into env (bdest + BYTES_OFFSET) (ucast sz))))))"

definition pb_dec_string :: "'u denv \<Rightarrow> 'u field_decoder" where
  "pb_dec_string env f dest st =
     read_value (pb_decode_varint32 (de_in env)) st (\<lambda>sz st.
       let alloc_size = (ucast (sz + 1) :: u64) in
       if alloc_size < ucast sz then d_error ''size too large'' st
       else
        ifok (if atype f = PB_ATYPE_POINTER then allocate_field env dest alloc_size 1 st
              else if alloc_size > ucast (f_data_size f) then d_error ''string overflow'' st
              else Some (True, st)) (\<lambda>st.
        Option.bind (if atype f = PB_ATYPE_POINTER then load_ptr (d_mem st) dest else Some dest) (\<lambda>dest.
        Option.bind (read_into env dest (ucast sz) st) (\<lambda>(status, st).
          map_option (\<lambda>(_, st). (status, st)) (on_world (w_store (dest + uint sz) [0]) st)))))"

definition pb_dec_submessage :: "'u msg_decoder \<Rightarrow> 'u msg_decoder \<Rightarrow> 'u denv \<Rightarrow> 'u field_decoder" where
  "pb_dec_submessage dec noinit env f dest st =
     with_substream env st (\<lambda>parent st.
       if f_ptr f = NULL then d_error ''invalid field descriptor'' (st\<lparr>d_stream := parent\<rparr>)
       else Option.bind (t_fields (de_tables env) (f_ptr f)) (\<lambda>flds.
         Option.bind (if htype f = PB_HTYPE_REPEATED then dec flds dest st else noinit flds dest st)
           (\<lambda>(status, st).
            ifok (close_substream env parent st) (\<lambda>st. Some (status, st)))))"

definition pb_dec_fixed_length_bytes :: "'u denv \<Rightarrow> 'u field_decoder" where
  "pb_dec_fixed_length_bytes env f dest st =
     read_value (pb_decode_varint32 (de_in env)) st (\<lambda>sz st.
       if sz > PB_SIZE_MAX then d_error ''bytes overflow'' st
       else if sz = 0 then on_world (w_memset0 dest (unat (f_data_size f))) st
       else if sz \<noteq> f_data_size f then d_error ''incorrect fixed length bytes size'' st
       else read_into env dest (ucast (f_data_size f)) st)"

definition PB_DECODERS :: "'u msg_decoder \<Rightarrow> 'u msg_decoder \<Rightarrow> 'u denv \<Rightarrow> 'u field_decoder option list" where
  "PB_DECODERS dec noinit env =
     [Some (pb_dec_varint env),
      Some (pb_dec_uvarint env),
      Some (pb_dec_svarint env),
      Some (pb_dec_fixed32 env),
      Some (pb_dec_fixed64 env),
      Some (pb_dec_bytes env),
      Some (pb_dec_string env),
      Some (pb_dec_submessage dec noinit env),
      None,
      Some (pb_dec_fixed_length_bytes env)]"

definition call_decoder :: "'u msg_decoder \<Rightarrow> 'u msg_decoder \<Rightarrow> 'u denv \<Rightarrow> 'u field_decoder" where
  "call_decoder dec noinit env f dest st =
     (if PB_LTYPES_COUNT \<le> unat (ltype f) then None
      else case PB_DECODERS dec noinit env ! unat (ltype f) of
          None \<Rightarrow> None | Some g \<Rightarrow> g f dest st)"

section \<open>Static fields\<close>

text \<open>The address of an array item; the product of two \<open>uint32_t\<close> wraps.\<close>

definition item_at :: "pb_field \<Rightarrow> addr \<Rightarrow> u32 \<Rightarrow> addr" where
  "item_at f pData i = pData + uint (f_data_size f * i)"

text \<open>\<open>while (substream.bytes_left > 0 && *size < array_size)\<close> over a packed array.\<close>

partial_function (option) packed_static ::
    "(addr \<Rightarrow> 'u dec) \<Rightarrow> pb_field \<Rightarrow> addr \<Rightarrow> psize \<Rightarrow> 'u dec" where
  "packed_static func f pData ps st =
     (if i_bytes_left (d_stream st) = 0 then Some (True, st)
      else Option.bind (load_size ps st) (\<lambda>sz.
        if \<not> sz < f_array_size f then Some (True, st)
        else ifok (func (item_at f pData sz) st) (\<lambda>st.
          Option.bind (load_size ps st) (\<lambda>sz.
            ifok (store_size ps (sz + 1) st) (packed_static func f pData ps)))))"

declare packed_static.simps [code]

definition decode_static_field ::
    "'u msg_decoder \<Rightarrow> 'u msg_decoder \<Rightarrow> nat \<Rightarrow> 'u denv \<Rightarrow> pb_wire_type \<Rightarrow> pb_field_iter \<Rightarrow> 'u dec" where
  "decode_static_field dec noinit n env wire_type iter st =
     (let f = it_field iter; pData = it_pData iter; pSize = it_pSize iter;
          func = call_decoder dec noinit env f in
      if PB_LTYPES_COUNT \<le> unat (ltype f) then None
      else if htype f = PB_HTYPE_REQUIRED then func pData st
      else if htype f = PB_HTYPE_OPTIONAL then
        ifok (if pSize \<noteq> AtAddr pData then on_world (iter_store_has iter True) st else Some (True, st))
          (func pData)
      else if htype f = PB_HTYPE_REPEATED then
       (if wire_type = PB_WT_STRING \<and> ltype f \<le> PB_LTYPE_LAST_PACKABLE then
          with_substream env st (\<lambda>parent st.
            Option.bind (packed_static func f pData pSize st) (\<lambda>(status, st).
              if i_bytes_left (d_stream st) \<noteq> 0
              then d_error ''array overflow'' (st\<lparr>d_stream := parent\<rparr>)
              else ifok (close_substream env parent st) (\<lambda>st. Some (status, st))))
        else
          Option.bind (load_size pSize st) (\<lambda>sz.
            ifok (store_size pSize (sz + 1) st) (\<lambda>st.
              if f_array_size f \<le> sz then d_error ''array overflow'' st
              else func (item_at f pData sz) st)))
      else \<comment> \<open>\<open>PB_HTYPE_ONEOF\<close>\<close>
        ifok (store_size pSize (f_tag f) st) (\<lambda>st.
        ifok (if ltype f = PB_LTYPE_SUBMESSAGE
              then on_world (initialize_pointer_field n env pData iter) st
              else Some (True, st))
          (func pData)))"

section \<open>Pointer fields\<close>

text \<open>
  The loop over a packed array whose storage grows: \<open>allocated\<close> is \<open>allocated_size\<close>, and
  \<open>parent\<close> the stream that \<open>too many array entries\<close> is reported on.
\<close>

definition grow_array ::
    "'u denv \<Rightarrow> pb_field \<Rightarrow> addr \<Rightarrow> u32 \<Rightarrow> u64 \<Rightarrow> 'u dstate \<Rightarrow> (bool \<times> u64 \<times> 'u dstate) option" where
  "grow_array env f pData sz allocated st =
     (if ucast sz + 1 \<le> allocated then Some (True, allocated, st)
      else if f_data_size f = 0 then None
      else
       (let allocated = allocated + ((i_bytes_left (d_stream st) - 1) div ucast (f_data_size f) + 1) in
        map_option (\<lambda>(ok, st). (ok, allocated, st))
          (allocate_field env pData (ucast (f_data_size f)) allocated st)))"

partial_function (option) packed_pointer ::
    "(addr \<Rightarrow> 'u dec) \<Rightarrow> nat \<Rightarrow> 'u denv \<Rightarrow> pb_field_iter \<Rightarrow> u64 \<Rightarrow> 'u istream \<Rightarrow> 'u dstate
      \<Rightarrow> (bool \<times> 'u istream \<times> 'u dstate) option" where
  "packed_pointer func n env iter allocated parent st =
     (if i_bytes_left (d_stream st) = 0 then Some (True, parent, st)
      else Option.bind (load_size (it_pSize iter) st) (\<lambda>sz.
        Option.bind (grow_array env (it_field iter) (it_pData iter) sz allocated st) (\<lambda>(ok, allocated, st).
        if \<not> ok then Some (False, parent, st)
        else
          Option.bind (load_ptr (d_mem st) (it_pData iter)) (\<lambda>base.
          Option.bind (load_size (it_pSize iter) st) (\<lambda>sz.
          Option.bind (on_world (initialize_pointer_field n env (item_at (it_field iter) base sz) iter) st) (\<lambda>(_, st).
          Option.bind (func (item_at (it_field iter) base sz) st) (\<lambda>(ok, st).
          if \<not> ok then Some (False, parent, st)
          else Option.bind (load_size (it_pSize iter) st) (\<lambda>sz.
            if sz = PB_SIZE_MAX
            then Some (False, parent\<lparr>i_errmsg := Some ''too many array entries''\<rparr>, st)
            else Option.bind (store_size (it_pSize iter) (sz + 1) st) (\<lambda>(_, st).
              packed_pointer func n env iter allocated parent st)))))))))"

declare packed_pointer.simps [code]

definition decode_pointer_single ::
    "'u msg_decoder \<Rightarrow> 'u msg_decoder \<Rightarrow> nat \<Rightarrow> 'u denv \<Rightarrow> pb_field_iter \<Rightarrow> 'u dec" where
  "decode_pointer_single dec noinit n env iter st =
     (let f = it_field iter; pData = it_pData iter; func = call_decoder dec noinit env f in
      ifok (if ltype f = PB_LTYPE_SUBMESSAGE
            then Option.bind (load_ptr (d_mem st) pData) (\<lambda>p.
                   if p \<noteq> NULL then on_world (pb_release_single_field n (de_tables env) iter) st
                   else Some (True, st))
            else Some (True, st)) (\<lambda>st.
      ifok (if htype f = PB_HTYPE_ONEOF then store_size (it_pSize iter) (f_tag f) st
            else Some (True, st)) (\<lambda>st.
      if ltype f = PB_LTYPE_STRING \<or> ltype f = PB_LTYPE_BYTES then func pData st
      else
        ifok (allocate_field env pData (ucast (f_data_size f)) 1 st) (\<lambda>st.
        Option.bind (load_ptr (d_mem st) pData) (\<lambda>p.
        ifok (on_world (initialize_pointer_field n env p iter) st) (\<lambda>st.
        Option.bind (load_ptr (d_mem st) pData) (\<lambda>p. func p st)))))))"

definition decode_pointer_repeated ::
    "'u msg_decoder \<Rightarrow> 'u msg_decoder \<Rightarrow> nat \<Rightarrow> 'u denv \<Rightarrow> pb_wire_type \<Rightarrow> pb_field_iter \<Rightarrow> 'u dec" where
  "decode_pointer_repeated dec noinit n env wire_type iter st =
     (let f = it_field iter; pData = it_pData iter; pSize = it_pSize iter;
          func = call_decoder dec noinit env f in
      if wire_type = PB_WT_STRING \<and> ltype f \<le> PB_LTYPE_LAST_PACKABLE then
        Option.bind (load_size pSize st) (\<lambda>allocated.
        with_substream env st (\<lambda>parent st.
          Option.bind (packed_pointer func n env iter (ucast allocated) parent st) (\<lambda>(status, parent, st).
            ifok (close_substream env parent st) (\<lambda>st. Some (status, st)))))
      else
        Option.bind (load_size pSize st) (\<lambda>sz.
        if sz = PB_SIZE_MAX then d_error ''too many array entries'' st
        else
          ifok (store_size pSize (sz + 1) st) (\<lambda>st.
          ifok (allocate_field env pData (ucast (f_data_size f)) (ucast (sz + 1)) st) (\<lambda>st.
          Option.bind (load_ptr (d_mem st) pData) (\<lambda>base.
          ifok (on_world (initialize_pointer_field n env (item_at f base sz) iter) st)
            (func (item_at f base sz)))))))"

definition decode_pointer_field ::
    "'u msg_decoder \<Rightarrow> 'u msg_decoder \<Rightarrow> nat \<Rightarrow> 'u denv \<Rightarrow> pb_wire_type \<Rightarrow> pb_field_iter \<Rightarrow> 'u dec" where
  "decode_pointer_field dec noinit n env wire_type iter st =
     (if PB_LTYPES_COUNT \<le> unat (ltype (it_field iter)) then None
      else if htype (it_field iter) = PB_HTYPE_REPEATED
      then decode_pointer_repeated dec noinit n env wire_type iter st
      else decode_pointer_single dec noinit n env iter st)"

section \<open>Callback fields\<close>

text \<open>\<open>do { decode(...) } while (substream.bytes_left)\<close>.\<close>

partial_function (option) callback_loop :: "'u denv \<Rightarrow> pb_field \<Rightarrow> addr \<Rightarrow> 'u dec" where
  "callback_loop env f pData st =
     Option.bind (callback_fn (d_mem st) pData) (\<lambda>fn.
     if fn = NULL then None
     else ifok (de_decode_cb env fn f (callback_arg pData) st) (\<lambda>st.
       if i_bytes_left (d_stream st) = 0 then Some (True, st) else callback_loop env f pData st))"

declare callback_loop.simps [code]

definition decode_callback_field :: "'u denv \<Rightarrow> pb_wire_type \<Rightarrow> pb_field_iter \<Rightarrow> 'u dec" where
  "decode_callback_field env wire_type iter st =
     (let f = it_field iter; pCallback = it_pData iter in
      Option.bind (if pCallback = NULL then Some NULL else callback_fn (d_mem st) pCallback) (\<lambda>fn.
      if fn = NULL then on_stream (pb_skip_field (de_in env) wire_type) st
      else if wire_type = PB_WT_STRING then
        with_substream env st (\<lambda>parent st.
          Option.bind (callback_loop env f pCallback st) (\<lambda>(ok, st).
            if \<not> ok then d_error ''callback failed'' (st\<lparr>d_stream := parent\<rparr>)
            else close_substream env parent st))
      else (case read_raw_value (de_in env) wire_type 10 (d_stream st) of
          None \<Rightarrow> None
        | Some (False, _, s) \<Rightarrow> Some (False, st\<lparr>d_stream := s\<rparr>)
        | Some (True, bs, s) \<Rightarrow>
            map_option (\<lambda>(ok, st). (ok, st\<lparr>d_stream := s\<rparr>))
              (de_decode_cb env fn f (callback_arg pCallback)
                (st\<lparr>d_stream := pb_istream_from_buffer bs (of_nat (length bs))\<rparr>)))))"

section \<open>Fields\<close>

text \<open>These two move the iterator, and return it.\<close>

definition pb_release_union_field ::
    "nat \<Rightarrow> 'u denv \<Rightarrow> pb_field_iter \<Rightarrow> 'u dstate \<Rightarrow> (bool \<times> pb_field_iter \<times> 'u dstate) option" where
  "pb_release_union_field n env iter st =
     Option.bind (load_size (it_pSize iter) st) (\<lambda>old_tag.
     let new_tag = f_tag (it_field iter) in
     if old_tag = 0 then Some (True, iter, st)
     else if old_tag = new_tag then Some (True, iter, st)
     else Option.bind (pb_field_iter_find iter old_tag) (\<lambda>(found, iter).
       if \<not> found then map_option (\<lambda>(ok, st). (ok, iter, st)) (d_error ''invalid union tag'' st)
       else Option.bind (on_world (pb_release_single_field n (de_tables env) iter) st) (\<lambda>(_, st).
         Option.bind (pb_field_iter_find iter new_tag) (\<lambda>(found, iter).
           if \<not> found then map_option (\<lambda>(ok, st). (ok, iter, st)) (d_error ''iterator error'' st)
           else Some (True, iter, st)))))"

definition decode_field ::
    "'u msg_decoder \<Rightarrow> 'u msg_decoder \<Rightarrow> nat \<Rightarrow> 'u denv \<Rightarrow> pb_wire_type \<Rightarrow> pb_field_iter \<Rightarrow> 'u dstate
      \<Rightarrow> (bool \<times> pb_field_iter \<times> 'u dstate) option" where
  "decode_field dec noinit n env wire_type iter st =
     Option.bind (if htype (it_field iter) = PB_HTYPE_ONEOF then pb_release_union_field n env iter st
                  else Some (True, iter, st)) (\<lambda>(ok, iter, st).
     if \<not> ok then Some (False, iter, st)
     else map_option (\<lambda>(ok, st). (ok, iter, st))
       (let f = it_field iter in
        if atype f = PB_ATYPE_STATIC then decode_static_field dec noinit n env wire_type iter st
        else if atype f = PB_ATYPE_POINTER then decode_pointer_field dec noinit n env wire_type iter st
        else if atype f = PB_ATYPE_CALLBACK then decode_callback_field env wire_type iter st
        else d_error ''invalid field type'' st))"

section \<open>Extensions\<close>

definition default_extension_decoder ::
    "'u msg_decoder \<Rightarrow> 'u msg_decoder \<Rightarrow> nat \<Rightarrow> 'u denv \<Rightarrow> addr \<Rightarrow> u32 \<Rightarrow> pb_wire_type \<Rightarrow> 'u dec" where
  "default_extension_decoder dec noinit n env extension tag wire_type st =
     Option.bind (ext_type (d_mem st) extension) (\<lambda>t.
     Option.bind (exttype_arg (d_mem st) t) (\<lambda>arg.
     Option.bind (t_fields (de_tables env) arg) (\<lambda>flds.
     if f_tag (field_at flds 0) \<noteq> tag then Some (True, st)
     else Option.bind (iter_from_extension (de_tables env) (d_mem st) extension) (\<lambda>iter.
       ifok (on_world (w_store_bool (ext_found extension) True) st) (\<lambda>st.
         map_option (\<lambda>(ok, _, st). (ok, st)) (decode_field dec noinit n env wire_type iter st))))))"

primrec extension_chain ::
    "'u msg_decoder \<Rightarrow> 'u msg_decoder \<Rightarrow> nat \<Rightarrow> 'u denv \<Rightarrow> u32 \<Rightarrow> pb_wire_type \<Rightarrow> u64 \<Rightarrow> nat \<Rightarrow> addr \<Rightarrow> 'u dec" where
  "extension_chain dec noinit n env tag wire_type pos 0 extension st =
     (if extension = NULL \<or> pos \<noteq> i_bytes_left (d_stream st) then Some (True, st) else None)"
| "extension_chain dec noinit n env tag wire_type pos (Suc k) extension st =
     (if extension = NULL \<or> pos \<noteq> i_bytes_left (d_stream st) then Some (True, st)
      else Option.bind (Option.bind (ext_type (d_mem st) extension) (exttype_decode (d_mem st))) (\<lambda>fn.
        ifok (if fn \<noteq> NULL then de_decode_ext env fn extension tag wire_type st
              else default_extension_decoder dec noinit n env extension tag wire_type st) (\<lambda>st.
          Option.bind (ext_next (d_mem st) extension) (\<lambda>next.
            extension_chain dec noinit n env tag wire_type pos k next st))))"

definition decode_extension ::
    "'u msg_decoder \<Rightarrow> 'u msg_decoder \<Rightarrow> nat \<Rightarrow> 'u denv \<Rightarrow> u32 \<Rightarrow> pb_wire_type \<Rightarrow> pb_field_iter \<Rightarrow> 'u dec" where
  "decode_extension dec noinit n env tag wire_type iter st =
     Option.bind (load_ptr (d_mem st) (it_pData iter)) (\<lambda>extension.
       extension_chain dec noinit n env tag wire_type (i_bytes_left (d_stream st)) n extension st)"

definition find_extension_field :: "pb_field_iter \<Rightarrow> (bool \<times> pb_field_iter) option" where
  "find_extension_field iter =
     find_loop (Suc (length (it_start iter))) (\<lambda>f. ltype f = PB_LTYPE_EXTENSION) (it_pos iter) iter"

section \<open>Messages\<close>

text \<open>
  The local variables of \<open>pb_decode_noinit\<close>: the iterator, the bits of the required fields
  seen, the start of the extension range, and \<open>fixed_count_field\<close> as an index in the table.
\<close>

record locals =
  l_iter :: pb_field_iter
  l_seen :: "u32 list"
  l_ext_start :: u32
  l_fixed :: "nat option"

datatype flow = Go | Stop | Fail

type_synonym 'u step_result = "(flow \<times> locals \<times> 'u dstate) option"

text \<open>A tag that is no field of the message: an extension, or skipped.\<close>

definition skip_unknown :: "'u denv \<Rightarrow> pb_wire_type \<Rightarrow> locals \<Rightarrow> 'u dstate \<Rightarrow> 'u step_result" where
  "skip_unknown env wire_type l st =
     map_option (\<lambda>(ok, st). (if ok then Go else Fail, l, st))
       (on_stream (pb_skip_field (de_in env) wire_type) st)"

definition unknown_field ::
    "'u msg_decoder \<Rightarrow> 'u msg_decoder \<Rightarrow> nat \<Rightarrow> 'u denv \<Rightarrow> u32 \<Rightarrow> pb_wire_type \<Rightarrow> locals \<Rightarrow> 'u dstate
      \<Rightarrow> 'u step_result" where
  "unknown_field dec noinit n env tag wire_type l st =
     (if tag < l_ext_start l then skip_unknown env wire_type l st
      else Option.bind (find_extension_field (l_iter l)) (\<lambda>(found, iter).
       (let l = l\<lparr>l_iter := iter, l_ext_start := (if found then f_tag (it_field iter) else - 1)\<rparr>;
            pos = i_bytes_left (d_stream st) in
        if tag < l_ext_start l then skip_unknown env wire_type l st
        else Option.bind (decode_extension dec noinit n env tag wire_type iter st) (\<lambda>(ok, st).
          if \<not> ok then Some (Fail, l, st)
          else if pos \<noteq> i_bytes_left (d_stream st) then Some (Go, l, st)
          else skip_unknown env wire_type l st))))"

text \<open>The number of items a fixed-count array must have, and whether it has them.\<close>

definition fixed_count_wrong :: "locals \<Rightarrow> 'u dstate \<Rightarrow> bool" where
  "fixed_count_wrong l st = (case l_fixed l of None \<Rightarrow> False
     | Some pos \<Rightarrow> d_fcs st \<noteq> f_array_size (field_at (it_start (l_iter l)) pos))"

definition mark_seen :: "pb_field_iter \<Rightarrow> u32 list \<Rightarrow> u32 list" where
  "mark_seen iter seen =
     (let i = unat (it_required_field_index iter) in
      if htype (it_field iter) = PB_HTYPE_REQUIRED \<and> i < 64
      then seen[i div 32 := seen ! (i div 32) OR push_bit (i mod 32) 1] else seen)"

definition known_field ::
    "'u msg_decoder \<Rightarrow> 'u msg_decoder \<Rightarrow> nat \<Rightarrow> 'u denv \<Rightarrow> pb_wire_type \<Rightarrow> locals \<Rightarrow> 'u dstate
      \<Rightarrow> 'u step_result" where
  "known_field dec noinit n env wire_type l st =
     (let iter = l_iter l;
          fixed = (htype (it_field iter) = PB_HTYPE_REPEATED \<and> it_pSize iter = AtAddr (it_pData iter));
          other = (l_fixed l \<noteq> Some (it_pos iter)) in
      if fixed \<and> other \<and> fixed_count_wrong l st
      then map_option (\<lambda>(_, st). (Fail, l, st)) (d_error ''wrong size for fixed count field'' st)
      else
       (let st = (if fixed \<and> other then st\<lparr>d_fcs := 0\<rparr> else st);
            l = (if fixed then l\<lparr>l_iter := iter\<lparr>it_pSize := FixedCountSize\<rparr>, l_fixed := Some (it_pos iter)\<rparr> else l);
            l = l\<lparr>l_seen := mark_seen (l_iter l) (l_seen l)\<rparr> in
        map_option (\<lambda>(ok, iter, st). (if ok then Go else Fail, l\<lparr>l_iter := iter\<rparr>, st))
          (decode_field dec noinit n env wire_type (l_iter l) st)))"

definition decode_step ::
    "'u msg_decoder \<Rightarrow> 'u msg_decoder \<Rightarrow> nat \<Rightarrow> 'u denv \<Rightarrow> locals \<Rightarrow> 'u dstate \<Rightarrow> 'u step_result" where
  "decode_step dec noinit n env l st =
     Option.bind (pb_decode_tag (de_in env) (d_stream st)) (\<lambda>r.
     let st = st\<lparr>d_stream := t_stream r\<rparr> in
     if \<not> t_ok r then Some (if t_eof r then Stop else Fail, l, st)
     else Option.bind (pb_field_iter_find (l_iter l) (t_tag r)) (\<lambda>(found, iter).
      (let l = l\<lparr>l_iter := iter\<rparr> in
       if found then known_field dec noinit n env (t_wire_type r) l st
       else unknown_field dec noinit n env (t_tag r) (t_wire_type r) l st)))"

partial_function (option) decode_loop ::
    "(locals \<Rightarrow> 'u dstate \<Rightarrow> 'u step_result) \<Rightarrow> locals \<Rightarrow> 'u dstate \<Rightarrow> (bool \<times> locals \<times> 'u dstate) option" where
  "decode_loop step l st =
     (if i_bytes_left (d_stream st) = 0 then Some (True, l, st)
      else Option.bind (step l st) (\<lambda>(fl, l, st).
        if fl = Go then decode_loop step l st else Some (fl = Stop, l, st)))"

declare decode_loop.simps [code]

text \<open>Seeking to the last field: its required-field index and type, and the iterator behind it.\<close>

function seek_end :: "pb_field_iter \<Rightarrow> u32 \<times> pb_type \<times> pb_field_iter" where
  "seek_end iter = (case pb_field_iter_next iter of (go, it') \<Rightarrow>
     if go then seek_end it' else (it_required_field_index iter, f_type (it_field iter), it'))"
  by pat_completeness auto
termination
proof (relation "measure (\<lambda>it. length (it_start it) - it_pos it)")
  fix it go it'
  assume "(go, it') = pb_field_iter_next it" and "go"
  then have "pb_field_iter_next it = (True, it')" by simp
  then show "(it', it) \<in> measure (\<lambda>it. length (it_start it) - it_pos it)"
    using iter_next_True_measure [of it it'] by auto
qed simp

declare seek_end.simps [simp del]

definition required_count :: "pb_field_iter \<Rightarrow> u32" where
  "required_count iter = (case seek_end iter of (index, last_type, iter) \<Rightarrow>
     (let count = (if PB_HTYPE last_type = PB_HTYPE_REQUIRED \<and> f_tag (it_field iter) \<noteq> 0
                   then index + 1 else index) in
      if count > 64 then 64 else count))"

definition all_seen :: "u32 list \<Rightarrow> u32 \<Rightarrow> bool" where
  "all_seen seen count =
     (let k = unat count in
      list_all (\<lambda>w. w = - 1) (take (k div 32) seen) \<and>
      (k mod 32 \<noteq> 0 \<longrightarrow> seen ! (k div 32) = drop_bit (32 - k mod 32) (- 1)))"

definition decode_message :: "'u msg_decoder \<Rightarrow> 'u msg_decoder \<Rightarrow> nat \<Rightarrow> 'u denv \<Rightarrow> 'u msg_decoder" where
  "decode_message dec noinit n env flds dest_struct st =
     (let l = \<lparr>l_iter = snd (pb_field_iter_begin flds dest_struct), l_seen = [0, 0],
               l_ext_start = 0, l_fixed = None\<rparr> in
      Option.bind (decode_loop (decode_step dec noinit n env) l (st\<lparr>d_fcs := 0\<rparr>)) (\<lambda>(ok, l, st').
      map_option (\<lambda>(ok, st'). (ok, st'\<lparr>d_fcs := d_fcs st\<rparr>))
       (if \<not> ok then Some (False, st')
        else if fixed_count_wrong l st' then d_error ''wrong size for fixed count field'' st'
        else if \<not> all_seen (l_seen l) (required_count (l_iter l))
        then d_error ''missing required field'' st'
        else Some (True, st'))))"

definition init_and_decode :: "'u msg_decoder \<Rightarrow> nat \<Rightarrow> 'u denv \<Rightarrow> 'u msg_decoder" where
  "init_and_decode noinit n env flds dest_struct st =
     ifok (on_world (pb_message_set_to_defaults n (de_tables env) flds dest_struct) st) (\<lambda>st.
     Option.bind (noinit flds dest_struct st) (\<lambda>(status, st).
       if status then Some (True, st)
       else map_option (\<lambda>(_, st). (False, st))
              (on_world (pb_release n (de_tables env) flds dest_struct) st)))"

primrec pb_decode_noinit :: "nat \<Rightarrow> 'u denv \<Rightarrow> 'u msg_decoder" where
  "pb_decode_noinit 0 env flds dest_struct st = None"
| "pb_decode_noinit (Suc n) env flds dest_struct st =
     decode_message (init_and_decode (pb_decode_noinit n env) n env) (pb_decode_noinit n env) n env
       flds dest_struct st"

definition pb_decode :: "nat \<Rightarrow> 'u denv \<Rightarrow> 'u msg_decoder" where
  "pb_decode n env flds dest_struct st =
     init_and_decode (pb_decode_noinit n env) n env flds dest_struct st"

definition delimited :: "'u msg_decoder \<Rightarrow> 'u denv \<Rightarrow> 'u msg_decoder" where
  "delimited dec env flds dest_struct st =
     with_substream env st (\<lambda>parent st.
       Option.bind (dec flds dest_struct st) (\<lambda>(status, st).
         ifok (close_substream env parent st) (\<lambda>st. Some (status, st))))"

definition pb_decode_delimited_noinit :: "nat \<Rightarrow> 'u denv \<Rightarrow> 'u msg_decoder" where
  "pb_decode_delimited_noinit n env = delimited (pb_decode_noinit n env) env"

definition pb_decode_delimited :: "nat \<Rightarrow> 'u denv \<Rightarrow> 'u msg_decoder" where
  "pb_decode_delimited n env = delimited (pb_decode n env) env"

definition pb_decode_nullterminated :: "nat \<Rightarrow> 'u denv \<Rightarrow> 'u msg_decoder" where
  "pb_decode_nullterminated n env = pb_decode n env"

end
