(* ===== verification/DecodeSafe.thy ===== *)
theory DecodeSafe
  imports Decode IStreamSpec
begin

text \<open>
  Memory safety and termination of the decoder on memory streams, for messages of statically
  allocated fields. The contract \<open>safe A W f\<close> plays the role \<open>meets\<close> has for the encoder: if
  the addresses of \<open>A\<close> are mapped, \<open>f\<close> returns, has written nothing outside \<open>W\<close>, has mapped
  and unmapped nothing, and has moved the stream forward only.
\<close>

section \<open>Steps of a stream\<close>

text \<open>The bytes of the array behind the window of the stream.\<close>

definition i_slack :: "'u istream \<Rightarrow> nat" where
  "i_slack s = (case i_state s of IBuf rest \<Rightarrow> length rest - unat (i_bytes_left s) | IUserState _ \<Rightarrow> 0)"

definition stream_step :: "'u istream \<Rightarrow> 'u istream \<Rightarrow> bool" where
  "stream_step s s' \<longleftrightarrow> mem_istream s' \<and> unat (i_bytes_left s') \<le> unat (i_bytes_left s) \<and> i_slack s \<le> i_slack s'"

lemma stream_step_refl [simp]: "stream_step s s \<longleftrightarrow> mem_istream s"
  by (simp add: stream_step_def)

lemma stream_step_trans: "stream_step s t \<Longrightarrow> stream_step t u \<Longrightarrow> stream_step s u"
  by (auto simp: stream_step_def)

lemma stream_step_mem: "stream_step s t \<Longrightarrow> mem_istream t"
  by (simp add: stream_step_def)

lemma i_slack_set_error [simp]: "i_slack (i_set_error msg s) = i_slack s"
  by (cases "i_state s") (simp_all add: i_slack_def)

lemma stream_step_set_error [simp]: "stream_step s (i_set_error msg t) \<longleftrightarrow> stream_step s t"
  by (simp add: stream_step_def)

lemma stream_step_advance:
  assumes "mem_istream s" "n \<le> length (avail s)"
  shows "stream_step s (i_advance s n)" "unat (i_bytes_left (i_advance s n)) = unat (i_bytes_left s) - n"
proof -
  show u: "unat (i_bytes_left (i_advance s n)) = unat (i_bytes_left s) - n"
    using unat_advance [OF assms] .
  obtain rest where r: "i_state s = IBuf rest" "unat (i_bytes_left s) \<le> length rest"
    using assms(1) by (rule mem_istreamE)
  have "n \<le> unat (i_bytes_left s)" using assms length_avail by metis
  moreover have "i_state (i_advance s n) = IBuf (drop n rest)" using r by (simp add: i_advance_def)
  ultimately have "i_slack s \<le> i_slack (i_advance s n)"
    using r u by (simp add: i_slack_def)
  then show "stream_step s (i_advance s n)"
    using assms u by (simp add: stream_step_def)
qed

text \<open>\<open>reads g\<close>: \<open>g\<close> returns, and where it gives a value it has read something.\<close>

definition reads :: "('u istream \<Rightarrow> ('v, 'u istream) valued) \<Rightarrow> bool" where
  "reads g \<longleftrightarrow> (\<forall>s. mem_istream s \<longrightarrow> (\<exists>r s'. g s = Some (r, s') \<and> stream_step s s' \<and>
     (r \<noteq> None \<longrightarrow> unat (i_bytes_left s') < unat (i_bytes_left s))))"

lemma readsD:
  assumes "reads g" "mem_istream s"
  obtains r s' where "g s = Some (r, s')" "stream_step s s'"
    "r \<noteq> None \<Longrightarrow> unat (i_bytes_left s') < unat (i_bytes_left s)"
  using assms by (auto simp: reads_def)

lemma pb_decode_varint_reads: "reads (pb_decode_varint env)"
proof -
  have "\<exists>r s'. pb_decode_varint env s = Some (r, s') \<and> stream_step s s' \<and>
     (r \<noteq> None \<longrightarrow> unat (i_bytes_left s') < unat (i_bytes_left s))" if s: "mem_istream s" for s
  proof (cases "parse_varint 10 (avail s)")
    case None
    then show ?thesis
      using stream_step_advance(1) [OF s, of "min 10 (length (avail s))"]
      by (simp add: pb_decode_varint_parse [OF s] i_value_error_def)
  next
    case (Some vn)
    obtain v n where "vn = (v, n)" by (cases vn)
    moreover from this Some have "1 \<le> n" "n \<le> length (avail s)"
      using parse_varint_length by blast+
    ultimately show ?thesis
      using Some stream_step_advance [OF s, of n] length_avail [OF s]
      by (simp add: pb_decode_varint_parse [OF s])
  qed
  then show ?thesis by (auto simp: reads_def)
qed

lemma readbyte_step:
  assumes "mem_istream s"
  shows "(pb_readbyte env s = i_value_error ''end-of-stream'' s) \<or>
     (\<exists>b. pb_readbyte env s = Some (Some b, i_advance s 1) \<and> stream_step s (i_advance s 1) \<and>
        unat (i_bytes_left (i_advance s 1)) < unat (i_bytes_left s))"
proof (cases "avail s")
  case Nil
  then show ?thesis by (simp add: pb_readbyte_mem [OF assms])
next
  case (Cons b bs)
  then have "1 \<le> length (avail s)" by simp
  then show ?thesis
    using stream_step_advance [OF assms] Cons length_avail [OF assms]
    by (simp add: pb_readbyte_mem [OF assms])
qed

lemma varint32_loop_reads: "reads (varint32_loop env bitpos result)"
proof -
  have "\<exists>r s'. varint32_loop env bitpos result s = Some (r, s') \<and> stream_step s s' \<and>
     (r \<noteq> None \<longrightarrow> unat (i_bytes_left s') < unat (i_bytes_left s))" if "mem_istream s" for s
    using that
  proof (induction "unat (i_bytes_left s)" arbitrary: s bitpos result rule: less_induct)
    case less
    from readbyte_step [OF less.prems, of env] show ?case
    proof
      assume "pb_readbyte env s = i_value_error ''end-of-stream'' s"
      then show ?thesis
        using less.prems by (subst varint32_loop.simps) (simp add: i_value_error_def)
    next
      let ?t = "i_advance s 1"
      assume "\<exists>b. pb_readbyte env s = Some (Some b, ?t) \<and> stream_step s ?t \<and>
         unat (i_bytes_left ?t) < unat (i_bytes_left s)"
      then obtain b where b: "pb_readbyte env s = Some (Some b, ?t)" "stream_step s ?t"
        "unat (i_bytes_left ?t) < unat (i_bytes_left s)" by blast
      have IH: "\<exists>r s'. varint32_loop env bp res ?t = Some (r, s') \<and> stream_step s s' \<and>
          (r \<noteq> None \<longrightarrow> unat (i_bytes_left s') < unat (i_bytes_left s))" for bp res
        using less.hyps [OF b(3) stream_step_mem [OF b(2)], of bp res] stream_step_trans [OF b(2)] b(3)
        by fastforce
      show ?thesis
        using IH b by (subst varint32_loop.simps) (auto simp: Let_def i_value_error_def)
    qed
  qed
  then show ?thesis by (simp add: reads_def)
qed

lemma pb_decode_varint32_eof_step:
  assumes "mem_istream s"
  shows "\<exists>r eof s'. pb_decode_varint32_eof env s = Some (r, eof, s') \<and> stream_step s s' \<and>
     (r \<noteq> None \<longrightarrow> unat (i_bytes_left s') < unat (i_bytes_left s))"
  using readbyte_step [OF assms, of env]
proof
  assume "pb_readbyte env s = i_value_error ''end-of-stream'' s"
  then show ?thesis
    using assms by (simp add: pb_decode_varint32_eof_def i_value_error_def)
next
  let ?t = "i_advance s 1"
  assume "\<exists>b. pb_readbyte env s = Some (Some b, ?t) \<and> stream_step s ?t \<and>
     unat (i_bytes_left ?t) < unat (i_bytes_left s)"
  then obtain b where b: "pb_readbyte env s = Some (Some b, ?t)" "stream_step s ?t"
    "unat (i_bytes_left ?t) < unat (i_bytes_left s)" by blast
  obtain r s' where "varint32_loop env 7 (ucast (b AND 0x7F)) ?t = Some (r, s')" "stream_step ?t s'"
    using varint32_loop_reads stream_step_mem [OF b(2)] by (rule readsD)
  moreover from this have "stream_step s s'" "unat (i_bytes_left s') < unat (i_bytes_left s)"
    using stream_step_trans [OF b(2)] b(3) by (auto simp: stream_step_def)
  ultimately show ?thesis
    using b by (auto simp: pb_decode_varint32_eof_def)
qed

lemma pb_decode_varint32_reads: "reads (pb_decode_varint32 env)"
  using pb_decode_varint32_eof_step [of _ env] by (fastforce simp: reads_def pb_decode_varint32_def)

lemma pb_decode_svarint_reads: "reads (pb_decode_svarint env)"
  using pb_decode_varint_reads [of env] by (fastforce simp: reads_def pb_decode_svarint_def)

lemma pb_decode_fixed_reads: "reads (pb_decode_fixed32 env)" "reads (pb_decode_fixed64 env)"
proof -
  have "\<exists>ok bs s'. read_chunk env False c s = Some (ok, bs, s') \<and> stream_step s s' \<and>
      (ok \<longrightarrow> unat (i_bytes_left s') < unat (i_bytes_left s))"
    if "mem_istream s" "0 < unat c" for s c
    using that stream_step_advance [OF that(1), of "unat c"] length_avail [OF that(1)]
    by (auto simp: read_chunk_mem)
  note chunk = this
  show "reads (pb_decode_fixed32 env)"
    unfolding reads_def
  proof (intro allI impI)
    fix s :: "'a istream" assume "mem_istream s"
    with chunk [of s 4] obtain ok bs s' where "read_chunk env False 4 s = Some (ok, bs, s')"
      "stream_step s s'" "ok \<longrightarrow> unat (i_bytes_left s') < unat (i_bytes_left s)" by auto
    then show "\<exists>r s'. pb_decode_fixed32 env s = Some (r, s') \<and> stream_step s s' \<and>
        (r \<noteq> None \<longrightarrow> unat (i_bytes_left s') < unat (i_bytes_left s))"
      by (cases ok) (simp_all add: pb_decode_fixed32_def)
  qed
  show "reads (pb_decode_fixed64 env)"
    unfolding reads_def
  proof (intro allI impI)
    fix s :: "'a istream" assume "mem_istream s"
    with chunk [of s 8] obtain ok bs s' where "read_chunk env False 8 s = Some (ok, bs, s')"
      "stream_step s s'" "ok \<longrightarrow> unat (i_bytes_left s') < unat (i_bytes_left s)" by auto
    then show "\<exists>r s'. pb_decode_fixed64 env s = Some (r, s') \<and> stream_step s s' \<and>
        (r \<noteq> None \<longrightarrow> unat (i_bytes_left s') < unat (i_bytes_left s))"
      by (cases ok) (simp_all add: pb_decode_fixed64_def)
  qed
qed

lemma pb_decode_tag_step:
  assumes "mem_istream s"
  shows "\<exists>r. pb_decode_tag env s = Some r \<and> stream_step s (t_stream r) \<and>
     (t_ok r \<longrightarrow> unat (i_bytes_left (t_stream r)) < unat (i_bytes_left s) \<and> unat (t_tag r) < 2 ^ 29)"
proof -
  obtain r eof s' where r: "pb_decode_varint32_eof env s = Some (r, eof, s')" "stream_step s s'"
    "r \<noteq> None \<Longrightarrow> unat (i_bytes_left s') < unat (i_bytes_left s)"
    using pb_decode_varint32_eof_step [OF assms, of env] by blast
  have "unat (drop_bit 3 v :: u32) < 2 ^ 29" for v
    using unsigned_less [of v, where ?'a = nat] by (simp add: unat_drop_bit_eq drop_bit_eq_div unat_div less_mult_imp_div_less)
  then show ?thesis
    using r by (cases r) (auto simp: pb_decode_tag_def)
qed

text \<open>Operations that report success or failure only.\<close>

definition skips :: "('u istream \<Rightarrow> 'u istream outcome) \<Rightarrow> bool" where
  "skips g \<longleftrightarrow> (\<forall>s. mem_istream s \<longrightarrow> (\<exists>ok s'. g s = Some (ok, s') \<and> stream_step s s'))"

lemma pb_skip_skips: "skips (pb_skip env count)"
  using stream_step_advance(1) by (auto simp: skips_def pb_skip_mem i_return_error_def)

lemma pb_skip_field_skips: "skips (pb_skip_field env wt)"
proof -
  have "skips (pb_skip_varint env)"
    unfolding skips_def
  proof (intro allI impI)
    fix s :: "'a istream" assume s: "mem_istream s"
    show "\<exists>ok s'. pb_skip_varint env s = Some (ok, s') \<and> stream_step s s'"
    proof (cases "parse_varint (length (avail s)) (avail s)")
      case None
      then show ?thesis
        using stream_step_advance(1) [OF s, of "length (avail s)"]
        by (auto simp: pb_skip_varint_parse [OF s] i_return_error_def)
    next
      case (Some vn)
      then have "snd vn \<le> length (avail s)"
        using parse_varint_length [of _ "avail s" "fst vn" "snd vn"] by simp
      then show ?thesis
        using Some stream_step_advance(1) [OF s, of "snd vn"]
        by (cases vn) (auto simp: pb_skip_varint_parse [OF s])
    qed
  qed
  moreover have "skips (pb_skip_string env)"
    unfolding skips_def
  proof (intro allI impI)
    fix s :: "'a istream" assume s: "mem_istream s"
    obtain r s' where r: "pb_decode_varint32 env s = Some (r, s')" "stream_step s s'"
      using pb_decode_varint32_reads s by (rule readsD)
    show "\<exists>ok s'. pb_skip_string env s = Some (ok, s') \<and> stream_step s s'"
    proof (cases r)
      case (Some v)
      obtain ok t where "pb_skip env (ucast v) s' = Some (ok, t)" "stream_step s' t"
        using pb_skip_skips [of env "ucast v"] stream_step_mem [OF r(2)] by (auto simp: skips_def)
      then show ?thesis
        using Some r stream_step_trans [OF r(2)] by (simp add: pb_skip_string_def)
    qed (use r in \<open>auto simp: pb_skip_string_def\<close>)
  qed
  moreover have "skips (i_return_error msg :: 'a istream \<Rightarrow> _)" for msg
    unfolding skips_def i_return_error_def by (intro allI impI exI conjI) (rule refl, simp)
  ultimately show ?thesis
    using pb_skip_skips [of env] unfolding skips_def pb_skip_field_def by simp
qed

section \<open>Steps of the memory\<close>

text \<open>Nothing is mapped, unmapped, allocated or freed, and only \<open>W\<close> is written.\<close>

definition world_step :: "addr set \<Rightarrow> world \<Rightarrow> world \<Rightarrow> bool" where
  "world_step W w w' \<longleftrightarrow> dom (w_mem w') = dom (w_mem w) \<and> w_heap w' = w_heap w \<and>
     (\<forall>p. p \<notin> W \<longrightarrow> w_mem w' p = w_mem w p)"

lemma world_step_refl [simp]: "world_step W w w"
  by (simp add: world_step_def)

lemma world_step_trans: "world_step W u v \<Longrightarrow> world_step W v w \<Longrightarrow> world_step W u w"
  by (simp add: world_step_def)

lemma world_step_mono: "world_step V v w \<Longrightarrow> V \<subseteq> W \<Longrightarrow> world_step W v w"
  by (auto simp: world_step_def)

lemma world_step_dom: "world_step W w w' \<Longrightarrow> A \<subseteq> dom (w_mem w) \<Longrightarrow> A \<subseteq> dom (w_mem w')"
  by (simp add: world_step_def)

lemma world_step_mapped: "world_step W w w' \<Longrightarrow> mapped (w_mem w') a n = mapped (w_mem w) a n"
  unfolding world_step_def mapped_def by (metis domIff)

text \<open>The addresses of \<open>n\<close> bytes from \<open>a\<close> on.\<close>

definition span :: "addr \<Rightarrow> int \<Rightarrow> addr set" where
  "span a n = {p. a \<le> p \<and> p < a + n}"

lemma span_subset: "b \<le> a \<Longrightarrow> a + n \<le> b + k \<Longrightarrow> span a n \<subseteq> span b k"
  by (auto simp: span_def)

lemma mapped_span: "mapped m a n \<longleftrightarrow> span a (int n) \<subseteq> dom m"
proof
  assume m: "mapped m a n"
  show "span a (int n) \<subseteq> dom m"
  proof
    fix p assume "p \<in> span a (int n)"
    then have "nat (p - a) < n" "p = a + int (nat (p - a))" by (auto simp: span_def)
    with m show "p \<in> dom m" unfolding mapped_def by (metis domIff)
  qed
next
  assume "span a (int n) \<subseteq> dom m"
  then show "mapped m a n" by (fastforce simp: mapped_def span_def subset_iff dom_def)
qed

text \<open>\<open>wends W w r\<close>: the operation on memory \<open>w\<close> with outcome \<open>r\<close> returned, after a step.\<close>

definition wends :: "addr set \<Rightarrow> world \<Rightarrow> world option \<Rightarrow> bool" where
  "wends W w r \<longleftrightarrow> (\<exists>w'. r = Some w' \<and> world_step W w w')"

lemma wends_Some [simp]: "wends W w (Some w') \<longleftrightarrow> world_step W w w'"
  by (simp add: wends_def)

lemma wendsE: "wends W w r \<Longrightarrow> (\<And>w'. r = Some w' \<Longrightarrow> world_step W w w' \<Longrightarrow> P) \<Longrightarrow> P"
  by (auto simp: wends_def)

lemma wends_bind:
  assumes "wends W w r" and "\<And>w'. world_step W w w' \<Longrightarrow> wends W w' (k w')"
  shows "wends W w (Option.bind r k)"
proof -
  obtain w' where w': "r = Some w'" "world_step W w w'" using assms(1) by (rule wendsE)
  then obtain w'' where "k w' = Some w''" "world_step W w' w''" using assms(2) by (blast elim: wendsE)
  with w' show ?thesis using world_step_trans by fastforce
qed

lemma w_store_wends:
  assumes "span a (int (length bs)) \<subseteq> dom (w_mem w)" "span a (int (length bs)) \<subseteq> W"
  shows "wends W w (w_store a bs w)"
proof -
  obtain m where m: "store_bytes (w_mem w) a bs = Some m"
    using assms(1) store_bytes_defined mapped_span by metis
  have "m p = w_mem w p" if "p \<notin> W" for p
  proof -
    have "p \<notin> span a (int (length bs))" using assms(2) that by blast
    then show ?thesis by (intro store_bytes_outside [OF m]) (auto simp: span_def)
  qed
  then show ?thesis
    using m store_bytes_dom [OF m] by (simp add: w_store_def world_step_def)
qed

lemma load_u32_span: "span a 4 \<subseteq> dom m \<Longrightarrow> \<exists>v. load_u32 m a = Some v"
  using load_bytes_mapped [of m a 4] mapped_span [of m a 4] by (auto simp: load_u32_def)

section \<open>The contract of decoding operations\<close>

text \<open>
  \<open>ends k W s w r\<close>: the operation on stream \<open>s\<close> and memory \<open>w\<close> with outcome \<open>r\<close> returned,
  after steps of both, and used up at least \<open>k\<close> bytes of the stream where it was successful.
\<close>

definition ends :: "nat \<Rightarrow> addr set \<Rightarrow> 'u istream \<Rightarrow> world \<Rightarrow> 'u dstate outcome \<Rightarrow> bool" where
  "ends k W s w r \<longleftrightarrow> (\<exists>ok st'. r = Some (ok, st') \<and> stream_step s (d_stream st') \<and>
     world_step W w (d_world st') \<and>
     (ok \<longrightarrow> unat (i_bytes_left (d_stream st')) + k \<le> unat (i_bytes_left s)))"

definition safe :: "nat \<Rightarrow> addr set \<Rightarrow> addr set \<Rightarrow> 'u dec \<Rightarrow> bool" where
  "safe k A W f \<longleftrightarrow> (\<forall>st. mem_istream (d_stream st) \<longrightarrow> A \<subseteq> dom (d_mem st) \<longrightarrow>
     ends k W (d_stream st) (d_world st) (f st))"

lemma safeD:
  "safe k A W f \<Longrightarrow> mem_istream (d_stream st) \<Longrightarrow> A \<subseteq> dom (d_mem st) \<Longrightarrow>
     ends k W (d_stream st) (d_world st) (f st)"
  by (simp add: safe_def)

lemma ends_Some [simp]:
  "ends k W s w (Some (ok, st')) \<longleftrightarrow> stream_step s (d_stream st') \<and> world_step W w (d_world st') \<and>
     (ok \<longrightarrow> unat (i_bytes_left (d_stream st')) + k \<le> unat (i_bytes_left s))"
  by (simp add: ends_def)

lemma endsE:
  assumes "ends k W s w r"
  obtains ok st' where "r = Some (ok, st')" "stream_step s (d_stream st')" "world_step W w (d_world st')"
    "ok \<Longrightarrow> unat (i_bytes_left (d_stream st')) + k \<le> unat (i_bytes_left s)"
  using assms by (auto simp: ends_def)

lemma ends_0: "ends k W s w r \<Longrightarrow> ends 0 W s w r"
  by (auto simp: ends_def)

lemma safe_0: "safe k A W f \<Longrightarrow> safe 0 A W f"
  by (auto simp: safe_def intro: ends_0)

lemma ends_mono: "ends k V s w r \<Longrightarrow> V \<subseteq> W \<Longrightarrow> ends k W s w r"
  by (auto simp: ends_def intro: world_step_mono)

lemma safe_mono: "safe k A V f \<Longrightarrow> A \<subseteq> B \<Longrightarrow> V \<subseteq> W \<Longrightarrow> safe k B W f"
  unfolding safe_def by (meson ends_mono subset_trans)

lemma ends_later:
  assumes "stream_step s (d_stream st)" "world_step W w (d_world st)"
    and "ends k W (d_stream st) (d_world st) r"
  shows "ends k W s w r"
  using assms(3)
proof (rule endsE)
  fix ok st'
  assume "r = Some (ok, st')" "stream_step (d_stream st) (d_stream st')" "world_step W (d_world st) (d_world st')"
    "ok \<Longrightarrow> unat (i_bytes_left (d_stream st')) + k \<le> unat (i_bytes_left (d_stream st))"
  then show ?thesis
    using stream_step_trans [OF assms(1)] world_step_trans [OF assms(2)] assms(1)
    by (auto simp: stream_step_def)
qed

lemma ends_ifok:
  assumes "ends j W s w r"
    and "\<And>st'. stream_step s (d_stream st') \<Longrightarrow> world_step W w (d_world st') \<Longrightarrow>
           unat (i_bytes_left (d_stream st')) + j \<le> unat (i_bytes_left s) \<Longrightarrow>
           ends 0 W (d_stream st') (d_world st') (k st')"
  shows "ends j W s w (ifok r k)"
  using assms(1)
proof (rule endsE)
  fix ok st'
  assume r: "r = Some (ok, st')" "stream_step s (d_stream st')" "world_step W w (d_world st')"
    "ok \<Longrightarrow> unat (i_bytes_left (d_stream st')) + j \<le> unat (i_bytes_left s)"
  show ?thesis
  proof (cases ok)
    case True
    then have e: "ends 0 W (d_stream st') (d_world st') (k st')" using r assms(2) by blast
    then show ?thesis
    proof (rule endsE)
      fix ok' st''
      assume "k st' = Some (ok', st'')" "stream_step (d_stream st') (d_stream st'')"
        "world_step W (d_world st') (d_world st'')"
      then show ?thesis
        using r True stream_step_trans [OF r(2)] world_step_trans [OF r(3)]
        by (auto simp: stream_step_def)
    qed
  qed (use r in simp)
qed

lemma ends_error:
  "mem_istream (d_stream st) \<Longrightarrow> ends k W (d_stream st) (d_world st) (d_error msg st)"
  by (simp add: d_error_def)

lemma ends_on_world:
  assumes "mem_istream (d_stream st)" "wends W (d_world st) (f (d_world st))"
  shows "ends 0 W (d_stream st) (d_world st) (on_world f st)"
  using assms by (auto simp: on_world_def wends_def)

lemma ends_on_stream:
  assumes "skips f" "mem_istream (d_stream st)"
  shows "ends 0 W (d_stream st) (d_world st) (on_stream f st)"
proof -
  obtain ok s' where "f (d_stream st) = Some (ok, s')" "stream_step (d_stream st) s'"
    using assms unfolding skips_def by blast
  then show ?thesis by (simp add: on_stream_def stream_step_def)
qed

lemma ends_read_value:
  assumes "reads g" "mem_istream (d_stream st)"
    and "\<And>v s'. stream_step (d_stream st) s' \<Longrightarrow> ends 0 W s' (d_world st) (k v (st\<lparr>d_stream := s'\<rparr>))"
  shows "ends 1 W (d_stream st) (d_world st) (read_value g st k)"
proof -
  obtain r s' where r: "g (d_stream st) = Some (r, s')" "stream_step (d_stream st) s'"
    "r \<noteq> None \<longrightarrow> unat (i_bytes_left s') < unat (i_bytes_left (d_stream st))"
    using assms(1,2) unfolding reads_def by blast
  show ?thesis
  proof (cases r)
    case (Some v)
    from assms(3) [OF r(2), of v] show ?thesis
    proof (rule endsE)
      fix ok st'
      assume "k v (st\<lparr>d_stream := s'\<rparr>) = Some (ok, st')" "stream_step s' (d_stream st')"
        "world_step W (d_world st) (d_world st')"
      then show ?thesis
        using r Some stream_step_trans [OF r(2)] by (auto simp: read_value_def stream_step_def)
    qed
  qed (use r in \<open>simp add: read_value_def\<close>)
qed

lemma ends_read_into:
  assumes "mem_istream (d_stream st)" "span dest (uint c) \<subseteq> dom (d_mem st)" "span dest (uint c) \<subseteq> W"
  shows "ends 0 W (d_stream st) (d_world st) (read_into env dest c st)"
proof (cases "unat c \<le> length (avail (d_stream st))")
  case True
  let ?bs = "take (unat c) (avail (d_stream st))"
  have "int (length ?bs) = uint c" using True by (simp add: min_absorb2)
  then have "wends W (d_world st) (w_store dest ?bs (d_world st))"
    using assms(2,3) by (intro w_store_wends) simp_all
  then obtain w' where "w_store dest ?bs (d_world st) = Some w'" "world_step W (d_world st) w'"
    by (rule wendsE)
  then show ?thesis
    using True assms(1) stream_step_advance(1) [OF assms(1) True]
    by (simp add: read_into_def read_chunk_mem stream_step_def)
next
  case False
  have "w_store dest [] (d_world st) = Some (d_world st)" by (simp add: w_store_def)
  then show ?thesis
    using False assms(1) by (simp add: read_into_def read_chunk_mem)
qed

section \<open>Substreams\<close>

text \<open>
  A substream \<open>sub\<close> cut off a stream that was \<open>s\<close>, with \<open>parent\<close> what is left: however the
  substream is used up, the array still holds the bytes the parent has to come.
\<close>

definition opened :: "'u istream \<Rightarrow> 'u istream \<Rightarrow> 'u istream \<Rightarrow> bool" where
  "opened s parent sub \<longleftrightarrow> mem_istream sub \<and> stream_step s parent \<and>
     unat (i_bytes_left parent) < unat (i_bytes_left s) \<and>
     unat (i_bytes_left parent) + i_slack s \<le> i_slack sub"

lemma pb_make_string_substream_opened:
  assumes "mem_istream s"
  shows "\<exists>r parent. pb_make_string_substream env s = Some (r, parent) \<and> stream_step s parent \<and>
     (\<forall>sub. r = Some sub \<longrightarrow> opened s parent sub)"
proof -
  obtain r t where r: "pb_decode_varint32 env s = Some (r, t)" "stream_step s t"
    "r \<noteq> None \<longrightarrow> unat (i_bytes_left t) < unat (i_bytes_left s)"
    using pb_decode_varint32_reads [of env] assms unfolding reads_def by blast
  show ?thesis
  proof (cases r)
    case None
    with r show ?thesis by (simp add: pb_make_string_substream_def)
  next
    case (Some z)
    let ?z = "ucast z :: u64" and ?sub = "t\<lparr>i_bytes_left := ucast z\<rparr>"
      and ?parent = "t\<lparr>i_bytes_left := i_bytes_left t - ucast z\<rparr>"
    show ?thesis
    proof (cases "i_bytes_left t < ?z")
      case True
      with r Some show ?thesis by (simp add: pb_make_string_substream_def i_value_error_def)
    next
      case False
      then have le: "unat ?z \<le> unat (i_bytes_left t)" by (simp add: word_le_nat_alt not_less)
      then have sub: "unat (i_bytes_left t - ?z) = unat (i_bytes_left t) - unat ?z"
        by (simp add: unat_sub_if')
      obtain rest where rest: "i_callback t = IBufRead" "i_state t = IBuf rest"
        "unat (i_bytes_left t) \<le> length rest"
        using stream_step_mem [OF r(2)] by (rule mem_istreamE)
      have "opened s ?parent ?sub" "stream_step s ?parent"
        using r Some rest le sub by (auto simp: opened_def stream_step_def mem_istream_def i_slack_def)
      with r Some False show ?thesis by (auto simp: pb_make_string_substream_def)
    qed
  qed
qed

lemma close_opened:
  assumes "opened s parent sub" "stream_step sub t"
  shows "\<exists>parent'. pb_close_string_substream env t parent = Some (True, parent') \<and>
     stream_step s parent' \<and> unat (i_bytes_left parent') < unat (i_bytes_left s)"
proof -
  have t: "mem_istream t" using assms(2) by (rule stream_step_mem)
  have all: "unat (i_bytes_left t) \<le> length (avail t)" using length_avail [OF t] by simp
  let ?u = "if i_bytes_left t \<noteq> 0 then i_advance t (unat (i_bytes_left t)) else t"
  have u: "stream_step t ?u" "unat (i_bytes_left ?u) = 0"
    using stream_step_advance [OF t all] t by simp_all
  have skip: "(if i_bytes_left t \<noteq> 0 then pb_skip env (i_bytes_left t) t else Some (True, t)) = Some (True, ?u)"
    using all by (simp add: pb_skip_mem [OF t])
  obtain ur where ur: "i_state ?u = IBuf ur" using stream_step_mem [OF u(1)] by (rule mem_istreamE)
  obtain pr where pr: "i_callback parent = IBufRead" "i_state parent = IBuf pr"
    "unat (i_bytes_left parent) \<le> length pr"
    using assms(1) stream_step_mem unfolding opened_def by (blast elim: mem_istreamE)
  let ?p = "parent\<lparr>i_state := i_state ?u, i_errmsg := i_errmsg ?u\<rparr>"
  have "i_slack sub \<le> i_slack ?u" using assms(2) u(1) by (auto simp: stream_step_def)
  then have len: "unat (i_bytes_left parent) + i_slack s \<le> length ur"
    using assms(1) u(2) ur by (simp add: opened_def i_slack_def)
  then have "mem_istream ?p" "i_slack s \<le> i_slack ?p"
    using pr ur by (simp_all add: mem_istream_def i_slack_def)
  moreover have "unat (i_bytes_left parent) < unat (i_bytes_left s)"
    using assms(1) by (simp add: opened_def)
  ultimately have "stream_step s ?p" "unat (i_bytes_left ?p) < unat (i_bytes_left s)"
    by (simp_all add: stream_step_def)
  then show ?thesis
    unfolding pb_close_string_substream_def skip by simp
qed

lemma ends_with_substream:
  assumes "mem_istream (d_stream st)"
    and "\<And>parent sub. opened (d_stream st) parent sub \<Longrightarrow>
           ends 0 W (d_stream st) (d_world st) (body parent (st\<lparr>d_stream := sub\<rparr>))"
  shows "ends 0 W (d_stream st) (d_world st) (with_substream env st body)"
proof -
  obtain r parent where r: "pb_make_string_substream (de_in env) (d_stream st) = Some (r, parent)"
    "stream_step (d_stream st) parent" "\<forall>sub. r = Some sub \<longrightarrow> opened (d_stream st) parent sub"
    using pb_make_string_substream_opened [OF assms(1), of "de_in env"] by blast
  show ?thesis
  proof (cases r)
    case None
    with r show ?thesis by (simp add: with_substream_def read_value_def stream_step_def)
  next
    case (Some sub)
    then show ?thesis
      using r assms(2) [of parent sub] by (simp add: with_substream_def read_value_def)
  qed
qed

text \<open>A body that decodes from the substream and closes it.\<close>

lemma ends_close:
  assumes "opened s parent sub" "ends 0 W sub w r"
  shows "ends 0 W s w (Option.bind r (\<lambda>(status, st). ifok (close_substream env parent st) (\<lambda>st. Some (status, st))))"
  using assms(2)
proof (rule endsE)
  fix ok st'
  assume r: "r = Some (ok, st')" "stream_step sub (d_stream st')" "world_step W w (d_world st')"
  obtain p where "pb_close_string_substream (de_in env) (d_stream st') parent = Some (True, p)"
    "stream_step s p" "unat (i_bytes_left p) < unat (i_bytes_left s)"
    using close_opened [OF assms(1) r(2)] by blast
  with r show ?thesis by (simp add: close_substream_def on_stream_def)
qed

end
