(* ===== verification/DecodeStatic.thy ===== *)
theory DecodeStatic
  imports Decode DecodeSafe
begin

text \<open>
  Messages whose fields all live inside the struct: which descriptor tables describe one
  (\<open>fits\<close>), and that setting the defaults, releasing and decoding such a message stays inside
  its struct, on every input and from every content of the struct.
\<close>

section \<open>Tables that fit a struct\<close>

definition within :: "int \<Rightarrow> int \<Rightarrow> int \<Rightarrow> bool" where
  "within sz off n \<longleftrightarrow> 0 \<le> off \<and> 0 \<le> n \<and> off + n \<le> sz"

text \<open>
  \<open>item_ok\<close>: one item of the field has the bytes its decoder stores. \<open>sub\<close> says which tables fit a
  struct of a submessage; \<open>ro\<close> are the read-only arrays that hold default values.
\<close>

definition item_ok ::
    "(pb_field list \<Rightarrow> int \<Rightarrow> bool) \<Rightarrow> tables \<Rightarrow> (addr \<times> nat) list \<Rightarrow> pb_field \<Rightarrow> bool" where
  "item_ok sub tb ro f \<longleftrightarrow>
     unat (ltype f) < PB_LTYPES_COUNT \<and> ltype f \<noteq> PB_LTYPE_EXTENSION \<and>
     (ltype f = PB_LTYPE_FIXED32 \<longrightarrow> 4 \<le> uint (f_data_size f)) \<and>
     (ltype f = PB_LTYPE_FIXED64 \<longrightarrow> 8 \<le> uint (f_data_size f)) \<and>
     (if ltype f = PB_LTYPE_SUBMESSAGE
      then f_ptr f \<noteq> NULL \<and> (case t_fields tb (f_ptr f) of None \<Rightarrow> False
             | Some flds \<Rightarrow> sub flds (uint (f_data_size f)))
      else f_ptr f = NULL \<or>
           list_ex (\<lambda>(a, n). a \<le> f_ptr f \<and> f_ptr f + uint (f_data_size f) \<le> a + int n) ro)"

definition static_field_ok ::
    "(pb_field list \<Rightarrow> int \<Rightarrow> bool) \<Rightarrow> tables \<Rightarrow> (addr \<times> nat) list \<Rightarrow> pb_field list \<Rightarrow> int \<Rightarrow> nat \<Rightarrow> bool" where
  "static_field_ok sub tb ro flds sz i \<longleftrightarrow>
     (let f = field_at flds i; off = field_offset flds i; soff = size_field_offset flds i in
      atype f = PB_ATYPE_STATIC \<and> within sz off (prev_data_size f) \<and>
      (htype f = PB_HTYPE_OPTIONAL \<and> soff \<noteq> off \<longrightarrow> within sz soff 1) \<and>
      (htype f = PB_HTYPE_REPEATED \<or> htype f = PB_HTYPE_ONEOF \<longrightarrow> within sz soff 4) \<and>
      item_ok sub tb ro f)"

text \<open>
  The table \<open>flds\<close> fits a struct of \<open>sz\<close> bytes, with submessages nested less than \<open>n\<close> deep. An
  empty table is checked at its terminator, which its decoder can reach (\<open>tag 0\<close>).
\<close>

abbreviation position :: "pb_field list \<Rightarrow> nat \<Rightarrow> bool" where
  "position flds i \<equiv> i < max 1 (length flds)"

primrec fits :: "nat \<Rightarrow> tables \<Rightarrow> (addr \<times> nat) list \<Rightarrow> pb_field list \<Rightarrow> int \<Rightarrow> bool" where
  "fits 0 tb ro flds sz = False"
| "fits (Suc n) tb ro flds sz =
     (fields_ok flds \<and> 0 \<le> sz \<and> sz < 2 ^ 32 \<and>
      list_all (static_field_ok (fits n tb ro) tb ro flds sz) [0..<max 1 (length flds)])"

lemma fits_field:
  "fits (Suc n) tb ro flds sz \<Longrightarrow> position flds i \<Longrightarrow> static_field_ok (fits n tb ro) tb ro flds sz i"
  by (simp add: list_all_iff)

lemma item_ok_mono:
  assumes "\<And>flds sz. sub flds sz \<Longrightarrow> sub' flds sz" "item_ok sub tb ro f"
  shows "item_ok sub' tb ro f"
  using assms by (auto simp: item_ok_def split: option.splits if_splits)

lemma fits_Suc: "fits n tb ro flds sz \<Longrightarrow> fits (Suc n) tb ro flds sz"
proof (induction n arbitrary: flds sz)
  case (Suc n)
  have "static_field_ok (fits (Suc n) tb ro) tb ro flds sz i"
    if "static_field_ok (fits n tb ro) tb ro flds sz i" for i
    using that item_ok_mono [OF Suc.IH] by (auto simp: static_field_ok_def Let_def simp del: fits.simps)
  then show ?case
    using Suc.prems unfolding fits.simps(2) [of "Suc n"] fits.simps(2) [of n] list_all_iff by blast
qed simp

definition const_span :: "(addr \<times> nat) list \<Rightarrow> addr set" where
  "const_span ro = (\<Union>(a, n) \<in> set ro. span a (int n))"

lemma within_span: "within sz off n \<Longrightarrow> span (d + off) n \<subseteq> span d sz"
  by (intro span_subset) (auto simp: within_def)

text \<open>Items of an array lie inside it; the 32-bit product does not wrap.\<close>

lemma item_inside:
  assumes "within sz off (uint ds * uint as)" "sz < 2 ^ 32" "i < uint (as :: u32)" "0 \<le> i"
  shows "within sz (off + uint (ds :: u32) * i) (uint ds)"
proof -
  have "uint ds * i + uint ds = uint ds * (i + 1)" by (simp add: algebra_simps)
  also have "\<dots> \<le> uint ds * uint as" using assms(3) by (intro mult_left_mono) simp_all
  finally show ?thesis using assms by (simp add: within_def)
qed

lemma item_at_inside:
  assumes "within sz off (uint (f_data_size f) * uint (f_array_size f))" "sz < 2 ^ 32" "i < f_array_size f"
  shows "span (item_at f (d + off) i) (uint (f_data_size f)) \<subseteq> span d sz"
proof -
  have i: "uint i < uint (f_array_size f)" using assms(3) by (simp add: word_less_def)
  have "uint (f_data_size f) * uint i \<le> uint (f_data_size f) * uint (f_array_size f)"
    using i by (intro mult_left_mono) simp_all
  then have "uint (f_data_size f) * uint i < 2 ^ 32"
    using assms by (simp add: within_def)
  then have "uint (f_data_size f * i) = uint (f_data_size f) * uint i"
    by (simp add: uint_word_ariths)
  moreover have "within sz (off + uint (f_data_size f) * uint i) (uint (f_data_size f))"
    using item_inside [OF assms(1,2) i] by simp
  ultimately show ?thesis
    using within_span [of sz "off + uint (f_data_size f) * uint i" "uint (f_data_size f)" d]
    by (simp add: item_at_def add.assoc)
qed

section \<open>Default values\<close>

lemma iter_loop_wends:
  assumes "fields_ok flds" "i < length flds"
    and "\<And>j w'. j < length flds \<Longrightarrow> world_step W w w' \<Longrightarrow> wends W w' (body (iter_at flds d j) w')"
  shows "\<exists>w'. iter_loop (\<lambda>it w. map_option (Pair True) (body it w)) (iter_at flds d i) w = Some (True, w') \<and> world_step W w w'"
proof -
  let ?b = "\<lambda>j w. map_option (Pair True) (body (iter_at flds d j) w)"
  have "\<exists>w''. fold_ok ?b js w' = Some (True, w'') \<and> world_step W w w''"
    if "set js \<subseteq> {..<length flds}" "world_step W w w'" for js w'
    using that
  proof (induction js arbitrary: w')
    case (Cons j js)
    then obtain v where "body (iter_at flds d j) w' = Some v" "world_step W w' v"
      using assms(3) [of j w'] by (auto elim: wendsE)
    then show ?case
      using Cons.IH [of v] Cons.prems world_step_trans [OF Cons.prems(2)] by simp
  qed simp
  moreover have "set [i..<length flds] \<subseteq> {..<length flds}" by auto
  ultimately show ?thesis
    using assms(1,2) by (simp add: iter_loop_fold)
qed

lemma message_defaults_wends:
  assumes "fields_ok flds"
    and "\<And>i w'. i < length flds \<Longrightarrow> world_step W w w' \<Longrightarrow> wends W w' (set_field (iter_at flds d i) w')"
  shows "wends W w (message_defaults set_field flds d w)"
proof (cases "flds = []")
  case True
  then show ?thesis by (simp add: message_defaults_def iter_begin)
next
  case False
  then have "f_tag (field_at flds 0) \<noteq> 0" "0 < length flds"
    using assms(1) fields_ok_tag [of flds 0] by auto
  then show ?thesis
    using iter_loop_wends [of flds 0 W w set_field d] assms
    by (auto simp: message_defaults_def iter_begin iter_do_def)
qed

lemma prev_data_size_static:
  "atype f = PB_ATYPE_STATIC \<Longrightarrow> prev_data_size f =
     (if htype f = PB_HTYPE_REPEATED then uint (f_data_size f) * uint (f_array_size f) else uint (f_data_size f))"
  by (simp add: prev_data_size_def)

lemma w_store_within:
  assumes "within sz off n" "int (length bs) \<le> n" "span d sz \<subseteq> dom (w_mem w)"
  shows "wends (span d sz) w (w_store (d + off) bs w)"
proof -
  have "span (d + off) (int (length bs)) \<subseteq> span d sz"
    using assms(1,2) by (intro span_subset) (auto simp: within_def)
  with assms(3) show ?thesis by (intro w_store_wends) blast+
qed

lemma w_memcpy_within:
  assumes "within sz off (int n)" "span d sz \<subseteq> dom (w_mem w)" "span src (int n) \<subseteq> dom (w_mem w)"
  shows "wends (span d sz) w (w_memcpy (d + off) src n w)"
proof -
  obtain bs where bs: "load_bytes (w_mem w) src n = Some bs"
    using assms(3) load_bytes_mapped mapped_span by metis
  then have "wends (span d sz) w (w_store (d + off) bs w)"
    using w_store_within [OF assms(1) _ assms(2)] load_bytes_length [OF bs] by simp
  with bs show ?thesis by (simp add: w_memcpy_def)
qed

lemma const_span_member:
  assumes "list_ex (\<lambda>(a, n). a \<le> p \<and> p + k \<le> a + int n) ro"
  shows "span p k \<subseteq> const_span ro"
proof -
  obtain a n where "(a, n) \<in> set ro" "a \<le> p" "p + k \<le> a + int n"
    using assms by (auto simp: list_ex_iff)
  then show ?thesis
    using span_subset [of a p k "int n"] by (auto simp: const_span_def)
qed

lemma field_default_wends:
  assumes "static_field_ok sub tb ro flds sz i"
    and "span d sz \<union> const_span ro \<subseteq> dom (w_mem w)"
    and "\<And>sflds ssz sd w'. sub sflds ssz \<Longrightarrow> span sd ssz \<union> const_span ro \<subseteq> dom (w_mem w') \<Longrightarrow>
           wends (span sd ssz) w' (message_defaults (pb_field_set_to_default n tb) sflds sd w')"
  shows "wends (span d sz) w (pb_field_set_to_default (Suc n) tb (iter_at flds d i) w)"
proof -
  define f where "f = field_at flds i"
  define off where "off = field_offset flds i"
  define soff where "soff = size_field_offset flds i"
  have f: "atype f = PB_ATYPE_STATIC" "within sz off (prev_data_size f)"
    "htype f = PB_HTYPE_OPTIONAL \<and> soff \<noteq> off \<Longrightarrow> within sz soff 1"
    "htype f = PB_HTYPE_REPEATED \<or> htype f = PB_HTYPE_ONEOF \<Longrightarrow> within sz soff 4"
    "item_ok sub tb ro f"
    using assms(1) by (auto simp: static_field_ok_def Let_def f_def off_def soff_def)
  have has: "wends (span d sz) w (w_store (d + soff) [0] w)"
    if "htype f = PB_HTYPE_OPTIONAL" "soff \<noteq> off"
    using f(3) that assms(2) by (intro w_store_within) auto
  have count: "wends (span d sz) w (w_store (d + soff) (bytes_of_word 4 (0 :: u32)) w)"
    if "htype f = PB_HTYPE_REPEATED \<or> htype f = PB_HTYPE_ONEOF"
    using f(4) that assms(2) by (intro w_store_within) auto
  have body: "wends (span d sz) w' (if ltype f = PB_LTYPE_SUBMESSAGE
       then Option.bind (t_fields tb (f_ptr f)) (\<lambda>flds. message_defaults (pb_field_set_to_default n tb) flds (d + off) w')
       else if f_ptr f \<noteq> NULL then w_memcpy (d + off) (f_ptr f) (unat (f_data_size f)) w'
       else w_memset0 (d + off) (unat (f_data_size f)) w')"
    if h: "htype f \<noteq> PB_HTYPE_REPEATED" and w': "world_step (span d sz) w w'" for w'
  proof -
    have wi: "within sz off (uint (f_data_size f))"
      using f(1,2) h by (simp add: prev_data_size_static)
    have dom: "span d sz \<union> const_span ro \<subseteq> dom (w_mem w')"
      using world_step_dom [OF w' assms(2)] .
    consider (sub) "ltype f = PB_LTYPE_SUBMESSAGE" | (const) "ltype f \<noteq> PB_LTYPE_SUBMESSAGE" "f_ptr f \<noteq> NULL"
      | (zero) "ltype f \<noteq> PB_LTYPE_SUBMESSAGE" "f_ptr f = NULL" by blast
    then show ?thesis
    proof cases
      case sub
      then obtain sflds where s: "t_fields tb (f_ptr f) = Some sflds" "sub sflds (uint (f_data_size f))"
        using f(5) by (auto simp: item_ok_def split: option.splits)
      have "span (d + off) (uint (f_data_size f)) \<subseteq> span d sz" using wi by (rule within_span)
      moreover from this have "wends (span (d + off) (uint (f_data_size f))) w'
          (message_defaults (pb_field_set_to_default n tb) sflds (d + off) w')"
        using dom by (intro assms(3) [OF s(2)]) blast
      ultimately show ?thesis
        using sub s by (auto simp: wends_def intro: world_step_mono)
    next
      case const
      then have "span (f_ptr f) (uint (f_data_size f)) \<subseteq> const_span ro"
        using f(5) by (intro const_span_member) (auto simp: item_ok_def)
      then have "wends (span d sz) w' (w_memcpy (d + off) (f_ptr f) (unat (f_data_size f)) w')"
        using wi dom by (intro w_memcpy_within) auto
      with const show ?thesis by simp
    next
      case zero
      have "wends (span d sz) w' (w_memset0 (d + off) (unat (f_data_size f)) w')"
        unfolding w_memset0_def using wi dom by (intro w_store_within) auto
      with zero show ?thesis by simp
    qed
  qed
  let ?flag = "if htype f = PB_HTYPE_OPTIONAL \<and> soff \<noteq> off then w_store (d + soff) [0] w
      else if htype f = PB_HTYPE_REPEATED \<or> htype f = PB_HTYPE_ONEOF
      then w_store (d + soff) (bytes_of_word 4 (0 :: u32)) w else Some w"
  let ?body = "\<lambda>w'. if htype f = PB_HTYPE_REPEATED \<or> htype f = PB_HTYPE_ONEOF then Some w'
      else if ltype f = PB_LTYPE_SUBMESSAGE
      then Option.bind (t_fields tb (f_ptr f)) (\<lambda>flds. message_defaults (pb_field_set_to_default n tb) flds (d + off) w')
      else if f_ptr f \<noteq> NULL then w_memcpy (d + off) (f_ptr f) (unat (f_data_size f)) w'
      else w_memset0 (d + off) (unat (f_data_size f)) w'"
  have "ltype f \<noteq> PB_LTYPE_EXTENSION" using f(5) by (simp add: item_ok_def)
  then have "pb_field_set_to_default (Suc n) tb (iter_at flds d i) w = Option.bind ?flag ?body"
    unfolding pb_field_set_to_default.simps Let_def iter_at_sel iter_store_has_def iter_store_size_def
      w_store_bool_def w_store_u32_def f_def [symmetric] off_def [symmetric] soff_def [symmetric]
    using f(1) by simp
  moreover have "wends (span d sz) w ?flag" using has count by simp
  moreover have "wends (span d sz) w' (?body w')" if "world_step (span d sz) w w'" for w'
    using body [OF _ that] by (cases "htype f = PB_HTYPE_REPEATED \<or> htype f = PB_HTYPE_ONEOF") simp_all
  ultimately show ?thesis by (simp only: wends_bind)
qed

lemma set_to_defaults_wends:
  "fits n tb ro flds sz \<Longrightarrow> span d sz \<union> const_span ro \<subseteq> dom (w_mem w) \<Longrightarrow>
     wends (span d sz) w (pb_message_set_to_defaults n tb flds d w)"
proof (induction n arbitrary: flds sz d w)
  case (Suc n)
  have "wends (span d sz) w' (pb_field_set_to_default (Suc n) tb (iter_at flds d i) w')"
    if "i < length flds" "world_step (span d sz) w w'" for i w'
  proof (rule field_default_wends)
    show "static_field_ok (fits n tb ro) tb ro flds sz i"
      using fits_field [OF Suc.prems(1)] that(1) by simp
    show "span d sz \<union> const_span ro \<subseteq> dom (w_mem w')"
      using world_step_dom [OF that(2) Suc.prems(2)] .
  qed (use Suc.IH in \<open>simp add: pb_message_set_to_defaults_def\<close>)
  then show ?case
    unfolding pb_message_set_to_defaults_def using Suc.prems(1)
    by (intro message_defaults_wends) (simp_all del: pb_field_set_to_default.simps)
qed simp

section \<open>Releasing\<close>

text \<open>A message without pointer fields owns no memory: releasing it changes nothing.\<close>

lemma iter_do_id:
  assumes "fields_ok flds" "flds \<noteq> []" "\<And>i. i < length flds \<Longrightarrow> body (iter_at flds d i) w = Some w"
  shows "iter_do body (iter_at flds d 0) w = Some w"
proof -
  have "fold_ok (\<lambda>j w. map_option (Pair True) (body (iter_at flds d j) w)) js w = Some (True, w)"
    if "set js \<subseteq> {..<length flds}" for js
    using that by (induction js) (simp_all add: assms(3))
  moreover have "set [0..<length flds] \<subseteq> {..<length flds}" by auto
  ultimately show ?thesis
    using assms(1,2) by (simp add: iter_do_def iter_loop_fold)
qed

lemma release_message_id:
  assumes "fields_ok flds" "\<And>i. i < length flds \<Longrightarrow> rel (iter_at flds d i) w = Some w"
  shows "release_message rel flds d w = Some w"
proof (cases "flds = []")
  case False
  then have "f_tag (field_at flds 0) \<noteq> 0"
    using assms(1) fields_ok_tag [of flds 0] by auto
  then show ?thesis
    using iter_do_id [of flds rel d w] assms False by (simp add: release_message_def iter_begin)
qed (simp add: release_message_def iter_begin)

lemma release_items_id:
  "(\<And>j. j < k \<Longrightarrow> rel (p + int j * step) w = Some w) \<Longrightarrow> release_items rel step k p w = Some w"
proof (induction k arbitrary: p)
  case (Suc k)
  have "rel (p + step + int j * step) w = Some w" if "j < k" for j
    using Suc.prems [of "Suc j"] that by (simp add: algebra_simps)
  then show ?case
    using Suc.IH [of "p + step"] Suc.prems [of 0] by simp
qed simp

lemma field_release_id:
  assumes "static_field_ok sub tb ro flds sz i" "sz < 2 ^ 32" "span d sz \<subseteq> dom (w_mem w)"
    and "\<And>sflds ssz sd. sub sflds ssz \<Longrightarrow> span sd ssz \<subseteq> dom (w_mem w) \<Longrightarrow>
           release_message (pb_release_single_field n tb) sflds sd w = Some w"
  shows "pb_release_single_field (Suc n) tb (iter_at flds d i) w = Some w"
proof -
  define f where "f = field_at flds i"
  define off where "off = field_offset flds i"
  define soff where "soff = size_field_offset flds i"
  have f: "atype f = PB_ATYPE_STATIC" "within sz off (prev_data_size f)"
    "htype f = PB_HTYPE_REPEATED \<or> htype f = PB_HTYPE_ONEOF \<Longrightarrow> within sz soff 4"
    "item_ok sub tb ro f"
    using assms(1) by (auto simp: static_field_ok_def Let_def f_def off_def soff_def)
  have count: "\<exists>v. load_u32 (w_mem w) (d + soff) = Some v"
    if "htype f = PB_HTYPE_REPEATED \<or> htype f = PB_HTYPE_ONEOF"
    using within_span [OF f(3) [OF that], of d] assms(3) by (intro load_u32_span) blast
  have submessages: "release_items (\<lambda>p w. Option.bind (t_fields tb (f_ptr f)) (\<lambda>flds.
        release_message (pb_release_single_field n tb) flds p w)) (uint (f_data_size f)) k (d + off) w = Some w"
    if sub: "ltype f = PB_LTYPE_SUBMESSAGE"
      and k: "if htype f = PB_HTYPE_REPEATED then k \<le> unat (f_array_size f) else k = 1" for k
  proof (rule release_items_id)
    fix j assume j: "j < k"
    obtain sflds where s: "t_fields tb (f_ptr f) = Some sflds" "sub sflds (uint (f_data_size f))"
      using sub f(4) by (auto simp: item_ok_def split: option.splits)
    have "within sz (off + int j * uint (f_data_size f)) (uint (f_data_size f))"
    proof (cases "htype f = PB_HTYPE_REPEATED")
      case True
      then have "int j < uint (f_array_size f)"
        using j k unfolding uint_nat of_nat_less_iff by simp
      moreover have "within sz off (uint (f_data_size f) * uint (f_array_size f))"
        using f(1,2) True by (simp add: prev_data_size_static)
      ultimately show ?thesis
        using item_inside [OF _ assms(2), of off "f_data_size f" "f_array_size f" "int j"] by (simp add: mult.commute)
    next
      case False
      then show ?thesis using j k f(1,2) by (simp add: prev_data_size_static)
    qed
    from within_span [OF this, of d]
    have "span (d + off + int j * uint (f_data_size f)) (uint (f_data_size f)) \<subseteq> dom (w_mem w)"
      using assms(3) by (simp add: add.assoc)
    with s show "Option.bind (t_fields tb (f_ptr f)) (\<lambda>flds.
        release_message (pb_release_single_field n tb) flds (d + off + int j * uint (f_data_size f)) w) = Some w"
      by (simp add: assms(4))
  qed
  obtain c where c: "release_count (iter_at flds d i) w = Some c"
    "if htype f = PB_HTYPE_REPEATED then unat c \<le> unat (f_array_size f) else c = 1"
  proof (cases "htype f = PB_HTYPE_REPEATED")
    case True
    then obtain v where v: "load_u32 (w_mem w) (d + soff) = Some v" using count by blast
    define x where "x = (if soff = off then f_array_size f else v)"
    have "release_count (iter_at flds d i) w = Some (if x > f_array_size f then f_array_size f else x)"
      using True v f(1) by (simp add: release_count_def iter_load_size_def f_def [symmetric]
          off_def [symmetric] soff_def [symmetric] x_def)
    moreover have "unat (if x > f_array_size f then f_array_size f else x) \<le> unat (f_array_size f)"
      by (simp add: word_le_nat_alt [symmetric] not_less)
    ultimately show ?thesis using that True by simp
  next
    case False
    then show ?thesis using that [of 1] by (simp add: release_count_def f_def)
  qed
  have "ltype f \<noteq> PB_LTYPE_EXTENSION" using f(4) by (simp add: item_ok_def)
  moreover have "\<exists>b. (if htype f = PB_HTYPE_ONEOF then map_option (\<lambda>which. which = f_tag f) (iter_load_size (iter_at flds d i) w)
       else Some True) = Some b"
    using count by (auto simp: iter_load_size_def soff_def)
  moreover have "release_items (\<lambda>p w. Option.bind (t_fields tb (f_ptr f)) (\<lambda>flds.
        release_message (pb_release_single_field n tb) flds p w)) (uint (f_data_size f)) (unat c) (d + off) w = Some w"
    if "ltype f = PB_LTYPE_SUBMESSAGE"
    using submessages [OF that, of "unat c"] c(2) by (auto split: if_splits)
  ultimately show ?thesis
    using f(1) c(1) by (auto simp: f_def [symmetric] off_def [symmetric])
qed

lemma release_id:
  "fits n tb ro flds sz \<Longrightarrow> span d sz \<subseteq> dom (w_mem w) \<Longrightarrow>
     (\<forall>i. position flds i \<longrightarrow> pb_release_single_field n tb (iter_at flds d i) w = Some w) \<and>
     pb_release n tb flds d w = Some w"
proof (induction n arbitrary: flds sz d)
  case (Suc n)
  have field: "pb_release_single_field (Suc n) tb (iter_at flds d i) w = Some w" if "position flds i" for i
  proof (rule field_release_id)
    show "static_field_ok (fits n tb ro) tb ro flds sz i"
      using fits_field [OF Suc.prems(1) that] .
    show "sz < 2 ^ 32" using Suc.prems(1) by simp
    show "release_message (pb_release_single_field n tb) sflds sd w = Some w"
      if "fits n tb ro sflds ssz" "span sd ssz \<subseteq> dom (w_mem w)" for sflds ssz sd
      using Suc.IH [OF that] by (simp add: pb_release_def)
  qed (rule Suc.prems(2))
  moreover have "fields_ok flds" using Suc.prems(1) by simp
  ultimately have "pb_release (Suc n) tb flds d w = Some w"
    unfolding pb_release_def by (intro release_message_id) (auto simp del: pb_release_single_field.simps)
  with field show ?case by blast
qed simp

end
