(* ===== verification/DecodeMessage.thy ===== *)
theory DecodeMessage
  imports DecodeStatic
begin

text \<open>
  The decoders of fields and messages keep the contract \<open>safe\<close> on messages that fit their
  struct: they return on every input, store inside the struct only, and allocate nothing.
\<close>

section \<open>Decoders of single values\<close>

lemma uint_ucast64 [simp]: "uint (ucast (x :: u32) :: u64) = uint x"
  using uint_lt2p [of x] by (simp add: unsigned_ucast_eq take_bit_int_eq_self)

lemma store_clamped_ends:
  assumes "mem_istream (d_stream st)" "span dest (uint (f_data_size f)) \<subseteq> dom (d_mem st)"
    "span dest (uint (f_data_size f)) \<subseteq> W"
  shows "ends 0 W (d_stream st) (d_world st) (store_clamped clamp f dest v st)"
proof (cases "f_data_size f = 8 \<or> f_data_size f = 4 \<or> f_data_size f = 2 \<or> f_data_size f = 1")
  case True
  have "wends W (d_world st) (store_int (f_data_size f) dest v (d_world st))"
    unfolding store_int_def using assms(2,3) by (intro w_store_wends) simp_all
  then have "ends 0 W (d_stream st) (d_world st) (on_world (store_int (f_data_size f) dest v) st)"
    by (rule ends_on_world [OF assms(1)])
  then have "ends 0 W (d_stream st) (d_world st)
      (ifok (on_world (store_int (f_data_size f) dest v) st)
        (\<lambda>st. if clamp (f_data_size f) v \<noteq> v then d_error ''integer too large'' st else Some (True, st)))"
  proof (rule ends_ifok)
    fix st' :: "'a dstate"
    assume "stream_step (d_stream st) (d_stream st')"
    then have "mem_istream (d_stream st')" by (rule stream_step_mem)
    then show "ends 0 W (d_stream st') (d_world st')
        (if clamp (f_data_size f) v \<noteq> v then d_error ''integer too large'' st' else Some (True, st'))"
      by (simp add: ends_error)
  qed
  moreover have "\<not> \<not> (f_data_size f = 8 \<or> f_data_size f = 4 \<or> f_data_size f = 2 \<or> f_data_size f = 1)"
    using True by blast
  ultimately show ?thesis unfolding store_clamped_def Let_def by (simp only: if_False)
next
  case False
  then show ?thesis using ends_error [OF assms(1)] by (simp add: store_clamped_def)
qed

lemma safe_read_value:
  assumes "reads g"
    and "\<And>v st. mem_istream (d_stream st) \<Longrightarrow> A \<subseteq> dom (d_mem st) \<Longrightarrow>
           ends 0 W (d_stream st) (d_world st) (k v st)"
  shows "safe 1 A W (\<lambda>st. read_value g st k)"
  unfolding safe_def
proof (intro allI impI)
  fix st :: "'a dstate"
  assume st: "mem_istream (d_stream st)" "A \<subseteq> dom (d_mem st)"
  show "ends 1 W (d_stream st) (d_world st) (read_value g st k)"
  proof (rule ends_read_value [OF assms(1) st(1)])
    fix v s' assume "stream_step (d_stream st) s'"
    then show "ends 0 W s' (d_world st) (k v (st\<lparr>d_stream := s'\<rparr>))"
      using assms(2) [of "st\<lparr>d_stream := s'\<rparr>" v] st stream_step_mem [of "d_stream st" s'] by simp
  qed
qed

lemma pb_dec_integers_safe:
  assumes "span dest (uint (f_data_size f)) \<subseteq> W"
  shows "safe 1 W W (pb_dec_varint env f dest)" "safe 1 W W (pb_dec_uvarint env f dest)"
    "safe 1 W W (pb_dec_svarint env f dest)"
proof -
  have st: "ends 0 W (d_stream st) (d_world st) (store_clamped clamp f dest v st)"
    if "mem_istream (d_stream st)" "W \<subseteq> dom (d_mem st)" for clamp v and st :: "'a dstate"
    using that assms by (intro store_clamped_ends) auto
  show "safe 1 W W (pb_dec_varint env f dest)"
    unfolding pb_dec_varint_def Let_def by (rule safe_read_value [OF pb_decode_varint_reads]) (rule st)
  show "safe 1 W W (pb_dec_uvarint env f dest)"
    unfolding pb_dec_uvarint_def by (rule safe_read_value [OF pb_decode_varint_reads]) (rule st)
  show "safe 1 W W (pb_dec_svarint env f dest)"
    unfolding pb_dec_svarint_def by (rule safe_read_value [OF pb_decode_svarint_reads]) (rule st)
qed

lemma ends_store:
  assumes "mem_istream (d_stream st)" "span dest (int (length bs)) \<subseteq> W" "W \<subseteq> dom (d_mem st)"
  shows "ends 0 W (d_stream st) (d_world st) (on_world (w_store dest bs) st)"
  using assms by (intro ends_on_world w_store_wends) auto

lemma pb_dec_fixed_safe:
  "span dest 4 \<subseteq> W \<Longrightarrow> safe 1 W W (pb_dec_fixed32 env f dest)"
  "span dest 8 \<subseteq> W \<Longrightarrow> safe 1 W W (pb_dec_fixed64 env f dest)"
  unfolding pb_dec_fixed32_def pb_dec_fixed64_def
  by (rule safe_read_value [OF pb_decode_fixed_reads(1)] safe_read_value [OF pb_decode_fixed_reads(2)],
      rule ends_store; simp)+

lemma pb_dec_bytes_safe:
  assumes "span dest (uint (f_data_size f)) \<subseteq> W" "atype f = PB_ATYPE_STATIC"
  shows "safe 1 W W (pb_dec_bytes env f dest)"
  unfolding pb_dec_bytes_def
proof (rule safe_read_value [OF pb_decode_varint32_reads])
  fix sz :: u32 and st :: "'a dstate"
  assume st: "mem_istream (d_stream st)" "W \<subseteq> dom (d_mem st)"
  have alloc: "uint (PB_BYTES_ARRAY_T_ALLOCSIZE sz) = uint sz + 4"
  proof -
    have "uint sz < 2 ^ 32" using uint_lt2p [of sz] by simp
    then show ?thesis
      by (simp add: PB_BYTES_ARRAY_T_ALLOCSIZE_def uint_word_ariths)
  qed
  have "ends 0 W (d_stream st) (d_world st)
      (ifok (on_world (w_store_u32 dest sz) st) (read_into env (dest + BYTES_OFFSET) (ucast sz)))"
    if fit: "\<not> PB_BYTES_ARRAY_T_ALLOCSIZE sz > ucast (f_data_size f)"
  proof (rule ends_ifok)
    have le: "uint sz + 4 \<le> uint (f_data_size f)"
      using fit unfolding word_less_def not_less alloc by simp
    have "span dest 4 \<subseteq> span dest (uint (f_data_size f))"
      using le uint_ge_0 [of sz] by (intro span_subset) linarith+
    then show "ends 0 W (d_stream st) (d_world st) (on_world (w_store_u32 dest sz) st)"
      unfolding w_store_u32_def using st assms(1) by (intro ends_store) auto
    fix st' :: "'a dstate"
    assume "stream_step (d_stream st) (d_stream st')" "world_step W (d_world st) (d_world st')"
    then have st': "mem_istream (d_stream st')" "W \<subseteq> dom (d_mem st')"
      using stream_step_mem st(2) world_step_dom by blast+
    have "span (dest + BYTES_OFFSET) (uint (ucast sz :: u64)) \<subseteq> span dest (uint (f_data_size f))"
      using le by (intro span_subset) (simp_all add: BYTES_OFFSET_def)
    then show "ends 0 W (d_stream st') (d_world st') (read_into env (dest + BYTES_OFFSET) (ucast sz) st')"
      using st' assms(1) by (intro ends_read_into) auto
  qed
  then show "ends 0 W (d_stream st) (d_world st) (if sz > PB_SIZE_MAX then d_error ''bytes overflow'' st
       else
        (let alloc_size = PB_BYTES_ARRAY_T_ALLOCSIZE sz in
         if ucast sz > alloc_size then d_error ''size too large'' st
         else
          ifok (if atype f = PB_ATYPE_POINTER then allocate_field env dest alloc_size 1 st
                else if alloc_size > ucast (f_data_size f) then d_error ''bytes overflow'' st
                else Some (True, st)) (\<lambda>st.
          Option.bind (if atype f = PB_ATYPE_POINTER then load_ptr (d_mem st) dest else Some dest) (\<lambda>bdest.
          ifok (on_world (w_store_u32 bdest sz) st) (read_into env (bdest + BYTES_OFFSET) (ucast sz))))))"
    using ends_error [OF st(1)] assms(2)
    by (simp add: Let_def) (simp add: d_error_def st(1))
qed

lemma pb_dec_fixed_length_bytes_safe:
  assumes "span dest (uint (f_data_size f)) \<subseteq> W"
  shows "safe 1 W W (pb_dec_fixed_length_bytes env f dest)"
  unfolding pb_dec_fixed_length_bytes_def
proof (rule safe_read_value [OF pb_decode_varint32_reads])
  fix sz :: u32 and st :: "'a dstate"
  assume st: "mem_istream (d_stream st)" "W \<subseteq> dom (d_mem st)"
  have "ends 0 W (d_stream st) (d_world st) (on_world (w_memset0 dest (unat (f_data_size f))) st)"
    unfolding w_memset0_def using st assms by (intro ends_store) simp_all
  moreover have "ends 0 W (d_stream st) (d_world st) (read_into env dest (ucast (f_data_size f)) st)"
    using st assms by (intro ends_read_into) auto
  ultimately show "ends 0 W (d_stream st) (d_world st)
      (if sz > PB_SIZE_MAX then d_error ''bytes overflow'' st
       else if sz = 0 then on_world (w_memset0 dest (unat (f_data_size f))) st
       else if sz \<noteq> f_data_size f then d_error ''incorrect fixed length bytes size'' st
       else read_into env dest (ucast (f_data_size f)) st)"
    using ends_error [OF st(1)] by simp
qed

lemma pb_dec_string_safe:
  assumes "span dest (uint (f_data_size f)) \<subseteq> W" "atype f = PB_ATYPE_STATIC"
  shows "safe 1 W W (pb_dec_string env f dest)"
  unfolding pb_dec_string_def
proof (rule safe_read_value [OF pb_decode_varint32_reads])
  fix sz :: u32 and st :: "'a dstate"
  assume st: "mem_istream (d_stream st)" "W \<subseteq> dom (d_mem st)"
  have "ends 0 W (d_stream st) (d_world st)
      (Option.bind (read_into env dest (ucast sz) st) (\<lambda>(status, st).
         map_option (\<lambda>(_, st). (status, st)) (on_world (w_store (dest + uint sz) [0]) st)))"
    if no_wrap: "\<not> (ucast (sz + 1) :: u64) < ucast sz" and fit: "\<not> (ucast (sz + 1) :: u64) > ucast (f_data_size f)"
  proof -
    have "uint (sz + 1) = uint sz + 1"
    proof -
      have "uint sz \<le> uint (sz + 1)" using no_wrap by (simp add: word_less_def not_less)
      moreover have "uint (sz + 1) = (uint sz + 1) mod 2 ^ 32" by (simp add: uint_word_ariths)
      moreover have "uint sz < 2 ^ 32" using uint_lt2p [of sz] by simp
      ultimately show ?thesis by (cases "uint sz + 1 = 2 ^ 32") auto
    qed
    then have le: "uint sz + 1 \<le> uint (f_data_size f)"
      using fit by (simp add: word_less_def not_less)
    have sub: "span dest (uint sz) \<subseteq> W" "span (dest + uint sz) 1 \<subseteq> W"
    proof -
      have "span dest (uint sz) \<subseteq> span dest (uint (f_data_size f))"
        "span (dest + uint sz) 1 \<subseteq> span dest (uint (f_data_size f))"
        using le by (intro span_subset; simp)+
      then show "span dest (uint sz) \<subseteq> W" "span (dest + uint sz) 1 \<subseteq> W" using assms(1) by blast+
    qed
    have "ends 0 W (d_stream st) (d_world st) (read_into env dest (ucast sz) st)"
      using st sub(1) by (intro ends_read_into) auto
    then show ?thesis
    proof (rule endsE)
      fix ok st'
      assume r: "read_into env dest (ucast sz) st = Some (ok, st')"
        "stream_step (d_stream st) (d_stream st')" "world_step W (d_world st) (d_world st')"
        "ok \<Longrightarrow> unat (i_bytes_left (d_stream st')) + 0 \<le> unat (i_bytes_left (d_stream st))"
      have "W \<subseteq> dom (d_mem st')" using world_step_dom [OF r(3)] st(2) .
      then have "wends W (d_world st') (w_store (dest + uint sz) [0] (d_world st'))"
        using sub(2) by (intro w_store_wends) auto
      then obtain w where "w_store (dest + uint sz) [0] (d_world st') = Some w" "world_step W (d_world st') w"
        by (rule wendsE)
      with r show ?thesis
        using world_step_trans [OF r(3)] by (simp add: on_world_def stream_step_def)
    qed
  qed
  then show "ends 0 W (d_stream st) (d_world st)
      (let alloc_size = (ucast (sz + 1) :: u64) in
       if alloc_size < ucast sz then d_error ''size too large'' st
       else
        ifok (if atype f = PB_ATYPE_POINTER then allocate_field env dest alloc_size 1 st
              else if alloc_size > ucast (f_data_size f) then d_error ''string overflow'' st
              else Some (True, st)) (\<lambda>st.
        Option.bind (if atype f = PB_ATYPE_POINTER then load_ptr (d_mem st) dest else Some dest) (\<lambda>dest.
        Option.bind (read_into env dest (ucast sz) st) (\<lambda>(status, st).
          map_option (\<lambda>(_, st). (status, st)) (on_world (w_store (dest + uint sz) [0]) st)))))"
    using ends_error [OF st(1)] assms(2)
    by (simp add: Let_def) (simp add: d_error_def st(1))
qed

section \<open>Decoders that call the message decoder\<close>

text \<open>
  What the field decoders rely on: decoding a message of a table that fits a struct is safe for
  that struct. \<open>n\<close> is the depth of the submessages (the fuel of the message is one more), \<open>dec\<close> and \<open>noinit\<close> are the decoders of
  submessages (\<open>pb_decode\<close> and \<open>pb_decode_noinit\<close>), and \<open>ro\<close> holds the defaults.
\<close>

definition decodes_static ::
    "nat \<Rightarrow> 'u denv \<Rightarrow> (addr \<times> nat) list \<Rightarrow> 'u msg_decoder \<Rightarrow> bool" where
  "decodes_static n env ro dec \<longleftrightarrow> (\<forall>flds sz d. fits n (de_tables env) ro flds sz \<longrightarrow>
     safe 0 (span d sz \<union> const_span ro) (span d sz) (dec flds d))"

lemma decodes_staticD:
  "decodes_static n env ro dec \<Longrightarrow> fits n (de_tables env) ro flds sz \<Longrightarrow>
     safe 0 (span d sz \<union> const_span ro) (span d sz) (dec flds d)"
  by (simp add: decodes_static_def)

lemma htype_cases:
  "htype f = PB_HTYPE_REQUIRED \<or> htype f = PB_HTYPE_OPTIONAL \<or> htype f = PB_HTYPE_REPEATED \<or> htype f = PB_HTYPE_ONEOF"
proof -
  have "f_type f AND 0x30 = (if bit (f_type f) 4 then 0x10 else 0) OR (if bit (f_type f) 5 then 0x20 else 0)"
  proof (rule bit_word_eqI)
    fix k assume "k < LENGTH(8)"
    then have "k \<in> {0, 1, 2, 3, 4, 5, 6, 7}" by auto
    then show "bit (f_type f AND 0x30) k =
        bit ((if bit (f_type f) 4 then 0x10 else 0) OR (if bit (f_type f) 5 then 0x20 else 0) :: u8) k"
      by (auto simp: bit_simps)
  qed
  then show ?thesis by (simp add: pb_type_defs split: if_splits)
qed

lemma word_less_10_cases:
  assumes "(w :: u8) < 10"
  shows "w = 0 \<or> w = 1 \<or> w = 2 \<or> w = 3 \<or> w = 4 \<or> w = 5 \<or> w = 6 \<or> w = 7 \<or> w = 8 \<or> w = 9"
proof -
  have "unat w < 10" using assms by (simp add: word_less_nat_alt)
  then have "unat w \<in> {0, 1, 2, 3, 4, 5, 6, 7, 8, 9}" by auto
  then show ?thesis by (auto simp: word_unat_eq_iff)
qed

lemma call_decoder_cases:
  "ltype f = 0 \<Longrightarrow> call_decoder dec noinit env f dest = pb_dec_varint env f dest"
  "ltype f = 1 \<Longrightarrow> call_decoder dec noinit env f dest = pb_dec_uvarint env f dest"
  "ltype f = 2 \<Longrightarrow> call_decoder dec noinit env f dest = pb_dec_svarint env f dest"
  "ltype f = 3 \<Longrightarrow> call_decoder dec noinit env f dest = pb_dec_fixed32 env f dest"
  "ltype f = 4 \<Longrightarrow> call_decoder dec noinit env f dest = pb_dec_fixed64 env f dest"
  "ltype f = 5 \<Longrightarrow> call_decoder dec noinit env f dest = pb_dec_bytes env f dest"
  "ltype f = 6 \<Longrightarrow> call_decoder dec noinit env f dest = pb_dec_string env f dest"
  "ltype f = 7 \<Longrightarrow> call_decoder dec noinit env f dest = pb_dec_submessage dec noinit env f dest"
  "ltype f = 9 \<Longrightarrow> call_decoder dec noinit env f dest = pb_dec_fixed_length_bytes env f dest"
  by (rule ext, simp add: call_decoder_def PB_DECODERS_def PB_LTYPES_COUNT_def)+

locale static_decoder =
  fixes n :: nat and env :: "'u denv" and ro :: "(addr \<times> nat) list"
    and dec noinit :: "'u msg_decoder"
  assumes dec_static: "decodes_static n env ro dec"
    and noinit_static: "decodes_static n env ro noinit"
begin

lemma pb_dec_submessage_safe:
  assumes "span dest (uint (f_data_size f)) \<subseteq> W" "ltype f = PB_LTYPE_SUBMESSAGE"
    and "item_ok (fits n (de_tables env) ro) (de_tables env) ro f"
  shows "safe 0 (W \<union> const_span ro) W (pb_dec_submessage dec noinit env f dest)"
  unfolding safe_def
proof (intro allI impI)
  fix st :: "'u dstate"
  assume st: "mem_istream (d_stream st)" "W \<union> const_span ro \<subseteq> dom (d_mem st)"
  obtain flds where flds: "f_ptr f \<noteq> NULL" "t_fields (de_tables env) (f_ptr f) = Some flds"
    "fits n (de_tables env) ro flds (uint (f_data_size f))"
    using assms(2,3) by (auto simp: item_ok_def split: option.splits)
  let ?g = "\<lambda>st. if htype f = PB_HTYPE_REPEATED then dec flds dest st else noinit flds dest st"
  have area: "span dest (uint (f_data_size f)) \<union> const_span ro \<subseteq> W \<union> const_span ro"
    using assms(1) by blast
  have g: "safe 0 (W \<union> const_span ro) W ?g"
  proof (cases "htype f = PB_HTYPE_REPEATED")
    case True
    then show ?thesis
      using safe_mono [OF decodes_staticD [OF dec_static flds(3)] area assms(1)] by simp
  next
    case False
    then show ?thesis
      using safe_mono [OF decodes_staticD [OF noinit_static flds(3)] area assms(1)] by simp
  qed
  show "ends 0 W (d_stream st) (d_world st) (pb_dec_submessage dec noinit env f dest st)"
    unfolding pb_dec_submessage_def
  proof (rule ends_with_substream [OF st(1)])
    fix parent sub assume o: "opened (d_stream st) parent sub"
    then have "ends 0 W sub (d_world st) (?g (st\<lparr>d_stream := sub\<rparr>))"
      using safeD [OF g, of "st\<lparr>d_stream := sub\<rparr>"] st(2) by (simp add: opened_def)
    from ends_close [OF o this, of env]
    show "ends 0 W (d_stream st) (d_world st)
       (if f_ptr f = NULL then d_error ''invalid field descriptor'' (st\<lparr>d_stream := sub\<rparr>\<lparr>d_stream := parent\<rparr>)
        else Option.bind (t_fields (de_tables env) (f_ptr f)) (\<lambda>flds.
          Option.bind (if htype f = PB_HTYPE_REPEATED then dec flds dest (st\<lparr>d_stream := sub\<rparr>)
                       else noinit flds dest (st\<lparr>d_stream := sub\<rparr>))
            (\<lambda>(status, st). ifok (close_substream env parent st) (\<lambda>st. Some (status, st)))))"
      using flds by simp
  qed
qed

lemma call_decoder_safe:
  assumes "span dest (uint (f_data_size f)) \<subseteq> W" "atype f = PB_ATYPE_STATIC"
    and "item_ok (fits n (de_tables env) ro) (de_tables env) ro f"
  shows "safe (if ltype f \<le> PB_LTYPE_LAST_PACKABLE then 1 else 0) (W \<union> const_span ro) W
           (call_decoder dec noinit env f dest)"
proof -
  have lift: "safe (if ltype f \<le> PB_LTYPE_LAST_PACKABLE then 1 else 0) (W \<union> const_span ro) W g"
    if "safe 1 W W g" for g
    using that safe_0 [OF that] safe_mono [of _ W W g "W \<union> const_span ro" W] by auto
  have fixed: "span dest 4 \<subseteq> W" if "ltype f = PB_LTYPE_FIXED32"
    using that assms(1,3) span_subset [of dest dest 4 "uint (f_data_size f)"] by (auto simp: item_ok_def)
  have fixed': "span dest 8 \<subseteq> W" if "ltype f = PB_LTYPE_FIXED64"
    using that assms(1,3) span_subset [of dest dest 8 "uint (f_data_size f)"] by (auto simp: item_ok_def)
  have "ltype f < 10" "ltype f \<noteq> 8"
    using assms(3) by (auto simp: item_ok_def pb_type_defs word_less_nat_alt)
  then consider "ltype f = 0" | "ltype f = 1" | "ltype f = 2" | "ltype f = 3" | "ltype f = 4"
    | "ltype f = 5" | "ltype f = 6" | "ltype f = 7" | "ltype f = 9"
    using word_less_10_cases by blast
  then show ?thesis
  proof cases
    case 1
    show ?thesis unfolding call_decoder_cases(1) [OF 1] by (rule lift [OF pb_dec_integers_safe(1) [OF assms(1)]])
  next
    case 2
    show ?thesis unfolding call_decoder_cases(2) [OF 2] by (rule lift [OF pb_dec_integers_safe(2) [OF assms(1)]])
  next
    case 3
    show ?thesis unfolding call_decoder_cases(3) [OF 3] by (rule lift [OF pb_dec_integers_safe(3) [OF assms(1)]])
  next
    case 4
    show ?thesis unfolding call_decoder_cases(4) [OF 4] by (rule lift [OF pb_dec_fixed_safe(1) [OF fixed]]) (simp add: ltype_defs 4)
  next
    case 5
    show ?thesis unfolding call_decoder_cases(5) [OF 5] by (rule lift [OF pb_dec_fixed_safe(2) [OF fixed']]) (simp add: ltype_defs 5)
  next
    case 6
    show ?thesis unfolding call_decoder_cases(6) [OF 6] by (rule lift [OF pb_dec_bytes_safe [OF assms(1,2)]])
  next
    case 7
    show ?thesis unfolding call_decoder_cases(7) [OF 7] by (rule lift [OF pb_dec_string_safe [OF assms(1,2)]])
  next
    case 8
    then have "\<not> ltype f \<le> PB_LTYPE_LAST_PACKABLE" "ltype f = PB_LTYPE_SUBMESSAGE"
      by (simp_all add: ltype_defs)
    then show ?thesis
      using pb_dec_submessage_safe [OF assms(1) _ assms(3)] by (simp add: call_decoder_cases(8) [OF 8])
  next
    case 9
    show ?thesis unfolding call_decoder_cases(9) [OF 9] by (rule lift [OF pb_dec_fixed_length_bytes_safe [OF assms(1)]])
  qed
qed

end

section \<open>Static fields\<close>

definition size_ok :: "addr set \<Rightarrow> psize \<Rightarrow> bool" where
  "size_ok W ps \<longleftrightarrow> (case ps of AtAddr a \<Rightarrow> span a 4 \<subseteq> W | FixedCountSize \<Rightarrow> True)"

lemma load_size_ok:
  assumes "size_ok W ps" "W \<subseteq> dom (d_mem st)"
  shows "\<exists>v. load_size ps st = Some v"
proof (cases ps)
  case (AtAddr a)
  then show ?thesis
    using assms load_u32_span [of a "d_mem st"] by (auto simp: size_ok_def load_size_def)
qed (simp add: load_size_def)

lemma store_size_ends:
  assumes "size_ok W ps" "mem_istream (d_stream st)" "W \<subseteq> dom (d_mem st)"
  shows "ends 0 W (d_stream st) (d_world st) (store_size ps v st)"
proof (cases ps)
  case (AtAddr a)
  then show ?thesis
    using assms unfolding store_size_def w_store_u32_def
    by (simp add: size_ok_def) (intro ends_store; simp)
qed (use assms in \<open>simp add: store_size_def\<close>)

lemma packed_static_ends:
  assumes "mem_istream (d_stream st)" "W \<subseteq> A" "A \<subseteq> dom (d_mem st)" "size_ok W ps"
    and "\<And>i. i < f_array_size f \<Longrightarrow> safe 1 A W (func (item_at f pData i))"
  shows "ends 0 W (d_stream st) (d_world st) (packed_static func f pData ps st)"
  using assms(1,3)
proof (induction "unat (i_bytes_left (d_stream st))" arbitrary: st rule: less_induct)
  case less
  show ?case
  proof (cases "i_bytes_left (d_stream st) = 0")
    case True
    then show ?thesis using less.prems by (subst packed_static.simps) simp
  next
    case False
    obtain sz where sz: "load_size ps st = Some sz"
      using load_size_ok [OF assms(4)] assms(2) less.prems(2) by blast
    have "ends 0 W (d_stream st) (d_world st) (ifok (func (item_at f pData sz) st) (\<lambda>st.
        Option.bind (load_size ps st) (\<lambda>sz. ifok (store_size ps (sz + 1) st) (packed_static func f pData ps))))"
      if lt: "sz < f_array_size f"
    proof (rule ends_0, rule ends_ifok)
      show "ends 1 W (d_stream st) (d_world st) (func (item_at f pData sz) st)"
        using safeD [OF assms(5) [OF lt] less.prems] .
      fix st1 :: "'a dstate"
      assume st1: "stream_step (d_stream st) (d_stream st1)" "world_step W (d_world st) (d_world st1)"
        "unat (i_bytes_left (d_stream st1)) + 1 \<le> unat (i_bytes_left (d_stream st))"
      have st1': "mem_istream (d_stream st1)" "A \<subseteq> dom (d_mem st1)"
        using stream_step_mem [OF st1(1)] world_step_dom [OF st1(2) less.prems(2)] by simp_all
      then obtain sz1 where sz1: "load_size ps st1 = Some sz1"
        using load_size_ok [OF assms(4)] assms(2) by blast
      have "ends 0 W (d_stream st1) (d_world st1)
          (ifok (store_size ps (sz1 + 1) st1) (packed_static func f pData ps))"
      proof (rule ends_ifok)
        show "ends 0 W (d_stream st1) (d_world st1) (store_size ps (sz1 + 1) st1)"
          using store_size_ends [OF assms(4) st1'(1)] st1'(2) assms(2) by blast
        fix st2 :: "'a dstate"
        assume st2: "stream_step (d_stream st1) (d_stream st2)" "world_step W (d_world st1) (d_world st2)"
        show "ends 0 W (d_stream st2) (d_world st2) (packed_static func f pData ps st2)"
          by (rule less.hyps)
            (use st1(3) st2 stream_step_mem [OF st2(1)] world_step_dom [OF st2(2) st1'(2)] in
              \<open>auto simp: stream_step_def\<close>)
      qed
      then show "ends 0 W (d_stream st1) (d_world st1) (Option.bind (load_size ps st1)
          (\<lambda>sz. ifok (store_size ps (sz + 1) st1) (packed_static func f pData ps)))"
        by (simp add: sz1)
    qed
    then show ?thesis
      using False sz less.prems by (subst packed_static.simps) simp
  qed
qed

text \<open>
  Where the iterator stands in the table: on a field, with the address of its count, or with the
  local \<open>fixed_count_size\<close> in place of the count a fixed-count array does not have.
\<close>

definition stands :: "pb_field list \<Rightarrow> addr \<Rightarrow> nat \<Rightarrow> pb_field_iter \<Rightarrow> bool" where
  "stands flds d i it \<longleftrightarrow> position flds i \<and>
     (it = iter_at flds d i \<or>
      htype (field_at flds i) = PB_HTYPE_REPEATED \<and> it = iter_at flds d i\<lparr>it_pSize := FixedCountSize\<rparr>)"

lemma stands_sel:
  assumes "stands flds d i it"
  shows "it_field it = field_at flds i" "it_pData it = d + field_offset flds i" "it_pos it = i"
    "it_start it = flds" "it_dest_struct it = d"
    "it_pSize it = AtAddr (d + size_field_offset flds i) \<or>
     it_pSize it = FixedCountSize \<and> htype (field_at flds i) = PB_HTYPE_REPEATED"
  using assms by (auto simp: stands_def iter_at_def it_field_def)

lemma iter_next_fixed_count:
  assumes "i < length flds" "htype (flds ! i) = PB_HTYPE_REPEATED" "f_tag (flds ! i) \<noteq> 0"
  shows "pb_field_iter_next (iter_at flds d i\<lparr>it_pSize := FixedCountSize\<rparr>) = pb_field_iter_next (iter_at flds d i)"
  using assms by (simp add: pb_field_iter_next_def Let_def iter_at_def it_field_def inside_union_def)

text \<open>A search from any field comes to rest on a field, a wanted one where it is successful.\<close>

lemma find_stands:
  assumes "fields_ok flds" "stands flds d i it"
  shows "\<exists>found it' j. find_loop (Suc (length flds)) wanted i it = Some (found, it') \<and> stands flds d j it' \<and>
     (found \<longrightarrow> wanted (field_at flds j))"
proof (cases "flds = []")
  case True
  then have "i = 0" "it = iter_at [] d 0"
    using assms(2) by (auto simp: stands_def PB_LAST_FIELD_def pb_type_defs)
  with True show ?thesis
    by (cases "wanted PB_LAST_FIELD") (auto simp: stands_def)
next
  case False
  then have "max 1 (length flds) = length flds" by (cases flds) simp_all
  then have i: "i < length flds" using assms(2) by (auto simp: stands_def)
  have plain: "\<exists>found it' j. find_loop (Suc (length flds)) wanted i (iter_at flds d i) = Some (found, it') \<and>
      stands flds d j it' \<and> (found \<longrightarrow> wanted (field_at flds j))"
  proof -
    have "stands flds d j (iter_at flds d j)" if "j < length flds" for j
      using that by (auto simp: stands_def)
    then show ?thesis
      using find_loop_start [OF assms(1) i, of "Suc (length flds)" d wanted] i
      unfolding find_result_def by (metis field_at_nth le_SucI order_refl)
  qed
  show ?thesis
  proof (cases "it = iter_at flds d i")
    case True
    with plain show ?thesis by simp
  next
    case fixed: False
    then have it: "it = iter_at flds d i\<lparr>it_pSize := FixedCountSize\<rparr>" "htype (flds ! i) = PB_HTYPE_REPEATED"
      using assms(2) i by (auto simp: stands_def)
    have "f_tag (flds ! i) \<noteq> 0" using assms(1) i by (auto simp: fields_ok_def)
    note next_eq = iter_next_fixed_count [OF i it(2) this, of d]
    have field: "it_field it = flds ! i" using stands_sel(1) [OF assms(2)] i by simp
    show ?thesis
    proof (cases "wanted (flds ! i)")
      case True
      with field have "find_loop (Suc (length flds)) wanted i it = Some (True, it)" by simp
      with True assms(2) i show ?thesis
        by (intro exI [of _ True] exI [of _ it] exI [of _ i]) simp
    next
      case False
      then have "find_loop (Suc (length flds)) wanted i it = find_loop (Suc (length flds)) wanted i (iter_at flds d i)"
        using field i next_eq by (simp add: it(1))
      with plain show ?thesis by simp
    qed
  qed
qed

context static_decoder
begin

abbreviation area :: "addr \<Rightarrow> int \<Rightarrow> addr set" where
  "area d sz \<equiv> span d sz \<union> const_span ro"

lemma initialize_pointer_field_wends:
  assumes "it_field it = f" "ltype f = PB_LTYPE_SUBMESSAGE"
    "item_ok (fits n (de_tables env) ro) (de_tables env) ro f"
    "span p (uint (f_data_size f)) \<subseteq> W" "W \<union> const_span ro \<subseteq> dom (w_mem w)"
  shows "wends W w (initialize_pointer_field (Suc n) env p it w)"
proof -
  obtain flds where flds: "t_fields (de_tables env) (f_ptr f) = Some flds"
    "fits n (de_tables env) ro flds (uint (f_data_size f))"
    using assms(2,3) by (auto simp: item_ok_def split: option.splits)
  have "wends W w (Option.bind (w_memset0 p (unat (f_data_size f)) w) (\<lambda>w.
      pb_message_set_to_defaults (Suc n) (de_tables env) flds p w))"
  proof (rule wends_bind)
    show "wends W w (w_memset0 p (unat (f_data_size f)) w)"
      unfolding w_memset0_def using assms(4,5) by (intro w_store_wends) auto
    fix w' assume "world_step W w w'"
    then have "W \<union> const_span ro \<subseteq> dom (w_mem w')" using assms(5) world_step_dom by blast
    then have "wends (span p (uint (f_data_size f))) w' (pb_message_set_to_defaults (Suc n) (de_tables env) flds p w')"
      using assms(4) by (intro set_to_defaults_wends [OF fits_Suc [OF flds(2)]]) blast
    then show "wends W w' (pb_message_set_to_defaults (Suc n) (de_tables env) flds p w')"
      using assms(4) by (auto simp: wends_def intro: world_step_mono)
  qed
  moreover have "ltype f \<noteq> PB_LTYPE_STRING" "ltype f \<noteq> PB_LTYPE_BYTES"
    using assms(2) by (simp_all add: ltype_defs)
  ultimately show ?thesis
    using assms(1,2) flds(1) by (simp add: initialize_pointer_field_def)
qed

lemma decode_static_field_safe:
  assumes "fits (Suc n) (de_tables env) ro flds sz" "stands flds d i it"
  shows "safe 0 (area d sz) (span d sz) (decode_static_field dec noinit (Suc n) env wt it)"
  unfolding safe_def
proof (intro allI impI)
  fix st :: "'u dstate"
  assume st: "mem_istream (d_stream st)" "area d sz \<subseteq> dom (d_mem st)"
  define f where "f = field_at flds i"
  define off where "off = field_offset flds i"
  define soff where "soff = size_field_offset flds i"
  let ?W = "span d sz" and ?func = "call_decoder dec noinit env f"
  have pos: "position flds i" and it: "it_field it = f" "it_pData it = d + off"
    "it_pSize it = AtAddr (d + soff) \<or> it_pSize it = FixedCountSize \<and> htype f = PB_HTYPE_REPEATED"
    using stands_sel [OF assms(2)] assms(2) by (auto simp: f_def off_def soff_def stands_def)
  have f: "atype f = PB_ATYPE_STATIC" "within sz off (prev_data_size f)"
    "htype f = PB_HTYPE_OPTIONAL \<and> soff \<noteq> off \<Longrightarrow> within sz soff 1"
    "htype f = PB_HTYPE_REPEATED \<or> htype f = PB_HTYPE_ONEOF \<Longrightarrow> within sz soff 4"
    "item_ok (fits n (de_tables env) ro) (de_tables env) ro f"
    using fits_field [OF assms(1) pos] unfolding static_field_ok_def Let_def f_def off_def soff_def by blast+
  have sz: "sz < 2 ^ 32" using assms(1) by simp
  have count: "\<not> PB_LTYPES_COUNT \<le> unat (ltype f)" using f(5) by (simp add: item_ok_def)
  have size: "size_ok ?W (it_pSize it)" if "htype f = PB_HTYPE_REPEATED \<or> htype f = PB_HTYPE_ONEOF"
    using it(3) within_span [OF f(4) [OF that], of d] by (auto simp: size_ok_def)
  have one: "safe 0 (area d sz) ?W (?func (d + off))" if "htype f \<noteq> PB_HTYPE_REPEATED"
  proof -
    have "span (d + off) (uint (f_data_size f)) \<subseteq> ?W"
      using f(1,2) that by (intro within_span) (simp add: prev_data_size_static)
    from call_decoder_safe [OF this f(1,5)] show ?thesis by (rule safe_0)
  qed
  have item: "safe (if ltype f \<le> PB_LTYPE_LAST_PACKABLE then 1 else 0) (area d sz) ?W (?func (item_at f (d + off) j))"
    if "htype f = PB_HTYPE_REPEATED" "j < f_array_size f" for j
    using f(1,2) that sz
    by (intro call_decoder_safe [OF item_at_inside f(1,5)]) (simp_all add: prev_data_size_static)
  have later: "ends 0 ?W (d_stream st') (d_world st') (?func (d + off) st')"
    if "htype f \<noteq> PB_HTYPE_REPEATED" "stream_step (d_stream st) (d_stream st')" "world_step ?W (d_world st) (d_world st')" for st'
    using safeD [OF one [OF that(1)] stream_step_mem [OF that(2)] world_step_dom [OF that(3) st(2)]] .
  consider (req) "htype f = PB_HTYPE_REQUIRED" | (opt) "htype f = PB_HTYPE_OPTIONAL"
    | (rep) "htype f = PB_HTYPE_REPEATED" | (oneof) "htype f = PB_HTYPE_ONEOF"
    using htype_cases by blast
  then show "ends 0 ?W (d_stream st) (d_world st) (decode_static_field dec noinit (Suc n) env wt it st)"
  proof cases
    case req
    then show ?thesis
      using later [of st] st count it by (simp add: decode_static_field_def Let_def)
  next
    case opt
    have "ends 0 ?W (d_stream st) (d_world st)
        (ifok (if AtAddr (d + soff) \<noteq> AtAddr (d + off) then on_world (iter_store_has it True) st else Some (True, st))
          (?func (d + off)))"
    proof (rule ends_ifok)
      have "wends ?W (d_world st) (w_store (d + soff) [1] (d_world st))" if "soff \<noteq> off"
        using f(3) opt that st(2) by (intro w_store_within) auto
      then show "ends 0 ?W (d_stream st) (d_world st)
          (if AtAddr (d + soff) \<noteq> AtAddr (d + off) then on_world (iter_store_has it True) st else Some (True, st))"
        using opt it(3) st by (auto simp: iter_store_has_def w_store_bool_def intro!: ends_on_world)
    qed (use later opt in simp)
    then show ?thesis
      using opt count it by (auto simp: decode_static_field_def Let_def)
  next
    case rep
    show ?thesis
    proof (cases "wt = PB_WT_STRING \<and> ltype f \<le> PB_LTYPE_LAST_PACKABLE")
      case True
      have "ends 0 ?W (d_stream st) (d_world st) (with_substream env st (\<lambda>parent st.
            Option.bind (packed_static ?func f (d + off) (it_pSize it) st) (\<lambda>(status, st).
              if i_bytes_left (d_stream st) \<noteq> 0
              then d_error ''array overflow'' (st\<lparr>d_stream := parent\<rparr>)
              else ifok (close_substream env parent st) (\<lambda>st. Some (status, st)))))"
      proof (rule ends_with_substream [OF st(1)])
        fix parent sub assume o: "opened (d_stream st) parent sub"
        let ?st = "st\<lparr>d_stream := sub\<rparr>"
        have "ends 0 ?W (d_stream ?st) (d_world ?st) (packed_static ?func f (d + off) (it_pSize it) ?st)"
          using item [OF rep] True st(2) o size rep
          by (intro packed_static_ends [where A = "area d sz"]) (simp_all add: opened_def)
        then have e: "ends 0 ?W sub (d_world st) (packed_static ?func f (d + off) (it_pSize it) ?st)" by simp
        then show "ends 0 ?W (d_stream st) (d_world st)
            (Option.bind (packed_static ?func f (d + off) (it_pSize it) ?st) (\<lambda>(status, st).
              if i_bytes_left (d_stream st) \<noteq> 0
              then d_error ''array overflow'' (st\<lparr>d_stream := parent\<rparr>)
              else ifok (close_substream env parent st) (\<lambda>st. Some (status, st))))"
        proof (rule endsE)
          fix ok st'
          assume r: "packed_static ?func f (d + off) (it_pSize it) ?st = Some (ok, st')"
            "world_step ?W (d_world st) (d_world st')"
          have "stream_step (d_stream st) parent" using o by (simp add: opened_def)
          then show ?thesis
            using ends_close [OF o e, of env] r by (simp add: d_error_def)
        qed
      qed
      then show ?thesis
        using rep True count it by (simp add: decode_static_field_def Let_def)
    next
      case False
      obtain j where j: "load_size (it_pSize it) st = Some j"
        using load_size_ok size rep st(2) by blast
      have "ends 0 ?W (d_stream st) (d_world st) (ifok (store_size (it_pSize it) (j + 1) st) (\<lambda>st.
          if f_array_size f \<le> j then d_error ''array overflow'' st else ?func (item_at f (d + off) j) st))"
      proof (rule ends_ifok)
        show "ends 0 ?W (d_stream st) (d_world st) (store_size (it_pSize it) (j + 1) st)"
          using store_size_ends size rep st by blast
        fix st' :: "'u dstate"
        assume s: "stream_step (d_stream st) (d_stream st')" "world_step ?W (d_world st) (d_world st')"
        have st': "mem_istream (d_stream st')" "area d sz \<subseteq> dom (d_mem st')"
          using stream_step_mem [OF s(1)] world_step_dom [OF s(2) st(2)] by simp_all
        then show "ends 0 ?W (d_stream st') (d_world st')
            (if f_array_size f \<le> j then d_error ''array overflow'' st' else ?func (item_at f (d + off) j) st')"
          using ends_error [OF st'(1)] safeD [OF safe_0 [OF item [OF rep]] st'] by (simp add: not_le)
      qed
      then show ?thesis
        unfolding decode_static_field_def Let_def it(1,2) if_not_P [OF False] using rep count j by simp
    qed
  next
    case oneof
    let ?set = "\<lambda>st. if ltype f = PB_LTYPE_SUBMESSAGE
        then on_world (initialize_pointer_field (Suc n) env (d + off) it) st else Some (True, st)"
    have "ends 0 ?W (d_stream st) (d_world st) (ifok (store_size (it_pSize it) (f_tag f) st) (\<lambda>st.
        ifok (?set st) (?func (d + off))))"
    proof (rule ends_ifok)
      show "ends 0 ?W (d_stream st) (d_world st) (store_size (it_pSize it) (f_tag f) st)"
        using store_size_ends size oneof st by blast
      fix st1 :: "'u dstate"
      assume s1: "stream_step (d_stream st) (d_stream st1)" "world_step ?W (d_world st) (d_world st1)"
      have st1: "mem_istream (d_stream st1)" "area d sz \<subseteq> dom (d_mem st1)"
        using stream_step_mem [OF s1(1)] world_step_dom [OF s1(2) st(2)] by simp_all
      have "span (d + off) (uint (f_data_size f)) \<subseteq> ?W"
        using f(1,2) oneof by (intro within_span) (simp add: prev_data_size_static)
      then have set: "ends 0 ?W (d_stream st1) (d_world st1) (?set st1)"
        using initialize_pointer_field_wends [OF it(1) _ f(5)] st1 by (auto intro!: ends_on_world)
      then show "ends 0 ?W (d_stream st1) (d_world st1) (ifok (?set st1) (?func (d + off)))"
      proof (rule ends_ifok)
        fix st2 :: "'u dstate"
        assume "stream_step (d_stream st1) (d_stream st2)" "world_step ?W (d_world st1) (d_world st2)"
        then show "ends 0 ?W (d_stream st2) (d_world st2) (?func (d + off) st2)"
          using later oneof stream_step_trans [OF s1(1)] world_step_trans [OF s1(2)] by simp
      qed
    qed
    then show ?thesis
      using oneof count it by (simp add: decode_static_field_def Let_def)
  qed
qed

lemma pb_release_union_field_safe:
  assumes "fits (Suc n) (de_tables env) ro flds sz" "i < length flds"
    and "htype (field_at flds i) = PB_HTYPE_ONEOF"
    and st: "mem_istream (d_stream st)" "span d sz \<subseteq> dom (d_mem st)"
  shows "\<exists>ok j msg. j < length flds \<and>
     pb_release_union_field (Suc n) env (iter_at flds d i) st =
       Some (ok, iter_at flds d j, if ok then st else st\<lparr>d_stream := i_set_error msg (d_stream st)\<rparr>)"
proof -
  have ok: "fields_ok flds" using assms(1) by simp
  have "within sz (size_field_offset flds i) 4"
    using fits_field [OF assms(1), of i] assms(2,3) by (auto simp: static_field_ok_def Let_def)
  from within_span [OF this, of d] obtain tag where tag: "load_size (AtAddr (d + size_field_offset flds i)) st = Some tag"
    using load_u32_span [of "d + size_field_offset flds i" "d_mem st"] st(2) by (auto simp: load_size_def)
  let ?new = "f_tag (field_at flds i)"
  consider "tag = 0 \<or> tag = ?new" | (other) "tag \<noteq> 0" "tag \<noteq> ?new" by blast
  then show ?thesis
  proof cases
    case 1
    then have "pb_release_union_field (Suc n) env (iter_at flds d i) st = Some (True, iter_at flds d i, st)"
      using tag assms(2) by (auto simp: pb_release_union_field_def Let_def)
    then show ?thesis using assms(2) by (intro exI [of _ True] exI [of _ i] exI [of _ "''''"]) simp
  next
    case other
    from pb_field_iter_find_result [OF ok assms(2), of d tag]
    consider (found) j where "j < length flds" "pb_field_iter_find (iter_at flds d i) tag = Some (True, iter_at flds d j)"
      | (no) "pb_field_iter_find (iter_at flds d i) tag = Some (False, iter_at flds d i)"
      by (auto simp: find_result_def)
    then show ?thesis
    proof cases
      case no
      have "pb_release_union_field (Suc n) env (iter_at flds d i) st =
          Some (False, iter_at flds d i, st\<lparr>d_stream := i_set_error ''invalid union tag'' (d_stream st)\<rparr>)"
        using tag other no by (simp add: pb_release_union_field_def d_error_def)
      then show ?thesis using assms(2) by (intro exI [of _ False] exI [of _ i] exI [of _ "''invalid union tag''"]) simp
    next
      case found
      have rel: "pb_release_single_field (Suc n) (de_tables env) (iter_at flds d j) (d_world st) = Some (d_world st)"
        using release_id [OF assms(1) st(2)] found(1) by simp
      from pb_field_iter_find_result [OF ok found(1), of d ?new]
      consider k where "k < length flds" "pb_field_iter_find (iter_at flds d j) ?new = Some (True, iter_at flds d k)"
        | "pb_field_iter_find (iter_at flds d j) ?new = Some (False, iter_at flds d j)"
        by (auto simp: find_result_def)
      then show ?thesis
      proof cases
        case (1 k)
        then have "pb_release_union_field (Suc n) env (iter_at flds d i) st = Some (True, iter_at flds d k, st)"
          using tag other found rel assms(2) by (simp add: pb_release_union_field_def on_world_def)
        with 1 show ?thesis by (intro exI [of _ True] exI [of _ k] exI [of _ "''''"]) simp
      next
        case 2
        then have "pb_release_union_field (Suc n) env (iter_at flds d i) st =
            Some (False, iter_at flds d j, st\<lparr>d_stream := i_set_error ''iterator error'' (d_stream st)\<rparr>)"
          using tag other found rel assms(2) by (simp add: pb_release_union_field_def on_world_def d_error_def)
        with found show ?thesis by (intro exI [of _ False] exI [of _ j] exI [of _ "''iterator error''"]) simp
      qed
    qed
  qed
qed

text \<open>Decoding one field leaves the iterator on some field of the table.\<close>

definition field_ends ::
    "pb_field list \<Rightarrow> addr \<Rightarrow> int \<Rightarrow> 'u istream \<Rightarrow> world \<Rightarrow> (bool \<times> pb_field_iter \<times> 'u dstate) option \<Rightarrow> bool" where
  "field_ends flds d sz s w r \<longleftrightarrow> (\<exists>ok it st' j. r = Some (ok, it, st') \<and> stands flds d j it \<and>
     stream_step s (d_stream st') \<and> world_step (span d sz) w (d_world st'))"

lemma decode_field_safe:
  assumes "fits (Suc n) (de_tables env) ro flds sz" "stands flds d i it"
    and st: "mem_istream (d_stream st)" "area d sz \<subseteq> dom (d_mem st)"
  shows "field_ends flds d sz (d_stream st) (d_world st) (decode_field dec noinit (Suc n) env wt it st)"
proof -
  note fit = assms(1)
  have static: "field_ends flds d sz (d_stream st) (d_world st)
      (map_option (\<lambda>(ok, st). (ok, it', st)) (decode_static_field dec noinit (Suc n) env wt it' st))"
    "atype (it_field it') = PB_ATYPE_STATIC" if s: "stands flds d j it'" for j it'
  proof -
    from safeD [OF decode_static_field_safe [OF fit s] st]
    show "field_ends flds d sz (d_stream st) (d_world st)
      (map_option (\<lambda>(ok, st). (ok, it', st)) (decode_static_field dec noinit (Suc n) env wt it' st))"
      by (rule endsE) (use s in \<open>auto simp: field_ends_def\<close>)
    show "atype (it_field it') = PB_ATYPE_STATIC"
      using fits_field [OF fit, of j] stands_sel(1) [OF s] s by (simp add: static_field_ok_def Let_def stands_def)
  qed
  show ?thesis
  proof (cases "htype (it_field it) = PB_HTYPE_ONEOF")
    case False
    then show ?thesis using static [OF assms(2)] by (simp add: decode_field_def Let_def)
  next
    case True
    have i: "it = iter_at flds d i" "i < length flds"
    proof -
      show "it = iter_at flds d i" using True stands_sel(1) [OF assms(2)] assms(2) by (auto simp: stands_def)
      have "field_at flds i \<noteq> PB_LAST_FIELD"
        using True stands_sel(1) [OF assms(2)] by (auto simp: PB_LAST_FIELD_def pb_type_defs)
      then show "i < length flds" by (metis field_at_last not_le)
    qed
    obtain ok j msg where r: "j < length flds" "pb_release_union_field (Suc n) env it st =
        Some (ok, iter_at flds d j, if ok then st else st\<lparr>d_stream := i_set_error msg (d_stream st)\<rparr>)"
      using pb_release_union_field_safe [OF fit i(2) _ st(1), of d] st(2) True i(1) by fastforce
    have j: "stands flds d j (iter_at flds d j)" using r(1) by (simp add: stands_def)
    show ?thesis
    proof (cases ok)
      case True
      then show ?thesis
        using static [OF j] r \<open>htype (it_field it) = _\<close> by (simp add: decode_field_def Let_def)
    next
      case False
      then show ?thesis
        using r j st(1) \<open>htype (it_field it) = _\<close> by (auto simp: decode_field_def field_ends_def)
    qed
  qed
qed

text \<open>One round of the loop over the fields of the input.\<close>

definition step_ends ::
    "pb_field list \<Rightarrow> addr \<Rightarrow> int \<Rightarrow> 'u istream \<Rightarrow> world \<Rightarrow> 'u step_result \<Rightarrow> bool" where
  "step_ends flds d sz s w r \<longleftrightarrow> (\<exists>fl l st' j. r = Some (fl, l, st') \<and> stands flds d j (l_iter l) \<and>
     stream_step s (d_stream st') \<and> world_step (span d sz) w (d_world st'))"

lemma skip_unknown_safe:
  assumes "stands flds d i (l_iter l)" "mem_istream (d_stream st)"
  shows "step_ends flds d sz (d_stream st) (d_world st) (skip_unknown env wt l st)"
proof -
  obtain ok s' where "pb_skip_field (de_in env) wt (d_stream st) = Some (ok, s')" "stream_step (d_stream st) s'"
    using pb_skip_field_skips [of "de_in env" wt] assms(2) unfolding skips_def by blast
  then show ?thesis
    using assms(1) by (auto simp: skip_unknown_def on_stream_def step_ends_def)
qed

lemma unknown_field_safe:
  assumes "fits (Suc n) (de_tables env) ro flds sz" "stands flds d i (l_iter l)" "unat tag < 2 ^ 29"
    "mem_istream (d_stream st)"
  shows "step_ends flds d sz (d_stream st) (d_world st) (unknown_field dec noinit (Suc n) env tag wt l st)"
proof (cases "tag < l_ext_start l")
  case True
  then show ?thesis
    using skip_unknown_safe [OF assms(2,4)] by (simp add: unknown_field_def)
next
  case False
  note fit = assms(1)
  then have "fields_ok flds" by simp
  from find_stands [OF this assms(2), of "\<lambda>f. ltype f = PB_LTYPE_EXTENSION"]
  obtain found it' j where f: "find_extension_field (l_iter l) = Some (found, it')" "stands flds d j it'"
    "found \<longrightarrow> ltype (field_at flds j) = PB_LTYPE_EXTENSION"
    using stands_sel [OF assms(2)] by (auto simp: find_extension_field_def)
  have "ltype (field_at flds j) \<noteq> PB_LTYPE_EXTENSION"
    using fits_field [OF fit, of j] f(2) by (simp add: static_field_ok_def Let_def item_ok_def stands_def)
  then have nf: "\<not> found" using f(3) by blast
  let ?l = "l\<lparr>l_iter := it', l_ext_start := - 1\<rparr>"
  have "unat (- 1 :: u32) = 2 ^ 32 - 1"
    by (simp add: unsigned_minus_1_eq_mask mask_eq_exp_minus_1)
  then have "tag < - 1" using assms(3) unfolding word_less_nat_alt by simp
  moreover have "step_ends flds d sz (d_stream st) (d_world st) (skip_unknown env wt ?l st)"
    using f(2) assms(4) by (intro skip_unknown_safe) simp_all
  ultimately show ?thesis
    using False f(1) nf by (simp add: unknown_field_def Let_def)
qed

lemma known_field_safe:
  assumes "fits (Suc n) (de_tables env) ro flds sz" "stands flds d i (l_iter l)"
    and st: "mem_istream (d_stream st)" "area d sz \<subseteq> dom (d_mem st)"
  shows "step_ends flds d sz (d_stream st) (d_world st) (known_field dec noinit (Suc n) env wt l st)"
proof -
  let ?it = "l_iter l"
  define fixed where "fixed \<longleftrightarrow> htype (it_field ?it) = PB_HTYPE_REPEATED \<and> it_pSize ?it = AtAddr (it_pData ?it)"
  define other where "other \<longleftrightarrow> l_fixed l \<noteq> Some (it_pos ?it)"
  show ?thesis
  proof (cases "fixed \<and> other \<and> fixed_count_wrong l st")
    case True
    then have "known_field dec noinit (Suc n) env wt l st =
        Some (Fail, l, st\<lparr>d_stream := i_set_error ''wrong size for fixed count field'' (d_stream st)\<rparr>)"
      by (simp add: known_field_def Let_def fixed_def other_def d_error_def)
    then show ?thesis using assms(2) st(1) by (auto simp: step_ends_def)
  next
    case False
    let ?st = "if fixed \<and> other then st\<lparr>d_fcs := 0\<rparr> else st"
    let ?l = "if fixed then l\<lparr>l_iter := ?it\<lparr>it_pSize := FixedCountSize\<rparr>, l_fixed := Some (it_pos ?it)\<rparr> else l"
    let ?m = "?l\<lparr>l_seen := mark_seen (l_iter ?l) (l_seen ?l)\<rparr>"
    have "stands flds d i (l_iter ?l)"
      using assms(2) stands_sel(1) [OF assms(2)] by (auto simp: fixed_def stands_def)
    then have s: "stands flds d i (l_iter ?m)" by simp
    have same: "d_stream ?st = d_stream st" "d_world ?st = d_world st" by simp_all
    have "field_ends flds d sz (d_stream ?st) (d_world ?st) (decode_field dec noinit (Suc n) env wt (l_iter ?m) ?st)"
      using decode_field_safe [OF assms(1) s, of ?st] st by simp
    then obtain ok it' st' j where r: "decode_field dec noinit (Suc n) env wt (l_iter ?m) ?st = Some (ok, it', st')"
      "stands flds d j it'" "stream_step (d_stream st) (d_stream st')" "world_step (span d sz) (d_world st) (d_world st')"
      unfolding field_ends_def same by blast
    have "known_field dec noinit (Suc n) env wt l st =
        map_option (\<lambda>(ok, iter, st). (if ok then Go else Fail, ?m\<lparr>l_iter := iter\<rparr>, st))
          (decode_field dec noinit (Suc n) env wt (l_iter ?m) ?st)"
      unfolding known_field_def Let_def fixed_def [symmetric] other_def [symmetric] if_not_P [OF False] ..
    then have "known_field dec noinit (Suc n) env wt l st = Some (if ok then Go else Fail, ?m\<lparr>l_iter := it'\<rparr>, st')"
      unfolding r(1) by simp
    with r(2-4) show ?thesis by (auto simp: step_ends_def)
  qed
qed

lemma step_ends_later:
  assumes "stream_step s t" "step_ends flds d sz t w r"
  shows "step_ends flds d sz s w r"
  using assms(2) stream_step_trans [OF assms(1)] unfolding step_ends_def by blast

lemma decode_step_safe:
  assumes "fits (Suc n) (de_tables env) ro flds sz" "stands flds d i (l_iter l)"
    and st: "mem_istream (d_stream st)" "area d sz \<subseteq> dom (d_mem st)"
  shows "step_ends flds d sz (d_stream st) (d_world st) (decode_step dec noinit (Suc n) env l st) \<and>
    (\<forall>l' st'. decode_step dec noinit (Suc n) env l st = Some (Go, l', st') \<longrightarrow>
       unat (i_bytes_left (d_stream st')) < unat (i_bytes_left (d_stream st)))"
proof -
  obtain r where r: "pb_decode_tag (de_in env) (d_stream st) = Some r" "stream_step (d_stream st) (t_stream r)"
    "t_ok r \<longrightarrow> unat (i_bytes_left (t_stream r)) < unat (i_bytes_left (d_stream st)) \<and> unat (t_tag r) < 2 ^ 29"
    using pb_decode_tag_step [OF st(1), of "de_in env"] by blast
  let ?st = "st\<lparr>d_stream := t_stream r\<rparr>"
  show ?thesis
  proof (cases "t_ok r")
    case False
    then show ?thesis
      using r assms(2) by (auto simp: decode_step_def step_ends_def)
  next
    case True
    have "fields_ok flds" using assms(1) by simp
    from find_stands [OF this assms(2), of "\<lambda>f. f_tag f = t_tag r \<and> ltype f \<noteq> PB_LTYPE_EXTENSION"]
    obtain found it' j where f: "pb_field_iter_find (l_iter l) (t_tag r) = Some (found, it')" "stands flds d j it'"
      using stands_sel [OF assms(2)] by (auto simp: pb_field_iter_find_def)
    let ?l = "l\<lparr>l_iter := it'\<rparr>"
    let ?r = "if found then known_field dec noinit (Suc n) env (t_wire_type r) ?l ?st
      else unknown_field dec noinit (Suc n) env (t_tag r) (t_wire_type r) ?l ?st"
    have step: "decode_step dec noinit (Suc n) env l st = ?r"
      using r(1) True f(1) by (simp add: decode_step_def Let_def)
    have t: "mem_istream (d_stream ?st)" "area d sz \<subseteq> dom (d_mem ?st)"
      using stream_step_mem [OF r(2)] st(2) by simp_all
    have "step_ends flds d sz (d_stream ?st) (d_world ?st) ?r"
      using known_field_safe [OF assms(1) _ t, where l = ?l] unknown_field_safe [OF assms(1) _ _ t(1), where l = ?l] f(2) r(3) True
      by auto
    then have e: "step_ends flds d sz (t_stream r) (d_world st) ?r" by simp
    have "unat (i_bytes_left (d_stream st')) < unat (i_bytes_left (d_stream st))"
      if "?r = Some (Go, l', st')" for l' st'
      using e r(3) True unfolding that step_ends_def stream_step_def by auto
    then show ?thesis
      unfolding step using step_ends_later [OF r(2) e] by blast
  qed
qed

lemma decode_loop_safe:
  assumes "fits (Suc n) (de_tables env) ro flds sz"
  shows "stands flds d i (l_iter l) \<Longrightarrow> mem_istream (d_stream st) \<Longrightarrow> area d sz \<subseteq> dom (d_mem st) \<Longrightarrow>
    \<exists>ok l' st'. decode_loop (decode_step dec noinit (Suc n) env) l st = Some (ok, l', st') \<and>
      stream_step (d_stream st) (d_stream st') \<and> world_step (span d sz) (d_world st) (d_world st')"
proof (induction "unat (i_bytes_left (d_stream st))" arbitrary: l st i rule: less_induct)
  case less
  show ?case
  proof (cases "i_bytes_left (d_stream st) = 0")
    case True
    then have "decode_loop (decode_step dec noinit (Suc n) env) l st = Some (True, l, st)"
      by (subst decode_loop.simps) simp
    then show ?thesis using less.prems(2) by fastforce
  next
    case False
    note step = decode_step_safe [OF assms less.prems]
    then obtain fl l1 st1 j where r: "decode_step dec noinit (Suc n) env l st = Some (fl, l1, st1)"
      "stands flds d j (l_iter l1)" "stream_step (d_stream st) (d_stream st1)"
      "world_step (span d sz) (d_world st) (d_world st1)"
      unfolding step_ends_def by blast
    show ?thesis
    proof (cases "fl = Go")
      case True
      have "unat (i_bytes_left (d_stream st1)) < unat (i_bytes_left (d_stream st))"
        using step r(1) True by blast
      from less.hyps [OF this r(2) stream_step_mem [OF r(3)] world_step_dom [OF r(4) less.prems(3)]]
      obtain ok l2 st2 where "decode_loop (decode_step dec noinit (Suc n) env) l1 st1 = Some (ok, l2, st2)"
        "stream_step (d_stream st1) (d_stream st2)" "world_step (span d sz) (d_world st1) (d_world st2)"
        by blast
      then show ?thesis
        using False True r(1) stream_step_trans [OF r(3)] world_step_trans [OF r(4)]
        by (subst decode_loop.simps) simp
    next
      case nogo: False
      then show ?thesis
        using False r by (subst decode_loop.simps) simp
    qed
  qed
qed

lemma decode_message_safe:
  assumes "fits (Suc n) (de_tables env) ro flds sz"
  shows "safe 0 (area d sz) (span d sz) (decode_message dec noinit (Suc n) env flds d)"
  unfolding safe_def
proof (intro allI impI)
  fix st :: "'u dstate"
  assume st: "mem_istream (d_stream st)" "area d sz \<subseteq> dom (d_mem st)"
  let ?l = "\<lparr>l_iter = iter_at flds d 0, l_seen = [0, 0], l_ext_start = 0, l_fixed = None\<rparr>"
  have "stands flds d 0 (l_iter ?l)" by (simp add: stands_def)
  from decode_loop_safe [OF assms this, of "st\<lparr>d_fcs := 0\<rparr>"] st
  obtain ok l' st' where r: "decode_loop (decode_step dec noinit (Suc n) env) ?l (st\<lparr>d_fcs := 0\<rparr>) = Some (ok, l', st')"
    "stream_step (d_stream st) (d_stream st')" "world_step (span d sz) (d_world st) (d_world st')"
    by auto
  then show "ends 0 (span d sz) (d_stream st) (d_world st) (decode_message dec noinit (Suc n) env flds d st)"
    by (simp add: decode_message_def Let_def iter_begin d_error_def stream_step_def)
qed

end

section \<open>Whole messages\<close>

lemma init_and_decode_static:
  assumes "decodes_static n env ro noinit"
  shows "decodes_static n env ro (init_and_decode noinit (n + k) env)"
  unfolding decodes_static_def
proof (intro allI impI)
  fix flds sz d
  assume fit: "fits n (de_tables env) ro flds sz"
  then have fit': "fits (n + k) (de_tables env) ro flds sz"
    by (induction k) (auto simp del: fits.simps(2) intro: fits_Suc)
  let ?A = "span d sz \<union> const_span ro" and ?W = "span d sz"
  show "safe 0 ?A ?W (init_and_decode noinit (n + k) env flds d)"
    unfolding safe_def
  proof (intro allI impI)
    fix st :: "'a dstate"
    assume st: "mem_istream (d_stream st)" "?A \<subseteq> dom (d_mem st)"
    let ?k = "\<lambda>st. Option.bind (noinit flds d st) (\<lambda>(status, st).
       if status then Some (True, st)
       else map_option (\<lambda>(_, st). (False, st)) (on_world (pb_release (n + k) (de_tables env) flds d) st))"
    have "ends 0 ?W (d_stream st) (d_world st)
        (ifok (on_world (pb_message_set_to_defaults (n + k) (de_tables env) flds d) st) ?k)"
    proof (rule ends_ifok)
      show "ends 0 ?W (d_stream st) (d_world st) (on_world (pb_message_set_to_defaults (n + k) (de_tables env) flds d) st)"
        using set_to_defaults_wends [OF fit' st(2)] by (rule ends_on_world [OF st(1)])
      fix st1 :: "'a dstate"
      assume "stream_step (d_stream st) (d_stream st1)" "world_step ?W (d_world st) (d_world st1)"
      then have st1: "mem_istream (d_stream st1)" "?A \<subseteq> dom (d_mem st1)"
        using stream_step_mem world_step_dom [OF _ st(2)] by blast+
      from safeD [OF decodes_staticD [OF assms fit] st1]
      show "ends 0 ?W (d_stream st1) (d_world st1) (?k st1)"
      proof (rule endsE)
        fix ok st2
        assume r: "noinit flds d st1 = Some (ok, st2)" "stream_step (d_stream st1) (d_stream st2)"
          "world_step ?W (d_world st1) (d_world st2)"
        have "?W \<subseteq> dom (d_mem st2)" using world_step_dom [OF r(3) st1(2)] by blast
        then have "pb_release (n + k) (de_tables env) flds d (d_world st2) = Some (d_world st2)"
          using release_id [OF fit'] by blast
        then show ?thesis
          using r by (cases ok) (simp_all add: on_world_def stream_step_def)
      qed
    qed
    then show "ends 0 ?W (d_stream st) (d_world st) (init_and_decode noinit (n + k) env flds d st)"
      by (simp add: init_and_decode_def)
  qed
qed

text \<open>Fuel one more than the depth of the tables is enough.\<close>

lemma pb_decode_noinit_static: "decodes_static n env ro (pb_decode_noinit (Suc n) env)"
proof (induction n)
  case 0
  show ?case by (simp add: decodes_static_def)
next
  case (Suc n)
  have "static_decoder n env ro (init_and_decode (pb_decode_noinit (Suc n) env) (Suc n) env) (pb_decode_noinit (Suc n) env)"
    using Suc init_and_decode_static [OF Suc, of 1] by (simp add: static_decoder_def del: pb_decode_noinit.simps)
  from static_decoder.decode_message_safe [OF this] show ?case
    unfolding decodes_static_def pb_decode_noinit.simps(2) [of "Suc n"] fun_eq_iff
    by (simp del: fits.simps pb_decode_noinit.simps add: safe_def)
qed

interpretation message: static_decoder n env ro
    "init_and_decode (pb_decode_noinit (Suc n) env) (Suc n) env" "pb_decode_noinit (Suc n) env" for n env ro
  using pb_decode_noinit_static init_and_decode_static [OF pb_decode_noinit_static, of n env ro 1]
  by unfold_locales (simp_all del: pb_decode_noinit.simps)

lemma pb_decode_static: "decodes_static n env ro (pb_decode (Suc n) env)"
proof -
  have "pb_decode (Suc n) env = init_and_decode (pb_decode_noinit (Suc n) env) (n + 1) env"
    by (simp add: fun_eq_iff pb_decode_def)
  then show ?thesis using init_and_decode_static [OF pb_decode_noinit_static, of n env ro 1] by (simp only:)
qed

end
