(* ===== verification/DecodeProps.thy ===== *)
theory DecodeProps
  imports DecodeMessage WireRoundtrip
begin

text \<open>
  What the decoder promises its callers: memory safety and termination on every input for
  messages of static fields, the ranges of the integer decoders, the size check of the
  allocator, strings, and the check that no required field is missing.
\<close>

section \<open>Words cut to a size and widened again\<close>

lemma clamp_uint_eq:
  assumes "k \<in> {1, 2, 4, 8}"
  shows "clamp_uint (of_nat k) v = v \<longleftrightarrow> unat v < 2 ^ (8 * k)"
proof -
  have cut: "ucast (ucast v :: 32 word) = take_bit 32 v" "ucast (ucast v :: 16 word) = take_bit 16 v"
    "ucast (ucast v :: 8 word) = take_bit 8 v"
    by (rule bit_word_eqI, auto simp: bit_simps)+
  have "take_bit m v = v \<longleftrightarrow> unat v < 2 ^ m" for m
    by (simp add: word_unat_eq_iff unsigned_take_bit_eq take_bit_nat_eq_self_iff)
  note small = this
  have all: "unat v < 2 ^ 64" using unsigned_less [of v, where ?'a = nat] by simp
  from assms consider "k = 1" | "k = 2" | "k = 4" | "k = 8" by blast
  then show ?thesis
    using small [of 8] small [of 16] small [of 32] all by cases (simp_all add: clamp_uint_def cut)
qed

lemma clamp_sint_eq:
  assumes "k \<in> {1, 2, 4, 8}"
  shows "clamp_sint (of_nat k) v = v \<longleftrightarrow> - (2 ^ (8 * k - 1)) \<le> sint v \<and> sint v < 2 ^ (8 * k - 1)"
proof -
  have cut: "scast (ucast v :: 32 word) = signed_take_bit 31 v" "scast (ucast v :: 16 word) = signed_take_bit 15 v"
    "scast (ucast v :: 8 word) = signed_take_bit 7 v"
    by (rule bit_word_eqI, auto simp: bit_simps min_def)+
  have "signed_take_bit m v = v \<longleftrightarrow> - (2 ^ m) \<le> sint v \<and> sint v < 2 ^ m" if "m < 63" for m
  proof -
    have "sint (signed_take_bit m v) = signed_take_bit m (sint v)"
      using that by (intro bit_eqI) (auto simp: bit_simps min_def)
    moreover have "signed_take_bit m v = v \<longleftrightarrow> sint (signed_take_bit m v) = sint v"
      by (rule word_eq_iff_signed)
    ultimately show ?thesis
      by (simp add: signed_take_bit_int_eq_self_iff)
  qed
  note small = this
  have all: "- (2 ^ 63) \<le> sint v" "sint v < 2 ^ 63"
    using sint_greater_eq [of v] sint_less [of v] by simp_all
  from assms consider "k = 1" | "k = 2" | "k = 4" | "k = 8" by blast
  then show ?thesis
    using small [of 7] small [of 15] small [of 31] all by cases (simp_all add: clamp_sint_def cut)
qed

section \<open>Integers\<close>

lemma mapped_store:
  assumes "mapped (w_mem w) a (length bs)"
  shows "\<exists>w'. w_store a bs w = Some w' \<and> load_bytes (w_mem w') a (length bs) = Some bs"
proof -
  obtain m where "store_bytes (w_mem w) a bs = Some m" using assms store_bytes_defined by blast
  with load_store_same [OF this] show ?thesis by (simp add: w_store_def)
qed

lemma store_clamped_exact:
  assumes "k \<in> {1, 2, 4, 8}" "f_data_size f = of_nat k" "mapped (d_mem st) dest k"
  shows "\<exists>st'. store_clamped clamp f dest v st = Some (clamp (of_nat k) v = v, st') \<and>
     load_bytes (d_mem st') dest k = Some (bytes_of_word k v) \<and>
     avail (d_stream st') = avail (d_stream st)"
proof -
  have k: "unat (of_nat k :: u32) = k" "of_nat k \<in> {1, 2, 4, 8 :: u32}"
    using assms(1) by (auto simp: unsigned_of_nat)
  obtain w' where w': "w_store dest (bytes_of_word k v) (d_world st) = Some w'"
    "load_bytes (w_mem w') dest k = Some (bytes_of_word k v)"
    using mapped_store [of "d_world st" dest "bytes_of_word k v"] assms(3) by auto
  have "store_clamped clamp f dest v st =
      (if clamp (of_nat k) v \<noteq> v then d_error ''integer too large'' (st\<lparr>d_world := w'\<rparr>)
       else Some (True, st\<lparr>d_world := w'\<rparr>))"
    using k(2) w'(1) unfolding store_clamped_def assms(2) Let_def store_int_def on_world_def k(1) by auto
  then show ?thesis using w'(2) by (simp add: d_error_def)
qed

lemma read_varint_exact:
  assumes "mem_istream (d_stream st)" "avail (d_stream st) = varint_bytes (unat v) @ rest"
  shows "read_value (pb_decode_varint env) st k =
    k (v :: u64) (st\<lparr>d_stream := i_advance (d_stream st) (length (varint_bytes (unat v)))\<rparr>)"
proof -
  from parse_varint_bytes [OF length_varint_bytes64 [of v]] show ?thesis
    by (simp add: read_value_def pb_decode_varint_parse [OF assms(1)] assms(2))
qed

section \<open>An example\<close>

text \<open>The tables of \<open>struct shape\<close> of \<open>EncodeProps\<close>, with an allocator that has no memory.\<close>

definition shape_denv :: "unit denv" where
  "shape_denv = \<lparr>de_in = no_reader,
     de_tables = \<lparr>t_fields = [64 \<mapsto> point_fields],
       t_alloc = \<lparr>a_choose = \<lambda>w p n. NULL, a_junk = \<lambda>a. 0\<rparr>\<rparr>,
     de_decode_cb = \<lambda>fn f a st. None, de_decode_ext = \<lambda>fn e t w st. None\<rparr>"

definition shape_world :: "u8 list \<Rightarrow> world" where
  "shape_world bs = \<lparr>w_mem = bytes_at 4096 bs, w_heap = \<lambda>a. None\<rparr>"

lemma shape_fits: "fits 2 (de_tables shape_denv) [] shape_fields (int 12)"
  by code_simp

lemma bytes_at_mapped: "mapped (bytes_at a bs) a (length bs)"
  by (simp add: mapped_def bytes_at_def)

section \<open>Whole messages\<close>

lemma ro_span:
  "list_all (\<lambda>(a, k). mapped m a k) ro \<Longrightarrow> const_span ro \<subseteq> dom m"
  by (auto simp: const_span_def list_all_iff mapped_span)

text \<open>C15. Decoding any input into a struct of \<open>sz\<close> bytes whose table fits it returns, with
  success or a failure, whatever the input holds and whatever the struct held before: no loop
  runs forever and no recursion is deeper than the tables are nested. No byte outside the struct
  has changed, nothing was allocated or freed, and no memory that is not there was touched.\<close>

theorem pb_decode_stays_in_struct:
  assumes "fits n (de_tables env) ro flds (int sz)" and "mapped (w_mem w) d sz"
    and "list_all (\<lambda>(a, k). mapped (w_mem w) a k) ro" and "length buf < 2 ^ 64"
  shows "\<exists>ok st'. pb_decode (Suc n) env flds d
       \<lparr>d_stream = pb_istream_from_buffer buf (of_nat (length buf)), d_world = w, d_fcs = fcs\<rparr> = Some (ok, st') \<and>
     (\<forall>p. p < d \<or> d + int sz \<le> p \<longrightarrow> d_mem st' p = w_mem w p) \<and>
     dom (d_mem st') = dom (w_mem w) \<and> w_heap (d_world st') = w_heap w"
    (is "\<exists>ok st'. pb_decode _ _ _ _ ?st = _ \<and> _ st'")
proof -
  have "safe 0 (span d (int sz) \<union> const_span ro) (span d (int sz)) (pb_decode (Suc n) env flds d)"
    using decodes_staticD [OF pb_decode_static assms(1)] .
  moreover have "mem_istream (d_stream ?st)" using mem_istream_from_buffer [OF assms(4)] by simp
  moreover have "span d (int sz) \<union> const_span ro \<subseteq> dom (d_mem ?st)"
    using assms(2,3) ro_span by (simp add: mapped_span)
  ultimately have "ends 0 (span d (int sz)) (d_stream ?st) (d_world ?st) (pb_decode (Suc n) env flds d ?st)"
    by (rule safeD)
  then show ?thesis by (rule endsE) (auto simp: world_step_def span_def)
qed

theorem pb_decode_stays_in_struct_witness:
  "\<exists>ok st'. pb_decode 3 shape_denv shape_fields 4096
       \<lparr>d_stream = pb_istream_from_buffer [0x1A, 0x7F, 0x08] 3, d_world = shape_world (replicate 12 0xAA), d_fcs = 0\<rparr>
       = Some (ok, st') \<and>
     (\<forall>p. p < 4096 \<or> 4108 \<le> p \<longrightarrow> d_mem st' p = w_mem (shape_world (replicate 12 0xAA)) p) \<and>
     dom (d_mem st') = dom (w_mem (shape_world (replicate 12 0xAA))) \<and> w_heap (d_world st') = (\<lambda>a. None)"
  using pb_decode_stays_in_struct [OF shape_fits,
      of "shape_world (replicate 12 0xAA)" 4096 "[0x1A, 0x7F, 0x08]" 0]
    bytes_at_mapped [of 4096 "replicate 12 0xAA"]
  by (simp add: shape_world_def numeral_3_eq_3)

text \<open>C16. The delimited decoder also returns on every memory stream, whatever the length prefix
  says: it never reads past what the stream has, never lets the message read past its frame, and
  leaves a stream that can be read on.\<close>

theorem pb_decode_delimited_returns:
  assumes "fits n (de_tables env) ro flds (int sz)" and "mem_istream (d_stream st)"
    and "mapped (d_mem st) d sz" and "list_all (\<lambda>(a, k). mapped (d_mem st) a k) ro"
  shows "\<exists>ok st'. pb_decode_delimited (Suc n) env flds d st = Some (ok, st') \<and>
     mem_istream (d_stream st') \<and>
     unat (i_bytes_left (d_stream st')) \<le> unat (i_bytes_left (d_stream st)) \<and>
     (\<forall>p. p < d \<or> d + int sz \<le> p \<longrightarrow> d_mem st' p = d_mem st p)"
proof -
  let ?W = "span d (int sz)"
  have A: "?W \<union> const_span ro \<subseteq> dom (d_mem st)"
    using assms(3,4) ro_span by (simp add: mapped_span)
  have "ends 0 ?W (d_stream st) (d_world st) (pb_decode_delimited (Suc n) env flds d st)"
    unfolding pb_decode_delimited_def delimited_def
  proof (rule ends_with_substream [OF assms(2)])
    fix parent sub assume o: "opened (d_stream st) parent sub"
    then have "ends 0 ?W sub (d_world st) (pb_decode (Suc n) env flds d (st\<lparr>d_stream := sub\<rparr>))"
      using safeD [OF decodes_staticD [OF pb_decode_static assms(1)], of "st\<lparr>d_stream := sub\<rparr>"] A
      by (simp add: opened_def)
    from ends_close [OF o this]
    show "ends 0 ?W (d_stream st) (d_world st)
       (Option.bind (pb_decode (Suc n) env flds d (st\<lparr>d_stream := sub\<rparr>))
         (\<lambda>(status, st). ifok (close_substream env parent st) (\<lambda>st. Some (status, st))))" .
  qed
  then show ?thesis by (rule endsE) (auto simp: stream_step_def world_step_def span_def)
qed

theorem pb_decode_delimited_returns_witness:
  "\<exists>ok st'. pb_decode_delimited 3 shape_denv shape_fields 4096
       \<lparr>d_stream = pb_istream_from_buffer [0xFF, 0x01] 2, d_world = shape_world (replicate 12 0), d_fcs = 0\<rparr>
       = Some (ok, st') \<and> mem_istream (d_stream st')"
  using pb_decode_delimited_returns [OF shape_fits,
      of "\<lparr>d_stream = pb_istream_from_buffer [0xFF, 0x01] 2, d_world = shape_world (replicate 12 0), d_fcs = 0\<rparr>" 4096]
    bytes_at_mapped [of 4096 "replicate 12 0"] mem_istream_from_buffer(1) [of "[0xFF, 0x01]"]
  by (auto simp: shape_world_def numeral_3_eq_3)

section \<open>Ranges\<close>

text \<open>C17. An unsigned varint is stored in a field of 1, 2, 4 or 8 bytes, low bytes first, and the
  decoder returns true exactly when the value fits the field: a value that is too large is
  reported, not silently cut (its low bytes are stored all the same).\<close>

theorem pb_dec_uvarint_range:
  assumes "mem_istream (d_stream st)" and "avail (d_stream st) = varint_bytes (unat v) @ rest"
    and "k \<in> {1, 2, 4, 8}" and "f_data_size f = of_nat k" and "mapped (d_mem st) dest k"
  shows "\<exists>st'. pb_dec_uvarint env f dest st = Some (unat (v :: u64) < 2 ^ (8 * k), st') \<and>
     load_bytes (d_mem st') dest k = Some (bytes_of_word k v) \<and> avail (d_stream st') = rest"
proof -
  let ?s = "i_advance (d_stream st) (length (varint_bytes (unat v)))"
  have "avail ?s = rest" using assms(1,2) by simp
  moreover obtain st' where "store_clamped clamp_uint f dest v (st\<lparr>d_stream := ?s\<rparr>) = Some (clamp_uint (of_nat k) v = v, st')"
    "load_bytes (d_mem st') dest k = Some (bytes_of_word k v)"
    "avail (d_stream st') = avail ?s"
    using store_clamped_exact [OF assms(3,4), of "st\<lparr>d_stream := ?s\<rparr>" dest clamp_uint v] assms(5) by auto
  ultimately show ?thesis
    using clamp_uint_eq [OF assms(3)] read_varint_exact [OF assms(1,2)]
    by (auto simp: pb_dec_uvarint_def)
qed

lemma varint_bytes_300: "varint_bytes 300 = [0xAC, 0x02]"
  by (simp add: varint_bytes.simps)

lemma byte_300: "(300 :: u8) = 0x2C"
  by simp

theorem pb_dec_uvarint_range_witness:
  "\<exists>st'. pb_dec_uvarint shape_denv (PB_REQUIRED_STATIC 1 \<lparr>cm_offset = 0, cm_size = 1, cm_elem = 1\<rparr> 0 PB_LTYPE_UVARINT NULL) 4096
       \<lparr>d_stream = pb_istream_from_buffer [0xAC, 0x02] 2, d_world = shape_world [0], d_fcs = 0\<rparr> = Some (False, st') \<and>
     load_bytes (d_mem st') 4096 1 = Some [0x2C]"
  using pb_dec_uvarint_range [of "\<lparr>d_stream = pb_istream_from_buffer [0xAC, 0x02] 2, d_world = shape_world [0], d_fcs = 0\<rparr>"
      300 "[]" 1 "PB_REQUIRED_STATIC 1 \<lparr>cm_offset = 0, cm_size = 1, cm_elem = 1\<rparr> 0 PB_LTYPE_UVARINT NULL" 4096 shape_denv]
    mem_istream_from_buffer [of "[0xAC, 0x02]"] bytes_at_mapped [of 4096 "[0]"]
  by (auto simp: varint_bytes_300 byte_300 shape_world_def PB_REQUIRED_STATIC_def pb_membersize_def)

text \<open>C18. A zigzag-encoded signed varint is stored in two's complement, and the decoder returns
  true exactly when the number lies in the range of the field.\<close>

theorem pb_dec_svarint_range:
  assumes "mem_istream (d_stream st)" and "avail (d_stream st) = varint_bytes (unat (zigzag v)) @ rest"
    and "k \<in> {1, 2, 4, 8}" and "f_data_size f = of_nat k" and "mapped (d_mem st) dest k"
  shows "\<exists>st'. pb_dec_svarint env f dest st =
       Some (- (2 ^ (8 * k - 1)) \<le> sint v \<and> sint v < 2 ^ (8 * k - 1), st') \<and>
     load_bytes (d_mem st') dest k = Some (bytes_of_word k v) \<and> avail (d_stream st') = rest"
proof -
  let ?s = "i_advance (d_stream st) (length (varint_bytes (unat (zigzag v))))"
  have "avail ?s = rest" using assms(1,2) by simp
  moreover obtain st' where "store_clamped clamp_sint f dest v (st\<lparr>d_stream := ?s\<rparr>) = Some (clamp_sint (of_nat k) v = v, st')"
    "load_bytes (d_mem st') dest k = Some (bytes_of_word k v)"
    "avail (d_stream st') = avail ?s"
    using store_clamped_exact [OF assms(3,4), of "st\<lparr>d_stream := ?s\<rparr>" dest clamp_sint v] assms(5) by auto
  moreover have "read_value (pb_decode_svarint (de_in env)) st (store_clamped clamp_sint f dest) =
      store_clamped clamp_sint f dest v (st\<lparr>d_stream := ?s\<rparr>)"
    using parse_varint_bytes [OF length_varint_bytes64 [of "zigzag v"]]
    by (simp add: read_value_def pb_decode_svarint_def pb_decode_varint_parse [OF assms(1)] assms(2) unzigzag_zigzag)
  ultimately show ?thesis
    using clamp_sint_eq [OF assms(3)] by (auto simp: pb_dec_svarint_def)
qed

theorem pb_dec_svarint_range_witness:
  "\<exists>st'. pb_dec_svarint shape_denv (PB_REQUIRED_STATIC 1 \<lparr>cm_offset = 0, cm_size = 1, cm_elem = 1\<rparr> 0 PB_LTYPE_SVARINT NULL) 4096
       \<lparr>d_stream = pb_istream_from_buffer [0xAC, 0x02] 2, d_world = shape_world [0], d_fcs = 0\<rparr> = Some (False, st') \<and>
     load_bytes (d_mem st') 4096 1 = Some [0x96]"
proof -
  have "zigzag 150 = 300" by code_simp
  moreover have "sint (150 :: u64) = 150" by simp
  ultimately show ?thesis
    using pb_dec_svarint_range [of "\<lparr>d_stream = pb_istream_from_buffer [0xAC, 0x02] 2, d_world = shape_world [0], d_fcs = 0\<rparr>"
        150 "[]" 1 "PB_REQUIRED_STATIC 1 \<lparr>cm_offset = 0, cm_size = 1, cm_elem = 1\<rparr> 0 PB_LTYPE_SVARINT NULL" 4096 shape_denv]
      mem_istream_from_buffer [of "[0xAC, 0x02]"] bytes_at_mapped [of 4096 "[0]"]
    by (auto simp: varint_bytes_300 shape_world_def PB_REQUIRED_STATIC_def pb_membersize_def)
qed

section \<open>Allocation\<close>

text \<open>C19. The size check of \<open>allocate_field\<close> is exact: an array of \<open>a\<close> items of \<open>b\<close> bytes is
  refused with \<open>size too large\<close> if and only if \<open>a * b\<close> does not fit \<open>size_t\<close>; otherwise the
  allocator is asked for exactly \<open>a * b\<close> bytes, and where it has none the old block and the
  pointer to it stay as they were.\<close>

theorem allocate_field_exact:
  assumes "load_ptr (d_mem st) pData = Some p" and "a \<noteq> 0" and "b \<noteq> 0"
    and "p \<noteq> NULL \<longrightarrow> w_heap (d_world st) p \<noteq> None"
  shows "allocate_field env pData b a st =
     (if 2 ^ 64 \<le> unat a * unat b then d_error ''size too large'' st
      else let n = of_nat (unat a * unat b); q = a_choose (t_alloc (de_tables env)) (d_world st) p n in
        if q = NULL then d_error ''realloc failed'' st
        else Option.bind (pb_realloc (t_alloc (de_tables env)) p n (d_world st)) (\<lambda>(q, w).
          on_world (w_store_ptr pData q) (st\<lparr>d_world := w\<rparr>)))"
proof -
  have big: "((push_bit 32 1 \<le> b \<or> push_bit 32 1 \<le> a) \<and> (- 1) div a < b) \<longleftrightarrow> 2 ^ 64 \<le> unat a * unat b"
  proof -
    have max: "unat (- 1 :: u64) = 2 ^ 64 - 1"
      by (simp add: unsigned_minus_1_eq_mask mask_eq_exp_minus_1)
    have p32: "unat (push_bit 32 1 :: u64) = 2 ^ 32" by (simp add: unsigned_push_bit_eq)
    have apos: "0 < unat a" using assms(2) by (simp add: unat_gt_0)
    have "(- 1) div a < b \<longleftrightarrow> (2 ^ 64 - 1) div unat a < unat b"
      by (simp add: word_less_nat_alt unat_div max)
    also have "\<dots> \<longleftrightarrow> 2 ^ 64 - 1 < unat b * unat a"
      using apos by (rule div_less_iff_less_mult)
    also have "\<dots> \<longleftrightarrow> 2 ^ 64 \<le> unat a * unat b"
    proof -
      have "(2 :: nat) ^ 64 = Suc (2 ^ 64 - 1)" by simp
      then show ?thesis unfolding mult.commute [of "unat b"] by (metis less_eq_Suc_le)
    qed
    finally have 1: "(- 1) div a < b \<longleftrightarrow> 2 ^ 64 \<le> unat a * unat b" .
    have "push_bit 32 1 \<le> b \<or> push_bit 32 1 \<le> a" if "2 ^ 64 \<le> unat a * unat b"
    proof (rule ccontr)
      assume "\<not> (push_bit 32 1 \<le> b \<or> push_bit 32 1 \<le> a)"
      then have "unat b < 2 ^ 32" "unat a < 2 ^ 32" by (simp_all add: word_le_nat_alt p32)
      then have "unat a * unat b < 2 ^ 32 * 2 ^ 32" by (intro mult_strict_mono) simp_all
      with that show False by simp
    qed
    with 1 show ?thesis by blast
  qed
  have prod: "a * b = of_nat (unat a * unat b)" by simp
  have "allocate_field env pData b a st = (if b = 0 \<or> a = 0 then d_error ''invalid size'' st
     else if 2 ^ 64 \<le> unat a * unat b then d_error ''size too large'' st
     else Option.bind (pb_realloc (t_alloc (de_tables env)) p (a * b) (d_world st))
       (\<lambda>(q, w). if q = NULL then d_error ''realloc failed'' (st\<lparr>d_world := w\<rparr>)
        else on_world (w_store_ptr pData q) (st\<lparr>d_world := w\<rparr>)))"
    unfolding allocate_field_def assms(1) big by simp
  note eq = this
  show ?thesis
  proof -
    have same: "st\<lparr>d_world := d_world st\<rparr> = st" by simp
    show ?thesis
      unfolding eq prod
      using assms(2-4) by (auto simp: pb_realloc_def Let_def same)
  qed
qed

text \<open>Two arrays that do not fit: 2^33 items of 2^31 bytes, and 2^33 of 2^30, which are granted.\<close>

definition small_denv :: "unit denv" where
  "small_denv = shape_denv\<lparr>de_tables := \<lparr>t_fields = \<lambda>p. None,
     t_alloc = \<lparr>a_choose = \<lambda>w p n. if unat n \<le> 64 then 8192 else NULL, a_junk = \<lambda>a. 0\<rparr>\<rparr>\<rparr>"

theorem allocate_field_exact_witness:
  "allocate_field small_denv 4096 4 0x4000000000000001
      \<lparr>d_stream = pb_istream_from_buffer [] 0, d_world = shape_world (replicate 8 0), d_fcs = 0\<rparr> =
    d_error ''size too large'' \<lparr>d_stream = pb_istream_from_buffer [] 0, d_world = shape_world (replicate 8 0), d_fcs = 0\<rparr>"
proof -
  have "load_ptr (w_mem (shape_world (replicate 8 0))) 4096 = Some NULL" by code_simp
  then show ?thesis
    using allocate_field_exact [where st = "\<lparr>d_stream = pb_istream_from_buffer [] 0, d_world = shape_world (replicate 8 0), d_fcs = 0\<rparr>"
        and pData = 4096 and p = NULL and a = "0x4000000000000001" and b = 4 and env = small_denv]
    by simp
qed

section \<open>Required fields\<close>

lemma required_before_all:
  assumes "fields_ok flds" "i < length flds"
  shows "seek_end (iter_at flds d i) =
    (of_nat (required_before flds (length flds - 1)), f_type (flds ! (length flds - 1)), iter_at flds d 0)"
  using assms(2)
proof (induction "length flds - i" arbitrary: i)
  case (Suc k)
  show ?case
  proof (cases "Suc i < length flds")
    case True
    then show ?thesis
      using Suc iter_next [OF assms(1), of i d] by (subst seek_end.simps) simp
  next
    case False
    then have "length flds - 1 = i" using Suc.prems by simp
    then show ?thesis
      using False Suc.prems iter_next [OF assms(1), of i d] by (subst seek_end.simps) simp
  qed
qed simp

definition required_fields :: "pb_field list \<Rightarrow> nat" where
  "required_fields flds = length (filter (\<lambda>f. htype f = PB_HTYPE_REQUIRED) flds)"

lemma required_count_at:
  assumes "fields_ok flds" "i < length flds" "length flds < 2 ^ 32"
  shows "required_count (iter_at flds d i) = of_nat (min 64 (required_fields flds))"
proof -
  let ?k = "required_before flds (length flds - 1)" and ?last = "flds ! (length flds - 1)"
  have ne: "flds \<noteq> []" "f_tag (field_at flds 0) \<noteq> 0"
    using assms(1,2) fields_ok_tag [OF assms(1), of 0] by auto
  have all: "required_fields flds = ?k + (if htype ?last = PB_HTYPE_REQUIRED then 1 else 0)"
    using required_before_Suc [of "length flds - 1" flds] ne(1)
    by (simp add: required_fields_def required_before_def)
  have "required_fields flds \<le> length flds" by (simp add: required_fields_def)
  then have small: "required_fields flds < 2 ^ 32" using assms(3) by simp
  have "(if htype ?last = PB_HTYPE_REQUIRED then of_nat ?k + 1 else of_nat ?k :: u32) = of_nat (required_fields flds)"
    using all by simp
  moreover have "(if of_nat m > (64 :: u32) then 64 else of_nat m) = (of_nat (min 64 m) :: u32)" if "m < 2 ^ 32" for m
    using that by (auto simp: word_less_nat_alt unat_of_nat_small min_def)
  moreover have "required_count (iter_at flds d i) =
      (let count = (if htype ?last = PB_HTYPE_REQUIRED then of_nat ?k + 1 else of_nat ?k) in if count > 64 then 64 else count)"
    using ne by (simp add: required_count_def required_before_all [OF assms(1,2)])
  ultimately show ?thesis
    using small by (simp only: Let_def)
qed

text \<open>The index of a required field determines the field, and all indices occur.\<close>

lemma required_before_less:
  assumes "j < length flds" "htype (flds ! j) = PB_HTYPE_REQUIRED"
  shows "i \<le> j \<Longrightarrow> required_before flds i \<le> required_before flds j"
    "j < i \<Longrightarrow> required_before flds j < required_before flds i"
    "required_before flds j < required_fields flds"
proof -
  have mono: "required_before flds a \<le> required_before flds b" if "a \<le> b" for a b
    using that le_Suc_ex [OF that] by (auto simp: required_before_def take_add)
  then show "i \<le> j \<Longrightarrow> required_before flds i \<le> required_before flds j" .
  have "required_before flds (Suc j) = required_before flds j + 1"
    using assms by (simp add: required_before_Suc)
  then show less: "j < i \<Longrightarrow> required_before flds j < required_before flds i" for i
    using mono [of "Suc j" i] by simp
  have "required_fields flds = required_before flds (length flds)"
    by (simp add: required_fields_def required_before_def)
  then show "required_before flds j < required_fields flds"
    using less [of "length flds"] assms(1) by simp
qed

lemma required_before_inj:
  assumes "j < length flds" "htype (flds ! j) = PB_HTYPE_REQUIRED"
    and "j' < length flds" "htype (flds ! j') = PB_HTYPE_REQUIRED"
    and "required_before flds j = required_before flds j'"
  shows "j = j'"
  using required_before_less(2) [OF assms(1,2), of j'] required_before_less(2) [OF assms(3,4), of j] assms(5)
  by (cases j j' rule: linorder_cases) simp_all

lemma required_before_surj:
  "i < required_fields flds \<Longrightarrow> \<exists>j < length flds. htype (flds ! j) = PB_HTYPE_REQUIRED \<and> required_before flds j = i"
proof (induction flds rule: rev_induct)
  case (snoc f flds)
  show ?case
  proof (cases "i < required_fields flds")
    case True
    then obtain j where "j < length flds" "htype (flds ! j) = PB_HTYPE_REQUIRED" "required_before flds j = i"
      using snoc.IH by blast
    then show ?thesis
      by (intro exI [of _ j]) (simp add: nth_append required_before_def)
  next
    case False
    then have "htype f = PB_HTYPE_REQUIRED" "i = required_fields flds"
      using snoc.prems by (auto simp: required_fields_def split: if_splits)
    then show ?thesis
      by (intro exI [of _ "length flds"]) (simp add: required_before_def required_fields_def)
  qed
qed (simp add: required_fields_def)

text \<open>The bits that \<open>mark_seen\<close> sets.\<close>

definition seen_bit :: "u32 list \<Rightarrow> nat \<Rightarrow> bool" where
  "seen_bit seen i = bit (seen ! (i div 32)) (i mod 32)"

lemma bit_nat_split: "i div 32 = k div 32 \<Longrightarrow> i mod 32 = k mod 32 \<Longrightarrow> i = (k :: nat)"
  by (metis div_mult_mod_eq)

lemma length_mark_seen [simp]: "length (mark_seen it seen) = length seen"
  by (simp add: mark_seen_def Let_def)

lemma mark_seen_bit:
  assumes "length seen = 2" "i < 64"
  shows "seen_bit (mark_seen it seen) i \<longleftrightarrow> seen_bit seen i \<or>
    (htype (it_field it) = PB_HTYPE_REQUIRED \<and> unat (it_required_field_index it) = i)"
proof (cases "htype (it_field it) = PB_HTYPE_REQUIRED \<and> unat (it_required_field_index it) < 64")
  case True
  let ?k = "unat (it_required_field_index it)"
  have "?k div 32 < 2" "i div 32 < 2" using True assms(2) by (simp_all add: div_less_iff_less_mult)
  moreover have "i mod 32 < 32" by simp
  ultimately show ?thesis
    using True assms(1) bit_nat_split [of i ?k]
    by (auto simp: seen_bit_def mark_seen_def Let_def nth_list_update bit_simps)
next
  case False
  then show ?thesis using assms(2) by (auto simp: mark_seen_def Let_def)
qed

lemma marks_bit:
  assumes "length seen = 2" "i < 64"
  shows "length (fold mark_seen its seen) = 2 \<and> (seen_bit (fold mark_seen its seen) i \<longleftrightarrow> seen_bit seen i \<or>
    (\<exists>it \<in> set its. htype (it_field it) = PB_HTYPE_REQUIRED \<and> unat (it_required_field_index it) = i))"
  using assms(1)
proof (induction its arbitrary: seen)
  case (Cons it its)
  then show ?case using mark_seen_bit [OF Cons.prems assms(2)] by auto
qed simp

lemma word32_all_ones: "(w :: u32) = - 1 \<longleftrightarrow> (\<forall>j < 32. bit w j)"
  by (auto simp: bit_eq_iff bit_simps)

lemma word32_low_ones: "r < 32 \<Longrightarrow> (w :: u32) = drop_bit (32 - r) (- 1) \<longleftrightarrow> (\<forall>j < 32. bit w j \<longleftrightarrow> j < r)"
  by (auto simp: bit_eq_iff bit_simps)

lemma all_seen_bits:
  assumes "length seen = 2" "k \<le> 64" "\<forall>i. k \<le> i \<and> i < 64 \<longrightarrow> \<not> seen_bit seen i"
  shows "all_seen seen (of_nat k) \<longleftrightarrow> (\<forall>i < k. seen_bit seen i)"
proof -
  obtain a b where seen: "seen = [a, b]"
    using assms(1) by (cases seen; cases "tl seen") auto
  have k: "unat (of_nat k :: u32) = k" using assms(2) by (simp add: unat_of_nat_small)
  have bits: "seen_bit seen i = (if i < 32 then bit a i else bit b (i - 32))" if "i < 64" for i
  proof (cases "i < 32")
    case False
    then have "i div 32 = 1" "i mod 32 = i - 32" using that by (simp_all add: div_if mod_if)
    then show ?thesis using False by (simp add: seen_bit_def seen)
  qed (simp add: seen_bit_def seen)
  have A: "(\<forall>i < 32. seen_bit seen i) \<longleftrightarrow> a = - 1"
    by (simp add: word32_all_ones bits)
  consider (lo) "k < 32" | (mid) "32 \<le> k" "k < 64" | (hi) "k = 64" using assms(2) by linarith
  then show ?thesis
  proof cases
    case lo
    have "a = drop_bit (32 - k) (- 1) \<longleftrightarrow> (\<forall>i < k. seen_bit seen i)"
      unfolding word32_low_ones [OF lo] using assms(3) lo bits by (auto simp: not_less)
    moreover have "(\<forall>i < k. seen_bit seen i)" if "k = 0" using that by simp
    ultimately show ?thesis using lo by (auto simp: all_seen_def k seen)
  next
    case mid
    define r where "r = k - 32"
    have r: "k = 32 + r" "r < 32" using mid by (simp_all add: r_def)
    have split: "(\<forall>i < k. seen_bit seen i) \<longleftrightarrow> a = - 1 \<and> (\<forall>j < r. bit b j)"
    proof -
      have "(\<forall>i < k. seen_bit seen i) \<longleftrightarrow> (\<forall>i < 32. seen_bit seen i) \<and> (\<forall>j < r. seen_bit seen (32 + j))"
        using r by (auto, metis add_diff_inverse_nat nat_add_left_cancel_less)
      moreover have "seen_bit seen (32 + j) = bit b j" if "j < r" for j using bits [of "32 + j"] that r by simp
      ultimately show ?thesis using A by simp
    qed
    have clear: "\<not> bit b j" if "r \<le> j" "j < 32" for j
      using assms(3) bits [of "32 + j"] that r by simp
    have "b = drop_bit (32 - r) (- 1) \<longleftrightarrow> (\<forall>j < r. bit b j)"
      unfolding word32_low_ones [OF r(2)] using clear r(2) not_less by (metis less_trans)
    moreover have "k div 32 = 1" "k mod 32 = r" using r by simp_all
    ultimately show ?thesis unfolding split by (auto simp: all_seen_def k seen)
  next
    case hi
    have "(\<forall>i < 64. seen_bit seen i) \<longleftrightarrow> (\<forall>i < 32. seen_bit seen i) \<and> (\<forall>j < 32. seen_bit seen (32 + j))"
      by (auto, metis add_diff_inverse_nat add_less_cancel_left numeral_Bit0)
    moreover have "seen_bit seen (32 + j) = bit b j" if "j < 32" for j using bits [of "32 + j"] that by simp
    ultimately have "(\<forall>i < k. seen_bit seen i) \<longleftrightarrow> a = - 1 \<and> b = - 1"
      using A word32_all_ones [of b] hi by simp
    then show ?thesis using hi by (simp add: all_seen_def k seen)
  qed
qed

text \<open>C20. After the fields \<open>js\<close> of a message have been seen, in any order and any number of times,
  the bit check at the end of the decoder succeeds exactly when each of the first 64 required
  fields of the table is among them: the counting of required fields while the iterator moves,
  the marking of the bits and the comparison of whole words agree.\<close>

theorem required_fields_checked:
  assumes "fields_ok flds" and "length flds < 2 ^ 32" and "i < length flds" and "set js \<subseteq> {..<length flds}"
  shows "all_seen (fold mark_seen (map (iter_at flds d) js) [0, 0]) (required_count (iter_at flds d i)) \<longleftrightarrow>
     (\<forall>j < length flds. htype (flds ! j) = PB_HTYPE_REQUIRED \<and> required_before flds j < 64 \<longrightarrow> j \<in> set js)"
proof -
  let ?seen = "fold mark_seen (map (iter_at flds d) js) [0, 0]" and ?k = "min 64 (required_fields flds)"
  let ?marked = "\<lambda>i. \<exists>j \<in> set js. htype (flds ! j) = PB_HTYPE_REQUIRED \<and> required_before flds j = i"
  have idx: "unat (of_nat (required_before flds j) :: u32) = required_before flds j" for j
  proof -
    have "required_before flds j \<le> length flds"
      unfolding required_before_def by (metis length_filter_le length_take min.cobounded1 le_trans)
    then show ?thesis using assms(2) by (intro unat_of_nat_small) simp
  qed
  have bits: "length ?seen = 2" "seen_bit ?seen k \<longleftrightarrow> ?marked k" if "k < 64" for k
  proof -
    have "\<not> seen_bit [0, 0] k" using that by (cases "k div 32") (auto simp: seen_bit_def nth_Cons split: nat.split)
    moreover have "field_at flds j = flds ! j" if "j \<in> set js" for j using assms(4) that by auto
    ultimately show "length ?seen = 2" "seen_bit ?seen k \<longleftrightarrow> ?marked k"
      using marks_bit [of "[0, 0]" k "map (iter_at flds d) js"] that idx by (auto 0 3)
  qed
  have clear: "\<forall>k. ?k \<le> k \<and> k < 64 \<longrightarrow> \<not> seen_bit ?seen k"
  proof (intro allI impI)
    fix k assume k: "?k \<le> k \<and> k < 64"
    have "\<not> ?marked k"
    proof
      assume "?marked k"
      then obtain j where "j \<in> set js" "htype (flds ! j) = PB_HTYPE_REQUIRED" "required_before flds j = k" by blast
      then show False using required_before_less(3) [of j flds] assms(4) k by auto
    qed
    then show "\<not> seen_bit ?seen k" using bits(2) k by simp
  qed
  have "all_seen ?seen (of_nat ?k) \<longleftrightarrow> (\<forall>k < ?k. ?marked k)"
    using all_seen_bits [OF bits(1) [of 0] _ clear] bits(2) by simp
  also have "\<dots> \<longleftrightarrow> (\<forall>j < length flds. htype (flds ! j) = PB_HTYPE_REQUIRED \<and> required_before flds j < 64 \<longrightarrow> j \<in> set js)"
  proof
    assume all: "\<forall>k < ?k. ?marked k"
    show "\<forall>j < length flds. htype (flds ! j) = PB_HTYPE_REQUIRED \<and> required_before flds j < 64 \<longrightarrow> j \<in> set js"
    proof (intro allI impI)
      fix j assume j: "j < length flds" "htype (flds ! j) = PB_HTYPE_REQUIRED \<and> required_before flds j < 64"
      then have "required_before flds j < ?k" using required_before_less(3) [of j flds] by simp
      with all obtain j' where j': "j' \<in> set js" "htype (flds ! j') = PB_HTYPE_REQUIRED"
        "required_before flds j' = required_before flds j" by blast
      then have "j' < length flds" using assms(4) by auto
      from required_before_inj [OF this j'(2) j(1) _ j'(3)] j(2) j'(1) show "j \<in> set js" by simp
    qed
  next
    assume all: "\<forall>j < length flds. htype (flds ! j) = PB_HTYPE_REQUIRED \<and> required_before flds j < 64 \<longrightarrow> j \<in> set js"
    show "\<forall>k < ?k. ?marked k"
    proof (intro allI impI)
      fix k assume "k < ?k"
      then obtain j where "j < length flds" "htype (flds ! j) = PB_HTYPE_REQUIRED" "required_before flds j = k"
        using required_before_surj [of k flds] by auto
      then show "?marked k" using all \<open>k < ?k\<close> by auto
    qed
  qed
  finally show ?thesis
    using required_count_at [OF assms(1,3,2)] by simp
qed

theorem required_fields_checked_witness:
  "\<not> all_seen (fold mark_seen (map (iter_at shape_fields 4096) [1]) [0, 0]) (required_count (iter_at shape_fields 4096 0))"
proof -
  have "fields_ok shape_fields" "length shape_fields = 2" "htype (shape_fields ! 0) = PB_HTYPE_REQUIRED"
    "required_before shape_fields 0 = 0"
    by (simp_all add: shape_fields_def fields_ok_def macro_defs pb_type_defs)
  then show ?thesis
    using required_fields_checked [of shape_fields 0 "[1]" 4096] by force
qed

section \<open>Strings\<close>

text \<open>C21. A string is stored in a static field exactly when it is shorter than the field, so that
  the terminating zero always fits; the bytes and the zero are then stored and the stream stands
  behind the string. Otherwise the decoder returns false and has stored nothing.\<close>

theorem pb_dec_string_terminates_string:
  assumes "mem_istream (d_stream st)" and "avail (d_stream st) = len_delimited bs @ rest" and "length bs < 2 ^ 32"
    and "atype f = PB_ATYPE_STATIC" and "mapped (d_mem st) dest (unat (f_data_size f))"
  shows "\<exists>st'. pb_dec_string env f dest st = Some (length bs < unat (f_data_size f), st') \<and>
     (if length bs < unat (f_data_size f)
      then load_bytes (d_mem st') dest (Suc (length bs)) = Some (bs @ [0]) \<and> avail (d_stream st') = rest
      else d_world st' = d_world st)"
proof -
  let ?n = "length bs" and ?s = "i_advance (d_stream st) (length (varint_bytes (length bs)))"
  let ?st = "st\<lparr>d_stream := ?s\<rparr>" and ?sz = "of_nat (length bs) :: u32"
  have av: "avail (d_stream st) = varint_bytes ?n @ bs @ rest" using assms(2) by (simp add: len_delimited_def)
  have rd: "pb_decode_varint32 e (d_stream st) = Some (Some ?sz, ?s)" for e :: "'a ienv"
    by (rule varint32_canonical [OF assms(1) av assms(3)])
  have s: "mem_istream ?s" "avail ?s = bs @ rest" using assms(1) av by simp_all
  have sz: "unat ?sz = ?n" using assms(3) by (intro unat_of_nat_small) simp
  have ds: "unat (f_data_size f) < 2 ^ 32" using unsigned_less [of "f_data_size f", where ?'a = nat] by simp
  show ?thesis
  proof (cases "?n = 2 ^ 32 - 1")
    case True
    then have "?sz + 1 = 0" by (simp add: word_unat_eq_iff unat_word_ariths sz)
    moreover have "(0 :: u64) < ucast ?sz" using True sz by (simp add: word_less_nat_alt unsigned_ucast_eq)
    ultimately have "pb_dec_string env f dest st = d_error ''size too large'' ?st"
      by (simp add: pb_dec_string_def read_value_def rd del: of_nat_add)
    moreover have "\<not> ?n < unat (f_data_size f)" using True ds by simp
    ultimately show ?thesis by (simp add: d_error_def)
  next
    case False
    then have n: "Suc ?n < 2 ^ 32" using assms(3) by simp
    have one: "unat (?sz + 1) = Suc ?n"
      using n sz by (simp add: unat_word_ariths)
    have alloc: "unat (ucast (?sz + 1) :: u64) = Suc ?n" "unat (ucast ?sz :: u64) = ?n"
      using n sz one by (simp_all add: unsigned_ucast_eq take_bit_nat_eq_self)
    have nowrap: "\<not> (ucast (?sz + 1) :: u64) < ucast ?sz"
      unfolding word_less_nat_alt alloc by simp
    have fit: "(ucast (f_data_size f) :: u64) < ucast (?sz + 1) \<longleftrightarrow> unat (f_data_size f) < Suc ?n"
      unfolding word_less_nat_alt alloc using ds by (simp add: unsigned_ucast_eq take_bit_nat_eq_self)
    show ?thesis
    proof (cases "?n < unat (f_data_size f)")
      case no: False
      then have "pb_dec_string env f dest st = d_error ''string overflow'' ?st"
        using nowrap fit assms(4) by (simp add: pb_dec_string_def read_value_def rd d_error_def del: of_nat_add)
      with no show ?thesis by (simp add: d_error_def)
    next
      case yes: True
      obtain m1 where m1: "store_bytes (d_mem st) dest bs = Some m1"
        using mapped_mono [OF assms(5), of ?n] yes store_bytes_defined by fastforce
      have "mapped m1 (dest + int ?n) 1"
        using mapped_sub [OF assms(5), of ?n 1] yes store_bytes_mapped [OF m1] by simp
      then obtain m2 where m2: "store_bytes m1 (dest + int ?n) [0] = Some m2"
        using store_bytes_defined [of m1 "dest + int ?n" "[0]"] by auto
      have load: "load_bytes m2 dest (Suc ?n) = Some (bs @ [0])"
      proof -
        have "load_bytes m2 dest ?n = Some bs"
          using load_store_other [OF m2, of dest ?n] load_store_same [OF m1] by simp
        moreover have "load_bytes m2 (dest + int ?n) 1 = Some [0]"
          using load_store_same [OF m2] by simp
        ultimately show ?thesis using load_bytes_add [of m2 dest ?n 1] by simp
      qed
      have "?n \<le> length (avail ?s)" "take ?n (avail ?s) = bs" using s by simp_all
      then have "read_into env dest (ucast ?sz) ?st =
          Some (True, st\<lparr>d_stream := i_advance ?s ?n, d_world := (d_world st)\<lparr>w_mem := m1\<rparr>\<rparr>)"
        using m1 s(1) by (simp add: read_into_def read_chunk_mem alloc w_store_def)
      moreover have "uint ?sz = int ?n" using sz by (metis uint_nat)
      ultimately have "pb_dec_string env f dest st =
          Some (True, st\<lparr>d_stream := i_advance ?s ?n, d_world := (d_world st)\<lparr>w_mem := m2\<rparr>\<rparr>)"
        using nowrap fit yes assms(4) m2
        by (simp add: pb_dec_string_def read_value_def rd on_world_def w_store_def del: of_nat_add store_bytes.simps)
      moreover have "avail (i_advance ?s ?n) = rest" using s by (simp del: i_advance_advance)
      ultimately show ?thesis using load yes by (auto simp del: i_advance_advance load_bytes.simps)
    qed
  qed
qed

theorem pb_dec_string_terminates_string_witness:
  "\<exists>st'. pb_dec_string shape_denv \<lparr>f_tag = 1, f_type = PB_LTYPE_STRING, f_data_offset = 0, f_size_offset = 0,
         f_data_size = 3, f_array_size = 0, f_ptr = NULL\<rparr> 4096
       \<lparr>d_stream = pb_istream_from_buffer [2, 72, 105] 3, d_world = shape_world [9, 9, 9], d_fcs = 0\<rparr> = Some (True, st') \<and>
     load_bytes (d_mem st') 4096 (length [72 :: u8, 105, 0]) = Some [72, 105, 0]"
proof -
  have "len_delimited [72, 105] = [2, 72, 105]" by (simp add: len_delimited_def varint_bytes.simps)
  moreover have "mapped (bytes_at 4096 [9, 9, 9]) 4096 3"
    using bytes_at_mapped [of 4096 "[9, 9, 9]"] by (simp add: numeral_3_eq_3)
  ultimately show ?thesis
    using pb_dec_string_terminates_string [of "\<lparr>d_stream = pb_istream_from_buffer [2, 72, 105] 3,
          d_world = shape_world [9, 9, 9], d_fcs = 0\<rparr>" "[72, 105]" "[]"
        "\<lparr>f_tag = 1, f_type = PB_LTYPE_STRING, f_data_offset = 0, f_size_offset = 0,
         f_data_size = 3, f_array_size = 0, f_ptr = NULL\<rparr>" 4096 shape_denv]
      mem_istream_from_buffer [of "[2, 72, 105]"]
    by (auto simp: shape_world_def pb_type_defs simp del: load_bytes.simps)
qed

section \<open>Releasing\<close>





end
