(* ===== verification/Base64.thy ===== *)
theory Base64
  imports Prelude
begin

text \<open>
  \<open>FirebaseDatabase/.../SocketRocket/fbase64.c\<close>: the Base64 encoder and decoder the WebSocket
  handshake uses. Arrays are lists of bytes; an access outside an array has no outcome
  (\<open>None\<close>). A C string is the list of its bytes up to the terminating zero. The value a
  function returns is an \<open>int\<close>, -1 for an error, with the contents of the target array.

  \<open>isspace\<close> is the one of the C locale. The code passes it a \<open>char\<close>, which is signed on the
  targets: for a byte of 128 and more the argument is negative, and the C standard defines no
  result.
\<close>

definition Base64 :: "u8 list" where
  "Base64 = map of_char ''ABCDEFGHIJKLMNOPQRSTUVWXYZabcdefghijklmnopqrstuvwxyz0123456789+/''"

definition Pad64 :: u8 where
  "Pad64 = 61"

section \<open>Encoding\<close>

primrec put_chars :: "u8 list \<Rightarrow> u64 \<Rightarrow> u8 list \<Rightarrow> (u64 \<times> u8 list) option" where
  "put_chars target n [] = Some (n, target)"
| "put_chars target n (c # cs) =
     (if unat n < length target then put_chars (target[unat n := c]) (n + 1) cs else None)"

text \<open>The six-bit digits of three bytes.\<close>

definition digit0 :: "u8 \<Rightarrow> u8" where "digit0 a = drop_bit 2 a"
definition digit1 :: "u8 \<Rightarrow> u8 \<Rightarrow> u8" where "digit1 a b = push_bit 4 (a AND 0x03) + drop_bit 4 b"
definition digit2 :: "u8 \<Rightarrow> u8 \<Rightarrow> u8" where "digit2 b c = push_bit 2 (b AND 0x0f) + drop_bit 6 c"
definition digit3 :: "u8 \<Rightarrow> u8" where "digit3 c = c AND 0x3f"

definition b64_char :: "u8 \<Rightarrow> u8" where
  "b64_char d = Base64 ! unat d"

text \<open>What follows the groups of three bytes: the terminating zero.\<close>

definition ntop_end :: "u64 \<Rightarrow> u64 \<Rightarrow> u8 list \<Rightarrow> (int \<times> u8 list) option" where
  "ntop_end targsize n target =
     (if targsize \<le> n then Some (- 1, target)
      else map_option (\<lambda>(_, target). (sint (ucast n :: u32), target)) (put_chars target n [0]))"

fun ntop_loop :: "u64 \<Rightarrow> u8 list \<Rightarrow> u64 \<Rightarrow> u8 list \<Rightarrow> (int \<times> u8 list) option" where
  "ntop_loop targsize (a # b # c # src) n target =
     (if n + 4 > targsize then Some (- 1, target)
      else Option.bind (put_chars target n (map b64_char [digit0 a, digit1 a b, digit2 b c, digit3 c]))
        (\<lambda>(n, target). ntop_loop targsize src n target))"
| "ntop_loop targsize [] n target = ntop_end targsize n target"
| "ntop_loop targsize [a] n target =
     (if n + 4 > targsize then Some (- 1, target)
      else Option.bind (put_chars target n [b64_char (digit0 a), b64_char (digit1 a 0), Pad64, Pad64])
        (\<lambda>(n, target). ntop_end targsize n target))"
| "ntop_loop targsize [a, b] n target =
     (if n + 4 > targsize then Some (- 1, target)
      else Option.bind (put_chars target n (map b64_char [digit0 a, digit1 a b, digit2 b 0] @ [Pad64]))
        (\<lambda>(n, target). ntop_end targsize n target))"

definition f_b64_ntop :: "u8 list \<Rightarrow> u64 \<Rightarrow> u8 list \<Rightarrow> u64 \<Rightarrow> (int \<times> u8 list) option" where
  "f_b64_ntop src srclength target targsize =
     (if unat srclength \<le> length src then ntop_loop targsize (take (unat srclength) src) 0 target
      else None)"

section \<open>Decoding\<close>

text \<open>\<open>target\<close> may be NULL, then the bytes are only counted.\<close>

record pton_state =
  p_tarindex :: u32
  p_state :: nat
  p_target :: "u8 list option"

definition isspace :: "u8 \<Rightarrow> bool option" where
  "isspace ch = (if 128 \<le> unat ch then None else Some (ch = 32 \<or> (9 \<le> ch \<and> ch \<le> 13)))"

definition strchr_Base64 :: "u8 \<Rightarrow> u8 option" where
  "strchr_Base64 ch = map_option of_nat (List.find (\<lambda>i. Base64 ! i = ch) [0..<64])"

text \<open>The target index as it is compared to the size and used to index the array.\<close>

definition put_target :: "u32 \<Rightarrow> (u8 \<Rightarrow> u8) \<Rightarrow> pton_state outcome \<Rightarrow> pton_state outcome" where
  "put_target i f r = ifok r (\<lambda>s. case p_target s of
     None \<Rightarrow> Some (True, s)
   | Some t \<Rightarrow> if unat i < length t then Some (True, s\<lparr>p_target := Some (t[unat i := f (t ! unat i)])\<rparr>)
              else None)"

definition check_room :: "u64 \<Rightarrow> u32 \<Rightarrow> pton_state \<Rightarrow> pton_state outcome" where
  "check_room targsize i s =
     (if p_target s \<noteq> None \<and> targsize \<le> ucast i then Some (False, s) else Some (True, s))"

definition pton_digit :: "u64 \<Rightarrow> u8 \<Rightarrow> pton_state \<Rightarrow> pton_state outcome" where
  "pton_digit targsize v s =
     (let i = p_tarindex s in
      if p_state s = 0 then
        ifok (put_target i (\<lambda>_. push_bit 2 v) (check_room targsize i s))
          (\<lambda>s. Some (True, s\<lparr>p_state := 1\<rparr>))
      else if p_state s = 1 then
        ifok (put_target (i + 1) (\<lambda>_. push_bit 4 (v AND 0x0f))
               (put_target i (\<lambda>b. b OR drop_bit 4 v) (check_room targsize (i + 1) s)))
          (\<lambda>s. Some (True, s\<lparr>p_tarindex := i + 1, p_state := 2\<rparr>))
      else if p_state s = 2 then
        ifok (put_target (i + 1) (\<lambda>_. push_bit 6 (v AND 0x03))
               (put_target i (\<lambda>b. b OR drop_bit 2 v) (check_room targsize (i + 1) s)))
          (\<lambda>s. Some (True, s\<lparr>p_tarindex := i + 1, p_state := 3\<rparr>))
      else
        ifok (put_target i (\<lambda>b. b OR v) (check_room targsize i s))
          (\<lambda>s. Some (True, s\<lparr>p_tarindex := i + 1, p_state := 0\<rparr>)))"

text \<open>
  The loop over the string. It returns the character it stopped at (zero or the pad) and what
  follows it, or false where the function returns -1.
\<close>

fun pton_loop :: "u64 \<Rightarrow> u8 list \<Rightarrow> pton_state \<Rightarrow> (u8 \<times> u8 list \<times> pton_state) outcome" where
  "pton_loop targsize [] s = Some (True, 0, [], s)"
| "pton_loop targsize (ch # src) s =
     (if ch = 0 then Some (True, 0, [], s)
      else Option.bind (isspace ch) (\<lambda>space.
        if space then pton_loop targsize src s
        else if ch = Pad64 then Some (True, ch, src, s)
        else (case strchr_Base64 ch of
            None \<Rightarrow> Some (False, ch, src, s)
          | Some v \<Rightarrow> Option.bind (pton_digit targsize v s) (\<lambda>(ok, s).
              if ok then pton_loop targsize src s else Some (False, ch, src, s)))))"

text \<open>\<open>for (; ch != 0; ch = *src++) if (!isspace(ch)) break;\<close>, and with \<open>return (-1)\<close>.\<close>

fun skip_spaces :: "u8 list \<Rightarrow> (u8 \<times> u8 list) option" where
  "skip_spaces [] = Some (0, [])"
| "skip_spaces (ch # src) =
     (if ch = 0 then Some (0, [])
      else Option.bind (isspace ch) (\<lambda>space. if space then skip_spaces src else Some (ch, src)))"

fun only_spaces :: "u8 list \<Rightarrow> bool option" where
  "only_spaces [] = Some True"
| "only_spaces (ch # src) =
     (if ch = 0 then Some True
      else Option.bind (isspace ch) (\<lambda>space. if space then only_spaces src else Some False))"

text \<open>The check behind the padding; \<open>src\<close> is what follows the last pad character.\<close>

definition pton_tail :: "u8 list \<Rightarrow> pton_state \<Rightarrow> int option" where
  "pton_tail src s =
     Option.bind (only_spaces src) (\<lambda>ok.
       if \<not> ok then Some (- 1)
       else (case p_target s of
           None \<Rightarrow> Some (sint (p_tarindex s))
         | Some t \<Rightarrow> if unat (p_tarindex s) < length t
                    then Some (if t ! unat (p_tarindex s) \<noteq> 0 then - 1 else sint (p_tarindex s))
                    else None))"

text \<open>What follows the loop: the character it stopped at is a pad character or the end.\<close>

definition pton_end :: "u8 \<Rightarrow> u8 list \<Rightarrow> pton_state \<Rightarrow> int option" where
  "pton_end ch src s =
     (if ch = Pad64 then
        (if p_state s = 0 \<or> p_state s = 1 then Some (- 1)
         else if p_state s = 2 then
           Option.bind (skip_spaces src) (\<lambda>(ch, src).
             if ch \<noteq> Pad64 then Some (- 1) else pton_tail src s)
         else pton_tail src s)
      else Some (if p_state s \<noteq> 0 then - 1 else sint (p_tarindex s)))"

definition pton_run :: "u8 list \<Rightarrow> u64 \<Rightarrow> pton_state \<Rightarrow> (int \<times> u8 list option) option" where
  "pton_run src targsize s =
     Option.bind (pton_loop targsize src s) (\<lambda>(ok, ch, src, s).
       map_option (\<lambda>r. (r, p_target s)) (if ok then pton_end ch src s else Some (- 1)))"

definition f_b64_pton :: "u8 list \<Rightarrow> u8 list option \<Rightarrow> u64 \<Rightarrow> (int \<times> u8 list option) option" where
  "f_b64_pton src target targsize =
     pton_run src targsize \<lparr>p_tarindex = 0, p_state = 0, p_target = target\<rparr>"

end
