(* ===== verification/Base64Spec.thy ===== *)
theory Base64Spec
  imports Base64
begin

text \<open>
  The encoding of RFC 1521 as the comment in \<open>fbase64.c\<close> describes it, on the stream of bits:
  the bits of the bytes from left to right, cut into groups of six with zero bits added on the
  right, each group a digit, and \<open>=\<close> added to make the length a multiple of four.
\<close>

definition byte_bits :: "u8 \<Rightarrow> bool list" where
  "byte_bits b = map (bit b) [7, 6, 5, 4, 3, 2, 1, 0]"

definition digit_of :: "bool list \<Rightarrow> u8" where
  "digit_of bs = horner_sum of_bool 2 (rev bs)"

fun sextets :: "bool list \<Rightarrow> u8 list" where
  "sextets [] = []"
| "sextets (b # bs) = digit_of (take 6 ((b # bs) @ replicate 5 False)) # sextets (drop 5 bs)"

definition b64_text :: "u8 list \<Rightarrow> u8 list" where
  "b64_text bs = map b64_char (sextets (concat (map byte_bits bs))) @
     replicate ((3 - length bs mod 3) mod 3) Pad64"

section \<open>The digits\<close>

lemma less_8_cases: "n < 8 \<Longrightarrow> n = 0 \<or> n = 1 \<or> n = 2 \<or> n = 3 \<or> n = 4 \<or> n = 5 \<or> n = 6 \<or> n = (7 :: nat)"
  by linarith

lemma bit_u8_high [simp]: "8 \<le> n \<Longrightarrow> \<not> bit (w :: u8) n"
  by (auto dest: bit_imp_le_length)

lemma digit1_or: "digit1 a b = push_bit 4 (a AND 0x03) OR drop_bit 4 b"
  unfolding digit1_def
proof (rule disjunctive_add_eq_or)
  show "push_bit 4 (a AND 0x03) AND drop_bit 4 b = 0"
    by (rule bit_word_eqI) (auto simp: bit_simps dest!: less_8_cases)
qed

lemma digit2_or: "digit2 b c = push_bit 2 (b AND 0x0f) OR drop_bit 6 c"
  unfolding digit2_def
proof (rule disjunctive_add_eq_or)
  show "push_bit 2 (b AND 0x0f) AND drop_bit 6 c = 0"
    by (rule bit_word_eqI) (auto simp: bit_simps dest!: less_8_cases)
qed

lemma digit_of_eqI:
  assumes "length bs = 6" "\<And>i. i < 6 \<Longrightarrow> bit d i = bs ! (5 - i)" "\<not> bit d 6" "\<not> bit d 7"
  shows "digit_of bs = d"
proof (rule bit_word_eqI)
  fix i assume i: "i < LENGTH(8)"
  have "bit (digit_of bs) i \<longleftrightarrow> i < 6 \<and> bs ! (5 - i)"
    using i assms(1) by (auto simp: digit_of_def bit_horner_sum_bit_iff rev_nth)
  then show "bit (digit_of bs) i = bit d i"
    using i assms(2-4) less_8_cases [of i] by auto
qed

lemma less_6_cases: "n < 6 \<Longrightarrow> n = 0 \<or> n = 1 \<or> n = 2 \<or> n = 3 \<or> n = 4 \<or> n = (5 :: nat)"
  by linarith

lemma digit0_bits: "digit_of [bit a 7, bit a 6, bit a 5, bit a 4, bit a 3, bit a 2] = digit0 a"
  by (rule digit_of_eqI) (auto simp: digit0_def bit_simps simp del: add_2_eq_Suc add_2_eq_Suc' dest!: less_6_cases)

lemma digit1_bits: "digit_of [bit a 1, bit a 0, bit b 7, bit b 6, bit b 5, bit b 4] = digit1 a b"
  by (rule digit_of_eqI) (auto simp: digit1_or bit_simps dest!: less_6_cases)

lemma digit2_bits: "digit_of [bit b 3, bit b 2, bit b 1, bit b 0, bit c 7, bit c 6] = digit2 b c"
  by (rule digit_of_eqI) (auto simp: digit2_or bit_simps dest!: less_6_cases)

lemma digit3_bits: "digit_of [bit c 5, bit c 4, bit c 3, bit c 2, bit c 1, bit c 0] = digit3 c"
  by (rule digit_of_eqI) (auto simp: digit3_def bit_simps dest!: less_6_cases)

lemma sextets_6:
  "sextets (b1 # b2 # b3 # b4 # b5 # b6 # bs) = digit_of [b1, b2, b3, b4, b5, b6] # sextets bs"
  by simp

declare sextets.simps(2) [simp del]

lemma sextets_3: "sextets (byte_bits a @ byte_bits b @ byte_bits c @ bs) =
    [digit0 a, digit1 a b, digit2 b c, digit3 c] @ sextets bs"
  by (simp add: byte_bits_def sextets_6 digit0_bits digit1_bits [simplified] digit2_bits [simplified] digit3_bits [simplified])

lemma sextets_1: "sextets (byte_bits a) = [digit0 a, digit1 a 0]"
  using digit0_bits [of a] digit1_bits [of a 0]
  by (simp add: byte_bits_def sextets_6 sextets.simps(2) numeral_eq_Suc)

lemma sextets_2: "sextets (byte_bits a @ byte_bits b) = [digit0 a, digit1 a b, digit2 b 0]"
  using digit2_bits [of b 0] digit0_bits [of a] digit1_bits [of a b]
  by (simp add: byte_bits_def sextets_6 sextets.simps(2) numeral_eq_Suc)

lemma b64_text_simps:
  "b64_text [] = []"
  "b64_text [a] = [b64_char (digit0 a), b64_char (digit1 a 0), Pad64, Pad64]"
  "b64_text [a, b] = map b64_char [digit0 a, digit1 a b, digit2 b 0] @ [Pad64]"
  "b64_text (a # b # c # bs) = map b64_char [digit0 a, digit1 a b, digit2 b c, digit3 c] @ b64_text bs"
proof -
  show "b64_text [] = []" by (simp add: b64_text_def)
  show "b64_text [a] = [b64_char (digit0 a), b64_char (digit1 a 0), Pad64, Pad64]"
    by (simp add: b64_text_def sextets_1 numeral_2_eq_2)
  show "b64_text [a, b] = map b64_char [digit0 a, digit1 a b, digit2 b 0] @ [Pad64]"
    by (simp add: b64_text_def sextets_2)
  have "Suc (Suc (Suc (length bs))) mod 3 = length bs mod 3" by presburger
  then show "b64_text (a # b # c # bs) = map b64_char [digit0 a, digit1 a b, digit2 b c, digit3 c] @ b64_text bs"
    by (simp add: b64_text_def sextets_3)
qed

lemma triple_induct [case_names Nil one two three]:
  assumes "P []" "\<And>a. P [a]" "\<And>a b. P [a, b]" "\<And>a b c bs. P bs \<Longrightarrow> P (a # b # c # bs)"
  shows "P xs"
proof (induction "length xs" arbitrary: xs rule: less_induct)
  case less
  then show ?case using assms by (cases xs; cases "tl xs"; cases "tl (tl xs)") auto
qed

lemma length_b64_text: "length (b64_text bs) = 4 * ((length bs + 2) div 3)"
  proof (induction bs rule: triple_induct)
  case (three a b c bs)
  have "length (a # b # c # bs) + 2 = (length bs + 2) + 3" by simp
  then have "(length (a # b # c # bs) + 2) div 3 = (length bs + 2) div 3 + 1"
    by (metis div_add_self2 zero_neq_numeral)
  with three show ?case by (simp add: b64_text_simps)
qed (simp_all add: b64_text_simps)

section \<open>The encoder\<close>

lemma put_chars_blit:
  assumes "unat n + length cs \<le> length target" "length target < 2 ^ 64"
  shows "put_chars target n cs = Some (n + of_nat (length cs), blit target (unat n) cs)"
  using assms
proof (induction cs arbitrary: n target)
  case (Cons c cs)
  have n1: "unat (n + 1) = unat n + 1" using unat_add_noov [of n 1] Cons.prems by simp
  have "blit (target[unat n := c]) (unat n + 1) cs = blit target (unat n) (c # cs)"
    using Cons.prems by (simp add: blit_def upd_conv_take_nth_drop take_Suc_conv_app_nth min_def add.commute [of "length cs"])
  then show ?case
    using Cons.IH [of "n + 1" "target[unat n := c]"] Cons.prems n1 by (simp add: algebra_simps)
qed simp

lemma sint_small: "m < 2 ^ 31 \<Longrightarrow> sint (ucast (of_nat m :: u64) :: u32) = int m"
proof -
  assume m: "m < 2 ^ 31"
  have "(ucast (of_nat m :: u64) :: u32) = of_nat m"
    using m by (simp add: word_unat_eq_iff unsigned_ucast_eq unsigned_of_nat take_bit_nat_eq_self)
  with m show ?thesis by (simp add: sint_of_nat)
qed

text \<open>What a call that returns -1 leaves of the target: nothing past \<open>targsize\<close> has changed.\<close>

definition ntop_error :: "u64 \<Rightarrow> u8 list \<Rightarrow> (int \<times> u8 list) option \<Rightarrow> bool" where
  "ntop_error targsize target r \<longleftrightarrow> (\<exists>t. r = Some (- 1, t) \<and> length t = length target \<and>
     drop (unat targsize) t = drop (unat targsize) target)"

definition ntop_result :: "u64 \<Rightarrow> u8 list \<Rightarrow> u8 list \<Rightarrow> nat \<Rightarrow> (int \<times> u8 list) option \<Rightarrow> bool" where
  "ntop_result targsize target text n r \<longleftrightarrow>
     (if n + length text < unat targsize
      then r = Some (int (n + length text), blit target n (text @ [0])) else ntop_error targsize target r)"

lemma ntop_error_refl: "ntop_error targsize target (Some (- 1, target))"
  by (simp add: ntop_error_def)

text \<open>Storing the digits of a group and going on.\<close>

lemma ntop_result_step:
  assumes "unat n \<le> unat targsize" "unat targsize \<le> length target" "length target < 2 ^ 63" "length cs = 4"
    and go: "unat n + 4 \<le> unat targsize \<Longrightarrow> unat (n + 4) = unat n + 4 \<Longrightarrow>
      ntop_result targsize (blit target (unat n) cs) enc (unat n + 4) (k (n + 4, blit target (unat n) cs))"
  shows "ntop_result targsize target (cs @ enc) (unat n)
    (if n + 4 > targsize then Some (- 1, target) else Option.bind (put_chars target n cs) k)"
proof (cases "unat n + 4 \<le> unat targsize")
  case True
  then have n4: "unat (n + 4) = unat n + 4"
    using assms(2,3) unat_add_noov [of n 4] by simp
  then have "\<not> n + 4 > targsize" using True by (simp add: word_less_nat_alt)
  moreover have "put_chars target n cs = Some (n + 4, blit target (unat n) cs)"
    using put_chars_blit [of n cs target] assms(2-4) True by simp
  moreover have "blit (blit target (unat n) cs) (unat n + 4) (enc @ [0]) = blit target (unat n) (cs @ enc @ [0])"
    if "unat n + 4 + length enc < unat targsize"
    using blit_blit [of "unat n" cs "enc @ [0]" target] assms(2,4) that by simp
  moreover have "drop (unat targsize) (blit target (unat n) cs) = drop (unat targsize) target"
    "length (blit target (unat n) cs) = length target"
    using drop_blit [of "unat n" cs "unat targsize" target] assms(2,4) True by simp_all
  ultimately show ?thesis
    using go [OF True n4] assms(4) by (auto simp: ntop_result_def ntop_error_def algebra_simps split: if_splits)
next
  case False
  then have "n + 4 > targsize"
    using unat_add_noov [of n 4] assms(1-3) by (simp add: word_less_nat_alt)
  then show ?thesis
    using False assms(4) by (simp add: ntop_result_def ntop_error_refl)
qed

lemma ntop_end_result:
  assumes "unat n \<le> unat targsize" "unat targsize \<le> length target" "length target < 2 ^ 63" "unat n < 2 ^ 31"
  shows "ntop_result targsize target [] (unat n) (ntop_end targsize n target)"
proof (cases "targsize \<le> n")
  case True
  then show ?thesis
    by (auto simp: ntop_end_def ntop_result_def ntop_error_refl word_le_nat_alt)
next
  case False
  then have "unat n < unat targsize" by (simp add: word_le_nat_alt)
  moreover from this have "put_chars target n [0] = Some (n + 1, blit target (unat n) [0])"
    using put_chars_blit [of n "[0]" target] assms(2,3) by simp
  ultimately show ?thesis
    using False sint_small [of "unat n"] assms(4) by (simp add: ntop_end_def ntop_result_def)
qed

lemma ntop_loop_result:
  assumes "unat targsize \<le> length target" "length target < 2 ^ 63" "unat n \<le> unat targsize"
    "unat n + length (b64_text src) < 2 ^ 31"
  shows "ntop_result targsize target (b64_text src) (unat n) (ntop_loop targsize src n target)"
  using assms
proof (induction src arbitrary: n target rule: triple_induct)
  case Nil
  then show ?case using ntop_end_result [of n targsize target] by (simp add: b64_text_simps)
next
  case (one a)
  let ?cs = "[b64_char (digit0 a), b64_char (digit1 a 0), Pad64, Pad64]"
  show ?case
    unfolding ntop_loop.simps b64_text_simps
  proof (rule ntop_result_step [where cs = ?cs and enc = "[]", unfolded append_Nil2])
    assume "unat n + 4 \<le> unat targsize" "unat (n + 4) = unat n + 4"
    then show "ntop_result targsize (blit target (unat n) ?cs) [] (unat n + 4)
        (case (n + 4, blit target (unat n) ?cs) of (n, target) \<Rightarrow> ntop_end targsize n target)"
      using ntop_end_result [of "n + 4" targsize "blit target (unat n) ?cs"] one by (simp add: b64_text_simps)
  qed (use one in simp_all)
next
  case (two a b)
  let ?cs = "map b64_char [digit0 a, digit1 a b, digit2 b 0] @ [Pad64]"
  show ?case
    unfolding ntop_loop.simps b64_text_simps
  proof (rule ntop_result_step [where cs = ?cs and enc = "[]", unfolded append_Nil2])
    assume "unat n + 4 \<le> unat targsize" "unat (n + 4) = unat n + 4"
    then show "ntop_result targsize (blit target (unat n) ?cs) [] (unat n + 4)
        (case (n + 4, blit target (unat n) ?cs) of (n, target) \<Rightarrow> ntop_end targsize n target)"
      using ntop_end_result [of "n + 4" targsize "blit target (unat n) ?cs"] two by (simp add: b64_text_simps)
  qed (use two in simp_all)
next
  case (three a b c src)
  let ?cs = "map b64_char [digit0 a, digit1 a b, digit2 b c, digit3 c]"
  show ?case
    unfolding ntop_loop.simps b64_text_simps
  proof (rule ntop_result_step)
    assume "unat n + 4 \<le> unat targsize" "unat (n + 4) = unat n + 4"
    then show "ntop_result targsize (blit target (unat n) ?cs) (b64_text src) (unat n + 4)
        (case (n + 4, blit target (unat n) ?cs) of (n, target) \<Rightarrow> ntop_loop targsize src n target)"
      using three.IH [of "blit target (unat n) ?cs" "n + 4"] three.prems by (simp add: b64_text_simps)
  qed (use three.prems in simp_all)
qed

section \<open>The decoder\<close>

text \<open>
  The value of a digit character. Decoding ignores white space; \<open>visible\<close> is the string without it.
\<close>

lemma Base64_facts:
  "length Base64 = 64" "distinct Base64"
  "list_all (\<lambda>c. isspace c = Some False \<and> c \<noteq> 0 \<and> c \<noteq> Pad64) Base64"
proof -
  show "length Base64 = 64" by (simp add: Base64_def)
  show "distinct Base64" by code_simp
  show "list_all (\<lambda>c. isspace c = Some False \<and> c \<noteq> 0 \<and> c \<noteq> Pad64) Base64" by code_simp
qed

lemma b64_char_inverse: "unat d < 64 \<Longrightarrow> strchr_Base64 (b64_char d) = Some d"
proof -
  assume d: "unat d < 64"
  have "List.find (\<lambda>i. Base64 ! i = Base64 ! unat d) [0..<64] = Some (unat d)"
    using d Base64_facts(1,2)
    by (auto simp: find_Some_iff nth_eq_iff_index_eq simp del: upt.simps upt_rec_numeral intro!: exI [of _ "unat d"])
  then show ?thesis by (simp add: strchr_Base64_def b64_char_def del: upt.simps upt_rec_numeral)
qed

lemma b64_char_plain: "unat d < 64 \<Longrightarrow> isspace (b64_char d) = Some False \<and> b64_char d \<noteq> 0 \<and> b64_char d \<noteq> Pad64"
  using Base64_facts(1,3) by (simp add: b64_char_def list_all_length)

lemma digits_small: "unat (digit0 a) < 64" "unat (digit1 a b) < 64" "unat (digit2 b c) < 64" "unat (digit3 c) < 64"
proof -
  have small: "unat d < 64" if "\<not> bit d 6" "\<not> bit d 7" for d :: u8
  proof -
    have "d = take_bit 6 d" by (rule bit_word_eqI) (use that in \<open>auto simp: bit_simps dest!: less_8_cases\<close>)
    then have "unat d = unat d mod 2 ^ 6" by (metis take_bit_eq_mod unsigned_take_bit_eq)
    moreover have "unat d mod 2 ^ 6 < 64" by simp
    ultimately show ?thesis by linarith
  qed
  show "unat (digit0 a) < 64" "unat (digit1 a b) < 64" "unat (digit2 b c) < 64" "unat (digit3 c) < 64"
    by (rule small; simp add: digit0_def digit1_or digit2_or digit3_def bit_simps)+
qed

text \<open>The bytes that four digits give back.\<close>

lemma digits_byte:
  "push_bit 2 (digit0 a) OR drop_bit 4 (digit1 a b) = a"
  "push_bit 4 (digit1 a b AND 0x0f) OR drop_bit 2 (digit2 b c) = b"
  "push_bit 6 (digit2 b c AND 0x03) OR digit3 c = c"
  "push_bit 4 (digit1 a 0 AND 0x0f) = 0"
  "push_bit 6 (digit2 b 0 AND 0x03) = 0"
  by (rule bit_word_eqI;
    auto simp: digit0_def digit1_or digit2_or digit3_def bit_simps numeral_3_eq_3 [symmetric]
      simp del: add_2_eq_Suc add_2_eq_Suc' dest!: less_8_cases)+

definition ascii :: "u8 list \<Rightarrow> bool" where
  "ascii s \<longleftrightarrow> (\<forall>c \<in> set s. unat c < 128)"

definition visible :: "u8 list \<Rightarrow> u8 list" where
  "visible s = filter (\<lambda>c. isspace c \<noteq> Some True) s"

lemma ascii_isspace: "unat c < 128 \<Longrightarrow> isspace c = Some (isspace c = Some True)"
  by (simp add: isspace_def)

lemma pton_loop_digit:
  assumes "ascii s" "visible s = b64_char d # t" "unat d < 64" "pton_digit n d st = Some (True, st')"
  shows "\<exists>s'. ascii s' \<and> visible s' = t \<and> pton_loop n s st = pton_loop n s' st'"
  using assms(1,2)
proof (induction s)
  case (Cons c s)
  show ?case
  proof (cases "isspace c = Some True")
    case True
    moreover from this have "c \<noteq> 0" by (auto simp: isspace_def)
    ultimately show ?thesis using Cons by (simp add: visible_def ascii_def)
  next
    case False
    then have "c = b64_char d" "visible s = t" using Cons.prems(2) by (simp_all add: visible_def)
    then have "pton_loop n (c # s) st = pton_loop n s st'"
      using b64_char_plain [OF assms(3)] b64_char_inverse [OF assms(3)] assms(4) by simp
    with \<open>visible s = t\<close> show ?thesis using Cons.prems(1) by (auto simp: ascii_def)
  qed
qed (simp add: visible_def)

lemma pton_loop_pad:
  assumes "ascii s" "visible s = Pad64 # t"
  shows "\<exists>s'. ascii s' \<and> visible s' = t \<and> pton_loop n s st = Some (True, Pad64, s', st)"
  using assms
proof (induction s)
  case (Cons c s)
  show ?case
  proof (cases "isspace c = Some True")
    case True
    moreover from this have "c \<noteq> 0" by (auto simp: isspace_def)
    ultimately show ?thesis using Cons by (simp add: visible_def ascii_def)
  next
    case False
    then have "c = Pad64" "visible s = t" using Cons.prems(2) by (simp_all add: visible_def)
    then have "pton_loop n (c # s) st = Some (True, Pad64, s, st)"
      by (simp add: isspace_def Pad64_def)
    with \<open>visible s = t\<close> show ?thesis using Cons.prems(1) by (auto simp: ascii_def)
  qed
qed (simp add: visible_def)

lemma pton_loop_end:
  "ascii s \<Longrightarrow> visible s = [] \<Longrightarrow> pton_loop n s st = Some (True, 0, [], st)"
  by (induction s) (auto simp: visible_def ascii_def split: if_splits)

lemma skip_spaces_pad:
  assumes "ascii s" "visible s = Pad64 # t"
  shows "\<exists>s'. ascii s' \<and> visible s' = t \<and> skip_spaces s = Some (Pad64, s')"
  using assms
proof (induction s)
  case (Cons c s)
  show ?case
  proof (cases "isspace c = Some True")
    case True
    moreover from this have "c \<noteq> 0" by (auto simp: isspace_def)
    ultimately show ?thesis using Cons by (simp add: visible_def ascii_def)
  next
    case False
    then have "c = Pad64" "visible s = t" using Cons.prems(2) by (simp_all add: visible_def)
    then show ?thesis using Cons.prems(1) by (auto simp: ascii_def isspace_def Pad64_def)
  qed
qed (simp add: visible_def)

lemma only_spaces_visible: "ascii s \<Longrightarrow> visible s = [] \<Longrightarrow> only_spaces s = Some True"
  by (induction s) (auto simp: visible_def ascii_def split: if_splits)

text \<open>
  One digit, with the target, its size and the bounds fixed: the index stays in the array and
  below \<open>2 ^ 31\<close>, so neither the index nor the returned count wraps.
\<close>

definition pton_at :: "nat \<Rightarrow> nat \<Rightarrow> u8 list \<Rightarrow> pton_state" where
  "pton_at i q t = \<lparr>p_tarindex = of_nat i, p_state = q, p_target = Some t\<rparr>"

lemma room_at:
  assumes "i < unat (n :: u64)" "unat n < 2 ^ 31"
  shows "unat (of_nat i :: u32) = i" "n \<le> ucast (of_nat i :: u32) \<longleftrightarrow> False"
proof -
  show i: "unat (of_nat i :: u32) = i" by (rule unat_of_nat_small) (use assms in simp)
  have "unat (ucast (of_nat i :: u32) :: u64) = i"
    using i assms by (simp add: unsigned_ucast_eq take_bit_nat_eq_self_iff)
  then show "n \<le> ucast (of_nat i :: u32) \<longleftrightarrow> False"
    using assms(1) by (simp add: word_le_nat_alt)
qed

lemma pton_digit_at:
  assumes "unat n \<le> length t" "unat n < 2 ^ 31"
  shows "i < unat n \<Longrightarrow>
      pton_digit n v (pton_at i 0 t) = Some (True, pton_at i 1 (t[i := push_bit 2 v]))"
    and "i + 1 < unat n \<Longrightarrow>
      pton_digit n v (pton_at i 1 t) =
        Some (True, pton_at (i + 1) 2 (t[i := t ! i OR drop_bit 4 v, i + 1 := push_bit 4 (v AND 0x0f)]))"
    and "i + 1 < unat n \<Longrightarrow>
      pton_digit n v (pton_at i 2 t) =
        Some (True, pton_at (i + 1) 3 (t[i := t ! i OR drop_bit 2 v, i + 1 := push_bit 6 (v AND 0x03)]))"
    and "i < unat n \<Longrightarrow>
      pton_digit n v (pton_at i 3 t) = Some (True, pton_at (i + 1) 0 (t[i := t ! i OR v]))"
proof -
  have suc: "of_nat i + 1 = (of_nat (i + 1) :: u32)" by simp
  note unfold = pton_digit_def pton_at_def Let_def check_room_def put_target_def suc
  show "i < unat n \<Longrightarrow>
      pton_digit n v (pton_at i 0 t) = Some (True, pton_at i 1 (t[i := push_bit 2 v]))"
    using room_at [of i n] assms by (simp add: unfold del: of_nat_add of_nat_Suc)
  show "i + 1 < unat n \<Longrightarrow>
      pton_digit n v (pton_at i 1 t) =
        Some (True, pton_at (i + 1) 2 (t[i := t ! i OR drop_bit 4 v, i + 1 := push_bit 4 (v AND 0x0f)]))"
    using room_at [of i n] room_at [of "i + 1" n] assms by (simp add: unfold del: of_nat_add of_nat_Suc)
  show "i + 1 < unat n \<Longrightarrow>
      pton_digit n v (pton_at i 2 t) =
        Some (True, pton_at (i + 1) 3 (t[i := t ! i OR drop_bit 2 v, i + 1 := push_bit 6 (v AND 0x03)]))"
    using room_at [of i n] room_at [of "i + 1" n] assms by (simp add: unfold del: of_nat_add of_nat_Suc)
  show "i < unat n \<Longrightarrow>
      pton_digit n v (pton_at i 3 t) = Some (True, pton_at (i + 1) 0 (t[i := t ! i OR v]))"
    using room_at [of i n] assms by (simp add: unfold del: of_nat_add of_nat_Suc)
qed

lemma blit_single: "i < length t \<Longrightarrow> blit t i [a] = t[i := a]"
  by (simp add: blit_def upd_conv_take_nth_drop)

lemma blit_2: "i + 1 < length t \<Longrightarrow> blit t i [a, b] = t[i := a, i + 1 := b]"
  using blit_blit [of i "[a]" "[b]" t] by (simp add: blit_single)

lemma blit_3: "i + 2 < length t \<Longrightarrow> blit t i [a, b, c] = t[i := a, i + 1 := b, i + 1 + 1 := c]"
  using blit_blit [of i "[a, b]" "[c]" t] by (simp add: blit_single blit_2)

text \<open>Storing the high part of a byte, then the rest of it.\<close>

lemma update_byte: "i < length t \<Longrightarrow> x OR y = a \<Longrightarrow> t[i := x, i := t[i := x] ! i OR y] = t[i := a]"
  for t :: "u8 list"
  by simp

text \<open>Reading the digits of one, two and three bytes.\<close>

lemma pton_group_1:
  assumes "ascii s" "unat n \<le> length t" "unat n < 2 ^ 31" "i + 1 < unat n"
    and vis: "visible s = b64_char (digit0 a) # b64_char (digit1 a b) # u"
  shows "\<exists>s'. ascii s' \<and> visible s' = u \<and> pton_loop n s (pton_at i 0 t) =
    pton_loop n s' (pton_at (i + 1) 2 (t[i := a, i + 1 := push_bit 4 (digit1 a b AND 0x0f)]))"
proof -
  let ?t1 = "t[i := push_bit 2 (digit0 a)]"
  have upd: "?t1[i := ?t1 ! i OR drop_bit 4 (digit1 a b)] = t[i := a]"
    by (rule update_byte) (use assms(2,4) digits_byte(1) in simp_all)
  obtain s1 where s1: "ascii s1" "visible s1 = b64_char (digit1 a b) # u"
      "pton_loop n s (pton_at i 0 t) = pton_loop n s1 (pton_at i 1 ?t1)"
    using pton_loop_digit [OF assms(1) vis digits_small(1) pton_digit_at(1) [OF assms(2,3), of i]] assms(4) by auto
  obtain s2 where "ascii s2" "visible s2 = u" "pton_loop n s1 (pton_at i 1 ?t1) =
      pton_loop n s2 (pton_at (i + 1) 2 (?t1[i := ?t1 ! i OR drop_bit 4 (digit1 a b), i + 1 := push_bit 4 (digit1 a b AND 0x0f)]))"
    using pton_loop_digit [OF s1(1,2) digits_small(2) pton_digit_at(2) [of n ?t1 i]] assms(2-4) by auto
  with s1(3) show ?thesis unfolding upd by auto
qed

lemma pton_group_2:
  assumes "ascii s" "unat n \<le> length t" "unat n < 2 ^ 31" "i + 2 < unat n"
    and vis: "visible s = b64_char (digit0 a) # b64_char (digit1 a b) # b64_char (digit2 b c) # u"
  shows "\<exists>s'. ascii s' \<and> visible s' = u \<and> pton_loop n s (pton_at i 0 t) =
    pton_loop n s' (pton_at (i + 1 + 1) 3 (t[i := a, i + 1 := b, i + 1 + 1 := push_bit 6 (digit2 b c AND 0x03)]))"
proof -
  let ?t1 = "t[i := a, i + 1 := push_bit 4 (digit1 a b AND 0x0f)]"
  have upd: "?t1[i + 1 := ?t1 ! (i + 1) OR drop_bit 2 (digit2 b c)] = t[i := a, i + 1 := b]"
    by (rule update_byte) (use assms(2,4) digits_byte(2) in simp_all)
  obtain s1 where s1: "ascii s1" "visible s1 = b64_char (digit2 b c) # u"
      "pton_loop n s (pton_at i 0 t) = pton_loop n s1 (pton_at (i + 1) 2 ?t1)"
    using pton_group_1 [OF assms(1-3), of i, OF _ vis] assms(4) by auto
  obtain s2 where "ascii s2" "visible s2 = u" "pton_loop n s1 (pton_at (i + 1) 2 ?t1) =
      pton_loop n s2 (pton_at (i + 1 + 1) 3
        (?t1[i + 1 := ?t1 ! (i + 1) OR drop_bit 2 (digit2 b c), i + 1 + 1 := push_bit 6 (digit2 b c AND 0x03)]))"
    using pton_loop_digit [OF s1(1,2) digits_small(3) pton_digit_at(3) [of n ?t1 "i + 1"]] assms(2-4) by auto
  with s1(3) show ?thesis unfolding upd by auto
qed

lemma pton_group_3:
  assumes "ascii s" "unat n \<le> length t" "unat n < 2 ^ 31" "i + 2 < unat n"
    and vis: "visible s = b64_char (digit0 a) # b64_char (digit1 a b) # b64_char (digit2 b c) # b64_char (digit3 c) # u"
  shows "\<exists>s'. ascii s' \<and> visible s' = u \<and> pton_loop n s (pton_at i 0 t) =
    pton_loop n s' (pton_at (i + 1 + 1 + 1) 0 (blit t i [a, b, c]))"
proof -
  let ?t1 = "t[i := a, i + 1 := b, i + 1 + 1 := push_bit 6 (digit2 b c AND 0x03)]"
  have upd: "?t1[i + 1 + 1 := ?t1 ! (i + 1 + 1) OR digit3 c] = blit t i [a, b, c]"
    using update_byte [of "i + 1 + 1" "t[i := a, i + 1 := b]"] digits_byte(3) [of b c] assms(2,4)
    by (simp only: blit_3 length_list_update)
  obtain s1 where s1: "ascii s1" "visible s1 = b64_char (digit3 c) # u"
      "pton_loop n s (pton_at i 0 t) = pton_loop n s1 (pton_at (i + 1 + 1) 3 ?t1)"
    using pton_group_2 [OF assms(1-4) vis] by auto
  obtain s2 where "ascii s2" "visible s2 = u" "pton_loop n s1 (pton_at (i + 1 + 1) 3 ?t1) =
      pton_loop n s2 (pton_at (i + 1 + 1 + 1) 0 (?t1[i + 1 + 1 := ?t1 ! (i + 1 + 1) OR digit3 c]))"
    using pton_loop_digit [OF s1(1,2) digits_small(4) pton_digit_at(4) [of n ?t1 "i + 1 + 1"]] assms(2-4) by auto
  with s1(3) show ?thesis unfolding upd by auto
qed

text \<open>
  The end of the string after one or two bytes: a pad character, and the low bits of the last
  byte that was started are zero.
\<close>

lemma pton_end_at:
  assumes "ascii s" "q = 2 \<and> visible s = [Pad64] \<or> q = 3 \<and> visible s = []"
    and "i < length t" "i < 2 ^ 31" "t ! i = 0"
  shows "pton_end Pad64 s (pton_at i q t) = Some (int i)"
proof -
  have i: "unat (of_nat i :: u32) = i" by (rule unat_of_nat_small) (use assms(4) in simp)
  have tail: "pton_tail s' (pton_at i q t) = Some (int i)" if "ascii s'" "visible s' = []" for s'
    using only_spaces_visible [OF that] i assms(3-5) by (simp add: pton_tail_def pton_at_def sint_of_nat)
  show ?thesis
  proof (cases "q = 2")
    case True
    then have "visible s = [Pad64]" using assms(2) by simp
    from skip_spaces_pad [OF assms(1) this]
    obtain s' where "ascii s'" "visible s' = []" "skip_spaces s = Some (Pad64, s')" by blast
    then show ?thesis using tail True by (simp add: pton_end_def pton_at_def)
  next
    case False
    then show ?thesis using tail [of s] assms(1,2) by (simp add: pton_end_def pton_at_def)
  qed
qed

lemma pton_run_loop: "pton_loop n s st = pton_loop n s' st' \<Longrightarrow> pton_run s n st = pton_run s' n st'"
  by (simp add: pton_run_def)

lemma pton_run_pad:
  assumes "ascii s" "q = 2 \<and> visible s = [Pad64, Pad64] \<or> q = 3 \<and> visible s = [Pad64]"
    and "i < length t" "i < 2 ^ 31" "t ! i = 0"
  shows "pton_run s n (pton_at i q t) = Some (int i, Some t)"
proof -
  obtain u where u: "visible s = Pad64 # u" "q = 2 \<and> u = [Pad64] \<or> q = 3 \<and> u = []" using assms(2) by auto
  obtain s' where s': "ascii s'" "visible s' = u"
      "pton_loop n s (pton_at i q t) = Some (True, Pad64, s', pton_at i q t)"
    using pton_loop_pad [OF assms(1) u(1)] by blast
  have "pton_end Pad64 s' (pton_at i q t) = Some (int i)"
    by (rule pton_end_at) (use s' u(2) assms in auto)
  moreover have "p_target (pton_at i q t) = Some t" by (simp add: pton_at_def)
  ultimately show ?thesis using s'(3) by (simp add: pton_run_def)
qed

definition tail_zero :: "u8 list \<Rightarrow> u8 list" where
  "tail_zero src = (if length src mod 3 = 0 then [] else [0])"

lemma pton_run_text:
  assumes "ascii s" "visible s = b64_text src" "unat n \<le> length t" "unat n < 2 ^ 31"
    "i + length (src @ tail_zero src) \<le> unat n"
  shows "pton_run s n (pton_at i 0 t) = Some (int (i + length src), Some (blit t i (src @ tail_zero src)))"
  using assms
proof (induction src arbitrary: s t i rule: triple_induct)
  case Nil
  then have "pton_loop n s (pton_at i 0 t) = Some (True, 0, [], pton_at i 0 t)"
    by (intro pton_loop_end) (simp_all add: b64_text_simps)
  then show ?case using Nil by (simp add: pton_run_def pton_end_def pton_at_def Pad64_def tail_zero_def sint_of_nat)
next
  case (one a)
  let ?t = "t[i := a, i + 1 := push_bit 4 (digit1 a 0 AND 0x0f)]"
  obtain s' where s': "ascii s'" "visible s' = [Pad64, Pad64]"
      "pton_loop n s (pton_at i 0 t) = pton_loop n s' (pton_at (i + 1) 2 ?t)"
    using pton_group_1 [OF one(1,3,4), of i a 0 "[Pad64, Pad64]"] one(2,5)
    by (auto simp: b64_text_simps tail_zero_def)
  have "pton_run s' n (pton_at (i + 1) 2 ?t) = Some (int (i + 1), Some ?t)"
    by (rule pton_run_pad) (use s' one in \<open>auto simp: tail_zero_def digits_byte(4) simp del: push_bit_and\<close>)
  then show ?case using pton_run_loop [OF s'(3)] one(3,5) digits_byte(4) [of a] by (simp add: tail_zero_def blit_2)
next
  case (two a b)
  let ?t = "t[i := a, i + 1 := b, i + 1 + 1 := push_bit 6 (digit2 b 0 AND 0x03)]"
  obtain s' where s': "ascii s'" "visible s' = [Pad64]"
      "pton_loop n s (pton_at i 0 t) = pton_loop n s' (pton_at (i + 1 + 1) 3 ?t)"
    using pton_group_2 [OF two(1,3,4), of i a b 0 "[Pad64]"] two(2,5)
    by (auto simp: b64_text_simps tail_zero_def)
  have "pton_run s' n (pton_at (i + 1 + 1) 3 ?t) = Some (int (i + 1 + 1), Some ?t)"
    by (rule pton_run_pad) (use s' two in \<open>auto simp: tail_zero_def digits_byte(5) simp del: push_bit_and\<close>)
  then show ?case using pton_run_loop [OF s'(3)] two(3,5) digits_byte(5) [of b] by (simp add: tail_zero_def blit_3)
next
  case (three a b c src)
  have zero: "tail_zero (a # b # c # src) = tail_zero src"
    unfolding tail_zero_def by (simp add: mod_Suc)
  obtain s' where s': "ascii s'" "visible s' = b64_text src"
      "pton_loop n s (pton_at i 0 t) = pton_loop n s' (pton_at (i + 1 + 1 + 1) 0 (blit t i [a, b, c]))"
    using pton_group_3 [OF three.prems(1,3,4), of i a b c "b64_text src"] three.prems(2,5)
    by (auto simp: b64_text_simps)
  have "pton_run s' n (pton_at (i + 1 + 1 + 1) 0 (blit t i [a, b, c])) =
      Some (int (i + 1 + 1 + 1 + length src), Some (blit (blit t i [a, b, c]) (i + 1 + 1 + 1) (src @ tail_zero src)))"
    by (rule three.IH) (use s' three.prems zero in auto)
  then show ?case
    using pton_run_loop [OF s'(3)] blit_blit [of i "[a, b, c]" "src @ tail_zero src" t] three.prems(3,5) zero
    by (simp add: numeral_3_eq_3)
qed

end
