(* ===== verification/Base64Props.thy ===== *)
theory Base64Props
  imports Base64Spec
begin

text \<open>
  The properties of the Base64 encoder and decoder of \<open>fbase64.c\<close>, and the invariant of the
  decoder's loop that bounds what it writes.
\<close>

section \<open>What the decoder writes\<close>

text \<open>
  Between two characters: the index is below the size while a byte is unfinished and at most the
  size otherwise, and nothing past the size has changed.
\<close>

definition pton_inv :: "u64 \<Rightarrow> u8 list \<Rightarrow> pton_state \<Rightarrow> bool" where
  "pton_inv n t0 s \<longleftrightarrow>
     (\<exists>i q t. s = pton_at i q t \<and> q < 4 \<and> (if q = 0 then i \<le> unat n else i < unat n) \<and>
        length t = length t0 \<and> drop (unat n) t = drop (unat n) t0)"

definition pton_ok :: "u64 \<Rightarrow> u8 list \<Rightarrow> int \<Rightarrow> pton_state \<Rightarrow> bool" where
  "pton_ok n t0 r s \<longleftrightarrow> - 1 \<le> r \<and> r \<le> int (unat n) \<and> pton_inv n t0 s"

lemma room_full:
  assumes "unat (n :: u64) \<le> i" "i \<le> 2 ^ 31" shows "n \<le> ucast (of_nat i :: u32)"
proof -
  have i: "unat (of_nat i :: u32) = i" by (rule unat_of_nat_small) (use assms in simp)
  then have "unat (ucast (of_nat i :: u32) :: u64) = i"
    using assms by (simp add: unsigned_ucast_eq take_bit_nat_eq_self_iff)
  then show ?thesis using assms(1) by (simp add: word_le_nat_alt)
qed

lemma less_4_cases: "q < 4 \<Longrightarrow> q = 0 \<or> q = 1 \<or> q = 2 \<or> q = (3 :: nat)"
  by linarith

lemma pton_digit_full:
  assumes "unat n < 2 ^ 31" "q < 4" "i \<le> unat n" "unat n \<le> (if q = 1 \<or> q = 2 then i + 1 else i)"
  shows "pton_digit n v (pton_at i q t) = Some (False, pton_at i q t)"
proof -
  have suc: "of_nat i + 1 = (of_nat (i + 1) :: u32)" by simp
  note unfold = pton_digit_def pton_at_def Let_def check_room_def put_target_def suc
  consider "q = 0" | "q = 1" | "q = 2" | "q = 3" using less_4_cases [OF assms(2)] by blast
  then show ?thesis
  proof cases
    case 1
    with assms show ?thesis using room_full [of n i] by (simp add: unfold del: of_nat_add of_nat_Suc)
  next
    case 2
    with assms show ?thesis using room_full [of n "i + 1"] by (simp add: unfold del: of_nat_add of_nat_Suc)
  next
    case 3
    with assms show ?thesis using room_full [of n "i + 1"] by (simp add: unfold del: of_nat_add of_nat_Suc)
  next
    case 4
    with assms show ?thesis using room_full [of n i] by (simp add: unfold del: of_nat_add of_nat_Suc)
  qed
qed

lemma pton_inv_at:
  "q < 4 \<Longrightarrow> (if q = 0 then i \<le> unat n else i < unat n) \<Longrightarrow> length t = length t0 \<Longrightarrow>
   drop (unat n) t = drop (unat n) t0 \<Longrightarrow> pton_inv n t0 (pton_at i q t)"
  unfolding pton_inv_def by blast

lemma pton_digit_inv:
  assumes "pton_inv n t0 s" "unat n \<le> length t0" "unat n < 2 ^ 31"
  shows "\<exists>ok s'. pton_digit n v s = Some (ok, s') \<and> pton_inv n t0 s'"
proof -
  obtain i q t where s: "s = pton_at i q t" "q < 4" "if q = 0 then i \<le> unat n else i < unat n"
      "length t = length t0" "drop (unat n) t = drop (unat n) t0"
    using assms(1) unfolding pton_inv_def by blast
  show ?thesis
  proof (cases "unat n \<le> (if q = 1 \<or> q = 2 then i + 1 else i)")
    case True
    then have "pton_digit n v s = Some (False, s)"
      unfolding s(1) by (intro pton_digit_full) (use s assms(3) in \<open>auto split: if_splits\<close>)
    with assms(1) show ?thesis by blast
  next
    case False
    have len: "unat n \<le> length t" using s(4) assms(2) by simp
    consider "q = 0" | "q = 1" | "q = 2" | "q = 3" using less_4_cases [OF s(2)] by blast
    then show ?thesis
    proof cases
      case 1
      then have "pton_inv n t0 (pton_at i 1 (t[i := push_bit 2 v]))"
        by (intro pton_inv_at) (use s False in auto)
      with 1 show ?thesis using pton_digit_at(1) [OF len assms(3), of i v] False s(1) by auto
    next
      case 2
      then have "pton_inv n t0 (pton_at (i + 1) 2 (t[i := t ! i OR drop_bit 4 v, i + 1 := push_bit 4 (v AND 0x0f)]))"
        by (intro pton_inv_at) (use s False in auto)
      with 2 show ?thesis using pton_digit_at(2) [OF len assms(3), of i v] False s(1) by auto
    next
      case 3
      then have "pton_inv n t0 (pton_at (i + 1) 3 (t[i := t ! i OR drop_bit 2 v, i + 1 := push_bit 6 (v AND 0x03)]))"
        by (intro pton_inv_at) (use s False in auto)
      with 3 show ?thesis using pton_digit_at(3) [OF len assms(3), of i v] False s(1) by auto
    next
      case 4
      then have "pton_inv n t0 (pton_at (i + 1) 0 (t[i := t ! i OR v]))"
        by (intro pton_inv_at) (use s False in auto)
      with 4 show ?thesis using pton_digit_at(4) [OF len assms(3), of i v] False s(1) by auto
    qed
  qed
qed

lemma pton_loop_inv:
  assumes "ascii s" "pton_inv n t0 st" "unat n \<le> length t0" "unat n < 2 ^ 31"
  shows "\<exists>ok ch s' st'. pton_loop n s st = Some (ok, ch, s', st') \<and> ascii s' \<and> pton_inv n t0 st'"
  using assms(1,2)
proof (induction s arbitrary: st)
  case Nil
  then show ?case by auto
next
  case (Cons c s)
  have asc: "ascii s" "unat c < 128" using Cons.prems(1) by (simp_all add: ascii_def)
  consider "c = 0" | "c \<noteq> 0" "isspace c = Some True" | "c \<noteq> 0" "isspace c = Some False" "c = Pad64"
    | "c \<noteq> 0" "isspace c = Some False" "c \<noteq> Pad64" "strchr_Base64 c = None"
    | v where "c \<noteq> 0" "isspace c = Some False" "c \<noteq> Pad64" "strchr_Base64 c = Some v"
    using ascii_isspace [OF asc(2)] by (cases "strchr_Base64 c"; cases "isspace c = Some True") auto
  then show ?case
  proof cases
    case 5
    obtain ok st' where "pton_digit n v st = Some (ok, st')" "pton_inv n t0 st'"
      using pton_digit_inv [OF Cons.prems(2) assms(3,4)] by blast
    with 5 Cons.IH [OF asc(1), of st'] asc(1) show ?thesis by (cases ok) auto
  qed (use Cons asc in \<open>auto simp: ascii_def\<close>)
qed

lemma spaces_ascii:
  "ascii s \<Longrightarrow> \<exists>ch s'. skip_spaces s = Some (ch, s') \<and> ascii s'"
  "ascii s \<Longrightarrow> \<exists>ok. only_spaces s = Some ok"
proof -
  show "ascii s \<Longrightarrow> \<exists>ch s'. skip_spaces s = Some (ch, s') \<and> ascii s'"
    by (induction s) (auto simp: ascii_def isspace_def)
  show "ascii s \<Longrightarrow> \<exists>ok. only_spaces s = Some ok"
    by (induction s) (auto simp: ascii_def isspace_def)
qed

lemma pton_end_inv:
  assumes "ascii s" "pton_inv n t0 st" "unat n \<le> length t0" "unat n < 2 ^ 31"
  shows "\<exists>r. pton_end ch s st = Some r \<and> - 1 \<le> r \<and> r \<le> int (unat n)"
proof -
  obtain i q t where st: "st = pton_at i q t" "q < 4" "if q = 0 then i \<le> unat n else i < unat n"
      "length t = length t0" "drop (unat n) t = drop (unat n) t0"
    using assms(2) unfolding pton_inv_def by blast
  have i: "i < 2 ^ 31" "i \<le> unat n" using st(3) assms(4) by (simp_all split: if_splits)
  have u: "unat (of_nat i :: u32) = i" by (rule unat_of_nat_small) (use i(1) in simp)
  have int: "- 1 \<le> uint n" "int i \<le> uint n"
    using i(2) by (simp_all only: uint_nat of_nat_le_iff)
  have tail: "\<exists>r. pton_tail s' st = Some r \<and> - 1 \<le> r \<and> r \<le> int (unat n)" if "ascii s'" "q \<noteq> 0" for s'
    using spaces_ascii(2) [OF that(1)] that(2) st i u assms(3) int
    by (auto simp: pton_tail_def pton_at_def sint_of_nat split: if_splits)
  consider "q = 0" | "q = 1" | "q = 2" | "q = 3" using less_4_cases [OF st(2)] by blast
  then show ?thesis
  proof cases
    case 3
    obtain ch' s' where "skip_spaces s = Some (ch', s')" "ascii s'" using spaces_ascii(1) [OF assms(1)] by blast
    with 3 tail [of s'] st(1) int show ?thesis by (simp add: pton_end_def pton_at_def)
  next
    case 4
    with tail [OF assms(1)] st(1) int show ?thesis by (simp add: pton_end_def pton_at_def)
  qed (use st(1) i int in \<open>simp_all add: pton_end_def pton_at_def sint_of_nat\<close>)
qed

lemma pton_start: "\<lparr>p_tarindex = 0, p_state = 0, p_target = Some t\<rparr> = pton_at 0 0 t"
  by (simp add: pton_at_def)

section \<open>The properties\<close>

text \<open>
  C23. \<open>f_b64_ntop\<close> is the encoding of RFC 1521: for a target array of at least \<open>targsize\<close> bytes and
  data whose encoding is shorter than 2^31 characters, the call returns the number of characters
  and leaves exactly \<open>b64_text src\<close> (the bits of the data in groups of six, padded with \<open>=\<close>) and
  a terminating zero at the start of the target when they fit \<open>targsize\<close>, and -1 with the bytes
  behind \<open>targsize\<close> untouched when they do not.
\<close>

theorem f_b64_ntop_is_rfc1521:
  assumes "unat targsize \<le> length target" and "length target < 2 ^ 63"
    and "length (b64_text src) < 2 ^ 31"
  shows "if length (b64_text src) < unat targsize
    then f_b64_ntop src (of_nat (length src)) target targsize =
      Some (int (length (b64_text src)), blit target 0 (b64_text src @ [0]))
    else ntop_error targsize target (f_b64_ntop src (of_nat (length src)) target targsize)"
proof -
  have "4 * length src \<le> 3 * length (b64_text src)"
    by (simp add: length_b64_text)
  then have len: "unat (of_nat (length src) :: u64) = length src"
    using assms(3) by (simp add: unsigned_of_nat take_bit_nat_eq_self)
  have "ntop_result targsize target (b64_text src) (unat (0 :: u64)) (ntop_loop targsize src 0 target)"
    by (rule ntop_loop_result) (use assms in simp_all)
  then show ?thesis
    using len by (simp add: ntop_result_def f_b64_ntop_def)
qed

theorem f_b64_ntop_is_rfc1521_witness:
  "f_b64_ntop [77, 97, 110, 33] 4 (replicate 9 0) 9 = Some (8, b64_text [77, 97, 110, 33] @ [0])"
  using f_b64_ntop_is_rfc1521 [of 9 "replicate 9 0" "[77, 97, 110, 33]"]
  by (simp add: b64_text_simps blit_def)

text \<open>
  C24. Decoding gives back what was encoded: for every ASCII string whose characters other than
  white space are the encoding of some bytes, \<open>f_b64_pton\<close> returns their number and stores
  them at the start of the target, if there is room for them and, when their number is not a
  multiple of three, for one zero byte more.
\<close>

theorem f_b64_pton_inverse:
  assumes "ascii s" and "visible s = b64_text src" and "unat targsize \<le> length target"
    and "unat targsize < 2 ^ 31" and "length (src @ tail_zero src) \<le> unat targsize"
  shows "f_b64_pton s (Some target) targsize =
    Some (int (length src), Some (blit target 0 (src @ tail_zero src)))"
  using pton_run_text [of s src targsize target 0] assms by (simp add: f_b64_pton_def pton_start)

theorem f_b64_pton_inverse_witness:
  "f_b64_pton (map of_char ''TWFu IQ = ='') (Some (replicate 6 7)) 5 = Some (4, Some [77, 97, 110, 33, 0, 7])"
proof -
  have "ascii (map of_char ''TWFu IQ = ='')" by code_simp
  moreover have "visible (map of_char ''TWFu IQ = ='') = b64_text [77, 97, 110, 33]" by code_simp
  ultimately show ?thesis
    using f_b64_pton_inverse [of "map of_char ''TWFu IQ = =''" "[77, 97, 110, 33]" 5 "replicate 6 7"]
    by (simp add: tail_zero_def blit_def)
qed

text \<open>
  C25. Whatever the string, as long as it is ASCII, \<open>f_b64_pton\<close> returns and stays inside the
  target: the result is -1 or a number of bytes that is at most \<open>targsize\<close>, and the bytes of
  the target behind \<open>targsize\<close> are unchanged.
\<close>

theorem f_b64_pton_bounded:
  assumes "ascii s" and "unat targsize \<le> length target" and "unat targsize < 2 ^ 31"
  shows "\<exists>r t. f_b64_pton s (Some target) targsize = Some (r, Some t) \<and> - 1 \<le> r \<and> r \<le> int (unat targsize) \<and>
    length t = length target \<and> drop (unat targsize) t = drop (unat targsize) target"
proof -
  have "pton_inv targsize target (pton_at 0 0 target)" by (rule pton_inv_at) simp_all
  from pton_loop_inv [OF assms(1) this assms(2,3)]
  obtain ok ch s' st where loop: "pton_loop targsize s (pton_at 0 0 target) = Some (ok, ch, s', st)"
    "ascii s'" "pton_inv targsize target st" by blast
  from pton_end_inv [OF loop(2,3) assms(2,3)] obtain r where
    r: "pton_end ch s' st = Some r" "- 1 \<le> r" "r \<le> int (unat targsize)" by blast
  obtain i q t where st: "st = pton_at i q t" "length t = length target" "drop (unat targsize) t = drop (unat targsize) target"
    using loop(3) unfolding pton_inv_def by blast
  have "f_b64_pton s (Some target) targsize = Some (if ok then r else - 1, Some t)"
    using loop(1) r(1) st(1) by (simp add: f_b64_pton_def pton_start pton_run_def) (simp add: pton_at_def)
  then show ?thesis using r(2,3) st(2,3) by (intro exI [of _ "if ok then r else - 1"] exI [of _ t]) simp
qed

theorem f_b64_pton_bounded_witness:
  "\<exists>r t. f_b64_pton [65, 65, 66, 66, 67, 67] (Some [1, 2, 3, 4]) 3 = Some (r, Some t) \<and> - 1 \<le> r \<and> r \<le> 3 \<and>
    length t = length [1 :: u8, 2, 3, 4] \<and> drop 3 t = [4]"
  using f_b64_pton_bounded [of "[65, 65, 66, 66, 67, 67]" 3 "[1, 2, 3, 4]"] by (simp add: ascii_def)

end
