(* ===== verification/Coding.thy ===== *)
theory Coding
  imports Prelude
begin

text \<open>
  \<open>leveldb-library/util/coding.cc\<close> and \<open>coding.h\<close>. A \<open>std::string\<close> and a \<open>Slice\<close> are the list of
  their bytes; \<open>Put...\<close> returns the longer string. A pair of pointers \<open>[p, limit)\<close> is the list of
  the bytes between them, and a returned pointer the list of the bytes that are left (\<open>None\<close> for
  NULL). A read without bounds check past the end of the list has no outcome (\<open>None\<close>).
\<close>

text \<open>The targets are little-endian.\<close>

definition kLittleEndian :: bool where
  "kLittleEndian = True"

section \<open>Slices\<close>

text \<open>\<open>memcmp\<close> and the three-way comparison of slices.\<close>

fun memcmp :: "u8 list \<Rightarrow> u8 list \<Rightarrow> int" where
  "memcmp (a # as) (b # bs) = (if a = b then memcmp as bs else if a < b then - 1 else 1)"
| "memcmp _ _ = 0"

definition slice_compare :: "u8 list \<Rightarrow> u8 list \<Rightarrow> int" where
  "slice_compare a b =
     (let min_len = (if length a < length b then length a else length b);
          r = memcmp (take min_len a) (take min_len b)
      in if r = 0 then (if length a < length b then - 1 else if length a > length b then 1 else r)
         else r)"

definition slice_eq :: "u8 list \<Rightarrow> u8 list \<Rightarrow> bool" where
  "slice_eq a b \<longleftrightarrow> length a = length b \<and> memcmp a b = 0"

definition starts_with :: "u8 list \<Rightarrow> u8 list \<Rightarrow> bool" where
  "starts_with a x \<longleftrightarrow> length x \<le> length a \<and> memcmp (take (length x) a) x = 0"

section \<open>Fixed-width numbers\<close>

text \<open>On a little-endian machine \<open>memcpy\<close> copies the bytes of a word from the lowest to the highest.\<close>

definition EncodeFixed32 :: "u32 \<Rightarrow> u8 list" where
  "EncodeFixed32 value =
     (if kLittleEndian then bytes_of_word 4 value
      else [ucast (value AND 0xff), ucast (drop_bit 8 value AND 0xff),
            ucast (drop_bit 16 value AND 0xff), ucast (drop_bit 24 value AND 0xff)])"

definition EncodeFixed64 :: "u64 \<Rightarrow> u8 list" where
  "EncodeFixed64 value =
     (if kLittleEndian then bytes_of_word 8 value
      else [ucast (value AND 0xff), ucast (drop_bit 8 value AND 0xff),
            ucast (drop_bit 16 value AND 0xff), ucast (drop_bit 24 value AND 0xff),
            ucast (drop_bit 32 value AND 0xff), ucast (drop_bit 40 value AND 0xff),
            ucast (drop_bit 48 value AND 0xff), ucast (drop_bit 56 value AND 0xff)])"

definition PutFixed32 :: "u8 list \<Rightarrow> u32 \<Rightarrow> u8 list" where
  "PutFixed32 dst value = dst @ EncodeFixed32 value"

definition PutFixed64 :: "u8 list \<Rightarrow> u64 \<Rightarrow> u8 list" where
  "PutFixed64 dst value = dst @ EncodeFixed64 value"

definition DecodeFixed32 :: "u8 list \<Rightarrow> u32 option" where
  "DecodeFixed32 ptr =
     (if length ptr < 4 then None
      else if kLittleEndian then Some (word_of_bytes (take 4 ptr))
      else Some (ucast (ptr ! 0) OR push_bit 8 (ucast (ptr ! 1)) OR
                 push_bit 16 (ucast (ptr ! 2)) OR push_bit 24 (ucast (ptr ! 3))))"

definition DecodeFixed64 :: "u8 list \<Rightarrow> u64 option" where
  "DecodeFixed64 ptr =
     (if length ptr < 8 then None
      else if kLittleEndian then Some (word_of_bytes (take 8 ptr))
      else Option.bind (DecodeFixed32 ptr) (\<lambda>lo.
           Option.bind (DecodeFixed32 (drop 4 ptr)) (\<lambda>hi.
             Some (push_bit 32 (ucast hi) OR ucast lo))))"

section \<open>Varints\<close>

definition EncodeVarint32 :: "u32 \<Rightarrow> u8 list" where
  "EncodeVarint32 v =
     (let B = 128 in
      if v < push_bit 7 1 then [ucast v]
      else if v < push_bit 14 1 then [ucast (v OR B), ucast (drop_bit 7 v)]
      else if v < push_bit 21 1 then
        [ucast (v OR B), ucast (drop_bit 7 v OR B), ucast (drop_bit 14 v)]
      else if v < push_bit 28 1 then
        [ucast (v OR B), ucast (drop_bit 7 v OR B), ucast (drop_bit 14 v OR B), ucast (drop_bit 21 v)]
      else
        [ucast (v OR B), ucast (drop_bit 7 v OR B), ucast (drop_bit 14 v OR B),
         ucast (drop_bit 21 v OR B), ucast (drop_bit 28 v)])"

definition PutVarint32 :: "u8 list \<Rightarrow> u32 \<Rightarrow> u8 list" where
  "PutVarint32 dst v = dst @ EncodeVarint32 v"

lemma drop7_less: "128 \<le> (v :: u64) \<Longrightarrow> unat (drop_bit 7 v) < unat v"
  by (simp add: unat_drop_bit_eq drop_bit_eq_div word_le_nat_alt unat_div)

function EncodeVarint64 :: "u64 \<Rightarrow> u8 list" where
  "EncodeVarint64 v =
     (if 128 \<le> v then ucast ((v AND (128 - 1)) OR 128) # EncodeVarint64 (drop_bit 7 v)
      else [ucast v])"
  by pat_completeness auto
termination
  by (relation "measure unat") (auto intro: drop7_less)

declare EncodeVarint64.simps [simp del]

definition PutVarint64 :: "u8 list \<Rightarrow> u64 \<Rightarrow> u8 list" where
  "PutVarint64 dst v = dst @ EncodeVarint64 v"

text \<open>The length is an \<open>int\<close>; it starts at 1.\<close>

function VarintLength_loop :: "int \<Rightarrow> u64 \<Rightarrow> int" where
  "VarintLength_loop len v = (if 128 \<le> v then VarintLength_loop (len + 1) (drop_bit 7 v) else len)"
  by pat_completeness auto
termination
  by (relation "measure (\<lambda>(len, v). unat v)") (auto intro: drop7_less)

declare VarintLength_loop.simps [simp del]

definition VarintLength :: "u64 \<Rightarrow> int" where
  "VarintLength v = VarintLength_loop 1 v"

text \<open>The loops of the parsers: \<open>shift\<close> and the result are the code's 32-bit and 64-bit variables.\<close>

fun varint32_ptr_loop :: "u8 list \<Rightarrow> u32 \<Rightarrow> u32 \<Rightarrow> (u32 \<times> u8 list) option" where
  "varint32_ptr_loop [] shift result = None"
| "varint32_ptr_loop (b # p) shift result =
     (if shift \<le> 28 then
        (let byte = (ucast b :: u32) in
         if byte AND 128 \<noteq> 0
         then varint32_ptr_loop p (shift + 7) (result OR push_bit (unat shift) (byte AND 127))
         else Some (result OR push_bit (unat shift) byte, p))
      else None)"

definition GetVarint32PtrFallback :: "u8 list \<Rightarrow> (u32 \<times> u8 list) option" where
  "GetVarint32PtrFallback p = varint32_ptr_loop p 0 0"

definition GetVarint32Ptr :: "u8 list \<Rightarrow> (u32 \<times> u8 list) option" where
  "GetVarint32Ptr p =
     (case p of
        [] \<Rightarrow> GetVarint32PtrFallback p
      | b # rest \<Rightarrow>
         (let result = (ucast b :: u32) in
          if result AND 128 = 0 then Some (result, rest) else GetVarint32PtrFallback p))"

fun varint64_ptr_loop :: "u8 list \<Rightarrow> u32 \<Rightarrow> u64 \<Rightarrow> (u64 \<times> u8 list) option" where
  "varint64_ptr_loop [] shift result = None"
| "varint64_ptr_loop (b # p) shift result =
     (if shift \<le> 63 then
        (let byte = (ucast b :: u64) in
         if byte AND 128 \<noteq> 0
         then varint64_ptr_loop p (shift + 7) (result OR push_bit (unat shift) (byte AND 127))
         else Some (result OR push_bit (unat shift) byte, p))
      else None)"

definition GetVarint64Ptr :: "u8 list \<Rightarrow> (u64 \<times> u8 list) option" where
  "GetVarint64Ptr p = varint64_ptr_loop p 0 0"

text \<open>\<open>Get...(&input, &value)\<close>: the value, if the call returns true, and the input it leaves.\<close>

definition GetVarint32 :: "u8 list \<Rightarrow> u32 option \<times> u8 list" where
  "GetVarint32 input =
     (case GetVarint32Ptr input of None \<Rightarrow> (None, input) | Some (value, q) \<Rightarrow> (Some value, q))"

definition GetVarint64 :: "u8 list \<Rightarrow> u64 option \<times> u8 list" where
  "GetVarint64 input =
     (case GetVarint64Ptr input of None \<Rightarrow> (None, input) | Some (value, q) \<Rightarrow> (Some value, q))"

section \<open>Length-prefixed strings\<close>

definition PutLengthPrefixedSlice :: "u8 list \<Rightarrow> u8 list \<Rightarrow> u8 list" where
  "PutLengthPrefixedSlice dst value = PutVarint32 dst (of_nat (length value)) @ value"

text \<open>The variant on pointers, \<open>GetLengthPrefixedSlice(p, limit, result)\<close>.\<close>

definition GetLengthPrefixedSlicePtr :: "u8 list \<Rightarrow> (u8 list \<times> u8 list) option" where
  "GetLengthPrefixedSlicePtr p =
     (case GetVarint32Ptr p of
        None \<Rightarrow> None
      | Some (len, p) \<Rightarrow> if length p < unat len then None
                        else Some (take (unat len) p, drop (unat len) p))"

text \<open>A failure after the length has been read leaves the input behind the length.\<close>

definition GetLengthPrefixedSlice :: "u8 list \<Rightarrow> u8 list option \<times> u8 list" where
  "GetLengthPrefixedSlice input =
     (case GetVarint32 input of
        (None, input) \<Rightarrow> (None, input)
      | (Some len, input) \<Rightarrow>
          if unat len \<le> length input then (Some (take (unat len) input), drop (unat len) input)
          else (None, input))"

section \<open>Termination of parsers\<close>

text \<open>A number takes at least one byte, and no parser gives back more than it was given.\<close>

lemma length_GetVarint:
  "GetVarint32 input = (Some v, input') \<Longrightarrow> length input' < length input"
  "GetVarint64 input = (Some n, input') \<Longrightarrow> length input' < length input"
  "length (snd (GetVarint32 input)) \<le> length input"
  "length (snd (GetVarint64 input)) \<le> length input"
proof -
  have loop32: "varint32_ptr_loop p shift v = Some (w, q) \<Longrightarrow> length q < length p" for p shift v w q
    by (induction p arbitrary: shift v) (fastforce simp: Let_def split: if_splits)+
  have loop64: "varint64_ptr_loop p shift v = Some (w, q) \<Longrightarrow> length q < length p" for p shift v w q
    by (induction p arbitrary: shift v) (fastforce simp: Let_def split: if_splits)+
  have ptr32: "GetVarint32Ptr p = Some (w, q) \<Longrightarrow> length q < length p" for p w q
    using loop32 [of p 0 0 w q] unfolding GetVarint32Ptr_def GetVarint32PtrFallback_def
    by (auto split: list.splits if_splits simp: Let_def)
  show "GetVarint32 input = (Some v, input') \<Longrightarrow> length input' < length input"
    "length (snd (GetVarint32 input)) \<le> length input"
    using ptr32 by (auto simp: GetVarint32_def less_imp_le split: option.splits)
  show "GetVarint64 input = (Some n, input') \<Longrightarrow> length input' < length input"
    "length (snd (GetVarint64 input)) \<le> length input"
    using loop64 by (auto simp: GetVarint64_def GetVarint64Ptr_def less_imp_le split: option.splits)
qed

lemma length_GetLengthPrefixedSlice: "length (snd (GetLengthPrefixedSlice input)) \<le> length input"
  using length_GetVarint(1,3) [of input] by (auto simp: GetLengthPrefixedSlice_def split: prod.splits option.splits)

end
