(* ===== verification/CodingSpec.thy ===== *)
theory CodingSpec
  imports Coding Varint
begin

text \<open>
  The encodings of \<open>Coding\<close> against the reference varints of \<open>Varint\<close>: every \<open>Put\<close> writes the
  reference bytes and every \<open>Get\<close> is the reference parser, so that the round trips are facts
  about the references.
\<close>

named_theorems coding_simps

lemma unat_drop_bit_div: "unat (drop_bit k v) = unat v div 2 ^ k"
  unfolding unat_drop_bit_eq by (rule drop_bit_eq_div)

lemma unat_take_bit_mod: "unat (take_bit k v) = unat v mod 2 ^ k"
  unfolding unsigned_take_bit_eq by (rule take_bit_eq_mod)

lemma bit_128: "bit (128 :: int) n \<longleftrightarrow> n = 7" "bit (128 :: nat) n \<longleftrightarrow> n = 7"
  using bit_exp_iff [of 7 n, where ?'a = int] bit_exp_iff [of 7 n, where ?'a = nat] by auto

lemma and_127: "v AND 127 = take_bit 7 (v :: 'a::len word)"
  by (simp add: take_bit_eq_mask mask_eq_exp_minus_1)

lemma and_ff: "v AND 255 = take_bit 8 (v :: 'a::len word)"
  by (simp add: take_bit_eq_mask mask_eq_exp_minus_1)

section \<open>Fixed-width numbers\<close>

text \<open>The big-endian branches store and read the same bytes.\<close>

lemma EncodeFixed_portable:
  "[ucast (v AND 0xff), ucast (drop_bit 8 v AND 0xff), ucast (drop_bit 16 v AND 0xff),
    ucast (drop_bit 24 v AND 0xff)] = bytes_of_word 4 (v :: u32)"
  unfolding and_ff by (simp add: numeral_eq_Suc drop_bit_drop_bit) (auto intro!: bit_word_eqI simp: bit_simps)

lemma length_EncodeFixed [simp, coding_simps]:
  "length (EncodeFixed32 v) = 4" "length (EncodeFixed64 w) = 8"
  by (simp_all add: EncodeFixed32_def EncodeFixed64_def kLittleEndian_def)

lemma DecodeFixed32_Encode [simp, coding_simps]: "DecodeFixed32 (EncodeFixed32 v @ rest) = Some v"
  by (simp add: DecodeFixed32_def EncodeFixed32_def kLittleEndian_def word_of_bytes_of_word)

lemma DecodeFixed64_Encode [simp, coding_simps]: "DecodeFixed64 (EncodeFixed64 v @ rest) = Some v"
  by (simp add: DecodeFixed64_def EncodeFixed64_def kLittleEndian_def word_of_bytes_of_word)

lemma DecodeFixed32_Some: "4 \<le> length p \<Longrightarrow> \<exists>v. DecodeFixed32 p = Some v"
  by (simp add: DecodeFixed32_def)

section \<open>Varints\<close>

lemma EncodeVarint64_bytes: "EncodeVarint64 v = varint_bytes (unat v)"
proof (induction v rule: EncodeVarint64.induct)
  case (1 v)
  show ?case
  proof (cases "128 \<le> v")
    case True
    have "(v AND 127) AND 128 = 0"
      by (rule bit_word_eqI) (auto simp: bit_simps and_127 bit_128)
    then have "v AND 127 OR 128 = (v AND 127) + 128" by (simp add: disjunctive_add_eq_or)
    moreover have "v AND 127 = of_nat (unat v mod 128)"
      unfolding and_127 by (simp add: word_unat_eq_iff unat_take_bit_mod unsigned_of_nat take_bit_nat_eq_self)
    ultimately have "v AND 127 OR 128 = of_nat (128 + unat v mod 128)" by simp
    then have "(ucast (v AND 127 OR 128) :: u8) = of_nat (128 + unat v mod 128)"
      by (simp only: word_unat_eq_iff unsigned_ucast_eq unsigned_of_nat) (simp add: take_bit_eq_mod)
    with 1 True show ?thesis
      by (subst EncodeVarint64.simps, subst varint_bytes.simps)
        (simp add: word_le_nat_alt unat_drop_bit_div)
  next
    case False
    then show ?thesis
      by (simp add: EncodeVarint64.simps [of v] varint_bytes.simps [of "unat v"] word_le_nat_alt)
  qed
qed

lemma VarintLength_loop: "VarintLength_loop len v = len + int (length (varint_bytes (unat v))) - 1"
proof (induction len v rule: VarintLength_loop.induct)
  case (1 len v)
  then show ?case
    by (subst VarintLength_loop.simps, subst varint_bytes.simps)
      (simp add: word_le_nat_alt unat_drop_bit_div not_less)
qed

lemma VarintLength_bytes: "VarintLength v = int (length (varint_bytes (unat v)))"
  by (simp add: VarintLength_def VarintLength_loop)

lemma varint_byte_or:
  "(ucast (v OR 128 :: u32) :: u8) = of_nat (128 + unat v mod 128)"
proof -
  have "(ucast (v OR 128) :: u8) = take_bit 7 (ucast v) OR 128"
    by (rule bit_word_eqI) (auto simp: bit_simps bit_128)
  also have "\<dots> = take_bit 7 (ucast v) + 128"
    by (rule disjunctive_add_eq_or [symmetric], rule bit_word_eqI) (auto simp: bit_simps bit_128)
  also have "\<dots> = of_nat (128 + unat v mod 128)"
    by (simp add: word_unat_eq_iff unsigned_ucast_eq unsigned_of_nat take_bit_eq_mod unat_word_ariths
        unsigned_take_bit_eq mod_mod_cancel)
  finally show ?thesis .
qed

lemma EncodeVarint32_bytes: "EncodeVarint32 v = varint_bytes (unat v)"
proof -
  have step: "varint_bytes (unat (drop_bit k v)) =
      ucast (drop_bit k v OR 128) # varint_bytes (unat (drop_bit (k + 7) v))" if "128 \<le> drop_bit k v" for k
    using that varint_byte_or [of "drop_bit k v"]
    by (subst varint_bytes.simps)
      (simp add: word_le_nat_alt unat_drop_bit_div div_mult2_eq power_add)
  have last: "varint_bytes (unat (drop_bit k v)) = [ucast (drop_bit k v)]" if "\<not> 128 \<le> drop_bit k v" for k
    using that by (subst varint_bytes.simps) (simp add: word_le_nat_alt)
  have le: "128 \<le> drop_bit k v \<longleftrightarrow> 2 ^ (k + 7) \<le> unat v" for k
    by (simp add: word_le_nat_alt unat_drop_bit_div less_eq_div_iff_mult_less_eq power_add mult.commute)
  have less: "v < push_bit 7 1 \<longleftrightarrow> unat v < 2 ^ 7" "v < push_bit 14 1 \<longleftrightarrow> unat v < 2 ^ 14"
    "v < push_bit 21 1 \<longleftrightarrow> unat v < 2 ^ 21" "v < push_bit 28 1 \<longleftrightarrow> unat v < 2 ^ 28"
    by (simp_all add: word_less_nat_alt)
  have top: "unat v < 2 ^ 32" using unsigned_less [of v, where ?'a = nat] by simp
  consider "unat v < 2 ^ 7" | "2 ^ 7 \<le> unat v" "unat v < 2 ^ 14" | "2 ^ 14 \<le> unat v" "unat v < 2 ^ 21"
    | "2 ^ 21 \<le> unat v" "unat v < 2 ^ 28" | "2 ^ 28 \<le> unat v"
    by linarith
  then show ?thesis
  proof cases
    case 1
    then show ?thesis using last [of 0] le [of 0] unfolding EncodeVarint32_def Let_def less by simp
  next
    case 2
    then show ?thesis using step [of 0] last [of 7] le [of 0] le [of 7] unfolding EncodeVarint32_def Let_def less by simp
  next
    case 3
    then show ?thesis using step [of 0] step [of 7] last [of 14] le [of 0] le [of 7] le [of 14] unfolding EncodeVarint32_def Let_def less by simp
  next
    case 4
    then show ?thesis
      using step [of 0] step [of 7] step [of 14] last [of 21] le [of 0] le [of 7] le [of 14] le [of 21] unfolding EncodeVarint32_def Let_def less by simp
  next
    case 5
    then show ?thesis
      using step [of 0] step [of 7] step [of 14] step [of 21] last [of 28] top
        le [of 0] le [of 7] le [of 14] le [of 21] le [of 28] unfolding EncodeVarint32_def Let_def less by simp
  qed
qed

lemma length_EncodeVarint [simp, coding_simps]: "1 \<le> length (EncodeVarint32 v)" "length (EncodeVarint32 v) \<le> 5"
  unfolding EncodeVarint32_bytes
  by (auto simp: Suc_le_eq intro!: length_varint_bytes_le less_trans [OF unsigned_less])

section \<open>The parsers\<close>

text \<open>The loop at its \<open>k\<close>th byte, the value gathered so far below \<open>2 ^ (7 * k)\<close>.\<close>

lemma unat_shift: "k \<le> 10 \<Longrightarrow> unat (of_nat (7 * k) :: u32) = 7 * k"
  by (rule unat_of_nat_small) simp

lemma shift_next: "(of_nat (7 * k) + 7 :: u32) = of_nat (7 * Suc k)"
  by (simp add: add.commute)

lemma byte_group:
  assumes "8 \<le> LENGTH('a::len)"
  shows "(ucast (b :: u8) :: 'a word) AND 127 = ucast (b AND 0x7F)"
    and "(ucast b :: 'a word) AND 128 = 0 \<longleftrightarrow> unat b < 128"
    and "unat b < 128 \<Longrightarrow> (ucast b :: 'a word) = ucast (b AND 0x7F)"
proof -
  show "(ucast b :: 'a word) AND 127 = ucast (b AND 0x7F)"
    unfolding and_127 by (rule bit_word_eqI) (use assms in \<open>auto simp: bit_simps\<close>)
  have "(ucast b :: 'a word) AND 128 = ucast (b AND 0x80)"
    by (rule bit_word_eqI) (use assms in \<open>auto simp: bit_simps bit_128\<close>)
  moreover have "(ucast (b AND 0x80) :: 'a word) = 0 \<longleftrightarrow> b AND 0x80 = 0"
  proof
    assume z: "(ucast (b AND 0x80) :: 'a word) = 0"
    show "b AND 0x80 = 0"
    proof (rule bit_word_eqI)
      fix n assume "n < LENGTH(8)"
      then have "bit (b AND 0x80) n = bit (ucast (b AND 0x80) :: 'a word) n"
        using assms by (simp only: bit_ucast_iff) simp
      then show "bit (b AND 0x80) n = bit 0 n" using z by simp
    qed
  qed simp
  ultimately show "(ucast b :: 'a word) AND 128 = 0 \<longleftrightarrow> unat b < 128"
    using byte_and_80 [of b] by simp
  show "(ucast b :: 'a word) = ucast (b AND 0x7F)" if "unat b < 128"
  proof -
    have "b AND 0x7F = b"
      using that byte_and_7F [of b] by (simp add: word_unat_eq_iff)
    then show ?thesis by simp
  qed
qed

lemma varint32_ptr_loop_parse:
  assumes "k \<le> 5" "k \<le> 4 \<Longrightarrow> unat r < 2 ^ (7 * k)"
  shows "varint32_ptr_loop p (of_nat (7 * k)) r = (case parse_varint (5 - k) p of
     Some (v, n) \<Rightarrow> Some (r + of_nat (2 ^ (7 * k) * v), drop n p) | None \<Rightarrow> None)"
  using assms
proof (induction p arbitrary: k r)
  case Nil
  then show ?case by (cases "5 - k") simp_all
next
  case (Cons b p)
  have sh: "of_nat (7 * k) \<le> (28 :: u32) \<longleftrightarrow> k \<le> 4"
    unfolding word_le_nat_alt using unat_shift [of k] Cons.prems(1) by auto
  show ?case
  proof (cases "k \<le> 4")
    case False
    then show ?thesis using sh Cons.prems(1) by simp
  next
    case True
    then have k: "5 - k = Suc (5 - Suc k)" by simp
    let ?r = "r OR push_bit (7 * k) (ucast (b AND 0x7F))"
    have r: "?r = r + of_nat (2 ^ (7 * k) * (unat b mod 128))"
      by (rule group_add) (use Cons.prems True in simp_all)
    show ?thesis
    proof (cases "unat b < 128")
      case True
      then have "varint32_ptr_loop (b # p) (of_nat (7 * k)) r = Some (?r, p)"
        using sh \<open>k \<le> 4\<close> unat_shift [of k] byte_group [where ?'a = 32, of b] by (simp add: Let_def)
      then show ?thesis unfolding r k using True by simp
    next
      case False
      have b: "unat b mod 128 = unat b - 128"
        using False unsigned_less [of b, where ?'a = nat] by (simp add: mod_if)
      have rb: "unat ?r < 2 ^ (7 * Suc k)" if "Suc k \<le> 4"
        unfolding r using group_bound [of r "7 * k" b] that Cons.prems by (simp add: add.commute)
      have "varint32_ptr_loop (b # p) (of_nat (7 * k)) r = varint32_ptr_loop p (of_nat (7 * Suc k)) ?r"
        unfolding shift_next [symmetric]
        using sh \<open>k \<le> 4\<close> False unat_shift [of k] byte_group [where ?'a = 32, of b]
        by (simp add: Let_def del: of_nat_mult of_nat_Suc)
      moreover have "\<dots> = (case parse_varint (5 - Suc k) p of
          Some (v, n) \<Rightarrow> Some (?r + of_nat (2 ^ (7 * Suc k) * v), drop n p) | None \<Rightarrow> None)"
        by (rule Cons.IH) (use rb \<open>k \<le> 4\<close> in auto)
      moreover have "?r + of_nat (2 ^ (7 * Suc k) * v) = r + of_nat (2 ^ (7 * k) * (unat b - 128 + 128 * v))" for v
        unfolding r b of_nat_add [symmetric] add.assoc by (simp add: power_add algebra_simps)
      ultimately show ?thesis unfolding k using False by (simp only:) (simp split: option.splits)
    qed
  qed
qed

lemma varint64_ptr_loop_parse:
  assumes "k \<le> 10" "k \<le> 9 \<Longrightarrow> unat r < 2 ^ (7 * k)"
  shows "varint64_ptr_loop p (of_nat (7 * k)) r = (case parse_varint (10 - k) p of
     Some (v, n) \<Rightarrow> Some (r + of_nat (2 ^ (7 * k) * v), drop n p) | None \<Rightarrow> None)"
  using assms
proof (induction p arbitrary: k r)
  case Nil
  then show ?case by (cases "10 - k") simp_all
next
  case (Cons b p)
  have sh: "of_nat (7 * k) \<le> (63 :: u32) \<longleftrightarrow> k \<le> 9"
    unfolding word_le_nat_alt using unat_shift [of k] Cons.prems(1) by auto
  show ?case
  proof (cases "k \<le> 9")
    case False
    then show ?thesis using sh Cons.prems(1) by simp
  next
    case True
    then have k: "10 - k = Suc (10 - Suc k)" by simp
    let ?r = "r OR push_bit (7 * k) (ucast (b AND 0x7F))"
    have r: "?r = r + of_nat (2 ^ (7 * k) * (unat b mod 128))"
      by (rule group_add) (use Cons.prems True in simp_all)
    show ?thesis
    proof (cases "unat b < 128")
      case True
      then have "varint64_ptr_loop (b # p) (of_nat (7 * k)) r = Some (?r, p)"
        using sh \<open>k \<le> 9\<close> unat_shift [of k] byte_group [where ?'a = 64, of b] by (simp add: Let_def)
      then show ?thesis unfolding r k using True by simp
    next
      case False
      have b: "unat b mod 128 = unat b - 128"
        using False unsigned_less [of b, where ?'a = nat] by (simp add: mod_if)
      have rb: "unat ?r < 2 ^ (7 * Suc k)" if "Suc k \<le> 9"
        unfolding r using group_bound [of r "7 * k" b] that Cons.prems by (simp add: add.commute)
      have "varint64_ptr_loop (b # p) (of_nat (7 * k)) r = varint64_ptr_loop p (of_nat (7 * Suc k)) ?r"
        unfolding shift_next [symmetric]
        using sh \<open>k \<le> 9\<close> False unat_shift [of k] byte_group [where ?'a = 64, of b]
        by (simp add: Let_def del: of_nat_mult of_nat_Suc)
      moreover have "\<dots> = (case parse_varint (10 - Suc k) p of
          Some (v, n) \<Rightarrow> Some (?r + of_nat (2 ^ (7 * Suc k) * v), drop n p) | None \<Rightarrow> None)"
        by (rule Cons.IH) (use rb \<open>k \<le> 9\<close> in auto)
      moreover have "?r + of_nat (2 ^ (7 * Suc k) * v) = r + of_nat (2 ^ (7 * k) * (unat b - 128 + 128 * v))" for v
        unfolding r b of_nat_add [symmetric] add.assoc by (simp add: power_add algebra_simps)
      ultimately show ?thesis unfolding k using False by (simp only:) (simp split: option.splits)
    qed
  qed
qed

lemma GetVarint32Ptr_parse:
  "GetVarint32Ptr p = (case parse_varint 5 p of Some (v, n) \<Rightarrow> Some (of_nat v, drop n p) | None \<Rightarrow> None)"
proof -
  have slow: "GetVarint32PtrFallback p = (case parse_varint 5 p of
      Some (v, n) \<Rightarrow> Some (of_nat v, drop n p) | None \<Rightarrow> None)"
    using varint32_ptr_loop_parse [of 0 0 p] by (simp add: GetVarint32PtrFallback_def split: option.split)
  show ?thesis
  proof (cases p)
    case (Cons b q)
    then show ?thesis
      using slow byte_group(2) [where ?'a = 32, of b] by (simp add: GetVarint32Ptr_def numeral_eq_Suc)
  qed (use slow in \<open>simp add: GetVarint32Ptr_def\<close>)
qed

lemma GetVarint64Ptr_parse:
  "GetVarint64Ptr p = (case parse_varint 10 p of Some (v, n) \<Rightarrow> Some (of_nat v, drop n p) | None \<Rightarrow> None)"
  using varint64_ptr_loop_parse [of 0 0 p] by (simp add: GetVarint64Ptr_def split: option.split)

section \<open>Round trips\<close>

lemma GetVarint32_Encode [simp, coding_simps]: "GetVarint32 (EncodeVarint32 v @ rest) = (Some v, rest)"
  using parse_varint_bytes [of "unat v" 5 rest] length_EncodeVarint(2) [of v]
  by (simp add: GetVarint32_def GetVarint32Ptr_parse EncodeVarint32_bytes)

lemma GetVarint64_Encode [simp, coding_simps]: "GetVarint64 (EncodeVarint64 v @ rest) = (Some v, rest)"
  using parse_varint_bytes [of "unat v" 10 rest] length_varint_bytes64 [of v]
  by (simp add: GetVarint64_def GetVarint64Ptr_parse EncodeVarint64_bytes)

lemma GetVarint32Ptr_Encode [simp, coding_simps]: "GetVarint32Ptr (EncodeVarint32 v @ rest) = Some (v, rest)"
  using GetVarint32_Encode [of v rest] by (simp add: GetVarint32_def split: option.splits prod.splits)

lemma PutLengthPrefixedSlice_append: "PutLengthPrefixedSlice dst s = dst @ PutLengthPrefixedSlice [] s"
  by (simp add: PutLengthPrefixedSlice_def PutVarint32_def)

lemma GetLengthPrefixedSlice_Put [simp, coding_simps]:
  "length s < 2 ^ 32 \<Longrightarrow> GetLengthPrefixedSlice (PutLengthPrefixedSlice [] s @ rest) = (Some s, rest)"
  using unat_of_nat_small [of "length s", where ?'a = 32]
  by (simp add: GetLengthPrefixedSlice_def PutLengthPrefixedSlice_def PutVarint32_def)

end
