(* ===== verification/Crc32cSpec.thy ===== *)
theory Crc32cSpec
  imports Crc32c CodingSpec
begin

text \<open>
  The CRC by its definition, a shift register over the reversed Castagnoli polynomial that takes
  one bit at a time, and the proof that the table-driven \<open>Extend\<close> computes it. The shift is
  linear, so that the tables are determined by their entries at the powers of two, and a step
  of four bytes is thirty-two steps of one bit.
\<close>

section \<open>The shift register\<close>

definition crc_bit :: "u32 \<Rightarrow> u32" where
  "crc_bit l = drop_bit 1 l XOR (if bit l 0 then 0x82f63b78 else 0)"

definition crc8 :: "u32 \<Rightarrow> u32" where
  "crc8 l = crc_bit (crc_bit (crc_bit (crc_bit (crc_bit (crc_bit (crc_bit (crc_bit l)))))))"

definition crc_byte :: "u32 \<Rightarrow> u8 \<Rightarrow> u32" where
  "crc_byte l b = crc8 (l XOR ucast b)"

text \<open>The CRC of \<open>A @ data\<close> from the CRC of \<open>A\<close>.\<close>

definition crc32c :: "u32 \<Rightarrow> u8 list \<Rightarrow> u32" where
  "crc32c crc data = NOT (foldl crc_byte (NOT crc) data)"

definition linear :: "(u32 \<Rightarrow> u32) \<Rightarrow> bool" where
  "linear f \<longleftrightarrow> (\<forall>x y. f (x XOR y) = f x XOR f y)"

lemma linear_xor: "linear f \<Longrightarrow> f (x XOR y) = f x XOR f y"
  by (simp add: linear_def)

lemma linear_0: "linear f \<Longrightarrow> f 0 = 0"
  using linear_xor [of f 0 0] by simp

lemma linear_comp: "linear f \<Longrightarrow> linear g \<Longrightarrow> linear (\<lambda>x. f (g x))"
  by (simp add: linear_def)

lemma linear_crc_bit: "linear crc_bit"
  unfolding linear_def crc_bit_def by (auto intro!: bit_word_eqI simp: bit_simps)

lemma linear_crc8: "linear crc8"
  by (simp add: linear_def crc8_def linear_xor [OF linear_crc_bit])

text \<open>Zeros shifted out at the low end change nothing.\<close>

lemma crc8_low_zero: "take_bit 8 l = 0 \<Longrightarrow> crc8 l = drop_bit 8 l"
proof -
  assume z: "take_bit 8 l = 0"
  have "\<not> bit l n" if "n < 8" for n
    using that z by (metis bit_0_eq bit_take_bit_iff bot_apply bot_bool_def)
  then show ?thesis
    by (simp add: crc8_def crc_bit_def bit_drop_bit_eq drop_bit_drop_bit) (simp add: numeral_eq_Suc)
qed

lemma crc8_split: "crc8 l = crc8 (l AND 0xff) XOR drop_bit 8 l"
proof -
  have "l = (l AND 0xff) XOR push_bit 8 (drop_bit 8 l)"
    by (rule bit_word_eqI) (auto simp: and_ff bit_simps)
  then have "crc8 l = crc8 (l AND 0xff) XOR crc8 (push_bit 8 (drop_bit 8 l))"
    using linear_xor [OF linear_crc8] by metis
  moreover have "crc8 (push_bit 8 (drop_bit 8 l)) = drop_bit 8 l"
  proof -
    have "take_bit 8 (push_bit 8 (drop_bit 8 l)) = 0"
      by (simp add: take_bit_push_bit)
    moreover have "drop_bit 8 (push_bit 8 (drop_bit 8 l)) = drop_bit 8 l"
      by (rule bit_word_eqI) (auto simp: bit_simps dest: bit_imp_le_length)
    ultimately show ?thesis using crc8_low_zero by simp
  qed
  ultimately show ?thesis by simp
qed

section \<open>Tables of linear functions\<close>

text \<open>\<open>doubled es\<close> is the table with the entries \<open>es\<close> at the powers of two.\<close>

definition doubled :: "u32 list \<Rightarrow> u32 list" where
  "doubled es = foldl (\<lambda>t e. t @ map ((XOR) e) t) [0] es"

definition powers8 :: "u32 list" where
  "powers8 = [1, 2, 4, 8, 16, 32, 64, 128]"

lemma upt_double: "[0..<m + m] = [0..<m] @ map ((+) m) [0..<m]"
  by (rule nth_equalityI) (auto simp: nth_append)

lemma doubled_table:
  assumes "linear f" "k \<le> 32"
  shows "doubled (map (\<lambda>j. f (2 ^ j)) [0..<k]) = map (\<lambda>i. f (of_nat i)) [0..<2 ^ k]"
  using assms(2)
proof (induction k)
  case 0
  then show ?case using linear_0 [OF assms(1)] by (simp add: doubled_def)
next
  case (Suc k)
  have "f (2 ^ k) XOR f (of_nat i) = f (of_nat (2 ^ k + i))" if "i < 2 ^ k" for i
  proof -
    have "(2 ^ k :: u32) AND of_nat i = 0"
    proof (rule bit_word_eqI)
      fix n assume "n < LENGTH(32)"
      have "take_bit k i = i" using that by (rule take_bit_nat_eq_self)
      then have "\<not> bit i k" by (metis bit_take_bit_iff less_irrefl)
      then show "bit ((2 ^ k :: u32) AND of_nat i) n = bit 0 n" by (auto simp: bit_simps)
    qed
    then have "(2 ^ k :: u32) XOR of_nat i = 2 ^ k + of_nat i"
      by (metis disjunctive_add_eq_xor)
    then show ?thesis using linear_xor [OF assms(1), of "2 ^ k" "of_nat i"] by simp
  qed
  moreover have "[0..<2 ^ Suc k] = [0..<2 ^ k] @ map ((+) (2 ^ k)) [0..<2 ^ k]"
    using upt_double [of "2 ^ k"] by (simp only: power_Suc mult_2)
  ultimately show ?case
    using Suc by (simp add: doubled_def upt_Suc_append del: upt_Suc of_nat_add)
qed

lemma table_entry:
  assumes "linear f" "t = doubled (map f powers8)" "unat i < 256"
  shows "t ! unat i = f i"
proof -
  have "map f powers8 = map (\<lambda>j. f (2 ^ j)) [0..<8]" by (simp add: powers8_def upt_rec)
  then show ?thesis
    using doubled_table [OF assms(1), of 8] assms(2,3) by (simp del: upt_Suc)
qed

section \<open>The tables of the code\<close>

text \<open>The entries at the powers of two, then the tables they determine.\<close>

definition base0 :: "u32 list" where
  "base0 = [0xf26b8303, 0xe13b70f7, 0xc79a971f, 0x8ad958cf, 0x105ec76f, 0x20bd8ede, 0x417b1dbc, 0x82f63b78]"

definition base1 :: "u32 list" where
  "base1 = [0x13a29877, 0x274530ee, 0x4e8a61dc, 0x9d14c3b8, 0x3fc5f181, 0x7f8be302, 0xff17c604, 0xfbc3faf9]"

definition base2 :: "u32 list" where
  "base2 = [0xa541927e, 0x4f6f520d, 0x9edea41a, 0x38513ec5, 0x70a27d8a, 0xe144fb14, 0xc76580d9, 0x8b277743]"

definition base3 :: "u32 list" where
  "base3 = [0xdd45aab8, 0xbf672381, 0x7b2231f3, 0xf64463e6, 0xe964b13d, 0xd725148b, 0xaba65fe7, 0x52a0c93f]"

lemma base0: "map crc8 powers8 = base0"
  by code_simp

lemma base1: "map crc8 base0 = base1"
  by code_simp

lemma base2: "map crc8 base1 = base2"
  by code_simp

lemma base3: "map crc8 base2 = base3"
  by code_simp

lemma table0_doubled: "table0 = doubled base0"
  unfolding table0_def doubled_def base0_def by simp

lemma table1_doubled: "table1 = doubled base1"
  unfolding table1_def doubled_def base1_def by simp

lemma table2_doubled: "table2 = doubled base2"
  unfolding table2_def doubled_def base2_def by simp

lemma table3_doubled: "table3 = doubled base3"
  unfolding table3_def doubled_def base3_def by simp

text \<open>Table \<open>k\<close> holds the values after \<open>8 * (k + 1)\<close> steps.\<close>

lemma table_entries:
  assumes "unat i < 256"
  shows "table0 ! unat i = crc8 i" "table1 ! unat i = crc8 (crc8 i)"
    "table2 ! unat i = crc8 (crc8 (crc8 i))" "table3 ! unat i = crc8 (crc8 (crc8 (crc8 i)))"
proof -
  note lin = linear_comp [OF linear_crc8]
  show "table0 ! unat i = crc8 i"
    by (rule table_entry [OF linear_crc8 _ assms]) (simp add: table0_doubled base0)
  show "table1 ! unat i = crc8 (crc8 i)"
    by (rule table_entry [OF lin [OF linear_crc8] _ assms])
      (simp add: table1_doubled base1 [symmetric] base0 [symmetric] comp_def)
  show "table2 ! unat i = crc8 (crc8 (crc8 i))"
    by (rule table_entry [OF lin [OF lin [OF linear_crc8]] _ assms])
      (simp add: table2_doubled base2 [symmetric] base1 [symmetric] base0 [symmetric] comp_def)
  show "table3 ! unat i = crc8 (crc8 (crc8 (crc8 i)))"
    by (rule table_entry [OF lin [OF lin [OF lin [OF linear_crc8]]] _ assms])
      (simp add: table3_doubled base3 [symmetric] base2 [symmetric] base1 [symmetric] base0 [symmetric] comp_def)
qed

section \<open>The steps\<close>

lemma unat_and_ff: "unat (l AND 0xff :: u32) < 256"
proof -
  have "unat (l AND 0xff) = unat l mod 2 ^ 8" unfolding and_ff by (rule unat_take_bit_mod)
  then show ?thesis by simp
qed

lemma and_ff_byte: "(ucast (b :: u8) :: u32) AND 0xff = ucast b"
  unfolding and_ff by (rule bit_word_eqI) (auto simp: bit_simps dest: bit_imp_le_length)

lemma STEP1_byte: "STEP1 l b = crc_byte l b"
proof -
  let ?c = "(l AND 0xff) XOR ucast b"
  have c: "?c = (l XOR ucast b) AND 0xff"
    using and_ff_byte [of b] by (metis bit.conj_xor_distrib2)
  have "drop_bit 8 (l XOR ucast b) = drop_bit 8 l"
    by (rule bit_word_eqI) (auto simp: bit_simps dest: bit_imp_le_length)
  then have "crc_byte l b = crc8 ?c XOR drop_bit 8 l"
    unfolding crc_byte_def crc8_split [of "l XOR ucast b"] c by simp
  then show ?thesis
    using table_entries(1) [of ?c] unat_and_ff [of "l XOR ucast b"] unfolding STEP1_def Let_def c by simp
qed

text \<open>A value can be added before or after the steps that move it to the low end.\<close>

lemma crc8_later:
  assumes "take_bit 24 w = w"
  shows "crc8 l XOR w = crc8 (l XOR push_bit 8 w)"
proof -
  have "take_bit 8 (push_bit 8 w) = 0" by (simp add: take_bit_push_bit)
  moreover have "drop_bit 8 (push_bit 8 w) = w"
  proof (rule bit_word_eqI)
    fix n assume "n < LENGTH(32)"
    have "bit w n \<Longrightarrow> n < 24" using assms by (metis bit_take_bit_iff)
    then show "bit (drop_bit 8 (push_bit 8 w)) n = bit w n" by (auto simp: bit_simps)
  qed
  ultimately show ?thesis
    using linear_xor [OF linear_crc8] crc8_low_zero by metis
qed

lemma crc8_4:
  "crc8 (crc8 (crc8 (crc8 c))) = crc8 (crc8 (crc8 (crc8 (c AND 0xff)))) XOR
     crc8 (crc8 (crc8 (drop_bit 8 c AND 0xff))) XOR crc8 (crc8 (drop_bit 16 c AND 0xff)) XOR crc8 (drop_bit 24 c)"
proof -
  have "crc8 c = crc8 (c AND 0xff) XOR drop_bit 8 c"
    "crc8 (drop_bit 8 c) = crc8 (drop_bit 8 c AND 0xff) XOR drop_bit 16 c"
    "crc8 (drop_bit 16 c) = crc8 (drop_bit 16 c AND 0xff) XOR drop_bit 24 c"
    using crc8_split [of c] crc8_split [of "drop_bit 8 c"] crc8_split [of "drop_bit 16 c"]
    by (simp_all only: drop_bit_drop_bit) (simp_all add: numeral_eq_Suc)
  then show ?thesis
    by (simp only: linear_xor [OF linear_crc8] xor.assoc)
qed

definition le32 :: "u8 \<Rightarrow> u8 \<Rightarrow> u8 \<Rightarrow> u8 \<Rightarrow> u32" where
  "le32 b0 b1 b2 b3 = ucast b0 XOR push_bit 8 (ucast b1) XOR push_bit 16 (ucast b2) XOR push_bit 24 (ucast b3)"

lemma LE_LOAD32_le32: "LE_LOAD32 (b0 # b1 # b2 # b3 # p) = le32 b0 b1 b2 b3"
proof -
  have "LE_LOAD32 (b0 # b1 # b2 # b3 # p) = word_of_bytes [b0, b1, b2, b3]"
    by (simp add: LE_LOAD32_def DecodeFixed32_def kLittleEndian_def numeral_eq_Suc)
  also have "\<dots> = le32 b0 b1 b2 b3"
    unfolding le32_def by (rule bit_word_eqI) (auto simp: bit_simps dest: bit_imp_le_length)
  finally show ?thesis .
qed

lemma STEP4_bytes: "STEP4 l (b0 # b1 # b2 # b3 # p) = foldl crc_byte l [b0, b1, b2, b3]"
proof -
  let ?c = "l XOR le32 b0 b1 b2 b3"
  have small: "take_bit 24 (ucast b :: u32) = ucast b" "take_bit 24 (push_bit 8 (ucast b) :: u32) = push_bit 8 (ucast b)"
    "take_bit 24 (push_bit 16 (ucast b) :: u32) = push_bit 16 (ucast b)" for b :: u8
    by (rule bit_word_eqI; auto simp: bit_simps dest: bit_imp_le_length)+
  have push: "push_bit 8 (push_bit 8 w) = push_bit 16 w" "push_bit 8 (push_bit 16 w) = push_bit 24 w" for w :: u32
    by (simp_all add: push_bit_push_bit)
  have "crc8 (crc8 (crc8 (crc8 (l XOR ucast b0) XOR ucast b1) XOR ucast b2) XOR ucast b3) = crc8 (crc8 (crc8 (crc8 ?c)))"
    by (simp only: crc8_later [OF small(1)] crc8_later [OF small(2)] crc8_later [OF small(3)] push le32_def xor.assoc)
  moreover have "drop_bit 24 ?c = drop_bit 24 ?c AND 0xff"
    unfolding and_ff by (rule bit_word_eqI) (auto simp: bit_simps dest: bit_imp_le_length)
  moreover have "unat (?c AND 0xff) < 256" "unat (drop_bit 8 ?c AND 0xff) < 256"
    "unat (drop_bit 16 ?c AND 0xff) < 256" "unat (drop_bit 24 ?c AND 0xff) < 256"
    by (rule unat_and_ff)+
  ultimately show ?thesis
    by (simp add: STEP4_def Let_def LE_LOAD32_le32 crc_byte_def table_entries crc8_4 [of ?c])
qed

lemma STEP1_eq: "STEP1 = crc_byte"
  by (intro ext) (rule STEP1_byte)

lemma STEP4_take: "4 \<le> length p \<Longrightarrow> STEP4 l p = foldl crc_byte l (take 4 p)"
proof -
  assume "4 \<le> length p"
  then obtain b0 b1 b2 b3 q where "p = b0 # b1 # b2 # b3 # q"
    by (auto simp: numeral_eq_Suc Suc_le_length_iff)
  then show ?thesis using STEP4_bytes [of l b0 b1 b2 b3 q] by simp
qed

section \<open>The loops\<close>

text \<open>Each loop keeps the CRC of what is left.\<close>

lemma crc_align: "crc_align n l p = (l', p') \<Longrightarrow> foldl crc_byte l' p' = foldl crc_byte l p"
  by (induction n arbitrary: l p) (auto simp: STEP1_eq split: list.splits)

lemma foldl_STEP4: "4 \<le> length p \<Longrightarrow> foldl crc_byte (STEP4 l p) (drop 4 p) = foldl crc_byte l p"
  by (metis STEP4_take append_take_drop_id foldl_append)

lemma crc_words: "crc_words l p = (l', p') \<Longrightarrow> foldl crc_byte l' p' = foldl crc_byte l p"
proof (induction l p rule: crc_words.induct)
  case (1 l p)
  show ?case
  proof (cases "4 \<le> length p")
    case True
    then show ?thesis
      using 1 foldl_STEP4 [OF True, of l] by (simp add: crc_words.simps [of l p])
  next
    case False
    then show ?thesis using 1(2) by (simp add: crc_words.simps [of l p])
  qed
qed

lemma crc_blocks: "crc_blocks l p = (l', p') \<Longrightarrow> foldl crc_byte l' p' = foldl crc_byte l p"
proof (induction l p rule: crc_blocks.induct)
  case (1 l p)
  show ?case
  proof (cases "16 \<le> length p")
    case True
    have step: "foldl crc_byte (STEP4 l (drop k p)) (drop (k + 4) p) = foldl crc_byte l (drop k p)"
      if "k + 4 \<le> length p" for k l
      using foldl_STEP4 [of "drop k p" l] that by (simp add: add.commute)
    then show ?thesis
      using 1 True step [of 0] step [of 4] step [of 8] step [of 12]
      by (simp add: crc_blocks.simps [of l p] Let_def)
  next
    case False
    then show ?thesis using 1(2) by (simp add: crc_blocks.simps [of l p])
  qed
qed

lemma Extend_crc32c: "Extend pval crc buf = crc32c crc buf"
proof -
  have no_accel: "\<not> CanAccelerateCRC32C"
    by (simp add: CanAccelerateCRC32C_def AcceleratedCRC32C_def)
  obtain l1 p1 where 1: "(if align_steps pval \<le> length buf
      then crc_align (align_steps pval) (NOT crc) buf else (NOT crc, buf)) = (l1, p1)"
    by (metis surj_pair)
  then have f1: "foldl crc_byte l1 p1 = foldl crc_byte (NOT crc) buf"
    by (auto split: if_splits dest: crc_align)
  obtain l2 p2 where 2: "crc_blocks l1 p1 = (l2, p2)" by (metis surj_pair)
  obtain l3 p3 where 3: "crc_words l2 p2 = (l3, p3)" by (metis surj_pair)
  have "(0xffffffff :: u32) = - 1"
    by (simp add: word_unat_eq_iff unsigned_minus_1_eq_mask mask_eq_exp_minus_1)
  then have not: "l XOR 0xffffffff = NOT l" for l :: u32
    by (simp only: bit.xor_one_right)
  have "Extend pval crc buf = NOT (foldl crc_byte l3 p3)"
    using no_accel 1 2 3 by (simp add: Extend_def not STEP1_eq)
  then show ?thesis
    using crc_words [OF 3] crc_blocks [OF 2] f1 by (simp add: crc32c_def)
qed

section \<open>Masking\<close>

lemma Unmask_Mask: "crc_Unmask (crc_Mask crc) = crc"
proof (rule bit_word_eqI)
  fix n assume "n < LENGTH(32)"
  then show "bit (crc_Unmask (crc_Mask crc)) n = bit crc n"
    by (cases "n < 15") (auto simp: crc_Unmask_def crc_Mask_def Let_def bit_simps dest: bit_imp_le_length)
qed

end
