(* ===== verification/CodingProps.thy ===== *)
theory CodingProps
  imports CodingSpec Crc32cSpec
begin

text \<open>The properties of the leveldb encodings and of the CRC.\<close>

text \<open>
  C26. The varint parsers agree with the reference parser on every input, malformed and truncated
  ones included: \<open>GetVarint32Ptr\<close> reads at most five bytes and \<open>GetVarint64Ptr\<close> at most ten, they
  return NULL when no byte among these ends the number, and otherwise the number modulo the
  width and the pointer behind its last byte. It is the parser nanopb is proved against.
\<close>

theorem varint_ptr_reference:
  "GetVarint32Ptr p = map_option (\<lambda>(v, n). (of_nat v, drop n p)) (parse_varint 5 p) \<and>
   GetVarint64Ptr p = map_option (\<lambda>(v, n). (of_nat v, drop n p)) (parse_varint 10 p)"
  by (simp add: GetVarint32Ptr_parse GetVarint64Ptr_parse split: option.splits)

text \<open>
  C28. \<open>crc32c::Extend\<close>, with its tables, its loops over sixteen and four bytes and its alignment
  loop, computes the CRC of the bit-serial definition: at every address of the buffer and for
  every initial value, the result is the value of the shift register over the Castagnoli
  polynomial after all bits of the buffer.
\<close>

theorem Extend_is_crc32c: "Extend pval crc buf = crc32c crc buf"
  by (rule Extend_crc32c)

end
