(* ===== verification/Bloom.thy ===== *)
theory Bloom
  imports Coding
begin

text \<open>
  \<open>leveldb-library/util/hash.cc\<close> and \<open>bloom.cc\<close>: the hash function and the Bloom filter policy.
  The product \<open>bits_per_key * 0.69\<close> is computed in floating point; the function that gives it,
  cast to \<open>size_t\<close>, is the parameter \<open>scaled\<close> of the constructor.
\<close>

section \<open>Hash\<close>

text \<open>The loop over groups of four bytes; it returns the hash and the bytes that remain.\<close>

fun hash_words :: "u32 \<Rightarrow> u8 list \<Rightarrow> u32 \<times> u8 list" where
  "hash_words h (a # b # c # d # data) =
     (let w = the (DecodeFixed32 [a, b, c, d]);
          h = (h + w) * 0xc6a4a793
      in hash_words (h XOR drop_bit 16 h) data)"
| "hash_words h data = (h, data)"

text \<open>\<open>switch (limit - data)\<close> with its cases falling through.\<close>

definition hash_tail :: "u32 \<Rightarrow> u8 list \<Rightarrow> u32" where
  "hash_tail h data =
     (let n = length data;
          h = (if n = 3 then h + push_bit 16 (ucast (data ! 2)) else h);
          h = (if n = 3 \<or> n = 2 then h + push_bit 8 (ucast (data ! 1)) else h);
          h1 = (h + ucast (data ! 0)) * 0xc6a4a793
      in if n = 3 \<or> n = 2 \<or> n = 1 then h1 XOR drop_bit 24 h1 else h)"

definition Hash :: "u8 list \<Rightarrow> u32 \<Rightarrow> u32" where
  "Hash data seed =
     (case hash_words (seed XOR ucast ((of_nat (length data) :: u64) * 0xc6a4a793)) data of
        (h, rest) \<Rightarrow> hash_tail h rest)"

section \<open>The filter\<close>

definition BloomHash :: "u8 list \<Rightarrow> u32" where
  "BloomHash key = Hash key 0xbc9f1d34"

record bloom_policy =
  bits_per_key :: u64
  bloom_k :: u64

definition BloomFilterPolicy :: "(int \<Rightarrow> u64) \<Rightarrow> int \<Rightarrow> bloom_policy" where
  "BloomFilterPolicy scaled bits =
     (let k = scaled bits;
          k = (if k < 1 then 1 else k);
          k = (if k > 30 then 30 else k)
      in \<lparr>bits_per_key = of_int bits, bloom_k = k\<rparr>)"

definition bloom_delta :: "u32 \<Rightarrow> u32" where
  "bloom_delta h = drop_bit 17 h OR push_bit 15 h"

text \<open>\<open>h % bits\<close> is a 64-bit remainder, stored in a \<open>uint32_t\<close>.\<close>

definition bloom_bitpos :: "u64 \<Rightarrow> u32 \<Rightarrow> u32" where
  "bloom_bitpos bits h = ucast ((ucast h :: u64) mod bits)"

text \<open>The loop over the probes of one key; a store outside the array has no outcome.\<close>

primrec set_probes :: "nat \<Rightarrow> u64 \<Rightarrow> u32 \<Rightarrow> u32 \<Rightarrow> u8 list \<Rightarrow> u8 list option" where
  "set_probes 0 bits delta h array = Some array"
| "set_probes (Suc k) bits delta h array =
     (let bitpos = bloom_bitpos bits h; i = unat (bitpos div 8) in
      if i < length array
      then set_probes k bits delta (h + delta)
             (array[i := array ! i OR push_bit (unat (bitpos mod 8)) 1])
      else None)"

primrec set_keys :: "nat \<Rightarrow> u64 \<Rightarrow> u8 list list \<Rightarrow> u8 list \<Rightarrow> u8 list option" where
  "set_keys k bits [] array = Some array"
| "set_keys k bits (key # keys) array =
     (let h = BloomHash key in
      Option.bind (set_probes k bits (bloom_delta h) h array) (set_keys k bits keys))"

definition filter_bits :: "bloom_policy \<Rightarrow> nat \<Rightarrow> u64" where
  "filter_bits policy n =
     (let bits = of_nat n * bits_per_key policy in if bits < 64 then 64 else bits)"

text \<open>\<open>CreateFilter\<close> appends the filter to \<open>dst\<close>; the number of probes is its last byte.\<close>

definition CreateFilter :: "bloom_policy \<Rightarrow> u8 list list \<Rightarrow> u8 list \<Rightarrow> u8 list option" where
  "CreateFilter policy keys dst =
     (let bytes = (filter_bits policy (length keys) + 7) div 8;
          bits = bytes * 8
      in map_option (\<lambda>array. dst @ array)
           (set_keys (unat (bloom_k policy)) bits keys (replicate (unat bytes) 0 @ [ucast (bloom_k policy)])))"

primrec test_probes :: "nat \<Rightarrow> u64 \<Rightarrow> u32 \<Rightarrow> u32 \<Rightarrow> u8 list \<Rightarrow> bool option" where
  "test_probes 0 bits delta h array = Some True"
| "test_probes (Suc k) bits delta h array =
     (let bitpos = bloom_bitpos bits h; i = unat (bitpos div 8) in
      if i < length array
      then if (scast (array ! i) :: u32) AND push_bit (unat (bitpos mod 8)) 1 = 0 then Some False
           else test_probes k bits delta (h + delta) array
      else None)"

text \<open>The number of probes is read as a (signed) \<open>char\<close>.\<close>

definition KeyMayMatch :: "u8 list \<Rightarrow> u8 list \<Rightarrow> bool option" where
  "KeyMayMatch key bloom_filter =
     (let len = length bloom_filter in
      if len < 2 then Some False
      else
       (let bits = (of_nat len - 1) * 8 :: u64;
            k = (scast (bloom_filter ! (len - 1)) :: u64)
        in if k > 30 then Some True
           else (let h = BloomHash key in test_probes (unat k) bits (bloom_delta h) h bloom_filter)))"

end
