(* ===== verification/BloomSpec.thy ===== *)
theory BloomSpec
  imports Bloom
begin

text \<open>
  The Bloom filter as a set of bit positions: \<open>probes\<close> are the positions of a key. Building the
  filter sets the bits at the positions of its keys and no others, testing a key asks for all of
  its positions, so a key of the filter is never missed.
\<close>

primrec probes :: "nat \<Rightarrow> u64 \<Rightarrow> u32 \<Rightarrow> u32 \<Rightarrow> nat list" where
  "probes 0 bits delta h = []"
| "probes (Suc k) bits delta h = unat (bloom_bitpos bits h) # probes k bits delta (h + delta)"

definition key_probes :: "nat \<Rightarrow> u64 \<Rightarrow> u8 list \<Rightarrow> nat list" where
  "key_probes k bits key = probes k bits (bloom_delta (BloomHash key)) (BloomHash key)"

definition bit_at :: "u8 list \<Rightarrow> nat \<Rightarrow> bool" where
  "bit_at array pos \<longleftrightarrow> bit (array ! (pos div 8)) (pos mod 8)"

text \<open>A filter of \<open>n\<close> bytes and the byte behind them.\<close>

definition filter_shape :: "nat \<Rightarrow> u64 \<Rightarrow> u8 list \<Rightarrow> bool" where
  "filter_shape n bits array \<longleftrightarrow> 0 < n \<and> unat bits = 8 * n \<and> length array = Suc n"

lemma bitpos_less:
  assumes "filter_shape n bits array"
  shows "unat (bloom_bitpos bits h) < 8 * n" "unat (bloom_bitpos bits h div 8) = unat (bloom_bitpos bits h) div 8"
    "unat (bloom_bitpos bits h mod 8) = unat (bloom_bitpos bits h) mod 8"
    "unat (bloom_bitpos bits h) div 8 < n"
proof -
  have "unat (ucast h mod bits :: u64) = unat h mod (8 * n)"
  proof -
    have "take_bit 64 (unat h) = unat h"
      using unsigned_less [of h, where ?'a = nat] by (intro take_bit_nat_eq_self) simp
    then show ?thesis using assms by (simp add: filter_shape_def unat_mod unsigned_ucast_eq)
  qed
  moreover have "unat h mod (8 * n) < 2 ^ 32"
    using unsigned_less [of h, where ?'a = nat] by (simp add: le_less_trans [OF mod_less_eq_dividend])
  ultimately have "unat (bloom_bitpos bits h) = unat h mod (8 * n)"
    by (simp add: bloom_bitpos_def unsigned_ucast_eq take_bit_nat_eq_self)
  moreover have "unat h mod (8 * n) < 8 * n" using assms by (intro mod_less_divisor) (simp add: filter_shape_def)
  ultimately show less: "unat (bloom_bitpos bits h) < 8 * n" by simp
  show "unat (bloom_bitpos bits h div 8) = unat (bloom_bitpos bits h) div 8"
    "unat (bloom_bitpos bits h mod 8) = unat (bloom_bitpos bits h) mod 8"
    by (simp_all add: unat_div unat_mod)
  show "unat (bloom_bitpos bits h) div 8 < n" using less by (simp add: div_less_iff_less_mult mult.commute)
qed

lemma probes_less: "filter_shape n bits array \<Longrightarrow> pos \<in> set (probes k bits delta h) \<Longrightarrow> pos div 8 < n"
  by (induction k arbitrary: h) (auto simp: bitpos_less(4))

lemma bit_or_exp: "j < 8 \<Longrightarrow> bit (w OR push_bit j 1 :: u8) m \<longleftrightarrow> bit w m \<or> m = j"
  by (auto simp: bit_simps)

lemma bit_at_update:
  assumes "pos div 8 < length array"
  shows "bit_at (array[pos div 8 := array ! (pos div 8) OR push_bit (pos mod 8) 1]) q \<longleftrightarrow> bit_at array q \<or> q = pos"
proof -
  have "q = pos \<longleftrightarrow> q div 8 = pos div 8 \<and> q mod 8 = pos mod 8" by (metis div_mult_mod_eq)
  then show ?thesis
    using assms bit_or_exp [of "pos mod 8" "array ! (pos div 8)" "q mod 8"]
    by (auto simp: bit_at_def nth_list_update)
qed

lemma set_probes_spec:
  assumes "filter_shape n bits array"
  shows "\<exists>array'. set_probes k bits delta h array = Some array' \<and> filter_shape n bits array' \<and>
    array' ! n = array ! n \<and> (\<forall>q. bit_at array' q \<longleftrightarrow> bit_at array q \<or> q \<in> set (probes k bits delta h))"
  using assms
proof (induction k arbitrary: h array)
  case (Suc k)
  let ?pos = "unat (bloom_bitpos bits h)"
  let ?array = "array[?pos div 8 := array ! (?pos div 8) OR push_bit (?pos mod 8) 1]"
  have len: "?pos div 8 < n" "?pos div 8 < length array"
    using bitpos_less(4) [OF Suc.prems, of h] Suc.prems by (simp_all add: filter_shape_def)
  have step: "set_probes (Suc k) bits delta h array = set_probes k bits delta (h + delta) ?array"
    using bitpos_less(2,3) [OF Suc.prems, of h] len by (simp add: Let_def)
  have shape: "filter_shape n bits ?array" using Suc.prems by (simp add: filter_shape_def)
  from Suc.IH [OF shape, of "h + delta"] obtain array' where
    a: "set_probes k bits delta (h + delta) ?array = Some array'" "filter_shape n bits array'"
      "array' ! n = ?array ! n" "\<And>q. bit_at array' q \<longleftrightarrow> bit_at ?array q \<or> q \<in> set (probes k bits delta (h + delta))"
    by blast
  have "?array ! n = array ! n" using len(1) by simp
  then show ?case using a step bit_at_update [OF len(2)] by auto
qed auto

lemma set_keys_spec:
  assumes "filter_shape n bits array"
  shows "\<exists>array'. set_keys k bits keys array = Some array' \<and> filter_shape n bits array' \<and>
    array' ! n = array ! n \<and>
    (\<forall>q. bit_at array' q \<longleftrightarrow> bit_at array q \<or> (\<exists>key \<in> set keys. q \<in> set (key_probes k bits key)))"
  using assms
proof (induction keys arbitrary: array)
  case (Cons key keys)
  obtain array1 where a1: "set_probes k bits (bloom_delta (BloomHash key)) (BloomHash key) array = Some array1"
      "filter_shape n bits array1" "array1 ! n = array ! n"
      "\<And>q. bit_at array1 q \<longleftrightarrow> bit_at array q \<or> q \<in> set (key_probes k bits key)"
    using set_probes_spec [OF Cons.prems] unfolding key_probes_def by blast
  obtain array2 where a2: "set_keys k bits keys array1 = Some array2" "filter_shape n bits array2"
      "array2 ! n = array1 ! n"
      "\<And>q. bit_at array2 q \<longleftrightarrow> bit_at array1 q \<or> (\<exists>key \<in> set keys. q \<in> set (key_probes k bits key))"
    using Cons.IH [OF a1(2)] by blast
  show ?case
    using a1 a2 by (auto simp: Let_def)
qed auto

lemma test_probes_spec:
  assumes "filter_shape n bits array"
  shows "test_probes k bits delta h array = Some (\<forall>q \<in> set (probes k bits delta h). bit_at array q)"
proof (induction k arbitrary: h)
  case (Suc k)
  let ?pos = "unat (bloom_bitpos bits h)"
  have len: "?pos div 8 < length array"
    using bitpos_less(4) [OF assms, of h] assms by (simp add: filter_shape_def)
  have "(scast (array ! (?pos div 8)) :: u32) AND push_bit (?pos mod 8) 1 = 0 \<longleftrightarrow> \<not> bit_at array ?pos"
  proof -
    have "bit (scast (array ! (?pos div 8)) :: u32) (?pos mod 8) = bit (array ! (?pos div 8)) (?pos mod 8)"
      using pos_mod_bound [of 8 "int ?pos"] by (auto simp: bit_simps)
    then show ?thesis
      by (simp add: bit_at_def and_exp_eq_0_iff_not_bit push_bit_eq_mult)
  qed
  then show ?case
    using bitpos_less(2,3) [OF assms, of h] len Suc by (simp add: Let_def)
qed simp

section \<open>The policy\<close>

lemma BloomFilterPolicy_k: "1 \<le> unat (bloom_k (BloomFilterPolicy scaled b))" "unat (bloom_k (BloomFilterPolicy scaled b)) \<le> 30"
  by (auto simp: BloomFilterPolicy_def Let_def word_less_nat_alt Suc_le_eq)

lemma probes_byte:
  assumes "unat (k :: u64) \<le> 30"
  shows "(scast (ucast k :: u8) :: u64) = k"
proof -
  have small: "signed_take_bit 7 (int m) = int m" if "m \<le> 30" for m
    using that by (intro signed_take_bit_int_eq_self) simp_all
  have "(ucast k :: u8) = of_nat (unat k)" by simp
  then have "sint (ucast k :: u8) = sint (of_nat (unat k) :: u8)" by (simp only:)
  also have "\<dots> = signed_take_bit 7 (int (unat k))" by (simp only: signed_of_nat) simp
  also have "\<dots> = int (unat k)" by (rule small [OF assms])
  finally have "(scast (ucast k :: u8) :: u64) = of_int (int (unat k))" by (simp only: scast_eq)
  then show ?thesis by simp
qed

text \<open>The sizes: no overflow for fewer than \<open>2 ^ 31\<close> keys with fewer than \<open>2 ^ 31\<close> bits each.\<close>

definition bloom_bytes :: "bloom_policy \<Rightarrow> nat \<Rightarrow> u64" where
  "bloom_bytes policy n = (filter_bits policy n + 7) div 8"

lemma bloom_bytes_shape:
  assumes "n < 2 ^ 31" "unat (bits_per_key policy) < 2 ^ 31"
  shows "filter_shape (unat (bloom_bytes policy n)) (bloom_bytes policy n * 8)
    (replicate (unat (bloom_bytes policy n)) 0 @ [c])"
proof -
  have "n * unat (bits_per_key policy) \<le> 2 ^ 31 * 2 ^ 31"
    by (rule mult_le_mono) (use assms in simp_all)
  then have prod: "unat (of_nat n * bits_per_key policy) = n * unat (bits_per_key policy)"
      "n * unat (bits_per_key policy) \<le> 2 ^ 62"
    using assms(1) by (simp_all add: unat_word_ariths unsigned_of_nat take_bit_nat_eq_self)
  then have bits: "64 \<le> unat (filter_bits policy n)" "unat (filter_bits policy n) \<le> 2 ^ 62"
    by (auto simp: filter_bits_def Let_def word_less_nat_alt)
  then have "unat (bloom_bytes policy n) = (unat (filter_bits policy n) + 7) div 8"
    by (simp add: bloom_bytes_def unat_div unat_word_ariths)
  with bits have "8 \<le> unat (bloom_bytes policy n)" "unat (bloom_bytes policy n) \<le> 2 ^ 60"
    by (simp_all add: less_eq_div_iff_mult_less_eq)
  then show ?thesis by (simp add: filter_shape_def unat_word_ariths)
qed

text \<open>A filter answers yes for a key exactly when all of its positions belong to keys of the filter.\<close>

lemma KeyMayMatch_CreateFilter:
  fixes policy keys
  defines "k \<equiv> unat (bloom_k policy)" and "bits \<equiv> bloom_bytes policy (length keys) * 8"
  assumes "k \<le> 30" "length keys < 2 ^ 31" "unat (bits_per_key policy) < 2 ^ 31"
  shows "\<exists>array. CreateFilter policy keys dst = Some (dst @ array) \<and>
    (\<forall>key. KeyMayMatch key array =
      Some (\<forall>q \<in> set (key_probes k bits key). \<exists>key' \<in> set keys. q \<in> set (key_probes k bits key')))"
proof -
  let ?n = "unat (bloom_bytes policy (length keys))"
  let ?init = "replicate ?n 0 @ [ucast (bloom_k policy)] :: u8 list"
  have shape: "filter_shape ?n bits ?init"
    unfolding bits_def by (rule bloom_bytes_shape [OF assms(4,5)])
  obtain array where a: "set_keys k bits keys ?init = Some array" "filter_shape ?n bits array"
      "array ! ?n = ?init ! ?n"
      "\<And>q. bit_at array q \<longleftrightarrow> bit_at ?init q \<or> (\<exists>key \<in> set keys. q \<in> set (key_probes k bits key))"
    using set_keys_spec [OF shape, of k keys] by blast
  have create: "CreateFilter policy keys dst = Some (dst @ array)"
    using a(1) by (simp add: CreateFilter_def Let_def k_def bits_def bloom_bytes_def)
  have last: "length array = Suc ?n" "array ! ?n = ucast (bloom_k policy)"
    using a(2,3) by (simp_all add: filter_shape_def nth_append)
  have k: "(scast (array ! ?n) :: u64) = bloom_k policy"
    unfolding last(2) by (rule probes_byte) (use assms(3) in \<open>simp add: k_def\<close>)
  have len: "(of_nat (length array) - 1) * 8 = bits"
    by (simp add: last(1) bits_def)
  have "KeyMayMatch key array = Some (\<forall>q \<in> set (key_probes k bits key). bit_at array q)" for key
    using test_probes_spec [OF a(2), of k] last(1) k len a(2) assms(3)
    by (simp add: KeyMayMatch_def Let_def key_probes_def k_def word_less_nat_alt filter_shape_def del: of_nat_Suc)
  moreover have "\<not> bit_at ?init q" if "q \<in> set (key_probes k bits key)" for q key
    using probes_less [OF shape that [unfolded key_probes_def]] by (simp add: bit_at_def nth_append)
  ultimately show ?thesis
    using create a(4) by (intro exI [of _ array]) auto
qed

lemma bits_per_key_policy:
  assumes "0 \<le> b" "b < 2 ^ 31"
  shows "unat (bits_per_key (BloomFilterPolicy scaled b)) < 2 ^ 31"
proof -
  have "unat (of_int b :: u64) = nat b"
    using assms by (simp add: unsigned_of_int take_bit_int_eq_self)
  then show ?thesis using assms by (simp add: BloomFilterPolicy_def Let_def)
qed

text \<open>
  C27. The Bloom filter has no false negatives: \<open>CreateFilter\<close> returns for every list of fewer
  than 2^31 keys and every number of bits per key (an \<open>int\<close> that is not negative), whatever the
  floating-point product gives for the number of probes, and the filter it appends to \<open>dst\<close> says
  yes to each of its keys.
\<close>

theorem bloom_no_false_negative:
  assumes "length keys < 2 ^ 31" and "0 \<le> b" and "b < 2 ^ 31"
  shows "\<exists>array. CreateFilter (BloomFilterPolicy scaled b) keys dst = Some (dst @ array) \<and>
    (\<forall>key \<in> set keys. KeyMayMatch key array = Some True)"
  using KeyMayMatch_CreateFilter [OF BloomFilterPolicy_k(2) assms(1) bits_per_key_policy [OF assms(2,3)]]
  by fastforce

theorem bloom_no_false_negative_witness:
  "\<exists>array. CreateFilter (BloomFilterPolicy (\<lambda>b. of_int (b * 69 div 100)) 10) [[1, 2], [3]] [9] = Some ([9] @ array) \<and>
    (\<forall>key \<in> set [[1, 2], [3]]. KeyMayMatch key array = Some True)"
  by (rule bloom_no_false_negative) simp_all

end
