(* ===== verification/DbFormat.thy ===== *)
theory DbFormat
  imports Coding
begin

text \<open>
  \<open>leveldb-library/util/comparator.cc\<close>, \<open>db/dbformat.h\<close> and \<open>db/dbformat.cc\<close>: comparators and
  internal keys. The abstract class \<open>Comparator\<close> is a record of its virtual functions; the two
  subclasses of the code are \<open>BytewiseComparator\<close> and \<open>InternalKeyComparator c\<close>, a function of the
  user's comparator. The functions that change \<open>*start\<close> or \<open>*key\<close> return the new string.

  The code asserts that an internal key has at least 8 bytes; for a shorter one \<open>the None\<close>
  stands for the bytes it would read outside of the key.
\<close>

record Comparator =
  Compare :: "u8 list \<Rightarrow> u8 list \<Rightarrow> int"
  FindShortestSeparator :: "u8 list \<Rightarrow> u8 list \<Rightarrow> u8 list"
  FindShortSuccessor :: "u8 list \<Rightarrow> u8 list"

section \<open>The bytewise comparator\<close>

text \<open>The loop that finds \<open>diff_index\<close>, the length of the common prefix.\<close>

fun diff_index :: "u8 list \<Rightarrow> u8 list \<Rightarrow> nat" where
  "diff_index (a # as) (b # bs) = (if a = b then Suc (diff_index as bs) else 0)"
| "diff_index _ _ = 0"

definition bytewise_separator :: "u8 list \<Rightarrow> u8 list \<Rightarrow> u8 list" where
  "bytewise_separator start limit =
     (let min_length = min (length start) (length limit);
          i = diff_index start limit
      in if min_length \<le> i then start
         else
          (let diff_byte = start ! i in
           if unat diff_byte < 0xff \<and> unat diff_byte + 1 < unat (limit ! i)
           then take (Suc i) (start[i := start ! i + 1])
           else start))"

fun bytewise_successor :: "u8 list \<Rightarrow> u8 list" where
  "bytewise_successor [] = []"
| "bytewise_successor (byte # key) =
     (if byte \<noteq> 0xff then [byte + 1] else byte # bytewise_successor key)"

definition BytewiseComparator :: Comparator where
  "BytewiseComparator = \<lparr>Compare = slice_compare, FindShortestSeparator = bytewise_separator,
     FindShortSuccessor = bytewise_successor\<rparr>"

section \<open>Internal keys\<close>

datatype ValueType = kTypeDeletion | kTypeValue

primrec type_code :: "ValueType \<Rightarrow> u64" where
  "type_code kTypeDeletion = 0"
| "type_code kTypeValue = 1"

definition kValueTypeForSeek :: ValueType where
  "kValueTypeForSeek = kTypeValue"

definition kMaxSequenceNumber :: u64 where
  "kMaxSequenceNumber = push_bit 56 1 - 1"

record ParsedInternalKey =
  user_key :: "u8 list"
  sequence :: u64
  key_type :: ValueType

definition PackSequenceAndType :: "u64 \<Rightarrow> ValueType \<Rightarrow> u64" where
  "PackSequenceAndType seq t = push_bit 8 seq OR type_code t"

definition AppendInternalKey :: "u8 list \<Rightarrow> ParsedInternalKey \<Rightarrow> u8 list" where
  "AppendInternalKey result key =
     PutFixed64 (result @ user_key key) (PackSequenceAndType (sequence key) (key_type key))"

definition InternalKeyEncodingLength :: "ParsedInternalKey \<Rightarrow> nat" where
  "InternalKeyEncodingLength key = length (user_key key) + 8"

definition ExtractUserKey :: "u8 list \<Rightarrow> u8 list" where
  "ExtractUserKey internal_key = take (length internal_key - 8) internal_key"

text \<open>The number packed in the last eight bytes.\<close>

definition key_num :: "u8 list \<Rightarrow> u64" where
  "key_num internal_key = the (DecodeFixed64 (drop (length internal_key - 8) internal_key))"

definition ParseInternalKey :: "u8 list \<Rightarrow> ParsedInternalKey option" where
  "ParseInternalKey internal_key =
     (if length internal_key < 8 then None
      else
       (let num = key_num internal_key;
            c = (ucast (num AND 0xff) :: u8)
        in if c \<le> 1
           then Some \<lparr>user_key = take (length internal_key - 8) internal_key, sequence = drop_bit 8 num,
                      key_type = (if c = 0 then kTypeDeletion else kTypeValue)\<rparr>
           else None))"

section \<open>The comparator of internal keys\<close>

definition internal_compare :: "Comparator \<Rightarrow> u8 list \<Rightarrow> u8 list \<Rightarrow> int" where
  "internal_compare user akey bkey =
     (let r = Compare user (ExtractUserKey akey) (ExtractUserKey bkey) in
      if r = 0 then
        (let anum = key_num akey; bnum = key_num bkey in
         if anum > bnum then - 1 else if anum < bnum then 1 else r)
      else r)"

definition internal_separator :: "Comparator \<Rightarrow> u8 list \<Rightarrow> u8 list \<Rightarrow> u8 list" where
  "internal_separator user start limit =
     (let user_start = ExtractUserKey start;
          user_limit = ExtractUserKey limit;
          tmp = FindShortestSeparator user user_start user_limit
      in if length tmp < length user_start \<and> Compare user user_start tmp < 0
         then PutFixed64 tmp (PackSequenceAndType kMaxSequenceNumber kValueTypeForSeek)
         else start)"

definition internal_successor :: "Comparator \<Rightarrow> u8 list \<Rightarrow> u8 list" where
  "internal_successor user key =
     (let ukey = ExtractUserKey key;
          tmp = FindShortSuccessor user ukey
      in if length tmp < length ukey \<and> Compare user ukey tmp < 0
         then PutFixed64 tmp (PackSequenceAndType kMaxSequenceNumber kValueTypeForSeek)
         else key)"

definition InternalKeyComparator :: "Comparator \<Rightarrow> Comparator" where
  "InternalKeyComparator user =
     \<lparr>Compare = internal_compare user, FindShortestSeparator = internal_separator user,
      FindShortSuccessor = internal_successor user\<rparr>"

section \<open>Lookup keys\<close>

text \<open>The three slices of a \<open>LookupKey\<close> for a user key at a sequence number.\<close>

definition lookup_internal_key :: "u8 list \<Rightarrow> u64 \<Rightarrow> u8 list" where
  "lookup_internal_key ukey s = ukey @ EncodeFixed64 (PackSequenceAndType s kValueTypeForSeek)"

definition lookup_memtable_key :: "u8 list \<Rightarrow> u64 \<Rightarrow> u8 list" where
  "lookup_memtable_key ukey s = EncodeVarint32 (of_nat (length ukey + 8)) @ lookup_internal_key ukey s"

end
