(* ===== verification/SkipList.thy ===== *)
theory SkipList
  imports Prelude
begin

text \<open>
  \<open>leveldb-library/db/skiplist.h\<close> and \<open>util/random.h\<close>. The nodes lie in the list \<open>sl_nodes\<close> in the
  order in which \<open>NewNode\<close> made them (the arena never frees one), and a pointer to a node is its
  index there, \<open>None\<close> for NULL; the head is node 0. \<open>n_next\<close> is the array \<open>next_\<close> of a node, of the
  node's height. Reading or writing past it has no outcome. The template's \<open>Comparator\<close> is the
  argument \<open>cmp\<close>. The barriers of \<open>AtomicPointer\<close> play no role in a sequential execution.
\<close>

section \<open>Random numbers\<close>

definition Random :: "u32 \<Rightarrow> u32" where
  "Random s = (let seed = s AND 0x7fffffff in if seed = 0 \<or> seed = 2147483647 then 1 else seed)"

text \<open>The next number, which is also the new seed.\<close>

definition Random_Next :: "u32 \<Rightarrow> u32" where
  "Random_Next seed =
     (let M = 2147483647 :: u32;
          product = (ucast seed * 16807 :: u64);
          seed = ucast (drop_bit 31 product + (product AND ucast M))
      in if seed > M then seed - M else seed)"

section \<open>Nodes\<close>

record 'k sl_node =
  n_key :: 'k
  n_next :: "nat option list"

record 'k skiplist =
  sl_nodes :: "'k sl_node list"
  sl_max_height :: nat
  sl_rnd :: u32

definition kMaxHeight :: nat where
  "kMaxHeight = 12"

definition sl_key :: "'k skiplist \<Rightarrow> nat \<Rightarrow> 'k" where
  "sl_key sl x = n_key (sl_nodes sl ! x)"

definition sl_Next :: "'k skiplist \<Rightarrow> nat \<Rightarrow> nat \<Rightarrow> nat option option" where
  "sl_Next sl x n =
     (if x < length (sl_nodes sl) \<and> n < length (n_next (sl_nodes sl ! x))
      then Some (n_next (sl_nodes sl ! x) ! n) else None)"

definition sl_SetNext :: "'k skiplist \<Rightarrow> nat \<Rightarrow> nat \<Rightarrow> nat option \<Rightarrow> 'k skiplist option" where
  "sl_SetNext sl x n y =
     (if x < length (sl_nodes sl) \<and> n < length (n_next (sl_nodes sl ! x))
      then Some (sl\<lparr>sl_nodes := (sl_nodes sl)[x := (sl_nodes sl ! x)\<lparr>n_next := (n_next (sl_nodes sl ! x))[n := y]\<rparr>]\<rparr>)
      else None)"

text \<open>The new node, its links not yet set, and its address.\<close>

definition sl_NewNode :: "'k skiplist \<Rightarrow> 'k \<Rightarrow> nat \<Rightarrow> nat \<times> 'k skiplist" where
  "sl_NewNode sl key height =
     (length (sl_nodes sl),
      sl\<lparr>sl_nodes := sl_nodes sl @ [\<lparr>n_key = key, n_next = replicate height None\<rparr>]\<rparr>)"

text \<open>The constructor; \<open>key0\<close> is the key \<open>0 /* any key will do */\<close> of the head.\<close>

definition SkipList :: "'k \<Rightarrow> 'k skiplist" where
  "SkipList key0 =
     \<lparr>sl_nodes = [\<lparr>n_key = key0, n_next = replicate kMaxHeight None\<rparr>], sl_max_height = 1,
      sl_rnd = Random 0xdeadbeef\<rparr>"

function RandomHeight_loop :: "nat \<Rightarrow> u32 \<Rightarrow> nat \<times> u32" where
  "RandomHeight_loop height rnd =
     (if height < kMaxHeight
      then (let rnd = Random_Next rnd in
            if rnd mod 4 = 0 then RandomHeight_loop (Suc height) rnd else (height, rnd))
      else (height, rnd))"
  by pat_completeness auto
termination
  by (relation "measure (\<lambda>(height, rnd). kMaxHeight - height)") auto

declare RandomHeight_loop.simps [simp del]

definition RandomHeight :: "u32 \<Rightarrow> nat \<times> u32" where
  "RandomHeight rnd = RandomHeight_loop 1 rnd"

section \<open>Searching\<close>

text \<open>\<open>prev[level] = x\<close>, where \<open>prev\<close> may be NULL.\<close>

definition prev_store :: "nat option list option \<Rightarrow> nat \<Rightarrow> nat \<Rightarrow> nat option list option option" where
  "prev_store prev level x =
     (case prev of
        None \<Rightarrow> Some None
      | Some p \<Rightarrow> if level < length p then Some (Some (p[level := Some x])) else None)"

text \<open>
  The three searches \<open>FindGreaterOrEqual\<close>, \<open>FindLessThan\<close> and \<open>FindLast\<close> are one loop: it goes on
  in the list of the level while \<open>adv next\<close> and drops to the level below otherwise. It ends with
  the last node it stood on and that node's successor. Whether it ends is a theorem.
\<close>

partial_function (option) sl_walk ::
    "'k skiplist \<Rightarrow> (nat option \<Rightarrow> bool) \<Rightarrow> nat \<Rightarrow> nat \<Rightarrow> nat option list option
      \<Rightarrow> (nat \<times> nat option \<times> nat option list option) option" where
  "sl_walk sl adv x level prev =
     Option.bind (sl_Next sl x level) (\<lambda>nxt.
       if adv nxt then (case nxt of None \<Rightarrow> None | Some y \<Rightarrow> sl_walk sl adv y level prev)
       else Option.bind (prev_store prev level x) (\<lambda>prev.
         if level = 0 then Some (x, nxt, prev) else sl_walk sl adv x (level - 1) prev))"

declare sl_walk.simps [code]

definition KeyIsAfterNode :: "('k \<Rightarrow> 'k \<Rightarrow> int) \<Rightarrow> 'k skiplist \<Rightarrow> 'k \<Rightarrow> nat option \<Rightarrow> bool" where
  "KeyIsAfterNode cmp sl key n = (case n of None \<Rightarrow> False | Some n \<Rightarrow> cmp (sl_key sl n) key < 0)"

definition FindGreaterOrEqual ::
    "('k \<Rightarrow> 'k \<Rightarrow> int) \<Rightarrow> 'k skiplist \<Rightarrow> 'k \<Rightarrow> nat option list option
      \<Rightarrow> (nat option \<times> nat option list option) option" where
  "FindGreaterOrEqual cmp sl key prev =
     map_option snd (sl_walk sl (KeyIsAfterNode cmp sl key) 0 (sl_max_height sl - 1) prev)"

definition FindLessThan :: "('k \<Rightarrow> 'k \<Rightarrow> int) \<Rightarrow> 'k skiplist \<Rightarrow> 'k \<Rightarrow> nat option" where
  "FindLessThan cmp sl key =
     map_option fst (sl_walk sl (\<lambda>nxt. case nxt of None \<Rightarrow> False | Some n \<Rightarrow> \<not> cmp (sl_key sl n) key \<ge> 0)
       0 (sl_max_height sl - 1) None)"

definition FindLast :: "'k skiplist \<Rightarrow> nat option" where
  "FindLast sl = map_option fst (sl_walk sl (\<lambda>nxt. nxt \<noteq> None) 0 (sl_max_height sl - 1) None)"

section \<open>Insertion\<close>

text \<open>\<open>for (int i = 0; i < height; i++)\<close>: the new node \<open>x\<close> is linked behind \<open>prev[i]\<close>.\<close>

primrec insert_links :: "nat option list \<Rightarrow> nat \<Rightarrow> nat list \<Rightarrow> 'k skiplist \<Rightarrow> 'k skiplist option" where
  "insert_links prev x [] sl = Some sl"
| "insert_links prev x (i # is) sl =
     Option.bind (prev ! i) (\<lambda>p.
     Option.bind (sl_Next sl p i) (\<lambda>n.
     Option.bind (sl_SetNext sl x i n) (\<lambda>sl.
     Option.bind (sl_SetNext sl p i (Some x)) (insert_links prev x is))))"

text \<open>The array \<open>prev\<close> starts uninitialised; the \<open>assert\<close> against duplicates is not compiled in.\<close>

definition sl_Insert :: "('k \<Rightarrow> 'k \<Rightarrow> int) \<Rightarrow> 'k skiplist \<Rightarrow> 'k \<Rightarrow> 'k skiplist option" where
  "sl_Insert cmp sl key =
     Option.bind (FindGreaterOrEqual cmp sl key (Some (replicate kMaxHeight None))) (\<lambda>(_, prev).
       let (height, rnd) = RandomHeight (sl_rnd sl);
           sl = sl\<lparr>sl_rnd := rnd\<rparr>;
           prev = foldl (\<lambda>p i. p[i := Some 0]) (the prev) [sl_max_height sl..<height];
           sl = (if height > sl_max_height sl then sl\<lparr>sl_max_height := height\<rparr> else sl);
           (x, sl) = sl_NewNode sl key height
       in insert_links prev x [0..<height] sl)"

definition sl_Contains :: "('k \<Rightarrow> 'k \<Rightarrow> int) \<Rightarrow> 'k skiplist \<Rightarrow> 'k \<Rightarrow> bool option" where
  "sl_Contains cmp sl key =
     map_option (\<lambda>(x, _). case x of None \<Rightarrow> False | Some x \<Rightarrow> cmp key (sl_key sl x) = 0)
       (FindGreaterOrEqual cmp sl key None)"

section \<open>Iterators\<close>

text \<open>
  An iterator is its node, \<open>None\<close> when it is not valid; the operations return the new node.
  \<open>key\<close>, \<open>Next\<close> and \<open>Prev\<close> require a valid iterator.
\<close>

definition it_Valid :: "nat option \<Rightarrow> bool" where
  "it_Valid node \<longleftrightarrow> node \<noteq> None"

definition it_key :: "'k skiplist \<Rightarrow> nat option \<Rightarrow> 'k option" where
  "it_key sl node = map_option (sl_key sl) node"

definition it_Next :: "'k skiplist \<Rightarrow> nat option \<Rightarrow> nat option option" where
  "it_Next sl node = Option.bind node (\<lambda>x. sl_Next sl x 0)"

definition it_Prev :: "('k \<Rightarrow> 'k \<Rightarrow> int) \<Rightarrow> 'k skiplist \<Rightarrow> nat option \<Rightarrow> nat option option" where
  "it_Prev cmp sl node =
     Option.bind node (\<lambda>x. map_option (\<lambda>y. if y = 0 then None else Some y) (FindLessThan cmp sl (sl_key sl x)))"

definition it_Seek :: "('k \<Rightarrow> 'k \<Rightarrow> int) \<Rightarrow> 'k skiplist \<Rightarrow> 'k \<Rightarrow> nat option option" where
  "it_Seek cmp sl target = map_option fst (FindGreaterOrEqual cmp sl target None)"

definition it_SeekToFirst :: "'k skiplist \<Rightarrow> nat option option" where
  "it_SeekToFirst sl = sl_Next sl 0 0"

definition it_SeekToLast :: "'k skiplist \<Rightarrow> nat option option" where
  "it_SeekToLast sl = map_option (\<lambda>y. if y = 0 then None else Some y) (FindLast sl)"

end
