(* ===== verification/MemTable.thy ===== *)
theory MemTable
  imports DbFormat SkipList
begin

text \<open>
  \<open>leveldb-library/db/memtable.cc\<close>: the table of the most recent writes, a skip list of entries
  ordered by their internal keys. A \<open>const char*\<close> to an entry is the list of the entry's bytes.
  \<open>user\<close> is the user's comparator; reference counts and the arena's memory usage are left out.
\<close>

text \<open>\<open>GetLengthPrefixedSlice(const char* data)\<close>, with what follows the slice; an entry is never corrupted.\<close>

definition mem_slice :: "u8 list \<Rightarrow> (u8 list \<times> u8 list) option" where
  "mem_slice data =
     map_option (\<lambda>(len, p). (take (unat len) p, drop (unat len) p)) (GetVarint32Ptr data)"

text \<open>\<open>MemTable::KeyComparator\<close>.\<close>

definition mem_compare :: "Comparator \<Rightarrow> u8 list \<Rightarrow> u8 list \<Rightarrow> int" where
  "mem_compare user aptr bptr =
     Compare (InternalKeyComparator user) (fst (the (mem_slice aptr))) (fst (the (mem_slice bptr)))"

definition EncodeKey :: "u8 list \<Rightarrow> u8 list" where
  "EncodeKey target = PutVarint32 [] (of_nat (length target)) @ target"

type_synonym memtable = "u8 list skiplist"

definition MemTable :: memtable where
  "MemTable = SkipList []"

section \<open>Adding an entry\<close>

definition encoded_len :: "u8 list \<Rightarrow> u8 list \<Rightarrow> int" where
  "encoded_len key value =
     (let internal_key_size = length key + 8
      in VarintLength (of_nat internal_key_size) + int internal_key_size +
         VarintLength (of_nat (length value)) + int (length value))"

definition mem_entry :: "u64 \<Rightarrow> ValueType \<Rightarrow> u8 list \<Rightarrow> u8 list \<Rightarrow> u8 list" where
  "mem_entry s t key value =
     EncodeVarint32 (of_nat (length key + 8)) @ key @ EncodeFixed64 (push_bit 8 s OR type_code t) @
     EncodeVarint32 (of_nat (length value)) @ value"

text \<open>The entry is written into \<open>encoded_len\<close> bytes of the arena; a longer one would not fit.\<close>

definition MemTable_Add ::
    "Comparator \<Rightarrow> memtable \<Rightarrow> u64 \<Rightarrow> ValueType \<Rightarrow> u8 list \<Rightarrow> u8 list \<Rightarrow> memtable option" where
  "MemTable_Add user mem s t key value =
     (if int (length (mem_entry s t key value)) \<le> encoded_len key value
      then sl_Insert (mem_compare user) mem (mem_entry s t key value) else None)"

section \<open>Looking up a key\<close>

text \<open>\<open>Found v\<close>: true and the value; \<open>Deleted\<close>: true and \<open>Status::NotFound\<close>; \<open>Missing\<close>: false.\<close>

datatype get_result = Found "u8 list" | Deleted | Missing

definition MemTable_Get :: "Comparator \<Rightarrow> memtable \<Rightarrow> u8 list \<Rightarrow> u64 \<Rightarrow> get_result option" where
  "MemTable_Get user mem ukey s =
     Option.bind (it_Seek (mem_compare user) mem (lookup_memtable_key ukey s)) (\<lambda>iter.
       case it_key mem iter of
         None \<Rightarrow> Some Missing
       | Some entry \<Rightarrow>
          Option.bind (GetVarint32Ptr entry) (\<lambda>(key_length, key_ptr).
            if Compare user (take (unat (key_length - 8)) key_ptr) ukey = 0
            then Option.bind (DecodeFixed64 (drop (unat key_length - 8) key_ptr)) (\<lambda>tag.
              if tag AND 0xff = type_code kTypeValue
              then map_option (\<lambda>(v, _). Found v) (mem_slice (drop (unat key_length) key_ptr))
              else if tag AND 0xff = type_code kTypeDeletion then Some Deleted
              else Some Missing)
            else Some Missing))"

section \<open>Iterators\<close>

definition mem_Seek :: "Comparator \<Rightarrow> memtable \<Rightarrow> u8 list \<Rightarrow> nat option option" where
  "mem_Seek user mem k = it_Seek (mem_compare user) mem (EncodeKey k)"

definition mem_key :: "memtable \<Rightarrow> nat option \<Rightarrow> u8 list option" where
  "mem_key mem iter = Option.bind (it_key mem iter) (\<lambda>entry. map_option fst (mem_slice entry))"

definition mem_value :: "memtable \<Rightarrow> nat option \<Rightarrow> u8 list option" where
  "mem_value mem iter =
     Option.bind (it_key mem iter) (\<lambda>entry.
     Option.bind (mem_slice entry) (\<lambda>(_, rest). map_option fst (mem_slice rest)))"

end
