(* ===== verification/Status.thy ===== *)
theory Status
  imports Main
begin

text \<open>
  \<open>leveldb-library/util/status.cc\<close> and \<open>include/leveldb/status.h\<close>: the result of an operation. A
  \<open>Status\<close> is \<open>OK\<close>, the NULL state, or a code with a message.
\<close>

datatype StatusCode = kNotFound | kCorruption | kNotSupported | kInvalidArgument | kIOError

datatype Status = OK | StatusError StatusCode string

text \<open>The constructor that joins two messages.\<close>

definition make_Status :: "StatusCode \<Rightarrow> string \<Rightarrow> string \<Rightarrow> Status" where
  "make_Status code msg msg2 = StatusError code (msg @ (if msg2 \<noteq> [] then '': '' @ msg2 else []))"

definition Status_NotFound :: "string \<Rightarrow> Status" where
  "Status_NotFound msg = make_Status kNotFound msg []"

definition Status_Corruption :: "string \<Rightarrow> Status" where
  "Status_Corruption msg = make_Status kCorruption msg []"

definition Status_InvalidArgument :: "string \<Rightarrow> string \<Rightarrow> Status" where
  "Status_InvalidArgument msg msg2 = make_Status kInvalidArgument msg msg2"

definition Status_IOError :: "string \<Rightarrow> string \<Rightarrow> Status" where
  "Status_IOError msg msg2 = make_Status kIOError msg msg2"

definition Status_ok :: "Status \<Rightarrow> bool" where
  "Status_ok s \<longleftrightarrow> s = OK"

primrec Status_ToString :: "Status \<Rightarrow> string" where
  "Status_ToString OK = ''OK''"
| "Status_ToString (StatusError code msg) =
     (case code of kNotFound \<Rightarrow> ''NotFound: '' | kCorruption \<Rightarrow> ''Corruption: ''
      | kNotSupported \<Rightarrow> ''Not implemented: '' | kInvalidArgument \<Rightarrow> ''Invalid argument: ''
      | kIOError \<Rightarrow> ''IO error: '') @ msg"

lemma Status_ok_simps [simp]: "Status_ok OK" "\<not> Status_ok (StatusError code msg)"
  by (simp_all add: Status_ok_def)

lemma errors_not_OK [simp]: "make_Status code msg msg2 \<noteq> OK" "Status_Corruption msg \<noteq> OK"
  "Status_IOError msg msg2 \<noteq> OK" "Status_NotFound msg \<noteq> OK"
  by (simp_all add: make_Status_def Status_Corruption_def Status_IOError_def Status_NotFound_def)

end
