(* ===== verification/WriteBatch.thy ===== *)
theory WriteBatch
  imports MemTable Status
begin

text \<open>
  \<open>leveldb-library/db/write_batch.cc\<close> and \<open>write_batch_internal.h\<close>: batches of writes. A batch is its
  \<open>rep_\<close>: a sequence number of 8 bytes, a count of 4 bytes and the records. The class \<open>Handler\<close> is a
  function that applies one operation to the handler's state. Reads of the header of a batch
  shorter than it have no outcome.
\<close>

section \<open>Batches\<close>

type_synonym write_batch = "u8 list"

definition kHeader :: nat where
  "kHeader = 12"

text \<open>\<open>Clear\<close>, also the constructor: \<open>resize\<close> fills the header with zeros.\<close>

definition WB_Clear :: write_batch where
  "WB_Clear = replicate kHeader 0"

definition WB_Count :: "write_batch \<Rightarrow> int option" where
  "WB_Count b = map_option sint (DecodeFixed32 (drop 8 b))"

definition WB_SetCount :: "write_batch \<Rightarrow> int \<Rightarrow> write_batch" where
  "WB_SetCount b n = take 8 b @ EncodeFixed32 (of_int n) @ drop 12 b"

definition WB_Sequence :: "write_batch \<Rightarrow> u64 option" where
  "WB_Sequence b = DecodeFixed64 b"

definition WB_SetSequence :: "write_batch \<Rightarrow> u64 \<Rightarrow> write_batch" where
  "WB_SetSequence b seq = EncodeFixed64 seq @ drop 8 b"

text \<open>The sum of two \<open>int\<close>s; a signed overflow has no outcome.\<close>

definition int_add :: "int \<Rightarrow> int \<Rightarrow> int option" where
  "int_add a b = (if - (2 ^ 31) \<le> a + b \<and> a + b < 2 ^ 31 then Some (a + b) else None)"

definition WB_Put :: "write_batch \<Rightarrow> u8 list \<Rightarrow> u8 list \<Rightarrow> write_batch option" where
  "WB_Put b key value = Option.bind (WB_Count b) (\<lambda>count. map_option (\<lambda>n.
     let rep = WB_SetCount b n @ [ucast (type_code kTypeValue)]
     in PutLengthPrefixedSlice (PutLengthPrefixedSlice rep key) value) (int_add count 1))"

definition WB_Delete :: "write_batch \<Rightarrow> u8 list \<Rightarrow> write_batch option" where
  "WB_Delete b key = Option.bind (WB_Count b) (\<lambda>count. map_option (\<lambda>n.
     let rep = WB_SetCount b n @ [ucast (type_code kTypeDeletion)]
     in PutLengthPrefixedSlice rep key) (int_add count 1))"

definition WB_Append :: "write_batch \<Rightarrow> write_batch \<Rightarrow> write_batch option" where
  "WB_Append dst src = Option.bind (WB_Count dst) (\<lambda>n. Option.bind (WB_Count src) (\<lambda>m.
     map_option (\<lambda>s. WB_SetCount dst s @ drop kHeader src) (int_add n m)))"

definition WB_SetContents :: "u8 list \<Rightarrow> write_batch option" where
  "WB_SetContents contents = (if kHeader \<le> length contents then Some contents else None)"

section \<open>Iteration\<close>

datatype batch_op = PutOp "u8 list" "u8 list" | DeleteOp "u8 list"

lemma length_GetLengthPrefixedSlice_Suc:
  "(r, input') = GetLengthPrefixedSlice input \<Longrightarrow> length input' < Suc (length input)"
  "(r, input') = GetLengthPrefixedSlice input \<Longrightarrow> (r', input'') = GetLengthPrefixedSlice input' \<Longrightarrow>
    length input'' < Suc (length input)"
  using length_GetLengthPrefixedSlice [of input] length_GetLengthPrefixedSlice [of input']
  by (metis less_Suc_eq_le order_trans snd_conv)+

text \<open>
  The loop: \<open>found\<close> and the state of the handler; it ends with the status of an error, or \<open>OK\<close>
  at the end of the records.
\<close>

function batch_loop ::
    "(batch_op \<Rightarrow> 'h \<Rightarrow> 'h option) \<Rightarrow> int \<Rightarrow> u8 list \<Rightarrow> 'h \<Rightarrow> (Status \<times> int \<times> 'h) option" where
  "batch_loop handler found [] h = Some (OK, found, h)"
| "batch_loop handler found (tag # input) h =
     Option.bind (int_add found 1) (\<lambda>found.
      if tag = ucast (type_code kTypeValue) then
        (case GetLengthPrefixedSlice input of
           (Some key, input1) \<Rightarrow>
             (case GetLengthPrefixedSlice input1 of
                (Some val, input2) \<Rightarrow>
                  Option.bind (handler (PutOp key val) h) (batch_loop handler found input2)
              | (None, _) \<Rightarrow> Some (Status_Corruption ''bad WriteBatch Put'', found, h))
         | (None, _) \<Rightarrow> Some (Status_Corruption ''bad WriteBatch Put'', found, h))
      else if tag = ucast (type_code kTypeDeletion) then
        (case GetLengthPrefixedSlice input of
           (Some key, input1) \<Rightarrow>
             Option.bind (handler (DeleteOp key) h) (batch_loop handler found input1)
         | (None, _) \<Rightarrow> Some (Status_Corruption ''bad WriteBatch Delete'', found, h))
      else Some (Status_Corruption ''unknown WriteBatch tag'', found, h))"
  by pat_completeness auto
termination
  by (relation "measure (\<lambda>(handler, found, input, h). length input)")
    (auto intro: length_GetLengthPrefixedSlice_Suc)

text \<open>The status, and the handler's state after the operations it was given.\<close>

definition WB_Iterate ::
    "(batch_op \<Rightarrow> 'h \<Rightarrow> 'h option) \<Rightarrow> write_batch \<Rightarrow> 'h \<Rightarrow> (Status \<times> 'h) option" where
  "WB_Iterate handler b h =
     (if length b < kHeader then Some (Status_Corruption ''malformed WriteBatch (too small)'', h)
      else
        Option.bind (batch_loop handler 0 (drop kHeader b) h) (\<lambda>(status, found, h).
          if status \<noteq> OK then Some (status, h)
          else map_option (\<lambda>count.
            (if found \<noteq> count then Status_Corruption ''WriteBatch has wrong count'' else OK, h)) (WB_Count b)))"

section \<open>Applying a batch to a memtable\<close>

text \<open>\<open>MemTableInserter\<close>; its state is the next sequence number and the memtable.\<close>

fun MemTableInserter :: "Comparator \<Rightarrow> batch_op \<Rightarrow> u64 \<times> memtable \<Rightarrow> (u64 \<times> memtable) option" where
  "MemTableInserter user (PutOp key value) (seq, mem) =
     map_option (\<lambda>mem. (seq + 1, mem)) (MemTable_Add user mem seq kTypeValue key value)"
| "MemTableInserter user (DeleteOp key) (seq, mem) =
     map_option (\<lambda>mem. (seq + 1, mem)) (MemTable_Add user mem seq kTypeDeletion key [])"

definition WB_InsertInto :: "Comparator \<Rightarrow> write_batch \<Rightarrow> memtable \<Rightarrow> (Status \<times> memtable) option" where
  "WB_InsertInto user b mem =
     Option.bind (WB_Sequence b) (\<lambda>seq.
       map_option (\<lambda>(status, _, mem). (status, mem)) (WB_Iterate (MemTableInserter user) b (seq, mem)))"

end
