(* ===== verification/KeyOrder.thy ===== *)
theory KeyOrder
  imports Main
begin

text \<open>
  The contract of a three-way comparison: a total preorder. The skip list and the iterators need
  no more of the comparator they are given; the comparators of the code keep it.
\<close>

locale key_order =
  fixes cmp :: "'k \<Rightarrow> 'k \<Rightarrow> int"
  assumes flip: "cmp a b < 0 \<longleftrightarrow> 0 < cmp b a"
    and le_trans: "cmp a b \<le> 0 \<Longrightarrow> cmp b d \<le> 0 \<Longrightarrow> cmp a d \<le> 0"
begin

lemma refl [simp]: "cmp a a = 0"
  using flip [of a a] by linarith

lemma eq_sym: "cmp a b = 0 \<longleftrightarrow> cmp b a = 0"
  using flip [of a b] flip [of b a] by linarith

lemma not_less: "\<not> cmp a b < 0 \<longleftrightarrow> cmp b a \<le> 0"
  using flip [of a b] by linarith

lemma not_le: "\<not> cmp a b \<le> 0 \<longleftrightarrow> cmp b a < 0"
  using flip [of b a] by linarith

lemma less_le_trans: "cmp a b < 0 \<Longrightarrow> cmp b d \<le> 0 \<Longrightarrow> cmp a d < 0"
  by (metis le_trans not_less)

lemma le_less_trans: "cmp a b \<le> 0 \<Longrightarrow> cmp b d < 0 \<Longrightarrow> cmp a d < 0"
  by (metis le_trans not_less)

lemma less_trans: "cmp a b < 0 \<Longrightarrow> cmp b d < 0 \<Longrightarrow> cmp a d < 0"
  by (metis le_less_trans less_imp_le)

lemma eq_trans: "cmp a b = 0 \<Longrightarrow> cmp b d = 0 \<Longrightarrow> cmp a d = 0"
  by (metis antisym_conv2 eq_sym le_trans not_less order_refl)

text \<open>A sorted list falls into the part below a key and the part from it on.\<close>

lemma sorted_split:
  assumes "sorted_wrt (\<lambda>x y. cmp (f x) (f y) < 0) xs"
  shows "x \<in> set (takeWhile (\<lambda>x. cmp (f x) k < 0) xs) \<Longrightarrow> cmp (f x) k < 0"
    and "x \<in> set (dropWhile (\<lambda>x. cmp (f x) k < 0) xs) \<Longrightarrow> cmp k (f x) \<le> 0"
proof -
  show "x \<in> set (takeWhile (\<lambda>x. cmp (f x) k < 0) xs) \<Longrightarrow> cmp (f x) k < 0"
    by (auto dest: set_takeWhileD)
  show "x \<in> set (dropWhile (\<lambda>x. cmp (f x) k < 0) xs) \<Longrightarrow> cmp k (f x) \<le> 0"
    using assms
  proof (induction xs)
    case (Cons y xs)
    show ?case
    proof (cases "cmp (f y) k < 0")
      case False
      then have "cmp k (f y) \<le> 0" by (simp add: not_less)
      moreover have "x = y \<or> cmp (f y) (f x) < 0" using Cons.prems False by auto
      ultimately show ?thesis using le_less_trans [of k "f y" "f x"] by auto
    qed (use Cons in auto)
  qed simp
qed

end

text \<open>Insertion into a sorted list.\<close>

definition insert_sorted :: "('k \<Rightarrow> 'k \<Rightarrow> int) \<Rightarrow> 'k \<Rightarrow> 'k list \<Rightarrow> 'k list" where
  "insert_sorted cmp k ks = takeWhile (\<lambda>a. cmp a k < 0) ks @ k # dropWhile (\<lambda>a. cmp a k < 0) ks"

lemma set_insert_sorted [simp]: "set (insert_sorted cmp k ks) = insert k (set ks)"
  unfolding insert_sorted_def by (metis Un_insert_right list.simps(15) set_append takeWhile_dropWhile_id)

lemma length_insert_sorted [simp]: "length (insert_sorted cmp k ks) = Suc (length ks)"
proof -
  have "length (takeWhile P ks) + length (dropWhile P ks) = length ks" for P
    by (metis length_append takeWhile_dropWhile_id)
  then show ?thesis by (simp add: insert_sorted_def)
qed

end
