(* ===== verification/DbFormatSpec.thy ===== *)
theory DbFormatSpec
  imports DbFormat CodingSpec KeyOrder
begin

text \<open>
  The contract of a comparator as \<open>comparator.h\<close> states it, as a locale: a total order on strings,
  a separator between two strings in order, a successor that is not smaller. The bytewise
  comparator keeps it, and the comparator of internal keys keeps it when the user's does.
\<close>

named_theorems cmp_simps

locale comparator = key_order "Compare c" for c :: Comparator +
  assumes separator_less: "Compare c start limit < 0 \<Longrightarrow>
      Compare c start (FindShortestSeparator c start limit) \<le> 0 \<and>
      Compare c (FindShortestSeparator c start limit) limit < 0"
    and separator_equal: "Compare c start limit = 0 \<Longrightarrow>
      Compare c start (FindShortestSeparator c start limit) = 0"
    and successor: "Compare c key (FindShortSuccessor c key) \<le> 0"

section \<open>The bytewise order\<close>

lemma slice_compare_simps [simp, cmp_simps]:
  "slice_compare [] [] = 0" "slice_compare [] (b # bs) = - 1" "slice_compare (a # as) [] = 1"
  "slice_compare (a # as) (b # bs) = (if a = b then slice_compare as bs else if a < b then - 1 else 1)"
  by (auto simp: slice_compare_def Let_def)

lemma slice_compare_eq [cmp_simps]: "slice_compare a b = 0 \<longleftrightarrow> a = b"
  by (induction a b rule: memcmp.induct) (auto simp: neq_Nil_conv split: if_splits, (metis list.exhaust slice_compare_simps(2,3) zero_neq_neg_one zero_neq_one)+)

lemma slice_compare_refl [simp, cmp_simps]: "slice_compare a a = 0"
  by (simp add: slice_compare_eq)

lemma slice_compare_flip: "slice_compare a b < 0 \<longleftrightarrow> 0 < slice_compare b a"
proof (induction a arbitrary: b)
  case (Cons x a)
  then show ?case by (cases b) auto
qed (metis list.exhaust neg_less_0_iff_less slice_compare_simps(1-3) zero_less_one)

lemma slice_compare_le_trans: "slice_compare a b \<le> 0 \<Longrightarrow> slice_compare b d \<le> 0 \<Longrightarrow> slice_compare a d \<le> 0"
proof (induction a arbitrary: b d)
  case Nil
  then show ?case by (cases d) simp_all
next
  case (Cons x a)
  then show ?case by (cases b; cases d) (auto split: if_splits)
qed

lemma bytewise_separator_simps:
  "bytewise_separator [] limit = []" "bytewise_separator start [] = start"
  "bytewise_separator (a # start) (b # limit) =
     (if a = b then a # bytewise_separator start limit
      else if unat a < 0xff \<and> unat a + 1 < unat b then [a + 1] else a # start)"
  by (simp_all add: bytewise_separator_def Let_def)

lemma plus1_order: "unat (a :: u8) + 1 < unat b \<Longrightarrow> a < a + 1 \<and> a + 1 < b"
proof -
  assume ab: "unat a + 1 < unat b"
  moreover have "unat b < 256" using unsigned_less [of b, where ?'a = nat] by simp
  ultimately have "unat (a + 1) = unat a + 1" by (simp add: unat_word_ariths)
  with ab show ?thesis by (simp add: word_less_nat_alt)
qed

lemma bytewise_separator_less:
  "slice_compare start limit < 0 \<Longrightarrow> slice_compare start (bytewise_separator start limit) \<le> 0 \<and>
     slice_compare (bytewise_separator start limit) limit < 0"
proof (induction start arbitrary: limit)
  case Nil
  then show ?case by (simp add: bytewise_separator_simps)
next
  case (Cons a start)
  show ?case
  proof (cases limit)
    case (Cons b lim)
    show ?thesis
    proof (cases "unat a + 1 < unat b")
      case True
      then show ?thesis
        using plus1_order [OF True] Cons.prems Cons.IH [of lim] \<open>limit = b # lim\<close>
          unsigned_less [of b, where ?'a = nat] by (auto simp: bytewise_separator_simps)
    next
      case False
      then show ?thesis
        using Cons.prems Cons.IH [of lim] \<open>limit = b # lim\<close>
        by (auto simp: bytewise_separator_simps split: if_splits)
    qed
  qed (use Cons.prems in simp)
qed

lemma length_bytewise_separator: "length (bytewise_separator start limit) \<le> length start"
  by (auto simp: bytewise_separator_def Let_def)

lemma bytewise_successor_le: "slice_compare key (bytewise_successor key) \<le> 0"
proof (induction key)
  case (Cons b key)
  have "b < b + 1" if "b \<noteq> 0xff"
  proof -
    have "unat b < 256" "unat b \<noteq> 255"
      using unsigned_less [of b, where ?'a = nat] that by (auto simp: word_unat_eq_iff)
    then have "unat (b + 1) = unat b + 1" by (simp add: unat_word_ariths)
    then show ?thesis by (simp add: word_less_nat_alt)
  qed
  with Cons show ?case by auto
qed simp

lemma Bytewise_simps [simp, cmp_simps]:
  "Compare BytewiseComparator = slice_compare"
  "FindShortestSeparator BytewiseComparator = bytewise_separator"
  "FindShortSuccessor BytewiseComparator = bytewise_successor"
  by (simp_all add: BytewiseComparator_def)

lemma diff_index_refl: "diff_index s s = length s"
  by (induction s) simp_all

interpretation bytewise: comparator BytewiseComparator
proof unfold_locales
  fix a b d start limit key
  show "Compare BytewiseComparator a b < 0 \<longleftrightarrow> 0 < Compare BytewiseComparator b a"
    using slice_compare_flip by simp
  show "Compare BytewiseComparator a b \<le> 0 \<Longrightarrow> Compare BytewiseComparator b d \<le> 0 \<Longrightarrow>
      Compare BytewiseComparator a d \<le> 0"
    using slice_compare_le_trans by simp
  show "Compare BytewiseComparator start limit < 0 \<Longrightarrow>
      Compare BytewiseComparator start (FindShortestSeparator BytewiseComparator start limit) \<le> 0 \<and>
      Compare BytewiseComparator (FindShortestSeparator BytewiseComparator start limit) limit < 0"
    using bytewise_separator_less by simp
  show "Compare BytewiseComparator start limit = 0 \<Longrightarrow>
      Compare BytewiseComparator start (FindShortestSeparator BytewiseComparator start limit) = 0"
    by (simp add: slice_compare_eq) (simp add: bytewise_separator_def diff_index_refl)
  show "Compare BytewiseComparator key (FindShortSuccessor BytewiseComparator key) \<le> 0"
    using bytewise_successor_le by simp
qed

section \<open>Internal keys\<close>

lemma ExtractUserKey_append [simp, cmp_simps]: "ExtractUserKey (ukey @ EncodeFixed64 n) = ukey"
  by (simp add: ExtractUserKey_def)

lemma key_num_append [simp, cmp_simps]: "key_num (ukey @ EncodeFixed64 n) = n"
  using DecodeFixed64_Encode [of n "[]"] by (simp add: key_num_def)

lemma word_of_bytes_high: "bit (word_of_bytes bs :: 'a::len word) n \<Longrightarrow> n < 8 * length bs"
proof (induction bs arbitrary: n)
  case (Cons b bs)
  from Cons.prems Cons.IH [of "n - 8"] show ?case
    by (auto simp: bit_simps dest: bit_imp_le_length)
qed simp

lemma bytes_of_word_of_bytes:
  "8 * length bs \<le> LENGTH('a) \<Longrightarrow> bytes_of_word (length bs) (word_of_bytes bs :: 'a::len word) = bs"
proof (induction bs)
  case (Cons b bs)
  have "(ucast (ucast b OR push_bit 8 (word_of_bytes bs) :: 'a word) :: u8) = b"
    by (rule bit_word_eqI) (use Cons.prems in \<open>auto simp: bit_simps\<close>)
  moreover have "drop_bit 8 (ucast b OR push_bit 8 (word_of_bytes bs)) = (word_of_bytes bs :: 'a word)"
  proof (rule bit_word_eqI)
    fix n assume "n < LENGTH('a)"
    then show "bit (drop_bit 8 (ucast b OR push_bit 8 (word_of_bytes bs)) :: 'a word) n = bit (word_of_bytes bs :: 'a word) n"
      using Cons.prems word_of_bytes_high [of bs n, where ?'a = 'a]
      by (auto simp: bit_simps dest: bit_imp_le_length)
  qed
  ultimately show ?case using Cons by simp
qed simp

lemma internal_key_cases:
  assumes "8 \<le> length k"
  shows "k = ExtractUserKey k @ EncodeFixed64 (key_num k)"
proof -
  let ?t = "drop (length k - 8) k"
  have "length ?t = 8" using assms by simp
  have "EncodeFixed64 (word_of_bytes ?t) = ?t"
    using bytes_of_word_of_bytes [of ?t, where ?'a = 64] \<open>length ?t = 8\<close>
    by (simp add: EncodeFixed64_def kLittleEndian_def)
  then show ?thesis
    using \<open>length ?t = 8\<close> by (simp add: ExtractUserKey_def key_num_def DecodeFixed64_def kLittleEndian_def)
qed

text \<open>Sequence number and type are packed without loss, and in the order of the pairs.\<close>

lemma unat_Pack:
  "s \<le> kMaxSequenceNumber \<Longrightarrow> unat (PackSequenceAndType s t) = 256 * unat s + unat (type_code t)"
proof -
  assume s: "s \<le> kMaxSequenceNumber"
  then have small: "unat s < 2 ^ 56" by (simp add: kMaxSequenceNumber_def word_le_nat_alt)
  have "push_bit 8 s AND type_code t = 0"
    by (cases t) (auto intro!: bit_word_eqI simp: bit_simps bit_1_iff)
  then have "PackSequenceAndType s t = push_bit 8 s + type_code t"
    by (simp add: PackSequenceAndType_def disjunctive_add_eq_or)
  moreover have "unat (push_bit 8 s) = 256 * unat s"
    using small by (simp add: push_bit_eq_mult unat_word_ariths)
  moreover have "unat (type_code t) \<le> 1" by (cases t) simp_all
  ultimately show ?thesis using small by (simp add: unat_word_ariths)
qed

lemma Pack_le: "s \<le> kMaxSequenceNumber \<Longrightarrow> s' \<le> kMaxSequenceNumber \<Longrightarrow>
    PackSequenceAndType s t \<le> PackSequenceAndType s' kTypeValue \<longleftrightarrow> s \<le> s'"
  by (cases t) (auto simp: word_le_nat_alt unat_Pack)

lemma Parse_Append:
  assumes "s \<le> kMaxSequenceNumber"
  shows "ParseInternalKey (AppendInternalKey [] \<lparr>user_key = u, sequence = s, key_type = t\<rparr>) =
    Some \<lparr>user_key = u, sequence = s, key_type = t\<rparr>"
proof -
  let ?n = "PackSequenceAndType s t"
  have n: "unat ?n = 256 * unat s + unat (type_code t)" "unat (type_code t) \<le> 1"
    using unat_Pack [OF assms] by (simp, cases t) simp_all
  have "drop_bit 8 ?n = s"
    using n by (simp add: word_unat_eq_iff unat_drop_bit_div)
  moreover have "unat (ucast (?n AND 0xff) :: u8) = unat (type_code t)"
  proof -
    have "unat (?n AND 0xff) = unat ?n mod 2 ^ 8" unfolding and_ff by (rule unat_take_bit_mod)
    then show ?thesis using n by (simp add: unsigned_ucast_eq take_bit_eq_mod)
  qed
  then have "(ucast (?n AND 0xff) :: u8) = (case t of kTypeDeletion \<Rightarrow> 0 | kTypeValue \<Rightarrow> 1)"
    by (cases t) (simp_all add: word_unat_eq_iff)
  ultimately show ?thesis
    by (cases t) (simp_all add: ParseInternalKey_def AppendInternalKey_def PutFixed64_def Let_def)
qed

context comparator
begin

lemma internal_le_iff: "internal_compare c a b \<le> 0 \<longleftrightarrow>
    Compare c (ExtractUserKey a) (ExtractUserKey b) < 0 \<or>
    Compare c (ExtractUserKey a) (ExtractUserKey b) = 0 \<and> key_num b \<le> key_num a"
  by (auto simp: internal_compare_def Let_def)

lemma internal_less_iff: "internal_compare c a b < 0 \<longleftrightarrow>
    Compare c (ExtractUserKey a) (ExtractUserKey b) < 0 \<or>
    Compare c (ExtractUserKey a) (ExtractUserKey b) = 0 \<and> key_num b < key_num a"
  by (auto simp: internal_compare_def Let_def)

lemma internal_separator:
  assumes "internal_compare c start limit \<le> 0"
  shows "internal_separator c start limit = start \<or>
    internal_compare c start (internal_separator c start limit) < 0 \<and>
    internal_compare c (internal_separator c start limit) limit < 0"
proof (cases "Compare c (ExtractUserKey start) (ExtractUserKey limit) < 0")
  case True
  then show ?thesis
    using separator_less [OF True]
    by (simp add: internal_separator_def internal_less_iff Let_def PutFixed64_def)
next
  case False
  then have "Compare c (ExtractUserKey start) (ExtractUserKey limit) = 0"
    using assms by (auto simp: internal_le_iff)
  from separator_equal [OF this] show ?thesis
    by (simp add: internal_separator_def Let_def)
qed

lemma internal_separator_equal:
  assumes "internal_compare c start limit = 0"
  shows "internal_separator c start limit = start"
proof -
  have "Compare c (ExtractUserKey start) (ExtractUserKey limit) = 0"
    using assms by (auto simp: internal_compare_def Let_def split: if_splits)
  from separator_equal [OF this] show ?thesis
    by (simp add: internal_separator_def Let_def)
qed

lemma internal_flip: "internal_compare c a b < 0 \<longleftrightarrow> 0 < internal_compare c b a"
  using flip [of "ExtractUserKey a" "ExtractUserKey b"] flip [of "ExtractUserKey b" "ExtractUserKey a"]
  by (auto simp: internal_compare_def Let_def)

lemma internal_refl: "internal_compare c a a = 0"
  by (simp add: internal_compare_def Let_def)

lemma internal_comparator: "comparator (InternalKeyComparator c)"
proof
  fix a b d start limit key
  show "Compare (InternalKeyComparator c) a b < 0 \<longleftrightarrow> 0 < Compare (InternalKeyComparator c) b a"
    using internal_flip by (simp add: InternalKeyComparator_def)
  show "Compare (InternalKeyComparator c) a b \<le> 0 \<Longrightarrow> Compare (InternalKeyComparator c) b d \<le> 0 \<Longrightarrow>
      Compare (InternalKeyComparator c) a d \<le> 0"
    using less_trans [of "ExtractUserKey a" "ExtractUserKey b" "ExtractUserKey d"]
      less_le_trans [of "ExtractUserKey a" "ExtractUserKey b" "ExtractUserKey d"]
      le_less_trans [of "ExtractUserKey a" "ExtractUserKey b" "ExtractUserKey d"]
      eq_trans [of "ExtractUserKey a" "ExtractUserKey b" "ExtractUserKey d"]
    by (auto simp: InternalKeyComparator_def internal_le_iff)
  show "Compare (InternalKeyComparator c) start limit < 0 \<Longrightarrow>
      Compare (InternalKeyComparator c) start (FindShortestSeparator (InternalKeyComparator c) start limit) \<le> 0 \<and>
      Compare (InternalKeyComparator c) (FindShortestSeparator (InternalKeyComparator c) start limit) limit < 0"
    using internal_separator [of start limit] internal_refl [of start] by (auto simp: InternalKeyComparator_def)
  show "Compare (InternalKeyComparator c) start limit = 0 \<Longrightarrow>
      Compare (InternalKeyComparator c) start (FindShortestSeparator (InternalKeyComparator c) start limit) = 0"
    using internal_separator_equal [of start limit] internal_refl [of start] by (simp add: InternalKeyComparator_def)
  show "Compare (InternalKeyComparator c) key (FindShortSuccessor (InternalKeyComparator c) key) \<le> 0"
    by (simp add: InternalKeyComparator_def internal_successor_def internal_le_iff Let_def PutFixed64_def internal_refl)
qed

end

lemma InternalKeyComparator_simps [simp, cmp_simps]:
  "Compare (InternalKeyComparator user) = internal_compare user"
  "FindShortestSeparator (InternalKeyComparator user) = internal_separator user"
  "FindShortSuccessor (InternalKeyComparator user) = internal_successor user"
  by (simp_all add: InternalKeyComparator_def)

interpretation internal: comparator "InternalKeyComparator BytewiseComparator"
  by (rule bytewise.internal_comparator)

text \<open>
  C29. The index block of a table holds separators instead of full keys: for two internal keys in
  order (user keys compared bytewise, then the larger sequence number first), the key
  \<open>FindShortestSeparator\<close> gives is not smaller than the first, smaller than the second, and
  not longer than the first.
\<close>

theorem internal_separator_between:
  assumes "Compare (InternalKeyComparator BytewiseComparator) start limit < 0" and "8 \<le> length start"
  shows "let r = FindShortestSeparator (InternalKeyComparator BytewiseComparator) start limit in
    Compare (InternalKeyComparator BytewiseComparator) start r \<le> 0 \<and>
    Compare (InternalKeyComparator BytewiseComparator) r limit < 0 \<and> length r \<le> length start"
proof -
  have "length (internal_separator BytewiseComparator start limit) \<le> length start"
    using assms(2) by (auto simp: internal_separator_def Let_def PutFixed64_def ExtractUserKey_def)
  then show ?thesis
    using internal.separator_less [OF assms(1)] by (simp add: Let_def)
qed

theorem internal_separator_between_witness:
  "let r = FindShortestSeparator (InternalKeyComparator BytewiseComparator) [97, 98, 99, 1, 7, 0, 0, 0, 0, 0, 0]
       [97, 101, 1, 7, 0, 0, 0, 0, 0, 0] in
    Compare (InternalKeyComparator BytewiseComparator) [97, 98, 99, 1, 7, 0, 0, 0, 0, 0, 0] r \<le> 0 \<and>
    Compare (InternalKeyComparator BytewiseComparator) r [97, 101, 1, 7, 0, 0, 0, 0, 0, 0] < 0 \<and>
    length r \<le> length [97 :: u8, 98, 99, 1, 7, 0, 0, 0, 0, 0, 0]"
  by (rule internal_separator_between) (simp_all add: internal_compare_def ExtractUserKey_def Let_def)

end
