(* ===== verification/SkipListSpec.thy ===== *)
theory SkipListSpec
  imports SkipList KeyOrder
begin

text \<open>
  The skip list as a sorted list. \<open>sl_inv cmp sl chain\<close>: the nodes in the order of the list of
  level 0 are \<open>chain\<close>, their keys are strictly sorted, and the list of every level links exactly
  the nodes of that height, in this order, behind the head. The searches end and find the place
  of a key in the chain, and insertion keeps the invariant and inserts into the sorted list.
\<close>

section \<open>Linked lists\<close>

text \<open>\<open>seg f xs e\<close>: from \<open>f\<close> as successor function, the nodes \<open>xs\<close> follow one another and the last points to \<open>e\<close>.\<close>

definition first :: "nat list \<Rightarrow> nat option \<Rightarrow> nat option" where
  "first xs e = (case xs of [] \<Rightarrow> e | x # _ \<Rightarrow> Some x)"

lemma first_simps [simp]: "first [] e = e" "first (x # xs) e = Some x"
  by (simp_all add: first_def)

lemma first_append [simp]: "first (xs @ ys) e = first xs (first ys e)"
  by (simp add: first_def split: list.split)

primrec seg :: "(nat \<Rightarrow> nat option option) \<Rightarrow> nat list \<Rightarrow> nat option \<Rightarrow> bool" where
  "seg f [] e \<longleftrightarrow> True"
| "seg f (x # xs) e \<longleftrightarrow> f x = Some (first xs e) \<and> seg f xs e"

lemma seg_append [simp]: "seg f (xs @ ys) e \<longleftrightarrow> seg f xs (first ys e) \<and> seg f ys e"
  by (induction xs) auto

lemma seg_cong: "(\<And>x. x \<in> set xs \<Longrightarrow> f x = g x) \<Longrightarrow> seg f xs e = seg g xs e"
  by (induction xs) auto

text \<open>A node linked in behind \<open>p\<close>.\<close>

lemma seg_insert:
  assumes "seg f (xs @ p # ys) e" "distinct (xs @ p # ys)" "n \<notin> set (xs @ p # ys)"
    and g: "g p = Some (Some n)" "g n = f p" "\<And>x. x \<in> set (xs @ ys) \<Longrightarrow> g x = f x"
  shows "seg g (xs @ p # n # ys) e"
proof -
  have "seg g xs (Some p)" "seg g ys e"
    using assms(1) seg_cong [of xs g f] seg_cong [of ys g f] g(3) by simp_all
  then show ?thesis using assms(1) g(1,2) by simp
qed

section \<open>The invariant\<close>

definition sl_height :: "'k skiplist \<Rightarrow> nat \<Rightarrow> nat" where
  "sl_height sl x = length (n_next (sl_nodes sl ! x))"

definition level_of :: "'k skiplist \<Rightarrow> nat \<Rightarrow> nat list \<Rightarrow> nat list" where
  "level_of sl l xs = filter (\<lambda>x. l < sl_height sl x) xs"

lemma level_of_simps [simp]:
  "level_of sl l [] = []"
  "level_of sl l (xs @ ys) = level_of sl l xs @ level_of sl l ys"
  "level_of sl l (x # xs) = (if l < sl_height sl x then x # level_of sl l xs else level_of sl l xs)"
  by (simp_all add: level_of_def)

lemma set_level_of: "set (level_of sl l xs) = {x \<in> set xs. l < sl_height sl x}"
  by (simp add: level_of_def)

lemma level_of_Cons: "level_of sl l xs = a # ys \<Longrightarrow> a \<in> set xs"
  using set_level_of [of sl l xs] by auto

definition sl_inv :: "('k \<Rightarrow> 'k \<Rightarrow> int) \<Rightarrow> 'k skiplist \<Rightarrow> nat list \<Rightarrow> bool" where
  "sl_inv cmp sl chain \<longleftrightarrow>
     0 < length (sl_nodes sl) \<and> sl_height sl 0 = kMaxHeight \<and>
     1 \<le> sl_max_height sl \<and> sl_max_height sl \<le> kMaxHeight \<and>
     distinct chain \<and> set chain = {1..<length (sl_nodes sl)} \<and>
     (\<forall>x \<in> set chain. 1 \<le> sl_height sl x \<and> sl_height sl x \<le> sl_max_height sl) \<and>
     sorted_wrt (\<lambda>x y. cmp (sl_key sl x) (sl_key sl y) < 0) chain \<and>
     (\<forall>l < kMaxHeight. seg (\<lambda>x. sl_Next sl x l) (0 # level_of sl l chain) None)"

lemma level_of_0:
  assumes "sl_inv cmp sl chain" "set xs \<subseteq> set chain"
  shows "level_of sl 0 xs = xs"
proof -
  have "0 < sl_height sl x" if "x \<in> set chain" for x
    using assms(1) that unfolding sl_inv_def by fastforce
  then show ?thesis using assms(2) unfolding level_of_def filter_id_conv by blast
qed

text \<open>The keys the list holds, in order.\<close>

definition sl_abs :: "'k skiplist \<Rightarrow> nat list \<Rightarrow> 'k list" where
  "sl_abs sl chain = map (sl_key sl) chain"

lemma sl_inv_SkipList: "sl_inv cmp (SkipList key0) []"
  by (simp add: sl_inv_def SkipList_def sl_height_def kMaxHeight_def sl_Next_def)

section \<open>The search loop\<close>

text \<open>The node before the place on a level, and what the loop stores in \<open>prev\<close>.\<close>

definition before :: "'k skiplist \<Rightarrow> nat list \<Rightarrow> nat \<Rightarrow> nat" where
  "before sl pre l = last (0 # level_of sl l pre)"

definition stored :: "'k skiplist \<Rightarrow> nat list \<Rightarrow> nat \<Rightarrow> nat option list \<Rightarrow> nat option list" where
  "stored sl pre level p = map (\<lambda>l. Some (before sl pre l)) [0..<Suc level] @ drop (Suc level) p"

lemma walk_level:
  assumes seg: "seg (\<lambda>x. sl_Next sl x level) (A @ x # B @ C) None"
    and adv: "\<And>y. y \<in> set B \<Longrightarrow> adv (Some y)"
  shows "sl_walk sl adv x level prev = sl_walk sl adv (last (x # B)) level prev"
  using assms
proof (induction B arbitrary: A x)
  case (Cons y B)
  have "sl_Next sl x level = Some (Some y)" using Cons.prems(1) by simp
  then have "sl_walk sl adv x level prev = sl_walk sl adv y level prev"
    using Cons.prems(2) by (subst sl_walk.simps) simp
  also have "\<dots> = sl_walk sl adv (last (y # B)) level prev"
    by (rule Cons.IH [of "A @ [x]"]) (use Cons.prems in simp_all)
  finally show ?case by simp
qed simp

text \<open>The loop on one level, down to the test that ends it.\<close>

lemma walk_to_before:
  assumes inv: "sl_inv cmp sl (pre @ post)"
    and adv: "\<And>x. x \<in> set pre \<Longrightarrow> adv (Some x)" "\<And>x. x \<in> set post \<Longrightarrow> \<not> adv (Some x)" "\<not> adv None"
    and x: "x \<in> set (0 # pre)" "level < sl_height sl x" "level < kMaxHeight"
  shows "sl_walk sl adv x level prev = Option.bind (prev_store prev level (before sl pre level)) (\<lambda>prev.
      if level = 0 then Some (before sl pre level, first (level_of sl level post) None, prev)
      else sl_walk sl adv (before sl pre level) (level - 1) prev)"
proof -
  have seg: "seg (\<lambda>x. sl_Next sl x level) (0 # level_of sl level pre @ level_of sl level post) None"
    using inv x(3) by (simp add: sl_inv_def)
  have "x \<in> set (0 # level_of sl level pre)" using x(1,2) by (auto simp: set_level_of)
  then obtain A B where AB: "0 # level_of sl level pre = A @ x # B" by (meson split_list)
  have B: "\<And>y. y \<in> set B \<Longrightarrow> adv (Some y)"
  proof -
    fix y assume y: "y \<in> set B"
    have "set B \<subseteq> set (level_of sl level pre)" using AB by (cases A) auto
    with y show "adv (Some y)" using adv(1) by (auto simp: set_level_of)
  qed
  have seg': "seg (\<lambda>x. sl_Next sl x level) (A @ x # B @ level_of sl level post) None"
    using seg AB by (metis append.assoc append_Cons)
  have last: "last (x # B) = before sl pre level"
    unfolding before_def AB by simp
  have "seg (\<lambda>x. sl_Next sl x level) (butlast (0 # level_of sl level pre) @ [before sl pre level] @ level_of sl level post) None"
    using seg unfolding before_def by (metis append.assoc append_Cons append_butlast_last_id list.discI)
  then have "sl_Next sl (before sl pre level) level = Some (first (level_of sl level post) None)"
    by simp
  moreover have "\<not> adv (first (level_of sl level post) None)"
    using adv(2,3) by (cases "level_of sl level post") (auto dest: level_of_Cons)
  ultimately have "sl_walk sl adv (before sl pre level) level prev =
      Option.bind (prev_store prev level (before sl pre level)) (\<lambda>prev.
        if level = 0 then Some (before sl pre level, first (level_of sl level post) None, prev)
        else sl_walk sl adv (before sl pre level) (level - 1) prev)"
    by (subst sl_walk.simps) simp
  moreover have "sl_walk sl adv x level prev = sl_walk sl adv (before sl pre level) level prev"
    using walk_level [where sl = sl and adv = adv and prev = prev, OF seg' B] unfolding last .
  ultimately show ?thesis by simp
qed

lemma before_in: "before sl pre l = 0 \<or> before sl pre l \<in> set pre \<and> l < sl_height sl (before sl pre l)"
proof (cases "level_of sl l pre = []")
  case False
  then have "before sl pre l \<in> set (level_of sl l pre)" by (simp add: before_def)
  then show ?thesis by (simp add: set_level_of)
qed (simp add: before_def)

lemma stored_0: "length p = kMaxHeight \<Longrightarrow> p[0 := Some (before sl pre 0)] = stored sl pre 0 p"
  by (cases p) (simp_all add: stored_def kMaxHeight_def)

lemma stored_Suc:
  "length p = kMaxHeight \<Longrightarrow> Suc l < kMaxHeight \<Longrightarrow>
   stored sl pre l (p[Suc l := Some (before sl pre (Suc l))]) = stored sl pre (Suc l) p"
  by (simp add: stored_def drop_update_swap Cons_nth_drop_Suc [symmetric])

lemma walk_result:
  assumes inv: "sl_inv cmp sl (pre @ post)"
    and adv: "\<And>x. x \<in> set pre \<Longrightarrow> adv (Some x)" "\<And>x. x \<in> set post \<Longrightarrow> \<not> adv (Some x)" "\<not> adv None"
    and x: "x \<in> set (0 # pre)" "level < sl_height sl x" "level < kMaxHeight"
    and prev: "\<And>p. prev = Some p \<Longrightarrow> length p = kMaxHeight"
  shows "sl_walk sl adv x level prev =
    Some (before sl pre 0, first post None, map_option (stored sl pre level) prev)"
  using x prev
proof (induction level arbitrary: x prev)
  case (0 x)
  have "level_of sl 0 post = post"
    by (rule level_of_0 [OF inv]) simp
  then show ?case
    using walk_to_before [OF inv adv 0(1-3)] 0(4)
    by (auto simp: prev_store_def stored_0 kMaxHeight_def split: option.splits)
next
  case (Suc level)
  let ?b = "before sl pre (Suc level)"
  have b: "?b \<in> set (0 # pre)" "level < sl_height sl ?b"
    using before_in [of sl pre "Suc level"] inv Suc.prems(3) by (auto simp: sl_inv_def)
  have store: "\<exists>prev1. prev_store prev (Suc level) ?b = Some prev1 \<and>
      map_option (stored sl pre level) prev1 = map_option (stored sl pre (Suc level)) prev \<and>
      (\<forall>p. prev1 = Some p \<longrightarrow> length p = kMaxHeight)"
    using Suc.prems(3,4) by (auto simp: prev_store_def stored_Suc split: option.splits)
  then obtain prev1 where p: "prev_store prev (Suc level) ?b = Some prev1"
      "map_option (stored sl pre level) prev1 = map_option (stored sl pre (Suc level)) prev"
      "\<And>p. prev1 = Some p \<Longrightarrow> length p = kMaxHeight" by blast
  have "sl_walk sl adv x (Suc level) prev = sl_walk sl adv ?b level prev1"
    using walk_to_before [OF inv adv Suc.prems(1-3)] p(1) by simp
  also have "\<dots> = Some (before sl pre 0, first post None, map_option (stored sl pre level) prev1)"
    by (rule Suc.IH) (use b p(3) Suc.prems(3) in auto)
  finally show ?case using p(2) by simp
qed

text \<open>The walk from the head on the top level, as the searches call it.\<close>

lemma walk_from_head:
  assumes inv: "sl_inv cmp sl (pre @ post)"
    and adv: "\<And>x. x \<in> set pre \<Longrightarrow> adv (Some x)" "\<And>x. x \<in> set post \<Longrightarrow> \<not> adv (Some x)" "\<not> adv None"
    and prev: "\<And>p. prev = Some p \<Longrightarrow> length p = kMaxHeight"
  shows "sl_walk sl adv 0 (sl_max_height sl - 1) prev =
    Some (before sl pre 0, first post None, map_option (stored sl pre (sl_max_height sl - 1)) prev)"
  by (rule walk_result [OF inv adv]) (use inv prev in \<open>auto simp: sl_inv_def\<close>)

lemma before_0:
  assumes "sl_inv cmp sl (pre @ post)"
  shows "before sl pre 0 = last (0 # pre)"
proof -
  have "level_of sl 0 pre = pre"
    by (rule level_of_0 [OF assms]) simp
  then show ?thesis by (simp add: before_def)
qed

section \<open>Insertion\<close>

lemma RandomHeight_bounds: "1 \<le> fst (RandomHeight rnd)" "fst (RandomHeight rnd) \<le> kMaxHeight"
proof -
  have "h \<le> kMaxHeight \<Longrightarrow> h \<le> fst (RandomHeight_loop h rnd) \<and> fst (RandomHeight_loop h rnd) \<le> kMaxHeight" for h
  proof (induction h rnd rule: RandomHeight_loop.induct)
    case (1 h rnd)
    show ?case
    proof (cases "h < kMaxHeight \<and> Random_Next rnd mod 4 = 0")
      case True
      then have "RandomHeight_loop h rnd = RandomHeight_loop (Suc h) (Random_Next rnd)"
        by (subst RandomHeight_loop.simps) (simp add: Let_def)
      with 1 True show ?thesis by (simp add: Let_def Suc_le_eq)
    next
      case False
      then have "fst (RandomHeight_loop h rnd) = h"
        by (subst RandomHeight_loop.simps) (auto simp: Let_def)
      with "1.prems" show ?thesis by simp
    qed
  qed
  from this [of 1] show "1 \<le> fst (RandomHeight rnd)" "fst (RandomHeight rnd) \<le> kMaxHeight"
    by (simp_all add: RandomHeight_def kMaxHeight_def)
qed

text \<open>What setting links leaves alone.\<close>

definition same_nodes :: "'k skiplist \<Rightarrow> 'k skiplist \<Rightarrow> bool" where
  "same_nodes sl sl' \<longleftrightarrow> length (sl_nodes sl') = length (sl_nodes sl) \<and> sl_max_height sl' = sl_max_height sl \<and>
     (\<forall>x. sl_key sl' x = sl_key sl x \<and> sl_height sl' x = sl_height sl x)"

lemma same_nodes_trans: "same_nodes a b \<Longrightarrow> same_nodes b c \<Longrightarrow> same_nodes a c"
  by (simp add: same_nodes_def)

lemma sl_SetNext_spec:
  assumes "x < length (sl_nodes sl)" "l < sl_height sl x"
  shows "\<exists>sl'. sl_SetNext sl x l y = Some sl' \<and> same_nodes sl sl' \<and>
    (\<forall>z m. sl_Next sl' z m = (if z = x \<and> m = l then Some y else sl_Next sl z m))"
  using assms
  by (auto simp: sl_SetNext_def same_nodes_def sl_key_def sl_height_def sl_Next_def nth_list_update)

lemma insert_links_spec:
  assumes "distinct is" "n < length (sl_nodes sl)"
    and "\<And>l. l \<in> set is \<Longrightarrow> l < sl_height sl n \<and> prev ! l = Some (p l) \<and> p l < length (sl_nodes sl) \<and>
      l < sl_height sl (p l) \<and> p l \<noteq> n"
  shows "\<exists>sl'. insert_links prev n is sl = Some sl' \<and> same_nodes sl sl' \<and>
    (\<forall>z l. sl_Next sl' z l = (if l \<in> set is \<and> z = n then sl_Next sl (p l) l
      else if l \<in> set is \<and> z = p l then Some (Some n) else sl_Next sl z l))"
  using assms
proof (induction "is" arbitrary: sl)
  case Nil
  then show ?case by (simp add: same_nodes_def)
next
  case (Cons i "is")
  have i: "i < sl_height sl n" "prev ! i = Some (p i)" "p i < length (sl_nodes sl)" "i < sl_height sl (p i)" "p i \<noteq> n"
    using Cons.prems(3) [of i] by simp_all
  obtain v where v: "sl_Next sl (p i) i = Some v"
    using i(3,4) by (simp add: sl_Next_def sl_height_def)
  obtain sl1 where sl1: "sl_SetNext sl n i v = Some sl1" "same_nodes sl sl1"
      "\<And>z m. sl_Next sl1 z m = (if z = n \<and> m = i then Some v else sl_Next sl z m)"
    using sl_SetNext_spec [OF Cons.prems(2) i(1)] by blast
  have "p i < length (sl_nodes sl1)" "i < sl_height sl1 (p i)"
    using sl1(2) i(3,4) by (simp_all add: same_nodes_def)
  then obtain sl2 where sl2: "sl_SetNext sl1 (p i) i (Some n) = Some sl2" "same_nodes sl1 sl2"
      "\<And>z m. sl_Next sl2 z m = (if z = p i \<and> m = i then Some (Some n) else sl_Next sl1 z m)"
    using sl_SetNext_spec by blast
  have same: "same_nodes sl sl2" by (rule same_nodes_trans [OF sl1(2) sl2(2)])
  have "\<exists>sl'. insert_links prev n is sl2 = Some sl' \<and> same_nodes sl2 sl' \<and>
    (\<forall>z l. sl_Next sl' z l = (if l \<in> set is \<and> z = n then sl_Next sl2 (p l) l
      else if l \<in> set is \<and> z = p l then Some (Some n) else sl_Next sl2 z l))"
    by (rule Cons.IH) (use Cons.prems same in \<open>auto simp: same_nodes_def\<close>)
  then obtain sl' where sl': "insert_links prev n is sl2 = Some sl'" "same_nodes sl2 sl'"
    "\<And>z l. sl_Next sl' z l = (if l \<in> set is \<and> z = n then sl_Next sl2 (p l) l
      else if l \<in> set is \<and> z = p l then Some (Some n) else sl_Next sl2 z l)" by blast
  have "insert_links prev n (i # is) sl = Some sl'"
    using i(2) v sl1(1) sl2(1) sl'(1) by simp
  moreover have "sl_Next sl' z l = (if l \<in> set (i # is) \<and> z = n then sl_Next sl (p l) l
      else if l \<in> set (i # is) \<and> z = p l then Some (Some n) else sl_Next sl z l)" for z l
    using Cons.prems(1,3) i(5) v by (auto simp: sl'(3) sl2(3) sl1(3))
  ultimately show ?case using same_nodes_trans [OF same sl'(2)] by blast
qed

lemma foldl_heads:
  "length (foldl (\<lambda>p i. p[i := Some 0]) p is) = length p"
  "l < length p \<Longrightarrow> foldl (\<lambda>p i. p[i := Some 0]) p is ! l = (if l \<in> set is then Some 0 else p ! l)"
  by (induction "is" arbitrary: p) (auto simp: nth_list_update)

text \<open>The array \<open>prev\<close> of \<open>Insert\<close> holds the node before the new one on each of its levels.\<close>

lemma prev_before:
  fixes m
  assumes inv: "sl_inv cmp sl (pre @ post)" and l: "l < h" "h \<le> kMaxHeight"
  defines "m \<equiv> sl_max_height sl"
  shows "foldl (\<lambda>p i. p[i := Some 0]) (stored sl pre (m - 1) (replicate kMaxHeight None)) [m..<h] ! l = Some (before sl pre l)"
proof -
  have m: "1 \<le> m" "m \<le> kMaxHeight" "\<And>x. x \<in> set pre \<Longrightarrow> sl_height sl x \<le> m"
    using inv unfolding sl_inv_def m_def by simp_all (metis Un_iff atLeastLessThan_iff)
  have len: "length (stored sl pre (m - 1) (replicate kMaxHeight None)) = kMaxHeight"
    using m by (simp add: stored_def)
  show ?thesis
  proof (cases "l < m")
    case True
    then have "stored sl pre (m - 1) (replicate kMaxHeight None) ! l = Some (before sl pre l)"
      using m(1) by (simp add: stored_def nth_append del: upt_Suc)
    then show ?thesis using True l len by (simp add: foldl_heads)
  next
    case False
    then have "level_of sl l pre = []" using m(3) unfolding level_of_def filter_empty_conv by fastforce
    then show ?thesis using False l len by (simp add: foldl_heads before_def)
  qed
qed

context key_order
begin

abbreviation below :: "'k skiplist \<Rightarrow> 'k \<Rightarrow> nat list \<Rightarrow> nat list" where
  "below sl k chain \<equiv> takeWhile (\<lambda>x. cmp (sl_key sl x) k < 0) chain"

abbreviation above :: "'k skiplist \<Rightarrow> 'k \<Rightarrow> nat list \<Rightarrow> nat list" where
  "above sl k chain \<equiv> dropWhile (\<lambda>x. cmp (sl_key sl x) k < 0) chain"

lemma split_chain:
  assumes "sl_inv cmp sl chain"
  shows "sl_inv cmp sl (below sl k chain @ above sl k chain)"
    and "x \<in> set (below sl k chain) \<Longrightarrow> cmp (sl_key sl x) k < 0"
    and "x \<in> set (above sl k chain) \<Longrightarrow> cmp k (sl_key sl x) \<le> 0"
proof -
  have sorted: "sorted_wrt (\<lambda>x y. cmp (sl_key sl x) (sl_key sl y) < 0) chain"
    using assms by (simp add: sl_inv_def)
  show "sl_inv cmp sl (below sl k chain @ above sl k chain)" using assms by simp
  show "x \<in> set (below sl k chain) \<Longrightarrow> cmp (sl_key sl x) k < 0"
    "x \<in> set (above sl k chain) \<Longrightarrow> cmp k (sl_key sl x) \<le> 0"
    using sorted_split [OF sorted] by blast+
qed

lemma FindGreaterOrEqual_result:
  assumes inv: "sl_inv cmp sl chain" and prev: "\<And>p. prev = Some p \<Longrightarrow> length p = kMaxHeight"
  shows "FindGreaterOrEqual cmp sl k prev = Some (first (above sl k chain) None,
    map_option (stored sl (below sl k chain) (sl_max_height sl - 1)) prev)"
  using walk_from_head [OF split_chain(1) [OF inv, of k], of "KeyIsAfterNode cmp sl k" prev]
    split_chain(2,3) [OF inv, of _ k] prev
  by (simp add: FindGreaterOrEqual_def KeyIsAfterNode_def not_less del: takeWhile_dropWhile_id)

lemma FindLessThan_result:
  assumes inv: "sl_inv cmp sl chain"
  shows "FindLessThan cmp sl k = Some (last (0 # below sl k chain))"
proof -
  have ge: "0 \<le> cmp (sl_key sl x) k" if "x \<in> set (above sl k chain)" for x
    using split_chain(3) [OF inv that] not_less linorder_not_less by metis
  show ?thesis
    using walk_from_head [OF split_chain(1) [OF inv, of k],
        of "\<lambda>nxt. case nxt of None \<Rightarrow> False | Some n \<Rightarrow> \<not> cmp (sl_key sl n) k \<ge> 0" None]
      split_chain(2) [OF inv, of _ k] ge before_0 [OF split_chain(1) [OF inv, of k]]
    by (simp add: FindLessThan_def linorder_not_le del: takeWhile_dropWhile_id)
qed

end

lemma FindLast_result:
  assumes inv: "sl_inv cmp sl chain"
  shows "FindLast sl = Some (last (0 # chain))"
proof -
  have "sl_inv cmp sl (chain @ [])" using inv by simp
  from walk_from_head [OF this, of "\<lambda>nxt. nxt \<noteq> None" None] before_0 [OF this]
  show ?thesis by (simp add: FindLast_def)
qed

text \<open>The list with the new node at the end of the store, before it is linked.\<close>

definition sl_grown :: "'k skiplist \<Rightarrow> 'k \<Rightarrow> 'k skiplist" where
  "sl_grown sl key =
     (let (h, rnd) = RandomHeight (sl_rnd sl)
      in snd (sl_NewNode (sl\<lparr>sl_rnd := rnd, sl_max_height := max (sl_max_height sl) h\<rparr>) key h))"

lemma sl_grown_simps:
  fixes sl key
  defines "n \<equiv> length (sl_nodes sl)" and "h \<equiv> fst (RandomHeight (sl_rnd sl))"
  shows "length (sl_nodes (sl_grown sl key)) = Suc n"
    "sl_max_height (sl_grown sl key) = max (sl_max_height sl) h"
    "x < n \<Longrightarrow> sl_key (sl_grown sl key) x = sl_key sl x" "sl_key (sl_grown sl key) n = key"
    "x < n \<Longrightarrow> sl_height (sl_grown sl key) x = sl_height sl x" "sl_height (sl_grown sl key) n = h"
    "x < n \<Longrightarrow> sl_Next (sl_grown sl key) x l = sl_Next sl x l"
    "\<not> l < h \<Longrightarrow> sl_Next (sl_grown sl key) n l = sl_Next sl n l"
  by (simp_all add: sl_grown_def sl_NewNode_def sl_key_def sl_height_def sl_Next_def nth_append
      n_def h_def case_prod_beta)

lemma level_of_cong: "(\<And>x. x \<in> set xs \<Longrightarrow> sl_height sl' x = sl_height sl x) \<Longrightarrow> level_of sl' l xs = level_of sl l xs"
  unfolding level_of_def by (rule filter_cong) auto

text \<open>The links after the insertion of \<open>n\<close> make every level a list again.\<close>

lemma linked_insert:
  assumes inv: "sl_inv cmp sl (pre @ post)" and l: "l < kMaxHeight" and n: "n = length (sl_nodes sl)"
    and links: "\<And>z. g z = (if l < h \<and> z = n then sl_Next sl (before sl pre l) l
        else if l < h \<and> z = before sl pre l then Some (Some n) else sl_Next sl z l) \<or> z > n"
  shows "seg g (0 # level_of sl l pre @ (if l < h then [n] else []) @ level_of sl l post) None"
proof -
  let ?f = "\<lambda>x. sl_Next sl x l" and ?b = "before sl pre l"
  have chain: "set (pre @ post) = {1..<n}" "distinct (pre @ post)" "0 < n"
    using inv n by (simp_all add: sl_inv_def)
  have small: "x < n" if "x \<in> set (0 # level_of sl l pre @ level_of sl l post)" for x
  proof -
    have "x = 0 \<or> x \<in> set (pre @ post)" using that by (auto simp: set_level_of)
    then show ?thesis using chain(1,3) by fastforce
  qed
  have seg: "seg ?f (0 # level_of sl l pre @ level_of sl l post) None"
    using inv l by (simp add: sl_inv_def)
  show ?thesis
  proof (cases "l < h")
    case False
    have "g x = ?f x" if "x \<in> set (0 # level_of sl l pre @ level_of sl l post)" for x
      using links [of x] small [OF that] False by auto
    then have "seg g (0 # level_of sl l pre @ level_of sl l post) None"
      using seg seg_cong [of "0 # level_of sl l pre @ level_of sl l post" g ?f None] by blast
    then show ?thesis using False by simp
  next
    case True
    let ?xs = "butlast (0 # level_of sl l pre)"
    have split: "0 # level_of sl l pre = ?xs @ [?b]" unfolding before_def by (rule append_butlast_last_id [symmetric]) simp
    then have all: "0 # level_of sl l pre @ level_of sl l post = ?xs @ ?b # level_of sl l post"
      by (metis append.assoc append_Cons append_Nil)
    have "0 \<notin> set (pre @ post)" using chain(1) by auto
    then have dist: "distinct (0 # level_of sl l pre @ level_of sl l post)"
      using chain(2) by (auto simp: set_level_of) (auto simp: level_of_def)
    have "seg g (?xs @ ?b # n # level_of sl l post) None"
    proof (rule seg_insert)
      show "seg ?f (?xs @ ?b # level_of sl l post) None" using seg unfolding all .
      show "distinct (?xs @ ?b # level_of sl l post)" using dist unfolding all .
      show "n \<notin> set (?xs @ ?b # level_of sl l post)" using small unfolding all [symmetric] by blast
      have "?b \<in> set (0 # level_of sl l pre @ level_of sl l post)" unfolding all by simp
      then have b: "?b < n" by (rule small)
      then show "g ?b = Some (Some n)" "g n = ?f ?b" using links [of ?b] links [of n] True by auto
      fix x assume x: "x \<in> set (?xs @ level_of sl l post)"
      then have "x \<in> set (0 # level_of sl l pre @ level_of sl l post)" unfolding all by auto
      moreover have "x \<noteq> ?b" using dist x unfolding all by auto
      ultimately show "g x = ?f x" using links [of x] small [of x] by auto
    qed
    moreover have "0 # level_of sl l pre @ [n] @ level_of sl l post = ?xs @ ?b # n # level_of sl l post"
      using arg_cong [OF split, of "\<lambda>A. A @ n # level_of sl l post"] by (simp only: append.assoc append_Cons append_Nil)
    ultimately have "seg g (0 # level_of sl l pre @ [n] @ level_of sl l post) None" by (simp only:)
    then show ?thesis using True by simp
  qed
qed

context key_order
begin

lemma sl_Insert_grown:
  assumes inv: "sl_inv cmp sl chain"
  shows "sl_Insert cmp sl k = (let (h, rnd) = RandomHeight (sl_rnd sl) in
    insert_links (foldl (\<lambda>p i. p[i := Some 0])
        (stored sl (below sl k chain) (sl_max_height sl - 1) (replicate kMaxHeight None)) [sl_max_height sl..<h])
      (length (sl_nodes sl)) [0..<h] (sl_grown sl k))"
  using FindGreaterOrEqual_result [OF inv, of "Some (replicate kMaxHeight None)" k]
  by (auto simp: sl_Insert_def sl_grown_def sl_NewNode_def Let_def max_def split: prod.split)

lemma sl_Insert_result:
  assumes inv: "sl_inv cmp sl chain" and new: "\<And>x. x \<in> set chain \<Longrightarrow> cmp (sl_key sl x) k \<noteq> 0"
  shows "\<exists>sl'. sl_Insert cmp sl k = Some sl' \<and>
    sl_inv cmp sl' (below sl k chain @ length (sl_nodes sl) # above sl k chain) \<and>
    sl_abs sl' (below sl k chain @ length (sl_nodes sl) # above sl k chain) = insert_sorted cmp k (sl_abs sl chain)"
proof -
  let ?pre = "below sl k chain" and ?post = "above sl k chain" and ?n = "length (sl_nodes sl)"
  let ?h = "fst (RandomHeight (sl_rnd sl))" and ?sl = "sl_grown sl k"
  let ?prev = "foldl (\<lambda>p i. p[i := Some 0]) (stored sl ?pre (sl_max_height sl - 1) (replicate kMaxHeight None)) [sl_max_height sl..<?h]"
  note inv' = split_chain(1) [OF inv, of k]
  have h: "1 \<le> ?h" "?h \<le> kMaxHeight" by (rule RandomHeight_bounds)+
  have chain: "set (?pre @ ?post) = {1..<?n}" "0 < ?n" "sl_height sl 0 = kMaxHeight"
    using inv' unfolding sl_inv_def by blast+
  have ready: "l < sl_height ?sl ?n \<and> ?prev ! l = Some (before sl ?pre l) \<and> before sl ?pre l < length (sl_nodes ?sl) \<and>
      l < sl_height ?sl (before sl ?pre l) \<and> before sl ?pre l \<noteq> ?n" if "l \<in> set [0..<?h]" for l
  proof -
    have b: "before sl ?pre l < ?n"
      using before_in [of sl ?pre l] chain(1,2) by (metis Un_iff atLeastLessThan_iff set_append)
    have "l < sl_height sl (before sl ?pre l)"
      using before_in [of sl ?pre l] chain(3) that h(2) by (cases "before sl ?pre l = 0") auto
    with b show ?thesis
      using prev_before [OF inv', of l ?h] that h(2) by (simp add: sl_grown_simps)
  qed
  have "\<exists>sl'. insert_links ?prev ?n [0..<?h] ?sl = Some sl' \<and> same_nodes ?sl sl' \<and>
    (\<forall>z l. sl_Next sl' z l = (if l \<in> set [0..<?h] \<and> z = ?n then sl_Next ?sl (before sl ?pre l) l
        else if l \<in> set [0..<?h] \<and> z = before sl ?pre l then Some (Some ?n) else sl_Next ?sl z l))"
    by (rule insert_links_spec [OF _ _ ready]) (simp_all add: sl_grown_simps)
  then obtain sl' where
    sl': "insert_links ?prev ?n [0..<?h] ?sl = Some sl'" "same_nodes ?sl sl'"
      "\<And>z l. sl_Next sl' z l = (if l \<in> set [0..<?h] \<and> z = ?n then sl_Next ?sl (before sl ?pre l) l
        else if l \<in> set [0..<?h] \<and> z = before sl ?pre l then Some (Some ?n) else sl_Next ?sl z l)"
    by blast
  have "sl_Insert cmp sl k = Some sl'"
    using sl'(1) by (simp add: sl_Insert_grown [OF inv] case_prod_beta)
  moreover
  have small: "x < ?n" if "x \<in> set ?pre \<or> x \<in> set ?post" for x
    using chain(1) that by (metis Un_iff atLeastLessThan_iff set_append)
  have key: "sl_key sl' x = sl_key sl x" "sl_height sl' x = sl_height sl x" if "x \<in> set ?pre \<or> x \<in> set ?post \<or> x = 0" for x
    using small [of x] that chain(2) sl'(2) by (auto simp: same_nodes_def sl_grown_simps)
  have keyn: "sl_key sl' ?n = k" "sl_height sl' ?n = ?h" "length (sl_nodes sl') = Suc ?n"
      "sl_max_height sl' = max (sl_max_height sl) ?h"
    using sl'(2) by (simp_all add: same_nodes_def sl_grown_simps)
  have "map (sl_key sl') ?pre = map (sl_key sl) ?pre" "map (sl_key sl') ?post = map (sl_key sl) ?post"
    using key by auto
  then have "sl_abs sl' (?pre @ ?n # ?post) = insert_sorted cmp k (sl_abs sl chain)"
    by (simp add: sl_abs_def keyn insert_sorted_def takeWhile_map dropWhile_map comp_def)
  moreover have "sl_inv cmp sl' (?pre @ ?n # ?post)"
    unfolding sl_inv_def keyn
  proof (intro conjI allI impI)
    show "0 < Suc ?n" "1 \<le> max (sl_max_height sl) ?h" using h by simp_all
    show "sl_height sl' 0 = kMaxHeight" using key [of 0] chain(3) by simp
    show "max (sl_max_height sl) ?h \<le> kMaxHeight" using inv h(2) by (simp add: sl_inv_def)
    show "distinct (?pre @ ?n # ?post)" using inv' small by (auto simp: sl_inv_def simp del: takeWhile_dropWhile_id)
    have "set (?pre @ ?n # ?post) = insert ?n (set (?pre @ ?post))" by (simp del: takeWhile_dropWhile_id)
    also have "\<dots> = insert ?n {1..<?n}" by (simp only: chain(1))
    also have "\<dots> = {1..<Suc ?n}" using chain(2) by (auto simp: Suc_le_eq)
    finally show "set (?pre @ ?n # ?post) = {1..<Suc ?n}" .
    show "\<forall>x\<in>set (?pre @ ?n # ?post). 1 \<le> sl_height sl' x \<and> sl_height sl' x \<le> max (sl_max_height sl) ?h"
    proof
      fix x assume x: "x \<in> set (?pre @ ?n # ?post)"
      have old: "1 \<le> sl_height sl y \<and> sl_height sl y \<le> sl_max_height sl" if "y \<in> set (?pre @ ?post)" for y
        using inv' that unfolding sl_inv_def by blast
      show "1 \<le> sl_height sl' x \<and> sl_height sl' x \<le> max (sl_max_height sl) ?h"
      proof (cases "x = ?n")
        case False
        then have "x \<in> set ?pre \<or> x \<in> set ?post" using x by auto
        then show ?thesis using old [of x] key(2) [of x] unfolding set_append by auto
      qed (use keyn(2) h in simp)
    qed
    show "sorted_wrt (\<lambda>x y. cmp (sl_key sl' x) (sl_key sl' y) < 0) (?pre @ ?n # ?post)"
    proof -
      have old: "sorted_wrt (\<lambda>x y. cmp (sl_key sl x) (sl_key sl y) < 0) (?pre @ ?post)"
        using inv' unfolding sl_inv_def by blast
      have "sorted_wrt (\<lambda>x y. cmp (sl_key sl' x) (sl_key sl' y) < 0) (?pre @ ?post)"
      proof (rule sorted_wrt_mono_rel [OF _ old])
        fix x y assume "x \<in> set (?pre @ ?post)" "y \<in> set (?pre @ ?post)" "cmp (sl_key sl x) (sl_key sl y) < 0"
        moreover have "sl_key sl' z = sl_key sl z" if "z \<in> set (?pre @ ?post)" for z
          using key(1) [of z] that unfolding set_append by blast
        ultimately show "cmp (sl_key sl' x) (sl_key sl' y) < 0" by (simp only:)
      qed
      moreover have "cmp (sl_key sl' x) k < 0" if "x \<in> set ?pre" for x
        using split_chain(2) [OF inv that] key that by simp
      moreover have "cmp k (sl_key sl' x) < 0" if "x \<in> set ?post" for x
      proof -
        have "cmp k (sl_key sl x) \<noteq> 0" using new eq_sym set_dropWhileD [OF that] by blast
        then show ?thesis using split_chain(3) [OF inv that] key that by simp
      qed
      ultimately show ?thesis by (simp add: sorted_wrt_append keyn del: takeWhile_dropWhile_id)
    qed
    fix l assume l: "l < kMaxHeight"
    have next_old: "sl_Next ?sl z l = sl_Next sl z l" if "z < ?n" for z using that by (simp add: sl_grown_simps)
    have next_new: "sl_Next ?sl ?n l = sl_Next sl ?n l" if "\<not> l < ?h" using that by (simp add: sl_grown_simps)
    have before_small: "before sl ?pre l < ?n"
      using before_in [of sl ?pre l] small chain(2) by auto
    have "level_of sl' l (?pre @ ?n # ?post) = level_of sl l ?pre @ (if l < ?h then [?n] else []) @ level_of sl l ?post"
      using level_of_cong [of ?pre sl' sl l] level_of_cong [of ?post sl' sl l] key keyn by simp
    moreover have "sl_Next sl' z l = (if l < ?h \<and> z = ?n then sl_Next sl (before sl ?pre l) l
        else if l < ?h \<and> z = before sl ?pre l then Some (Some ?n) else sl_Next sl z l) \<or> z > ?n" for z
    proof (cases z ?n rule: linorder_cases)
      case less
      then show ?thesis using sl'(3) [of z l] next_old [of z] by simp
    next
      case equal
      then show ?thesis using sl'(3) [of z l] next_new next_old [OF before_small] before_small by auto
    qed simp
    ultimately show "seg (\<lambda>x. sl_Next sl' x l) (0 # level_of sl' l (?pre @ ?n # ?post)) None"
      using linked_insert [OF inv' l HOL.refl, of "\<lambda>z. sl_Next sl' z l" ?h] by (simp only:)
  qed
  ultimately show ?thesis by blast
qed

end

section \<open>Iteration\<close>

lemma seg_level_0:
  assumes "sl_inv cmp sl chain"
  shows "seg (\<lambda>x. sl_Next sl x 0) (0 # chain) None"
proof -
  have "level_of sl 0 chain = chain" by (rule level_of_0 [OF assms]) simp
  moreover have "seg (\<lambda>x. sl_Next sl x 0) (0 # level_of sl 0 chain) None"
    using assms unfolding sl_inv_def kMaxHeight_def by simp
  ultimately show ?thesis by simp
qed

lemma it_SeekToFirst_result: "sl_inv cmp sl chain \<Longrightarrow> it_SeekToFirst sl = Some (first chain None)"
  using seg_level_0 [of cmp sl chain] by (simp add: it_SeekToFirst_def)

lemma it_Next_result: "sl_inv cmp sl (xs @ x # ys) \<Longrightarrow> it_Next sl (Some x) = Some (first ys None)"
  using seg_level_0 [of cmp sl "xs @ x # ys"] by (simp add: it_Next_def)

lemma chain_not_0: "sl_inv cmp sl chain \<Longrightarrow> x \<in> set chain \<Longrightarrow> x \<noteq> 0"
  unfolding sl_inv_def by auto

lemma it_SeekToLast_result:
  assumes "sl_inv cmp sl chain"
  shows "it_SeekToLast sl = Some (if chain = [] then None else Some (last chain))"
  using FindLast_result [OF assms] chain_not_0 [OF assms, of "last chain"]
  by (cases "chain = []") (simp_all add: it_SeekToLast_def)

context key_order
begin

lemma it_Seek_result: "sl_inv cmp sl chain \<Longrightarrow> it_Seek cmp sl k = Some (first (above sl k chain) None)"
  using FindGreaterOrEqual_result [of sl chain None k] by (simp add: it_Seek_def)

lemma it_Prev_result:
  assumes inv: "sl_inv cmp sl (xs @ x # ys)"
  shows "it_Prev cmp sl (Some x) = Some (if xs = [] then None else Some (last xs))"
proof -
  have sorted: "cmp (sl_key sl y) (sl_key sl x) < 0" if "y \<in> set xs" for y
    using inv that by (simp add: sl_inv_def sorted_wrt_append)
  then have "below sl (sl_key sl x) (xs @ x # ys) = xs"
    by (simp add: takeWhile_append2)
  then show ?thesis
    using FindLessThan_result [OF inv, of "sl_key sl x"] chain_not_0 [OF inv, of "last xs"]
    by (cases "xs = []") (simp_all add: it_Prev_def)
qed

lemma sl_Contains_result:
  assumes inv: "sl_inv cmp sl chain"
  shows "sl_Contains cmp sl k = Some (\<exists>x \<in> set chain. cmp k (sl_key sl x) = 0)"
proof -
  have below: "cmp k (sl_key sl x) \<noteq> 0" if "x \<in> set (below sl k chain)" for x
    using split_chain(2) [OF inv that] flip [of "sl_key sl x" k] by simp
  have "set chain = set (below sl k chain) \<union> set (above sl k chain)"
    by (metis set_append takeWhile_dropWhile_id)
  then have all: "(\<exists>x \<in> set chain. cmp k (sl_key sl x) = 0) \<longleftrightarrow> (\<exists>x \<in> set (above sl k chain). cmp k (sl_key sl x) = 0)"
    using below by blast
  have find: "sl_Contains cmp sl k = Some (case first (above sl k chain) None of None \<Rightarrow> False | Some x \<Rightarrow> cmp k (sl_key sl x) = 0)"
    using FindGreaterOrEqual_result [OF inv, of None k] by (simp add: sl_Contains_def)
  show ?thesis
  proof (cases "above sl k chain")
    case Nil
    show ?thesis unfolding find all Nil by simp
  next
    case (Cons x xs)
    have "sorted_wrt (\<lambda>x y. cmp (sl_key sl x) (sl_key sl y) < 0) (below sl k chain @ x # xs)"
      using inv Cons unfolding sl_inv_def by (metis takeWhile_dropWhile_id)
    then have less: "cmp (sl_key sl x) (sl_key sl y) < 0" if "y \<in> set xs" for y
      using that by (simp add: sorted_wrt_append)
    have "cmp k (sl_key sl x) \<le> 0" using split_chain(3) [OF inv, of x k] Cons by simp
    then have "cmp k (sl_key sl y) \<noteq> 0" if "y \<in> set xs" for y
      using le_less_trans [OF _ less [OF that]] by fastforce
    then show ?thesis unfolding find all Cons by auto
  qed
qed

end

section \<open>The interface of a sorted table\<close>

text \<open>
  What the memtable needs of its table: an empty table, insertion of a key that compares equal
  to none in it, and the search for the first key that is not smaller than a target.
\<close>

locale sorted_table = key_order cmp for cmp :: "'k \<Rightarrow> 'k \<Rightarrow> int" +
  fixes rep :: "'s \<Rightarrow> 'k list \<Rightarrow> bool"
    and empty :: 's
    and insert :: "'s \<Rightarrow> 'k \<Rightarrow> 's option"
    and seek :: "'s \<Rightarrow> 'k \<Rightarrow> 'k option option"
  assumes rep_empty: "rep empty []"
    and rep_sorted: "rep s ks \<Longrightarrow> sorted_wrt (\<lambda>a b. cmp a b < 0) ks"
    and rep_insert: "rep s ks \<Longrightarrow> (\<And>a. a \<in> set ks \<Longrightarrow> cmp a k \<noteq> 0) \<Longrightarrow>
      \<exists>s'. insert s k = Some s' \<and> rep s' (insert_sorted cmp k ks)"
    and seek: "rep s ks \<Longrightarrow> seek s k = Some (find (\<lambda>a. cmp k a \<le> 0) ks)"
begin

text \<open>A seek finds the least key that is not below the target.\<close>

lemma seek_least:
  assumes "rep s ks" "a \<in> set ks" "cmp k a \<le> 0" and least: "\<And>b. b \<in> set ks \<Longrightarrow> cmp k b \<le> 0 \<Longrightarrow> cmp a b \<le> 0"
  shows "seek s k = Some (Some a)"
proof -
  obtain xs ys where ks: "ks = xs @ a # ys" using split_list [OF assms(2)] by blast
  have "\<not> cmp k b \<le> 0" if "b \<in> set xs" for b
  proof
    assume "cmp k b \<le> 0"
    then have "cmp a b \<le> 0" using least that ks by simp
    moreover have "cmp b a < 0" using rep_sorted [OF assms(1)] that ks by (simp add: sorted_wrt_append)
    ultimately show False using not_le [of a b] by blast
  qed
  then have "find (\<lambda>a. cmp k a \<le> 0) xs = None" by (simp add: find_None_iff)
  then have "find (\<lambda>a. cmp k a \<le> 0) ks = Some a"
    using assms(3) ks by (induction xs arbitrary: ks) (auto split: if_splits)
  then show ?thesis using seek [OF assms(1)] by simp
qed

lemma seek_none: "rep s ks \<Longrightarrow> (\<And>b. b \<in> set ks \<Longrightarrow> \<not> cmp k b \<le> 0) \<Longrightarrow> seek s k = Some None"
  using seek [of s ks k] by (simp add: find_None_iff)

lemma seek_some:
  assumes "rep s ks" "seek s k = Some (Some a)"
  shows "a \<in> set ks \<and> cmp k a \<le> 0 \<and> (\<forall>b \<in> set ks. cmp k b \<le> 0 \<longrightarrow> cmp a b \<le> 0)"
proof -
  have f: "find (\<lambda>a. cmp k a \<le> 0) ks = Some a" using assms seek [OF assms(1), of k] by simp
  then obtain i where i: "i < length ks" "a = ks ! i" "cmp k a \<le> 0" "\<And>j. j < i \<Longrightarrow> \<not> cmp k (ks ! j) \<le> 0"
    by (auto simp: find_Some_iff)
  have "cmp a (ks ! j) \<le> 0" if "j < length ks" "cmp k (ks ! j) \<le> 0" for j
  proof (cases "i = j")
    case False
    then have "i < j" using i(4) that(2) by (meson linorder_neqE_nat)
    then show ?thesis using sorted_wrt_nth_less [OF rep_sorted [OF assms(1)], of i j] that(1) i(2) by simp
  qed (use i(2) in simp)
  then show ?thesis using i by (auto simp: in_set_conv_nth)
qed

end

definition sl_represents :: "('k \<Rightarrow> 'k \<Rightarrow> int) \<Rightarrow> 'k skiplist \<Rightarrow> 'k list \<Rightarrow> bool" where
  "sl_represents cmp sl ks \<longleftrightarrow> (\<exists>chain. sl_inv cmp sl chain \<and> sl_abs sl chain = ks)"

definition sl_seek :: "('k \<Rightarrow> 'k \<Rightarrow> int) \<Rightarrow> 'k skiplist \<Rightarrow> 'k \<Rightarrow> 'k option option" where
  "sl_seek cmp sl k = map_option (it_key sl) (it_Seek cmp sl k)"

lemma first_dropWhile: "map_option f (first (dropWhile P xs) None) = find (\<lambda>a. \<not> P' a) (map f xs)"
  if "\<And>x. x \<in> set xs \<Longrightarrow> P x = P' (f x)"
  using that by (induction xs) auto

context key_order
begin

lemma skiplist_table: "sorted_table cmp (sl_represents cmp) (SkipList key0) (sl_Insert cmp) (sl_seek cmp)"
proof
  show "sl_represents cmp (SkipList key0) []"
    using sl_inv_SkipList by (auto simp: sl_represents_def sl_abs_def)
  fix s ks k
  assume "sl_represents cmp s ks"
  then obtain chain where c: "sl_inv cmp s chain" "ks = map (sl_key s) chain"
    by (auto simp: sl_represents_def sl_abs_def)
  then show "sorted_wrt (\<lambda>a b. cmp a b < 0) ks" by (simp add: sl_inv_def sorted_wrt_map)
  have "sl_seek cmp s k = Some (map_option (sl_key s) (first (above s k chain) None))"
    using it_Seek_result [OF c(1)] by (simp add: sl_seek_def it_key_def)
  also have "map_option (sl_key s) (first (above s k chain) None) = find (\<lambda>a. \<not> cmp a k < 0) ks"
    unfolding c(2) by (rule first_dropWhile) simp
  finally show "sl_seek cmp s k = Some (find (\<lambda>a. cmp k a \<le> 0) ks)" by (simp add: not_less)
  assume "\<And>a. a \<in> set ks \<Longrightarrow> cmp a k \<noteq> 0"
  then show "\<exists>s'. sl_Insert cmp s k = Some s' \<and> sl_represents cmp s' (insert_sorted cmp k ks)"
    using sl_Insert_result [OF c(1), of k] c by (fastforce simp: sl_represents_def sl_abs_def)
qed

end

section \<open>Inserting and iterating\<close>

text \<open>A list of keys inserted one after the other.\<close>

primrec insert_all :: "('s \<Rightarrow> 'k \<Rightarrow> 's option) \<Rightarrow> 'k list \<Rightarrow> 's \<Rightarrow> 's option" where
  "insert_all ins [] s = Some s"
| "insert_all ins (k # ks) s = Option.bind (ins s k) (insert_all ins ks)"

text \<open>\<open>for (iter.SeekToFirst(); iter.Valid(); iter.Next())\<close>, from a node on and for \<open>n\<close> keys at most.\<close>

primrec it_collect :: "nat \<Rightarrow> 'k skiplist \<Rightarrow> nat option \<Rightarrow> 'k list option" where
  "it_collect 0 sl node = (if it_Valid node then None else Some [])"
| "it_collect (Suc n) sl node =
     (case it_key sl node of
        None \<Rightarrow> Some []
      | Some k \<Rightarrow> Option.bind (it_Next sl node) (\<lambda>node. map_option ((#) k) (it_collect n sl node)))"

lemma it_collect_chain:
  "sl_inv cmp sl (xs @ ys) \<Longrightarrow> length ys \<le> n \<Longrightarrow> it_collect n sl (first ys None) = Some (map (sl_key sl) ys)"
proof (induction ys arbitrary: xs n)
  case Nil
  then show ?case by (cases n) (simp_all add: it_Valid_def it_key_def)
next
  case (Cons y ys)
  then obtain m where m: "n = Suc m" "length ys \<le> m" by (cases n) simp_all
  have "it_collect m sl (first ys None) = Some (map (sl_key sl) ys)"
    by (rule Cons.IH [of "xs @ [y]"]) (use Cons.prems m in simp_all)
  then show ?case using it_Next_result [OF Cons.prems(1)] m(1) by (simp add: it_key_def)
qed

context sorted_table
begin

lemma insert_all_rep:
  assumes "rep s as" "sorted_wrt (\<lambda>a b. cmp a b \<noteq> 0) ks"
    and "\<And>a k. a \<in> set as \<Longrightarrow> k \<in> set ks \<Longrightarrow> cmp a k \<noteq> 0"
  shows "\<exists>s' bs. insert_all insert ks s = Some s' \<and> rep s' bs \<and> set bs = set as \<union> set ks \<and>
    length bs = length as + length ks"
  using assms
proof (induction ks arbitrary: s as)
  case (Cons k ks)
  obtain s1 where s1: "insert s k = Some s1" "rep s1 (insert_sorted cmp k as)"
    using rep_insert [OF Cons.prems(1), of k] Cons.prems(3) by auto
  have "\<exists>s' bs. insert_all insert ks s1 = Some s' \<and> rep s' bs \<and> set bs = set (insert_sorted cmp k as) \<union> set ks \<and>
      length bs = length (insert_sorted cmp k as) + length ks"
    by (rule Cons.IH [OF s1(2)]) (use Cons.prems in auto)
  then show ?case using s1(1) length_insert_sorted [of cmp k as] by auto
qed auto

end

text \<open>
  C30. The skip list is a sorted list: for every comparison that is a total preorder, inserting
  keys of which no two compare equal into an empty skip list succeeds (no search runs for ever or
  leaves the node arrays, whatever heights the random numbers give), and iterating from
  \<open>SeekToFirst\<close> with \<open>Next\<close> then visits exactly these keys in strictly increasing order.
\<close>

theorem skiplist_sorts:
  assumes "key_order cmp" and "sorted_wrt (\<lambda>a b. cmp a b \<noteq> 0) ks"
  shows "\<exists>sl node out. insert_all (sl_Insert cmp) ks (SkipList key0) = Some sl \<and> it_SeekToFirst sl = Some node \<and>
    it_collect (length ks) sl node = Some out \<and> sorted_wrt (\<lambda>a b. cmp a b < 0) out \<and> set out = set ks"
proof -
  note table = key_order.skiplist_table [OF assms(1), of key0]
  obtain sl bs where sl: "insert_all (sl_Insert cmp) ks (SkipList key0) = Some sl" "sl_represents cmp sl bs"
      "set bs = set ks" "length bs = length ks"
    using sorted_table.insert_all_rep [OF table sorted_table.rep_empty [OF table] assms(2)] by auto
  then obtain chain where c: "sl_inv cmp sl ([] @ chain)" "map (sl_key sl) chain = bs"
    by (auto simp: sl_represents_def sl_abs_def)
  have "it_collect (length ks) sl (first chain None) = Some bs"
    using it_collect_chain [OF c(1), of "length ks"] c(2) sl(4) by auto
  then show ?thesis
    using sl it_SeekToFirst_result [of cmp sl chain] c(1) sorted_table.rep_sorted [OF table sl(2)] by auto
qed

theorem skiplist_sorts_witness:
  "\<exists>sl node out. insert_all (sl_Insert (\<lambda>a b :: int. a - b)) [5, 1, 3] (SkipList 0) = Some sl \<and> it_SeekToFirst sl = Some node \<and>
    it_collect (length [5 :: int, 1, 3]) sl node = Some out \<and> sorted_wrt (\<lambda>a b. a - b < 0) out \<and> set out = set [5, 1, 3]"
  by (rule skiplist_sorts) (unfold_locales, auto)

end
