(* ===== verification/MemTableSpec.thy ===== *)
theory MemTableSpec
  imports MemTable DbFormatSpec SkipListSpec
begin

text \<open>
  The memtable as the list of the writes it has received: a lookup at a sequence number gives the
  newest write of the key that is not newer. The proofs use the skip list only through the
  interface \<open>sorted_table\<close>, which the skip list with the memtable's comparison interprets.
\<close>

lemma key_order_inv_image: "key_order cmp \<Longrightarrow> key_order (\<lambda>a b. cmp (f a) (f b))"
  unfolding key_order_def by blast

lemma mem_key_order: "key_order (mem_compare BytewiseComparator)"
  unfolding mem_compare_def by (rule key_order_inv_image) (rule internal.key_order_axioms)

interpretation memtable: sorted_table "mem_compare BytewiseComparator"
    "sl_represents (mem_compare BytewiseComparator)" MemTable "sl_Insert (mem_compare BytewiseComparator)"
    "sl_seek (mem_compare BytewiseComparator)"
  unfolding MemTable_def by (rule key_order.skiplist_table [OF mem_key_order])

section \<open>Entries\<close>

text \<open>A write: sequence number, type, key and value.\<close>

type_synonym mem_write = "u64 \<times> ValueType \<times> u8 list \<times> u8 list"

fun entry_of :: "mem_write \<Rightarrow> u8 list" where
  "entry_of (s, t, k, v) = mem_entry s t k v"

fun write_ok :: "mem_write \<Rightarrow> bool" where
  "write_ok (s, t, k, v) \<longleftrightarrow> s \<le> kMaxSequenceNumber \<and> length k + 8 < 2 ^ 32 \<and> length v < 2 ^ 32"

lemma mem_slice_Encode:
  "length s < 2 ^ 32 \<Longrightarrow> mem_slice (EncodeVarint32 (of_nat (length s)) @ s @ rest) = Some (s, rest)"
  using unat_of_nat_small [of "length s", where ?'a = 32] by (simp add: mem_slice_def GetVarint32Ptr_Encode)

lemma mem_entry_slice:
  assumes "length k + 8 < 2 ^ 32"
  shows "mem_slice (mem_entry s t k v) =
    Some (k @ EncodeFixed64 (PackSequenceAndType s t), EncodeVarint32 (of_nat (length v)) @ v)"
  using mem_slice_Encode [of "k @ EncodeFixed64 (PackSequenceAndType s t)"] assms
  by (simp add: mem_entry_def PackSequenceAndType_def)

lemma lookup_slice:
  assumes "length u + 8 < 2 ^ 32"
  shows "mem_slice (lookup_memtable_key u s) = Some (u @ EncodeFixed64 (PackSequenceAndType s kTypeValue), [])"
  using mem_slice_Encode [of "u @ EncodeFixed64 (PackSequenceAndType s kTypeValue)" "[]"] assms
  by (simp add: lookup_memtable_key_def lookup_internal_key_def kValueTypeForSeek_def)

lemma internal_compare_parts:
  "internal_compare BytewiseComparator (a @ EncodeFixed64 m) (b @ EncodeFixed64 n) =
     (if slice_compare a b = 0 then (if n < m then - 1 else if m < n then 1 else 0) else slice_compare a b)"
  by (simp add: internal_compare_def Let_def)

lemma encoded_len_exact:
  assumes "length k + 8 < 2 ^ 32" "length v < 2 ^ 32"
  shows "encoded_len k v = int (length (mem_entry s t k v))"
proof -
  have len: "VarintLength (of_nat n) = int (length (EncodeVarint32 (of_nat n)))" if "n < 2 ^ 32" for n
    using that unat_of_nat_small [of n, where ?'a = 32] unat_of_nat64 [of n]
    by (simp add: VarintLength_bytes EncodeVarint32_bytes)
  from len [of "length k + 8"] len [of "length v"] show ?thesis
    using assms by (simp add: encoded_len_def mem_entry_def Let_def)
qed

section \<open>Lookups\<close>

text \<open>The writes of a key that a reader at sequence number \<open>s\<close> may see, and the answer to the reader.\<close>

definition seen :: "mem_write list \<Rightarrow> u8 list \<Rightarrow> u64 \<Rightarrow> mem_write set" where
  "seen ws u s = {(q, t, k, v) \<in> set ws. k = u \<and> q \<le> s}"

fun answer :: "mem_write \<Rightarrow> get_result" where
  "answer (s, t, k, v) = (case t of kTypeValue \<Rightarrow> Found v | kTypeDeletion \<Rightarrow> Deleted)"

lemma mem_compare_entries:
  assumes "write_ok (s, t, k, v)" "write_ok (s', t', k', v')"
  shows "mem_compare BytewiseComparator (mem_entry s t k v) (mem_entry s' t' k' v') =
    (if k = k' then (if PackSequenceAndType s' t' < PackSequenceAndType s t then - 1
       else if PackSequenceAndType s t < PackSequenceAndType s' t' then 1 else 0) else slice_compare k k')"
  using assms by (simp add: mem_compare_def mem_entry_slice internal_compare_parts slice_compare_eq)

lemma mem_compare_lookup:
  assumes "write_ok (q, t, k, v)" "length u + 8 < 2 ^ 32" "s \<le> kMaxSequenceNumber"
  shows "mem_compare BytewiseComparator (lookup_memtable_key u s) (mem_entry q t k v) \<le> 0 \<longleftrightarrow>
    (if k = u then q \<le> s else slice_compare u k < 0)"
proof (cases "k = u")
  case True
  then show ?thesis
    using assms Pack_le [of q s t] by (auto simp: mem_compare_def mem_entry_slice lookup_slice internal_compare_parts)
next
  case False
  then have "slice_compare u k \<noteq> 0" using slice_compare_eq [of u k] by auto
  then show ?thesis
    using False assms by (auto simp: mem_compare_def mem_entry_slice lookup_slice internal_compare_parts)
qed

lemma Pack_less:
  "s \<le> kMaxSequenceNumber \<Longrightarrow> s' \<le> kMaxSequenceNumber \<Longrightarrow> s < s' \<Longrightarrow> PackSequenceAndType s t < PackSequenceAndType s' t'"
  by (cases t; cases t') (simp_all add: word_less_nat_alt unat_Pack)

text \<open>What \<open>Get\<close> makes of the entry the search has found.\<close>

lemma Get_entry:
  assumes "sl_seek (mem_compare BytewiseComparator) mem (lookup_memtable_key u s) = Some (Some (mem_entry q t k v))"
    and "write_ok (q, t, k, v)"
  shows "MemTable_Get BytewiseComparator mem u s = Some (if k = u then answer (q, t, k, v) else Missing)"
proof -
  obtain iter where iter: "it_Seek (mem_compare BytewiseComparator) mem (lookup_memtable_key u s) = Some iter"
      "it_key mem iter = Some (mem_entry q t k v)"
    using assms(1) by (auto simp: sl_seek_def)
  let ?n = "of_nat (length k + 8) :: u32" and ?num = "PackSequenceAndType q t"
  let ?ptr = "k @ EncodeFixed64 ?num @ EncodeVarint32 (of_nat (length v)) @ v"
  have n: "unat ?n = length k + 8" by (rule unat_of_nat_small) (use assms(2) in simp)
  have n8: "unat (?n - 8) = length k"
    using unat_of_nat_small [of "length k", where ?'a = 32] assms(2) by simp
  have ptr: "GetVarint32Ptr (mem_entry q t k v) = Some (?n, ?ptr)"
    by (simp add: mem_entry_def GetVarint32Ptr_Encode PackSequenceAndType_def)
  have slice: "mem_slice (drop (unat ?n) ?ptr) = Some (v, [])"
    using mem_slice_Encode [of v "[]"] assms(2) n by simp
  have tag: "?num AND 0xff = type_code t"
  proof -
    have "unat (?num AND 0xff) = unat ?num mod 2 ^ 8" unfolding and_ff by (rule unat_take_bit_mod)
    also have "\<dots> = unat (type_code t)" using assms(2) by (cases t) (simp_all add: unat_Pack)
    finally show ?thesis by (simp add: word_unat_eq_iff)
  qed
  have dec: "DecodeFixed64 (drop (unat ?n - 8) ?ptr) = Some ?num"
    using n by simp
  show ?thesis
    unfolding MemTable_Get_def iter(1) bind.simps iter(2) option.case ptr prod.case dec slice n8
    by (cases t) (use tag in \<open>simp_all add: slice_compare_eq\<close>)
qed

primrec mem_adds :: "Comparator \<Rightarrow> mem_write list \<Rightarrow> memtable \<Rightarrow> memtable option" where
  "mem_adds user [] mem = Some mem"
| "mem_adds user (w # ws) mem =
     (case w of (s, t, k, v) \<Rightarrow> Option.bind (MemTable_Add user mem s t k v) (mem_adds user ws))"

lemma mem_adds_insert_all:
  "(\<And>w. w \<in> set ws \<Longrightarrow> write_ok w) \<Longrightarrow> mem_adds BytewiseComparator ws mem =
     insert_all (sl_Insert (mem_compare BytewiseComparator)) (map entry_of ws) mem"
proof (induction ws arbitrary: mem)
  case (Cons w ws)
  obtain s t k v where w: "w = (s, t, k, v)" by (cases w)
  then have "MemTable_Add BytewiseComparator mem s t k v =
      sl_Insert (mem_compare BytewiseComparator) mem (mem_entry s t k v)"
    using Cons.prems [of w] encoded_len_exact [of k v s t] by (simp add: MemTable_Add_def)
  then show ?case using Cons w by (auto intro: Option.bind_cong)
qed simp

text \<open>The memtable holds the entries of the writes \<open>ws\<close>, whose sequence numbers are all different.\<close>

definition holds :: "memtable \<Rightarrow> mem_write list \<Rightarrow> bool" where
  "holds mem ws \<longleftrightarrow> (\<exists>ks. sl_represents (mem_compare BytewiseComparator) mem ks \<and> set ks = entry_of ` set ws) \<and>
     distinct (map fst ws) \<and> (\<forall>w \<in> set ws. write_ok w)"

lemma entries_differ:
  assumes "write_ok w" "write_ok w'" "fst w \<noteq> fst w'"
  shows "mem_compare BytewiseComparator (entry_of w) (entry_of w') \<noteq> 0"
proof -
  obtain s t k v s' t' k' v' where w: "w = (s, t, k, v)" "w' = (s', t', k', v')" by (cases w; cases w')
  have "PackSequenceAndType s t < PackSequenceAndType s' t' \<or> PackSequenceAndType s' t' < PackSequenceAndType s t"
    using assms w Pack_less [of s s' t t'] Pack_less [of s' s t' t] linorder_neqE [of s s'] by auto
  then show ?thesis
    using assms(1,2) slice_compare_eq [of k k'] by (auto simp: w mem_compare_entries)
qed

lemma mem_adds_holds:
  assumes "holds mem ws" "distinct (map fst (ws @ ws'))" "\<And>w. w \<in> set ws' \<Longrightarrow> write_ok w"
  shows "\<exists>mem'. mem_adds BytewiseComparator ws' mem = Some mem' \<and> holds mem' (ws @ ws')"
proof -
  let ?cmp = "mem_compare BytewiseComparator"
  obtain ks where ks: "sl_represents ?cmp mem ks" "set ks = entry_of ` set ws" "\<And>w. w \<in> set ws \<Longrightarrow> write_ok w"
    using assms(1) by (auto simp: holds_def)
  have "sorted_wrt (\<lambda>w w'. fst w \<noteq> fst w') ws'" 
    using assms(2) by (induction ws') auto
  then have "sorted_wrt (\<lambda>w w'. ?cmp (entry_of w) (entry_of w') \<noteq> 0) ws'"
    by (rule sorted_wrt_mono_rel [rotated]) (use assms(3) entries_differ in auto)
  then have differ: "sorted_wrt (\<lambda>a b. ?cmp a b \<noteq> 0) (map entry_of ws')" by (simp add: sorted_wrt_map)
  have "?cmp a k \<noteq> 0" if a: "a \<in> set ks" and k: "k \<in> set (map entry_of ws')" for a k
  proof -
    obtain w w' where w: "w \<in> set ws" "a = entry_of w" "w' \<in> set ws'" "k = entry_of w'" using a k ks(2) by auto
    then have "fst w \<noteq> fst w'" using assms(2) by (auto simp: image_iff disjoint_iff)
    then show ?thesis using entries_differ [of w w'] ks(3) assms(3) w by simp
  qed
  from memtable.insert_all_rep [OF ks(1) differ this] obtain mem' bs where
    "insert_all (sl_Insert ?cmp) (map entry_of ws') mem = Some mem'" "sl_represents ?cmp mem' bs"
    "set bs = set ks \<union> set (map entry_of ws')" by blast
  then show ?thesis
    using mem_adds_insert_all [of ws' mem] assms ks by (auto simp: holds_def image_Un)
qed

lemma holds_empty: "holds MemTable []"
  using memtable.rep_empty by (auto simp: holds_def)

lemma Get_newest:
  assumes "holds mem ws" "length u + 8 < 2 ^ 32" "s \<le> kMaxSequenceNumber"
    and w: "w \<in> seen ws u s" "\<And>w'. w' \<in> seen ws u s \<Longrightarrow> fst w' \<le> fst w"
  shows "MemTable_Get BytewiseComparator mem u s = Some (answer w)"
proof -
  let ?cmp = "mem_compare BytewiseComparator" and ?look = "lookup_memtable_key u s"
  obtain ks where ks: "sl_represents ?cmp mem ks" "set ks = entry_of ` set ws"
    using assms(1) by (auto simp: holds_def)
  have ok: "\<And>w. w \<in> set ws \<Longrightarrow> write_ok w" using assms(1) by (simp add: holds_def)
  have inj: "inj_on fst (set ws)" using assms(1) by (simp add: holds_def distinct_map)
  obtain q t v where q: "w = (q, t, u, v)" "(q, t, u, v) \<in> set ws" "q \<le> s" using w(1) by (auto simp: seen_def)
  have "sl_seek ?cmp mem ?look = Some (Some (mem_entry q t u v))"
  proof (rule memtable.seek_least [OF ks(1)])
    show "mem_entry q t u v \<in> set ks" using q(2) ks(2) by force
    show "?cmp ?look (mem_entry q t u v) \<le> 0"
      using mem_compare_lookup [OF ok [OF q(2)] assms(2,3)] q(3) by simp
    fix b assume b: "b \<in> set ks" "?cmp ?look b \<le> 0"
    obtain w' where "w' \<in> set ws" "b = entry_of w'" using b(1) ks(2) by auto
    moreover obtain q' t' k' v' where "w' = (q', t', k', v')" by (cases w')
    ultimately have w': "w' = (q', t', k', v')" "(q', t', k', v') \<in> set ws" "b = mem_entry q' t' k' v'"
      by simp_all
    show "?cmp (mem_entry q t u v) b \<le> 0"
    proof (cases "k' = u")
      case True
      then have "q' \<le> q"
        using mem_compare_lookup [OF ok [OF w'(2)] assms(2,3)] b(2) w' w(2) [of w'] q(1) by (auto simp: seen_def)
      moreover have "q' = q \<Longrightarrow> w' = w"
        using inj_onD [OF inj, of w' w] q w' by simp
      ultimately have "q' < q \<or> w' = w" using order_le_less [of q' q] by blast
      then show ?thesis
        using Pack_less [of q' q t' t] ok [OF q(2)] ok [OF w'(2)] True w'(1,3) q(1)
        by (auto simp: mem_compare_entries)
    next
      case False
      then have "slice_compare u k' < 0"
        using mem_compare_lookup [OF ok [OF w'(2)] assms(2,3)] b(2) w'(3) by simp
      then show ?thesis using False ok [OF q(2)] ok [OF w'(2)] w'(3) by (simp add: mem_compare_entries)
    qed
  qed
  then show ?thesis using Get_entry [OF _ ok [OF q(2)]] q(1) by simp
qed

lemma Get_missing:
  assumes "holds mem ws" "length u + 8 < 2 ^ 32" "s \<le> kMaxSequenceNumber" "seen ws u s = {}"
  shows "MemTable_Get BytewiseComparator mem u s = Some Missing"
proof -
  let ?cmp = "mem_compare BytewiseComparator" and ?look = "lookup_memtable_key u s"
  obtain ks where ks: "sl_represents ?cmp mem ks" "set ks = entry_of ` set ws"
    using assms(1) by (auto simp: holds_def)
  have ok: "\<And>w. w \<in> set ws \<Longrightarrow> write_ok w" using assms(1) by (simp add: holds_def)
  obtain r where r: "sl_seek ?cmp mem ?look = Some r" using memtable.seek [OF ks(1)] by blast
  show ?thesis
  proof (cases r)
    case None
    then show ?thesis using r by (auto simp: sl_seek_def MemTable_Get_def)
  next
    case (Some a)
    have a: "a \<in> set ks" "?cmp ?look a \<le> 0" using memtable.seek_some [OF ks(1)] r Some by auto
    then obtain w' where "w' \<in> set ws" "a = entry_of w'" using ks(2) by auto
    moreover obtain q t k v where "w' = (q, t, k, v)" by (cases w')
    ultimately have w': "(q, t, k, v) \<in> set ws" "a = mem_entry q t k v" by simp_all
    have "k \<noteq> u"
      using mem_compare_lookup [OF ok [OF w'(1)] assms(2,3)] a(2) w' assms(4) by (auto simp: seen_def, blast)
    then show ?thesis using Get_entry [OF _ ok [OF w'(1)]] r Some w'(2) by simp
  qed
qed

lemma mem_adds_all:
  assumes "distinct (map fst ws)" "\<And>w. w \<in> set ws \<Longrightarrow> write_ok w"
  shows "\<exists>mem. mem_adds BytewiseComparator ws MemTable = Some mem \<and> holds mem ws"
  using mem_adds_holds [OF holds_empty, of ws] assms by simp

text \<open>
  C31. The memtable answers a lookup with the newest write a reader may see: after any sequence of
  \<open>Add\<close>s with different sequence numbers, \<open>Get\<close> of a user key at a sequence number s returns, and it
  finds the value or the deletion of the write of this key with the largest sequence number not
  above s, if there is one.
\<close>

theorem memtable_get_newest:
  assumes "distinct (map fst ws)" and "\<And>w. w \<in> set ws \<Longrightarrow> write_ok w"
    and "length u + 8 < 2 ^ 32" and "s \<le> kMaxSequenceNumber"
    and "w \<in> seen ws u s" and "\<And>w'. w' \<in> seen ws u s \<Longrightarrow> fst w' \<le> fst w"
  shows "Option.bind (mem_adds BytewiseComparator ws MemTable)
    (\<lambda>mem. MemTable_Get BytewiseComparator mem u s) = Some (answer w)"
proof -
  obtain mem where "mem_adds BytewiseComparator ws MemTable = Some mem" "holds mem ws"
    using mem_adds_all [OF assms(1,2)] by blast
  then show ?thesis using Get_newest [OF _ assms(3,4,5,6)] by simp
qed

theorem memtable_get_newest_witness:
  "Option.bind (mem_adds BytewiseComparator [(5, kTypeValue, [7], [1]), (6, kTypeDeletion, [7], []), (4, kTypeValue, [9], [2])] MemTable)
    (\<lambda>mem. MemTable_Get BytewiseComparator mem [7] 8) = Some Deleted"
proof -
  let ?ws = "[(5, kTypeValue, [7], [1]), (6, kTypeDeletion, [7], []), (4, kTypeValue, [9], [2])] :: mem_write list"
  let ?w = "(6, kTypeDeletion, [7], []) :: mem_write"
  have seen: "seen ?ws [7] 8 = {(5, kTypeValue, [7], [1]), ?w}"
    by (auto simp: seen_def)
  have "Option.bind (mem_adds BytewiseComparator ?ws MemTable)
      (\<lambda>mem. MemTable_Get BytewiseComparator mem [7] 8) = Some (answer ?w)"
    by (rule memtable_get_newest) (auto simp: seen kMaxSequenceNumber_def)
  then show ?thesis by simp
qed

end
