(* ===== verification/WriteBatchSpec.thy ===== *)
theory WriteBatchSpec
  imports WriteBatch MemTableSpec
begin

text \<open>
  A write batch stands for the list of its operations: building a batch and iterating over it gives
  the operations back, and a batch inserted into a memtable is read back at every sequence number
  as the operations up to it.
\<close>

section \<open>Batches and lists of operations\<close>

primrec add_op :: "batch_op \<Rightarrow> write_batch \<Rightarrow> write_batch option" where
  "add_op (PutOp k v) b = WB_Put b k v"
| "add_op (DeleteOp k) b = WB_Delete b k"

text \<open>Operations one after the other, each of which may have no outcome.\<close>

primrec apply_ops :: "('o \<Rightarrow> 'h \<Rightarrow> 'h option) \<Rightarrow> 'o list \<Rightarrow> 'h \<Rightarrow> 'h option" where
  "apply_ops f [] h = Some h"
| "apply_ops f (x # xs) h = Option.bind (f x h) (apply_ops f xs)"

primrec op_ok :: "batch_op \<Rightarrow> bool" where
  "op_ok (PutOp k v) \<longleftrightarrow> length k + 8 < 2 ^ 32 \<and> length v < 2 ^ 32"
| "op_ok (DeleteOp k) \<longleftrightarrow> length k + 8 < 2 ^ 32"

primrec op_bytes :: "batch_op \<Rightarrow> u8 list" where
  "op_bytes (PutOp k v) = 1 # PutLengthPrefixedSlice [] k @ PutLengthPrefixedSlice [] v"
| "op_bytes (DeleteOp k) = 0 # PutLengthPrefixedSlice [] k"

definition batch_of :: "u64 \<Rightarrow> batch_op list \<Rightarrow> write_batch" where
  "batch_of seq ops =
     EncodeFixed64 seq @ EncodeFixed32 (of_nat (length ops)) @ concat (map op_bytes ops)"

lemma Clear_batch: "WB_Clear = batch_of 0 []"
  by (simp add: batch_of_def WB_Clear_def kHeader_def EncodeFixed64_def EncodeFixed32_def kLittleEndian_def
      bytes_of_word_def upt_rec numeral_eq_Suc)

lemma Count_batch: "length ops < 2 ^ 31 \<Longrightarrow> WB_Count (batch_of seq ops) = Some (int (length ops))"
  by (simp add: WB_Count_def batch_of_def sint_of_nat)

lemma SetCount_batch:
  "WB_SetCount (batch_of seq ops) n = EncodeFixed64 seq @ EncodeFixed32 (of_int n) @ concat (map op_bytes ops)"
  by (simp add: WB_SetCount_def batch_of_def)

lemma SetSequence_batch: "WB_SetSequence (batch_of seq ops) seq' = batch_of seq' ops"
  by (simp add: WB_SetSequence_def batch_of_def)

lemma Sequence_batch: "WB_Sequence (batch_of seq ops) = Some seq"
  by (simp add: WB_Sequence_def batch_of_def)

lemma add_op_batch:
  assumes "length ops + 1 < 2 ^ 31"
  shows "add_op op (batch_of seq ops) = Some (batch_of seq (ops @ [op]))"
proof -
  have "int_add (int (length ops)) 1 = Some (int (length ops) + 1)" using assms by (simp add: int_add_def)
  then show ?thesis
    using Count_batch [of ops seq] assms
    by (cases op) (simp_all add: WB_Put_def WB_Delete_def SetCount_batch Let_def batch_of_def [of seq "ops @ _"]
        PutLengthPrefixedSlice_append [of "_ @ _"] PutLengthPrefixedSlice_append [of "_ # _"] add.commute)
qed

lemma add_ops_batch:
  "length ops + length ops' < 2 ^ 31 \<Longrightarrow> apply_ops add_op ops' (batch_of seq ops) = Some (batch_of seq (ops @ ops'))"
  by (induction ops' arbitrary: ops) (simp_all add: add_op_batch)

lemma batch_loop_ops:
  assumes "\<And>op. op \<in> set ops \<Longrightarrow> op_ok op" "0 \<le> found" "found + int (length ops) < 2 ^ 31"
  shows "batch_loop handler found (concat (map op_bytes ops)) h =
    map_option (\<lambda>h. (OK, found + int (length ops), h)) (apply_ops handler ops h)"
  using assms
proof (induction ops arbitrary: found h)
  case (Cons op ops)
  have found: "int_add found 1 = Some (found + 1)" using Cons.prems by (simp add: int_add_def)
  have IH: "batch_loop handler (found + 1) (concat (map op_bytes ops)) =
      (\<lambda>h. map_option (\<lambda>h. (OK, found + int (length (op # ops)), h)) (apply_ops handler ops h))"
    using Cons.prems by (intro ext) (simp add: Cons.IH add.assoc)
  have "op_ok op" using Cons.prems by simp
  then show ?case
    by (cases op) (simp_all add: found IH map_option_bind comp_def)
qed simp

lemma Iterate_batch:
  assumes "\<And>op. op \<in> set ops \<Longrightarrow> op_ok op" "length ops < 2 ^ 31"
  shows "WB_Iterate handler (batch_of seq ops) h = map_option (Pair OK) (apply_ops handler ops h)"
proof -
  have "\<not> length (batch_of seq ops) < kHeader" "drop kHeader (batch_of seq ops) = concat (map op_bytes ops)"
    by (simp_all add: batch_of_def kHeader_def)
  then show ?thesis
    using batch_loop_ops [of ops 0 handler h] assms
    by (cases "apply_ops handler ops h") (simp_all add: WB_Iterate_def Count_batch)
qed

text \<open>
  C32. A batch is the list of its operations: from an empty batch, any \<open>Put\<close>s and \<open>Delete\<close>s succeed,
  and \<open>Iterate\<close> then gives the handler exactly these operations in their order and returns \<open>OK\<close>.
\<close>

theorem batch_roundtrip:
  assumes "\<And>op. op \<in> set ops \<Longrightarrow> op_ok op" and "length ops < 2 ^ 31"
  shows "Option.bind (apply_ops add_op ops WB_Clear) (\<lambda>b. WB_Iterate handler b h) =
    map_option (Pair OK) (apply_ops handler ops h)"
  using add_ops_batch [of "[]" ops 0] assms(2) by (simp add: Clear_batch Iterate_batch [OF assms])

theorem batch_roundtrip_witness:
  "Option.bind (apply_ops add_op [PutOp [1] [2, 3], DeleteOp [], PutOp [4] []] WB_Clear)
     (\<lambda>b. WB_Iterate (\<lambda>op ops. Some (ops @ [op])) b []) =
   Some (OK, [PutOp [1] [2, 3], DeleteOp [], PutOp [4] []])"
proof -
  have "Option.bind (apply_ops add_op [PutOp [1] [2, 3], DeleteOp [], PutOp [4] []] WB_Clear)
     (\<lambda>b. WB_Iterate (\<lambda>op ops. Some (ops @ [op])) b []) =
    map_option (Pair OK) (apply_ops (\<lambda>op ops. Some (ops @ [op])) [PutOp [1] [2, 3], DeleteOp [], PutOp [4] []] [])"
    by (rule batch_roundtrip) auto
  then show ?thesis by simp
qed

section \<open>A batch in the memtable\<close>

primrec op_key :: "batch_op \<Rightarrow> u8 list" where
  "op_key (PutOp k v) = k"
| "op_key (DeleteOp k) = k"

primrec op_answer :: "batch_op \<Rightarrow> get_result" where
  "op_answer (PutOp k v) = Found v"
| "op_answer (DeleteOp k) = Deleted"

primrec op_write :: "u64 \<Rightarrow> batch_op \<Rightarrow> mem_write" where
  "op_write s (PutOp k v) = (s, kTypeValue, k, v)"
| "op_write s (DeleteOp k) = (s, kTypeDeletion, k, [])"

text \<open>What a key stands for after a list of operations.\<close>

definition ops_lookup :: "batch_op list \<Rightarrow> u8 list \<Rightarrow> get_result" where
  "ops_lookup ops u = fold (\<lambda>op r. if op_key op = u then op_answer op else r) ops Missing"

definition writes_of :: "u64 \<Rightarrow> batch_op list \<Rightarrow> mem_write list" where
  "writes_of s ops = map (\<lambda>i. op_write (s + of_nat i) (ops ! i)) [0..<length ops]"

lemma fst_op_write [simp]: "fst (op_write s op) = s"
  by (cases op) simp_all

lemma answer_op_write [simp]: "answer (op_write s op) = op_answer op"
  by (cases op) simp_all

lemma writes_of_Nil [simp]: "writes_of s [] = []"
  by (simp add: writes_of_def)

lemma writes_of_Cons: "writes_of s (op # ops) = op_write s op # writes_of (s + 1) ops"
  by (simp add: writes_of_def map_upt_Suc add.assoc del: upt_Suc)

lemma inserter_step:
  "MemTableInserter user op (s, mem) =
     (case op_write s op of (s, t, k, v) \<Rightarrow> map_option (Pair (s + 1)) (MemTable_Add user mem s t k v))"
  by (cases op) simp_all

lemma apply_inserter:
  "apply_ops (MemTableInserter user) ops (s, mem) =
     map_option (Pair (s + of_nat (length ops))) (mem_adds user (writes_of s ops) mem)"
proof (induction ops arbitrary: s mem)
  case (Cons op ops)
  obtain t k v where w: "op_write s op = (s, t, k, v)" by (cases op) simp_all
  then show ?case
    by (cases "MemTable_Add user mem s t k v") (simp_all add: inserter_step writes_of_Cons Cons.IH add.assoc)
qed simp

text \<open>The last operation on the key decides.\<close>

lemma ops_lookup_last:
  "(\<exists>i < length ops. op_key (ops ! i) = u \<and> (\<forall>k < length ops. i < k \<longrightarrow> op_key (ops ! k) \<noteq> u) \<and>
      ops_lookup ops u = op_answer (ops ! i)) \<or>
   (\<forall>i < length ops. op_key (ops ! i) \<noteq> u) \<and> ops_lookup ops u = Missing"
proof (induction ops rule: rev_induct)
  case (snoc op ops)
  show ?case
  proof (cases "op_key op = u")
    case True
    then show ?thesis by (intro disjI1 exI [of _ "length ops"]) (simp add: ops_lookup_def)
  next
    case False
    then have eq: "ops_lookup (ops @ [op]) u = ops_lookup ops u" by (simp add: ops_lookup_def)
    from snoc show ?thesis
    proof (elim disjE exE conjE)
      fix i assume "i < length ops" "op_key (ops ! i) = u" "\<forall>k < length ops. i < k \<longrightarrow> op_key (ops ! k) \<noteq> u"
        "ops_lookup ops u = op_answer (ops ! i)"
      then show ?thesis using False eq by (intro disjI1 exI [of _ i]) (auto simp: nth_append less_Suc_eq)
    qed (use False eq in \<open>auto simp: nth_append less_Suc_eq\<close>)
  qed
qed (simp add: ops_lookup_def)

lemma seq_add:
  assumes "unat (s :: u64) + n \<le> unat kMaxSequenceNumber" "i \<le> n"
  shows "unat (s + of_nat i) = unat s + i"
proof -
  have "unat kMaxSequenceNumber < 2 ^ 64" using unsigned_less [of kMaxSequenceNumber] by simp
  then show ?thesis using assms by (subst unat_add_noov) simp_all
qed

lemma in_writes_of:
  "w \<in> set (writes_of s ops) \<longleftrightarrow> (\<exists>i < length ops. w = op_write (s + of_nat i) (ops ! i))"
  by (auto simp: writes_of_def)

lemma op_write_ok: "op_ok op \<Longrightarrow> s \<le> kMaxSequenceNumber \<Longrightarrow> write_ok (op_write s op)"
  by (cases op) simp_all

lemma seen_writes_of:
  assumes "unat s + length ops \<le> unat kMaxSequenceNumber" "j < length ops"
  shows "seen (writes_of s ops) u (s + of_nat j) =
    (\<lambda>i. op_write (s + of_nat i) (ops ! i)) ` {i. i \<le> j \<and> op_key (ops ! i) = u}"
proof -
  have le: "s + of_nat i \<le> s + of_nat j \<longleftrightarrow> i \<le> j" if "i < length ops" for i
    using that assms by (simp add: word_le_nat_alt seq_add [OF assms(1)])
  have key: "op_write x op = (q, t, k, v) \<Longrightarrow> q = x \<and> k = op_key op" for x op q t k v by (cases op) simp_all
  have key': "\<exists>t v. op_write x op = (x, t, op_key op, v)" for x op by (cases op) simp_all
  show ?thesis
  proof (intro set_eqI iffI)
    fix w assume "w \<in> seen (writes_of s ops) u (s + of_nat j)"
    then obtain q t v where "w \<in> set (writes_of s ops)" "w = (q, t, u, v)" "q \<le> s + of_nat j"
      by (auto simp: seen_def)
    moreover from this(1) obtain i where "i < length ops" "w = op_write (s + of_nat i) (ops ! i)"
      by (auto simp: in_writes_of)
    ultimately have "w = (q, t, u, v)" "q \<le> s + of_nat j" "i < length ops"
      "w = op_write (s + of_nat i) (ops ! i)" by blast+
    then show "w \<in> (\<lambda>i. op_write (s + of_nat i) (ops ! i)) ` {i. i \<le> j \<and> op_key (ops ! i) = u}"
      using key [of "s + of_nat i" "ops ! i" q t u v] le [of i] by (intro image_eqI [of _ _ i]) simp_all
  next
    fix w assume "w \<in> (\<lambda>i. op_write (s + of_nat i) (ops ! i)) ` {i. i \<le> j \<and> op_key (ops ! i) = u}"
    then obtain i where i: "i \<le> j" "op_key (ops ! i) = u" "w = op_write (s + of_nat i) (ops ! i)" by auto
    moreover obtain t v where "op_write (s + of_nat i) (ops ! i) = (s + of_nat i, t, op_key (ops ! i), v)"
      using key' by blast
    moreover have "w \<in> set (writes_of s ops)" using i assms(2) unfolding in_writes_of by (intro exI [of _ i]) simp
    ultimately show "w \<in> seen (writes_of s ops) u (s + of_nat j)"
      using le [of i] assms(2) by (simp add: seen_def)
  qed
qed

lemma Get_writes_of:
  assumes "unat s + length ops \<le> unat kMaxSequenceNumber" "\<And>op. op \<in> set ops \<Longrightarrow> op_ok op"
    and "j < length ops" "length u + 8 < 2 ^ 32" "holds mem (writes_of s ops)"
  shows "MemTable_Get BytewiseComparator mem u (s + of_nat j) = Some (ops_lookup (take (Suc j) ops) u)"
proof -
  have s: "s + of_nat j \<le> kMaxSequenceNumber"
    using assms(1,3) by (simp add: word_le_nat_alt seq_add [OF assms(1)])
  have nth: "take (Suc j) ops ! i = ops ! i" if "i \<le> j" for i using that by simp
  have len: "length (take (Suc j) ops) = Suc j" using assms(3) by simp
  from ops_lookup_last [of "take (Suc j) ops" u, unfolded len] show ?thesis
  proof (elim disjE exE conjE)
    fix i assume i: "i < Suc j" "op_key (take (Suc j) ops ! i) = u"
      "\<forall>k < Suc j. i < k \<longrightarrow> op_key (take (Suc j) ops ! k) \<noteq> u"
      and ans: "ops_lookup (take (Suc j) ops) u = op_answer (take (Suc j) ops ! i)"
    let ?w = "op_write (s + of_nat i) (ops ! i)"
    have in_seen: "?w \<in> seen (writes_of s ops) u (s + of_nat j)"
      using i(1,2) nth by (auto simp: seen_writes_of [OF assms(1,3)])
    have newest: "fst w' \<le> fst ?w" if w': "w' \<in> seen (writes_of s ops) u (s + of_nat j)" for w'
    proof -
      obtain k where k: "k \<le> j" "op_key (ops ! k) = u" "w' = op_write (s + of_nat k) (ops ! k)"
        using w' by (auto simp: seen_writes_of [OF assms(1,3)])
      then have "k \<le> i" using i nth by (metis less_Suc_eq_le not_le)
      then show ?thesis using i(1) k assms(3) by (simp add: word_le_nat_alt seq_add [OF assms(1)])
    qed
    show ?thesis using Get_newest [OF assms(5,4) s in_seen newest] ans i(1) nth by simp
  next
    assume none: "\<forall>i < Suc j. op_key (take (Suc j) ops ! i) \<noteq> u" and "ops_lookup (take (Suc j) ops) u = Missing"
    then show ?thesis
      using Get_missing [OF assms(5,4) s] nth by (auto simp: seen_writes_of [OF assms(1,3)])
  qed
qed

lemma mem_adds_writes_of:
  assumes "unat s + length ops \<le> unat kMaxSequenceNumber" "\<And>op. op \<in> set ops \<Longrightarrow> op_ok op"
  shows "\<exists>mem. mem_adds BytewiseComparator (writes_of s ops) MemTable = Some mem \<and> holds mem (writes_of s ops)"
proof (rule mem_adds_all)
  have "inj_on (\<lambda>i. s + of_nat i) {0..<length ops}"
    using seq_add [OF assms(1)] by (intro inj_onI) (metis add_left_cancel atLeastLessThan_iff less_imp_le)
  then show "distinct (map fst (writes_of s ops))"
    by (simp add: writes_of_def comp_def distinct_map)
  fix w assume "w \<in> set (writes_of s ops)"
  then obtain i where "i < length ops" "w = op_write (s + of_nat i) (ops ! i)" by (auto simp: in_writes_of)
  then show "write_ok w"
    using assms by (auto intro!: op_write_ok simp: word_le_nat_alt seq_add [OF assms(1)])
qed

text \<open>
  C33. Snapshots of a batch: a batch of operations built by \<open>Put\<close> and \<open>Delete\<close>, given a sequence
  number s and inserted into an empty memtable, is read at the sequence number s + j as the state
  of the key after the first j + 1 operations: later operations are invisible, earlier ones are
  overwritten.
\<close>

theorem batch_snapshot:
  assumes "\<And>op. op \<in> set ops \<Longrightarrow> op_ok op" and "length ops < 2 ^ 31"
    and "unat s + length ops \<le> unat kMaxSequenceNumber" and "j < length ops" and "length u + 8 < 2 ^ 32"
  shows "Option.bind (apply_ops add_op ops WB_Clear) (\<lambda>b.
    Option.bind (WB_InsertInto BytewiseComparator (WB_SetSequence b s) MemTable) (\<lambda>(status, mem).
      map_option (Pair status) (MemTable_Get BytewiseComparator mem u (s + of_nat j)))) =
    Some (OK, ops_lookup (take (Suc j) ops) u)"
proof -
  obtain mem where mem: "mem_adds BytewiseComparator (writes_of s ops) MemTable = Some mem"
      "holds mem (writes_of s ops)"
    using mem_adds_writes_of [OF assms(3,1)] by blast
  have "WB_InsertInto BytewiseComparator (batch_of s ops) MemTable = Some (OK, mem)"
    using mem(1) by (simp add: WB_InsertInto_def Sequence_batch apply_inserter Iterate_batch [OF assms(1,2)])
  moreover have "apply_ops add_op ops WB_Clear = Some (batch_of 0 ops)"
    using add_ops_batch [of "[]" ops 0] assms(2) by (simp add: Clear_batch)
  ultimately show ?thesis
    using Get_writes_of [OF assms(3,1,4,5) mem(2)] by (simp add: SetSequence_batch)
qed

theorem batch_snapshot_witness:
  "Option.bind (apply_ops add_op [PutOp [1] [2], DeleteOp [1], PutOp [1] [3]] WB_Clear) (\<lambda>b.
    Option.bind (WB_InsertInto BytewiseComparator (WB_SetSequence b 9) MemTable) (\<lambda>(status, mem).
      map_option (Pair status) (MemTable_Get BytewiseComparator mem [1] (9 + of_nat 1)))) = Some (OK, Deleted)"
proof -
  have "Option.bind (apply_ops add_op [PutOp [1] [2], DeleteOp [1], PutOp [1] [3]] WB_Clear) (\<lambda>b.
    Option.bind (WB_InsertInto BytewiseComparator (WB_SetSequence b 9) MemTable) (\<lambda>(status, mem).
      map_option (Pair status) (MemTable_Get BytewiseComparator mem [1] (9 + of_nat 1)))) =
    Some (OK, ops_lookup (take (Suc 1) [PutOp [1] [2], DeleteOp [1], PutOp [1] [3]]) [1])"
    by (rule batch_snapshot) (auto simp: kMaxSequenceNumber_def)
  then show ?thesis by (simp add: ops_lookup_def)
qed

end
