(* ===== verification/EnvPosix.thy ===== *)
theory EnvPosix
  imports Prelude Status
begin

text \<open>
  The sequential files of \<open>leveldb-library/util/env_posix.cc\<close>. \<open>FILE\<close> is the stream of the C library
  as the C standard describes it: a stream that is written keeps up to \<open>f_bufsize\<close> bytes of pending
  output, and the device behind it takes \<open>f_limit\<close> bytes and then reports errors with the text
  \<open>f_strerror\<close>; a stream that is read fails at the offset \<open>f_limit\<close> when the file has more bytes.
\<close>

record FILE =
  f_data :: "u8 list"
  f_pending :: "u8 list"
  f_bufsize :: nat
  f_pos :: nat
  f_eof :: bool
  f_limit :: nat
  f_strerror :: string

text \<open>Output that goes to the device.\<close>

definition f_transfer :: "u8 list \<Rightarrow> FILE \<Rightarrow> FILE" where
  "f_transfer bs f = f\<lparr>f_data := f_data f @ take (f_limit f - length (f_data f)) bs, f_pending := []\<rparr>"

definition f_fits :: "u8 list \<Rightarrow> FILE \<Rightarrow> bool" where
  "f_fits bs f \<longleftrightarrow> length (f_data f) + length bs \<le> f_limit f"

definition fwrite :: "u8 list \<Rightarrow> FILE \<Rightarrow> nat \<times> FILE" where
  "fwrite bs f =
     (if length (f_pending f) + length bs \<le> f_bufsize f
      then (length bs, f\<lparr>f_pending := f_pending f @ bs\<rparr>)
      else if f_fits (f_pending f @ bs) f then (length bs, f_transfer (f_pending f @ bs) f)
      else (f_limit f - length (f_data f) - length (f_pending f), f_transfer (f_pending f @ bs) f))"

definition fflush :: "FILE \<Rightarrow> int \<times> FILE" where
  "fflush f = (if f_fits (f_pending f) f then 0 else - 1, f_transfer (f_pending f) f)"

definition fread :: "nat \<Rightarrow> FILE \<Rightarrow> u8 list \<times> FILE" where
  "fread n f =
     (let bs = take (min n (f_limit f - f_pos f)) (drop (f_pos f) (f_data f))
      in (bs, f\<lparr>f_pos := f_pos f + length bs, f_eof := (length bs < n \<and> length (f_data f) \<le> f_limit f)\<rparr>))"

definition fseek_cur :: "u64 \<Rightarrow> FILE \<Rightarrow> int \<times> FILE" where
  "fseek_cur n f =
     (let to = int (f_pos f) + sint n
      in if to < 0 then (- 1, f) else (0, f\<lparr>f_pos := nat to, f_eof := False\<rparr>))"

definition IOError :: "string \<Rightarrow> FILE \<Rightarrow> Status" where
  "IOError context f = Status_IOError context (f_strerror f)"

section \<open>Sequential reading\<close>

text \<open>The virtual functions of \<open>SequentialFile\<close> and of \<open>WritableFile\<close> that the log uses, over objects of type \<open>'f\<close>.\<close>

record 'f SequentialFile =
  Read :: "nat \<Rightarrow> 'f \<Rightarrow> Status \<times> u8 list \<times> 'f"
  Skip :: "u64 \<Rightarrow> 'f \<Rightarrow> Status \<times> 'f"

record 'f WritableFile =
  Append :: "u8 list \<Rightarrow> 'f \<Rightarrow> Status \<times> 'f"
  Flush :: "'f \<Rightarrow> Status \<times> 'f"

record PosixSequentialFile =
  sf_filename :: string
  sf_file :: FILE

definition PosixSequentialFile_Read ::
    "nat \<Rightarrow> PosixSequentialFile \<Rightarrow> Status \<times> u8 list \<times> PosixSequentialFile" where
  "PosixSequentialFile_Read n s =
     (let (bs, f) = fread n (sf_file s);
          status = (if length bs < n \<and> \<not> f_eof f then IOError (sf_filename s) f else OK)
      in (status, bs, s\<lparr>sf_file := f\<rparr>))"

definition PosixSequentialFile_Skip ::
    "u64 \<Rightarrow> PosixSequentialFile \<Rightarrow> Status \<times> PosixSequentialFile" where
  "PosixSequentialFile_Skip n s =
     (let (r, f) = fseek_cur n (sf_file s)
      in (if r \<noteq> 0 then IOError (sf_filename s) f else OK, s\<lparr>sf_file := f\<rparr>))"

definition posix_sequential :: "PosixSequentialFile SequentialFile" where
  "posix_sequential = \<lparr>Read = PosixSequentialFile_Read, Skip = PosixSequentialFile_Skip\<rparr>"

section \<open>Appending\<close>

record PosixWritableFile =
  wf_filename :: string
  wf_file :: FILE

definition PosixWritableFile_Append :: "u8 list \<Rightarrow> PosixWritableFile \<Rightarrow> Status \<times> PosixWritableFile" where
  "PosixWritableFile_Append bs s =
     (let (r, f) = fwrite bs (wf_file s)
      in (if r \<noteq> length bs then IOError (wf_filename s) f else OK, s\<lparr>wf_file := f\<rparr>))"

definition PosixWritableFile_Flush :: "PosixWritableFile \<Rightarrow> Status \<times> PosixWritableFile" where
  "PosixWritableFile_Flush s =
     (let (r, f) = fflush (wf_file s)
      in (if r \<noteq> 0 then IOError (wf_filename s) f else OK, s\<lparr>wf_file := f\<rparr>))"

definition posix_writable :: "PosixWritableFile WritableFile" where
  "posix_writable = \<lparr>Append = PosixWritableFile_Append, Flush = PosixWritableFile_Flush\<rparr>"

text \<open>\<open>fclose\<close> writes the pending output.\<close>

definition PosixWritableFile_Close :: "PosixWritableFile \<Rightarrow> Status \<times> PosixWritableFile" where
  "PosixWritableFile_Close s =
     (let (r, f) = fflush (wf_file s)
      in (if r \<noteq> 0 then IOError (wf_filename s) f else OK, s\<lparr>wf_file := f\<rparr>))"

text \<open>
  Syncing. \<open>sync_dir\<close> opens a directory and syncs it, \<open>fdatasync\<close> syncs the file; both are system calls
  that give the text of an error or none.
\<close>

definition SyncDirIfManifest :: "(string \<Rightarrow> string option) \<Rightarrow> PosixWritableFile \<Rightarrow> Status" where
  "SyncDirIfManifest sync_dir s =
     (let f = wf_filename s;
          sep = (CHR ''/'' \<in> set f);
          basename = (if sep then rev (takeWhile (\<lambda>c. c \<noteq> CHR ''/'') (rev f)) else f);
          dir = (if sep then take (length f - length basename - 1) f else ''.'')
      in if take 8 basename = ''MANIFEST''
         then (case sync_dir dir of None \<Rightarrow> OK | Some err \<Rightarrow> Status_IOError dir err)
         else OK)"

definition PosixWritableFile_Sync ::
    "(string \<Rightarrow> string option) \<Rightarrow> (FILE \<Rightarrow> string option) \<Rightarrow> PosixWritableFile \<Rightarrow> Status \<times> PosixWritableFile" where
  "PosixWritableFile_Sync sync_dir fdatasync s =
     (let status = SyncDirIfManifest sync_dir s in
      if \<not> Status_ok status then (status, s)
      else
        (let (r, f) = fflush (wf_file s) in
         (if r \<noteq> 0 then IOError (wf_filename s) f
          else (case fdatasync f of None \<Rightarrow> OK | Some err \<Rightarrow> Status_IOError (wf_filename s) err),
          s\<lparr>wf_file := f\<rparr>)))"

end
