(* ===== verification/LogWriter.thy ===== *)
theory LogWriter
  imports Coding Crc32c EnvPosix
begin

text \<open>
  \<open>leveldb-library/db/log_format.h\<close> and \<open>db/log_writer.cc\<close>: the log is a sequence of blocks of 32 KiB
  with physical records of a header of seven bytes and a payload; a record that does not fit in
  the rest of a block is split. \<open>file\<close> holds the virtual functions of the file. The checksum is
  computed in place: \<open>pval\<close> is the address of the payload. A failed assertion has no outcome.
\<close>

section \<open>Format\<close>

datatype RecordType = kZeroType | kFullType | kFirstType | kMiddleType | kLastType

primrec record_code :: "RecordType \<Rightarrow> nat" where
  "record_code kZeroType = 0"
| "record_code kFullType = 1"
| "record_code kFirstType = 2"
| "record_code kMiddleType = 3"
| "record_code kLastType = 4"

definition kMaxRecordType :: nat where
  "kMaxRecordType = record_code kLastType"

definition kBlockSize :: nat where
  "kBlockSize = 32768"

definition kHeaderSize :: nat where
  "kHeaderSize = 4 + 2 + 1"

section \<open>The writer\<close>

text \<open>The checksum of each type byte, with the address of the local variable it is read from.\<close>

definition InitTypeCrc :: "u64 \<Rightarrow> u32 list" where
  "InitTypeCrc at = map (\<lambda>i. crc_Value at [of_nat i]) [0..<kMaxRecordType + 1]"

record 'f log_writer =
  lw_dest :: 'f
  lw_block_offset :: nat
  lw_type_crc :: "u32 list"

definition Writer :: "'f \<Rightarrow> u64 \<Rightarrow> 'f log_writer" where
  "Writer dest at = \<lparr>lw_dest = dest, lw_block_offset = 0, lw_type_crc = InitTypeCrc at\<rparr>"

text \<open>For a file that already has \<open>dest_length\<close> bytes.\<close>

definition Writer_at :: "'f \<Rightarrow> u64 \<Rightarrow> u64 \<Rightarrow> 'f log_writer" where
  "Writer_at dest dest_length at =
     \<lparr>lw_dest = dest, lw_block_offset = unat (dest_length mod of_nat kBlockSize), lw_type_crc = InitTypeCrc at\<rparr>"

definition physical_header :: "'f log_writer \<Rightarrow> RecordType \<Rightarrow> u64 \<Rightarrow> u8 list \<Rightarrow> u8 list" where
  "physical_header w t pval ptr =
     (let n = length ptr;
          crc = crc_Mask (Extend pval (lw_type_crc w ! record_code t) ptr)
      in EncodeFixed32 crc @ [of_nat n AND 0xff, of_nat (n div 256), of_nat (record_code t)])"

definition EmitPhysicalRecord ::
    "'f WritableFile \<Rightarrow> RecordType \<Rightarrow> u64 \<Rightarrow> u8 list \<Rightarrow> 'f log_writer \<Rightarrow> (Status \<times> 'f log_writer) option" where
  "EmitPhysicalRecord file t pval ptr w =
     (let n = length ptr in
      if \<not> (n \<le> 0xffff \<and> lw_block_offset w + kHeaderSize + n \<le> kBlockSize) then None
      else
       (let (s, dest) = Append file (physical_header w t pval ptr) (lw_dest w);
            (s, dest) = (if Status_ok s then
                           (let (s, dest) = Append file ptr dest
                            in if Status_ok s then Flush file dest else (s, dest))
                         else (s, dest))
        in Some (s, w\<lparr>lw_dest := dest, lw_block_offset := lw_block_offset w + kHeaderSize + n\<rparr>)))"

text \<open>The start of an iteration: a rest of the block too small for a header is filled with zeros.\<close>

definition switch_block :: "'f WritableFile \<Rightarrow> 'f log_writer \<Rightarrow> 'f log_writer option" where
  "switch_block file w =
     (if lw_block_offset w > kBlockSize then None
      else
       (let leftover = kBlockSize - lw_block_offset w in
        Some (if leftover < kHeaderSize
              then w\<lparr>lw_dest := (if leftover > 0 then snd (Append file (replicate leftover 0) (lw_dest w)) else lw_dest w),
                     lw_block_offset := 0\<rparr>
              else w)))"

definition fragment_type :: "bool \<Rightarrow> bool \<Rightarrow> RecordType" where
  "fragment_type begin end =
     (if begin \<and> end then kFullType
      else if begin then kFirstType
      else if end then kLastType
      else kMiddleType)"

text \<open>
  The loop over the fragments. Each iteration but the last takes the rest of a block, at least
  one byte when the iteration before it filled its block; \<open>fuel\<close> bounds their number, and one
  that runs out has no outcome.
\<close>

primrec add_fragments ::
    "nat \<Rightarrow> 'f WritableFile \<Rightarrow> bool \<Rightarrow> u64 \<Rightarrow> u8 list \<Rightarrow> 'f log_writer \<Rightarrow> (Status \<times> 'f log_writer) option" where
  "add_fragments 0 file begin pval ptr w = None"
| "add_fragments (Suc fuel) file begin pval ptr w =
     Option.bind (switch_block file w) (\<lambda>w.
       let avail = kBlockSize - lw_block_offset w - kHeaderSize;
           fragment_length = (if length ptr < avail then length ptr else avail);
           end = (length ptr = fragment_length)
       in Option.bind (EmitPhysicalRecord file (fragment_type begin end) pval (take fragment_length ptr) w)
            (\<lambda>(s, w).
              if Status_ok s \<and> length ptr - fragment_length > 0
              then add_fragments fuel file False (pval + of_nat fragment_length) (drop fragment_length ptr) w
              else Some (s, w)))"

definition AddRecord ::
    "'f WritableFile \<Rightarrow> u64 \<Rightarrow> u8 list \<Rightarrow> 'f log_writer \<Rightarrow> (Status \<times> 'f log_writer) option" where
  "AddRecord file pval data w = add_fragments (length data + 2) file True pval data w"

end
