(* ===== verification/LogReader.thy ===== *)
theory LogReader
  imports LogWriter
begin

text \<open>
  \<open>leveldb-library/db/log_reader.cc\<close>: the reader of the log. \<open>lr_buffer\<close> is the unread part of the
  block read last and \<open>lr_buffer_at\<close> its address in \<open>backing_store_\<close>; \<open>lr_reports\<close> collects the calls
  of the reporter's \<open>Corruption\<close>, when there is a reporter. Offsets are 64-bit numbers.
\<close>

record 'f log_reader =
  lr_file :: 'f
  lr_reporter :: bool
  lr_reports :: "(u64 \<times> Status) list"
  lr_checksum :: bool
  lr_backing_store :: u64
  lr_buffer :: "u8 list"
  lr_buffer_at :: u64
  lr_eof :: bool
  lr_last_record_offset :: u64
  lr_end_of_buffer_offset :: u64
  lr_initial_offset :: u64
  lr_resyncing :: bool

definition Reader :: "'f \<Rightarrow> bool \<Rightarrow> bool \<Rightarrow> u64 \<Rightarrow> u64 \<Rightarrow> 'f log_reader" where
  "Reader file reporter checksum store initial_offset =
     \<lparr>lr_file = file, lr_reporter = reporter, lr_reports = [], lr_checksum = checksum,
      lr_backing_store = store, lr_buffer = [], lr_buffer_at = 0, lr_eof = False,
      lr_last_record_offset = 0, lr_end_of_buffer_offset = 0, lr_initial_offset = initial_offset,
      lr_resyncing = (initial_offset > 0)\<rparr>"

text \<open>\<open>buffer_.clear()\<close>.\<close>

definition clear_buffer :: "'f log_reader \<Rightarrow> 'f log_reader" where
  "clear_buffer r = r\<lparr>lr_buffer := [], lr_buffer_at := 0\<rparr>"

definition buffer_size :: "'f log_reader \<Rightarrow> u64" where
  "buffer_size r = of_nat (length (lr_buffer r))"

definition ReportDrop :: "u64 \<Rightarrow> Status \<Rightarrow> 'f log_reader \<Rightarrow> 'f log_reader" where
  "ReportDrop bytes reason r =
     (if lr_reporter r \<and> lr_end_of_buffer_offset r - buffer_size r - bytes \<ge> lr_initial_offset r
      then r\<lparr>lr_reports := lr_reports r @ [(bytes, reason)]\<rparr> else r)"

definition ReportCorruption :: "u64 \<Rightarrow> string \<Rightarrow> 'f log_reader \<Rightarrow> 'f log_reader" where
  "ReportCorruption bytes reason = ReportDrop bytes (Status_Corruption reason)"

definition SkipToInitialBlock :: "'f SequentialFile \<Rightarrow> 'f log_reader \<Rightarrow> bool \<times> 'f log_reader" where
  "SkipToInitialBlock file r =
     (let offset_in_block = lr_initial_offset r mod of_nat kBlockSize;
          block_start_location = lr_initial_offset r - offset_in_block;
          block_start_location =
            (if offset_in_block > of_nat (kBlockSize - 6) then block_start_location + of_nat kBlockSize
             else block_start_location);
          r = r\<lparr>lr_end_of_buffer_offset := block_start_location\<rparr>
      in if block_start_location > 0 then
           (let (skip_status, f) = Skip file block_start_location (lr_file r);
                r = r\<lparr>lr_file := f\<rparr>
            in if Status_ok skip_status then (True, r) else (False, ReportDrop block_start_location skip_status r))
         else (True, r))"

section \<open>Physical records\<close>

text \<open>The result types beside those of the format.\<close>

definition kEof :: nat where
  "kEof = kMaxRecordType + 1"

definition kBadRecord :: nat where
  "kBadRecord = kMaxRecordType + 2"

text \<open>The length in a header, the conversion of the type byte, and the check of the checksum.\<close>

definition header_length :: "u8 list \<Rightarrow> nat" where
  "header_length header =
     unat ((ucast (header ! 4) AND 0xff) OR push_bit 8 (ucast (header ! 5) AND 0xff) :: u32)"

text \<open>\<open>const unsigned int type = header[6]\<close>, a signed char.\<close>

definition header_type :: "u8 list \<Rightarrow> nat" where
  "header_type header = unat (scast (header ! 6) :: u32)"

definition crc_wrong :: "u64 \<Rightarrow> u8 list \<Rightarrow> bool" where
  "crc_wrong at header \<longleftrightarrow>
     crc_Value (at + 6) (take (1 + header_length header) (drop 6 header)) \<noteq>
     crc_Unmask (the (DecodeFixed32 header))"

text \<open>
  What the loop does with a buffer that has room for a header: the record's type and the payload
  (unchanged when the code does not store one).
\<close>

definition parse_physical ::
    "u8 list \<Rightarrow> 'f log_reader \<Rightarrow> nat \<times> u8 list \<times> 'f log_reader" where
  "parse_physical result r =
     (let header = lr_buffer r; at = lr_buffer_at r;
          len = header_length header; type = header_type header;
          drop_size = buffer_size r
      in
      if kHeaderSize + len > length header then
        (if \<not> lr_eof r then (kBadRecord, result, ReportCorruption drop_size ''bad record length'' (clear_buffer r))
         else (kEof, result, clear_buffer r))
      else if type = record_code kZeroType \<and> len = 0 then (kBadRecord, result, clear_buffer r)
      else if lr_checksum r \<and> crc_wrong at header then
        (kBadRecord, result, ReportCorruption drop_size ''checksum mismatch'' (clear_buffer r))
      else
       (let r = r\<lparr>lr_buffer := drop (kHeaderSize + len) header, lr_buffer_at := at + of_nat (kHeaderSize + len)\<rparr>
        in if lr_end_of_buffer_offset r - buffer_size r - of_nat kHeaderSize - of_nat len < lr_initial_offset r
           then (kBadRecord, [], r)
           else (type, take len (drop kHeaderSize header), r)))"

text \<open>Reading the next block; \<open>Some\<close> when the read fails and ends the function.\<close>

definition read_block :: "'f SequentialFile \<Rightarrow> 'f log_reader \<Rightarrow> bool \<times> 'f log_reader" where
  "read_block file r =
     (let (status, bs, f) = Read file kBlockSize (lr_file r);
          r = r\<lparr>lr_file := f, lr_buffer := bs, lr_buffer_at := lr_backing_store r,
                lr_end_of_buffer_offset := lr_end_of_buffer_offset r + of_nat (length bs)\<rparr>
      in if \<not> Status_ok status
         then (False, (ReportDrop (of_nat kBlockSize) status (clear_buffer r))\<lparr>lr_eof := True\<rparr>)
         else if length bs < kBlockSize then (True, r\<lparr>lr_eof := True\<rparr>)
         else (True, r))"

function ReadPhysicalRecord ::
    "'f SequentialFile \<Rightarrow> u8 list \<Rightarrow> 'f log_reader \<Rightarrow> nat \<times> u8 list \<times> 'f log_reader" where
  "ReadPhysicalRecord file result r =
     (if length (lr_buffer r) < kHeaderSize then
        (if \<not> lr_eof r then
           (case read_block file r of
              (True, r) \<Rightarrow> ReadPhysicalRecord file result r
            | (False, r) \<Rightarrow> (kEof, result, r))
         else (kEof, result, clear_buffer r))
      else parse_physical result r)"
  by pat_completeness auto
termination
  by (relation "measure (\<lambda>(file, result, r). if length (lr_buffer r) < kHeaderSize then (if lr_eof r then 1 else 2) else 0)")
    (auto simp: read_block_def Let_def kHeaderSize_def kBlockSize_def split: prod.splits if_splits)

declare ReadPhysicalRecord.simps [simp del]

section \<open>Logical records\<close>

text \<open>The locals of \<open>ReadRecord\<close>: \<open>scratch\<close>, \<open>in_fragmented_record\<close> and \<open>prospective_record_offset\<close>.\<close>

record read_locals =
  rl_scratch :: "u8 list"
  rl_in_fragmented :: bool
  rl_prospective :: u64

text \<open>An iteration goes on, or returns true with a record, or returns false.\<close>

datatype read_step = Continue | ReturnTrue "u8 list" | ReturnFalse

text \<open>A number as \<open>snprintf\<close> prints it with \<open>%u\<close>.\<close>

function decimal :: "nat \<Rightarrow> string" where
  "decimal n = (if n < 10 then [char_of (48 + n)] else decimal (n div 10) @ [char_of (48 + n mod 10)])"
  by pat_completeness auto
termination
  by (relation "measure id") auto

declare decimal.simps [simp del]

text \<open>A record starts although the one before it has no end.\<close>

definition start_over :: "string \<Rightarrow> read_locals \<Rightarrow> 'f log_reader \<Rightarrow> read_locals \<times> 'f log_reader" where
  "start_over reason l r =
     (if rl_in_fragmented l then
        (if rl_scratch l = [] then (l\<lparr>rl_in_fragmented := False\<rparr>, r)
         else (l, ReportCorruption (of_nat (length (rl_scratch l))) reason r))
      else (l, r))"

definition record_step ::
    "nat \<Rightarrow> u8 list \<Rightarrow> u64 \<Rightarrow> read_locals \<Rightarrow> 'f log_reader \<Rightarrow> read_step \<times> read_locals \<times> 'f log_reader" where
  "record_step record_type fragment physical_record_offset l r =
     (if record_type = record_code kFullType then
        (let (l, r) = start_over ''partial record without end(1)'' l r
         in (ReturnTrue fragment, l\<lparr>rl_prospective := physical_record_offset, rl_scratch := []\<rparr>,
             r\<lparr>lr_last_record_offset := physical_record_offset\<rparr>))
      else if record_type = record_code kFirstType then
        (let (l, r) = start_over ''partial record without end(2)'' l r
         in (Continue, l\<lparr>rl_prospective := physical_record_offset, rl_scratch := fragment, rl_in_fragmented := True\<rparr>, r))
      else if record_type = record_code kMiddleType then
        (if \<not> rl_in_fragmented l
         then (Continue, l, ReportCorruption (of_nat (length fragment)) ''missing start of fragmented record(1)'' r)
         else (Continue, l\<lparr>rl_scratch := rl_scratch l @ fragment\<rparr>, r))
      else if record_type = record_code kLastType then
        (if \<not> rl_in_fragmented l
         then (Continue, l, ReportCorruption (of_nat (length fragment)) ''missing start of fragmented record(2)'' r)
         else (ReturnTrue (rl_scratch l @ fragment), l\<lparr>rl_scratch := rl_scratch l @ fragment\<rparr>,
               r\<lparr>lr_last_record_offset := rl_prospective l\<rparr>))
      else if record_type = kEof then
        (ReturnFalse, if rl_in_fragmented l then l\<lparr>rl_scratch := []\<rparr> else l, r)
      else if record_type = kBadRecord then
        (if rl_in_fragmented l
         then (Continue, l\<lparr>rl_in_fragmented := False, rl_scratch := []\<rparr>,
               ReportCorruption (of_nat (length (rl_scratch l))) ''error in middle of record'' r)
         else (Continue, l, r))
      else
        (Continue, l\<lparr>rl_in_fragmented := False, rl_scratch := []\<rparr>,
         ReportCorruption (of_nat (length fragment) + (if rl_in_fragmented l then of_nat (length (rl_scratch l)) else 0))
           (''unknown record type '' @ decimal record_type) r))"

text \<open>
  The fragments of the record a reader that starts in the middle of the file skips: true when the
  iteration ends there.
\<close>

definition resync :: "nat \<Rightarrow> 'f log_reader \<Rightarrow> bool \<times> 'f log_reader" where
  "resync record_type r =
     (if lr_resyncing r then
        (if record_type = record_code kMiddleType then (True, r)
         else if record_type = record_code kLastType then (True, r\<lparr>lr_resyncing := False\<rparr>)
         else (False, r\<lparr>lr_resyncing := False\<rparr>))
      else (False, r))"

text \<open>The loop; a file without end may keep it from returning.\<close>

partial_function (option) read_loop ::
    "'f SequentialFile \<Rightarrow> u8 list \<Rightarrow> read_locals \<Rightarrow> 'f log_reader \<Rightarrow> (u8 list option \<times> 'f log_reader) option" where
  "read_loop file fragment l r =
     (let (record_type, fragment, r) = ReadPhysicalRecord file fragment r;
          physical_record_offset =
            lr_end_of_buffer_offset r - buffer_size r - of_nat kHeaderSize - of_nat (length fragment);
          (skip, r) = resync record_type r
      in if skip then read_loop file fragment l r
         else
          (let (s, l, r) = record_step record_type fragment physical_record_offset l r
           in case s of
                Continue \<Rightarrow> read_loop file fragment l r
              | ReturnTrue rec \<Rightarrow> Some (Some rec, r)
              | ReturnFalse \<Rightarrow> Some (None, r)))"

declare read_loop.simps [code]

text \<open>True and the record, or false (\<open>None\<close>) at the end of the log.\<close>

definition ReadRecord :: "'f SequentialFile \<Rightarrow> 'f log_reader \<Rightarrow> (u8 list option \<times> 'f log_reader) option" where
  "ReadRecord file r =
     (let (ok, r) = (if lr_last_record_offset r < lr_initial_offset r then SkipToInitialBlock file r else (True, r))
      in if \<not> ok then Some (None, r)
         else read_loop file [] \<lparr>rl_scratch = [], rl_in_fragmented = False, rl_prospective = 0\<rparr> r)"

end
