(* ===== verification/LogSpec.thy ===== *)
theory LogSpec
  imports LogReader Crc32cSpec
begin

text \<open>
  The layout of the log as a function of the records, and the proof that the writer appends it.
  The files are used through the interfaces \<open>sink\<close> and \<open>source\<close>, which the stdio files of
  \<open>env_posix.cc\<close> interpret.
\<close>

declare add_fragments.simps [simp del]

section \<open>Files\<close>

locale sink =
  fixes ops :: "'f WritableFile"
    and contents :: "'f \<Rightarrow> u8 list"
    and limit :: "'f \<Rightarrow> nat"
    and stored :: "'f \<Rightarrow> u8 list"
  assumes Append_ok: "length (contents f) + length bs \<le> limit f \<Longrightarrow>
      \<exists>f'. Append ops bs f = (OK, f') \<and> contents f' = contents f @ bs \<and> limit f' = limit f"
    and Flush_ok: "length (contents f) \<le> limit f \<Longrightarrow>
      \<exists>f'. Flush ops f = (OK, f') \<and> contents f' = contents f \<and> stored f' = contents f \<and> limit f' = limit f"

locale source =
  fixes ops :: "'f SequentialFile"
    and rest :: "'f \<Rightarrow> u8 list"
    and good :: "'f \<Rightarrow> bool"
  assumes Read_ok: "good f \<Longrightarrow>
      \<exists>f'. Read ops n f = (OK, take n (rest f), f') \<and> rest f' = drop n (rest f) \<and> good f'"

interpretation posix_out: sink posix_writable "\<lambda>s. f_data (wf_file s) @ f_pending (wf_file s)"
    "\<lambda>s. f_limit (wf_file s)" "\<lambda>s. f_data (wf_file s)"
  by unfold_locales
    (auto simp: posix_writable_def PosixWritableFile_Append_def PosixWritableFile_Flush_def fwrite_def fflush_def
      f_fits_def f_transfer_def)

interpretation posix_in: source posix_sequential "\<lambda>s. drop (f_pos (sf_file s)) (f_data (sf_file s))"
    "\<lambda>s. length (f_data (sf_file s)) \<le> f_limit (sf_file s) \<and> f_pos (sf_file s) \<le> length (f_data (sf_file s))"
  by unfold_locales
    (auto simp: posix_sequential_def PosixSequentialFile_Read_def fread_def Let_def min_def add.commute)

section \<open>Layout\<close>

text \<open>The bytes of a physical record, and of one behind \<open>pad\<close> bytes that end a block.\<close>

definition physical :: "RecordType \<Rightarrow> u8 list \<Rightarrow> u8 list" where
  "physical t ptr =
     EncodeFixed32 (crc_Mask (crc32c 0 (of_nat (record_code t) # ptr))) @
     [of_nat (length ptr) AND 0xff, of_nat (length ptr div 256), of_nat (record_code t)] @ ptr"

type_synonym fragment = "nat \<times> RecordType \<times> u8 list"

fun fragment_bytes :: "fragment \<Rightarrow> u8 list" where
  "fragment_bytes (pad, t, ptr) = replicate pad 0 @ physical t ptr"

text \<open>What is left of the block at an offset when it has no room for a header, and the offset behind it.\<close>

definition padding :: "nat \<Rightarrow> nat" where
  "padding off = (if kBlockSize - off < kHeaderSize then kBlockSize - off else 0)"

definition padded :: "nat \<Rightarrow> nat" where
  "padded off = (if kBlockSize - off < kHeaderSize then 0 else off)"

definition room :: "nat \<Rightarrow> nat" where
  "room off = kBlockSize - padded off - kHeaderSize"

function split_record :: "bool \<Rightarrow> nat \<Rightarrow> u8 list \<Rightarrow> fragment list" where
  "split_record begin off ptr =
     (let n = min (length ptr) (room off) in
      (padding off, fragment_type begin (length ptr \<le> room off), take n ptr) #
      (if length ptr > n then split_record False (padded off + kHeaderSize + n) (drop n ptr) else []))"
  by pat_completeness auto
termination
  by (relation "measure (\<lambda>(begin, off, ptr). 2 * length ptr + (if room off = 0 then 1 else 0))")
    (auto simp: room_def padded_def kBlockSize_def kHeaderSize_def min_def split: if_splits)

declare split_record.simps [simp del]

definition record_bytes :: "nat \<Rightarrow> u8 list \<Rightarrow> u8 list" where
  "record_bytes off ptr = concat (map fragment_bytes (split_record True off ptr))"

text \<open>The bytes of records appended to a log of \<open>p\<close> bytes.\<close>

primrec log_bytes :: "nat \<Rightarrow> u8 list list \<Rightarrow> u8 list" where
  "log_bytes p [] = []"
| "log_bytes p (r # rs) =
     (let bs = record_bytes (p mod kBlockSize) r in bs @ log_bytes (p + length bs) rs)"

lemma log_bytes_append: "log_bytes p (rs @ rs') = log_bytes p rs @ log_bytes (p + length (log_bytes p rs)) rs'"
  by (induction rs arbitrary: p) (simp_all add: Let_def add.assoc)

lemma length_physical [simp]: "length (physical t ptr) = kHeaderSize + length ptr"
  by (simp add: physical_def kHeaderSize_def)

text \<open>A block that is full and a new one are the same.\<close>

lemma offset_full:
  "padding kBlockSize = padding 0" "padded kBlockSize = padded 0" "room kBlockSize = room 0"
  by (simp_all add: padding_def padded_def room_def kBlockSize_def kHeaderSize_def)

lemma offset_cases: "off \<le> kBlockSize \<Longrightarrow> off = off mod kBlockSize \<or> off = kBlockSize"
  by (cases "off = kBlockSize") simp_all

lemma offset_mod:
  assumes "off \<le> kBlockSize"
  shows "padding (off mod kBlockSize) = padding off" "padded (off mod kBlockSize) = padded off"
    "room (off mod kBlockSize) = room off"
  using offset_cases [OF assms] offset_full by (metis mod_self)+

lemma split_record_mod:
  "off \<le> kBlockSize \<Longrightarrow> split_record begin (off mod kBlockSize) ptr = split_record begin off ptr"
  by (subst (1 2) split_record.simps) (simp only: offset_mod)

lemma padded_room: "off \<le> kBlockSize \<Longrightarrow> padded off + kHeaderSize + room off = kBlockSize"
  by (auto simp: padded_def room_def kBlockSize_def kHeaderSize_def)

lemma padded_padding: "off \<le> kBlockSize \<Longrightarrow> (off + padding off) mod kBlockSize = padded off mod kBlockSize"
  by (auto simp: padded_def padding_def)

lemma length_split_record:
  "length (split_record begin off ptr) \<le> length ptr + (if room off = 0 then 2 else 1)"
proof (induction "begin" off ptr rule: split_record.induct)
  case (1 b off ptr)
  let ?n = "min (length ptr) (room off)"
  show ?case
  proof (cases "length ptr > ?n")
    case True
    then have "padded off + kHeaderSize + ?n = kBlockSize"
      by (auto simp: padded_def room_def kBlockSize_def kHeaderSize_def min_def split: if_splits)
    moreover have "room kBlockSize \<noteq> 0" by (simp add: room_def padded_def kBlockSize_def kHeaderSize_def)
    ultimately show ?thesis
      using "1.IH" True by (subst split_record.simps) (auto simp: Let_def)
  qed (subst split_record.simps, simp)
qed

section \<open>Writing\<close>

text \<open>Records one after the other, up to the first error; \<open>adr\<close> gives their addresses.\<close>

primrec add_records ::
    "'f WritableFile \<Rightarrow> (u8 list \<Rightarrow> u64) \<Rightarrow> u8 list list \<Rightarrow> 'f log_writer \<Rightarrow> (Status \<times> 'f log_writer) option" where
  "add_records ops adr [] w = Some (OK, w)"
| "add_records ops adr (r # rs) w =
     Option.bind (AddRecord ops (adr r) r w) (\<lambda>(s, w).
       if Status_ok s then add_records ops adr rs w else Some (s, w))"

lemma crc32c_Cons: "crc32c (crc32c crc [b]) bs = crc32c crc (b # bs)"
  by (simp add: crc32c_def)

lemma type_crc: "lw_type_crc w = InitTypeCrc at \<Longrightarrow> lw_type_crc w ! record_code t = crc32c 0 [of_nat (record_code t)]"
  by (cases t) (simp_all add: InitTypeCrc_def kMaxRecordType_def crc_Value_def Extend_crc32c nth_append upt_rec numeral_eq_Suc)

lemma header_physical:
  "lw_type_crc w = InitTypeCrc at \<Longrightarrow> physical_header w t pval ptr @ ptr = physical t ptr"
  using type_crc [of w at t] by (simp add: physical_header_def physical_def Extend_crc32c crc32c_Cons Let_def)

context sink
begin

text \<open>What an operation does that appends \<open>bs\<close> to the log.\<close>

definition appended :: "u8 list \<Rightarrow> 'f log_writer \<Rightarrow> 'f log_writer \<Rightarrow> bool" where
  "appended bs w w' \<longleftrightarrow> contents (lw_dest w') = contents (lw_dest w) @ bs \<and>
     stored (lw_dest w') = contents (lw_dest w') \<and> limit (lw_dest w') = limit (lw_dest w) \<and>
     lw_block_offset w' \<le> kBlockSize \<and> lw_type_crc w' = lw_type_crc w \<and>
     lw_block_offset w' mod kBlockSize = (lw_block_offset w + length bs) mod kBlockSize"

lemma appended_trans: "appended bs w w1 \<Longrightarrow> appended bs' w1 w2 \<Longrightarrow> appended (bs @ bs') w w2"
  unfolding appended_def by (metis append.assoc length_append add.assoc mod_add_left_eq)

lemma Emit_ok:
  assumes "\<exists>at. lw_type_crc w = InitTypeCrc at" "lw_block_offset w + kHeaderSize + length ptr \<le> kBlockSize"
    and "length (contents (lw_dest w)) + kHeaderSize + length ptr \<le> limit (lw_dest w)"
  shows "\<exists>dest. EmitPhysicalRecord ops t pval ptr w =
      Some (OK, w\<lparr>lw_dest := dest, lw_block_offset := lw_block_offset w + kHeaderSize + length ptr\<rparr>) \<and>
    contents dest = contents (lw_dest w) @ physical t ptr \<and> stored dest = contents dest \<and>
    limit dest = limit (lw_dest w)"
proof -
  obtain at where at: "lw_type_crc w = InitTypeCrc at" using assms(1) ..
  let ?h = "physical_header w t pval ptr"
  have len: "length ?h = kHeaderSize" by (simp add: physical_header_def kHeaderSize_def Let_def)
  have n: "length ptr \<le> 0xffff" using assms(2) by (simp add: kBlockSize_def)
  obtain d1 where d1: "Append ops ?h (lw_dest w) = (OK, d1)" "contents d1 = contents (lw_dest w) @ ?h"
      "limit d1 = limit (lw_dest w)"
    using Append_ok [of "lw_dest w" ?h] assms(3) len by auto
  obtain d2 where d2: "Append ops ptr d1 = (OK, d2)" "contents d2 = contents d1 @ ptr" "limit d2 = limit d1"
    using Append_ok [of d1 ptr] d1 assms(3) len by auto
  obtain d3 where d3: "Flush ops d2 = (OK, d3)" "contents d3 = contents d2" "stored d3 = contents d2" "limit d3 = limit d2"
    using Flush_ok [of d2] d1 d2 assms(3) len by auto
  show ?thesis
    using n assms(2) d1 d2 d3 header_physical [OF at, of t pval ptr]
    by (auto simp: EmitPhysicalRecord_def Let_def)
qed

lemma switch_ok:
  assumes "lw_block_offset w \<le> kBlockSize" "length (contents (lw_dest w)) + padding (lw_block_offset w) \<le> limit (lw_dest w)"
  shows "\<exists>dest. switch_block ops w = Some (w\<lparr>lw_dest := dest, lw_block_offset := padded (lw_block_offset w)\<rparr>) \<and>
    contents dest = contents (lw_dest w) @ replicate (padding (lw_block_offset w)) 0 \<and> limit dest = limit (lw_dest w)"
proof (cases "padding (lw_block_offset w) = 0")
  case True
  then show ?thesis
    using assms(1) by (auto simp: switch_block_def padding_def padded_def Let_def split: if_splits intro!: exI [of _ "lw_dest w"])
next
  case False
  then show ?thesis
    using assms Append_ok [of "lw_dest w" "replicate (padding (lw_block_offset w)) 0"]
    by (auto simp: switch_block_def padding_def padded_def Let_def split: if_splits)
qed

lemma add_fragments_ok:
  assumes "lw_block_offset w \<le> kBlockSize" "\<exists>at. lw_type_crc w = InitTypeCrc at"
    and "length (split_record begin (lw_block_offset w) ptr) \<le> fuel"
    and "length (contents (lw_dest w)) + length (concat (map fragment_bytes (split_record begin (lw_block_offset w) ptr)))
      \<le> limit (lw_dest w)"
  shows "\<exists>w'. add_fragments fuel ops begin pval ptr w = Some (OK, w') \<and>
    appended (concat (map fragment_bytes (split_record begin (lw_block_offset w) ptr))) w w'"
  using assms
proof (induction "begin" "lw_block_offset w" ptr arbitrary: w fuel pval rule: split_record.induct)
  case (1 b ptr)
  let ?off = "lw_block_offset w"
  define n where "n = min (length ptr) (room ?off)"
  let ?fits = "length ptr \<le> room ?off"
  let ?f = "(padding ?off, fragment_type b ?fits, take n ptr)"
  have split: "split_record b ?off ptr = ?f #
      (if length ptr > n then split_record False (padded ?off + kHeaderSize + n) (drop n ptr) else [])"
    by (subst split_record.simps) (simp add: Let_def n_def)
  obtain fuel' where fuel: "fuel = Suc fuel'" using "1.prems"(3) split by (cases fuel) simp_all
  have len [simp]: "min (length ptr) n = n" by (simp add: n_def)
  let ?more = "if length ptr > n then split_record False (padded ?off + kHeaderSize + n) (drop n ptr) else []"
  have lim: "length (contents (lw_dest w)) + (padding ?off + kHeaderSize + n + length (concat (map fragment_bytes ?more)))
      \<le> limit (lw_dest w)"
    using "1.prems"(4) unfolding split by simp
  obtain d1 where d1: "switch_block ops w = Some (w\<lparr>lw_dest := d1, lw_block_offset := padded ?off\<rparr>)"
      "contents d1 = contents (lw_dest w) @ replicate (padding ?off) 0" "limit d1 = limit (lw_dest w)"
    using switch_ok [of w] "1.prems"(1) lim by fastforce
  let ?w1 = "w\<lparr>lw_dest := d1, lw_block_offset := padded ?off\<rparr>"
  have offs: "padded ?off + kHeaderSize + n \<le> kBlockSize" using padded_room [OF "1.prems"(1)] by (simp add: n_def)
  obtain d2 where d2: "EmitPhysicalRecord ops (fragment_type b ?fits) pval (take n ptr) ?w1 =
      Some (OK, ?w1\<lparr>lw_dest := d2, lw_block_offset := padded ?off + kHeaderSize + n\<rparr>)"
      "contents d2 = contents d1 @ physical (fragment_type b ?fits) (take n ptr)"
      "stored d2 = contents d2" "limit d2 = limit d1"
    using Emit_ok [of ?w1 "take n ptr" "fragment_type b ?fits" pval] "1.prems"(2) offs d1(2,3) lim by fastforce
  let ?w2 = "?w1\<lparr>lw_dest := d2, lw_block_offset := padded ?off + kHeaderSize + n\<rparr>"
  have avail: "kBlockSize - lw_block_offset ?w1 - kHeaderSize = room ?off" by (simp add: room_def)
  have pick: "(if length ptr < room ?off then length ptr else room ?off) = n" by (auto simp: n_def)
  have fin: "(length ptr = n) = ?fits" by (auto simp: n_def)
  have step: "add_fragments fuel ops b pval ptr w =
      (if length ptr > n then add_fragments fuel' ops False (pval + of_nat n) (drop n ptr) ?w2 else Some (OK, ?w2))"
    unfolding fuel add_fragments.simps(2) d1(1) bind.simps Let_def avail pick fin d2(1) prod.case
    by (simp only: Status_ok_simps zero_less_diff simp_thms)
  have "(padded ?off + kHeaderSize + n) mod kBlockSize = (?off + (padding ?off + kHeaderSize + n)) mod kBlockSize"
    using padded_padding [OF "1.prems"(1)] by (metis add.assoc mod_add_left_eq)
  then have first: "appended (fragment_bytes ?f) w ?w2"
    using d1(2,3) d2(2-4) offs by (simp add: appended_def add.assoc)
  show ?case
  proof (cases "length ptr > n")
    case True
    have "\<exists>w'. add_fragments fuel' ops False (pval + of_nat n) (drop n ptr) ?w2 = Some (OK, w') \<and>
        appended (concat (map fragment_bytes (split_record False (lw_block_offset ?w2) (drop n ptr)))) ?w2 w'"
    proof (rule "1.hyps" [OF n_def True])
      show "length (split_record False (lw_block_offset ?w2) (drop n ptr)) \<le> fuel'"
        using "1.prems"(3) True unfolding split fuel by simp
      show "length (contents (lw_dest ?w2)) +
          length (concat (map fragment_bytes (split_record False (lw_block_offset ?w2) (drop n ptr)))) \<le> limit (lw_dest ?w2)"
        using first lim True by (simp add: appended_def)
    qed (use "1.prems"(2) offs in simp_all)
    then show ?thesis
      using True step appended_trans [OF first] by (auto simp: split)
  next
    case False
    then show ?thesis using step first by (simp add: split)
  qed
qed

lemma AddRecord_ok:
  assumes "lw_block_offset w \<le> kBlockSize" "lw_block_offset w mod kBlockSize = p mod kBlockSize"
    and "\<exists>at. lw_type_crc w = InitTypeCrc at"
    and "length (contents (lw_dest w)) + length (record_bytes (p mod kBlockSize) r) \<le> limit (lw_dest w)"
  shows "\<exists>w'. AddRecord ops pval r w = Some (OK, w') \<and> appended (record_bytes (p mod kBlockSize) r) w w'"
proof -
  have "record_bytes (p mod kBlockSize) r = concat (map fragment_bytes (split_record True (lw_block_offset w) r))"
    using split_record_mod [OF assms(1), of True r] assms(2) by (simp add: record_bytes_def)
  moreover have "length (split_record True (lw_block_offset w) r) \<le> length r + 2"
    using length_split_record [of True "lw_block_offset w" r] by (simp split: if_splits)
  ultimately show ?thesis
    using add_fragments_ok [OF assms(1,3)] assms(4) by (simp add: AddRecord_def)
qed

lemma add_records_ok:
  assumes "lw_block_offset w \<le> kBlockSize" "lw_block_offset w mod kBlockSize = p mod kBlockSize"
    and "\<exists>at. lw_type_crc w = InitTypeCrc at" "stored (lw_dest w) = contents (lw_dest w)"
    and "length (contents (lw_dest w)) + length (log_bytes p rs) \<le> limit (lw_dest w)"
  shows "\<exists>w'. add_records ops adr rs w = Some (OK, w') \<and>
    stored (lw_dest w') = contents (lw_dest w) @ log_bytes p rs \<and> contents (lw_dest w') = stored (lw_dest w') \<and>
    limit (lw_dest w') = limit (lw_dest w)"
  using assms
proof (induction rs arbitrary: p w)
  case (Cons r rs)
  let ?b = "record_bytes (p mod kBlockSize) r"
  obtain w1 where w1: "AddRecord ops (adr r) r w = Some (OK, w1)" "appended ?b w w1"
    using AddRecord_ok [OF Cons.prems(1-3), of r "adr r"] Cons.prems(5) by (auto simp: Let_def)
  then have "lw_block_offset w1 mod kBlockSize = (p + length ?b) mod kBlockSize"
    using Cons.prems(2) unfolding appended_def by (metis mod_add_left_eq)
  then obtain w' where "add_records ops adr rs w1 = Some (OK, w')"
      "stored (lw_dest w') = contents (lw_dest w1) @ log_bytes (p + length ?b) rs"
      "contents (lw_dest w') = stored (lw_dest w')" "limit (lw_dest w') = limit (lw_dest w1)"
    using Cons.IH [of w1 "p + length ?b"] w1(2) Cons.prems(3,5) by (auto simp: appended_def Let_def add.assoc)
  then show ?case using w1 by (simp add: appended_def Let_def)
qed simp

end

end
