(* ===== verification/LogProps.thy ===== *)
theory LogProps
  imports LogSpec
begin

text \<open>
  The reader gets back what the writer has written, also when the file ends in the middle of a
  record: the records that are complete, and no report of a corruption.
\<close>

section \<open>Reading physical records\<close>

text \<open>A fragment that lies at position \<open>p\<close> of the log as the writer puts it.\<close>

fun placed :: "nat \<Rightarrow> fragment \<Rightarrow> bool" where
  "placed p (pad, t, ptr) \<longleftrightarrow> t \<noteq> kZeroType \<and> pad = padding (p mod kBlockSize) \<and>
     padded (p mod kBlockSize) + kHeaderSize + length ptr \<le> kBlockSize"

lemma header_type_physical: "header_type (physical t ptr @ bs) = record_code t"
  by (cases t) (simp_all add: header_type_def physical_def nth_append)

lemma header_length_physical:
  assumes "length ptr < 2 ^ 16"
  shows "header_length (physical t ptr @ bs) = length ptr"
proof -
  let ?n = "length ptr"
  have low: "bit ?n k \<Longrightarrow> k < 16" for k
    using assms by (metis bit_take_bit_iff take_bit_nat_eq_self)
  have div: "?n div 256 = drop_bit 8 ?n" by (simp add: drop_bit_eq_div)
  have "(ucast (of_nat ?n AND 0xff :: u8) AND 0xff) OR push_bit 8 (ucast (of_nat (?n div 256) :: u8) AND 0xff) = (of_nat ?n :: u32)"
    by (rule bit_word_eqI) (auto simp: bit_simps and_ff div dest: low)
  then show ?thesis
    using assms by (simp add: header_length_def physical_def nth_append unat_of_nat_small)
qed

lemma crc_right_physical: "length ptr < 2 ^ 16 \<Longrightarrow> \<not> crc_wrong at (physical t ptr @ bs)"
  unfolding crc_wrong_def header_length_physical
  by (simp add: crc_Value_def Extend_crc32c physical_def Unmask_Mask)

lemma physical_payload [simp]:
  "drop kHeaderSize (physical t ptr @ bs) = ptr @ bs" "drop kHeaderSize (physical t ptr) = ptr"
  by (simp_all add: physical_def kHeaderSize_def)

lemma header_length_take: "6 \<le> k \<Longrightarrow> header_length (take k h) = header_length h"
  by (simp add: header_length_def)

text \<open>The end of the block of a position; a position on a border may be behind its block.\<close>

lemma block_end:
  assumes "e mod kBlockSize = 0" "p \<le> e" "e \<le> p + kBlockSize"
  shows "e = p + (kBlockSize - p mod kBlockSize) \<or> p mod kBlockSize = 0 \<and> e = p"
proof -
  obtain k where k: "e = 32768 * k" using assms(1) by (auto simp: kBlockSize_def)
  define a off where "a = p div 32768" and "off = p mod 32768"
  then have p: "p = 32768 * a + off" "off < 32768" "p mod kBlockSize = off" by (simp_all add: kBlockSize_def)
  then have "a \<le> k" "k \<le> a + 1" using k assms(2,3) unfolding kBlockSize_def by linarith+
  then have "k = a \<or> k = a + 1" by linarith
  then show ?thesis using k p assms(2) by (auto simp: kBlockSize_def)
qed

lemma kBlockSize_mod_less: "p mod kBlockSize < kBlockSize"
  by (simp add: kBlockSize_def)

text \<open>The fragments of a record, one after the other.\<close>

lemma split_step:
  fixes p :: nat and ptr :: "u8 list" and b :: bool
  defines "n \<equiv> min (length ptr) (room (p mod kBlockSize))"
    and "f \<equiv> (padding (p mod kBlockSize), fragment_type b (length ptr \<le> room (p mod kBlockSize)),
      take (min (length ptr) (room (p mod kBlockSize))) ptr)"
  shows "split_record b (p mod kBlockSize) ptr = f # (if n < length ptr
      then split_record False ((p + length (fragment_bytes f)) mod kBlockSize) (drop n ptr) else [])"
    and "placed p f"
proof -
  let ?off = "p mod kBlockSize"
  have off: "?off \<le> kBlockSize" using kBlockSize_mod_less [of p] by simp
  let ?next = "padded ?off + kHeaderSize + n"
  have le: "?next \<le> kBlockSize" using padded_room [OF off] by (simp add: n_def)
  have "length (fragment_bytes f) = padding ?off + kHeaderSize + n" by (simp add: f_def n_def)
  then have m: "(p + length (fragment_bytes f)) mod kBlockSize = ?next mod kBlockSize"
    using padded_padding [OF off] by (metis add.assoc mod_add_left_eq)
  then show "split_record b ?off ptr = f # (if n < length ptr
      then split_record False ((p + length (fragment_bytes f)) mod kBlockSize) (drop n ptr) else [])"
    unfolding m split_record_mod [OF le] by (subst split_record.simps) (simp only: f_def n_def Let_def)
  show "placed p f" using le by (simp add: f_def n_def fragment_type_def)
qed

lemma record_bytes_nonempty: "0 < length (record_bytes off ptr)"
  by (subst record_bytes_def, subst split_record.simps) (simp add: Let_def kHeaderSize_def)

section \<open>Reading records\<close>

text \<open>All records of a log, and the reports of the reader.\<close>

partial_function (option) read_all ::
    "'f SequentialFile \<Rightarrow> 'f log_reader \<Rightarrow> (u8 list list \<times> (u64 \<times> Status) list) option" where
  "read_all ops r = Option.bind (ReadRecord ops r) (\<lambda>(rec, r).
     case rec of
       None \<Rightarrow> Some ([], lr_reports r)
     | Some x \<Rightarrow> Option.bind (read_all ops r) (\<lambda>(xs, rep). Some (x # xs, rep)))"

declare read_all.simps [code]

text \<open>The reader gives these records and then no more; it has made the reports \<open>rep\<close> all the time.\<close>

primrec reads :: "'f SequentialFile \<Rightarrow> (u64 \<times> Status) list \<Rightarrow> u8 list list \<Rightarrow> 'f log_reader \<Rightarrow> bool" where
  "reads ops rep [] r \<longleftrightarrow> (\<exists>r'. ReadRecord ops r = Some (None, r') \<and> lr_reports r' = rep)"
| "reads ops rep (x # xs) r \<longleftrightarrow> (\<exists>r'. ReadRecord ops r = Some (Some x, r') \<and> lr_reports r' = rep \<and> reads ops rep xs r')"

lemma read_all_reads: "reads ops rep xs r \<Longrightarrow> read_all ops r = Some (xs, rep)"
  by (induction xs arbitrary: r) (subst read_all.simps, auto)+

context source
begin

text \<open>
  A reader of the file with the bytes \<open>D\<close> at position \<open>p\<close>, with the reports \<open>rep\<close> so far, that has read
  the blocks up to \<open>e\<close>.
\<close>

definition at_block :: "u8 list \<Rightarrow> (u64 \<times> Status) list \<Rightarrow> nat \<Rightarrow> nat \<Rightarrow> 'f log_reader \<Rightarrow> bool" where
  "at_block D rep p e r \<longleftrightarrow> lr_reports r = rep \<and> lr_initial_offset r = 0 \<and> \<not> lr_resyncing r \<and>
     p \<le> length D \<and> e mod kBlockSize = 0 \<and> p \<le> e \<and> e \<le> p + kBlockSize \<and> lr_buffer r = drop p (take e D) \<and>
     lr_eof r = (length D < e) \<and> rest (lr_file r) = drop e D \<and> good (lr_file r)"

definition reading :: "u8 list \<Rightarrow> (u64 \<times> Status) list \<Rightarrow> nat \<Rightarrow> 'f log_reader \<Rightarrow> bool" where
  "reading D rep p r \<longleftrightarrow> (\<exists>e. at_block D rep p e r)"

lemma load_block:
  assumes "at_block D rep p e r" "length (lr_buffer r) < kHeaderSize" "e \<le> length D"
  shows "\<exists>r'. ReadPhysicalRecord ops res r = ReadPhysicalRecord ops res r' \<and> at_block D rep e (e + kBlockSize) r'"
proof -
  obtain f where f: "Read ops kBlockSize (lr_file r) = (OK, take kBlockSize (drop e D), f)"
      "rest f = drop (e + kBlockSize) D" "good f"
    using Read_ok [of "lr_file r" kBlockSize] assms(1) by (auto simp: at_block_def add.commute)
  define bs where "bs = take kBlockSize (drop e D)"
  let ?r1 = "r\<lparr>lr_file := f, lr_buffer := bs, lr_buffer_at := lr_backing_store r,
    lr_end_of_buffer_offset := lr_end_of_buffer_offset r + of_nat (length bs)\<rparr>"
  let ?r = "if length bs < kBlockSize then ?r1\<lparr>lr_eof := True\<rparr> else ?r1"
  have "read_block ops r = (True, ?r)" using f(1) unfolding bs_def [symmetric] by (simp add: read_block_def Let_def)
  then have "ReadPhysicalRecord ops res r = ReadPhysicalRecord ops res ?r"
    using assms by (subst ReadPhysicalRecord.simps) (simp add: at_block_def)
  moreover have "length bs < kBlockSize \<longleftrightarrow> length D < e + kBlockSize" using assms(3) by (auto simp: bs_def)
  then have "at_block D rep e (e + kBlockSize) ?r"
    using f(2,3) assms(1,3) by (auto simp: at_block_def bs_def take_drop add.commute)
  ultimately show ?thesis by blast
qed

lemma at_end:
  assumes "at_block D rep p e r" "length (lr_buffer r) < kHeaderSize" "length D < e"
  shows "\<exists>r'. ReadPhysicalRecord ops res r = (kEof, res, r') \<and> lr_reports r' = rep"
  using assms by (subst ReadPhysicalRecord.simps) (simp add: at_block_def clear_buffer_def)

lemma to_parse:
  assumes "at_block D rep p e r" "kHeaderSize \<le> length (lr_buffer r)"
  shows "ReadPhysicalRecord ops res r = parse_physical res r"
  using assms by (subst ReadPhysicalRecord.simps) simp

text \<open>The reader skips the padding, and stops when no header follows.\<close>

lemma find_header:
  assumes "reading D rep p r" and q: "q = p + padding (p mod kBlockSize)"
  shows "(\<exists>r' e. ReadPhysicalRecord ops res r = parse_physical res r' \<and> at_block D rep q e r' \<and>
      e = q + (kBlockSize - padded (p mod kBlockSize)) \<and> q + kHeaderSize \<le> length D) \<or>
    (\<exists>r'. ReadPhysicalRecord ops res r = (kEof, res, r') \<and> lr_reports r' = rep) \<and> length D < q + kHeaderSize"
proof -
  let ?off = "p mod kBlockSize"
  have off: "?off < kBlockSize" by (rule kBlockSize_mod_less)
  have big: "kHeaderSize < kBlockSize" by (simp add: kHeaderSize_def kBlockSize_def)
  have full: ?thesis if block: "at_block D rep p e r0" and e: "e = p + (kBlockSize - ?off)"
    and same: "ReadPhysicalRecord ops res r = ReadPhysicalRecord ops res r0" for e r0
  proof -
    have len: "length (lr_buffer r0) = min e (length D) - p" using block by (simp add: at_block_def min.commute)
    have start: ?thesis if "at_block D rep q e1 r1" "e1 = q + (kBlockSize - padded ?off)"
      "kHeaderSize \<le> kBlockSize - padded ?off"
      "ReadPhysicalRecord ops res r = ReadPhysicalRecord ops res r1" for e1 r1
    proof (cases "q + kHeaderSize \<le> length D")
      case True
      then have "kHeaderSize \<le> length (lr_buffer r1)" using that by (simp add: at_block_def)
      then show ?thesis using to_parse [OF that(1)] that True by auto
    next
      case False
      then have "length (lr_buffer r1) < kHeaderSize" "length D < e1" using that by (auto simp: at_block_def)
      then show ?thesis using at_end [OF that(1)] that(4) False by auto
    qed
    show ?thesis
    proof (cases "kBlockSize - ?off < kHeaderSize")
      case True
      then have q: "q = e" "padded ?off = 0" using q e by (simp_all add: padding_def padded_def)
      have short: "length (lr_buffer r0) < kHeaderSize" using True e len by simp
      show ?thesis
      proof (cases "e \<le> length D")
        case True
        then show ?thesis using load_block [OF block short True] start same q big by fastforce
      next
        case False
        then show ?thesis using at_end [OF block short] same q by auto
      qed
    next
      case False
      then show ?thesis using start [of e r0] block e same q by (simp add: padding_def padded_def)
    qed
  qed
  obtain e where block: "at_block D rep p e r" using assms(1) by (auto simp: reading_def)
  then have "e = p + (kBlockSize - ?off) \<or> ?off = 0 \<and> e = p"
    using block_end [of e p] by (simp add: at_block_def)
  then show ?thesis
  proof
    assume "e = p + (kBlockSize - ?off)"
    then show ?thesis using full block by blast
  next
    assume e: "?off = 0 \<and> e = p"
    then obtain r' where "ReadPhysicalRecord ops res r = ReadPhysicalRecord ops res r'" "at_block D rep p (p + kBlockSize) r'"
      using load_block [of D rep p e r res] block by (auto simp: at_block_def kHeaderSize_def)
    then show ?thesis using full e by auto
  qed
qed

text \<open>A fragment is read, and one that is cut off ends the log.\<close>

lemma read_fragment:
  assumes "reading D rep p r" "placed p (pad, t, ptr)" "drop p D = fragment_bytes (pad, t, ptr) @ bs"
  shows "\<exists>r'. ReadPhysicalRecord ops res r = (record_code t, ptr, r') \<and>
    reading D rep (p + length (fragment_bytes (pad, t, ptr))) r'"
proof -
  let ?q = "p + pad"
  have len: "length D = p + (pad + kHeaderSize + length ptr + length bs)"
    using arg_cong [OF assms(3), of length] assms(1) by (simp add: reading_def at_block_def) linarith
  obtain r1 e where r1: "ReadPhysicalRecord ops res r = parse_physical res r1" "at_block D rep ?q e r1"
      "e = ?q + (kBlockSize - padded (p mod kBlockSize))"
    using find_header [OF assms(1) HOL.refl, of res] assms(2) len by auto
  have small: "length ptr < 2 ^ 16" using assms(2) by (simp add: kBlockSize_def)
  have room: "?q + kHeaderSize + length ptr \<le> e" using r1(3) assms(2) by (simp only: placed.simps) linarith
  have "drop ?q D = physical t ptr @ bs" using arg_cong [OF assms(3), of "drop pad"] by (simp add: add.commute)
  then have buffer: "lr_buffer r1 = physical t ptr @ take (e - ?q - kHeaderSize - length ptr) bs"
    using r1(2) room by (simp add: at_block_def drop_take add.assoc)
  let ?r2 = "r1\<lparr>lr_buffer := drop (kHeaderSize + length ptr) (lr_buffer r1),
    lr_buffer_at := lr_buffer_at r1 + of_nat (kHeaderSize + length ptr)\<rparr>"
  have "at_block D rep (?q + (kHeaderSize + length ptr)) e ?r2"
    using r1(2) room len by (auto simp: at_block_def add.commute)
  moreover have type_code: "record_code t \<noteq> record_code kZeroType" using assms(2) by (cases t) simp_all
  then have "parse_physical res r1 = (record_code t, ptr, ?r2)"
    using assms(2) r1(2) type_code unfolding parse_physical_def Let_def buffer header_length_physical [OF small] header_type_physical
    by (simp add: crc_right_physical [OF small] at_block_def physical_payload)
  ultimately show ?thesis
    using r1(1) by (auto simp: reading_def add.assoc)
qed

lemma read_cut_fragment:
  assumes "reading D rep p r" "placed p (pad, t, ptr)" "drop p D = take k (fragment_bytes (pad, t, ptr))"
    and "k < length (fragment_bytes (pad, t, ptr))"
  shows "\<exists>r'. ReadPhysicalRecord ops res r = (kEof, res, r') \<and> lr_reports r' = rep"
proof -
  let ?q = "p + pad"
  have len: "length D = p + k"
    using arg_cong [OF assms(3), of length] assms(1,4) by (simp add: reading_def at_block_def) linarith
  show ?thesis
  proof (cases "length D < ?q + kHeaderSize")
    case True
    then show ?thesis using find_header [OF assms(1) HOL.refl, of res] assms(2) by auto
  next
    case False
    then obtain r1 e where r1: "ReadPhysicalRecord ops res r = parse_physical res r1" "at_block D rep ?q e r1"
        "e = ?q + (kBlockSize - padded (p mod kBlockSize))"
      using find_header [OF assms(1) HOL.refl, of res] assms(2) by auto
    have small: "length ptr < 2 ^ 16" using assms(2) by (simp add: kBlockSize_def)
    have "k < pad + kHeaderSize + length ptr" using assms(4) by (simp add: add.assoc)
    then have cut: "length D < e" "k - pad < kHeaderSize + length ptr"
      using r1(3) assms(2) len unfolding placed.simps kHeaderSize_def by linarith+
    have "drop ?q D = take (k - pad) (physical t ptr)"
      using arg_cong [OF assms(3), of "drop pad"] by (cases "k < pad") (simp_all add: add.commute drop_take)
    then have buffer: "lr_buffer r1 = take (k - pad) (physical t ptr)"
      using r1(2) cut by (simp add: at_block_def)
    have "header_length (lr_buffer r1) = length ptr"
      using header_length_take [of "k - pad" "physical t ptr"] header_length_physical [OF small, of t "[]"] False len
      by (simp add: buffer kHeaderSize_def)
    moreover have "length (lr_buffer r1) < kHeaderSize + length ptr" using cut(2) by (simp add: buffer)
    moreover have "lr_eof r1" using r1(2) cut(1) by (simp add: at_block_def)
    ultimately have "parse_physical res r1 = (kEof, res, clear_buffer r1)"
      by (simp add: parse_physical_def Let_def)
    then show ?thesis using r1 by (simp add: at_block_def clear_buffer_def)
  qed
qed

text \<open>The loop of \<open>ReadRecord\<close>, a fragment at a time.\<close>

definition locals_at :: "bool \<Rightarrow> u8 list \<Rightarrow> read_locals \<Rightarrow> bool" where
  "locals_at begin acc l \<longleftrightarrow>
     (if begin then \<not> rl_in_fragmented l \<and> acc = [] else rl_in_fragmented l \<and> rl_scratch l = acc)"

lemma reading_offset [simp]: "reading D rep p (r\<lparr>lr_last_record_offset := x\<rparr>) = reading D rep p r"
  by (simp add: reading_def at_block_def)

lemma loop_eof:
  assumes "ReadPhysicalRecord ops res r = (kEof, res, r')" "lr_reports r' = rep"
  shows "\<exists>r''. read_loop ops res l r = Some (None, r'') \<and> lr_reports r'' = rep"
  using assms by (subst read_loop.simps)
    (auto simp: resync_def record_step_def kEof_def kMaxRecordType_def Let_def)

lemma loop_fragment:
  assumes "ReadPhysicalRecord ops res r = (record_code (fragment_type begin end), ptr, r1)" "reading D rep p r1"
    and "locals_at begin acc l"
  shows "if end then \<exists>r'. read_loop ops res l r = Some (Some (acc @ ptr), r') \<and> reading D rep p r'
    else \<exists>l'. read_loop ops res l r = read_loop ops ptr l' r1 \<and> locals_at False (acc @ ptr) l'"
proof -
  have resync: "resync t r1 = (False, r1)" for t
    using assms(2) by (simp add: resync_def reading_def at_block_def)
  show ?thesis
    using assms by (subst (1 2) read_loop.simps)
      (auto simp: resync record_step_def start_over_def fragment_type_def locals_at_def Let_def split: if_splits)
qed

lemma read_fragments:
  assumes "length (split_record begin (p mod kBlockSize) ptr) \<le> k" "reading D rep p r" "locals_at begin acc l"
    and "drop p D = concat (map fragment_bytes (split_record begin (p mod kBlockSize) ptr)) @ bs"
  shows "\<exists>r'. read_loop ops res l r = Some (Some (acc @ ptr), r') \<and>
    reading D rep (p + length (concat (map fragment_bytes (split_record begin (p mod kBlockSize) ptr)))) r'"
  using assms
proof (induction k arbitrary: "begin" p ptr r acc l res)
  case 0
  then show ?case by (subst (asm) split_step(1)) simp
next
  case (Suc k b p ptr r acc l res)
  define n where "n = min (length ptr) (room (p mod kBlockSize))"
  define f where "f = (padding (p mod kBlockSize), fragment_type b (length ptr \<le> room (p mod kBlockSize)), take n ptr)"
  let ?more = "if n < length ptr then split_record False ((p + length (fragment_bytes f)) mod kBlockSize) (drop n ptr) else []"
  have split: "split_record b (p mod kBlockSize) ptr = f # ?more" and placed: "placed p f"
    using split_step [where b = b and p = p and ptr = ptr] by (simp_all only: f_def n_def)
  have data: "drop p D = fragment_bytes f @ (concat (map fragment_bytes ?more) @ bs)"
    using Suc.prems(4) unfolding split by simp
  obtain r1 where r1: "ReadPhysicalRecord ops res r =
      (record_code (fragment_type b (length ptr \<le> room (p mod kBlockSize))), take n ptr, r1)"
      "reading D rep (p + length (fragment_bytes f)) r1"
    using read_fragment [OF Suc.prems(2) placed [unfolded f_def] data [unfolded f_def], of res] by (auto simp: f_def)
  note step = loop_fragment [OF r1 Suc.prems(3)]
  show ?case
  proof (cases "n < length ptr")
    case True
    then have notend: "\<not> length ptr \<le> room (p mod kBlockSize)" by (simp add: n_def)
    obtain l' where l': "read_loop ops res l r = read_loop ops (take n ptr) l' r1" "locals_at False (acc @ take n ptr) l'"
      using step notend by auto
    have "\<exists>r'. read_loop ops (take n ptr) l' r1 = Some (Some ((acc @ take n ptr) @ drop n ptr), r') \<and>
        reading D rep ((p + length (fragment_bytes f)) + length (concat (map fragment_bytes
          (split_record False ((p + length (fragment_bytes f)) mod kBlockSize) (drop n ptr))))) r'"
    proof (rule Suc.IH [OF _ r1(2) l'(2)])
      show "length (split_record False ((p + length (fragment_bytes f)) mod kBlockSize) (drop n ptr)) \<le> k"
        using Suc.prems(1) True unfolding split by simp
      show "drop (p + length (fragment_bytes f)) D = concat (map fragment_bytes
          (split_record False ((p + length (fragment_bytes f)) mod kBlockSize) (drop n ptr))) @ bs"
        using arg_cong [OF data, of "drop (length (fragment_bytes f))"] True by (simp add: add.commute)
    qed
    then show ?thesis using l'(1) True by (auto simp: split add.assoc)
  next
    case False
    then have "length ptr \<le> room (p mod kBlockSize)" "take n ptr = ptr" by (simp_all add: n_def)
    then show ?thesis using step False by (simp add: split)
  qed
qed

lemma read_cut_fragments:
  assumes "length (split_record begin (p mod kBlockSize) ptr) \<le> k" "reading D rep p r" "locals_at begin acc l"
    and "drop p D = take c (concat (map fragment_bytes (split_record begin (p mod kBlockSize) ptr)))"
    and "c < length (concat (map fragment_bytes (split_record begin (p mod kBlockSize) ptr)))"
  shows "\<exists>r'. read_loop ops res l r = Some (None, r') \<and> lr_reports r' = rep"
  using assms
proof (induction k arbitrary: "begin" p ptr r acc l res c)
  case 0
  then show ?case by (subst (asm) split_step(1)) simp
next
  case (Suc k b p ptr r acc l res c)
  define n where "n = min (length ptr) (room (p mod kBlockSize))"
  define f where "f = (padding (p mod kBlockSize), fragment_type b (length ptr \<le> room (p mod kBlockSize)), take n ptr)"
  let ?more = "if n < length ptr then split_record False ((p + length (fragment_bytes f)) mod kBlockSize) (drop n ptr) else []"
  have split: "split_record b (p mod kBlockSize) ptr = f # ?more" and placed: "placed p f"
    using split_step [where b = b and p = p and ptr = ptr] by (simp_all only: f_def n_def)
  show ?case
  proof (cases "c < length (fragment_bytes f)")
    case True
    then have "drop p D = take c (fragment_bytes f)" using Suc.prems(4) unfolding split by simp
    then show ?thesis
      using read_cut_fragment [OF Suc.prems(2) placed [unfolded f_def], of c res] True loop_eof
      by (auto simp: f_def)
  next
    case False
    define c' where "c' = c - length (fragment_bytes f)"
    have data: "drop p D = fragment_bytes f @ take c' (concat (map fragment_bytes ?more))"
      using Suc.prems(4) False unfolding split c'_def by simp
    have c': "c' < length (concat (map fragment_bytes ?more))"
      using Suc.prems(5) False unfolding split c'_def by simp
    then have more: "n < length ptr" by (auto split: if_splits)
    then have notend: "\<not> length ptr \<le> room (p mod kBlockSize)" by (simp add: n_def)
    obtain r1 where r1: "ReadPhysicalRecord ops res r =
        (record_code (fragment_type b (length ptr \<le> room (p mod kBlockSize))), take n ptr, r1)"
        "reading D rep (p + length (fragment_bytes f)) r1"
      using read_fragment [OF Suc.prems(2) placed [unfolded f_def] data [unfolded f_def], of res] by (auto simp: f_def)
    obtain l' where l': "read_loop ops res l r = read_loop ops (take n ptr) l' r1" "locals_at False (acc @ take n ptr) l'"
      using loop_fragment [OF r1 Suc.prems(3)] notend by auto
    have "\<exists>r'. read_loop ops (take n ptr) l' r1 = Some (None, r') \<and> lr_reports r' = rep"
    proof (rule Suc.IH [OF _ r1(2) l'(2)])
      show "length (split_record False ((p + length (fragment_bytes f)) mod kBlockSize) (drop n ptr)) \<le> k"
        using Suc.prems(1) more unfolding split by simp
      show "drop (p + length (fragment_bytes f)) D = take c' (concat (map fragment_bytes
          (split_record False ((p + length (fragment_bytes f)) mod kBlockSize) (drop n ptr))))"
        using arg_cong [OF data, of "drop (length (fragment_bytes f))"] more by (simp add: add.commute)
    qed (use c' more in simp)
    then show ?thesis using l'(1) by simp
  qed
qed

lemma reads_ok:
  assumes "reading D rep p r"
    and "drop p D = log_bytes p rs @ take c (record_bytes ((p + length (log_bytes p rs)) mod kBlockSize) x)"
    and "c < length (record_bytes ((p + length (log_bytes p rs)) mod kBlockSize) x)"
  shows "reads ops rep rs r"
  using assms
proof (induction rs arbitrary: p r)
  have start: "locals_at True [] \<lparr>rl_scratch = [], rl_in_fragmented = False, rl_prospective = 0\<rparr>"
    by (simp add: locals_at_def)
  have begins: "ReadRecord ops r = read_loop ops [] \<lparr>rl_scratch = [], rl_in_fragmented = False, rl_prospective = 0\<rparr> r"
    if "reading D rep p r" for p r
    using that by (simp add: ReadRecord_def reading_def at_block_def)
  {
    case Nil
    then show ?case
      using read_cut_fragments [OF HOL.refl [THEN eq_imp_le] Nil.prems(1) start, where ptr = x and c = c and res = "[]"] begins [OF Nil.prems(1)]
      by (auto simp: record_bytes_def)
  next
    case (Cons y rs)
    let ?b = "record_bytes (p mod kBlockSize) y"
    have data: "drop p D = ?b @ (log_bytes (p + length ?b) rs @
        take c (record_bytes ((p + length ?b + length (log_bytes (p + length ?b) rs)) mod kBlockSize) x))"
      using Cons.prems(2) by (simp add: Let_def add.assoc)
    obtain r' where r': "ReadRecord ops r = Some (Some y, r')" "reading D rep (p + length ?b) r'"
      using read_fragments [OF HOL.refl [THEN eq_imp_le] Cons.prems(1) start data [unfolded record_bytes_def [of "p mod kBlockSize"]], where res = "[]"]
        begins [OF Cons.prems(1)] by (auto simp: record_bytes_def)
    have "reads ops rep rs r'"
    proof (rule Cons.IH [OF r'(2)])
      show "drop (p + length ?b) D = log_bytes (p + length ?b) rs @
          take c (record_bytes ((p + length ?b + length (log_bytes (p + length ?b) rs)) mod kBlockSize) x)"
        using arg_cong [OF data, of "drop (length ?b)"] by (simp add: add.commute)
    qed (use Cons.prems(3) in \<open>simp add: Let_def add.assoc\<close>)
    moreover have "lr_reports r' = rep" using r'(2) by (auto simp: reading_def at_block_def)
    ultimately show ?case using r'(1) by auto
  }
qed

end

section \<open>Logs in files\<close>

text \<open>
  A session that appends records to a log file and one that reads all of it. \<open>adr\<close>, \<open>at\<close> and \<open>store\<close>
  are the addresses of the records and of the buffers; a crash leaves the first \<open>k\<close> bytes.
\<close>

definition write_log :: "string \<Rightarrow> (u8 list \<Rightarrow> u64) \<Rightarrow> u64 \<Rightarrow> u8 list list \<Rightarrow> FILE \<Rightarrow> (Status \<times> FILE) option" where
  "write_log name adr at rs f = map_option (\<lambda>(s, w). (s, wf_file (lw_dest w)))
     (add_records posix_writable adr rs
       (Writer_at \<lparr>wf_filename = name, wf_file = f\<rparr> (of_nat (length (f_data f))) at))"

definition read_log ::
    "string \<Rightarrow> bool \<Rightarrow> bool \<Rightarrow> u64 \<Rightarrow> FILE \<Rightarrow> (u8 list list \<times> (u64 \<times> Status) list) option" where
  "read_log name reporter checksum store f =
     read_all posix_sequential (Reader \<lparr>sf_filename = name, sf_file = f\<rparr> reporter checksum store 0)"

definition crashed :: "nat \<Rightarrow> FILE \<Rightarrow> FILE" where
  "crashed k f = f\<lparr>f_data := take k (f_data f), f_pending := [], f_pos := 0, f_eof := False\<rparr>"

lemma Writer_at_offset:
  "lw_block_offset (Writer_at dest (of_nat n) at) = n mod kBlockSize"
proof -
  have "unat ((of_nat n :: u64) mod of_nat kBlockSize) = n mod 2 ^ 64 mod kBlockSize"
    by (simp add: unat_mod unat_of_nat kBlockSize_def)
  also have "\<dots> = n mod kBlockSize"
    by (rule mod_mod_cancel) (simp add: kBlockSize_def)
  finally show ?thesis by (simp add: Writer_at_def)
qed

lemma write_log_ok:
  assumes "f_pending f = []" "length (f_data f) + length (log_bytes (length (f_data f)) rs) \<le> f_limit f"
  shows "\<exists>f'. write_log name adr at rs f = Some (OK, f') \<and> f_pending f' = [] \<and> f_limit f' = f_limit f \<and>
    f_data f' = f_data f @ log_bytes (length (f_data f)) rs"
proof -
  let ?w = "Writer_at \<lparr>wf_filename = name, wf_file = f\<rparr> (of_nat (length (f_data f))) at"
  have "lw_block_offset ?w \<le> kBlockSize" "lw_block_offset ?w mod kBlockSize = length (f_data f) mod kBlockSize"
    using kBlockSize_mod_less [of "length (f_data f)"] unfolding Writer_at_offset by simp_all
  moreover have "\<exists>a. lw_type_crc ?w = InitTypeCrc a" "lw_dest ?w = \<lparr>wf_filename = name, wf_file = f\<rparr>"
    by (auto simp: Writer_at_def)
  ultimately show ?thesis
    using posix_out.add_records_ok [of ?w "length (f_data f)" rs adr] assms
    by (auto simp: write_log_def)
qed

lemma log_reads:
  assumes "f_data f = log_bytes 0 rs @ take c (record_bytes (length (log_bytes 0 rs) mod kBlockSize) x)"
    and "c < length (record_bytes (length (log_bytes 0 rs) mod kBlockSize) x)"
    and "f_pos f = 0" "length (f_data f) \<le> f_limit f"
  shows "reads posix_sequential [] rs (Reader \<lparr>sf_filename = name, sf_file = f\<rparr> reporter checksum store 0)"
proof -
  let ?r = "Reader \<lparr>sf_filename = name, sf_file = f\<rparr> reporter checksum store 0"
  have "posix_in.at_block (f_data f) [] 0 0 ?r"
    using assms(3,4) by (simp add: posix_in.at_block_def Reader_def)
  then have "posix_in.reading (f_data f) [] 0 ?r" unfolding posix_in.reading_def by blast
  then show ?thesis
    using posix_in.reads_ok [of "f_data f" "[]" 0 ?r rs c x] assms(1,2) by simp
qed

lemma read_log_ok:
  assumes "f_data f = log_bytes 0 rs @ take c (record_bytes (length (log_bytes 0 rs) mod kBlockSize) x)"
    and "c < length (record_bytes (length (log_bytes 0 rs) mod kBlockSize) x)"
    and "f_pos f = 0" "length (f_data f) \<le> f_limit f"
  shows "read_log name reporter checksum store f = Some (rs, [])"
  unfolding read_log_def by (rule read_all_reads [OF log_reads [OF assms]])

text \<open>
  C34. Recovery of the log: records written to a new file in two sessions are read back by a
  reader that finds the file cut off anywhere behind the last record of the first session and
  before the end of the first record of the second: exactly the records of the first session, and
  no corruption is reported. With no record in the second session the whole file is read back.
\<close>

theorem log_recovers:
  assumes "f_data f = []" and "f_pending f = []" and "length (log_bytes 0 (rs @ rs')) \<le> f_limit f"
    and "length (log_bytes 0 rs) \<le> k" and "rs' = [] \<or> k < length (log_bytes 0 (rs @ [hd rs']))"
  shows "Option.bind (write_log name adr at rs f) (\<lambda>(s, f).
    Option.bind (write_log name adr at rs' f) (\<lambda>(s', f).
      map_option (\<lambda>r. (s, s', r)) (read_log name reporter checksum store (crashed k f)))) =
    Some (OK, OK, rs, [])"
proof -
  let ?n = "length (log_bytes 0 rs)"
  define c where "c = (if rs' = [] then 0 else k - ?n)"
  obtain f1 where f1: "write_log name adr at rs f = Some (OK, f1)" "f_pending f1 = []" "f_limit f1 = f_limit f"
      "f_data f1 = log_bytes 0 rs"
    using write_log_ok [of f rs name adr at] assms(1-3) by (auto simp: log_bytes_append)
  obtain f2 where f2: "write_log name adr at rs' f1 = Some (OK, f2)" "f_limit f2 = f_limit f"
      "f_data f2 = log_bytes 0 rs @ log_bytes ?n rs'"
    using write_log_ok [of f1 rs' name adr at] f1 assms(3) by (auto simp: log_bytes_append)
  have "f_data (crashed k f2) = log_bytes 0 rs @ take c (record_bytes (?n mod kBlockSize) (hd rs')) \<and>
      c < length (record_bytes (?n mod kBlockSize) (hd rs'))"
    using assms(4,5) record_bytes_nonempty [of "?n mod kBlockSize" "hd rs'"] f2(3)
    by (cases rs') (auto simp: crashed_def c_def log_bytes_append Let_def)
  moreover have "length (f_data (crashed k f2)) \<le> f_limit (crashed k f2)"
    using assms(3) f2 by (simp add: crashed_def log_bytes_append)
  ultimately show ?thesis
    using read_log_ok [of "crashed k f2" rs c "hd rs'"] f1(1) f2(1) by (simp add: crashed_def)
qed

lemma length_small_record: "off + length x < 1000 \<Longrightarrow> length (record_bytes off x) = 7 + length x"
  by (simp add: record_bytes_def split_record.simps Let_def room_def padded_def padding_def kBlockSize_def kHeaderSize_def)

theorem log_recovers_witness:
  "Option.bind (write_log ''log'' (\<lambda>_. 8) 8 [[1, 2, 3]]
      \<lparr>f_data = [], f_pending = [], f_bufsize = 16, f_pos = 0, f_eof = False, f_limit = 1000, f_strerror = []\<rparr>) (\<lambda>(s, f).
    Option.bind (write_log ''log'' (\<lambda>_. 8) 8 [[9], [5, 6]] f) (\<lambda>(s', f).
      map_option (\<lambda>r. (s, s', r)) (read_log ''log'' True True 64 (crashed 14 f)))) =
    Some (OK, OK, [[1, 2, 3]], [])"
  by (rule log_recovers) (simp_all add: length_small_record Let_def kBlockSize_def)

end
