(* ===== verification/VersionEdit.thy ===== *)
theory VersionEdit
  imports DbFormat Status "HOL-Library.Product_Lexorder"
begin

text \<open>
  \<open>leveldb-library/db/version_edit.cc\<close>: the records of the descriptor log, a change of the set of
  tables and of the counters of the database. An \<open>InternalKey\<close> is its bytes \<open>rep_\<close>; the set of deleted
  files is the ordered list of its elements, as \<open>std::set\<close> iterates over them.
\<close>

definition kNumLevels :: nat where
  "kNumLevels = 7"

record FileMetaData =
  fm_refs :: int
  fm_allowed_seeks :: int
  fm_number :: u64
  fm_file_size :: u64
  fm_smallest :: "u8 list"
  fm_largest :: "u8 list"

text \<open>The constructor leaves the number uninitialized; every use of it sets the number first.\<close>

definition make_FileMetaData :: "u64 \<Rightarrow> u64 \<Rightarrow> u8 list \<Rightarrow> u8 list \<Rightarrow> FileMetaData" where
  "make_FileMetaData number file_size smallest largest =
     \<lparr>fm_refs = 0, fm_allowed_seeks = 2 ^ 30, fm_number = number, fm_file_size = file_size,
      fm_smallest = smallest, fm_largest = largest\<rparr>"

record version_edit =
  ve_comparator :: "u8 list"
  ve_log_number :: u64
  ve_prev_log_number :: u64
  ve_next_file_number :: u64
  ve_last_sequence :: u64
  ve_has_comparator :: bool
  ve_has_log_number :: bool
  ve_has_prev_log_number :: bool
  ve_has_next_file_number :: bool
  ve_has_last_sequence :: bool
  ve_compact_pointers :: "(int \<times> u8 list) list"
  ve_deleted_files :: "(int \<times> u64) list"
  ve_new_files :: "(int \<times> FileMetaData) list"

text \<open>\<open>Clear\<close> keeps the compaction pointers.\<close>

definition VE_Clear :: "version_edit \<Rightarrow> version_edit" where
  "VE_Clear e = e\<lparr>ve_comparator := [], ve_log_number := 0, ve_prev_log_number := 0, ve_last_sequence := 0,
     ve_next_file_number := 0, ve_has_comparator := False, ve_has_log_number := False,
     ve_has_prev_log_number := False, ve_has_next_file_number := False, ve_has_last_sequence := False,
     ve_deleted_files := [], ve_new_files := []\<rparr>"

definition VersionEdit :: version_edit where
  "VersionEdit = \<lparr>ve_comparator = [], ve_log_number = 0, ve_prev_log_number = 0, ve_next_file_number = 0,
     ve_last_sequence = 0, ve_has_comparator = False, ve_has_log_number = False,
     ve_has_prev_log_number = False, ve_has_next_file_number = False, ve_has_last_sequence = False,
     ve_compact_pointers = [], ve_deleted_files = [], ve_new_files = []\<rparr>"

definition VE_SetComparatorName :: "u8 list \<Rightarrow> version_edit \<Rightarrow> version_edit" where
  "VE_SetComparatorName name e = e\<lparr>ve_has_comparator := True, ve_comparator := name\<rparr>"

definition VE_SetLogNumber :: "u64 \<Rightarrow> version_edit \<Rightarrow> version_edit" where
  "VE_SetLogNumber num e = e\<lparr>ve_has_log_number := True, ve_log_number := num\<rparr>"

definition VE_SetPrevLogNumber :: "u64 \<Rightarrow> version_edit \<Rightarrow> version_edit" where
  "VE_SetPrevLogNumber num e = e\<lparr>ve_has_prev_log_number := True, ve_prev_log_number := num\<rparr>"

definition VE_SetNextFile :: "u64 \<Rightarrow> version_edit \<Rightarrow> version_edit" where
  "VE_SetNextFile num e = e\<lparr>ve_has_next_file_number := True, ve_next_file_number := num\<rparr>"

definition VE_SetLastSequence :: "u64 \<Rightarrow> version_edit \<Rightarrow> version_edit" where
  "VE_SetLastSequence seq e = e\<lparr>ve_has_last_sequence := True, ve_last_sequence := seq\<rparr>"

definition VE_SetCompactPointer :: "int \<Rightarrow> u8 list \<Rightarrow> version_edit \<Rightarrow> version_edit" where
  "VE_SetCompactPointer level key e = e\<lparr>ve_compact_pointers := ve_compact_pointers e @ [(level, key)]\<rparr>"

definition VE_AddFile :: "int \<Rightarrow> u64 \<Rightarrow> u64 \<Rightarrow> u8 list \<Rightarrow> u8 list \<Rightarrow> version_edit \<Rightarrow> version_edit" where
  "VE_AddFile level number file_size smallest largest e =
     e\<lparr>ve_new_files := ve_new_files e @ [(level, make_FileMetaData number file_size smallest largest)]\<rparr>"

text \<open>\<open>std::set::insert\<close>.\<close>

definition VE_DeleteFile :: "int \<Rightarrow> u64 \<Rightarrow> version_edit \<Rightarrow> version_edit" where
  "VE_DeleteFile level number e =
     e\<lparr>ve_deleted_files := insort_insert (level, number) (ve_deleted_files e)\<rparr>"

section \<open>Encoding\<close>

datatype Tag = kComparator | kLogNumber | kNextFileNumber | kLastSequence | kCompactPointer
  | kDeletedFile | kNewFile | kPrevLogNumber

primrec tag_code :: "Tag \<Rightarrow> u32" where
  "tag_code kComparator = 1"
| "tag_code kLogNumber = 2"
| "tag_code kNextFileNumber = 3"
| "tag_code kLastSequence = 4"
| "tag_code kCompactPointer = 5"
| "tag_code kDeletedFile = 6"
| "tag_code kNewFile = 7"
| "tag_code kPrevLogNumber = 9"

text \<open>\<open>InternalKey::Encode\<close> asserts that the key is not empty.\<close>

definition EncodeInternalKey :: "u8 list \<Rightarrow> u8 list option" where
  "EncodeInternalKey rep = (if rep = [] then None else Some rep)"

definition put_number :: "bool \<Rightarrow> Tag \<Rightarrow> u64 \<Rightarrow> u8 list \<Rightarrow> u8 list" where
  "put_number has tag num dst = (if has then PutVarint64 (PutVarint32 dst (tag_code tag)) num else dst)"

primrec put_pointers :: "(int \<times> u8 list) list \<Rightarrow> u8 list \<Rightarrow> u8 list option" where
  "put_pointers [] dst = Some dst"
| "put_pointers (p # ps) dst = Option.bind (EncodeInternalKey (snd p)) (\<lambda>key.
     put_pointers ps
       (PutLengthPrefixedSlice (PutVarint32 (PutVarint32 dst (tag_code kCompactPointer)) (of_int (fst p))) key))"

primrec put_deleted :: "(int \<times> u64) list \<Rightarrow> u8 list \<Rightarrow> u8 list" where
  "put_deleted [] dst = dst"
| "put_deleted (d # ds) dst =
     put_deleted ds (PutVarint64 (PutVarint32 (PutVarint32 dst (tag_code kDeletedFile)) (of_int (fst d))) (snd d))"

primrec put_files :: "(int \<times> FileMetaData) list \<Rightarrow> u8 list \<Rightarrow> u8 list option" where
  "put_files [] dst = Some dst"
| "put_files (p # ps) dst =
     (let f = snd p;
          dst = PutVarint32 (PutVarint32 dst (tag_code kNewFile)) (of_int (fst p));
          dst = PutVarint64 (PutVarint64 dst (fm_number f)) (fm_file_size f)
      in Option.bind (EncodeInternalKey (fm_smallest f)) (\<lambda>smallest.
         Option.bind (EncodeInternalKey (fm_largest f)) (\<lambda>largest.
           put_files ps (PutLengthPrefixedSlice (PutLengthPrefixedSlice dst smallest) largest))))"

definition VE_EncodeTo :: "version_edit \<Rightarrow> u8 list \<Rightarrow> u8 list option" where
  "VE_EncodeTo e dst =
     (let dst = (if ve_has_comparator e
                 then PutLengthPrefixedSlice (PutVarint32 dst (tag_code kComparator)) (ve_comparator e) else dst);
          dst = put_number (ve_has_log_number e) kLogNumber (ve_log_number e) dst;
          dst = put_number (ve_has_prev_log_number e) kPrevLogNumber (ve_prev_log_number e) dst;
          dst = put_number (ve_has_next_file_number e) kNextFileNumber (ve_next_file_number e) dst;
          dst = put_number (ve_has_last_sequence e) kLastSequence (ve_last_sequence e) dst
      in Option.bind (put_pointers (ve_compact_pointers e) dst) (\<lambda>dst.
           put_files (ve_new_files e) (put_deleted (ve_deleted_files e) dst)))"

section \<open>Decoding\<close>

text \<open>The next part of a condition \<open>&&\<close>.\<close>

definition and_then :: "'a option \<times> u8 list \<Rightarrow> ('a \<Rightarrow> u8 list \<Rightarrow> 'b option \<times> u8 list) \<Rightarrow> 'b option \<times> u8 list" where
  "and_then r k = (case r of (Some a, input) \<Rightarrow> k a input | (None, input) \<Rightarrow> (None, input))"

definition GetInternalKey :: "u8 list \<Rightarrow> u8 list option \<times> u8 list" where
  "GetInternalKey input = GetLengthPrefixedSlice input"

definition GetLevel :: "u8 list \<Rightarrow> int option \<times> u8 list" where
  "GetLevel input = and_then (GetVarint32 input) (\<lambda>v input.
     (if unat v < kNumLevels then Some (uint v) else None, input))"

text \<open>A case of the switch: the edit with the value that was read, or the message.\<close>

definition decoded :: "string \<Rightarrow> ('a \<Rightarrow> version_edit) \<Rightarrow> version_edit \<Rightarrow> 'a option \<times> u8 list \<Rightarrow>
    string option \<times> u8 list \<times> version_edit" where
  "decoded msg store e r = (case r of
     (Some a, input) \<Rightarrow> (None, input, store a)
   | (None, input) \<Rightarrow> (Some msg, input, e))"

definition decode_tag :: "u32 \<Rightarrow> u8 list \<Rightarrow> version_edit \<Rightarrow> string option \<times> u8 list \<times> version_edit" where
  "decode_tag tag input e =
     (if tag = tag_code kComparator then
        decoded ''comparator name'' (\<lambda>str. VE_SetComparatorName str e) e (GetLengthPrefixedSlice input)
      else if tag = tag_code kLogNumber then
        decoded ''log number'' (\<lambda>n. VE_SetLogNumber n e) e (GetVarint64 input)
      else if tag = tag_code kPrevLogNumber then
        decoded ''previous log number'' (\<lambda>n. VE_SetPrevLogNumber n e) e (GetVarint64 input)
      else if tag = tag_code kNextFileNumber then
        decoded ''next file number'' (\<lambda>n. VE_SetNextFile n e) e (GetVarint64 input)
      else if tag = tag_code kLastSequence then
        decoded ''last sequence number'' (\<lambda>n. VE_SetLastSequence n e) e (GetVarint64 input)
      else if tag = tag_code kCompactPointer then
        decoded ''compaction pointer'' (\<lambda>(level, key). VE_SetCompactPointer level key e) e
          (and_then (GetLevel input) (\<lambda>level input.
           and_then (GetInternalKey input) (\<lambda>key input. (Some (level, key), input))))
      else if tag = tag_code kDeletedFile then
        decoded ''deleted file'' (\<lambda>(level, number). VE_DeleteFile level number e) e
          (and_then (GetLevel input) (\<lambda>level input.
           and_then (GetVarint64 input) (\<lambda>number input. (Some (level, number), input))))
      else if tag = tag_code kNewFile then
        decoded ''new-file entry'' (\<lambda>(level, number, size, smallest, largest).
            VE_AddFile level number size smallest largest e) e
          (and_then (GetLevel input) (\<lambda>level input.
           and_then (GetVarint64 input) (\<lambda>number input.
           and_then (GetVarint64 input) (\<lambda>size input.
           and_then (GetInternalKey input) (\<lambda>smallest input.
           and_then (GetInternalKey input) (\<lambda>largest input.
             (Some (level, number, size, smallest, largest), input)))))))
      else (Some ''unknown tag'', input, e))"

lemma length_and_then:
  assumes "length (snd r) \<le> n" "\<And>a input. length input \<le> n \<Longrightarrow> length (snd (k a input)) \<le> n"
  shows "length (snd (and_then r k)) \<le> n"
  using assms by (auto simp: and_then_def split: prod.splits option.splits)

lemma length_decoded: "fst (snd (decoded msg store e r)) = snd r"
  by (auto simp: decoded_def split: prod.splits option.splits)

lemma length_GetLevel: "length (snd (GetLevel input)) \<le> length input"
  using length_GetVarint(3) [of input] by (auto simp: GetLevel_def and_then_def split: prod.splits option.splits)

lemma length_decode_tag: "length (fst (snd (decode_tag tag input e))) \<le> length input"
proof -
  note le = order_trans [OF length_GetLevel] order_trans [OF length_GetVarint(4)]
    order_trans [OF length_GetLengthPrefixedSlice]
  show ?thesis
    by (auto simp: decode_tag_def length_decoded GetInternalKey_def intro!: length_and_then intro: le)
qed

text \<open>The loop, as long as there is no message and a tag can be read.\<close>

function decode_loop :: "u8 list \<Rightarrow> version_edit \<Rightarrow> string option \<times> u8 list \<times> version_edit" where
  "decode_loop input e =
     (case GetVarint32 input of
        (None, input) \<Rightarrow> (None, input, e)
      | (Some tag, input) \<Rightarrow>
         (case decode_tag tag input e of
            (Some msg, input, e) \<Rightarrow> (Some msg, input, e)
          | (None, input, e) \<Rightarrow> decode_loop input e))"
  by pat_completeness auto
termination
proof (relation "measure (\<lambda>(input, e). length input)", goal_cases)
  case (2 input e a input1 tag b rest c e')
  then show ?case
    using length_decode_tag [of tag input1 e] length_GetVarint(1) [of input tag input1]
    by (metis case_prod_conv fst_conv in_measure le_less_trans snd_conv)
qed simp

declare decode_loop.simps [simp del]

definition VE_DecodeFrom :: "u8 list \<Rightarrow> version_edit \<Rightarrow> Status \<times> version_edit" where
  "VE_DecodeFrom src e =
     (let (msg, input, e) = decode_loop src (VE_Clear e);
          msg = (if msg = None \<and> input \<noteq> [] then Some ''invalid tag'' else msg)
      in (case msg of None \<Rightarrow> OK | Some msg \<Rightarrow> make_Status kCorruption ''VersionEdit'' msg, e))"

end
