(* ===== verification/VersionEditSpec.thy ===== *)
theory VersionEditSpec
  imports VersionEdit CodingSpec
begin

text \<open>
  A version edit is read back from its encoding. The proof follows the loop of \<open>DecodeFrom\<close> over the
  entries: each group of lemmas says how one kind of entry is appended and read.
\<close>

lemma Put_append:
  "PutVarint32 dst v = dst @ EncodeVarint32 v" "PutVarint64 dst n = dst @ EncodeVarint64 n"
  by (simp_all add: PutVarint32_def PutVarint64_def)

section \<open>Valid edits\<close>

definition level_ok :: "int \<Rightarrow> bool" where
  "level_ok level \<longleftrightarrow> 0 \<le> level \<and> level < int kNumLevels"

definition key_ok :: "u8 list \<Rightarrow> bool" where
  "key_ok key \<longleftrightarrow> key \<noteq> [] \<and> length key < 2 ^ 32"

definition file_ok :: "FileMetaData \<Rightarrow> bool" where
  "file_ok f \<longleftrightarrow> key_ok (fm_smallest f) \<and> key_ok (fm_largest f) \<and>
     f = make_FileMetaData (fm_number f) (fm_file_size f) (fm_smallest f) (fm_largest f)"

text \<open>What the operations on edits establish, with keys and levels in range.\<close>

definition edit_ok :: "version_edit \<Rightarrow> bool" where
  "edit_ok e \<longleftrightarrow> length (ve_comparator e) < 2 ^ 32 \<and>
     (\<not> ve_has_comparator e \<longrightarrow> ve_comparator e = []) \<and>
     (\<not> ve_has_log_number e \<longrightarrow> ve_log_number e = 0) \<and>
     (\<not> ve_has_prev_log_number e \<longrightarrow> ve_prev_log_number e = 0) \<and>
     (\<not> ve_has_next_file_number e \<longrightarrow> ve_next_file_number e = 0) \<and>
     (\<not> ve_has_last_sequence e \<longrightarrow> ve_last_sequence e = 0) \<and>
     (\<forall>(level, key) \<in> set (ve_compact_pointers e). level_ok level \<and> key_ok key) \<and>
     sorted_wrt (<) (ve_deleted_files e) \<and> (\<forall>(level, number) \<in> set (ve_deleted_files e). level_ok level) \<and>
     (\<forall>(level, f) \<in> set (ve_new_files e). level_ok level \<and> file_ok f)"

section \<open>Entries\<close>

fun pointer_bytes :: "int \<times> u8 list \<Rightarrow> u8 list" where
  "pointer_bytes (level, key) =
     EncodeVarint32 (tag_code kCompactPointer) @ EncodeVarint32 (of_int level) @ PutLengthPrefixedSlice [] key"

fun deleted_bytes :: "int \<times> u64 \<Rightarrow> u8 list" where
  "deleted_bytes (level, number) =
     EncodeVarint32 (tag_code kDeletedFile) @ EncodeVarint32 (of_int level) @ EncodeVarint64 number"

fun file_bytes :: "int \<times> FileMetaData \<Rightarrow> u8 list" where
  "file_bytes (level, f) =
     EncodeVarint32 (tag_code kNewFile) @ EncodeVarint32 (of_int level) @ EncodeVarint64 (fm_number f) @
     EncodeVarint64 (fm_file_size f) @ PutLengthPrefixedSlice [] (fm_smallest f) @
     PutLengthPrefixedSlice [] (fm_largest f)"

definition number_bytes :: "bool \<Rightarrow> Tag \<Rightarrow> u64 \<Rightarrow> u8 list" where
  "number_bytes has tag num = (if has then EncodeVarint32 (tag_code tag) @ EncodeVarint64 num else [])"

definition name_bytes :: "bool \<Rightarrow> u8 list \<Rightarrow> u8 list" where
  "name_bytes has name = (if has then EncodeVarint32 (tag_code kComparator) @ PutLengthPrefixedSlice [] name else [])"

lemma put_pointers_bytes:
  "\<forall>(level, key) \<in> set ps. key_ok key \<Longrightarrow> put_pointers ps dst = Some (dst @ concat (map pointer_bytes ps))"
  by (induction ps arbitrary: dst)
    (auto simp: EncodeInternalKey_def key_ok_def Put_append PutLengthPrefixedSlice_append [of "_ @ _"])

lemma put_deleted_bytes: "put_deleted ds dst = dst @ concat (map deleted_bytes ds)"
  by (induction ds arbitrary: dst) (auto simp: Put_append)

lemma put_files_bytes:
  "\<forall>(level, f) \<in> set fs. file_ok f \<Longrightarrow> put_files fs dst = Some (dst @ concat (map file_bytes fs))"
  by (induction fs arbitrary: dst)
    (auto simp: EncodeInternalKey_def file_ok_def key_ok_def Put_append Let_def PutLengthPrefixedSlice_append [of "_ @ _"])

lemma put_number_bytes: "put_number has tag num dst = dst @ number_bytes has tag num"
  by (simp add: put_number_def number_bytes_def Put_append)

section \<open>Reading entries\<close>

lemma decode_loop_Nil: "decode_loop [] e = (None, [], e)"
  by (subst decode_loop.simps) (simp add: GetVarint32_def GetVarint32Ptr_def GetVarint32PtrFallback_def)

lemma decode_loop_tag:
  "decode_loop (EncodeVarint32 tag @ input) e =
     (case decode_tag tag input e of
        (Some msg, input, e) \<Rightarrow> (Some msg, input, e)
      | (None, input, e) \<Rightarrow> decode_loop input e)"
  by (subst decode_loop.simps) simp

lemma GetLevel_Encode:
  assumes "level_ok level"
  shows "GetLevel (EncodeVarint32 (of_int level) @ input) = (Some level, input)"
proof -
  obtain n where "level = int n" "n < 7"
    using assms by (cases level) (auto simp: level_ok_def kNumLevels_def)
  then show ?thesis
    using unat_of_nat_small [of n, where ?'a = 32]
    by (simp add: GetLevel_def and_then_def kNumLevels_def unsigned_of_nat take_bit_nat_eq_self)
qed

lemma decode_name:
  assumes "length name < 2 ^ 32" "\<not> has \<longrightarrow> name = []" "ve_comparator e = []" "\<not> ve_has_comparator e"
  shows "decode_loop (name_bytes has name @ input) e = decode_loop input (e\<lparr>ve_has_comparator := has, ve_comparator := name\<rparr>)"
proof (cases has)
  case True
  then show ?thesis using assms(1)
    by (simp add: name_bytes_def decode_loop_tag decode_tag_def decoded_def VE_SetComparatorName_def)
next
  case False
  then show ?thesis
    using assms(2-4) by (simp add: name_bytes_def) (rule arg_cong [of _ _ "decode_loop input"], simp add: version_edit.equality)
qed

lemma decode_numbers:
  "\<not> ve_has_log_number e \<Longrightarrow> ve_log_number e = 0 \<Longrightarrow> \<not> has \<longrightarrow> num = 0 \<Longrightarrow>
    decode_loop (number_bytes has kLogNumber num @ input) e =
    decode_loop input (e\<lparr>ve_has_log_number := has, ve_log_number := num\<rparr>)"
  "\<not> ve_has_prev_log_number e \<Longrightarrow> ve_prev_log_number e = 0 \<Longrightarrow> \<not> has \<longrightarrow> num = 0 \<Longrightarrow>
    decode_loop (number_bytes has kPrevLogNumber num @ input) e =
    decode_loop input (e\<lparr>ve_has_prev_log_number := has, ve_prev_log_number := num\<rparr>)"
  "\<not> ve_has_next_file_number e \<Longrightarrow> ve_next_file_number e = 0 \<Longrightarrow> \<not> has \<longrightarrow> num = 0 \<Longrightarrow>
    decode_loop (number_bytes has kNextFileNumber num @ input) e =
    decode_loop input (e\<lparr>ve_has_next_file_number := has, ve_next_file_number := num\<rparr>)"
  "\<not> ve_has_last_sequence e \<Longrightarrow> ve_last_sequence e = 0 \<Longrightarrow> \<not> has \<longrightarrow> num = 0 \<Longrightarrow>
    decode_loop (number_bytes has kLastSequence num @ input) e =
    decode_loop input (e\<lparr>ve_has_last_sequence := has, ve_last_sequence := num\<rparr>)"
  by (auto simp: number_bytes_def decode_loop_tag decode_tag_def decoded_def VE_SetLogNumber_def
      VE_SetPrevLogNumber_def VE_SetNextFile_def VE_SetLastSequence_def version_edit.equality
      intro!: arg_cong [of _ _ "decode_loop input"])

lemma decode_pointers:
  "\<forall>(level, key) \<in> set ps. level_ok level \<and> key_ok key \<Longrightarrow>
    decode_loop (concat (map pointer_bytes ps) @ input) e =
    decode_loop input (e\<lparr>ve_compact_pointers := ve_compact_pointers e @ ps\<rparr>)"
  by (induction ps arbitrary: e)
    (auto simp: decode_loop_tag decode_tag_def decoded_def GetLevel_Encode and_then_def GetInternalKey_def
      key_ok_def VE_SetCompactPointer_def)

lemma insort_insert_last: "\<forall>y \<in> set xs. y < x \<Longrightarrow> insort_insert x xs = xs @ [x]"
  for x :: "'a::linorder"
proof -
  assume "\<forall>y \<in> set xs. y < x"
  then show ?thesis
    by (induction xs) (auto simp: insort_insert_key_def split: if_splits)
qed

lemma decode_deleted:
  "\<forall>(level, number) \<in> set ds. level_ok level \<Longrightarrow> sorted_wrt (<) (ve_deleted_files e @ ds) \<Longrightarrow>
    decode_loop (concat (map deleted_bytes ds) @ input) e =
    decode_loop input (e\<lparr>ve_deleted_files := ve_deleted_files e @ ds\<rparr>)"
proof (induction ds arbitrary: e)
  case (Cons d ds)
  obtain level number where d: "d = (level, number)" by (cases d)
  have "insort_insert d (ve_deleted_files e) = ve_deleted_files e @ [d]"
    using Cons.prems(2) by (intro insort_insert_last) (simp add: sorted_wrt_append)
  moreover have "sorted_wrt (<) ((ve_deleted_files e @ [d]) @ ds)" using Cons.prems(2) by simp
  ultimately show ?case
    using Cons.IH [of "e\<lparr>ve_deleted_files := ve_deleted_files e @ [d]\<rparr>"] Cons.prems(1) d
    by (simp add: decode_loop_tag decode_tag_def decoded_def GetLevel_Encode and_then_def VE_DeleteFile_def)
qed simp

lemma decode_files:
  "\<forall>(level, f) \<in> set fs. level_ok level \<and> file_ok f \<Longrightarrow>
    decode_loop (concat (map file_bytes fs) @ input) e =
    decode_loop input (e\<lparr>ve_new_files := ve_new_files e @ fs\<rparr>)"
proof (induction fs arbitrary: e)
  case (Cons p fs)
  obtain level f where p: "p = (level, f)" by (cases p)
  then have ok: "level_ok level" "key_ok (fm_smallest f)" "key_ok (fm_largest f)"
    "make_FileMetaData (fm_number f) (fm_file_size f) (fm_smallest f) (fm_largest f) = f"
    using Cons.prems by (auto simp: file_ok_def)
  then show ?case
    using Cons.IH [of "e\<lparr>ve_new_files := ve_new_files e @ [p]\<rparr>"] Cons.prems p
    by (simp add: decode_loop_tag decode_tag_def decoded_def GetLevel_Encode and_then_def GetInternalKey_def
        key_ok_def VE_AddFile_def)
qed simp

lemma EncodeTo_bytes:
  assumes "edit_ok e"
  shows "VE_EncodeTo e dst = Some (dst @ name_bytes (ve_has_comparator e) (ve_comparator e) @
    number_bytes (ve_has_log_number e) kLogNumber (ve_log_number e) @
    number_bytes (ve_has_prev_log_number e) kPrevLogNumber (ve_prev_log_number e) @
    number_bytes (ve_has_next_file_number e) kNextFileNumber (ve_next_file_number e) @
    number_bytes (ve_has_last_sequence e) kLastSequence (ve_last_sequence e) @
    concat (map pointer_bytes (ve_compact_pointers e)) @ concat (map deleted_bytes (ve_deleted_files e)) @
    concat (map file_bytes (ve_new_files e)))"
proof -
  have "put_pointers (ve_compact_pointers e) d = Some (d @ concat (map pointer_bytes (ve_compact_pointers e)))" for d
    using assms by (intro put_pointers_bytes) (auto simp: edit_ok_def)
  moreover have "put_files (ve_new_files e) d = Some (d @ concat (map file_bytes (ve_new_files e)))" for d
    using assms by (intro put_files_bytes) (auto simp: edit_ok_def)
  ultimately show ?thesis
    by (simp add: VE_EncodeTo_def put_number_bytes put_deleted_bytes name_bytes_def Put_append
        PutLengthPrefixedSlice_append [of "_ @ _"])
qed

text \<open>
  C35. The descriptor log can be replayed: a version edit whose keys are not empty and whose levels
  exist is encoded, and decoding the bytes succeeds and gives the edit back, every optional field,
  counter, deleted and new file in order. The compaction pointers of the object that is decoded
  into stay in front of the decoded ones, since \<open>Clear\<close> does not remove them.
\<close>

theorem version_edit_roundtrip:
  assumes "edit_ok e"
  shows "map_option (\<lambda>bytes. VE_DecodeFrom bytes e0) (VE_EncodeTo e []) =
    Some (OK, e\<lparr>ve_compact_pointers := ve_compact_pointers e0 @ ve_compact_pointers e\<rparr>)"
proof -
  note ok = assms [unfolded edit_ok_def]
  have files: "decode_loop (concat (map file_bytes (ve_new_files e))) d =
      (None, [], d\<lparr>ve_new_files := ve_new_files d @ ve_new_files e\<rparr>)" for d
    using decode_files [of "ve_new_files e" "[]" d] ok by (simp add: decode_loop_Nil)
  show ?thesis
    using ok by (simp add: EncodeTo_bytes [OF assms] VE_DecodeFrom_def VE_Clear_def decode_name decode_numbers
        decode_pointers decode_deleted files)
qed

theorem version_edit_roundtrip_witness:
  "map_option (\<lambda>bytes. VE_DecodeFrom bytes VersionEdit)
     (VE_EncodeTo (VE_AddFile 2 7 100 [1] [2] (VE_DeleteFile 1 5 (VE_SetLogNumber 300 VersionEdit))) []) =
   Some (OK, VE_AddFile 2 7 100 [1] [2] (VE_DeleteFile 1 5 (VE_SetLogNumber 300 VersionEdit)))"
proof -
  let ?e = "VE_AddFile 2 7 100 [1] [2] (VE_DeleteFile 1 5 (VE_SetLogNumber 300 VersionEdit))"
  have "edit_ok ?e"
    by (simp add: edit_ok_def VE_AddFile_def VE_DeleteFile_def VE_SetLogNumber_def VersionEdit_def level_ok_def
        kNumLevels_def file_ok_def key_ok_def make_FileMetaData_def insort_insert_key_def)
  from version_edit_roundtrip [OF this, of VersionEdit] show ?thesis
    by (simp add: VE_AddFile_def VE_DeleteFile_def VE_SetLogNumber_def VersionEdit_def)
qed

end
