(* ===== verification/Block.thy ===== *)
theory Block
  imports DbFormat Status
begin

text \<open>
  \<open>leveldb-library/table/block_builder.cc\<close> and \<open>table/block.cc\<close>: blocks of sorted entries with
  prefix-compressed keys and an array of restart points, and the iterator over them. Pointers into
  a block are offsets into \<open>data_\<close>; reads outside of it and failed assertions have no outcome.
\<close>

section \<open>Building\<close>

record block_options =
  bo_restart_interval :: int
  bo_comparator :: Comparator

record block_builder =
  bb_buffer :: "u8 list"
  bb_restarts :: "u32 list"
  bb_counter :: int
  bb_finished :: bool
  bb_last_key :: "u8 list"

definition BlockBuilder :: "block_options \<Rightarrow> block_builder option" where
  "BlockBuilder options =
     (if bo_restart_interval options \<ge> 1
      then Some \<lparr>bb_buffer = [], bb_restarts = [0], bb_counter = 0, bb_finished = False, bb_last_key = []\<rparr>
      else None)"

definition bb_Reset :: "block_builder \<Rightarrow> block_builder" where
  "bb_Reset b = b\<lparr>bb_buffer := [], bb_restarts := [0], bb_counter := 0, bb_finished := False, bb_last_key := []\<rparr>"

definition bb_CurrentSizeEstimate :: "block_builder \<Rightarrow> u64" where
  "bb_CurrentSizeEstimate b = of_nat (length (bb_buffer b)) + of_nat (length (bb_restarts b)) * 4 + 4"

definition bb_Finish :: "block_builder \<Rightarrow> u8 list \<times> block_builder" where
  "bb_Finish b =
     (let buffer = foldl PutFixed32 (bb_buffer b) (bb_restarts b);
          buffer = PutFixed32 buffer (of_nat (length (bb_restarts b)))
      in (buffer, b\<lparr>bb_buffer := buffer, bb_finished := True\<rparr>))"

text \<open>The length of the common prefix of two keys.\<close>

fun shared_prefix :: "u8 list \<Rightarrow> u8 list \<Rightarrow> nat" where
  "shared_prefix (a # as) (b # bs) = (if a = b then Suc (shared_prefix as bs) else 0)"
| "shared_prefix _ _ = 0"

definition bb_Add :: "block_options \<Rightarrow> u8 list \<Rightarrow> u8 list \<Rightarrow> block_builder \<Rightarrow> block_builder option" where
  "bb_Add options key val b =
     (if bb_finished b \<or> \<not> bb_counter b \<le> bo_restart_interval options \<or>
         \<not> (bb_buffer b = [] \<or> Compare (bo_comparator options) key (bb_last_key b) > 0) then None
      else
       (let compress = (bb_counter b < bo_restart_interval options);
            shared = (if compress then shared_prefix (bb_last_key b) key else 0);
            restarts = (if compress then bb_restarts b else bb_restarts b @ [of_nat (length (bb_buffer b))]);
            counter = (if compress then bb_counter b else 0);
            non_shared = length key - shared;
            buffer = PutVarint32 (bb_buffer b) (of_nat shared);
            buffer = PutVarint32 buffer (of_nat non_shared);
            buffer = PutVarint32 buffer (of_nat (length val));
            last_key = take shared (bb_last_key b) @ drop shared key
        in if last_key \<noteq> key then None
           else Some (b\<lparr>bb_buffer := buffer @ drop shared key @ val, bb_restarts := restarts,
                        bb_counter := counter + 1, bb_last_key := last_key\<rparr>)))"

section \<open>Blocks\<close>

record block =
  bl_data :: "u8 list"
  bl_size :: nat
  bl_restart_offset :: u32

definition NumRestarts :: "u8 list \<Rightarrow> u32 option" where
  "NumRestarts data = (if length data < 4 then None else DecodeFixed32 (drop (length data - 4) data))"

text \<open>The size 0 marks an error.\<close>

definition Block :: "u8 list \<Rightarrow> block option" where
  "Block data =
     (if length data < 4 then Some \<lparr>bl_data = data, bl_size = 0, bl_restart_offset = 0\<rparr>
      else map_option (\<lambda>num.
        if unat num > (length data - 4) div 4 then \<lparr>bl_data = data, bl_size = 0, bl_restart_offset = 0\<rparr>
        else \<lparr>bl_data = data, bl_size = length data,
               bl_restart_offset = of_nat (length data - unat (1 + num) * 4)\<rparr>) (NumRestarts data))"

text \<open>
  \<open>DecodeEntry(data_ + p, data_ + limit, ...)\<close>: the offset of the key delta and the three numbers.
  The sum of the lengths is a 32-bit number. The limit lies inside the data.
\<close>

definition DecodeEntry :: "u8 list \<Rightarrow> nat \<Rightarrow> nat \<Rightarrow> (nat \<times> u32 \<times> u32 \<times> u32) option" where
  "DecodeEntry data p limit =
     (let bs = take (limit - p) (drop p data) in
      if limit - p < 3 \<or> limit < p then None
      else
        Option.bind
          (let shared = ucast (bs ! 0); non_shared = ucast (bs ! 1); value_length = ucast (bs ! 2)
           in if (shared OR non_shared OR value_length :: u32) < 128
              then Some (drop 3 bs, shared, non_shared, value_length)
              else
                Option.bind (GetVarint32Ptr bs) (\<lambda>(shared, bs).
                Option.bind (GetVarint32Ptr bs) (\<lambda>(non_shared, bs).
                Option.bind (GetVarint32Ptr bs) (\<lambda>(value_length, bs).
                  Some (bs, shared, non_shared, value_length)))))
          (\<lambda>(bs, shared, non_shared, value_length).
            if (of_nat (length bs) :: u32) < non_shared + value_length then None
            else Some (limit - length bs, shared, non_shared, value_length)))"

text \<open>Bytes of the block at an offset.\<close>

definition block_bytes :: "u8 list \<Rightarrow> nat \<Rightarrow> u32 \<Rightarrow> u8 list option" where
  "block_bytes data off n =
     (if off + unat n \<le> length data then Some (take (unat n) (drop off data)) else None)"

section \<open>The iterator\<close>

text \<open>\<open>bi_value\<close> is the offset and the length of the value.\<close>

record block_iter =
  bi_data :: "u8 list"
  bi_restarts :: u32
  bi_num_restarts :: u32
  bi_current :: u32
  bi_restart_index :: u32
  bi_key :: "u8 list"
  bi_value :: "nat \<times> u32"
  bi_status :: Status

definition Iter :: "u8 list \<Rightarrow> u32 \<Rightarrow> u32 \<Rightarrow> block_iter option" where
  "Iter data restarts num_restarts =
     (if num_restarts > 0 then
        Some \<lparr>bi_data = data, bi_restarts = restarts, bi_num_restarts = num_restarts, bi_current = restarts,
              bi_restart_index = num_restarts, bi_key = [], bi_value = (0, 0), bi_status = OK\<rparr>
      else None)"

definition bi_Valid :: "block_iter \<Rightarrow> bool" where
  "bi_Valid it \<longleftrightarrow> bi_current it < bi_restarts it"

definition NextEntryOffset :: "block_iter \<Rightarrow> u32" where
  "NextEntryOffset it = of_nat (fst (bi_value it) + unat (snd (bi_value it)))"

definition GetRestartPoint :: "block_iter \<Rightarrow> u32 \<Rightarrow> u32 option" where
  "GetRestartPoint it index =
     (if index < bi_num_restarts it
      then DecodeFixed32 (drop (unat (bi_restarts it) + unat index * 4) (bi_data it)) else None)"

definition SeekToRestartPoint :: "u32 \<Rightarrow> block_iter \<Rightarrow> block_iter option" where
  "SeekToRestartPoint index it =
     map_option (\<lambda>offset. it\<lparr>bi_key := [], bi_restart_index := index, bi_value := (unat offset, 0)\<rparr>)
       (GetRestartPoint it index)"

definition CorruptionError :: "block_iter \<Rightarrow> block_iter" where
  "CorruptionError it = it\<lparr>bi_current := bi_restarts it, bi_restart_index := bi_num_restarts it,
     bi_status := Status_Corruption ''bad entry in block'', bi_key := [], bi_value := (0, 0)\<rparr>"

text \<open>The loop that moves \<open>restart_index_\<close> to the restart point before the entry.\<close>

function advance_restart :: "block_iter \<Rightarrow> block_iter option" where
  "advance_restart it =
     (if bi_restart_index it + 1 < bi_num_restarts it then
        Option.bind (GetRestartPoint it (bi_restart_index it + 1)) (\<lambda>point.
          if point < bi_current it then advance_restart (it\<lparr>bi_restart_index := bi_restart_index it + 1\<rparr>)
          else Some it)
      else Some it)"
  by pat_completeness auto
termination
proof (relation "measure (\<lambda>it. unat (bi_num_restarts it - (bi_restart_index it + 1)))", goal_cases)
  case (2 it point)
  define x where "x = bi_num_restarts it - (bi_restart_index it + 1)"
  have "x \<noteq> 0" using 2(1) by (auto simp: x_def)
  then have "unat (x - 1) < unat x" by (simp add: unat_minus_one unat_gt_0)
  moreover have "bi_num_restarts it - (bi_restart_index it + 1 + 1) = x - 1" by (simp add: x_def)
  ultimately show ?case by (simp add: x_def algebra_simps)
qed simp

declare advance_restart.simps [simp del]

definition ParseNextKey :: "block_iter \<Rightarrow> (bool \<times> block_iter) option" where
  "ParseNextKey it =
     (let it = it\<lparr>bi_current := NextEntryOffset it\<rparr>;
          p = unat (bi_current it);
          limit = unat (bi_restarts it)
      in if p \<ge> limit then
           Some (False, it\<lparr>bi_current := bi_restarts it, bi_restart_index := bi_num_restarts it\<rparr>)
         else
           (case DecodeEntry (bi_data it) p limit of
              None \<Rightarrow> Some (False, CorruptionError it)
            | Some (p, shared, non_shared, value_length) \<Rightarrow>
               if length (bi_key it) < unat shared then Some (False, CorruptionError it)
               else
                 Option.bind (block_bytes (bi_data it) p non_shared) (\<lambda>delta.
                   map_option (Pair True) (advance_restart
                     (it\<lparr>bi_key := take (unat shared) (bi_key it) @ delta,
                        bi_value := (p + unat non_shared, value_length)\<rparr>)))))"

definition bi_Next :: "block_iter \<Rightarrow> block_iter option" where
  "bi_Next it = (if bi_Valid it then map_option snd (ParseNextKey it) else None)"

text \<open>The search for a restart point before an offset; none is the front of the block.\<close>

function scan_back :: "u32 \<Rightarrow> block_iter \<Rightarrow> (bool \<times> block_iter) option" where
  "scan_back original it =
     Option.bind (GetRestartPoint it (bi_restart_index it)) (\<lambda>point.
       if point \<ge> original then
         (if bi_restart_index it = 0
          then Some (False, it\<lparr>bi_current := bi_restarts it, bi_restart_index := bi_num_restarts it\<rparr>)
          else scan_back original (it\<lparr>bi_restart_index := bi_restart_index it - 1\<rparr>))
       else Some (True, it))"
  by pat_completeness auto
termination
  by (relation "measure (\<lambda>(original, it). unat (bi_restart_index it))") (auto simp: unat_minus_one unat_gt_0)

declare scan_back.simps [simp del]

text \<open>The loops over entries: up to the one before an offset, and up to a key.\<close>

partial_function (option) parse_until :: "u32 \<Rightarrow> block_iter \<Rightarrow> block_iter option" where
  "parse_until limit it =
     Option.bind (ParseNextKey it) (\<lambda>(ok, it).
       if ok \<and> NextEntryOffset it < limit then parse_until limit it else Some it)"

declare parse_until.simps [code]

partial_function (option) linear_search :: "Comparator \<Rightarrow> u8 list \<Rightarrow> block_iter \<Rightarrow> block_iter option" where
  "linear_search cmp target it =
     Option.bind (ParseNextKey it) (\<lambda>(ok, it).
       if \<not> ok then Some it
       else if Compare cmp (bi_key it) target \<ge> 0 then Some it
       else linear_search cmp target it)"

declare linear_search.simps [code]

definition bi_Prev :: "block_iter \<Rightarrow> block_iter option" where
  "bi_Prev it =
     (if \<not> bi_Valid it then None
      else
        Option.bind (scan_back (bi_current it) it) (\<lambda>(found, back).
          if \<not> found then Some back
          else Option.bind (SeekToRestartPoint (bi_restart_index back) back) (parse_until (bi_current it))))"

text \<open>
  The binary search in the restart array: \<open>Inl\<close> is the restart point the linear search starts
  from, \<open>Inr\<close> a corrupted block.
\<close>

partial_function (option) binary_search ::
    "Comparator \<Rightarrow> u8 list \<Rightarrow> block_iter \<Rightarrow> u32 \<Rightarrow> u32 \<Rightarrow> (u32 + block_iter) option" where
  "binary_search cmp target it left right =
     (if left < right then
       (let mid = (left + right + 1) div 2 in
        Option.bind (GetRestartPoint it mid) (\<lambda>region_offset.
          case DecodeEntry (bi_data it) (unat region_offset) (unat (bi_restarts it)) of
            None \<Rightarrow> Some (Inr (CorruptionError it))
          | Some (key_ptr, shared, non_shared, value_length) \<Rightarrow>
             if shared \<noteq> 0 then Some (Inr (CorruptionError it))
             else
               Option.bind (block_bytes (bi_data it) key_ptr non_shared) (\<lambda>mid_key.
                 if Compare cmp mid_key target < 0 then binary_search cmp target it mid right
                 else binary_search cmp target it left (mid - 1))))
      else Some (Inl left))"

declare binary_search.simps [code]

definition bi_Seek :: "Comparator \<Rightarrow> u8 list \<Rightarrow> block_iter \<Rightarrow> block_iter option" where
  "bi_Seek cmp target it =
     Option.bind (binary_search cmp target it 0 (bi_num_restarts it - 1)) (\<lambda>r.
       case r of
         Inr it \<Rightarrow> Some it
       | Inl left \<Rightarrow> Option.bind (SeekToRestartPoint left it) (linear_search cmp target))"

definition bi_SeekToFirst :: "block_iter \<Rightarrow> block_iter option" where
  "bi_SeekToFirst it = Option.bind (SeekToRestartPoint 0 it) (\<lambda>it. map_option snd (ParseNextKey it))"

definition bi_SeekToLast :: "block_iter \<Rightarrow> block_iter option" where
  "bi_SeekToLast it = Option.bind (SeekToRestartPoint (bi_num_restarts it - 1) it) (parse_until (bi_restarts it))"

definition bi_value_bytes :: "block_iter \<Rightarrow> u8 list option" where
  "bi_value_bytes it =
     (if bi_Valid it then block_bytes (bi_data it) (fst (bi_value it)) (snd (bi_value it)) else None)"

text \<open>The iterator of a block: an error, the empty one, or an \<open>Iter\<close>.\<close>

datatype any_iter = ErrorIterator Status | EmptyIterator | BlockIter block_iter

definition NewIterator :: "block \<Rightarrow> any_iter option" where
  "NewIterator b =
     (if bl_size b < 4 then Some (ErrorIterator (Status_Corruption ''bad block contents''))
      else
        Option.bind (NumRestarts (bl_data b)) (\<lambda>num_restarts.
          if num_restarts = 0 then Some EmptyIterator
          else map_option BlockIter (Iter (bl_data b) (bl_restart_offset b) num_restarts)))"

end
