(* ===== verification/BlockSpec.thy ===== *)
theory BlockSpec
  imports Block CodingSpec
begin

text \<open>
  The layout of a block: the entries with the number of bytes each shares with the key before it,
  the restart points, and the proof that the builder produces it from sorted entries.
\<close>

section \<open>Layout\<close>

text \<open>An item is an entry with the length of the shared prefix.\<close>

type_synonym item = "nat \<times> u8 list \<times> u8 list"

fun item_key :: "item \<Rightarrow> u8 list" where
  "item_key (s, k, v) = k"

fun item_entry :: "item \<Rightarrow> u8 list \<times> u8 list" where
  "item_entry (s, k, v) = (k, v)"

fun item_header :: "item \<Rightarrow> u8 list" where
  "item_header (s, k, v) =
     EncodeVarint32 (of_nat s) @ EncodeVarint32 (of_nat (length k - s)) @ EncodeVarint32 (of_nat (length v))"

fun item_bytes :: "item \<Rightarrow> u8 list" where
  "item_bytes (s, k, v) = item_header (s, k, v) @ drop s k @ v"

lemma item_entry_pair [simp]: "item_entry (s, e) = e"
  by (cases e) simp

definition offset :: "item list \<Rightarrow> nat \<Rightarrow> nat" where
  "offset items i = length (concat (map item_bytes (take i items)))"

text \<open>The key before an item, and what the item may share with it.\<close>

definition key_before :: "item list \<Rightarrow> nat \<Rightarrow> u8 list" where
  "key_before items i = (if i = 0 then [] else item_key (items ! (i - 1)))"

fun shares :: "u8 list \<Rightarrow> item \<Rightarrow> bool" where
  "shares key (s, k, v) \<longleftrightarrow> s \<le> length key \<and> s \<le> length k \<and> take s key = take s k"

definition items_ok :: "item list \<Rightarrow> nat list \<Rightarrow> bool" where
  "items_ok items points \<longleftrightarrow>
     (\<forall>i < length items. shares (key_before items i) (items ! i)) \<and>
     points \<noteq> [] \<and> points ! 0 = 0 \<and> (items = [] \<longrightarrow> points = [0]) \<and> (\<forall>i \<in> set points. i < length items \<or> i = 0) \<and>
     (\<forall>i \<in> set points. i < length items \<longrightarrow> fst (items ! i) = 0)"

definition restart_array :: "item list \<Rightarrow> nat list \<Rightarrow> u32 list" where
  "restart_array items points = map (\<lambda>i. of_nat (offset items i)) points"

definition block_layout :: "item list \<Rightarrow> nat list \<Rightarrow> u8 list" where
  "block_layout items points = concat (map item_bytes items) @
     concat (map EncodeFixed32 (restart_array items points)) @ EncodeFixed32 (of_nat (length points))"

lemma offset_0 [simp]: "offset items 0 = 0"
  by (simp add: offset_def)

lemma offset_Suc: "i < length items \<Longrightarrow> offset items (Suc i) = offset items i + length (item_bytes (items ! i))"
  by (simp add: offset_def take_Suc_conv_app_nth)

lemma offset_all [simp]: "length items \<le> i \<Longrightarrow> offset items i = length (concat (map item_bytes items))"
  by (simp add: offset_def)

lemma offset_mono: "i \<le> j \<Longrightarrow> offset items i \<le> offset items j"
proof -
  assume "i \<le> j"
  then obtain xs where "take j items = take i items @ xs" by (metis append_take_drop_id min.absorb1 take_take)
  then show ?thesis by (simp add: offset_def)
qed

lemma offset_append: "i \<le> length items \<Longrightarrow> offset (items @ zs) i = offset items i"
  by (simp add: offset_def)

lemma length_item_bytes: "3 \<le> length (item_bytes it)"
proof (cases it)
  case (fields s k v)
  then show ?thesis
    using length_EncodeVarint(1) [of "of_nat s"] length_EncodeVarint(1) [of "of_nat (length k - s)"]
      length_EncodeVarint(1) [of "of_nat (length v)"] by (simp del: length_EncodeVarint)
qed

lemma length_item_bytes_le: "length (item_bytes (s, k, v)) \<le> 15 + length k + length v"
  using length_EncodeVarint(2) [of "of_nat s"] length_EncodeVarint(2) [of "of_nat (length k - s)"]
    length_EncodeVarint(2) [of "of_nat (length v)"] by (simp del: length_EncodeVarint)

lemma drop_offset:
  assumes "i < length items"
  shows "drop (offset items i) (concat (map item_bytes items)) =
    item_bytes (items ! i) @ concat (map item_bytes (drop (Suc i) items))"
proof -
  have "concat (map item_bytes items) =
      concat (map item_bytes (take i items)) @ concat (map item_bytes (drop i items))"
    by (metis append_take_drop_id concat_append map_append)
  then show ?thesis using assms by (simp add: offset_def Cons_nth_drop_Suc [symmetric])
qed

section \<open>The builder\<close>

lemma shared_prefix_shares:
  "shared_prefix a b \<le> length a" "shared_prefix a b \<le> length b"
  "take (shared_prefix a b) a = take (shared_prefix a b) b"
  by (induction a b rule: shared_prefix.induct) auto

definition building :: "block_options \<Rightarrow> item list \<Rightarrow> nat list \<Rightarrow> block_builder \<Rightarrow> bool" where
  "building options items points b \<longleftrightarrow>
     bb_buffer b = concat (map item_bytes items) \<and> bb_restarts b = restart_array items points \<and>
     bb_counter b \<le> bo_restart_interval options \<and> \<not> bb_finished b \<and>
     bb_last_key b = key_before items (length items) \<and> (items = [] \<longrightarrow> bb_counter b = 0) \<and> items_ok items points"

lemma building_start:
  assumes "bo_restart_interval options \<ge> 1"
  shows "\<exists>b. BlockBuilder options = Some b \<and> building options [] [0] b"
  using assms by (simp add: BlockBuilder_def building_def restart_array_def key_before_def items_ok_def)

lemma items_ok_snoc:
  assumes "items_ok items points" "shares (key_before items (length items)) it"
    and "points' = (if r then points @ [length items] else points)" "r \<or> items = [] \<longrightarrow> fst it = 0"
  shows "items_ok (items @ [it]) points'"
proof -
  have "key_before (items @ [it]) i = key_before items i" if "i \<le> length items" for i
    using that by (auto simp: key_before_def nth_append)
  then show ?thesis
    using assms by (auto simp: items_ok_def nth_append less_Suc_eq split: if_splits)
qed

lemma restart_array_append:
  "\<forall>i \<in> set points. i \<le> length items \<Longrightarrow> restart_array (items @ zs) points = restart_array items points"
  by (simp add: restart_array_def offset_append)

lemma building_Add:
  assumes b: "building options items points b" and "bo_restart_interval options \<ge> 1"
    and order: "items = [] \<or> Compare (bo_comparator options) key (item_key (last items)) > 0"
  shows "\<exists>b' s points'. bb_Add options key val b = Some b' \<and> building options (items @ [(s, key, val)]) points' b' \<and>
    length points' \<le> Suc (length points)"
proof -
  define compress where "compress = (bb_counter b < bo_restart_interval options)"
  define s where "s = (if compress then shared_prefix (bb_last_key b) key else 0)"
  define points' where "points' = (if \<not> compress then points @ [length items] else points)"
  have last: "bb_last_key b = key_before items (length items)" using b by (simp add: building_def)
  have share: "shares (bb_last_key b) (s, key, val)"
    using shared_prefix_shares [of "bb_last_key b" key] by (simp add: s_def)
  then have same: "take s (bb_last_key b) @ drop s key = key" by simp
  have counter: "compress" if "items = []"
    using that b assms(2) by (simp add: building_def compress_def)
  have s0: "items = [] \<Longrightarrow> s = 0"
    using last counter by (simp add: s_def key_before_def)
  have ok: "items_ok (items @ [(s, key, val)]) points'"
    by (rule items_ok_snoc [where r = "\<not> compress"])
      (use b share s0 last in \<open>auto simp: building_def points'_def s_def\<close>)
  have points: "\<forall>i \<in> set points. i \<le> length items"
    using b by (auto simp: building_def items_ok_def)
  have restarts: "restart_array (items @ [(s, key, val)]) points' =
      (if compress then bb_restarts b else bb_restarts b @ [of_nat (length (bb_buffer b))])"
    using b points restart_array_append [OF points, of "[(s, key, val)]"]
    by (simp add: building_def points'_def) (simp add: restart_array_def offset_append)
  have cmp: "bb_buffer b = [] \<or> Compare (bo_comparator options) key (bb_last_key b) > 0"
    using order b by (cases items rule: rev_cases) (auto simp: building_def key_before_def nth_append)
  let ?b' = "b\<lparr>bb_buffer := bb_buffer b @ item_bytes (s, key, val),
    bb_restarts := restart_array (items @ [(s, key, val)]) points',
    bb_counter := (if compress then bb_counter b else 0) + 1, bb_last_key := key\<rparr>"
  have "bb_Add options key val b = Some ?b'"
    using b cmp same restarts by (simp add: bb_Add_def building_def Let_def compress_def [symmetric] s_def [symmetric]
        PutVarint32_def)
  moreover have "building options (items @ [(s, key, val)]) points' ?b'"
    using b ok assms(2) by (auto simp: building_def compress_def key_before_def nth_append)
  moreover have "length points' \<le> Suc (length points)" by (simp add: points'_def)
  ultimately show ?thesis by blast
qed

text \<open>Building a block from entries.\<close>

primrec add_entries :: "block_options \<Rightarrow> (u8 list \<times> u8 list) list \<Rightarrow> block_builder \<Rightarrow> block_builder option" where
  "add_entries options [] b = Some b"
| "add_entries options (e # es) b = Option.bind (bb_Add options (fst e) (snd e) b) (add_entries options es)"

definition build_block :: "block_options \<Rightarrow> (u8 list \<times> u8 list) list \<Rightarrow> u8 list option" where
  "build_block options es =
     Option.bind (BlockBuilder options) (\<lambda>b. map_option (\<lambda>b. fst (bb_Finish b)) (add_entries options es b))"

definition sorted_entries :: "Comparator \<Rightarrow> (u8 list \<times> u8 list) list \<Rightarrow> bool" where
  "sorted_entries cmp es \<longleftrightarrow> sorted_wrt (\<lambda>x y. Compare cmp (fst y) (fst x) > 0) es"

lemma add_entries_building:
  assumes "building options items points b" "bo_restart_interval options \<ge> 1"
    and "sorted_entries (bo_comparator options) (map item_entry items @ es)"
    and "length points \<le> Suc (length items)"
  shows "\<exists>b' items' points'. add_entries options es b = Some b' \<and> building options items' points' b' \<and>
    map item_entry items' = map item_entry items @ es \<and> length points' \<le> Suc (length items')"
  using assms
proof (induction es arbitrary: items points b)
  case Nil
  then show ?case by auto
next
  case (Cons e es)
  have key: "item_key it = fst (item_entry it)" for it by (cases it) simp
  have "items = [] \<or> Compare (bo_comparator options) (fst e) (item_key (last items)) > 0"
    using Cons.prems(3) by (cases items rule: rev_cases) (auto simp: sorted_entries_def sorted_wrt_append key)
  then obtain b1 s points1 where b1: "bb_Add options (fst e) (snd e) b = Some b1"
      "building options (items @ [(s, fst e, snd e)]) points1 b1" "length points1 \<le> Suc (length points)"
    using building_Add [OF Cons.prems(1,2)] by blast
  then show ?case
    using Cons.IH [OF b1(2) Cons.prems(2)] Cons.prems(3,4) by (auto simp: item_entry_pair)
qed

lemma foldl_PutFixed32: "foldl PutFixed32 buffer rs = buffer @ concat (map EncodeFixed32 rs)"
  by (induction rs arbitrary: buffer) (simp_all add: PutFixed32_def)

lemma build_block_layout:
  assumes "bo_restart_interval options \<ge> 1" "sorted_entries (bo_comparator options) es"
  shows "\<exists>items points. build_block options es = Some (block_layout items points) \<and> items_ok items points \<and>
    map item_entry items = es \<and> length points \<le> Suc (length es)"
proof -
  obtain b where b: "BlockBuilder options = Some b" "building options [] [0] b"
    using building_start [OF assms(1)] by blast
  obtain b' items points where b': "add_entries options es b = Some b'" "building options items points b'"
      "map item_entry items = es" "length points \<le> Suc (length items)"
    using add_entries_building [OF b(2) assms(1), of es] assms(2) by auto
  then have "fst (bb_Finish b') = block_layout items points"
    by (simp add: bb_Finish_def building_def block_layout_def foldl_PutFixed32 Let_def PutFixed32_def restart_array_def)
  moreover have "items_ok items points" "length points \<le> Suc (length es)" using b' by (auto simp: building_def)
  ultimately show ?thesis using b(1) b'(1,3) by (intro exI [of _ items] exI [of _ points]) (simp add: build_block_def)
qed

end
