(* ===== verification/BlockProps.thy ===== *)
theory BlockProps
  imports BlockSpec DbFormatSpec
begin

text \<open>
  The iterator over a block the builder has made: every entry is decoded, a forward step goes to
  the next entry, and \<open>Seek\<close> stands on the first entry with a key not below its target.
\<close>

section \<open>A block in memory\<close>

definition block_ok :: "item list \<Rightarrow> nat list \<Rightarrow> u8 list \<Rightarrow> bool" where
  "block_ok items points data \<longleftrightarrow> data = block_layout items points \<and> items_ok items points \<and> length data < 2 ^ 32"

lemma length_restart_array: "length (concat (map EncodeFixed32 rs)) = 4 * length rs"
  by (induction rs) simp_all

lemma length_points [simp]: "length (restart_array items points) = length points"
  by (simp add: restart_array_def)

lemma block_size:
  assumes "block_ok items points data"
  shows "length data = offset items (length items) + 4 * length points + 4" "length data < 2 ^ 32"
    "offset items i < 2 ^ 32" "length points < 2 ^ 30"
    "offset items i \<le> offset items (length items)"
proof -
  show len: "length data = offset items (length items) + 4 * length points + 4" "length data < 2 ^ 32"
    using assms by (auto simp: block_ok_def block_layout_def length_restart_array)
  show "offset items i \<le> offset items (length items)"
    by (cases "i \<le> length items") (rule offset_mono, assumption, simp)
  then show "offset items i < 2 ^ 32" "length points < 2 ^ 30" using len by simp_all
qed

lemma unat_offset: "block_ok items points data \<Longrightarrow> unat (of_nat (offset items i) :: u32) = offset items i"
  using block_size(3) [of items points data i] by (intro unat_of_nat_small) simp

lemma drop_Fixed32s:
  "i < length rs \<Longrightarrow> drop (4 * i) (concat (map EncodeFixed32 rs) @ bs) =
    EncodeFixed32 (rs ! i) @ concat (map EncodeFixed32 (drop (Suc i) rs)) @ bs"
proof (induction rs arbitrary: i)
  case (Cons r rs)
  then show ?case by (cases i) simp_all
qed simp

lemma restart_point:
  assumes "block_ok items points data" "i < length points"
  shows "DecodeFixed32 (drop (offset items (length items) + 4 * i) data) = Some (of_nat (offset items (points ! i)))"
proof -
  have "drop (offset items (length items) + 4 * i) data =
      drop (4 * i) (concat (map EncodeFixed32 (restart_array items points)) @ EncodeFixed32 (of_nat (length points)))"
    using assms(1) by (simp add: block_ok_def block_layout_def)
  then show ?thesis
    using drop_Fixed32s [of i "restart_array items points"] assms(2) by (simp add: restart_array_def)
qed

lemma NumRestarts_block: "block_ok items points data \<Longrightarrow> NumRestarts data = Some (of_nat (length points))"
  using DecodeFixed32_Encode [of "of_nat (length points)" "[]"]
  by (simp add: block_ok_def NumRestarts_def block_layout_def length_restart_array)

section \<open>Entries\<close>

declare item_header.simps [simp del]

lemma length_header: "3 \<le> length (item_header it)"
proof (cases it)
  case (fields s k v)
  then show ?thesis
    using length_EncodeVarint(1) [of "of_nat s"] length_EncodeVarint(1) [of "of_nat (length k - s)"]
      length_EncodeVarint(1) [of "of_nat (length v)"] by (simp add: item_header.simps del: length_EncodeVarint)
qed

text \<open>The fast path of \<open>DecodeEntry\<close> gives what the three calls would give.\<close>

lemma small_or: "(x OR y OR z :: u32) < 128 \<Longrightarrow> x AND 128 = 0 \<and> y AND 128 = 0 \<and> z AND 128 = 0"
proof -
  define w where "w = x OR y OR z"
  assume "x OR y OR z < 128"
  then have "unat w < 128" by (simp add: word_less_nat_alt w_def)
  then have "unat (drop_bit 7 w) = 0" unfolding unat_drop_bit_div by simp
  then have "drop_bit 7 w = 0" by (simp add: word_unat_eq_iff)
  moreover have "bit w 7 = bit (drop_bit 7 w) 0" by (simp add: bit_drop_bit_eq)
  ultimately have "\<not> bit w 7" by simp
  then show ?thesis unfolding w_def by (auto intro!: bit_word_eqI simp: bit_simps bit_128)
qed

lemma GetVarint32Ptr_byte: "(ucast b :: u32) AND 128 = 0 \<Longrightarrow> GetVarint32Ptr (b # bs) = Some (ucast b, bs)"
  by (simp add: GetVarint32Ptr_def)

lemma header_parse:
  "Option.bind (GetVarint32Ptr (item_header (s, k, v) @ bs)) (\<lambda>(shared, bs).
     Option.bind (GetVarint32Ptr bs) (\<lambda>(non_shared, bs).
     Option.bind (GetVarint32Ptr bs) (\<lambda>(value_length, bs).
       Some (bs, shared, non_shared, value_length)))) =
   Some (bs, of_nat s, of_nat (length k - s), of_nat (length v))"
  by (simp add: item_header.simps)

lemma header_fast:
  fixes bs :: "u8 list"
  assumes "3 \<le> length bs" "(ucast (bs ! 0) OR ucast (bs ! 1) OR ucast (bs ! 2) :: u32) < 128"
  shows "Option.bind (GetVarint32Ptr bs) (\<lambda>(shared, bs).
     Option.bind (GetVarint32Ptr bs) (\<lambda>(non_shared, bs).
     Option.bind (GetVarint32Ptr bs) (\<lambda>(value_length, bs).
       Some (bs, shared, non_shared, value_length)))) =
   Some (drop 3 bs, ucast (bs ! 0), ucast (bs ! 1), ucast (bs ! 2))"
proof -
  obtain a b c bs' where "bs = a # b # c # bs'"
    using assms(1) by (metis Suc_le_length_iff numeral_3_eq_3)
  then show ?thesis using small_or [of "ucast a" "ucast b" "ucast c"] assms(2) by (simp add: GetVarint32Ptr_byte)
qed

lemma DecodeEntry_item:
  assumes ok: "block_ok items points data" and i: "i < length items" "items ! i = (s, k, v)"
  shows "DecodeEntry data (offset items i) (offset items (length items)) =
    Some (offset items (Suc i) - length v - (length k - s), of_nat s, of_nat (length k - s), of_nat (length v))"
proof -
  let ?limit = "offset items (length items)"
  let ?tail = "concat (map item_bytes (drop (Suc i) items))"
  let ?bs = "item_header (s, k, v) @ drop s k @ v @ ?tail"
  have le: "offset items (Suc i) \<le> ?limit" using i(1) by (intro offset_mono) simp
  have suc: "offset items (Suc i) = offset items i + length (item_bytes (s, k, v))" using i by (simp add: offset_Suc)
  have bs: "take (?limit - offset items i) (drop (offset items i) data) = ?bs"
  proof -
    have "drop (offset items i) (concat (map item_bytes items)) = ?bs"
      using drop_offset [OF i(1)] i(2) by simp
    moreover have "take (?limit - offset items i) (drop (offset items i) data) =
        drop (offset items i) (concat (map item_bytes items))"
      using ok le suc by (simp add: block_ok_def block_layout_def)
    ultimately show ?thesis by simp
  qed
  have len: "length ?bs = ?limit - offset items i"
    using arg_cong [OF bs, of length] block_size(1) [OF ok] le suc by simp
  have three: "\<not> ?limit - offset items i < 3" "\<not> ?limit < offset items i"
    using length_item_bytes [of "(s, k, v)"] le suc by simp_all
  have long: "length (drop s k @ v @ ?tail) < 2 ^ 32" "length (drop s k @ v @ ?tail) = ?limit - (offset items (Suc i) - length v - (length k - s))"
    using len block_size(3) [OF ok, of "length items"] suc le by simp_all
  have sum: "(of_nat (length k - s) + of_nat (length v) :: u32) = of_nat (length (drop s k @ v))" by simp
  have fits: "\<not> (of_nat (length (drop s k @ v @ ?tail)) :: u32) < of_nat (length k - s) + of_nat (length v)"
  proof -
    have "unat (of_nat (length (drop s k @ v @ ?tail)) :: u32) = length (drop s k @ v @ ?tail)"
      "unat (of_nat (length (drop s k @ v)) :: u32) = length (drop s k @ v)"
      by (rule unat_of_nat_small, use long(1) in simp)+
    then show ?thesis unfolding sum word_less_nat_alt by simp
  qed
  have at_delta: "?limit - length (drop s k @ v @ ?tail) = offset items (Suc i) - length v - (length k - s)"
    unfolding long(2) using le suc by simp
  have inner: "(let shared = ucast (?bs ! 0); non_shared = ucast (?bs ! 1); value_length = ucast (?bs ! 2)
      in if (shared OR non_shared OR value_length :: u32) < 128
         then Some (drop 3 ?bs, shared, non_shared, value_length)
         else Option.bind (GetVarint32Ptr ?bs) (\<lambda>(shared, bs).
              Option.bind (GetVarint32Ptr bs) (\<lambda>(non_shared, bs).
              Option.bind (GetVarint32Ptr bs) (\<lambda>(value_length, bs).
                Some (bs, shared, non_shared, value_length))))) =
    Some (drop s k @ v @ ?tail, of_nat s, of_nat (length k - s), of_nat (length v))"
    using header_fast [of ?bs] header_parse [of s k v "drop s k @ v @ ?tail"] len three(1) unfolding Let_def by auto
  show ?thesis
    unfolding DecodeEntry_def Let_def bs using three inner [unfolded Let_def] fits at_delta by simp
qed

lemma item_parts:
  assumes ok: "block_ok items points data" and i: "i < length items" "items ! i = (s, k, v)" and "s \<le> length k"
  shows "block_bytes data (offset items (Suc i) - length v - (length k - s)) (of_nat (length k - s)) = Some (drop s k)"
    and "block_bytes data (offset items (Suc i) - length v) (of_nat (length v)) = Some v"
    and "length v + (length k - s) \<le> offset items (Suc i)"
    and "offset items i < offset items (Suc i) - length v - (length k - s)"
proof -
  have suc: "offset items (Suc i) = offset items i + length (item_header (s, k, v)) + (length k - s) + length v"
    using i by (simp add: offset_Suc)
  then show le: "length v + (length k - s) \<le> offset items (Suc i)" by simp
  show "offset items i < offset items (Suc i) - length v - (length k - s)"
    using suc length_header [of "(s, k, v)"] by auto
  have lim: "offset items (Suc i) \<le> length data" "offset items (Suc i) < 2 ^ 32"
    using block_size(1,2) [OF ok] block_size(5) [OF ok, of "Suc i"] by simp_all
  have n: "unat (of_nat (length k - s) :: u32) = length k - s" "unat (of_nat (length v) :: u32) = length v"
    using lim(2) le by (intro unat_of_nat_small; simp)+
  obtain bs where "drop (offset items i) data = item_bytes (s, k, v) @ bs"
    using ok drop_offset [OF i(1)] i offset_mono [of i "length items" items]
    by (auto simp: block_ok_def block_layout_def)
  then have bs: "drop (offset items i) data = item_header (s, k, v) @ drop s k @ v @ bs" by simp
  have "drop (offset items (Suc i) - length v - (length k - s)) data = drop s k @ v @ bs"
    using arg_cong [OF bs, of "drop (length (item_header (s, k, v)))"] suc by (simp add: add.commute)
  then show "block_bytes data (offset items (Suc i) - length v - (length k - s)) (of_nat (length k - s)) = Some (drop s k)"
    unfolding block_bytes_def n using lim(1) le by simp
  have "drop (offset items (Suc i) - length v) data = v @ bs"
    using arg_cong [OF bs, of "drop (length (item_header (s, k, v)) + (length k - s))"] suc
    by (simp add: add.commute add.left_commute)
  then show "block_bytes data (offset items (Suc i) - length v) (of_nat (length v)) = Some v"
    unfolding block_bytes_def n using lim(1) le by simp
qed

text \<open>
  On bytes the builder has not made the sum of the lengths may wrap around: an entry of 7 bytes
  with a key of 4294967295 bytes passes the check.
\<close>

lemma DecodeEntry_wraps:
  "DecodeEntry [0, 255, 255, 255, 255, 15, 1] 0 7 = Some (7, 0, 4294967295, 1)"
  by (simp add: DecodeEntry_def GetVarint32Ptr_def GetVarint32PtrFallback_def Let_def)

section \<open>Positions of the iterator\<close>

definition iter_on :: "item list \<Rightarrow> nat list \<Rightarrow> u8 list \<Rightarrow> block_iter \<Rightarrow> bool" where
  "iter_on items points data it \<longleftrightarrow> bi_data it = data \<and> bi_restarts it = of_nat (offset items (length items)) \<and>
     bi_num_restarts it = of_nat (length points) \<and> bi_status it = OK"

text \<open>Before an item the key holds at least what the item shares; past the last item it is arbitrary.\<close>

definition before_item :: "item list \<Rightarrow> nat list \<Rightarrow> u8 list \<Rightarrow> nat \<Rightarrow> block_iter \<Rightarrow> bool" where
  "before_item items points data i it \<longleftrightarrow> iter_on items points data it \<and> i \<le> length items \<and>
     NextEntryOffset it = of_nat (offset items i) \<and> (i < length items \<longrightarrow> shares (bi_key it) (items ! i))"

definition at_item :: "item list \<Rightarrow> nat list \<Rightarrow> u8 list \<Rightarrow> nat \<Rightarrow> block_iter \<Rightarrow> bool" where
  "at_item items points data i it \<longleftrightarrow> iter_on items points data it \<and> i < length items \<and>
     bi_current it = of_nat (offset items i) \<and> bi_key it = item_key (items ! i) \<and>
     bi_value_bytes it = Some (snd (item_entry (items ! i))) \<and> NextEntryOffset it = of_nat (offset items (Suc i))"

definition past_end :: "item list \<Rightarrow> nat list \<Rightarrow> u8 list \<Rightarrow> block_iter \<Rightarrow> bool" where
  "past_end items points data it \<longleftrightarrow> iter_on items points data it \<and> \<not> bi_Valid it"

lemma at_before:
  assumes "block_ok items points data" "at_item items points data i it"
  shows "before_item items points data (Suc i) it"
proof -
  have "shares (item_key (items ! i)) (items ! Suc i)" if "Suc i < length items"
    using assms(1) that by (auto simp: block_ok_def items_ok_def key_before_def dest: spec [of _ "Suc i"])
  then show ?thesis using assms(2) by (auto simp: at_item_def before_item_def)
qed

lemma at_valid:
  assumes "block_ok items points data" "at_item items points data i it"
  shows "bi_Valid it"
proof -
  have "offset items i < offset items (length items)"
    using assms(2) offset_Suc [of i items] length_item_bytes [of "items ! i"] offset_mono [of "Suc i" "length items" items]
    by (simp add: at_item_def del: offset_all)
  then show ?thesis
    using assms unat_offset [OF assms(1)] by (simp add: bi_Valid_def at_item_def iter_on_def word_less_nat_alt del: offset_all)
qed

lemma GetRestartPoint_block:
  assumes "block_ok items points data" "iter_on items points data it" "i < length points"
  shows "GetRestartPoint it (of_nat i) = Some (of_nat (offset items (points ! i)))"
proof -
  have n: "unat (of_nat i :: u32) = i" "unat (of_nat (length points) :: u32) = length points"
    using assms(3) block_size(4) [OF assms(1)] by (intro unat_of_nat_small; simp)+
  then show ?thesis
    using assms restart_point [OF assms(1,3)] unat_offset [OF assms(1), of "length items"]
    by (simp add: GetRestartPoint_def iter_on_def word_less_nat_alt mult.commute del: offset_all)
qed

lemma restart_index_cases:
  "index < (of_nat n :: u32) \<Longrightarrow> n < 2 ^ 30 \<Longrightarrow> \<exists>i < n. index = of_nat i"
  by (rule exI [of _ "unat index"]) (simp add: word_less_nat_alt unsigned_of_nat take_bit_nat_eq_self)

lemma advance_restart_ok:
  assumes "block_ok items points data"
  shows "iter_on items points data it \<Longrightarrow> \<exists>index. advance_restart it = Some (it\<lparr>bi_restart_index := index\<rparr>)"
proof (induction it rule: advance_restart.induct)
  case (1 it)
  show ?case
  proof (cases "bi_restart_index it + 1 < bi_num_restarts it")
    case True
    then obtain i where i: "i < length points" "bi_restart_index it + 1 = of_nat i"
      using restart_index_cases block_size(4) [OF assms] "1.prems" by (auto simp: iter_on_def)
    then have point: "GetRestartPoint it (bi_restart_index it + 1) = Some (of_nat (offset items (points ! i)))"
      using GetRestartPoint_block [OF assms "1.prems"] by simp
    show ?thesis
    proof (cases "of_nat (offset items (points ! i)) < bi_current it")
      case less: True
      obtain index where "advance_restart (it\<lparr>bi_restart_index := bi_restart_index it + 1\<rparr>) =
          Some (it\<lparr>bi_restart_index := bi_restart_index it + 1, bi_restart_index := index\<rparr>)"
        using "1.IH" [OF True point less] "1.prems" by (auto simp: iter_on_def)
      then show ?thesis using True point less by (subst advance_restart.simps) auto
    next
      case False
      then show ?thesis using True point
        by (subst advance_restart.simps) (auto intro!: exI [of _ "bi_restart_index it"])
    qed
  next
    case False
    then show ?thesis by (subst advance_restart.simps) (auto intro!: exI [of _ "bi_restart_index it"])
  qed
qed

text \<open>A key is not longer than the bytes up to it.\<close>

lemma key_length:
  assumes "items_ok items points"
  shows "i < length items \<Longrightarrow> length (item_key (items ! i)) \<le> offset items (Suc i)"
proof (induction i)
  case 0
  obtain s k v where "items ! 0 = (s, k, v)" by (cases "items ! 0")
  then show ?case
    using assms 0 offset_Suc [of 0 items] by (auto simp: items_ok_def key_before_def dest: spec [of _ 0])
next
  case (Suc i)
  obtain s k v where item: "items ! Suc i = (s, k, v)" by (cases "items ! Suc i")
  then have "s \<le> length (item_key (items ! i))"
    using assms Suc.prems by (auto simp: items_ok_def key_before_def dest: spec [of _ "Suc i"])
  then show ?case using Suc offset_Suc [of "Suc i" items] item by simp
qed

text \<open>A step of the parser.\<close>

lemma parse_item:
  assumes ok: "block_ok items points data" and before: "before_item items points data i it" and i: "i < length items"
  shows "\<exists>it'. ParseNextKey it = Some (True, it') \<and> at_item items points data i it'"
proof -
  obtain s k v where item: "items ! i = (s, k, v)" by (cases "items ! i")
  have share: "s \<le> length (bi_key it)" "s \<le> length k" "take s (bi_key it) = take s k"
    using before i item by (auto simp: before_item_def)
  note parts = item_parts [OF ok i item share(2)]
  have on: "iter_on items points data it" using before by (simp add: before_item_def)
  let ?p = "offset items (Suc i) - length v - (length k - s)"
  have le: "offset items (Suc i) \<le> offset items (length items)" using i by (intro offset_mono) simp
  have lim: "offset items (length items) < 2 ^ 32" using block_size(3) [OF ok, of "length items"] by simp
  have "length k \<le> offset items (Suc i)" using key_length [of items points i] ok i item by (simp add: block_ok_def)
  then have n: "unat (of_nat (length k - s) :: u32) = length k - s" "unat (of_nat (length v) :: u32) = length v"
      "unat (of_nat s :: u32) = s"
    using lim le parts(3) share(2) by (intro unat_of_nat_small; simp del: offset_all)+
  let ?it = "it\<lparr>bi_current := NextEntryOffset it\<rparr>"
  let ?next = "?it\<lparr>bi_key := k, bi_value := (offset items (Suc i) - length v, of_nat (length v))\<rparr>"
  have cur: "unat (NextEntryOffset it) = offset items i" "unat (bi_restarts it) = offset items (length items)"
    using before on unat_offset [OF ok] by (simp_all add: before_item_def iter_on_def del: offset_all)
  have less: "\<not> offset items (length items) \<le> offset items i" using parts(4) le by simp
  obtain index where adv: "advance_restart ?next = Some (?next\<lparr>bi_restart_index := index\<rparr>)"
    using advance_restart_ok [OF ok, of ?next] on by (auto simp: iter_on_def)
  have key: "take s (bi_key it) @ drop s k = k" using share(3) by simp
  have at: "offset items (Suc i) - (length v + (length k - s)) + (length k - s) = offset items (Suc i) - length v"
    using parts(3) by simp
  have "ParseNextKey it = Some (True, ?next\<lparr>bi_restart_index := index\<rparr>)"
    unfolding ParseNextKey_def Let_def
    using on cur less DecodeEntry_item [OF ok i item] share(1) parts(1) adv
    by (simp add: iter_on_def n key at del: offset_all)
  moreover have "at_item items points data i (?next\<lparr>bi_restart_index := index\<rparr>)"
  proof -
    have "NextEntryOffset (?next\<lparr>bi_restart_index := index\<rparr>) = of_nat (offset items (Suc i))"
      using parts(3) by (simp add: NextEntryOffset_def n)
    moreover have "bi_value_bytes (?next\<lparr>bi_restart_index := index\<rparr>) = Some v"
      using parts(2) cur less on by (simp add: bi_value_bytes_def bi_Valid_def iter_on_def word_less_nat_alt del: offset_all)
    ultimately show ?thesis using on i item before by (simp add: at_item_def iter_on_def before_item_def)
  qed
  ultimately show ?thesis by blast
qed

lemma parse_end:
  assumes "block_ok items points data" "before_item items points data (length items) it"
  shows "\<exists>it'. ParseNextKey it = Some (False, it') \<and> past_end items points data it'"
  using assms by (auto simp: ParseNextKey_def before_item_def iter_on_def past_end_def bi_Valid_def Let_def)

lemma seek_restart:
  assumes "block_ok items points data" "iter_on items points data it" "i < length points"
  shows "\<exists>it'. SeekToRestartPoint (of_nat i) it = Some it' \<and> before_item items points data (points ! i) it'"
proof -
  let ?j = "points ! i"
  have j: "?j \<in> set points" "?j < length items \<or> ?j = 0" "?j < length items \<longrightarrow> fst (items ! ?j) = 0"
    using assms(1,3) by (auto simp: block_ok_def items_ok_def)
  let ?it = "it\<lparr>bi_key := [], bi_restart_index := of_nat i, bi_value := (unat (of_nat (offset items ?j) :: u32), 0)\<rparr>"
  have "SeekToRestartPoint (of_nat i) it = Some ?it"
    using GetRestartPoint_block [OF assms] by (simp add: SeekToRestartPoint_def)
  moreover have "before_item items points data ?j ?it"
    using assms(2) j by (cases "items ! ?j") (auto simp: before_item_def iter_on_def NextEntryOffset_def)
  ultimately show ?thesis by blast
qed

section \<open>Seeking and scanning\<close>

text \<open>The iterator stands on the first item from \<open>j\<close> on whose key is not below the target.\<close>

definition found_from ::
    "item list \<Rightarrow> nat list \<Rightarrow> u8 list \<Rightarrow> Comparator \<Rightarrow> u8 list \<Rightarrow> nat \<Rightarrow> block_iter \<Rightarrow> bool" where
  "found_from items points data cmp target j it \<longleftrightarrow>
     (\<exists>i \<ge> j. at_item items points data i it \<and> Compare cmp (item_key (items ! i)) target \<ge> 0 \<and>
        (\<forall>m. j \<le> m \<and> m < i \<longrightarrow> Compare cmp (item_key (items ! m)) target < 0)) \<or>
     past_end items points data it \<and> (\<forall>m. j \<le> m \<and> m < length items \<longrightarrow> Compare cmp (item_key (items ! m)) target < 0)"

lemma found_from_earlier:
  assumes "found_from items points data cmp target (Suc j) it" "Compare cmp (item_key (items ! j)) target < 0"
  shows "found_from items points data cmp target j it"
proof -
  have "Compare cmp (item_key (items ! m)) target < 0"
    if "j \<le> m" "Suc j \<le> m \<Longrightarrow> Compare cmp (item_key (items ! m)) target < 0" for m
    using that assms(2) by (cases "m = j") simp_all
  then show ?thesis using assms(1) unfolding found_from_def by (metis Suc_leD)
qed

lemma found_from_0:
  "found_from items points data cmp target j it \<Longrightarrow>
    (\<And>m. m < j \<Longrightarrow> Compare cmp (item_key (items ! m)) target < 0) \<Longrightarrow> found_from items points data cmp target 0 it"
  by (induction j) (auto intro: found_from_earlier)

lemma linear_search_ok:
  assumes "block_ok items points data"
  shows "before_item items points data j it \<Longrightarrow>
    \<exists>it'. linear_search cmp target it = Some it' \<and> found_from items points data cmp target j it'"
proof (induction "length items - j" arbitrary: j it)
  case 0
  then have "j = length items" by (simp add: before_item_def)
  then show ?case
    using parse_end [OF assms] "0.prems" by (subst linear_search.simps) (fastforce simp: found_from_def)
next
  case (Suc n)
  then have j: "j < length items" "n = length items - Suc j" by simp_all
  then obtain it1 where it1: "ParseNextKey it = Some (True, it1)" "at_item items points data j it1"
    using parse_item [OF assms Suc.prems] by blast
  show ?case
  proof (cases "Compare cmp (item_key (items ! j)) target \<ge> 0")
    case True
    then show ?thesis using it1 by (subst linear_search.simps) (auto simp: at_item_def found_from_def)
  next
    case False
    have "linear_search cmp target it = linear_search cmp target it1"
      using it1 False by (subst linear_search.simps) (simp add: at_item_def)
    then show ?thesis
      using Suc.hyps(1) [OF j(2) at_before [OF assms it1(2)]] found_from_earlier False by (metis not_le)
  qed
qed

lemma binary_search_ok:
  assumes "block_ok items points data" "iter_on items points data it"
  shows "left \<le> right \<Longrightarrow> right < length points \<Longrightarrow>
    left = 0 \<or> Compare cmp (item_key (items ! (points ! left))) target < 0 \<Longrightarrow>
    \<exists>i < length points. binary_search cmp target it (of_nat left) (of_nat right) = Some (Inl (of_nat i)) \<and>
      (i = 0 \<or> Compare cmp (item_key (items ! (points ! i))) target < 0)"
proof (induction "right - left" arbitrary: left right rule: less_induct)
  case less
  have n: "unat (of_nat x :: u32) = x" if "x \<le> 2 * length points" for x
    using that block_size(4) [OF assms(1)] by (intro unat_of_nat_small) simp
  have lr: "of_nat left < (of_nat right :: u32) \<longleftrightarrow> left < right"
    using less.prems by (simp add: word_less_nat_alt n)
  show ?case
  proof (cases "left < right")
    case False
    then show ?thesis using less.prems lr by (subst binary_search.simps) auto
  next
    case True
    define mid where "mid = (left + right + 1) div 2"
    have mid: "left < mid" "mid \<le> right" using True by (auto simp: mid_def)
    have "(of_nat left + of_nat right + 1 :: u32) = of_nat (left + right + 1)" by simp
    then have wmid: "(of_nat left + of_nat right + 1 :: u32) div 2 = of_nat mid"
      using n [of "left + right + 1"] n [of mid] less.prems True mid
      by (simp only: word_unat_eq_iff unat_div) (simp add: mid_def)
    have pm: "points ! mid \<in> set points" "mid < length points" using mid less.prems by simp_all
    have "items \<noteq> []" using pm mid assms(1) by (auto simp: block_ok_def items_ok_def)
    then have j: "points ! mid < length items"
      using assms(1) pm by (auto simp: block_ok_def items_ok_def)
    then have "fst (items ! (points ! mid)) = 0"
      using assms(1) pm by (simp add: block_ok_def items_ok_def)
    then obtain k v where item: "items ! (points ! mid) = (0, k, v)" by (cases "items ! (points ! mid)") auto
    let ?j = "points ! mid" and ?limit = "offset items (length items)"
    have entry: "DecodeEntry data (offset items ?j) ?limit =
        Some (offset items (Suc ?j) - length v - (length k - 0), of_nat 0, of_nat (length k - 0), of_nat (length v))"
      "block_bytes data (offset items (Suc ?j) - length v - (length k - 0)) (of_nat (length k - 0)) = Some (drop 0 k)"
      using DecodeEntry_item [OF assms(1) j item] item_parts(1) [OF assms(1) j item] by simp_all
    have pred: "(of_nat mid - 1 :: u32) = of_nat (mid - 1)" using mid by simp
    have step: "binary_search cmp target it (of_nat left) (of_nat right) =
        (if Compare cmp k target < 0 then binary_search cmp target it (of_nat mid) (of_nat right)
         else binary_search cmp target it (of_nat left) (of_nat (mid - 1)))"
      using lr True wmid GetRestartPoint_block [OF assms pm(2)] entry assms(2) unat_offset [OF assms(1)] pred
      by (subst binary_search.simps) (simp add: iter_on_def Let_def del: offset_all of_nat_diff)
    show ?thesis
    proof (cases "Compare cmp k target < 0")
      case True
      then show ?thesis using less.hyps [of right mid] mid less.prems item step by simp
    next
      case False
      then show ?thesis using less.hyps [of "mid - 1" left] mid less.prems step by auto
    qed
  qed
qed

section \<open>Scans\<close>

text \<open>The entries from the position of the iterator on, and its final status.\<close>

partial_function (option) block_rest :: "block_iter \<Rightarrow> ((u8 list \<times> u8 list) list \<times> Status) option" where
  "block_rest it =
     (if bi_Valid it then
        Option.bind (bi_value_bytes it) (\<lambda>v. Option.bind (bi_Next it) (\<lambda>it'.
        Option.bind (block_rest it') (\<lambda>(es, s). Some ((bi_key it, v) # es, s))))
      else Some ([], bi_status it))"

declare block_rest.simps [code]

text \<open>Opening the bytes of a block, seeking and scanning.\<close>

definition block_scan ::
    "Comparator \<Rightarrow> u8 list \<Rightarrow> u8 list \<Rightarrow> ((u8 list \<times> u8 list) list \<times> Status) option" where
  "block_scan cmp target data = Option.bind (Block data) (\<lambda>b. Option.bind (NewIterator b) (\<lambda>it.
     case it of
       ErrorIterator s \<Rightarrow> Some ([], s)
     | EmptyIterator \<Rightarrow> Some ([], OK)
     | BlockIter it \<Rightarrow> Option.bind (bi_Seek cmp target it) block_rest))"

lemma rest_past_end: "past_end items points data it \<Longrightarrow> block_rest it = Some ([], OK)"
  by (subst block_rest.simps) (simp add: past_end_def iter_on_def)

lemma rest_at_item:
  assumes "block_ok items points data"
  shows "at_item items points data i it \<Longrightarrow> block_rest it = Some (drop i (map item_entry items), OK)"
proof (induction "length items - i" arbitrary: i it)
  case 0
  then show ?case by (simp add: at_item_def)
next
  case (Suc n)
  have i: "i < length items" "bi_value_bytes it = Some (snd (item_entry (items ! i)))" "bi_key it = fst (item_entry (items ! i))"
    using Suc.prems by (cases "items ! i"; simp add: at_item_def)+
  note before = at_before [OF assms Suc.prems]
  have rest: "\<exists>ok it'. ParseNextKey it = Some (ok, it') \<and> block_rest it' = Some (drop (Suc i) (map item_entry items), OK)"
  proof (cases "Suc i < length items")
    case True
    then show ?thesis using parse_item [OF assms before] Suc.hyps(1) [of "Suc i"] Suc.hyps(2) by fastforce
  next
    case False
    then have "Suc i = length items" using i(1) by simp
    then show ?thesis using parse_end [OF assms] before rest_past_end by fastforce
  qed
  then show ?case
    using i at_valid [OF assms Suc.prems]
    by (subst block_rest.simps) (auto simp: bi_Next_def Cons_nth_drop_Suc [symmetric])
qed

lemma drop_filter:
  assumes "\<And>m. m < i \<Longrightarrow> m < length xs \<Longrightarrow> \<not> P (xs ! m)" "\<And>m. i \<le> m \<Longrightarrow> m < length xs \<Longrightarrow> P (xs ! m)"
  shows "drop i xs = filter P xs"
proof -
  have "filter P (take i xs) = []" using assms(1) by (auto simp: filter_empty_conv in_set_conv_nth)
  moreover have "filter P (drop i xs) = drop i xs" using assms(2) by (auto simp: filter_id_conv in_set_conv_nth)
  ultimately show ?thesis by (metis append_Nil append_take_drop_id filter_append)
qed

lemma found_rest:
  assumes ok: "block_ok items points data" and cmp: "key_order (Compare cmp)"
    and sorted: "sorted_entries cmp (map item_entry items)"
    and found: "found_from items points data cmp target 0 it"
  shows "block_rest it = Some (filter (\<lambda>e. Compare cmp (fst e) target \<ge> 0) (map item_entry items), OK)"
proof -
  have key: "item_key x = fst (item_entry x)" for x by (cases x) simp
  let ?P = "\<lambda>e. Compare cmp (fst e) target \<ge> 0" and ?es = "map item_entry items"
  from found [unfolded found_from_def] show ?thesis
  proof (elim disjE exE conjE)
    fix i assume i: "at_item items points data i it" "Compare cmp (item_key (items ! i)) target \<ge> 0"
      "\<forall>m. 0 \<le> m \<and> m < i \<longrightarrow> Compare cmp (item_key (items ! m)) target < 0"
    have "?P (?es ! m)" if m: "i \<le> m" "m < length ?es" for m
    proof (cases "m = i")
      case False
      then have "Compare cmp (fst (?es ! m)) (fst (?es ! i)) > 0"
        using sorted m by (auto simp: sorted_entries_def sorted_wrt_iff_nth_less)
      moreover have "Compare cmp target (fst (?es ! i)) \<le> 0"
        using i(2) m key_order.not_less [OF cmp] by (simp add: key) (metis not_le)
      ultimately show ?thesis
        using key_order.le_less_trans [OF cmp, of target "fst (?es ! i)" "fst (?es ! m)"]
          key_order.flip [OF cmp] by (metis less_imp_le)
    qed (use i(2) m in \<open>simp add: key\<close>)
    then have "drop i ?es = filter ?P ?es"
      using i(3) by (intro drop_filter) (auto simp: key)
    then show ?thesis using rest_at_item [OF ok i(1)] by simp
  next
    assume "past_end items points data it"
      and "\<forall>m. 0 \<le> m \<and> m < length items \<longrightarrow> Compare cmp (item_key (items ! m)) target < 0"
    then have "filter ?P ?es = []" using drop_filter [of "length ?es" ?es ?P] by (auto simp: key not_le)
    then show ?thesis using rest_past_end \<open>past_end items points data it\<close> by simp
  qed
qed

lemma Seek_ok:
  assumes ok: "block_ok items points data" and cmp: "key_order (Compare cmp)"
    and sorted: "sorted_entries cmp (map item_entry items)" and on: "iter_on items points data it"
  shows "\<exists>it'. bi_Seek cmp target it = Some it' \<and> found_from items points data cmp target 0 it'"
proof -
  have key: "item_key x = fst (item_entry x)" for x by (cases x) simp
  have pos: "0 < length points" using ok by (auto simp: block_ok_def items_ok_def)
  then have last: "bi_num_restarts it - 1 = of_nat (length points - 1)" using on pos of_nat_diff [of 1 "length points", where ?'a = u32] unfolding iter_on_def by (metis Suc_leI One_nat_def of_nat_1)
  obtain i where i: "i < length points" "binary_search cmp target it 0 (bi_num_restarts it - 1) = Some (Inl (of_nat i))"
      "i = 0 \<or> Compare cmp (item_key (items ! (points ! i))) target < 0"
    using binary_search_ok [OF ok on, of 0 "length points - 1" cmp target] pos last by auto
  obtain it1 where it1: "SeekToRestartPoint (of_nat i) it = Some it1" "before_item items points data (points ! i) it1"
    using seek_restart [OF ok on i(1)] by blast
  obtain it' where it': "linear_search cmp target it1 = Some it'"
      "found_from items points data cmp target (points ! i) it'"
    using linear_search_ok [OF ok it1(2)] by blast
  have "Compare cmp (item_key (items ! m)) target < 0" if m: "m < points ! i" for m
  proof -
    have "i \<noteq> 0" using m ok by (auto simp: block_ok_def items_ok_def intro: ccontr)
    then have less: "Compare cmp (item_key (items ! (points ! i))) target < 0" using i(3) by simp
    have "points ! i < length items" using m ok i(1) by (auto simp: block_ok_def items_ok_def)
    then have "Compare cmp (item_key (items ! (points ! i))) (item_key (items ! m)) > 0"
      using m sorted by (auto simp: sorted_entries_def sorted_wrt_iff_nth_less key)
    then show ?thesis using less key_order.less_trans [OF cmp] key_order.flip [OF cmp] by metis
  qed
  then have "found_from items points data cmp target 0 it'"
    using found_from_0 [OF it'(2)] by blast
  then show ?thesis using i(2) it1(1) it'(1) by (auto simp: bi_Seek_def)
qed

lemma length_items:
  "length (concat (map item_bytes items)) \<le> (\<Sum>e \<leftarrow> map item_entry items. 15 + length (fst e) + length (snd e))"
proof (induction items)
  case (Cons it items)
  obtain s k v where "it = (s, k, v)" by (cases it)
  then show ?case using Cons length_item_bytes_le [of s k v] by (simp del: item_bytes.simps)
qed simp

text \<open>
  C36. Search in a block: for a comparator that is a total preorder, entries in ascending order
  whose keys and values fit in 4 GiB are built into a block, whatever the restart interval, and
  seeking a target in the bytes of the block and stepping to the end returns, in order and with
  status \<open>OK\<close>, exactly the entries whose keys are not below the target.
\<close>

theorem block_seek:
  assumes "key_order (Compare (bo_comparator options))" and "bo_restart_interval options \<ge> 1"
    and "sorted_entries (bo_comparator options) es"
    and "(\<Sum>e \<leftarrow> es. 19 + length (fst e) + length (snd e)) + 8 < 2 ^ 32"
  shows "Option.bind (build_block options es) (block_scan (bo_comparator options) target) =
    Some (filter (\<lambda>e. Compare (bo_comparator options) (fst e) target \<ge> 0) es, OK)"
proof -
  let ?cmp = "bo_comparator options"
  obtain items points where lay: "build_block options es = Some (block_layout items points)" "items_ok items points"
      "map item_entry items = es" "length points \<le> Suc (length es)"
    using build_block_layout [OF assms(2,3)] by blast
  let ?data = "block_layout items points"
  have "(\<Sum>e \<leftarrow> es. 19 + length (fst e) + length (snd e)) =
      (\<Sum>e \<leftarrow> es. 15 + length (fst e) + length (snd e)) + 4 * length es"
    by (induction es) simp_all
  then have "length ?data < 2 ^ 32"
    using length_items [of items] lay(3,4) assms(4) by (simp add: block_layout_def length_restart_array)
  then have ok: "block_ok items points ?data" using lay(2) by (simp add: block_ok_def)
  have np: "unat (of_nat (length points) :: u32) = length points" "unat (1 + of_nat (length points) :: u32) = 1 + length points"
    using unat_of_nat_small [of "length points", where ?'a = 32] unat_of_nat_small [of "1 + length points", where ?'a = 32]
      block_size(4) [OF ok] by simp_all
  have pos: "length points \<noteq> 0" using lay(2) by (simp add: items_ok_def)
  have "Block ?data = Some \<lparr>bl_data = ?data, bl_size = length ?data, bl_restart_offset = of_nat (offset items (length items))\<rparr>"
    using NumRestarts_block [OF ok] block_size(1) [OF ok] by (simp add: Block_def np del: offset_all)
  then obtain it where it: "Option.bind (Block ?data) NewIterator = Some (BlockIter it)" "iter_on items points ?data it"
    using NumRestarts_block [OF ok] block_size(1) [OF ok] np(1) pos
    by (auto simp: NewIterator_def Iter_def iter_on_def word_less_nat_alt word_unat_eq_iff simp del: offset_all)
  obtain it' where "bi_Seek ?cmp target it = Some it'" "found_from items points ?data ?cmp target 0 it'"
    using Seek_ok [OF ok assms(1) _ it(2)] assms(3) lay(3) by blast
  then have "Option.bind (bi_Seek ?cmp target it) block_rest = Some (filter (\<lambda>e. Compare ?cmp (fst e) target \<ge> 0) es, OK)"
    using found_rest [OF ok assms(1)] assms(3) lay(3) by simp
  then show ?thesis
    using it(1) lay(1) by (cases "Block ?data") (auto simp: block_scan_def)
qed

theorem block_seek_witness:
  "Option.bind (build_block \<lparr>bo_restart_interval = 2, bo_comparator = BytewiseComparator\<rparr>
      [([1], [10]), ([1, 2], [20]), ([1, 2, 3], [30]), ([5], [])])
     (block_scan BytewiseComparator [1, 2]) = Some ([([1, 2], [20]), ([1, 2, 3], [30]), ([5], [])], OK)"
proof -
  let ?options = "\<lparr>bo_restart_interval = 2, bo_comparator = BytewiseComparator\<rparr>"
  let ?es = "[([1], [10]), ([1, 2], [20]), ([1, 2, 3], [30]), ([5], [])] :: (u8 list \<times> u8 list) list"
  have "Option.bind (build_block ?options ?es) (block_scan (bo_comparator ?options) [1, 2]) =
      Some (filter (\<lambda>e. Compare (bo_comparator ?options) (fst e) [1, 2] \<ge> 0) ?es, OK)"
    by (rule block_seek) (use bytewise.key_order_axioms in \<open>simp_all add: sorted_entries_def slice_compare_def\<close>)
  then show ?thesis by (simp add: slice_compare_def)
qed

end
