(* ===== verification/Cache.thy ===== *)
theory Cache
  imports Bloom
begin

text \<open>
  \<open>leveldb-library/util/cache.cc\<close>: the LRU cache. The handles that \<open>malloc\<close> made and nobody has freed
  lie in \<open>lc_store\<close> under their address. A node of the two circular lists is the dummy head \<open>lru_\<close> or
  \<open>in_use_\<close> of the cache or a handle. Fields that no one has written are \<open>None\<close>, and reading one has
  no outcome, like an access to a handle that is not there and a failed assertion. The values and
  the deleters are the client's; \<open>lc_deleted\<close> records the calls of the deleters. The mutexes
  are left out: operations run one after the other.
\<close>

section \<open>Handles\<close>

datatype node = Lru | InUse | Entry nat

record ('v, 'd) lru_handle =
  h_value :: 'v
  h_deleter :: 'd
  h_next_hash :: "nat option option"
  h_next :: "node option"
  h_prev :: "node option"
  h_charge :: u64
  h_in_cache :: bool
  h_refs :: u32
  h_hash :: u32
  h_key_data :: "u8 list"

text \<open>
  The key of the handle at \<open>a\<close>. A handle whose \<open>next\<close> is itself would keep a pointer to its key in
  \<open>value\<close>; nobody makes one.
\<close>

definition h_key :: "nat \<Rightarrow> ('v, 'd) lru_handle \<Rightarrow> u8 list option" where
  "h_key a h = Option.bind (h_next h) (\<lambda>n. if n = Entry a then None else Some (h_key_data h))"

record hash_table =
  ht_length :: u32
  ht_elems :: u32
  ht_list :: "nat option list"

record ('v, 'd) lru_cache =
  lc_capacity :: u64
  lc_usage :: u64
  lc_lru :: "node option \<times> node option"
  lc_in_use :: "node option \<times> node option"
  lc_table :: hash_table
  lc_store :: "nat \<Rightarrow> ('v, 'd) lru_handle option"
  lc_deleted :: "('d \<times> u8 list \<times> 'v) list"

text \<open>\<open>a->field = ...\<close> for a handle.\<close>

definition upd_handle ::
    "nat \<Rightarrow> (('v, 'd) lru_handle \<Rightarrow> ('v, 'd) lru_handle) \<Rightarrow> ('v, 'd) lru_cache \<Rightarrow> ('v, 'd) lru_cache option" where
  "upd_handle a f c = map_option (\<lambda>h. c\<lparr>lc_store := (lc_store c)(a \<mapsto> f h)\<rparr>) (lc_store c a)"

section \<open>The hash table\<close>

text \<open>An \<open>LRUHandle**\<close>: an element of \<open>list_\<close> or the field \<open>next_hash\<close> of a handle.\<close>

datatype slot = Bucket nat | NextHash nat

fun read_slot :: "('v, 'd) lru_cache \<Rightarrow> slot \<Rightarrow> nat option option" where
  "read_slot c (Bucket i) = (if i < length (ht_list (lc_table c)) then Some (ht_list (lc_table c) ! i) else None)"
| "read_slot c (NextHash a) = Option.bind (lc_store c a) h_next_hash"

fun write_slot :: "slot \<Rightarrow> nat option \<Rightarrow> ('v, 'd) lru_cache \<Rightarrow> ('v, 'd) lru_cache option" where
  "write_slot (Bucket i) p c =
     (if i < length (ht_list (lc_table c))
      then Some (c\<lparr>lc_table := (lc_table c)\<lparr>ht_list := (ht_list (lc_table c))[i := p]\<rparr>\<rparr>) else None)"
| "write_slot (NextHash a) p c = upd_handle a (\<lambda>h. h\<lparr>h_next_hash := Some p\<rparr>) c"

partial_function (option) find_slot :: "('v, 'd) lru_cache \<Rightarrow> u8 list \<Rightarrow> u32 \<Rightarrow> slot \<Rightarrow> slot option" where
  "find_slot c key hash ptr =
     Option.bind (read_slot c ptr) (\<lambda>p. case p of
       None \<Rightarrow> Some ptr
     | Some a \<Rightarrow> Option.bind (lc_store c a) (\<lambda>h.
         if h_hash h \<noteq> hash then find_slot c key hash (NextHash a)
         else Option.bind (h_key a h) (\<lambda>k.
           if key \<noteq> k then find_slot c key hash (NextHash a) else Some ptr)))"

declare find_slot.simps [code]

definition FindPointer :: "('v, 'd) lru_cache \<Rightarrow> u8 list \<Rightarrow> u32 \<Rightarrow> slot option" where
  "FindPointer c key hash = find_slot c key hash (Bucket (unat (hash AND (ht_length (lc_table c) - 1))))"

definition ht_Lookup :: "u8 list \<Rightarrow> u32 \<Rightarrow> ('v, 'd) lru_cache \<Rightarrow> nat option option" where
  "ht_Lookup key hash c = Option.bind (FindPointer c key hash) (read_slot c)"

text \<open>The doubling loop of \<open>Resize\<close>; it would not end for more than $2^{31}$ elements.\<close>

partial_function (option) grow :: "u32 \<Rightarrow> u32 \<Rightarrow> u32 option" where
  "grow elems new_length = (if new_length < elems then grow elems (new_length * 2) else Some new_length)"

declare grow.simps [code]

text \<open>The inner loop of \<open>Resize\<close>: the handles of an old bucket go to the front of their new ones.\<close>

partial_function (option) move_bucket ::
    "nat option \<Rightarrow> nat option list \<Rightarrow> u32 \<Rightarrow> ('v, 'd) lru_cache \<Rightarrow> (nat option list \<times> u32 \<times> ('v, 'd) lru_cache) option" where
  "move_bucket p new_list count c =
     (case p of
        None \<Rightarrow> Some (new_list, count, c)
      | Some h \<Rightarrow>
         Option.bind (lc_store c h) (\<lambda>e.
         Option.bind (h_next_hash e) (\<lambda>nxt.
           let i = unat (h_hash e AND (of_nat (length new_list) - 1)) in
           if i < length new_list then
             Option.bind (upd_handle h (\<lambda>e. e\<lparr>h_next_hash := Some (new_list ! i)\<rparr>) c) (\<lambda>c.
               move_bucket nxt (new_list[i := Some h]) (count + 1) c)
           else None)))"

declare move_bucket.simps [code]

primrec move_buckets ::
    "nat option list \<Rightarrow> nat option list \<Rightarrow> u32 \<Rightarrow> ('v, 'd) lru_cache \<Rightarrow> (nat option list \<times> u32 \<times> ('v, 'd) lru_cache) option" where
  "move_buckets [] new_list count c = Some (new_list, count, c)"
| "move_buckets (p # ps) new_list count c =
     Option.bind (move_bucket p new_list count c) (\<lambda>(new_list, count, c). move_buckets ps new_list count c)"

definition Resize :: "('v, 'd) lru_cache \<Rightarrow> ('v, 'd) lru_cache option" where
  "Resize c =
     Option.bind (grow (ht_elems (lc_table c)) 4) (\<lambda>new_length.
     Option.bind (move_buckets (take (unat (ht_length (lc_table c))) (ht_list (lc_table c)))
         (replicate (unat new_length) None) 0 c) (\<lambda>(new_list, count, c).
       if ht_elems (lc_table c) = count
       then Some (c\<lparr>lc_table := (lc_table c)\<lparr>ht_list := new_list, ht_length := new_length\<rparr>\<rparr>)
       else None))"

text \<open>Insertion of the handle at \<open>h\<close>; the result is the one it replaces.\<close>

definition ht_Insert :: "nat \<Rightarrow> ('v, 'd) lru_cache \<Rightarrow> (nat option \<times> ('v, 'd) lru_cache) option" where
  "ht_Insert h c =
     Option.bind (lc_store c h) (\<lambda>e.
     Option.bind (h_key h e) (\<lambda>key.
     Option.bind (FindPointer c key (h_hash e)) (\<lambda>ptr.
     Option.bind (read_slot c ptr) (\<lambda>old.
     Option.bind (case old of None \<Rightarrow> Some None | Some a \<Rightarrow> read_slot c (NextHash a)) (\<lambda>nxt.
     Option.bind (write_slot (NextHash h) nxt c) (\<lambda>c.
     Option.bind (write_slot ptr (Some h) c) (\<lambda>c.
       if old = None then
         (let c = c\<lparr>lc_table := (lc_table c)\<lparr>ht_elems := ht_elems (lc_table c) + 1\<rparr>\<rparr> in
          if ht_elems (lc_table c) > ht_length (lc_table c) then map_option (Pair None) (Resize c)
          else Some (None, c))
       else Some (old, c))))))))"

definition ht_Remove :: "u8 list \<Rightarrow> u32 \<Rightarrow> ('v, 'd) lru_cache \<Rightarrow> (nat option \<times> ('v, 'd) lru_cache) option" where
  "ht_Remove key hash c =
     Option.bind (FindPointer c key hash) (\<lambda>ptr.
     Option.bind (read_slot c ptr) (\<lambda>result. case result of
       None \<Rightarrow> Some (None, c)
     | Some a \<Rightarrow>
         Option.bind (read_slot c (NextHash a)) (\<lambda>nxt.
         Option.bind (write_slot ptr nxt c) (\<lambda>c.
           Some (Some a, c\<lparr>lc_table := (lc_table c)\<lparr>ht_elems := ht_elems (lc_table c) - 1\<rparr>\<rparr>)))))"

section \<open>The lists\<close>

fun get_next :: "('v, 'd) lru_cache \<Rightarrow> node \<Rightarrow> node option" where
  "get_next c Lru = fst (lc_lru c)"
| "get_next c InUse = fst (lc_in_use c)"
| "get_next c (Entry a) = Option.bind (lc_store c a) h_next"

fun get_prev :: "('v, 'd) lru_cache \<Rightarrow> node \<Rightarrow> node option" where
  "get_prev c Lru = snd (lc_lru c)"
| "get_prev c InUse = snd (lc_in_use c)"
| "get_prev c (Entry a) = Option.bind (lc_store c a) h_prev"

fun set_next :: "node \<Rightarrow> node \<Rightarrow> ('v, 'd) lru_cache \<Rightarrow> ('v, 'd) lru_cache option" where
  "set_next Lru n c = Some (c\<lparr>lc_lru := (Some n, snd (lc_lru c))\<rparr>)"
| "set_next InUse n c = Some (c\<lparr>lc_in_use := (Some n, snd (lc_in_use c))\<rparr>)"
| "set_next (Entry a) n c = upd_handle a (\<lambda>h. h\<lparr>h_next := Some n\<rparr>) c"

fun set_prev :: "node \<Rightarrow> node \<Rightarrow> ('v, 'd) lru_cache \<Rightarrow> ('v, 'd) lru_cache option" where
  "set_prev Lru n c = Some (c\<lparr>lc_lru := (fst (lc_lru c), Some n)\<rparr>)"
| "set_prev InUse n c = Some (c\<lparr>lc_in_use := (fst (lc_in_use c), Some n)\<rparr>)"
| "set_prev (Entry a) n c = upd_handle a (\<lambda>h. h\<lparr>h_prev := Some n\<rparr>) c"

definition LRU_Remove :: "node \<Rightarrow> ('v, 'd) lru_cache \<Rightarrow> ('v, 'd) lru_cache option" where
  "LRU_Remove e c =
     Option.bind (get_next c e) (\<lambda>n.
     Option.bind (get_prev c e) (\<lambda>p.
     Option.bind (set_prev n p c) (\<lambda>c.
     Option.bind (get_prev c e) (\<lambda>p.
     Option.bind (get_next c e) (\<lambda>n. set_next p n c)))))"

definition LRU_Append :: "node \<Rightarrow> node \<Rightarrow> ('v, 'd) lru_cache \<Rightarrow> ('v, 'd) lru_cache option" where
  "LRU_Append lst e c =
     Option.bind (set_next e lst c) (\<lambda>c.
     Option.bind (get_prev c lst) (\<lambda>p.
     Option.bind (set_prev e p c) (\<lambda>c.
     Option.bind (get_prev c e) (\<lambda>p.
     Option.bind (set_next p e c) (\<lambda>c.
     Option.bind (get_next c e) (\<lambda>n. set_prev n e c))))))"

section \<open>One cache\<close>

text \<open>The constructor; \<open>capacity\<close> is whatever \<open>capacity_\<close> holds before \<open>SetCapacity\<close>.\<close>

definition LRUCache :: "u64 \<Rightarrow> ('v, 'd) lru_cache option" where
  "LRUCache capacity =
     Resize \<lparr>lc_capacity = capacity, lc_usage = 0, lc_lru = (Some Lru, Some Lru), lc_in_use = (Some InUse, Some InUse),
       lc_table = \<lparr>ht_length = 0, ht_elems = 0, ht_list = []\<rparr>, lc_store = Map.empty, lc_deleted = []\<rparr>"

definition SetCapacity :: "u64 \<Rightarrow> ('v, 'd) lru_cache \<Rightarrow> ('v, 'd) lru_cache" where
  "SetCapacity capacity c = c\<lparr>lc_capacity := capacity\<rparr>"

definition TotalCharge :: "('v, 'd) lru_cache \<Rightarrow> u64" where
  "TotalCharge c = lc_usage c"

definition Ref :: "nat \<Rightarrow> ('v, 'd) lru_cache \<Rightarrow> ('v, 'd) lru_cache option" where
  "Ref a c =
     Option.bind (lc_store c a) (\<lambda>e.
     Option.bind (if h_refs e = 1 \<and> h_in_cache e then Option.bind (LRU_Remove (Entry a) c) (LRU_Append InUse (Entry a)) else Some c)
       (upd_handle a (\<lambda>e. e\<lparr>h_refs := h_refs e + 1\<rparr>)))"

text \<open>The key is read, the deleter called and the handle freed.\<close>

definition deallocate :: "nat \<Rightarrow> ('v, 'd) lru_cache \<Rightarrow> ('v, 'd) lru_cache option" where
  "deallocate a c =
     Option.bind (lc_store c a) (\<lambda>e.
     Option.bind (h_key a e) (\<lambda>key.
       Some (c\<lparr>lc_deleted := lc_deleted c @ [(h_deleter e, key, h_value e)], lc_store := (lc_store c)(a := None)\<rparr>)))"

definition Unref :: "nat \<Rightarrow> ('v, 'd) lru_cache \<Rightarrow> ('v, 'd) lru_cache option" where
  "Unref a c =
     Option.bind (lc_store c a) (\<lambda>e.
       if h_refs e > 0 then
         Option.bind (upd_handle a (\<lambda>e. e\<lparr>h_refs := h_refs e - 1\<rparr>) c) (\<lambda>c.
           if h_refs e - 1 = 0 then (if \<not> h_in_cache e then deallocate a c else None)
           else if h_in_cache e \<and> h_refs e - 1 = 1
             then Option.bind (LRU_Remove (Entry a) c) (LRU_Append Lru (Entry a))
           else Some c)
       else None)"

definition lc_Lookup :: "u8 list \<Rightarrow> u32 \<Rightarrow> ('v, 'd) lru_cache \<Rightarrow> (nat option \<times> ('v, 'd) lru_cache) option" where
  "lc_Lookup key hash c =
     Option.bind (ht_Lookup key hash c) (\<lambda>e. case e of
       None \<Rightarrow> Some (None, c)
     | Some a \<Rightarrow> map_option (Pair (Some a)) (Ref a c))"

definition lc_Release :: "nat \<Rightarrow> ('v, 'd) lru_cache \<Rightarrow> ('v, 'd) lru_cache option" where
  "lc_Release handle c = Unref handle c"

text \<open>The result is whether there was something to erase.\<close>

definition FinishErase :: "nat option \<Rightarrow> ('v, 'd) lru_cache \<Rightarrow> (bool \<times> ('v, 'd) lru_cache) option" where
  "FinishErase p c =
     (case p of
        None \<Rightarrow> Some (False, c)
      | Some a \<Rightarrow>
         Option.bind (lc_store c a) (\<lambda>e.
           if h_in_cache e then
             Option.bind (LRU_Remove (Entry a) c) (\<lambda>c.
             Option.bind (upd_handle a (\<lambda>e. e\<lparr>h_in_cache := False\<rparr>) c) (\<lambda>c.
               map_option (Pair True) (Unref a (c\<lparr>lc_usage := lc_usage c - h_charge e\<rparr>))))
           else None))"

text \<open>
  The loops of \<open>Insert\<close> and \<open>Prune\<close>: the oldest handle of \<open>lru_\<close> is erased while \<open>goes_on\<close> holds of the
  cache and the list is not empty.
\<close>

partial_function (option) evict :: "(('v, 'd) lru_cache \<Rightarrow> bool) \<Rightarrow> ('v, 'd) lru_cache \<Rightarrow> ('v, 'd) lru_cache option" where
  "evict goes_on c =
     (if \<not> goes_on c then Some c
      else
        Option.bind (get_next c Lru) (\<lambda>old. case old of
          Entry a \<Rightarrow>
            Option.bind (lc_store c a) (\<lambda>e.
            Option.bind (h_key a e) (\<lambda>key.
              if h_refs e = 1 then
                Option.bind (ht_Remove key (h_hash e) c) (\<lambda>(removed, c).
                Option.bind (FinishErase removed c) (\<lambda>(erased, c).
                  if erased then evict goes_on c else None))
              else None))
        | InUse \<Rightarrow> None
        | Lru \<Rightarrow> Some c))"

declare evict.simps [code]

text \<open>\<open>a\<close> is the address that \<open>malloc\<close> returns: one that is not in use.\<close>

definition lc_Insert ::
    "nat \<Rightarrow> u8 list \<Rightarrow> u32 \<Rightarrow> 'v \<Rightarrow> u64 \<Rightarrow> 'd \<Rightarrow> ('v, 'd) lru_cache \<Rightarrow> (nat \<times> ('v, 'd) lru_cache) option" where
  "lc_Insert a key hash val charge deleter c =
     (if lc_store c a \<noteq> None then None
      else
        let e = \<lparr>h_value = val, h_deleter = deleter, h_next_hash = None, h_next = None, h_prev = None, h_charge = charge,
                 h_in_cache = False, h_refs = 1, h_hash = hash, h_key_data = key\<rparr>;
            c = c\<lparr>lc_store := (lc_store c)(a \<mapsto> e)\<rparr>
        in Option.bind
             (if lc_capacity c > 0 then
                Option.bind (upd_handle a (\<lambda>e. e\<lparr>h_refs := h_refs e + 1, h_in_cache := True\<rparr>) c) (\<lambda>c.
                Option.bind (LRU_Append InUse (Entry a) c) (\<lambda>c.
                Option.bind (ht_Insert a (c\<lparr>lc_usage := lc_usage c + charge\<rparr>)) (\<lambda>(old, c).
                  map_option snd (FinishErase old c))))
              else Some c)
             (\<lambda>c. map_option (Pair a) (evict (\<lambda>c. lc_usage c > lc_capacity c) c)))"

definition lc_Erase :: "u8 list \<Rightarrow> u32 \<Rightarrow> ('v, 'd) lru_cache \<Rightarrow> ('v, 'd) lru_cache option" where
  "lc_Erase key hash c =
     Option.bind (ht_Remove key hash c) (\<lambda>(removed, c). map_option snd (FinishErase removed c))"

definition lc_Prune :: "('v, 'd) lru_cache \<Rightarrow> ('v, 'd) lru_cache option" where
  "lc_Prune c = evict (\<lambda>_. True) c"

text \<open>The destructor, from the node its loop stands on.\<close>

partial_function (option) destroy_loop :: "node \<Rightarrow> ('v, 'd) lru_cache \<Rightarrow> ('v, 'd) lru_cache option" where
  "destroy_loop e c =
     (case e of
        Lru \<Rightarrow> Some c
      | InUse \<Rightarrow> None
      | Entry a \<Rightarrow>
          Option.bind (get_next c e) (\<lambda>nxt.
          Option.bind (lc_store c a) (\<lambda>h.
            if h_in_cache h \<and> h_refs h = 1 then
              Option.bind (upd_handle a (\<lambda>h. h\<lparr>h_in_cache := False\<rparr>) c) (\<lambda>c.
              Option.bind (Unref a c) (destroy_loop nxt))
            else None)))"

declare destroy_loop.simps [code]

definition destroy_LRUCache :: "('v, 'd) lru_cache \<Rightarrow> ('v, 'd) lru_cache option" where
  "destroy_LRUCache c =
     (if fst (lc_in_use c) = Some InUse then Option.bind (fst (lc_lru c)) (\<lambda>e. destroy_loop e c) else None)"

section \<open>The sharded cache\<close>

definition kNumShardBits :: nat where
  "kNumShardBits = 4"

definition kNumShards :: nat where
  "kNumShards = 2 ^ kNumShardBits"

definition HashSlice :: "u8 list \<Rightarrow> u32" where
  "HashSlice s = Hash s 0"

definition Shard :: "u32 \<Rightarrow> nat" where
  "Shard hash = unat (drop_bit (32 - kNumShardBits) hash)"

record ('v, 'd) sharded_cache =
  sc_shard :: "('v, 'd) lru_cache list"
  sc_last_id :: u64

definition ShardedLRUCache :: "u64 \<Rightarrow> u64 \<Rightarrow> ('v, 'd) sharded_cache option" where
  "ShardedLRUCache garbage capacity =
     (let per_shard = (capacity + (of_nat kNumShards - 1)) div of_nat kNumShards in
      map_option (\<lambda>c. \<lparr>sc_shard = replicate kNumShards (SetCapacity per_shard c), sc_last_id = 0\<rparr>) (LRUCache garbage))"

text \<open>\<open>shard_[s].f()\<close> for an operation with a result, and the memory of the handles of all shards.\<close>

definition on_shard :: "nat \<Rightarrow> (('v, 'd) lru_cache \<Rightarrow> ('r \<times> ('v, 'd) lru_cache) option) \<Rightarrow> ('v, 'd) sharded_cache
    \<Rightarrow> ('r \<times> ('v, 'd) sharded_cache) option" where
  "on_shard s f sc =
     (if s < length (sc_shard sc)
      then map_option (\<lambda>(r, c). (r, sc\<lparr>sc_shard := (sc_shard sc)[s := c]\<rparr>)) (f (sc_shard sc ! s)) else None)"

definition sc_handle :: "('v, 'd) sharded_cache \<Rightarrow> nat \<Rightarrow> ('v, 'd) lru_handle option" where
  "sc_handle sc a = Option.bind (List.find (\<lambda>c. lc_store c a \<noteq> None) (sc_shard sc)) (\<lambda>c. lc_store c a)"

definition sc_Insert ::
    "nat \<Rightarrow> u8 list \<Rightarrow> 'v \<Rightarrow> u64 \<Rightarrow> 'd \<Rightarrow> ('v, 'd) sharded_cache \<Rightarrow> (nat \<times> ('v, 'd) sharded_cache) option" where
  "sc_Insert a key val charge deleter sc =
     (if sc_handle sc a \<noteq> None then None
      else let hash = HashSlice key in on_shard (Shard hash) (lc_Insert a key hash val charge deleter) sc)"

definition sc_Lookup :: "u8 list \<Rightarrow> ('v, 'd) sharded_cache \<Rightarrow> (nat option \<times> ('v, 'd) sharded_cache) option" where
  "sc_Lookup key sc = (let hash = HashSlice key in on_shard (Shard hash) (lc_Lookup key hash) sc)"

definition sc_Release :: "nat \<Rightarrow> ('v, 'd) sharded_cache \<Rightarrow> ('v, 'd) sharded_cache option" where
  "sc_Release handle sc =
     Option.bind (sc_handle sc handle) (\<lambda>h.
       map_option snd (on_shard (Shard (h_hash h)) (\<lambda>c. map_option (Pair ()) (lc_Release handle c)) sc))"

definition sc_Erase :: "u8 list \<Rightarrow> ('v, 'd) sharded_cache \<Rightarrow> ('v, 'd) sharded_cache option" where
  "sc_Erase key sc =
     (let hash = HashSlice key
      in map_option snd (on_shard (Shard hash) (\<lambda>c. map_option (Pair ()) (lc_Erase key hash c)) sc))"

definition sc_Value :: "nat \<Rightarrow> ('v, 'd) sharded_cache \<Rightarrow> 'v option" where
  "sc_Value handle sc = map_option h_value (sc_handle sc handle)"

definition sc_NewId :: "('v, 'd) sharded_cache \<Rightarrow> u64 \<times> ('v, 'd) sharded_cache" where
  "sc_NewId sc = (sc_last_id sc + 1, sc\<lparr>sc_last_id := sc_last_id sc + 1\<rparr>)"

definition sc_Prune :: "('v, 'd) sharded_cache \<Rightarrow> ('v, 'd) sharded_cache option" where
  "sc_Prune sc =
     foldl (\<lambda>r s. Option.bind r (\<lambda>sc. map_option snd (on_shard s (\<lambda>c. map_option (Pair ()) (lc_Prune c)) sc)))
       (Some sc) [0..<kNumShards]"

definition sc_TotalCharge :: "('v, 'd) sharded_cache \<Rightarrow> u64" where
  "sc_TotalCharge sc = foldl (\<lambda>total c. total + TotalCharge c) 0 (sc_shard sc)"

end
