(* ===== verification/CacheSpec.thy ===== *)
theory CacheSpec
  imports Cache
begin

text \<open>
  The data structures of the LRU cache: the circular doubly linked lists, the chains of the hash
  table, and what the operations do to each. A state is looked at in three views, the links of the
  lists, the table with its chains, and the data of the handles; each operation changes one.
\<close>

section \<open>Rings\<close>

text \<open>Consecutive nodes point at each other.\<close>

fun linked :: "('n \<Rightarrow> 'n option) \<Rightarrow> ('n \<Rightarrow> 'n option) \<Rightarrow> 'n list \<Rightarrow> bool" where
  "linked nx pv (a # b # ns) \<longleftrightarrow> nx a = Some b \<and> pv b = Some a \<and> linked nx pv (b # ns)"
| "linked nx pv _ \<longleftrightarrow> True"

definition ring :: "('n \<Rightarrow> 'n option) \<Rightarrow> ('n \<Rightarrow> 'n option) \<Rightarrow> 'n \<Rightarrow> 'n list \<Rightarrow> bool" where
  "ring nx pv l xs \<longleftrightarrow> linked nx pv (l # xs @ [l]) \<and> distinct (l # xs)"

lemma linked_append: "linked nx pv (us @ a # vs) \<longleftrightarrow> linked nx pv (us @ [a]) \<and> linked nx pv (a # vs)"
  by (induction us rule: induct_list012) (auto split: list.splits)

lemma linked_middle:
  "linked nx pv (us @ a # b # vs) \<longleftrightarrow> linked nx pv (us @ [a]) \<and> nx a = Some b \<and> pv b = Some a \<and> linked nx pv (b # vs)"
  by (subst linked_append) simp

lemma linked_cong:
  "(\<forall>a \<in> set (butlast ns). nx' a = nx a) \<Longrightarrow> (\<forall>b \<in> set (tl ns). pv' b = pv b) \<Longrightarrow> linked nx' pv' ns = linked nx pv ns"
  by (induction ns rule: induct_list012) auto

lemma ring_cong:
  "(\<forall>a \<in> set (l # xs). nx' a = nx a) \<Longrightarrow> (\<forall>a \<in> set (l # xs). pv' a = pv a) \<Longrightarrow> ring nx' pv' l xs = ring nx pv l xs"
  unfolding ring_def by (subst linked_cong [of _ nx' nx pv' pv]) (auto simp: butlast_append)

lemma ring_remove:
  assumes "ring nx pv l (us @ e # vs)"
  obtains p n where "nx e = Some n" "pv e = Some p" "p \<in> set (l # us)" "n \<in> set (l # vs)" "n \<noteq> e" "p \<noteq> e" "p = n \<Longrightarrow> n = l"
    "ring (nx(p := Some n)) (pv(n := Some p)) l (us @ vs)"
proof -
  obtain us' p where us: "l # us = us' @ [p]" by (metis append_butlast_last_id list.distinct(1))
  obtain n vs' where vs: "vs @ [l] = n # vs'" by (cases "vs @ [l]") auto
  have dist: "distinct (l # us @ e # vs)" and lk: "linked nx pv ((l # us) @ e # vs @ [l])"
    using assms by (simp_all add: ring_def)
  have "linked nx pv (us' @ p # e # n # vs')" using lk unfolding us vs by simp
  then have *: "linked nx pv (us' @ [p])" "nx p = Some e" "pv e = Some p" "nx e = Some n" "linked nx pv (n # vs')"
    by (simp_all add: linked_middle)
  have p: "p \<in> set (l # us)" unfolding us by simp
  have n: "n \<in> set (l # vs)" using vs by (cases vs) auto
  have pvs: "p \<notin> set vs" and ne: "n \<noteq> e" "p \<noteq> e" using p n dist by auto
  have nus: "n \<notin> set us" using n dist by auto
  have "distinct ((l # us) @ e # vs)" using dist by simp
  then have us'p: "p \<notin> set us'" unfolding us by simp
  have tl: "set (tl (us' @ [p])) = set us" using us by (metis list.sel(3))
  have bl: "butlast (n # vs') = vs" using vs by (metis butlast_snoc)
  have nvs: "n \<notin> set vs'" using vs dist by (cases vs) auto
  have "linked (nx(p := Some n)) (pv(n := Some p)) (us' @ [p])"
    using *(1) us'p nus tl by (subst linked_cong [of _ _ nx _ pv]) auto
  moreover have "linked (nx(p := Some n)) (pv(n := Some p)) (n # vs')"
    using *(5) pvs nvs bl by (subst linked_cong [of _ _ nx _ pv]) auto
  ultimately have "linked (nx(p := Some n)) (pv(n := Some p)) (us' @ p # n # vs')"
    by (simp add: linked_middle)
  then have "linked (nx(p := Some n)) (pv(n := Some p)) ((l # us) @ vs @ [l])"
    unfolding us vs by simp
  then have "ring (nx(p := Some n)) (pv(n := Some p)) l (us @ vs)" using dist by (simp add: ring_def)
  moreover have "p = n \<Longrightarrow> n = l" using p n pvs by auto
  ultimately show ?thesis using that * p n ne by blast
qed

lemma ring_append:
  assumes "ring nx pv l xs" "e \<notin> set (l # xs)"
  obtains p where "pv l = Some p" "p \<in> set (l # xs)"
    "ring (nx(e := Some l, p := Some e)) (pv(e := Some p, l := Some e)) l (xs @ [e])"
proof -
  obtain xs' p where xs: "l # xs = xs' @ [p]" by (metis append_butlast_last_id list.distinct(1))
  have dist: "distinct (l # xs)" and lk: "linked nx pv ((l # xs) @ [l])"
    using assms by (simp_all add: ring_def)
  have "linked nx pv (xs' @ p # [l])" using lk unfolding xs by simp
  then have *: "linked nx pv (xs' @ [p])" "pv l = Some p" by (simp_all add: linked_middle)
  have p: "p \<in> set (l # xs)" unfolding xs by simp
  have xs'p: "p \<notin> set xs'" using dist unfolding xs by simp
  have tl: "set (tl (xs' @ [p])) = set xs" using xs by (metis list.sel(3))
  have "set xs' \<subseteq> set (l # xs)" unfolding xs by auto
  then have exs: "e \<notin> set xs'" "l \<notin> set xs" "e \<notin> set xs" "e \<noteq> l" "e \<noteq> p" using assms(2) dist p by auto
  let ?nx = "nx(e := Some l, p := Some e)" let ?pv = "pv(e := Some p, l := Some e)"
  have "linked ?nx ?pv (xs' @ [p])"
    using *(1) xs'p exs tl by (subst linked_cong [of _ _ nx _ pv]) auto
  then have "linked ?nx ?pv (xs' @ p # e # [l])" using exs by (simp add: linked_middle)
  then have "linked ?nx ?pv ((l # xs) @ [e, l])" unfolding xs by simp
  then have "ring ?nx ?pv l (xs @ [e])" using dist assms(2) by (auto simp: ring_def)
  then show ?thesis using that *(2) p by blast
qed

section \<open>The views of a state\<close>

definition next_hash :: "('v, 'd) lru_cache \<Rightarrow> nat \<Rightarrow> nat option option" where
  "next_hash c a = Option.bind (lc_store c a) h_next_hash"

definition bare :: "('v, 'd) lru_handle \<Rightarrow> ('v, 'd) lru_handle" where
  "bare h = h\<lparr>h_next_hash := None, h_next := None, h_prev := None\<rparr>"

definition handles :: "('v, 'd) lru_cache \<Rightarrow> nat \<Rightarrow> ('v, 'd) lru_handle option" where
  "handles c a = map_option bare (lc_store c a)"

definition counters :: "('v, 'd) lru_cache \<Rightarrow> u64 \<times> u64 \<times> ('d \<times> u8 list \<times> 'v) list" where
  "counters c = (lc_capacity c, lc_usage c, lc_deleted c)"

text \<open>What changes only the links, and what changes only the table.\<close>

definition links_only :: "('v, 'd) lru_cache \<Rightarrow> ('v, 'd) lru_cache \<Rightarrow> bool" where
  "links_only c c' \<longleftrightarrow> next_hash c' = next_hash c \<and> lc_table c' = lc_table c \<and> handles c' = handles c \<and> counters c' = counters c"

definition table_only :: "('v, 'd) lru_cache \<Rightarrow> ('v, 'd) lru_cache \<Rightarrow> bool" where
  "table_only c c' \<longleftrightarrow> get_next c' = get_next c \<and> get_prev c' = get_prev c \<and> handles c' = handles c \<and> counters c' = counters c"

lemma links_only_trans: "links_only c c1 \<Longrightarrow> links_only c1 c2 \<Longrightarrow> links_only c c2"
  by (simp add: links_only_def)

lemma table_only_trans: "table_only c c1 \<Longrightarrow> table_only c1 c2 \<Longrightarrow> table_only c c2"
  by (simp add: table_only_def)

lemma handles_None: "handles c a = None \<longleftrightarrow> lc_store c a = None"
  by (simp add: handles_def)

lemma bare_sel [simp]:
  "h_value (bare h) = h_value h" "h_deleter (bare h) = h_deleter h" "h_charge (bare h) = h_charge h"
  "h_in_cache (bare h) = h_in_cache h" "h_refs (bare h) = h_refs h" "h_hash (bare h) = h_hash h"
  "h_key_data (bare h) = h_key_data h"
  by (simp_all add: bare_def)

definition node_ok :: "('v, 'd) lru_cache \<Rightarrow> node \<Rightarrow> bool" where
  "node_ok c n = (case n of Entry a \<Rightarrow> handles c a \<noteq> None | _ \<Rightarrow> True)"

lemma node_ok_links_only: "links_only c c' \<Longrightarrow> node_ok c' = node_ok c"
  by (simp add: links_only_def node_ok_def fun_eq_iff split: node.splits)

lemma set_next_ok:
  assumes "node_ok c n"
  obtains c' where "set_next n m c = Some c'" "get_next c' = (get_next c)(n := Some m)" "get_prev c' = get_prev c" "links_only c c'"
proof -
  have "\<exists>c'. set_next n m c = Some c' \<and> (\<forall>x. get_next c' x = ((get_next c)(n := Some m)) x) \<and> (\<forall>x. get_prev c' x = get_prev c x) \<and>
      (\<forall>a. next_hash c' a = next_hash c a) \<and> lc_table c' = lc_table c \<and> (\<forall>a. handles c' a = handles c a) \<and> counters c' = counters c"
  proof (cases n)
    case Lru
    have "get_next (c\<lparr>lc_lru := (Some m, snd (lc_lru c))\<rparr>) x = ((get_next c)(n := Some m)) x \<and>
        get_prev (c\<lparr>lc_lru := (Some m, snd (lc_lru c))\<rparr>) x = get_prev c x" for x
      by (cases x) (simp_all add: Lru)
    then show ?thesis by (simp add: Lru next_hash_def handles_def counters_def)
  next
    case InUse
    have "get_next (c\<lparr>lc_in_use := (Some m, snd (lc_in_use c))\<rparr>) x = ((get_next c)(n := Some m)) x \<and>
        get_prev (c\<lparr>lc_in_use := (Some m, snd (lc_in_use c))\<rparr>) x = get_prev c x" for x
      by (cases x) (simp_all add: InUse)
    then show ?thesis by (simp add: InUse next_hash_def handles_def counters_def)
  next
    case (Entry a)
    obtain h where h: "lc_store c a = Some h" using assms by (auto simp: node_ok_def Entry handles_def)
    let ?c = "c\<lparr>lc_store := (lc_store c)(a \<mapsto> h\<lparr>h_next := Some m\<rparr>)\<rparr>"
    have "get_next ?c x = ((get_next c)(n := Some m)) x \<and> get_prev ?c x = get_prev c x" for x
      by (cases x) (simp_all add: Entry h)
    then show ?thesis by (simp add: Entry h upd_handle_def next_hash_def handles_def counters_def bare_def)
  qed
  then show ?thesis using that by (auto simp: links_only_def fun_eq_iff)
qed

lemma set_prev_ok:
  assumes "node_ok c n"
  obtains c' where "set_prev n m c = Some c'" "get_prev c' = (get_prev c)(n := Some m)" "get_next c' = get_next c" "links_only c c'"
proof -
  have "\<exists>c'. set_prev n m c = Some c' \<and> (\<forall>x. get_prev c' x = ((get_prev c)(n := Some m)) x) \<and> (\<forall>x. get_next c' x = get_next c x) \<and>
      (\<forall>a. next_hash c' a = next_hash c a) \<and> lc_table c' = lc_table c \<and> (\<forall>a. handles c' a = handles c a) \<and> counters c' = counters c"
  proof (cases n)
    case Lru
    have "get_prev (c\<lparr>lc_lru := (fst (lc_lru c), Some m)\<rparr>) x = ((get_prev c)(n := Some m)) x \<and>
        get_next (c\<lparr>lc_lru := (fst (lc_lru c), Some m)\<rparr>) x = get_next c x" for x
      by (cases x) (simp_all add: Lru)
    then show ?thesis by (simp add: Lru next_hash_def handles_def counters_def)
  next
    case InUse
    have "get_prev (c\<lparr>lc_in_use := (fst (lc_in_use c), Some m)\<rparr>) x = ((get_prev c)(n := Some m)) x \<and>
        get_next (c\<lparr>lc_in_use := (fst (lc_in_use c), Some m)\<rparr>) x = get_next c x" for x
      by (cases x) (simp_all add: InUse)
    then show ?thesis by (simp add: InUse next_hash_def handles_def counters_def)
  next
    case (Entry a)
    obtain h where h: "lc_store c a = Some h" using assms by (auto simp: node_ok_def Entry handles_def)
    let ?c = "c\<lparr>lc_store := (lc_store c)(a \<mapsto> h\<lparr>h_prev := Some m\<rparr>)\<rparr>"
    have "get_prev ?c x = ((get_prev c)(n := Some m)) x \<and> get_next ?c x = get_next c x" for x
      by (cases x) (simp_all add: Entry h)
    then show ?thesis by (simp add: Entry h upd_handle_def next_hash_def handles_def counters_def bare_def)
  qed
  then show ?thesis using that by (auto simp: links_only_def fun_eq_iff)
qed

lemma LRU_Remove_ok:
  assumes "get_next c e = Some n" "get_prev c e = Some p" "node_ok c n" "node_ok c p" "n \<noteq> e"
  obtains c' where "LRU_Remove e c = Some c'" "get_next c' = (get_next c)(p := Some n)"
    "get_prev c' = (get_prev c)(n := Some p)" "links_only c c'"
proof -
  obtain c1 where c1: "set_prev n p c = Some c1" "get_prev c1 = (get_prev c)(n := Some p)" "get_next c1 = get_next c" "links_only c c1"
    using set_prev_ok [OF assms(3)] by blast
  have "node_ok c1 p" using assms(4) c1(4) by (simp add: node_ok_links_only)
  then obtain c2 where c2: "set_next p n c1 = Some c2" "get_next c2 = (get_next c1)(p := Some n)" "get_prev c2 = get_prev c1" "links_only c1 c2"
    using set_next_ok by blast
  have "LRU_Remove e c = Some c2" using assms(1,2,5) c1 c2(1) by (simp add: LRU_Remove_def)
  then show ?thesis using that c1 c2 links_only_trans by metis
qed

lemma LRU_Append_ok:
  assumes "node_ok c e" "node_ok c l" "get_prev c l = Some p" "node_ok c p" "e \<noteq> l" "p \<noteq> e"
  obtains c' where "LRU_Append l e c = Some c'" "get_next c' = (get_next c)(e := Some l, p := Some e)"
    "get_prev c' = (get_prev c)(e := Some p, l := Some e)" "links_only c c'"
proof -
  obtain c1 where c1: "set_next e l c = Some c1" "get_next c1 = (get_next c)(e := Some l)" "get_prev c1 = get_prev c" "links_only c c1"
    using set_next_ok [OF assms(1)] by blast
  have "node_ok c1 e" using assms(1) c1(4) by (simp add: node_ok_links_only)
  then obtain c2 where c2: "set_prev e p c1 = Some c2" "get_prev c2 = (get_prev c1)(e := Some p)" "get_next c2 = get_next c1" "links_only c1 c2"
    using set_prev_ok by blast
  have "node_ok c2 p" using assms(4) c1(4) c2(4) by (simp add: node_ok_links_only)
  then obtain c3 where c3: "set_next p e c2 = Some c3" "get_next c3 = (get_next c2)(p := Some e)" "get_prev c3 = get_prev c2" "links_only c2 c3"
    using set_next_ok by blast
  have "node_ok c3 l" using assms(2) c1(4) c2(4) c3(4) by (simp add: node_ok_links_only)
  then obtain c4 where c4: "set_prev l e c3 = Some c4" "get_prev c4 = (get_prev c3)(l := Some e)" "get_next c4 = get_next c3" "links_only c3 c4"
    using set_prev_ok by blast
  have "get_next c3 e = Some l" using assms(6) c1 c2 c3 by simp
  then have "LRU_Append l e c = Some c4" using assms(3) c1 c2 c3(1) c4(1) by (simp add: LRU_Append_def)
  moreover have "links_only c c4" using c1(4) c2(4) c3(4) c4(4) links_only_trans by metis
  ultimately show ?thesis using that [of c4] c1 c2 c3 c4 by simp
qed

section \<open>Two lists\<close>

text \<open>A handle whose key can be read.\<close>

definition keyed :: "('v, 'd) lru_cache \<Rightarrow> nat \<Rightarrow> bool" where
  "keyed c a \<longleftrightarrow> (\<exists>n. get_next c (Entry a) = Some n \<and> n \<noteq> Entry a)"

text \<open>
  Two disjoint lists of handles with the dummies \<open>l\<close> and \<open>l'\<close>. Every handle outside of \<open>E\<close> is keyed.
\<close>

definition two_lists :: "('v, 'd) lru_cache \<Rightarrow> nat set \<Rightarrow> node \<Rightarrow> nat list \<Rightarrow> node \<Rightarrow> nat list \<Rightarrow> bool" where
  "two_lists c E l xs l' ys \<longleftrightarrow>
     ring (get_next c) (get_prev c) l (map Entry xs) \<and> ring (get_next c) (get_prev c) l' (map Entry ys) \<and>
     distinct (xs @ ys) \<and> (\<forall>a \<in> set (xs @ ys). handles c a \<noteq> None) \<and>
     (\<forall>a. handles c a \<noteq> None \<and> a \<notin> E \<longrightarrow> keyed c a) \<and> l \<noteq> l' \<and> l \<notin> range Entry \<and> l' \<notin> range Entry"

lemma two_lists_sym: "two_lists c E l xs l' ys \<Longrightarrow> two_lists c E l' ys l xs"
  unfolding two_lists_def by auto

lemma two_lists_remove:
  assumes "two_lists c E l (us @ a # vs) l' ys"
  obtains c' where "LRU_Remove (Entry a) c = Some c'" "two_lists c' E l (us @ vs) l' ys" "links_only c c'"
proof -
  have r: "ring (get_next c) (get_prev c) l (map Entry us @ Entry a # map Entry vs)"
    and r': "ring (get_next c) (get_prev c) l' (map Entry ys)"
    and dist: "distinct (us @ a # vs @ ys)" and ll: "l \<noteq> l'" "l \<notin> range Entry" "l' \<notin> range Entry"
    and ok: "\<forall>a \<in> set (us @ a # vs @ ys). handles c a \<noteq> None"
    and k: "\<forall>a. handles c a \<noteq> None \<and> a \<notin> E \<longrightarrow> keyed c a"
    using assms by (auto simp: two_lists_def)
  obtain p n where pn: "get_next c (Entry a) = Some n" "get_prev c (Entry a) = Some p" "p \<in> set (l # map Entry us)"
      "n \<in> set (l # map Entry vs)" "n \<noteq> Entry a" "p \<noteq> Entry a" "p = n \<Longrightarrow> n = l"
      "ring ((get_next c)(p := Some n)) ((get_prev c)(n := Some p)) l (map Entry us @ map Entry vs)"
    using ring_remove [OF r] by metis
  have lok: "node_ok c l" using ll by (cases l) (auto simp: node_ok_def)
  have "node_ok c n" "node_ok c p" using pn(3,4) ok lok by (auto simp: node_ok_def)
  then obtain c' where c': "LRU_Remove (Entry a) c = Some c'" "get_next c' = (get_next c)(p := Some n)"
      "get_prev c' = (get_prev c)(n := Some p)" "links_only c c'"
    using LRU_Remove_ok pn(1,2,5) by metis
  have h: "handles c' = handles c" using c'(4) by (simp add: links_only_def)
  have out: "p \<notin> set (l' # map Entry ys)" "n \<notin> set (l' # map Entry ys)" using pn(3,4) dist ll by auto
  have "ring (get_next c') (get_prev c') l' (map Entry ys)"
    using r' out unfolding c'(2,3) by (subst ring_cong [of _ _ _ "get_next c" _ "get_prev c"]) auto
  moreover have "keyed c' x" if "handles c' x \<noteq> None \<and> x \<notin> E" for x
  proof -
    have "keyed c x" using k that h by simp
    moreover have "n \<noteq> Entry x" if "p = Entry x" using that pn(7) ll(2) by auto
    ultimately show ?thesis unfolding keyed_def c'(2) by auto
  qed
  ultimately have "two_lists c' E l (us @ vs) l' ys"
    using pn(8) dist ll ok unfolding two_lists_def h c'(2,3) by auto
  then show ?thesis using that c' by blast
qed

lemma two_lists_append:
  assumes "two_lists c E l xs l' ys" "handles c a \<noteq> None" "a \<notin> set (xs @ ys)"
  obtains c' where "LRU_Append l (Entry a) c = Some c'" "two_lists c' (E - {a}) l (xs @ [a]) l' ys" "links_only c c'"
proof -
  have r: "ring (get_next c) (get_prev c) l (map Entry xs)" and r': "ring (get_next c) (get_prev c) l' (map Entry ys)"
    and dist: "distinct (xs @ ys)" and ll: "l \<noteq> l'" "l \<notin> range Entry" "l' \<notin> range Entry"
    and ok: "\<forall>a \<in> set (xs @ ys). handles c a \<noteq> None"
    and k: "\<forall>a. handles c a \<noteq> None \<and> a \<notin> E \<longrightarrow> keyed c a"
    using assms by (auto simp: two_lists_def)
  have a: "Entry a \<notin> set (l # map Entry xs)" using assms(3) ll by auto
  obtain p where p: "get_prev c l = Some p" "p \<in> set (l # map Entry xs)"
      "ring ((get_next c)(Entry a := Some l, p := Some (Entry a))) ((get_prev c)(Entry a := Some p, l := Some (Entry a))) l
        (map Entry xs @ [Entry a])"
    using ring_append [OF r a] by metis
  have lok: "node_ok c l" using ll by (cases l) (auto simp: node_ok_def)
  have "node_ok c p" using p(2) ok lok by (auto simp: node_ok_def)
  moreover have "node_ok c (Entry a)" using assms(2) by (simp add: node_ok_def)
  moreover have ne: "Entry a \<noteq> l" "p \<noteq> Entry a" using a p(2) by auto
  ultimately obtain c' where c': "LRU_Append l (Entry a) c = Some c'"
      "get_next c' = (get_next c)(Entry a := Some l, p := Some (Entry a))"
      "get_prev c' = (get_prev c)(Entry a := Some p, l := Some (Entry a))" "links_only c c'"
    using LRU_Append_ok lok p(1) by metis
  have h: "handles c' = handles c" using c'(4) by (simp add: links_only_def)
  have out: "p \<notin> set (l' # map Entry ys)" "Entry a \<notin> set (l' # map Entry ys)" "l \<notin> set (l' # map Entry ys)"
    using p(2) dist ll assms(3) by auto
  have "ring (get_next c') (get_prev c') l' (map Entry ys)"
    using r' out unfolding c'(2,3) by (subst ring_cong [of _ _ _ "get_next c" _ "get_prev c"]) auto
  moreover have "keyed c' x" if "handles c' x \<noteq> None \<and> x \<notin> E - {a}" for x
  proof (cases "x = a")
    case True
    then show ?thesis using ne unfolding keyed_def c'(2) by auto
  next
    case False
    then have "keyed c x" using k that h by simp
    then show ?thesis using False unfolding keyed_def c'(2) by auto
  qed
  ultimately have "two_lists c' (E - {a}) l (xs @ [a]) l' ys"
    using p(3) dist ll ok assms(2,3) unfolding two_lists_def h c'(2,3) by auto
  then show ?thesis using that c' by blast
qed

lemma two_lists_mono: "two_lists c E l xs l' ys \<Longrightarrow> E \<subseteq> E' \<Longrightarrow> two_lists c E' l xs l' ys"
  unfolding two_lists_def by blast

lemma two_lists_move:
  assumes "two_lists c E l (us @ a # vs) l' ys"
  obtains c' where "Option.bind (LRU_Remove (Entry a) c) (LRU_Append l' (Entry a)) = Some c'"
    "two_lists c' E l (us @ vs) l' (ys @ [a])" "links_only c c'"
proof -
  obtain c1 where c1: "LRU_Remove (Entry a) c = Some c1" "two_lists c1 E l (us @ vs) l' ys" "links_only c c1"
    using two_lists_remove [OF assms] .
  have "handles c a \<noteq> None" "a \<notin> set (ys @ us @ vs)" using assms by (auto simp: two_lists_def)
  then obtain c2 where c2: "LRU_Append l' (Entry a) c1 = Some c2" "two_lists c2 (E - {a}) l' (ys @ [a]) l (us @ vs)" "links_only c1 c2"
    using two_lists_append [OF two_lists_sym [OF c1(2)], of a] c1(3) by (auto simp: links_only_def)
  then have "two_lists c2 E l (us @ vs) l' (ys @ [a])"
    using two_lists_mono [OF two_lists_sym [OF c2(2)]] by blast
  then show ?thesis using that c1(1,3) c2(1,3) links_only_trans by (metis bind.bind_lunit)
qed

lemma two_lists_cong:
  assumes "\<forall>n. n \<notin> Entry ` Z \<longrightarrow> get_next c' n = get_next c n \<and> get_prev c' n = get_prev c n"
    and "\<forall>a. a \<notin> Z \<longrightarrow> (handles c' a = None) = (handles c a = None)"
    and "set (xs @ ys) \<inter> Z = {}" "\<forall>a \<in> Z. handles c' a \<noteq> None \<longrightarrow> a \<in> E'" "E \<subseteq> E' \<union> Z"
    and "two_lists c E l xs l' ys"
  shows "two_lists c' E' l xs l' ys"
proof -
  have out: "\<forall>n \<in> set (l # map Entry xs). n \<notin> Entry ` Z" "\<forall>n \<in> set (l' # map Entry ys). n \<notin> Entry ` Z"
    using assms(3,6) by (auto simp: two_lists_def)
  have same: "\<forall>n \<in> set (l # map Entry xs). get_next c' n = get_next c n" "\<forall>n \<in> set (l # map Entry xs). get_prev c' n = get_prev c n"
      "\<forall>n \<in> set (l' # map Entry ys). get_next c' n = get_next c n" "\<forall>n \<in> set (l' # map Entry ys). get_prev c' n = get_prev c n"
    using out assms(1) by (metis (no_types))+
  have "ring (get_next c') (get_prev c') l (map Entry xs)" "ring (get_next c') (get_prev c') l' (map Entry ys)"
    using assms(6) ring_cong [OF same(1,2)] ring_cong [OF same(3,4)] by (simp_all only: two_lists_def)
  moreover have "keyed c' a" if "handles c' a \<noteq> None" "a \<notin> E'" for a
  proof -
    have "a \<notin> Z" "a \<notin> E" using that assms(4,5) by auto
    then have "keyed c a" using assms(2,6) that unfolding two_lists_def by metis
    moreover have "get_next c' (Entry a) = get_next c (Entry a)" using assms(1) \<open>a \<notin> Z\<close> by blast
    ultimately show ?thesis by (simp add: keyed_def)
  qed
  moreover have "\<forall>a \<in> set (xs @ ys). handles c' a \<noteq> None"
    using assms(2,3,6) unfolding two_lists_def by (metis disjoint_iff)
  ultimately show ?thesis using assms(6) unfolding two_lists_def by blast
qed

section \<open>Chains\<close>

fun chain :: "(nat \<Rightarrow> nat option option) \<Rightarrow> nat option \<Rightarrow> nat list \<Rightarrow> bool" where
  "chain nh p [] \<longleftrightarrow> p = None"
| "chain nh p (x # xs) \<longleftrightarrow> p = Some x \<and> (\<exists>q. nh x = Some q \<and> chain nh q xs)"

text \<open>The slot behind some handles of a chain.\<close>

definition slot_behind :: "slot \<Rightarrow> nat list \<Rightarrow> slot" where
  "slot_behind s us = (if us = [] then s else NextHash (last us))"

lemma slot_behind_Cons: "slot_behind s (u # us) = slot_behind (NextHash u) us"
  by (simp add: slot_behind_def)

lemma chain_cong: "(\<forall>x \<in> set xs. nh' x = nh x) \<Longrightarrow> chain nh' p xs = chain nh p xs"
  by (induction xs arbitrary: p) auto

lemma chain_fun: "chain nh p xs \<Longrightarrow> chain nh p ys \<Longrightarrow> xs = ys"
proof (induction xs arbitrary: p ys)
  case Nil
  then show ?case by (cases ys) auto
next
  case (Cons x xs)
  then show ?case by (cases ys) auto
qed

text \<open>What \<open>FindPointer\<close> looks for.\<close>

definition matches :: "('v, 'd) lru_cache \<Rightarrow> u8 list \<Rightarrow> u32 \<Rightarrow> nat \<Rightarrow> bool" where
  "matches c key hash a \<longleftrightarrow> (\<exists>h. handles c a = Some h \<and> h_hash h = hash \<and> h_key_data h = key)"

lemma find_slot_ok:
  assumes "read_slot c s = Some p" "chain (next_hash c) p xs" "\<forall>x \<in> set xs. handles c x \<noteq> None \<and> keyed c x"
  shows "\<exists>us ws. find_slot c key hash s = Some (slot_behind s us) \<and> xs = us @ ws \<and>
    (\<forall>u \<in> set us. \<not> matches c key hash u) \<and> (\<forall>w ws'. ws = w # ws' \<longrightarrow> matches c key hash w)"
  using assms
proof (induction xs arbitrary: s p)
  case Nil
  then have "find_slot c key hash s = Some s" by (subst find_slot.simps) simp
  then show ?case by (auto simp: slot_behind_def)
next
  case (Cons x xs)
  obtain h where h: "lc_store c x = Some h" using Cons.prems(3) by (auto simp: handles_def)
  have k: "h_key x h = Some (h_key_data h)" using Cons.prems(3) h by (auto simp: keyed_def h_key_def)
  have p: "p = Some x" using Cons.prems(2) by simp
  have m: "matches c key hash x \<longleftrightarrow> h_hash h = hash \<and> h_key_data h = key" by (simp add: matches_def handles_def h)
  show ?case
  proof (cases "matches c key hash x")
    case True
    have "find_slot c key hash s = Some s" using True m by (subst find_slot.simps) (simp add: Cons.prems(1) p h k)
    then show ?thesis using True by (intro exI [of _ "[]"] exI [of _ "x # xs"]) (auto simp: slot_behind_def)
  next
    case False
    have step: "find_slot c key hash s = find_slot c key hash (NextHash x)"
      using False m by (subst find_slot.simps) (auto simp: Cons.prems(1) p h k)
    obtain q where q: "next_hash c x = Some q" "chain (next_hash c) q xs" using Cons.prems(2) by auto
    have "read_slot c (NextHash x) = Some q" using q(1) by (simp add: next_hash_def)
    then obtain us ws where uw: "find_slot c key hash (NextHash x) = Some (slot_behind (NextHash x) us)" "xs = us @ ws"
        "\<forall>u \<in> set us. \<not> matches c key hash u" "\<forall>w ws'. ws = w # ws' \<longrightarrow> matches c key hash w"
      using Cons.IH q(2) Cons.prems(3) by (metis list.set_intros(2))
    then show ?thesis using False step
      by (intro exI [of _ "x # us"] exI [of _ ws]) (auto simp: slot_behind_Cons)
  qed
qed

lemma read_slot_behind:
  assumes "read_slot c s = Some p" "chain (next_hash c) p (us @ ws)"
  shows "\<exists>q. read_slot c (slot_behind s us) = Some q \<and> chain (next_hash c) q ws"
  using assms
proof (induction us arbitrary: s p)
  case Nil
  then show ?case by (simp add: slot_behind_def)
next
  case (Cons u us)
  then obtain q where q: "next_hash c u = Some q" "chain (next_hash c) q (us @ ws)" by auto
  have "read_slot c (NextHash u) = Some q" using q(1) by (simp add: next_hash_def)
  then show ?case unfolding slot_behind_Cons by (rule Cons.IH [OF _ q(2)])
qed

text \<open>A chain whose rest is replaced.\<close>

lemma chain_relink:
  assumes "chain nh p (us @ ws)" "chain nh q ws'" "distinct us" "us \<noteq> []" "last us \<notin> set ws'"
  shows "chain (nh(last us := Some q)) p (us @ ws')"
  using assms
proof (induction us arbitrary: p)
  case Nil
  then show ?case by simp
next
  case (Cons u us)
  show ?case
  proof (cases "us = []")
    case True
    then have "\<forall>x \<in> set ws'. (nh(u := Some q)) x = nh x" using Cons.prems(5) by auto
    then have "chain (nh(u := Some q)) q ws'" using Cons.prems(2) chain_cong by metis
    moreover have "chain (nh(u := Some q)) p (u # ws') \<longleftrightarrow> p = Some u \<and> chain (nh(u := Some q)) q ws'"
      by (simp only: chain.simps) auto
    moreover have "p = Some u" using Cons.prems(1) by simp
    ultimately have "chain (nh(u := Some q)) p (u # ws')" by blast
    moreover have "last (u # us) = u" "(u # us) @ ws' = u # ws'" using True by simp_all
    ultimately show ?thesis by (simp only:)
  next
    case False
    then obtain r where "nh u = Some r" "chain nh r (us @ ws)" "p = Some u" using Cons.prems(1) by auto
    moreover have "u \<noteq> last us" using False Cons.prems(3) by auto
    ultimately show ?thesis using Cons False by auto
  qed
qed

text \<open>Every list of a table is a chain of the handles that belong there.\<close>

definition table_holds :: "(nat \<Rightarrow> nat option option) \<Rightarrow> nat option list \<Rightarrow> (nat \<Rightarrow> nat) \<Rightarrow> nat set \<Rightarrow> bool" where
  "table_holds nh l idx S \<longleftrightarrow> (\<forall>i < length l. \<exists>xs. chain nh (l ! i) xs \<and> distinct xs \<and> set xs = {a \<in> S. idx a = i})"

definition relink :: "nat \<Rightarrow> nat list \<Rightarrow> nat option \<Rightarrow> (nat \<Rightarrow> nat option option) \<times> nat option list
    \<Rightarrow> (nat \<Rightarrow> nat option option) \<times> nat option list" where
  "relink i us q = (\<lambda>(nh, l). if us = [] then (nh, l[i := q]) else (nh(last us := Some q), l))"

lemma table_holds_cong: "(\<forall>a \<in> S. nh' a = nh a) \<Longrightarrow> (\<forall>a \<in> S. idx' a = idx a) \<Longrightarrow> table_holds nh' l idx' S = table_holds nh l idx S"
proof -
  assume *: "\<forall>a \<in> S. nh' a = nh a" "\<forall>a \<in> S. idx' a = idx a"
  have "{a \<in> S. idx' a = i} = {a \<in> S. idx a = i}" for i using *(2) by auto
  moreover have "chain nh' p xs = chain nh p xs" if "set xs = {a \<in> S. idx a = i}" for p xs i
    using *(1) that by (intro chain_cong) auto
  ultimately show ?thesis unfolding table_holds_def by metis
qed

lemma table_holds_relink:
  assumes "table_holds nh l idx S" "i < length l" "chain nh (l ! i) (us @ ws)" "distinct (us @ ws)"
    and "set (us @ ws) = {a \<in> S. idx a = i}"
    and "chain nh q ws'" "distinct (us @ ws')" "\<forall>a \<in> set ws'. idx a = i \<and> a \<notin> S - set ws"
    and "S' = S - set ws \<union> set ws'" "(nh', l') = relink i us q (nh, l)"
  shows "table_holds nh' l' idx S'" "length l' = length l"
proof -
  show len: "length l' = length l" using assms(10) by (auto simp: relink_def split: if_splits)
  have same: "nh' a = nh a" if "a \<notin> set us" for a using that assms(10) by (auto simp: relink_def split: if_splits)
  show "table_holds nh' l' idx S'"
    unfolding table_holds_def
  proof (intro allI impI)
    fix j assume "j < length l'"
    then have j: "j < length l" using len by simp
    show "\<exists>xs. chain nh' (l' ! j) xs \<and> distinct xs \<and> set xs = {a \<in> S'. idx a = j}"
    proof (cases "j = i")
      case True
      have "chain nh' (l' ! i) (us @ ws')"
      proof (cases "us = []")
        case True
        then show ?thesis using assms(2,6,10) by (simp add: relink_def)
      next
        case False
        then have "last us \<notin> set ws'" using assms(7) by (metis disjoint_iff distinct_append last_in_set)
        then show ?thesis using chain_relink [OF assms(3,6) _ False] assms(4,10) False by (simp add: relink_def)
      qed
      moreover have "set (us @ ws') = {a \<in> S'. idx a = i}"
        using assms(4,5,8) unfolding assms(9) by auto
      ultimately show ?thesis using assms(7) True by blast
    next
      case False
      obtain xs where xs: "chain nh (l ! j) xs" "distinct xs" "set xs = {a \<in> S. idx a = j}"
        using assms(1) j by (auto simp: table_holds_def)
      have "set xs \<inter> set us = {}" using xs(3) assms(5) False by auto
      then have "chain nh' (l ! j) xs" using xs(1) chain_cong [of xs nh' nh] same by auto
      moreover have "l' ! j = l ! j" using assms(10) False by (auto simp: relink_def split: if_splits)
      moreover have "set xs = {a \<in> S'. idx a = j}" using xs(3) assms(5,8) False unfolding assms(9) by auto
      ultimately show ?thesis using xs(2) by auto
    qed
  qed
qed

definition links :: "('v, 'd) lru_cache \<Rightarrow> (nat \<Rightarrow> nat option option) \<times> nat option list" where
  "links c = (next_hash c, ht_list (lc_table c))"

lemma write_next_hash:
  assumes "handles c a \<noteq> None"
  obtains c' where "write_slot (NextHash a) q c = Some c'" "next_hash c' = (next_hash c)(a := Some q)"
    "lc_table c' = lc_table c" "table_only c c'"
proof -
  obtain h where h: "lc_store c a = Some h" using assms by (auto simp: handles_def)
  let ?c = "c\<lparr>lc_store := (lc_store c)(a \<mapsto> h\<lparr>h_next_hash := Some q\<rparr>)\<rparr>"
  have "get_next ?c n = get_next c n \<and> get_prev ?c n = get_prev c n" for n by (cases n) (simp_all add: h)
  moreover have "next_hash ?c = (next_hash c)(a := Some q)" by (auto simp: next_hash_def)
  moreover have "handles ?c = handles c" by (auto simp: handles_def h bare_def)
  ultimately show ?thesis using that [of ?c]
    by (simp add: upd_handle_def h table_only_def fun_eq_iff counters_def)
qed

lemma write_slot_behind:
  assumes "i < length (ht_list (lc_table c))" "\<forall>u \<in> set us. handles c u \<noteq> None"
  obtains c' where "write_slot (slot_behind (Bucket i) us) q c = Some c'" "links c' = relink i us q (links c)"
    "ht_length (lc_table c') = ht_length (lc_table c)" "ht_elems (lc_table c') = ht_elems (lc_table c)" "table_only c c'"
proof (cases "us = []")
  case True
  let ?c = "c\<lparr>lc_table := (lc_table c)\<lparr>ht_list := (ht_list (lc_table c))[i := q]\<rparr>\<rparr>"
  have "get_next ?c n = get_next c n \<and> get_prev ?c n = get_prev c n" for n by (cases n) simp_all
  moreover have "next_hash ?c = next_hash c" "handles ?c = handles c" by (auto simp: next_hash_def handles_def)
  ultimately show ?thesis using that [of ?c] assms(1) True
    by (simp add: slot_behind_def table_only_def fun_eq_iff counters_def links_def relink_def)
next
  case False
  then have "handles c (last us) \<noteq> None" using assms(2) by simp
  then obtain c' where "write_slot (NextHash (last us)) q c = Some c'" "next_hash c' = (next_hash c)(last us := Some q)"
      "lc_table c' = lc_table c" "table_only c c'" by (rule write_next_hash)
  then show ?thesis using that [of c'] False by (simp add: slot_behind_def links_def relink_def)
qed

end
