(* ===== verification/CacheTable.thy ===== *)
theory CacheTable
  imports CacheSpec
begin

text \<open>
  The hash table of the LRU cache: a table that holds a set of handles, and what lookup, removal,
  insertion and growing do to it.
\<close>

definition bucket :: "u32 \<Rightarrow> ('v, 'd) lru_cache \<Rightarrow> nat \<Rightarrow> nat" where
  "bucket len c a = (case handles c a of Some h \<Rightarrow> unat (h_hash h AND (len - 1)) | None \<Rightarrow> 0)"

definition table_of :: "('v, 'd) lru_cache \<Rightarrow> nat set \<Rightarrow> bool" where
  "table_of c S \<longleftrightarrow> finite S \<and> (\<forall>a \<in> S. handles c a \<noteq> None) \<and>
     length (ht_list (lc_table c)) = unat (ht_length (lc_table c)) \<and> 0 < ht_length (lc_table c) \<and>
     ht_elems (lc_table c) = of_nat (card S) \<and>
     table_holds (next_hash c) (ht_list (lc_table c)) (bucket (ht_length (lc_table c)) c) S"

lemma and_less: "0 < len \<Longrightarrow> unat (x AND (len - 1)) < unat (len :: u32)"
proof -
  assume "0 < len"
  then have "len \<noteq> 0" "0 < unat len" by (auto simp: word_less_nat_alt)
  moreover have "unat (len - 1) = unat len - 1" using \<open>len \<noteq> 0\<close> by (rule unat_minus_one)
  ultimately show ?thesis using word_and_le1 [of x "len - 1"] by (simp add: word_le_nat_alt)
qed

lemma table_of_holds:
  "table_of c S \<Longrightarrow> table_holds (next_hash c) (ht_list (lc_table c)) (bucket (ht_length (lc_table c)) c) S"
  by (simp add: table_of_def)

lemma table_of_cong:
  assumes "lc_table c' = lc_table c" "\<forall>a \<in> S. next_hash c' a = next_hash c a" "\<forall>a \<in> S. handles c a \<noteq> None \<longrightarrow> (\<exists>h h'.
      handles c a = Some h \<and> handles c' a = Some h' \<and> h_hash h' = h_hash h)"
    and "table_of c S"
  shows "table_of c' S"
proof -
  have ok: "\<forall>a \<in> S. handles c' a \<noteq> None" and b: "\<forall>a \<in> S. bucket len c' a = bucket len c a" for len
    using assms(3,4) by (fastforce simp: table_of_def bucket_def)+
  show ?thesis using assms(4) ok unfolding table_of_def assms(1)
    by (simp add: table_holds_cong [OF assms(2) b])
qed

lemma table_of_links_only: "links_only c c' \<Longrightarrow> table_of c S \<Longrightarrow> table_of c' S"
  by (rule table_of_cong) (auto simp: links_only_def)

text \<open>The slot that \<open>FindPointer\<close> gives lies in the chain of the key's bucket.\<close>

definition finds :: "('v, 'd) lru_cache \<Rightarrow> nat set \<Rightarrow> u8 list \<Rightarrow> u32 \<Rightarrow> nat \<Rightarrow> nat list \<Rightarrow> nat list \<Rightarrow> bool" where
  "finds c S key hash i us ws \<longleftrightarrow>
     FindPointer c key hash = Some (slot_behind (Bucket i) us) \<and> i < length (ht_list (lc_table c)) \<and>
     i = unat (hash AND (ht_length (lc_table c) - 1)) \<and>
     chain (next_hash c) (ht_list (lc_table c) ! i) (us @ ws) \<and> distinct (us @ ws) \<and>
     set (us @ ws) = {a \<in> S. bucket (ht_length (lc_table c)) c a = i} \<and>
     (\<forall>w ws'. ws = w # ws' \<longrightarrow> matches c key hash w) \<and> (ws = [] \<longrightarrow> (\<forall>a \<in> S. \<not> matches c key hash a))"

lemma FindPointer_ok:
  assumes "table_of c S" "\<forall>a \<in> S. keyed c a"
  obtains i us ws where "finds c S key hash i us ws"
proof -
  let ?i = "unat (hash AND (ht_length (lc_table c) - 1))"
  have i: "?i < length (ht_list (lc_table c))" using assms(1) and_less by (simp add: table_of_def)
  then obtain xs where xs: "chain (next_hash c) (ht_list (lc_table c) ! ?i) xs" "distinct xs"
      "set xs = {a \<in> S. bucket (ht_length (lc_table c)) c a = ?i}"
    using assms(1) by (auto simp: table_of_def table_holds_def)
  have r: "read_slot c (Bucket ?i) = Some (ht_list (lc_table c) ! ?i)" using i by simp
  have ok: "\<forall>x \<in> set xs. handles c x \<noteq> None \<and> keyed c x" using xs(3) assms by (auto simp: table_of_def)
  obtain us ws where uw: "find_slot c key hash (Bucket ?i) = Some (slot_behind (Bucket ?i) us)" "xs = us @ ws"
      "\<forall>u \<in> set us. \<not> matches c key hash u" "\<forall>w ws'. ws = w # ws' \<longrightarrow> matches c key hash w"
    using find_slot_ok [OF r xs(1) ok] by blast
  have "\<not> matches c key hash a" if "ws = []" "a \<in> S" for a
  proof
    assume m: "matches c key hash a"
    then have "bucket (ht_length (lc_table c)) c a = ?i" by (auto simp: matches_def bucket_def)
    then show False using that m uw(2,3) xs(3) by auto
  qed
  then have "finds c S key hash ?i us ws" using i xs uw by (simp add: finds_def FindPointer_def)
  then show ?thesis using that by blast
qed

lemma finds_chain:
  assumes "finds c S key hash i us ws"
  shows "i < length (ht_list (lc_table c))" "chain (next_hash c) (ht_list (lc_table c) ! i) (us @ ws)" "distinct (us @ ws)"
    "set (us @ ws) = {a \<in> S. bucket (ht_length (lc_table c)) c a = i}"
  using assms unfolding finds_def by blast+

lemma finds_read:
  assumes "finds c S key hash i us ws"
  shows "\<exists>q. read_slot c (slot_behind (Bucket i) us) = Some q \<and> chain (next_hash c) q ws"
  by (rule read_slot_behind) (use assms in \<open>auto simp: finds_def\<close>)

lemma ht_Lookup_ok:
  assumes "table_of c S" "\<forall>a \<in> S. keyed c a"
  obtains p where "ht_Lookup key hash c = Some p" "\<forall>a. p = Some a \<longrightarrow> a \<in> S \<and> matches c key hash a"
    "p = None \<longrightarrow> (\<forall>a \<in> S. \<not> matches c key hash a)"
proof -
  obtain i us ws where f: "finds c S key hash i us ws" using FindPointer_ok [OF assms] .
  obtain q where q: "read_slot c (slot_behind (Bucket i) us) = Some q" "chain (next_hash c) q ws" using finds_read [OF f] by blast
  have "ht_Lookup key hash c = Some q" using f q by (simp add: ht_Lookup_def finds_def)
  moreover have "a \<in> S \<and> matches c key hash a" if "q = Some a" for a
    using q(2) f that by (cases ws) (auto simp: finds_def)
  moreover have "\<forall>a \<in> S. \<not> matches c key hash a" if "q = None"
    using q(2) f that by (cases ws) (auto simp: finds_def)
  ultimately show ?thesis using that by blast
qed

lemma table_only_cong:
  assumes "table_only c c'"
  shows "handles c' = handles c" "keyed c' = keyed c" "matches c' = matches c" "bucket len c' = bucket len c" "counters c' = counters c"
  using assms unfolding table_only_def keyed_def [abs_def] matches_def [abs_def] bucket_def [abs_def] by simp_all

lemma two_lists_table_only: "table_only c c' \<Longrightarrow> two_lists c' E l xs l' ys = two_lists c E l xs l' ys"
  unfolding two_lists_def using table_only_cong(1,2) [of c c'] by (simp only: table_only_def)

lemma ht_Remove_ok:
  assumes "table_of c S" "\<forall>a \<in> S. keyed c a"
  obtains p c' where "ht_Remove key hash c = Some (p, c')" "\<forall>a. p = Some a \<longrightarrow> a \<in> S \<and> matches c key hash a"
    "p = None \<longrightarrow> (\<forall>a \<in> S. \<not> matches c key hash a)" "table_of c' (S - set_option p)" "table_only c c'"
proof -
  obtain i us ws where f: "finds c S key hash i us ws" using FindPointer_ok [OF assms] .
  obtain q where q: "read_slot c (slot_behind (Bucket i) us) = Some q" "chain (next_hash c) q ws" using finds_read [OF f] by blast
  show ?thesis
  proof (cases ws)
    case Nil
    then have "ht_Remove key hash c = Some (None, c)" using f q by (simp add: ht_Remove_def finds_def)
    then show ?thesis using that f Nil assms(1) by (auto simp: finds_def table_only_def)
  next
    case (Cons a ws')
    obtain r where r: "next_hash c a = Some r" "chain (next_hash c) r ws'" "q = Some a" using q(2) Cons by auto
    have rs: "read_slot c (NextHash a) = Some r" using r(1) by (simp add: next_hash_def)
    have inS: "set (us @ ws) \<subseteq> S" using f unfolding finds_def by blast
    then have ok: "\<forall>u \<in> set us. handles c u \<noteq> None" using assms(1) by (auto simp: table_of_def)
    obtain c1 where c1: "write_slot (slot_behind (Bucket i) us) r c = Some c1" "links c1 = relink i us r (links c)"
        "ht_length (lc_table c1) = ht_length (lc_table c)" "ht_elems (lc_table c1) = ht_elems (lc_table c)" "table_only c c1"
      using write_slot_behind [OF _ ok] f by (auto simp: finds_def)
    define c' where "c' = c1\<lparr>lc_table := (lc_table c1)\<lparr>ht_elems := ht_elems (lc_table c1) - 1\<rparr>\<rparr>"
    have fr: "next_hash c' = next_hash c1" "handles c' = handles c1" "counters c' = counters c1"
      by (simp_all add: c'_def next_hash_def handles_def counters_def fun_eq_iff)
    have "get_next c' n = get_next c1 n \<and> get_prev c' n = get_prev c1 n" for n by (cases n) (simp_all add: c'_def)
    then have t: "table_only c c'" using c1(5) fr by (simp add: table_only_def fun_eq_iff)
    have rem: "ht_Remove key hash c = Some (Some a, c')"
      using f q(1) rs r(3) c1(1) by (simp add: ht_Remove_def finds_def c'_def del: read_slot.simps write_slot.simps)
    have S: "a \<in> S" "finite S" using inS Cons assms(1) by (auto simp: table_of_def)
    have re: "(next_hash c', ht_list (lc_table c')) = relink i us r (next_hash c, ht_list (lc_table c))"
      using c1(2) fr(1) by (simp add: links_def c'_def)
    have bk: "\<forall>a \<in> set ws'. bucket (ht_length (lc_table c)) c a = i \<and> a \<notin> S - set ws" "S - {a} = S - set ws \<union> set ws'"
      using finds_chain(3,4) [OF f] Cons S(1) by auto
    have dist: "distinct (us @ ws')" using finds_chain(3) [OF f] Cons by simp
    have h: "table_holds (next_hash c') (ht_list (lc_table c')) (bucket (ht_length (lc_table c)) c) (S - {a})"
        "length (ht_list (lc_table c')) = length (ht_list (lc_table c))"
      using table_holds_relink [OF table_of_holds [OF assms(1)] finds_chain(1-4) [OF f] r(2) dist bk re] .
    have "ht_elems (lc_table c') = of_nat (card (S - {a}))"
      using S assms(1) c1(4) card_Suc_Diff1 [OF S(2,1)]
      by (auto simp: table_of_def c'_def)
    moreover have len: "ht_length (lc_table c') = ht_length (lc_table c)" by (simp add: c'_def c1(3))
    ultimately have "table_of c' (S - {a})"
      using assms(1) h len unfolding table_of_def by (simp add: table_only_cong [OF t])
    then show ?thesis using that [OF rem] f Cons inS t by (auto simp: finds_def)
  qed
qed

section \<open>Growing\<close>

lemma grow_ok:
  assumes "unat elems \<le> 2 ^ 31" "k \<le> 31"
  obtains n where "grow elems (2 ^ k) = Some n" "elems \<le> n" "0 < n"
proof -
  have "\<exists>n. grow elems (2 ^ k) = Some n \<and> elems \<le> n \<and> 0 < n"
    using assms(2)
  proof (induction "31 - k" arbitrary: k)
    case 0
    then have k: "k = 31" by simp
    have "elems \<le> 2 ^ k" using assms(1) unfolding k by (simp add: word_le_nat_alt)
    then show ?case unfolding k by (subst grow.simps) (simp add: not_less [symmetric])
  next
    case (Suc d)
    then have k: "d = 31 - Suc k" "Suc k \<le> 31" by simp_all
    show ?case
    proof (cases "2 ^ k < elems")
      case True
      then have "grow elems (2 ^ k) = grow elems (2 ^ Suc k)" by (subst grow.simps) (simp add: mult.commute)
      then show ?thesis using Suc(1) [OF k] by simp
    next
      case False
      have "0 < (2 :: u32) ^ k" using k by (simp add: word_gt_0)
      then show ?thesis using False by (subst grow.simps) auto
    qed
  qed
  then show ?thesis using that by blast
qed

lemma table_holds_insert:
  assumes "table_holds nh l idx S" "h \<notin> S" "idx h < length l"
  shows "table_holds (nh(h := Some (l ! idx h))) (l[idx h := Some h]) idx (insert h S)"
  unfolding table_holds_def
proof (intro allI impI)
  fix j assume "j < length (l[idx h := Some h])"
  then have j: "j < length l" by simp
  obtain xs where xs: "chain nh (l ! j) xs" "distinct xs" "set xs = {a \<in> S. idx a = j}"
    using assms(1) j by (auto simp: table_holds_def)
  have "\<forall>x \<in> set xs. (nh(h := Some (l ! idx h))) x = nh x" using xs(3) assms(2) by auto
  then have c: "chain (nh(h := Some (l ! idx h))) (l ! j) xs" using xs(1) chain_cong by blast
  show "\<exists>xs. chain (nh(h := Some (l ! idx h))) (l[idx h := Some h] ! j) xs \<and> distinct xs \<and>
      set xs = {a \<in> insert h S. idx a = j}"
  proof (cases "j = idx h")
    case True
    then have "chain (nh(h := Some (l ! idx h))) (l[idx h := Some h] ! j) (h # xs)" using c j by simp
    moreover have "distinct (h # xs)" "set (h # xs) = {a \<in> insert h S. idx a = j}" using xs assms(2) True by auto
    ultimately show ?thesis by blast
  next
    case False
    then have "l[idx h := Some h] ! j = l ! j" "set xs = {a \<in> insert h S. idx a = j}" using xs(3) by auto
    then show ?thesis using c xs(2) by auto
  qed
qed

lemma move_bucket_ok:
  assumes "chain (next_hash c) p xs" "distinct xs" "\<forall>x \<in> set xs. handles c x \<noteq> None" "length nl = unat n" "0 < n"
    and "table_holds (next_hash c) nl (bucket n c) M" "set xs \<inter> M = {}"
  shows "\<exists>nl' c'. move_bucket p nl count c = Some (nl', count + of_nat (length xs), c') \<and> length nl' = length nl \<and>
    table_holds (next_hash c') nl' (bucket n c) (M \<union> set xs) \<and> table_only c c' \<and> lc_table c' = lc_table c \<and>
    (\<forall>a. a \<notin> set xs \<longrightarrow> next_hash c' a = next_hash c a)"
  using assms
proof (induction xs arbitrary: p nl count c M)
  case Nil
  then show ?case by (subst move_bucket.simps) (simp add: table_only_def)
next
  case (Cons h xs)
  obtain q where q: "next_hash c h = Some q" "chain (next_hash c) q xs" "p = Some h" using Cons.prems(1) by auto
  obtain e where e: "lc_store c h = Some e" "h_next_hash e = Some q" using q(1) by (auto simp: next_hash_def bind_eq_Some_conv)
  have idx: "bucket n c h = unat (h_hash e AND (of_nat (length nl) - 1))"
    using Cons.prems(4) by (simp add: bucket_def handles_def e)
  have less: "bucket n c h < length nl" using and_less [OF Cons.prems(5)] Cons.prems(4) unfolding idx by simp
  let ?v = "nl ! bucket n c h"
  have "handles c h \<noteq> None" using Cons.prems(3) by simp
  then obtain c1 where c1: "write_slot (NextHash h) ?v c = Some c1" "next_hash c1 = (next_hash c)(h := Some ?v)"
      "lc_table c1 = lc_table c" "table_only c c1" by (rule write_next_hash)
  let ?nl = "nl[bucket n c h := Some h]"
  have b: "bucket n c1 = bucket n c" "handles c1 = handles c" using table_only_cong [OF c1(4)] by simp_all
  have step: "move_bucket p nl count c = move_bucket q ?nl (count + 1) c1"
    using less c1(1) idx by (subst move_bucket.simps) (simp add: q(3) e Let_def)
  have "h \<notin> M" using Cons.prems(7) by auto
  then have h: "table_holds (next_hash c1) ?nl (bucket n c1) (insert h M)"
    unfolding c1(2) b using table_holds_insert [OF Cons.prems(6) _ less] by blast
  have ch: "chain (next_hash c1) q xs" using q(2) chain_cong [of xs "next_hash c1" "next_hash c"] Cons.prems(2) c1(2) by auto
  obtain nl' c' where r: "move_bucket q ?nl (count + 1) c1 = Some (nl', count + 1 + of_nat (length xs), c')" "length nl' = length ?nl"
      "table_holds (next_hash c') nl' (bucket n c1) (insert h M \<union> set xs)" "table_only c1 c'" "lc_table c' = lc_table c1"
      "\<forall>a. a \<notin> set xs \<longrightarrow> next_hash c' a = next_hash c1 a"
    using Cons.IH [where count = "count + 1", OF ch _ _ _ Cons.prems(5) h] Cons.prems(2,3,4,7) b(2) by auto
  have "insert h M \<union> set xs = M \<union> set (h # xs)" by auto
  moreover have "\<forall>a. a \<notin> set (h # xs) \<longrightarrow> next_hash c' a = next_hash c a" using r(6) c1(2) by simp
  moreover have "table_only c c'" using c1(4) r(4) by (rule table_only_trans)
  ultimately show ?case using step r c1(3) b(1) by (auto simp: add.assoc add.commute)
qed

lemma move_buckets_ok:
  assumes "list_all2 (chain (next_hash c)) ps xss" "distinct (concat xss)" "\<forall>x \<in> set (concat xss). handles c x \<noteq> None"
    and "length nl = unat n" "0 < n" "table_holds (next_hash c) nl (bucket n c) M" "set (concat xss) \<inter> M = {}"
  shows "\<exists>nl' c'. move_buckets ps nl count c = Some (nl', count + of_nat (length (concat xss)), c') \<and> length nl' = length nl \<and>
    table_holds (next_hash c') nl' (bucket n c) (M \<union> set (concat xss)) \<and> table_only c c' \<and> lc_table c' = lc_table c"
  using assms
proof (induction ps arbitrary: xss nl count c M)
  case Nil
  then show ?case by (simp add: table_only_def)
next
  case (Cons p ps)
  obtain xs xss' where xss: "xss = xs # xss'" "chain (next_hash c) p xs" "list_all2 (chain (next_hash c)) ps xss'"
    using Cons.prems(1) by (cases xss) auto
  have dis: "set xs \<inter> set (concat xss') = {}" "distinct xs" "distinct (concat xss')" using Cons.prems(2) unfolding xss(1) by auto
  obtain nl1 c1 where c1: "move_bucket p nl count c = Some (nl1, count + of_nat (length xs), c1)" "length nl1 = length nl"
      "table_holds (next_hash c1) nl1 (bucket n c) (M \<union> set xs)" "table_only c c1" "lc_table c1 = lc_table c"
      "\<forall>a. a \<notin> set xs \<longrightarrow> next_hash c1 a = next_hash c a"
    using move_bucket_ok [OF xss(2) dis(2) _ Cons.prems(4,5,6), of count] Cons.prems(3,7) unfolding xss(1) by fastforce
  have b: "bucket n c1 = bucket n c" "handles c1 = handles c" using table_only_cong [OF c1(4)] by simp_all
  have "list_all2 (chain (next_hash c1)) ps xss'"
  proof (rule list.rel_mono_strong [OF xss(3)], goal_cases)
    case (1 p ys)
    then have "\<forall>x \<in> set ys. next_hash c1 x = next_hash c x" using c1(6) dis(1) by (auto simp: disjoint_iff)
    then show ?case using 1 chain_cong by blast
  qed
  moreover have "set (concat xss') \<inter> (M \<union> set xs) = {}" using dis(1) Cons.prems(7) unfolding xss(1) by auto
  ultimately obtain nl' c' where r: "move_buckets ps nl1 (count + of_nat (length xs)) c1 =
        Some (nl', count + of_nat (length xs) + of_nat (length (concat xss')), c')" "length nl' = length nl1"
      "table_holds (next_hash c') nl' (bucket n c1) (M \<union> set xs \<union> set (concat xss'))" "table_only c1 c'" "lc_table c' = lc_table c1"
    using Cons.IH [of c1 xss' nl1 "M \<union> set xs" "count + of_nat (length xs)"] c1(2,3) b Cons.prems(3,4,5) dis
    unfolding xss(1) by auto
  have "table_only c c'" using c1(4) r(4) by (rule table_only_trans)
  then show ?case using c1 r b(1) by (auto simp: xss(1) add.assoc Un_assoc)
qed

lemma Resize_ok:
  assumes "finite S" "card S \<le> 2 ^ 31" "\<forall>a \<in> S. handles c a \<noteq> None" "ht_elems (lc_table c) = of_nat (card S)"
    and "length (ht_list (lc_table c)) = unat (ht_length (lc_table c))"
    and "table_holds (next_hash c) (ht_list (lc_table c)) (bucket (ht_length (lc_table c)) c) S"
    and "\<forall>a \<in> S. bucket (ht_length (lc_table c)) c a < length (ht_list (lc_table c))"
  obtains c' where "Resize c = Some c'" "table_of c' S" "table_only c c'"
proof -
  let ?l = "ht_list (lc_table c)" let ?idx = "bucket (ht_length (lc_table c)) c"
  have el: "unat (ht_elems (lc_table c)) \<le> 2 ^ 31" using assms(2) unfolding assms(4) by (simp add: unat_of_nat)
  obtain n where n: "grow (ht_elems (lc_table c)) 4 = Some n" "0 < n"
    using grow_ok [OF el, of 2] by auto
  obtain f where f: "\<And>i. i < length ?l \<Longrightarrow> chain (next_hash c) (?l ! i) (f i) \<and> distinct (f i) \<and> set (f i) = {a \<in> S. ?idx a = i}"
    using assms(6) unfolding table_holds_def by metis
  define xss where "xss = map f [0..<length ?l]"
  have all2: "list_all2 (chain (next_hash c)) ?l xss"
    using f by (auto simp: list_all2_conv_all_nth xss_def)
  have set: "set (concat xss) = S" using f assms(7) by (fastforce simp: xss_def)
  have "distinct (concat (map f [0..<m]))" if "m \<le> length ?l" for m
    using that
  proof (induction m)
    case (Suc m)
    have "set (f m) \<inter> set (concat (map f [0..<m])) = {}" using f Suc.prems by fastforce
    then show ?case using Suc f by auto
  qed simp
  then have dist: "distinct (concat xss)" by (simp add: xss_def)
  then have len: "length (concat xss) = card S" using distinct_card set by metis
  have empty: "table_holds (next_hash c) (replicate (unat n) None) (bucket n c) {}" by (simp add: table_holds_def)
  obtain nl' c' where c': "move_buckets ?l (replicate (unat n) None) 0 c = Some (nl', 0 + of_nat (length (concat xss)), c')"
      "length nl' = length (replicate (unat n) None)" "table_holds (next_hash c') nl' (bucket n c) ({} \<union> set (concat xss))"
      "table_only c c'" "lc_table c' = lc_table c"
    using move_buckets_ok [where count = 0, OF all2 dist _ length_replicate n(2) empty] assms(3) set by auto
  let ?c = "c'\<lparr>lc_table := (lc_table c')\<lparr>ht_list := nl', ht_length := n\<rparr>\<rparr>"
  have fr: "next_hash ?c = next_hash c'" "handles ?c = handles c'" "counters ?c = counters c'"
    by (simp_all add: next_hash_def handles_def counters_def fun_eq_iff)
  have "get_next ?c m = get_next c' m \<and> get_prev ?c m = get_prev c' m" for m by (cases m) simp_all
  then have t: "table_only c ?c" using c'(4) fr by (simp add: table_only_def fun_eq_iff)
  have "Resize c = Some ?c" using n(1) c'(1,5) len assms(4,5) by (simp add: Resize_def)
  moreover have "table_of ?c S"
    using c'(2,3,5) set n(2) assms(1,3,4) fr(1) unfolding table_of_def table_only_cong [OF t] by simp
  ultimately show ?thesis using that t by blast
qed

lemma ht_Insert_ok:
  assumes "table_of c S" "\<forall>a \<in> S. keyed c a" "keyed c h" "handles c h = Some e" "h \<notin> S" "card S < 2 ^ 31"
  obtains p c' where "ht_Insert h c = Some (p, c')" "\<forall>a. p = Some a \<longrightarrow> a \<in> S \<and> matches c (h_key_data e) (h_hash e) a"
    "p = None \<longrightarrow> (\<forall>a \<in> S. \<not> matches c (h_key_data e) (h_hash e) a)" "table_of c' (insert h (S - set_option p))" "table_only c c'"
proof -
  obtain i us ws where f: "finds c S (h_key_data e) (h_hash e) i us ws" using FindPointer_ok [OF assms(1,2)] .
  obtain q where q: "read_slot c (slot_behind (Bucket i) us) = Some q" "chain (next_hash c) q ws" using finds_read [OF f] by blast
  obtain e' where e': "lc_store c h = Some e'" "e = bare e'" using assms(4) by (auto simp: handles_def)
  have k: "h_key h e' = Some (h_key_data e)" using assms(3) by (auto simp: keyed_def h_key_def e')
  let ?idx = "bucket (ht_length (lc_table c)) c"
  have idx: "?idx h = i" using f by (simp add: bucket_def assms(4) finds_def)
  have inS: "set (us @ ws) \<subseteq> S" using f unfolding finds_def by blast
  have fin: "finite S" using assms(1) by (simp add: table_of_def)
  obtain r where r: "(case q of None \<Rightarrow> Some None | Some a \<Rightarrow> read_slot c (NextHash a)) = Some r" "chain (next_hash c) r (tl ws)"
    using q(2) by (cases ws) (auto simp: next_hash_def)
  have "handles c h \<noteq> None" using assms(4) by simp
  then obtain c1 where c1: "write_slot (NextHash h) r c = Some c1" "next_hash c1 = (next_hash c)(h := Some r)"
      "lc_table c1 = lc_table c" "table_only c c1" by (rule write_next_hash)
  have same: "\<forall>a \<in> S. next_hash c1 a = next_hash c a" using c1(2) assms(5) by auto
  have cong: "chain (next_hash c1) p xs = chain (next_hash c) p xs" if "set xs \<subseteq> S" for p xs
    by (rule chain_cong) (use that same in auto)
  have "set (tl ws) \<subseteq> S" using inS by (cases ws) auto
  then have new: "chain (next_hash c1) (Some h) (h # tl ws)" using r(2) cong c1(2) by simp
  have "\<forall>u \<in> set us. handles c1 u \<noteq> None" using assms(1) inS table_only_cong [OF c1(4)] by (auto simp: table_of_def)
  then obtain c2 where c2: "write_slot (slot_behind (Bucket i) us) (Some h) c1 = Some c2" "links c2 = relink i us (Some h) (links c1)"
      "ht_length (lc_table c2) = ht_length (lc_table c1)" "ht_elems (lc_table c2) = ht_elems (lc_table c1)" "table_only c1 c2"
    using write_slot_behind [of i c1 us] finds_chain(1) [OF f] c1(3) by auto
  have t: "table_only c c2" using c1(4) c2(5) by (rule table_only_trans)
  have re: "(next_hash c2, ht_list (lc_table c2)) = relink i us (Some h) (next_hash c1, ht_list (lc_table c))"
    using c2(2) c1(3) by (simp add: links_def)
  have ws: "set (h # tl ws) = insert h (set ws - set_option q)" "set_option q \<subseteq> set ws" "q = None \<longleftrightarrow> ws = []"
    using q(2) finds_chain(3) [OF f] by (cases ws; auto)+
  have dist: "distinct (us @ h # tl ws)" using finds_chain(3) [OF f] inS assms(5) by (cases ws) auto
  have bk: "\<forall>a \<in> set (h # tl ws). ?idx a = i \<and> a \<notin> S - set ws" "insert h (S - set_option q) = S - set ws \<union> set (h # tl ws)"
    using finds_chain(3,4) [OF f] idx assms(5) ws(1,2) inS by auto
  have hS: "table_holds (next_hash c1) (ht_list (lc_table c)) ?idx S"
    using table_of_holds [OF assms(1)] table_holds_cong [OF same] by blast
  have ch: "chain (next_hash c1) (ht_list (lc_table c) ! i) (us @ ws)" using finds_chain(2) [OF f] cong [OF inS] by blast
  have h: "table_holds (next_hash c2) (ht_list (lc_table c2)) ?idx (insert h (S - set_option q))"
      "length (ht_list (lc_table c2)) = length (ht_list (lc_table c))"
    using table_holds_relink [OF hS finds_chain(1) [OF f] ch finds_chain(3,4) [OF f] new dist bk re] .
  have step: "ht_Insert h c = (if q = None then
      (let c = c2\<lparr>lc_table := (lc_table c2)\<lparr>ht_elems := ht_elems (lc_table c2) + 1\<rparr>\<rparr> in
        if ht_elems (lc_table c) > ht_length (lc_table c) then map_option (Pair None) (Resize c) else Some (None, c))
      else Some (q, c2))"
    using f q(1) r(1) c1(1) c2(1) k unfolding finds_def
    by (simp add: ht_Insert_def e' del: read_slot.simps write_slot.simps)
  have m: "\<forall>a. q = Some a \<longrightarrow> a \<in> S \<and> matches c (h_key_data e) (h_hash e) a"
      "q = None \<longrightarrow> (\<forall>a \<in> S. \<not> matches c (h_key_data e) (h_hash e) a)"
    using f q(2) inS by (cases ws; auto simp: finds_def)+
  show ?thesis
  proof (cases q)
    case (Some a)
    have "a \<in> S" using m(1) Some by simp
    then have "card (insert h (S - {a})) = card S" using fin assms(5) card_Suc_Diff1 by fastforce
    then have "table_of c2 (insert h (S - set_option q))"
      using h assms(1,4) c1(3) c2(3,4) Some unfolding table_of_def table_only_cong [OF t] by auto
    then show ?thesis using that step m t Some by simp
  next
    case None
    define c3 where "c3 = c2\<lparr>lc_table := (lc_table c2)\<lparr>ht_elems := ht_elems (lc_table c2) + 1\<rparr>\<rparr>"
    have fr: "next_hash c3 = next_hash c2" "handles c3 = handles c2" "counters c3 = counters c2"
      by (simp_all add: c3_def next_hash_def handles_def counters_def fun_eq_iff)
    have "get_next c3 m = get_next c2 m \<and> get_prev c3 m = get_prev c2 m" for m by (cases m) (simp_all add: c3_def)
    then have t3: "table_only c c3" using t fr by (simp add: table_only_def fun_eq_iff)
    have tab: "ht_list (lc_table c3) = ht_list (lc_table c2)" "ht_length (lc_table c3) = ht_length (lc_table c)"
        "ht_elems (lc_table c3) = of_nat (card (insert h S))"
      using c1(3) c2(3,4) assms(1,5) fin by (simp_all add: c3_def table_of_def)
    have ok: "\<forall>a \<in> insert h S. handles c a \<noteq> None" using assms(1,4) by (simp add: table_of_def)
    have h3: "table_holds (next_hash c3) (ht_list (lc_table c3)) ?idx (insert h S)" using h(1) None fr(1) tab(1) by simp
    have len: "length (ht_list (lc_table c3)) = unat (ht_length (lc_table c3))" "0 < ht_length (lc_table c3)"
      using assms(1) h(2) tab(1,2) by (simp_all add: table_of_def)
    have m': "\<forall>a \<in> S. \<not> matches c (h_key_data e) (h_hash e) a" using m(2) None by simp
    show ?thesis
    proof (cases "ht_elems (lc_table c3) > ht_length (lc_table c3)")
      case True
      have "bucket (ht_length (lc_table c3)) c3 a < length (ht_list (lc_table c3))" for a
        unfolding len(1) using and_less [OF len(2)] len(2) by (simp add: bucket_def word_less_nat_alt split: option.split)
      then obtain c' where "Resize c3 = Some c'" "table_of c' (insert h S)" "table_only c3 c'"
        using Resize_ok [of "insert h S" c3] fin assms(5,6) ok tab(3) len(1) h3 t3
        by (auto simp: table_only_cong [OF t3] tab(2))
      then show ?thesis using that [of None c'] step None True m' table_only_trans [OF t3, of c'] by (simp add: Let_def c3_def [symmetric])
    next
      case False
      have "table_of c3 (insert h S)"
        using fin ok tab len h3 unfolding table_of_def table_only_cong [OF t3] by simp
      then show ?thesis using that [of None c3] step None False m' t3 by (simp add: Let_def c3_def [symmetric])
    qed
  qed
qed

end
