(* ===== verification/CacheProps.thy ===== *)
theory CacheProps
  imports CacheTable
begin

text \<open>
  The LRU cache refines a specification without pointers: entries, the order of those that no
  client uses, and the rules of eviction.
\<close>

section \<open>The specification\<close>

text \<open>\<open>e_clients\<close> counts the handles that clients hold.\<close>

record ('v, 'd) entry =
  e_key :: "u8 list"
  e_hash :: u32
  e_value :: 'v
  e_deleter :: 'd
  e_charge :: u64
  e_clients :: nat

text \<open>\<open>s_lru\<close> are the cached entries without a client, the oldest first, \<open>s_used\<close> those with one.\<close>

record ('v, 'd) lru_spec =
  s_capacity :: u64
  s_lru :: "nat list"
  s_used :: "nat list"
  s_entries :: "nat \<Rightarrow> ('v, 'd) entry option"
  s_deleted :: "('d \<times> u8 list \<times> 'v) list"

definition s_new :: "u64 \<Rightarrow> ('v, 'd) lru_spec" where
  "s_new capacity = \<lparr>s_capacity = capacity, s_lru = [], s_used = [], s_entries = Map.empty, s_deleted = []\<rparr>"

definition cached :: "('v, 'd) lru_spec \<Rightarrow> nat set" where
  "cached A = set (s_lru A @ s_used A)"

definition charge_at :: "('v, 'd) lru_spec \<Rightarrow> nat \<Rightarrow> u64" where
  "charge_at A a = (case s_entries A a of Some e \<Rightarrow> e_charge e | None \<Rightarrow> 0)"

definition s_usage :: "('v, 'd) lru_spec \<Rightarrow> u64" where
  "s_usage A = sum_list (map (charge_at A) (s_lru A @ s_used A))"

definition has_key :: "('v, 'd) lru_spec \<Rightarrow> u8 list \<Rightarrow> u32 \<Rightarrow> nat \<Rightarrow> bool" where
  "has_key A key hash a = (case s_entries A a of Some e \<Rightarrow> e_key e = key \<and> e_hash e = hash | None \<Rightarrow> False)"

definition s_find :: "u8 list \<Rightarrow> u32 \<Rightarrow> ('v, 'd) lru_spec \<Rightarrow> nat option" where
  "s_find key hash A = List.find (has_key A key hash) (s_lru A @ s_used A)"

definition s_delete :: "nat \<Rightarrow> ('v, 'd) entry \<Rightarrow> ('v, 'd) lru_spec \<Rightarrow> ('v, 'd) lru_spec" where
  "s_delete a e A = A\<lparr>s_entries := (s_entries A)(a := None), s_deleted := s_deleted A @ [(e_deleter e, e_key e, e_value e)]\<rparr>"

text \<open>An entry leaves the cache; it is deleted unless a client has a handle.\<close>

definition s_drop :: "nat \<Rightarrow> ('v, 'd) lru_spec \<Rightarrow> ('v, 'd) lru_spec" where
  "s_drop a A = (case s_entries A a of None \<Rightarrow> A | Some e \<Rightarrow>
     let A = A\<lparr>s_lru := removeAll a (s_lru A), s_used := removeAll a (s_used A)\<rparr>
     in if e_clients e = 0 then s_delete a e A else A)"

primrec s_evict :: "(('v, 'd) lru_spec \<Rightarrow> bool) \<Rightarrow> nat list \<Rightarrow> ('v, 'd) lru_spec \<Rightarrow> ('v, 'd) lru_spec" where
  "s_evict goes_on [] A = A"
| "s_evict goes_on (a # as) A = (if goes_on A then s_evict goes_on as (s_drop a A) else A)"

definition s_lookup :: "u8 list \<Rightarrow> u32 \<Rightarrow> ('v, 'd) lru_spec \<Rightarrow> nat option \<times> ('v, 'd) lru_spec" where
  "s_lookup key hash A = (case s_find key hash A of None \<Rightarrow> (None, A) | Some a \<Rightarrow>
     (Some a, A\<lparr>s_lru := removeAll a (s_lru A), s_used := (if a \<in> set (s_lru A) then s_used A @ [a] else s_used A),
        s_entries := (s_entries A)(a := map_option (\<lambda>e. e\<lparr>e_clients := e_clients e + 1\<rparr>) (s_entries A a))\<rparr>))"

text \<open>A client may only release a handle that it holds.\<close>

definition s_release :: "nat \<Rightarrow> ('v, 'd) lru_spec \<Rightarrow> ('v, 'd) lru_spec option" where
  "s_release a A = (case s_entries A a of None \<Rightarrow> None | Some e \<Rightarrow>
     if e_clients e = 0 then None
     else if e_clients e > 1 then Some (A\<lparr>s_entries := (s_entries A)(a \<mapsto> e\<lparr>e_clients := e_clients e - 1\<rparr>)\<rparr>)
     else if a \<in> cached A then
       Some (A\<lparr>s_lru := s_lru A @ [a], s_used := removeAll a (s_used A), s_entries := (s_entries A)(a \<mapsto> e\<lparr>e_clients := 0\<rparr>)\<rparr>)
     else Some (s_delete a e A))"

text \<open>A new entry replaces one with the same key, and the oldest entries go until the rest fits.\<close>

definition s_insert :: "nat \<Rightarrow> u8 list \<Rightarrow> u32 \<Rightarrow> 'v \<Rightarrow> u64 \<Rightarrow> 'd \<Rightarrow> ('v, 'd) lru_spec \<Rightarrow> ('v, 'd) lru_spec option" where
  "s_insert a key hash val charge deleter A =
     (if s_entries A a \<noteq> None then None
      else
        let e = \<lparr>e_key = key, e_hash = hash, e_value = val, e_deleter = deleter, e_charge = charge, e_clients = 1\<rparr>;
            new = A\<lparr>s_used := s_used A @ [a], s_entries := (s_entries A)(a \<mapsto> e)\<rparr>;
            new = (case s_find key hash A of None \<Rightarrow> new | Some b \<Rightarrow> s_drop b new)
        in Some (s_evict (\<lambda>A. s_usage A > s_capacity A) (s_lru new) new))"

definition s_erase :: "u8 list \<Rightarrow> u32 \<Rightarrow> ('v, 'd) lru_spec \<Rightarrow> ('v, 'd) lru_spec" where
  "s_erase key hash A = (case s_find key hash A of None \<Rightarrow> A | Some b \<Rightarrow> s_drop b A)"

definition s_prune :: "('v, 'd) lru_spec \<Rightarrow> ('v, 'd) lru_spec" where
  "s_prune A = s_evict (\<lambda>_. True) (s_lru A) A"

section \<open>Sequences of operations\<close>

datatype ('v, 'd) cache_op =
    InsertOp nat "u8 list" u32 'v u64 'd
  | LookupOp "u8 list" u32
  | ReleaseOp nat
  | EraseOp "u8 list" u32
  | PruneOp

fun run_op :: "('v, 'd) cache_op \<Rightarrow> ('v, 'd) lru_cache \<Rightarrow> (nat option \<times> ('v, 'd) lru_cache) option" where
  "run_op (InsertOp a key hash val charge deleter) c = map_option (\<lambda>(a, c). (Some a, c)) (lc_Insert a key hash val charge deleter c)"
| "run_op (LookupOp key hash) c = lc_Lookup key hash c"
| "run_op (ReleaseOp a) c = map_option (Pair None) (lc_Release a c)"
| "run_op (EraseOp key hash) c = map_option (Pair None) (lc_Erase key hash c)"
| "run_op PruneOp c = map_option (Pair None) (lc_Prune c)"

fun spec_op :: "('v, 'd) cache_op \<Rightarrow> ('v, 'd) lru_spec \<Rightarrow> (nat option \<times> ('v, 'd) lru_spec) option" where
  "spec_op (InsertOp a key hash val charge deleter) A = map_option (Pair (Some a)) (s_insert a key hash val charge deleter A)"
| "spec_op (LookupOp key hash) A = Some (s_lookup key hash A)"
| "spec_op (ReleaseOp a) A = map_option (Pair None) (s_release a A)"
| "spec_op (EraseOp key hash) A = Some (None, s_erase key hash A)"
| "spec_op PruneOp A = Some (None, s_prune A)"

text \<open>The results of a sequence of operations, and the state behind it.\<close>

primrec run :: "('o \<Rightarrow> 's \<Rightarrow> ('r \<times> 's) option) \<Rightarrow> 'o list \<Rightarrow> 's \<Rightarrow> ('r list \<times> 's) option" where
  "run f [] s = Some ([], s)"
| "run f (x # xs) s = Option.bind (f x s) (\<lambda>(r, s). map_option (\<lambda>(rs, s). (r # rs, s)) (run f xs s))"

section \<open>The relation\<close>

definition agrees :: "bool \<Rightarrow> ('v, 'd) lru_handle \<Rightarrow> ('v, 'd) entry \<Rightarrow> bool" where
  "agrees inc h e \<longleftrightarrow> h_key_data h = e_key e \<and> h_hash h = e_hash e \<and> h_value h = e_value e \<and> h_deleter h = e_deleter e \<and>
     h_charge h = e_charge e \<and> h_in_cache h = inc \<and> unat (h_refs h) = e_clients e + (if inc then 1 else 0)"

definition stored :: "('v, 'd) lru_cache \<Rightarrow> nat set \<Rightarrow> (nat \<Rightarrow> ('v, 'd) entry option) \<Rightarrow> bool" where
  "stored c C es \<longleftrightarrow> (\<forall>a. rel_option (agrees (a \<in> C)) (handles c a) (es a))"

text \<open>The lists, the table of the handles \<open>S\<close>, and the entries.\<close>

definition cstate ::
    "('v, 'd) lru_cache \<Rightarrow> nat list \<Rightarrow> nat list \<Rightarrow> nat set \<Rightarrow> (nat \<Rightarrow> ('v, 'd) entry option) \<Rightarrow> bool" where
  "cstate c xs ys S es \<longleftrightarrow> two_lists c {} Lru xs InUse ys \<and> table_of c S \<and> stored c (set (xs @ ys)) es"

text \<open>What changes only the data of a handle.\<close>

definition data_only :: "('v, 'd) lru_cache \<Rightarrow> ('v, 'd) lru_cache \<Rightarrow> bool" where
  "data_only c c' \<longleftrightarrow> get_next c' = get_next c \<and> get_prev c' = get_prev c \<and> next_hash c' = next_hash c \<and> lc_table c' = lc_table c"

lemma upd_handle_ok:
  assumes "lc_store c a = Some h" "\<And>h. bare (f h) = f (bare h)"
    and "h_next (f h) = h_next h" "h_prev (f h) = h_prev h" "h_next_hash (f h) = h_next_hash h"
  obtains c' where "upd_handle a f c = Some c'" "data_only c c'" "handles c' = (handles c)(a := Some (f (bare h)))"
    "counters c' = counters c" "lc_store c' a = Some (f h)"
proof -
  let ?c = "c\<lparr>lc_store := (lc_store c)(a \<mapsto> f h)\<rparr>"
  have "get_next ?c n = get_next c n \<and> get_prev ?c n = get_prev c n" for n by (cases n) (simp_all add: assms)
  moreover have "next_hash ?c = next_hash c" by (auto simp: next_hash_def assms)
  moreover have "handles ?c = (handles c)(a := Some (f (bare h)))" by (auto simp: handles_def assms)
  ultimately show ?thesis using that [of ?c] assms(1)
    by (simp add: upd_handle_def data_only_def fun_eq_iff counters_def)
qed

lemma stored_Some:
  assumes "stored c C es" "es a = Some e"
  obtains h where "lc_store c a = Some h" "handles c a = Some (bare h)" "agrees (a \<in> C) (bare h) e"
proof -
  have "rel_option (agrees (a \<in> C)) (handles c a) (es a)" using assms(1) by (simp add: stored_def)
  then obtain h where "lc_store c a = Some h" "agrees (a \<in> C) (bare h) e"
    using assms(2) by (auto simp: handles_def option_rel_Some2)
  then show ?thesis using that by (simp add: handles_def)
qed

text \<open>An update that leaves a handle where it is.\<close>

lemma two_lists_data:
  assumes "data_only c c'" "handles c' = (handles c)(a := Some h)" "handles c a \<noteq> None" "two_lists c E l xs l' ys"
  shows "two_lists c' E l xs l' ys"
  by (rule two_lists_cong [OF _ _ _ _ _ assms(4), of "{}"]) (use assms(1-3) in \<open>auto simp: data_only_def\<close>)

lemma table_of_data:
  assumes "data_only c c'" "handles c' = (handles c)(a := Some h')" "handles c a = Some h" "h_hash h' = h_hash h" "table_of c S"
  shows "table_of c' S"
  by (rule table_of_cong [OF _ _ _ assms(5)]) (use assms(1-4) in \<open>auto simp: data_only_def\<close>)

lemma stored_upd:
  assumes "stored c C es" "handles c' = (handles c)(a := Some h)" "agrees (a \<in> C') h e" "C' - {a} = C - {a}"
  shows "stored c' C' (es(a \<mapsto> e))"
  unfolding stored_def
proof
  fix x show "rel_option (agrees (x \<in> C')) (handles c' x) ((es(a \<mapsto> e)) x)"
  proof (cases "x = a")
    case False
    then have "(x \<in> C') = (x \<in> C)" using assms(4) by blast
    then show ?thesis using assms(1,2) False by (simp add: stored_def)
  qed (simp add: assms)
qed
lemma cstate_upd:
  assumes "cstate c xs ys S es" "lc_store c a = Some h" "\<And>h. bare (f h) = f (bare h)"
    and "h_next (f h) = h_next h" "h_prev (f h) = h_prev h" "h_next_hash (f h) = h_next_hash h" "h_hash (f (bare h)) = h_hash h"
    and "agrees (a \<in> set (xs @ ys)) (f (bare h)) e"
  obtains c' where "upd_handle a f c = Some c'" "cstate c' xs ys S (es(a \<mapsto> e))" "counters c' = counters c" "lc_store c' a = Some (f h)"
proof -
  obtain c' where c': "upd_handle a f c = Some c'" "data_only c c'" "handles c' = (handles c)(a := Some (f (bare h)))"
      "counters c' = counters c" "lc_store c' a = Some (f h)"
    using upd_handle_ok [OF assms(2-6)] .
  have h: "handles c a = Some (bare h)" by (simp add: handles_def assms(2))
  have "cstate c' xs ys S (es(a \<mapsto> e))"
    using two_lists_data [OF c'(2,3)] table_of_data [OF c'(2,3) h] stored_upd [OF _ c'(3) assms(8)] assms(1,7) h
    by (auto simp: cstate_def)
  then show ?thesis using that c' by blast
qed

lemma stored_links_only: "links_only c c' \<Longrightarrow> stored c' C es = stored c C es"
  by (simp add: stored_def links_only_def)

lemma counters_links_only: "links_only c c' \<Longrightarrow> counters c' = counters c"
  by (simp add: links_only_def)

lemma cstate_used:
  assumes "cstate c (us @ a # vs) ys S es"
  obtains c' where "Option.bind (LRU_Remove (Entry a) c) (LRU_Append InUse (Entry a)) = Some c'"
    "cstate c' (us @ vs) (ys @ [a]) S es" "counters c' = counters c"
proof -
  obtain c' where c': "Option.bind (LRU_Remove (Entry a) c) (LRU_Append InUse (Entry a)) = Some c'"
      "two_lists c' {} Lru (us @ vs) InUse (ys @ [a])" "links_only c c'"
    using two_lists_move [of c "{}" Lru us a vs InUse ys] assms unfolding cstate_def by blast
  have "set ((us @ a # vs) @ ys) = set ((us @ vs) @ ys @ [a])" by auto
  then show ?thesis using that c' assms table_of_links_only stored_links_only counters_links_only
    unfolding cstate_def by metis
qed

lemma cstate_unused:
  assumes "cstate c xs (us @ a # vs) S es"
  obtains c' where "Option.bind (LRU_Remove (Entry a) c) (LRU_Append Lru (Entry a)) = Some c'"
    "cstate c' (xs @ [a]) (us @ vs) S es" "counters c' = counters c"
proof -
  obtain c' where c': "Option.bind (LRU_Remove (Entry a) c) (LRU_Append Lru (Entry a)) = Some c'"
      "two_lists c' {} InUse (us @ vs) Lru (xs @ [a])" "links_only c c'"
    using two_lists_move [of c "{}" InUse us a vs Lru xs] two_lists_sym assms unfolding cstate_def by blast
  have "set (xs @ us @ a # vs) = set ((xs @ [a]) @ us @ vs)" by auto
  then show ?thesis using that c' assms table_of_links_only stored_links_only counters_links_only two_lists_sym
    unfolding cstate_def by metis
qed

lemma unat_Suc: "unat (x :: u32) + 1 < 2 ^ 32 \<Longrightarrow> unat (x + 1) = unat x + 1"
  using unat_add_noov [of x 1] by simp

lemma unat_pred: "0 < unat (x :: u32) \<Longrightarrow> unat (x - 1) = unat x - 1"
  by (rule unat_minus_one) auto

text \<open>A client more: an entry that had none moves to the list of those in use.\<close>

lemma Ref_ok:
  assumes "cstate c xs ys S es" "es a = Some e" "a \<in> set (xs @ ys)" "a \<in> set xs \<longleftrightarrow> e_clients e = 0" "e_clients e < 2 ^ 31"
  obtains c' where "Ref a c = Some c'"
    "cstate c' (removeAll a xs) (if a \<in> set xs then ys @ [a] else ys) S (es(a \<mapsto> e\<lparr>e_clients := e_clients e + 1\<rparr>))"
    "counters c' = counters c"
proof -
  obtain h where h: "lc_store c a = Some h" "agrees True (bare h) e"
    using stored_Some [of c "set (xs @ ys)" es a e] assms(1-3) by (auto simp: cstate_def)
  let ?f = "\<lambda>h. h\<lparr>h_refs := h_refs h + 1\<rparr> :: ('a, 'b) lru_handle"
  have one: "h_refs h = 1 \<longleftrightarrow> a \<in> set xs"
    using h(2) assms(4) by (auto simp: agrees_def word_unat_eq_iff)
  have dist: "distinct (xs @ ys)" using assms(1) by (simp add: cstate_def two_lists_def)
  obtain c1 where c1: "(if h_refs h = 1 \<and> h_in_cache h then Option.bind (LRU_Remove (Entry a) c) (LRU_Append InUse (Entry a)) else Some c) = Some c1"
      "cstate c1 (removeAll a xs) (if a \<in> set xs then ys @ [a] else ys) S es" "counters c1 = counters c"
  proof (cases "a \<in> set xs")
    case True
    then obtain us vs where xs: "xs = us @ a # vs" by (meson split_list)
    have rm: "removeAll a xs = us @ vs" using dist unfolding xs by simp
    obtain c1 where "Option.bind (LRU_Remove (Entry a) c) (LRU_Append InUse (Entry a)) = Some c1"
        "cstate c1 (us @ vs) (ys @ [a]) S es" "counters c1 = counters c"
      using cstate_used [OF assms(1) [unfolded xs]] .
    moreover have "h_refs h = 1 \<and> h_in_cache h" using one True h(2) by (simp add: agrees_def)
    ultimately show ?thesis using that [of c1] True rm by simp
  next
    case False
    then show ?thesis using that [of c] one assms(1) by simp
  qed
  let ?xs = "removeAll a xs" let ?ys = "if a \<in> set xs then ys @ [a] else ys"
  have mem: "a \<in> set (?xs @ ?ys)" using assms(3) by auto
  obtain h1 where h1: "lc_store c1 a = Some h1" "agrees True (bare h1) e"
    using stored_Some [of c1 "set (?xs @ ?ys)" es a e] c1(2) assms(2) mem by (auto simp: cstate_def)
  have "unat (h_refs h1 + 1) = unat (h_refs h1) + 1" using h1(2) assms(5) by (intro unat_Suc) (simp add: agrees_def)
  then have "agrees (a \<in> set (?xs @ ?ys)) (?f (bare h1)) (e\<lparr>e_clients := e_clients e + 1\<rparr>)"
    using h1(2) mem by (simp add: agrees_def)
  then obtain c2 where c2: "upd_handle a ?f c1 = Some c2" "cstate c2 ?xs ?ys S (es(a \<mapsto> e\<lparr>e_clients := e_clients e + 1\<rparr>))"
      "counters c2 = counters c1"
    using cstate_upd [OF c1(2) h1(1), of ?f] by (auto simp: bare_def)
  have "Ref a c = Some c2" using h(1) c1(1) c2(1) by (simp add: Ref_def)
  then show ?thesis using that c2 c1(3) by simp
qed

text \<open>Deallocation of a handle that is not cached.\<close>

definition deletion :: "('v, 'd) entry \<Rightarrow> 'd \<times> u8 list \<times> 'v" where
  "deletion e = (e_deleter e, e_key e, e_value e)"

lemma deallocate_ok:
  assumes "two_lists c {} Lru xs InUse ys" "table_of c S" "stored c C es" "es a = Some e" "a \<notin> set (xs @ ys)" "a \<notin> S"
    and "\<forall>x. x \<noteq> a \<longrightarrow> (x \<in> C) = (x \<in> set (xs @ ys))"
  obtains c' where "deallocate a c = Some c'" "cstate c' xs ys S (es(a := None))"
    "counters c' = (lc_capacity c, lc_usage c, lc_deleted c @ [deletion e])"
proof -
  obtain h where h: "lc_store c a = Some h" "handles c a = Some (bare h)" "agrees (a \<in> C) (bare h) e"
    using stored_Some [OF assms(3,4)] .
  have k: "h_key a h = Some (e_key e)" using assms(1) h by (auto simp: two_lists_def keyed_def h_key_def agrees_def)
  let ?c = "c\<lparr>lc_deleted := lc_deleted c @ [deletion e], lc_store := (lc_store c)(a := None)\<rparr>"
  have d: "deallocate a c = Some ?c" using h k by (simp add: deallocate_def deletion_def agrees_def)
  have hd: "handles ?c = (handles c)(a := None)" by (auto simp: handles_def)
  have nh: "next_hash ?c x = next_hash c x" if "x \<noteq> a" for x using that by (simp add: next_hash_def)
  have nhS: "\<forall>x \<in> S. next_hash ?c x = next_hash c x" using nh assms(6) by metis
  have links: "get_next ?c n = get_next c n \<and> get_prev ?c n = get_prev c n" if "n \<noteq> Entry a" for n
    using that by (cases n) auto
  have "two_lists ?c {} Lru xs InUse ys"
    by (rule two_lists_cong [OF _ _ _ _ _ assms(1), of "{a}"]) (use links hd assms(5) in auto)
  moreover have "table_of ?c S"
    by (rule table_of_cong [OF _ _ _ assms(2)]) (use nhS hd assms(6) in auto)
  moreover have "stored ?c (set (xs @ ys)) (es(a := None))"
    unfolding stored_def
  proof
    fix x show "rel_option (agrees (x \<in> set (xs @ ys))) (handles ?c x) ((es(a := None)) x)"
    proof (cases "x = a")
      case False
      moreover have "rel_option (agrees (x \<in> C)) (handles c x) (es x)" using assms(3) by (simp add: stored_def)
      ultimately show ?thesis using assms(7) hd by simp
    qed (simp add: hd)
  qed
  ultimately show ?thesis using that d by (simp add: cstate_def counters_def)
qed

lemma Unref_count:
  assumes "cstate c xs ys S es" "es a = Some e" "e_clients e > 1"
  obtains c' where "Unref a c = Some c'" "cstate c' xs ys S (es(a \<mapsto> e\<lparr>e_clients := e_clients e - 1\<rparr>))" "counters c' = counters c"
proof -
  obtain h where h: "lc_store c a = Some h" "agrees (a \<in> set (xs @ ys)) (bare h) e"
    using stored_Some [of c "set (xs @ ys)" es a e] assms(1,2) by (auto simp: cstate_def)
  let ?f = "\<lambda>h. h\<lparr>h_refs := h_refs h - 1\<rparr> :: ('a, 'b) lru_handle"
  have refs: "unat (h_refs h) = e_clients e + (if h_in_cache h then 1 else 0)" "h_in_cache h = (a \<in> set (xs @ ys))"
    using h(2) by (simp_all add: agrees_def)
  then have u: "unat (h_refs h - 1) = unat (h_refs h) - 1" using assms(3) by (intro unat_pred) simp
  then have "agrees (a \<in> set (xs @ ys)) (?f (bare h)) (e\<lparr>e_clients := e_clients e - 1\<rparr>)"
    using h(2) assms(3) by (auto simp: agrees_def)
  then obtain c1 where c1: "upd_handle a ?f c = Some c1" "cstate c1 xs ys S (es(a \<mapsto> e\<lparr>e_clients := e_clients e - 1\<rparr>))"
      "counters c1 = counters c"
    using cstate_upd [OF assms(1) h(1), of ?f] by (auto simp: bare_def)
  have "h_refs h > 0" using refs(1) assms(3) by (simp add: word_less_nat_alt)
  moreover have "h_refs h - 1 \<noteq> 0" "\<not> (h_in_cache h \<and> h_refs h - 1 = 1)"
    using u refs(1) assms(3) by (auto simp: word_unat_eq_iff)
  ultimately have "Unref a c = Some c1" using h(1) c1(1) by (auto simp: Unref_def)
  then show ?thesis using that c1 by blast
qed

lemma Unref_unused:
  assumes "cstate c xs ys S es" "es a = Some e" "e_clients e = 1" "a \<in> set ys"
  obtains c' where "Unref a c = Some c'" "cstate c' (xs @ [a]) (removeAll a ys) S (es(a \<mapsto> e\<lparr>e_clients := 0\<rparr>))" "counters c' = counters c"
proof -
  obtain h where h: "lc_store c a = Some h" "agrees True (bare h) e"
    using stored_Some [of c "set (xs @ ys)" es a e] assms(1,2,4) by (auto simp: cstate_def)
  let ?f = "\<lambda>h. h\<lparr>h_refs := h_refs h - 1\<rparr> :: ('a, 'b) lru_handle"
  have refs: "unat (h_refs h) = 2" "h_in_cache h" using h(2) assms(3) by (simp_all add: agrees_def)
  then have u: "unat (h_refs h - 1) = 1" using unat_pred [of "h_refs h"] by simp
  then have "agrees (a \<in> set (xs @ ys)) (?f (bare h)) (e\<lparr>e_clients := 0\<rparr>)"
    using h(2) assms(4) by (auto simp: agrees_def)
  then obtain c1 where c1: "upd_handle a ?f c = Some c1" "cstate c1 xs ys S (es(a \<mapsto> e\<lparr>e_clients := 0\<rparr>))"
      "counters c1 = counters c"
    using cstate_upd [OF assms(1) h(1), of ?f] by (auto simp: bare_def)
  obtain us vs where ys: "ys = us @ a # vs" using assms(4) by (meson split_list)
  have "distinct ys" using assms(1) by (simp add: cstate_def two_lists_def)
  then have rm: "removeAll a ys = us @ vs" unfolding ys by simp
  obtain c2 where c2: "Option.bind (LRU_Remove (Entry a) c1) (LRU_Append Lru (Entry a)) = Some c2"
      "cstate c2 (xs @ [a]) (us @ vs) S (es(a \<mapsto> e\<lparr>e_clients := 0\<rparr>))" "counters c2 = counters c1"
    using cstate_unused [OF c1(2) [unfolded ys]] .
  have "h_refs h > 0" using refs(1) by (simp add: word_less_nat_alt)
  moreover have "h_refs h - 1 \<noteq> 0" "h_refs h - 1 = 1"
    using u by (auto simp: word_unat_eq_iff)
  ultimately have "Unref a c = Some c2" using h(1) c1(1) c2(1) refs(2) by (simp add: Unref_def)
  then show ?thesis using that c1 c2 rm by simp
qed

text \<open>The last reference to a handle that is not cached.\<close>

lemma Unref_last:
  assumes "two_lists c {} Lru xs InUse ys" "table_of c S" "a \<notin> set (xs @ ys)" "a \<notin> S" "es a = Some e"
    and "lc_store c a = Some h" "h_refs h = 1" "agrees False ((bare h)\<lparr>h_refs := 0\<rparr>) (e\<lparr>e_clients := 0\<rparr>)"
    and "\<forall>x. x \<noteq> a \<longrightarrow> rel_option (agrees (x \<in> set (xs @ ys))) (handles c x) (es x)"
  obtains c' where "Unref a c = Some c'" "cstate c' xs ys S (es(a := None))"
    "counters c' = (lc_capacity c, lc_usage c, lc_deleted c @ [deletion e])"
proof -
  let ?f = "\<lambda>h. h\<lparr>h_refs := h_refs h - 1\<rparr> :: ('a, 'b) lru_handle"
  obtain c1 where c1: "upd_handle a ?f c = Some c1" "data_only c c1" "handles c1 = (handles c)(a := Some (?f (bare h)))"
      "counters c1 = counters c" "lc_store c1 a = Some (?f h)"
    using upd_handle_ok [OF assms(6), of ?f] by (auto simp: bare_def)
  have hd: "handles c a = Some (bare h)" by (simp add: handles_def assms(6))
  have l: "two_lists c1 {} Lru xs InUse ys" using two_lists_data [OF c1(2,3)] assms(1) hd by simp
  have t: "table_of c1 S" using table_of_data [OF c1(2,3) hd] assms(2) by simp
  let ?es = "es(a \<mapsto> e\<lparr>e_clients := 0\<rparr>)"
  have "stored c1 (set (xs @ ys)) ?es"
    unfolding stored_def
  proof
    fix x show "rel_option (agrees (x \<in> set (xs @ ys))) (handles c1 x) (?es x)"
      by (cases "x = a") (use assms(3,7,8,9) c1(3) in simp_all)
  qed
  then obtain c2 where c2: "deallocate a c1 = Some c2" "cstate c2 xs ys S (?es(a := None))"
      "counters c2 = (lc_capacity c1, lc_usage c1, lc_deleted c1 @ [deletion (e\<lparr>e_clients := 0\<rparr>)])"
    using deallocate_ok [OF l t _ _ assms(3,4)] by (metis fun_upd_same)
  have "\<not> h_in_cache h" using assms(8) by (simp add: agrees_def)
  then have "Unref a c = Some c2" using assms(6,7) c1(1) c2(1) by (simp add: Unref_def)
  then show ?thesis using that c1(4) c2 by (simp add: counters_def deletion_def)
qed

lemma Release_uncached:
  assumes "cstate c xs ys S es" "es a = Some e" "e_clients e = 1" "a \<notin> set (xs @ ys)" "a \<notin> S"
  obtains c' where "Unref a c = Some c'" "cstate c' xs ys S (es(a := None))"
    "counters c' = (lc_capacity c, lc_usage c, lc_deleted c @ [deletion e])"
proof -
  have l: "two_lists c {} Lru xs InUse ys" "table_of c S" "stored c (set (xs @ ys)) es" using assms(1) by (simp_all add: cstate_def)
  obtain h where h: "lc_store c a = Some h" "agrees (a \<in> set (xs @ ys)) (bare h) e" using stored_Some [OF l(3) assms(2)] .
  have "h_refs h = 1" using h(2) assms(3,4) by (auto simp: agrees_def word_unat_eq_iff)
  moreover have "agrees False ((bare h)\<lparr>h_refs := 0\<rparr>) (e\<lparr>e_clients := 0\<rparr>)" using h(2) assms(4) by (simp add: agrees_def)
  moreover have "\<forall>x. rel_option (agrees (x \<in> set (xs @ ys))) (handles c x) (es x)" using l(3) by (simp add: stored_def)
  ultimately show ?thesis using Unref_last [where es = es, OF l(1,2) assms(4,5,2) h(1)] that by metis
qed

lemma two_lists_views:
  "get_next c' = get_next c \<Longrightarrow> get_prev c' = get_prev c \<Longrightarrow> handles c' = handles c \<Longrightarrow> two_lists c' E l xs l' ys = two_lists c E l xs l' ys"
  unfolding two_lists_def keyed_def by (simp only:)

lemma usage_views:
  "get_next (c\<lparr>lc_usage := u\<rparr>) = get_next c" "get_prev (c\<lparr>lc_usage := u\<rparr>) = get_prev c"
  "next_hash (c\<lparr>lc_usage := u\<rparr>) = next_hash c" "handles (c\<lparr>lc_usage := u\<rparr>) = handles c"
proof -
  show "get_next (c\<lparr>lc_usage := u\<rparr>) = get_next c" "get_prev (c\<lparr>lc_usage := u\<rparr>) = get_prev c"
  proof -
    have "get_next (c\<lparr>lc_usage := u\<rparr>) n = get_next c n \<and> get_prev (c\<lparr>lc_usage := u\<rparr>) n = get_prev c n" for n
      by (cases n) simp_all
    then show "get_next (c\<lparr>lc_usage := u\<rparr>) = get_next c" "get_prev (c\<lparr>lc_usage := u\<rparr>) = get_prev c" by auto
  qed
qed (auto simp: next_hash_def handles_def)

lemma two_lists_erase:
  assumes "two_lists c {} Lru xs InUse ys" "a \<in> set (xs @ ys)"
  obtains c' where "LRU_Remove (Entry a) c = Some c'" "two_lists c' {} Lru (removeAll a xs) InUse (removeAll a ys)" "links_only c c'"
proof -
  have dist: "distinct (xs @ ys)" using assms(1) by (simp add: two_lists_def)
  show ?thesis
  proof (cases "a \<in> set xs")
    case True
    then obtain us vs where xs: "xs = us @ a # vs" by (meson split_list)
    have rm: "removeAll a xs = us @ vs" "removeAll a ys = ys" using dist unfolding xs by auto
    show ?thesis using two_lists_remove [OF assms(1) [unfolded xs]] that unfolding rm by blast
  next
    case False
    then obtain us vs where ys: "ys = us @ a # vs" using assms(2) by (metis Un_iff set_append split_list)
    have rm: "removeAll a ys = us @ vs" "removeAll a xs = xs" using dist False unfolding ys by auto
    show ?thesis using two_lists_remove [OF two_lists_sym [OF assms(1) [unfolded ys]]] two_lists_sym that unfolding rm by metis
  qed
qed

lemma FinishErase_ok:
  assumes "cstate c xs ys S es" "es a = Some e" "a \<in> set (xs @ ys)" "a \<notin> S"
  obtains c' where "FinishErase (Some a) c = Some (True, c')"
    "cstate c' (removeAll a xs) (removeAll a ys) S (if e_clients e = 0 then es(a := None) else es)"
    "counters c' = (lc_capacity c, lc_usage c - e_charge e, lc_deleted c @ (if e_clients e = 0 then [deletion e] else []))"
proof -
  have l: "two_lists c {} Lru xs InUse ys" "table_of c S" "stored c (set (xs @ ys)) es" using assms(1) by (simp_all add: cstate_def)
  let ?xs = "removeAll a xs" let ?ys = "removeAll a ys"
  obtain h where h: "lc_store c a = Some h" "agrees True (bare h) e" using stored_Some [OF l(3) assms(2)] assms(3) by auto
  obtain c1 where c1: "LRU_Remove (Entry a) c = Some c1" "two_lists c1 {} Lru ?xs InUse ?ys" "links_only c c1"
    using two_lists_erase [OF l(1) assms(3)] .
  have t1: "table_of c1 S" "stored c1 (set (xs @ ys)) es" using c1(3) l(2,3) by (simp_all add: table_of_links_only stored_links_only)
  obtain h1 where h1: "lc_store c1 a = Some h1" "agrees True (bare h1) e" using stored_Some [OF t1(2) assms(2)] assms(3) by auto
  let ?f = "\<lambda>h. h\<lparr>h_in_cache := False\<rparr> :: ('a, 'b) lru_handle"
  obtain c2 where c2: "upd_handle a ?f c1 = Some c2" "data_only c1 c2" "handles c2 = (handles c1)(a := Some (?f (bare h1)))"
      "counters c2 = counters c1" "lc_store c2 a = Some (?f h1)"
    using upd_handle_ok [OF h1(1), of ?f] by (auto simp: bare_def)
  have hd: "handles c1 a = Some (bare h1)" by (simp add: handles_def h1)
  let ?c = "c2\<lparr>lc_usage := lc_usage c2 - e_charge e\<rparr>"
  have l3: "two_lists ?c {} Lru ?xs InUse ?ys"
    using two_lists_data [OF c2(2,3)] c1(2) hd two_lists_views [OF usage_views(1,2,4)] by blast
  have "table_of c2 S" using table_of_data [OF c2(2,3) hd] t1(1) by simp
  then have t3: "table_of ?c S" by (rule table_of_cong [rotated 3]) (auto simp: usage_views)
  have hd3: "handles ?c = (handles c1)(a := Some (?f (bare h1)))" using c2(3) by (simp add: usage_views)
  have st: "lc_store ?c a = Some (?f h1)" using c2(5) by simp
  have out: "a \<notin> set (?xs @ ?ys)" by simp
  have others: "\<forall>x. x \<noteq> a \<longrightarrow> rel_option (agrees (x \<in> set (?xs @ ?ys))) (handles ?c x) (es x)"
  proof (intro allI impI)
    fix x assume "x \<noteq> a"
    moreover have "rel_option (agrees (x \<in> set (xs @ ys))) (handles c1 x) (es x)" using t1(2) by (simp add: stored_def)
    ultimately show "rel_option (agrees (x \<in> set (?xs @ ?ys))) (handles ?c x) (es x)" using hd3 by auto
  qed
  have cnt: "counters ?c = (lc_capacity c, lc_usage c - e_charge e, lc_deleted c)"
    using c2(4) c1(3) by (simp add: counters_def links_only_def)
  have ch: "h_charge h = e_charge e" "h_in_cache h" using h(2) by (simp_all add: agrees_def)
  have step: "FinishErase (Some a) c = map_option (Pair True) (Unref a ?c)"
    using h(1) c1(1) c2(1) ch by (simp add: FinishErase_def)
  show ?thesis
  proof (cases "e_clients e = 0")
    case True
    have "h_refs (?f h1) = 1" using h1(2) True by (simp add: agrees_def word_unat_eq_iff)
    moreover have "agrees False ((bare (?f h1))\<lparr>h_refs := 0\<rparr>) (e\<lparr>e_clients := 0\<rparr>)"
      using h1(2) by (simp add: agrees_def)
    ultimately obtain c' where "Unref a ?c = Some c'" "cstate c' ?xs ?ys S (es(a := None))"
        "counters c' = (lc_capacity ?c, lc_usage ?c, lc_deleted ?c @ [deletion e])"
      using Unref_last [where es = es, OF l3 t3 out assms(4,2) st _ _ others] by blast
    then show ?thesis using that step True cnt by (simp add: counters_def)
  next
    case False
    have refs: "unat (h_refs h1) = e_clients e + 1" using h1(2) by (simp add: agrees_def)
    then have u: "unat (h_refs h1 - 1) = e_clients e" using unat_pred [of "h_refs h1"] by simp
    let ?g = "\<lambda>h. h\<lparr>h_refs := h_refs h - 1\<rparr> :: ('a, 'b) lru_handle"
    obtain c' where c': "upd_handle a ?g ?c = Some c'" "data_only ?c c'" "handles c' = (handles ?c)(a := Some (?g (bare (?f h1))))"
        "counters c' = counters ?c"
      using upd_handle_ok [OF st, of ?g] by (auto simp: bare_def)
    have hd': "handles ?c a = Some (?f (bare h1))" using hd3 by simp
    have "stored c' (set (?xs @ ?ys)) es"
      unfolding stored_def
    proof
      fix x show "rel_option (agrees (x \<in> set (?xs @ ?ys))) (handles c' x) (es x)"
        by (cases "x = a") (use out others assms(2) c'(3) h1(2) u in \<open>simp_all add: agrees_def\<close>)
    qed
    moreover have "two_lists c' {} Lru ?xs InUse ?ys" using two_lists_data [OF c'(2,3)] l3 hd' by simp
    moreover have "table_of c' S" using table_of_data [OF c'(2,3) hd'] t3 by simp
    ultimately have "cstate c' ?xs ?ys S es" by (simp add: cstate_def)
    moreover have "Unref a ?c = Some c'"
    proof -
      have "h_refs h1 > 0" "h_refs h1 \<noteq> 1" using refs False by (auto simp: word_less_nat_alt)
      then show ?thesis using st c'(1) by (simp add: Unref_def)
    qed
    ultimately show ?thesis using that step False cnt c'(4) by (simp add: counters_def)
  qed
qed

end
