(* ===== verification/CacheRefine.thy ===== *)
theory CacheRefine
  imports CacheProps
begin

text \<open>The operations of the cache against those of the specification, one by one and in sequence.\<close>

definition bounds :: "('v, 'd) lru_spec \<Rightarrow> nat \<Rightarrow> bool" where
  "bounds A n \<longleftrightarrow> (\<forall>a e. s_entries A a = Some e \<longrightarrow> (a \<in> set (s_lru A) \<longleftrightarrow> e_clients e = 0) \<and> e_clients e \<le> n) \<and> card (cached A) \<le> n"

definition unique :: "('v, 'd) lru_spec \<Rightarrow> nat set \<Rightarrow> bool" where
  "unique A C \<longleftrightarrow> (\<forall>a \<in> C. \<forall>b \<in> C. \<forall>key hash. has_key A key hash a \<and> has_key A key hash b \<longrightarrow> a = b)"

text \<open>The cache \<open>c\<close> stands for \<open>A\<close>; \<open>n\<close> bounds the numbers of entries and of references.\<close>

definition repr :: "('v, 'd) lru_cache \<Rightarrow> ('v, 'd) lru_spec \<Rightarrow> nat \<Rightarrow> bool" where
  "repr c A n \<longleftrightarrow> cstate c (s_lru A) (s_used A) (cached A) (s_entries A) \<and>
     counters c = (s_capacity A, s_usage A, s_deleted A) \<and> bounds A n \<and> unique A (cached A)"

lemma repr_mono: "repr c A n \<Longrightarrow> n \<le> m \<Longrightarrow> repr c A m"
  by (fastforce simp: repr_def bounds_def)

lemma cstate_facts:
  assumes "cstate c xs ys S es"
  shows "distinct (xs @ ys)" "\<forall>a. lc_store c a \<noteq> None \<longrightarrow> keyed c a" "\<forall>a. (es a = None) = (handles c a = None)" "table_of c S"
    "\<forall>a \<in> set (xs @ ys). es a \<noteq> None"
proof -
  show es: "\<forall>a. (es a = None) = (handles c a = None)"
    using assms by (auto simp: cstate_def stored_def) (metis option_rel_Some1 option_rel_Some2 option.distinct(1) not_None_eq)+
  show "\<forall>a \<in> set (xs @ ys). es a \<noteq> None" using assms es unfolding cstate_def two_lists_def by blast
  show "\<forall>a. lc_store c a \<noteq> None \<longrightarrow> keyed c a" using assms unfolding cstate_def two_lists_def by (metis empty_iff handles_None)
qed (use assms in \<open>simp_all add: cstate_def two_lists_def\<close>)

lemma matches_has_key:
  assumes "cstate c xs ys S (s_entries A)"
  shows "matches c key hash a = has_key A key hash a"
proof -
  have "rel_option (agrees (a \<in> set (xs @ ys))) (handles c a) (s_entries A a)" using assms by (simp add: cstate_def stored_def)
  then show ?thesis by (cases "s_entries A a"; cases "handles c a") (auto simp: matches_def has_key_def agrees_def)
qed

lemma s_find_eq:
  assumes "unique A (cached A)" "\<forall>a. p = Some a \<longrightarrow> a \<in> cached A \<and> has_key A key hash a"
    and "p = None \<longrightarrow> (\<forall>a \<in> cached A. \<not> has_key A key hash a)"
  shows "s_find key hash A = p"
proof (cases "s_find key hash A")
  case None
  then have "\<forall>a \<in> cached A. \<not> has_key A key hash a" by (auto simp: s_find_def find_None_iff cached_def)
  then show ?thesis using assms(2) None by (cases p) auto
next
  case (Some b)
  then have "b \<in> cached A" "has_key A key hash b"
    by (auto simp: s_find_def find_Some_iff cached_def) (metis nth_mem length_append set_append UnE)
  then show ?thesis using assms Some unfolding unique_def by (metis not_None_eq)
qed

section \<open>Entries that leave the cache\<close>

lemma s_usage_drop:
  assumes "s_entries A a = Some e" "a \<in> cached A" "distinct (s_lru A @ s_used A)"
  shows "s_usage (s_drop a A) = s_usage A - e_charge e"
proof -
  define l where "l = s_lru A @ s_used A"
  have "s_lru (s_drop a A) @ s_used (s_drop a A) = removeAll a l"
    using assms(1) by (simp add: s_drop_def Let_def s_delete_def l_def)
  moreover have "map (charge_at (s_drop a A)) (removeAll a l) = map (charge_at A) (removeAll a l)"
    using assms(1) by (auto simp: s_drop_def Let_def s_delete_def charge_at_def)
  moreover have "sum_list (map (charge_at A) l) = charge_at A a + sum_list (map (charge_at A) (removeAll a l))"
    using sum_list_map_remove1 [of a l "charge_at A"] assms(2,3) distinct_remove1_removeAll [OF assms(3)] by (simp add: cached_def l_def)
  ultimately have "s_usage (s_drop a A) = s_usage A - charge_at A a" unfolding s_usage_def l_def [symmetric] by (simp only: add_diff_cancel_left')
  then show ?thesis using assms(1) by (simp add: charge_at_def)
qed

lemma s_drop_sel:
  assumes "s_entries A a = Some e"
  shows "s_lru (s_drop a A) = removeAll a (s_lru A)" "s_used (s_drop a A) = removeAll a (s_used A)"
    "s_entries (s_drop a A) = (if e_clients e = 0 then (s_entries A)(a := None) else s_entries A)"
    "s_deleted (s_drop a A) = s_deleted A @ (if e_clients e = 0 then [deletion e] else [])"
    "s_capacity (s_drop a A) = s_capacity A" "cached (s_drop a A) = cached A - {a}"
  using assms by (auto simp: s_drop_def Let_def s_delete_def deletion_def cached_def)

lemma erase_ok:
  assumes "cstate c (s_lru A) (s_used A) (cached A - {a}) (s_entries A)" "counters c = (s_capacity A, s_usage A, s_deleted A)"
    and "bounds A n" "unique A (cached A - {a})" "a \<in> cached A"
  obtains c' where "FinishErase (Some a) c = Some (True, c')" "repr c' (s_drop a A) n"
proof -
  obtain e where e: "s_entries A a = Some e" using cstate_facts(5) [OF assms(1)] assms(5) by (auto simp: cached_def)
  obtain c' where c': "FinishErase (Some a) c = Some (True, c')"
      "cstate c' (removeAll a (s_lru A)) (removeAll a (s_used A)) (cached A - {a}) (if e_clients e = 0 then (s_entries A)(a := None) else s_entries A)"
      "counters c' = (lc_capacity c, lc_usage c - e_charge e, lc_deleted c @ (if e_clients e = 0 then [deletion e] else []))"
    using FinishErase_ok [OF assms(1) e] assms(5) by (auto simp: cached_def)
  have "card (cached A - {a}) \<le> card (cached A)" by (rule card_mono) (simp_all add: cached_def)
  then have "bounds (s_drop a A) n"
    using assms(3) e by (auto simp: bounds_def s_drop_sel [OF e] split: if_splits)
  moreover have "has_key (s_drop a A) key hash x \<longrightarrow> has_key A key hash x" for key hash x
    by (auto simp: has_key_def s_drop_sel [OF e] split: if_splits)
  then have "unique (s_drop a A) (cached (s_drop a A))"
    using assms(4) unfolding unique_def s_drop_sel(6) [OF e] by blast
  moreover have "s_usage (s_drop a A) = s_usage A - e_charge e"
    using s_usage_drop [OF e assms(5)] cstate_facts(1) [OF assms(1)] by blast
  ultimately have "repr c' (s_drop a A) n"
    using c'(2,3) assms(2) by (simp add: repr_def s_drop_sel [OF e] counters_def)
  then show ?thesis using that c'(1) by blast
qed

lemma cstate_table_only:
  assumes "cstate c xs ys S es" "table_only c c'" "table_of c' S'"
  shows "cstate c' xs ys S' es"
  using assms two_lists_table_only [OF assms(2)] table_only_cong(1) [OF assms(2)] by (simp add: cstate_def stored_def)

text \<open>The entry with a key is taken out of the table and the lists.\<close>

lemma remove_ok:
  assumes "repr c A n"
  obtains c' where "ht_Remove key hash c = Some (s_find key hash A, c')"
    "s_find key hash A = None \<Longrightarrow> repr c' A n"
    "\<And>a. s_find key hash A = Some a \<Longrightarrow> a \<in> cached A \<and> (\<exists>c1. FinishErase (Some a) c' = Some (True, c1) \<and> repr c1 (s_drop a A) n)"
proof -
  have cs: "cstate c (s_lru A) (s_used A) (cached A) (s_entries A)" and cnt: "counters c = (s_capacity A, s_usage A, s_deleted A)"
    and b: "bounds A n" and u: "unique A (cached A)" using assms by (simp_all add: repr_def)
  have k: "\<forall>a \<in> cached A. keyed c a"
    using cstate_facts(2,4) [OF cs] by (metis table_of_def handles_None)
  obtain p c' where p: "ht_Remove key hash c = Some (p, c')" "\<forall>a. p = Some a \<longrightarrow> a \<in> cached A \<and> matches c key hash a"
      "p = None \<longrightarrow> (\<forall>a \<in> cached A. \<not> matches c key hash a)" "table_of c' (cached A - set_option p)" "table_only c c'"
    using ht_Remove_ok [OF cstate_facts(4) [OF cs] k] .
  have f: "s_find key hash A = p"
    using s_find_eq [OF u] p(2,3) matches_has_key [OF cs] by metis
  have cs': "cstate c' (s_lru A) (s_used A) (cached A - set_option p) (s_entries A)"
    using cstate_table_only [OF cs p(5,4)] .
  have cnt': "counters c' = (s_capacity A, s_usage A, s_deleted A)" using table_only_cong(5) [OF p(5)] cnt by simp
  show ?thesis
  proof (rule that)
    show "ht_Remove key hash c = Some (s_find key hash A, c')" using p(1) f by simp
    show "repr c' A n" if "s_find key hash A = None" using cs' cnt' b u that f by (simp add: repr_def)
    fix a assume a: "s_find key hash A = Some a"
    then have in_c: "a \<in> cached A" using p(2) f by simp
    have "unique A (cached A - {a})" using u unfolding unique_def by blast
    then show "a \<in> cached A \<and> (\<exists>c1. FinishErase (Some a) c' = Some (True, c1) \<and> repr c1 (s_drop a A) n)"
      using erase_ok [OF _ cnt' b _ in_c] cs' a f in_c by (metis option.set(2))
  qed
qed
section \<open>The operations\<close>

lemma erase_refines:
  assumes "repr c A n"
  obtains c' where "lc_Erase key hash c = Some c'" "repr c' (s_erase key hash A) n"
proof -
  obtain c1 where c1: "ht_Remove key hash c = Some (s_find key hash A, c1)"
      "s_find key hash A = None \<Longrightarrow> repr c1 A n"
      "\<And>a. s_find key hash A = Some a \<Longrightarrow> a \<in> cached A \<and> (\<exists>c2. FinishErase (Some a) c1 = Some (True, c2) \<and> repr c2 (s_drop a A) n)"
    using remove_ok [OF assms] by metis
  show ?thesis
  proof (cases "s_find key hash A")
    case None
    then show ?thesis using that [of c1] c1(1,2) by (simp add: lc_Erase_def FinishErase_def s_erase_def)
  next
    case (Some a)
    then obtain c2 where "FinishErase (Some a) c1 = Some (True, c2)" "repr c2 (s_drop a A) n" using c1(3) by blast
    then show ?thesis using that [of c2] c1(1) Some by (simp add: lc_Erase_def s_erase_def)
  qed
qed

lemma evict_refines:
  assumes "repr c A n" "\<And>c A. repr c A n \<Longrightarrow> go c = s_go A"
  shows "\<exists>c'. evict go c = Some c' \<and> repr c' (s_evict s_go (s_lru A) A) n"
  using assms(1)
proof (induction "s_lru A" arbitrary: c A)
  case Nil
  then have "get_next c Lru = Some Lru" by (auto simp: repr_def cstate_def two_lists_def ring_def)
  then have "evict go c = Some c" by (subst evict.simps) simp
  then show ?case using Nil by (metis s_evict.simps(1))
next
  case (Cons a as)
  have go: "go c = s_go A" using assms(2) Cons.prems by blast
  show ?case
  proof (cases "s_go A")
    case False
    then have "evict go c = Some c" using go by (subst evict.simps) simp
    then show ?thesis using Cons False by (metis s_evict.simps(2))
  next
    case True
    have cs: "cstate c (s_lru A) (s_used A) (cached A) (s_entries A)" using Cons.prems by (simp add: repr_def)
    have "ring (get_next c) (get_prev c) Lru (map Entry (a # as))" using cs Cons(2) by (simp add: cstate_def two_lists_def)
    then have nxt: "get_next c Lru = Some (Entry a)" by (simp add: ring_def del: get_next.simps get_prev.simps)
    have mem: "a \<in> set (s_lru A)" unfolding Cons(2) [symmetric] by simp
    then have a: "a \<in> set (s_lru A @ s_used A)" "a \<in> cached A" by (simp_all add: cached_def)
    obtain e where e: "s_entries A a = Some e" using cstate_facts(5) [OF cs] a(1) by auto
    then have "e_clients e = 0" using Cons.prems mem by (auto simp: repr_def bounds_def)
    obtain h where h: "lc_store c a = Some h" "agrees True (bare h) e"
      using stored_Some [of c "set (s_lru A @ s_used A)" "s_entries A" a e] cs e a(1) by (auto simp: cstate_def)
    have refs: "h_refs h = 1" using h(2) \<open>e_clients e = 0\<close> by (simp add: agrees_def word_unat_eq_iff)
    have "keyed c a" using cstate_facts(2) [OF cs] h(1) by simp
    then have k: "h_key a h = Some (e_key e)" using h by (auto simp: keyed_def h_key_def agrees_def)
    have hash: "h_hash h = e_hash e" using h(2) by (simp add: agrees_def)
    have "has_key A (e_key e) (e_hash e) a" by (simp add: has_key_def e)
    then have f: "s_find (e_key e) (e_hash e) A = Some a"
      using s_find_eq [of A "Some a"] a(2) Cons.prems by (simp add: repr_def)
    obtain c1 where c1: "ht_Remove (e_key e) (e_hash e) c = Some (s_find (e_key e) (e_hash e) A, c1)"
        "\<And>x. s_find (e_key e) (e_hash e) A = Some x \<Longrightarrow>
          x \<in> cached A \<and> (\<exists>c2. FinishErase (Some x) c1 = Some (True, c2) \<and> repr c2 (s_drop x A) n)"
      using remove_ok [OF Cons.prems] by metis
    then obtain c2 where c2: "FinishErase (Some a) c1 = Some (True, c2)" "repr c2 (s_drop a A) n" using f by blast
    have step: "evict go c = evict go c2"
      using go True nxt h(1) k refs hash c1(1) c2(1) f by (subst evict.simps) simp
    have "distinct (a # as)" using cstate_facts(1) [OF cs] Cons(2) by (metis distinct_append)
    then have "as = s_lru (s_drop a A)" unfolding s_drop_sel(1) [OF e] Cons(2) [symmetric] by simp
    then show ?thesis using Cons(1) c2(2) step True unfolding Cons(2) [symmetric] by fastforce
  qed
qed

lemma lookup_refines:
  assumes "repr c A n" "n < 2 ^ 31"
  obtains c' where "lc_Lookup key hash c = Some (fst (s_lookup key hash A), c')" "repr c' (snd (s_lookup key hash A)) (n + 1)"
proof -
  have cs: "cstate c (s_lru A) (s_used A) (cached A) (s_entries A)" and cnt: "counters c = (s_capacity A, s_usage A, s_deleted A)"
    and b: "bounds A n" and u: "unique A (cached A)" using assms by (simp_all add: repr_def)
  have k: "\<forall>a \<in> cached A. keyed c a"
    using cstate_facts(2,4) [OF cs] by (metis table_of_def handles_None)
  obtain p where p: "ht_Lookup key hash c = Some p" "\<forall>a. p = Some a \<longrightarrow> a \<in> cached A \<and> matches c key hash a"
      "p = None \<longrightarrow> (\<forall>a \<in> cached A. \<not> matches c key hash a)"
    using ht_Lookup_ok [OF cstate_facts(4) [OF cs] k] .
  have f: "s_find key hash A = p"
    using s_find_eq [OF u] p(2,3) matches_has_key [OF cs] by metis
  show ?thesis
  proof (cases p)
    case None
    then show ?thesis using that [of c] p(1) f assms(1) repr_mono [of c A n "n + 1"] by (simp add: lc_Lookup_def s_lookup_def)
  next
    case (Some a)
    then have a: "a \<in> set (s_lru A @ s_used A)" using p(2) by (simp add: cached_def)
    obtain e where e: "s_entries A a = Some e" using cstate_facts(5) [OF cs] a by auto
    have be: "a \<in> set (s_lru A) \<longleftrightarrow> e_clients e = 0" "e_clients e \<le> n" using b e by (auto simp: bounds_def)
    define A' where "A' = snd (s_lookup key hash A)"
    have A': "fst (s_lookup key hash A) = Some a" "s_lru A' = removeAll a (s_lru A)"
        "s_used A' = (if a \<in> set (s_lru A) then s_used A @ [a] else s_used A)"
        "s_entries A' = (s_entries A)(a \<mapsto> e\<lparr>e_clients := e_clients e + 1\<rparr>)" "s_capacity A' = s_capacity A" "s_deleted A' = s_deleted A"
      using f Some e by (simp_all add: A'_def s_lookup_def)
    have "e_clients e < 2 ^ 31" using be(2) assms(2) by linarith
    then obtain c' where c': "Ref a c = Some c'" "cstate c' (s_lru A') (s_used A') (cached A) (s_entries A')" "counters c' = counters c"
      using Ref_ok [OF cs e a be(1)] unfolding A'(2-4) by blast
    have same: "cached A' = cached A" using a by (auto simp: cached_def A'(2,3))
    have "bounds A' (n + 1)"
    proof -
      have "(x \<in> set (s_lru A') \<longleftrightarrow> e_clients f = 0) \<and> e_clients f \<le> n + 1" if "s_entries A' x = Some f" for x f
      proof (cases "x = a")
        case True
        then show ?thesis using that be(2) by (auto simp: A'(2,4))
      next
        case False
        then have "s_entries A x = Some f" using that by (simp add: A'(4))
        then show ?thesis using b False by (fastforce simp: bounds_def A'(2))
      qed
      then show ?thesis using b by (simp add: bounds_def same)
    qed
    moreover have "has_key A' = has_key A" by (auto simp: fun_eq_iff has_key_def A'(4) e)
    then have "unique A' (cached A')" using u by (simp add: unique_def same)
    moreover have "s_usage A' = s_usage A"
    proof -
      have dist: "distinct (s_lru A @ s_used A)" "distinct (s_lru A' @ s_used A')" using cstate_facts(1) cs c'(2) by blast+
      have "charge_at A' = charge_at A" by (auto simp: fun_eq_iff charge_at_def A'(4) e)
      then show ?thesis using dist same unfolding s_usage_def cached_def
        by (metis sum_list_distinct_conv_sum_set)
    qed
    ultimately have "repr c' A' (n + 1)" using c'(2,3) cnt A'(5,6) same by (simp add: repr_def)
    then show ?thesis using that p(1) Some c'(1) A'(1) by (simp add: lc_Lookup_def A'_def)
  qed
qed

lemma s_usage_cong:
  assumes "charge_at A' = charge_at A" "cached A' = cached A" "distinct (s_lru A @ s_used A)" "distinct (s_lru A' @ s_used A')"
  shows "s_usage A' = s_usage A"
  using assms unfolding s_usage_def cached_def by (metis sum_list_distinct_conv_sum_set)

lemma release_refines:
  assumes "repr c A n" "s_release a A = Some A'"
  obtains c' where "lc_Release a c = Some c'" "repr c' A' n"
proof -
  have cs: "cstate c (s_lru A) (s_used A) (cached A) (s_entries A)" and cnt: "counters c = (s_capacity A, s_usage A, s_deleted A)"
    and b: "bounds A n" and u: "unique A (cached A)" using assms by (simp_all add: repr_def)
  obtain e where e: "s_entries A a = Some e" "e_clients e \<noteq> 0" using assms(2) by (auto simp: s_release_def split: option.splits if_splits)
  have nl: "a \<notin> set (s_lru A)" using b e by (auto simp: bounds_def)
  have dist: "distinct (s_lru A @ s_used A)" using cstate_facts(1) [OF cs] .
  have le: "e_clients e \<le> n" using b e(1) by (auto simp: bounds_def)
  show ?thesis
  proof (cases "e_clients e > 1")
    case True
    then have A': "A' = A\<lparr>s_entries := (s_entries A)(a \<mapsto> e\<lparr>e_clients := e_clients e - 1\<rparr>)\<rparr>"
      using assms(2) e by (simp add: s_release_def)
    obtain c' where c': "Unref a c = Some c'" "cstate c' (s_lru A) (s_used A) (cached A) (s_entries A')" "counters c' = counters c"
      using Unref_count [OF cs e(1) True] by (auto simp: A')
    have same: "cached A' = cached A" "charge_at A' = charge_at A" "has_key A' = has_key A"
      by (auto simp: A' cached_def charge_at_def has_key_def fun_eq_iff e)
    have "s_usage A' = s_usage A" using s_usage_cong [of A' A] same dist by (simp add: A')
    moreover have "bounds A' n" using b nl True le by (auto simp: bounds_def A' cached_def)
    ultimately have "repr c' A' n" using c'(2,3) cnt u same by (simp add: repr_def unique_def) (simp add: A')
    then show ?thesis using that c'(1) by (simp add: lc_Release_def)
  next
    case False
    then have one: "e_clients e = 1" using e(2) by simp
    show ?thesis
    proof (cases "a \<in> cached A")
      case True
      then have a: "a \<in> set (s_used A)" using nl by (simp add: cached_def)
      have A': "A' = A\<lparr>s_lru := s_lru A @ [a], s_used := removeAll a (s_used A), s_entries := (s_entries A)(a \<mapsto> e\<lparr>e_clients := 0\<rparr>)\<rparr>"
        using assms(2) e one True by (simp add: s_release_def)
      obtain c' where c': "Unref a c = Some c'" "cstate c' (s_lru A') (s_used A') (cached A) (s_entries A')" "counters c' = counters c"
        using Unref_unused [OF cs e(1) one a] by (auto simp: A')
      have same: "cached A' = cached A" "charge_at A' = charge_at A" "has_key A' = has_key A"
        using a by (auto simp: A' cached_def charge_at_def has_key_def fun_eq_iff e)
      have "s_usage A' = s_usage A" using s_usage_cong [of A' A] same dist cstate_facts(1) [OF c'(2)] by blast
      moreover have "bounds A' n" using b same(1) by (auto simp: bounds_def A')
      ultimately have "repr c' A' n" using c'(2,3) cnt u same by (simp add: repr_def unique_def) (simp add: A')
      then show ?thesis using that c'(1) by (simp add: lc_Release_def)
    next
      case False
      then have A': "A' = s_delete a e A" using assms(2) e one by (simp add: s_release_def)
      obtain c' where c': "Unref a c = Some c'" "cstate c' (s_lru A) (s_used A) (cached A) ((s_entries A)(a := None))"
          "counters c' = (lc_capacity c, lc_usage c, lc_deleted c @ [deletion e])"
        using Release_uncached [OF cs e(1) one] False by (auto simp: cached_def)
      have ca: "cached A' = cached A" "s_lru A' = s_lru A" "s_used A' = s_used A" by (simp_all add: A' s_delete_def cached_def)
      have "map (charge_at A') (s_lru A @ s_used A) = map (charge_at A) (s_lru A @ s_used A)"
        using False by (auto simp: A' s_delete_def charge_at_def cached_def)
      then have "s_usage A' = s_usage A" unfolding s_usage_def ca(2,3) by (simp only:)
      moreover have "bounds A' n" using b ca by (auto simp: bounds_def A' s_delete_def)
      moreover have "has_key A' key hash x \<Longrightarrow> has_key A key hash x" for key hash x
        by (auto simp: has_key_def A' s_delete_def split: if_splits)
      then have "unique A' (cached A')" using u unfolding unique_def ca(1) by blast
      ultimately have "repr c' A' n" using c'(2,3) cnt ca by (simp add: repr_def counters_def) (simp add: A' s_delete_def deletion_def)
      then show ?thesis using that c'(1) by (simp add: lc_Release_def)
    qed
  qed
qed

lemma prune_refines:
  assumes "repr c A n"
  obtains c' where "lc_Prune c = Some c'" "repr c' (s_prune A) n"
  using evict_refines [OF assms, of "\<lambda>_. True" "\<lambda>_. True"] by (auto simp: lc_Prune_def s_prune_def)

text \<open>A new handle, before it is in a list.\<close>

lemma new_handle:
  assumes "cstate c xs ys S es" "lc_store c a = None" "h_next e = None" "h_prev e = None" "h_next_hash e = None" "a \<notin> S"
    and "c' = c\<lparr>lc_store := (lc_store c)(a \<mapsto> e)\<rparr>"
  shows "two_lists c' {a} Lru xs InUse ys" "table_of c' S" "handles c' = (handles c)(a := Some (bare e))" "counters c' = counters c"
proof -
  have nodes: "get_next c' n = get_next c n \<and> get_prev c' n = get_prev c n" for n
    by (cases n) (simp_all add: assms)
  have nh: "next_hash c' x = next_hash c x" for x by (simp add: next_hash_def assms)
  show hd: "handles c' = (handles c)(a := Some (bare e))" by (auto simp: handles_def assms)
  have out: "a \<notin> set (xs @ ys)" using assms(1,2) unfolding cstate_def two_lists_def by (metis handles_None)
  have l: "two_lists c {} Lru xs InUse ys" "table_of c S" using assms(1) by (simp_all add: cstate_def)
  show "two_lists c' {a} Lru xs InUse ys"
    by (rule two_lists_cong [OF _ _ _ _ _ l(1), of "{a}"]) (use nodes hd out in auto)
  show "table_of c' S"
    by (rule table_of_cong [OF _ _ _ l(2)]) (use nh hd assms(6) in \<open>auto simp: assms(7)\<close>)
  show "counters c' = counters c" by (simp add: counters_def assms)
qed

text \<open>Insertion up to the erasure of the old entry.\<close>

lemma insert_new:
  assumes "cstate c xs ys S es" "es a = None" "S = set (xs @ ys)" "card S < 2 ^ 31"
    and "h = \<lparr>h_value = val, h_deleter = deleter, h_next_hash = None, h_next = None, h_prev = None, h_charge = charge,
      h_in_cache = False, h_refs = 1, h_hash = hash, h_key_data = key\<rparr>"
    and "e = \<lparr>e_key = key, e_hash = hash, e_value = val, e_deleter = deleter, e_charge = charge, e_clients = 1\<rparr>"
  obtains c1 c2 p c3 where
    "upd_handle a (\<lambda>e. e\<lparr>h_refs := h_refs e + 1, h_in_cache := True\<rparr>) (c\<lparr>lc_store := (lc_store c)(a \<mapsto> h)\<rparr>) = Some c1"
    "LRU_Append InUse (Entry a) c1 = Some c2" "ht_Insert a (c2\<lparr>lc_usage := lc_usage c2 + charge\<rparr>) = Some (p, c3)"
    "\<forall>b. p = Some b \<longrightarrow> b \<in> S \<and> matches c key hash b" "p = None \<longrightarrow> (\<forall>b \<in> S. \<not> matches c key hash b)"
    "cstate c3 xs (ys @ [a]) (insert a (S - set_option p)) (es(a \<mapsto> e))"
    "counters c3 = (lc_capacity c, lc_usage c + charge, lc_deleted c)"
proof -
  have free: "lc_store c a = None" using cstate_facts(3) [OF assms(1)] assms(2) handles_None by metis
  have notin: "a \<notin> set (xs @ ys)" using cstate_facts(5) [OF assms(1)] assms(2) by blast
  define c0 where "c0 = c\<lparr>lc_store := (lc_store c)(a \<mapsto> h)\<rparr>"
  have aS: "a \<notin> S" using notin assms(3) by simp
  have c0: "two_lists c0 {a} Lru xs InUse ys" "table_of c0 S" "handles c0 = (handles c)(a := Some (bare h))" "counters c0 = counters c"
    using new_handle [OF assms(1) free _ _ _ aS c0_def] assms(5) by simp_all
  let ?f = "\<lambda>e. e\<lparr>h_refs := h_refs e + 1, h_in_cache := True\<rparr> :: ('a, 'b) lru_handle"
  have st0: "lc_store c0 a = Some h" by (simp add: c0_def)
  obtain c1 where c1: "upd_handle a ?f c0 = Some c1" "data_only c0 c1" "handles c1 = (handles c0)(a := Some (?f (bare h)))"
      "counters c1 = counters c0"
    using upd_handle_ok [OF st0, of ?f] by (auto simp: bare_def)
  have hd0: "handles c0 a = Some (bare h)" using c0(3) by simp
  have l1: "two_lists c1 {a} Lru xs InUse ys" using two_lists_data [OF c1(2,3) _ c0(1)] hd0 by simp
  have t1: "table_of c1 S" using table_of_data [OF c1(2,3) hd0 _ c0(2)] by simp
  have "handles c1 a \<noteq> None" "a \<notin> set (ys @ xs)" using c1(3) notin by auto
  then obtain c2 where c2: "LRU_Append InUse (Entry a) c1 = Some c2" "two_lists c2 ({a} - {a}) InUse (ys @ [a]) Lru xs" "links_only c1 c2"
    using two_lists_append [OF two_lists_sym [OF l1]] by blast
  define c2' where "c2' = c2\<lparr>lc_usage := lc_usage c2 + charge\<rparr>"
  have views: "get_next c2' = get_next c2" "get_prev c2' = get_prev c2" "next_hash c2' = next_hash c2" "handles c2' = handles c2"
    unfolding c2'_def by (rule usage_views)+
  have tab: "lc_table c2' = lc_table c2" by (simp add: c2'_def)
  have l2: "two_lists c2' {} Lru xs InUse (ys @ [a])"
    using two_lists_sym [OF c2(2)] two_lists_views [OF views(1,2,4)] by simp
  have "table_of c2 S" using table_of_links_only [OF c2(3) t1] .
  then have t2: "table_of c2' S" by (rule table_of_cong [rotated 3]) (auto simp: views tab)
  have hd2: "handles c2' = (handles c)(a := Some (?f (bare h)))" using views(4) c2(3) c1(3) c0(3) by (simp add: links_only_def)
  have ag: "agrees True (?f (bare h)) e" by (simp add: agrees_def assms(5,6))
  have st2: "stored c2' (set (xs @ ys @ [a])) (es(a \<mapsto> e))"
    unfolding stored_def
  proof
    fix x show "rel_option (agrees (x \<in> set (xs @ ys @ [a]))) (handles c2' x) ((es(a \<mapsto> e)) x)"
    proof (cases "x = a")
      case False
      have "rel_option (agrees (x \<in> set (xs @ ys))) (handles c x) (es x)" using assms(1) by (simp add: cstate_def stored_def)
      then show ?thesis using False hd2 by simp
    qed (use hd2 ag in simp)
  qed
  have cs2: "cstate c2' xs (ys @ [a]) S (es(a \<mapsto> e))" using l2 t2 st2 by (simp add: cstate_def)
  have k: "\<forall>x \<in> S. keyed c2' x" "keyed c2' a"
  proof -
    have "\<forall>x \<in> S. handles c2' x \<noteq> None" "handles c2' a \<noteq> None" using t2 hd2 by (simp_all add: table_of_def)
    then show "\<forall>x \<in> S. keyed c2' x" "keyed c2' a" using cstate_facts(2) [OF cs2] by (simp_all add: handles_None)
  qed
  have ha: "handles c2' a = Some (?f (bare h))" using hd2 by simp
  have kh: "h_key_data (?f (bare h)) = key" "h_hash (?f (bare h)) = hash" by (simp_all add: assms(5))
  obtain p c3 where c3: "ht_Insert a c2' = Some (p, c3)"
      "\<forall>b. p = Some b \<longrightarrow> b \<in> S \<and> matches c2' (h_key_data (?f (bare h))) (h_hash (?f (bare h))) b"
      "p = None \<longrightarrow> (\<forall>b \<in> S. \<not> matches c2' (h_key_data (?f (bare h))) (h_hash (?f (bare h))) b)"
      "table_of c3 (insert a (S - set_option p))" "table_only c2' c3"
    using ht_Insert_ok [OF t2 k ha aS assms(4)] .
  have m: "matches c2' key hash b = matches c key hash b" if "b \<in> S" for b
    using that aS by (auto simp: matches_def hd2)
  have cnt: "counters c3 = (lc_capacity c, lc_usage c + charge, lc_deleted c)"
    using table_only_cong(5) [OF c3(5)] c2(3) c1(4) c0(4) by (simp add: counters_def c2'_def links_only_def)
  show ?thesis
  proof (rule that)
    show "upd_handle a ?f (c\<lparr>lc_store := (lc_store c)(a \<mapsto> h)\<rparr>) = Some c1" using c1(1) by (simp add: c0_def)
    show "LRU_Append InUse (Entry a) c1 = Some c2" by (rule c2(1))
    show "ht_Insert a (c2\<lparr>lc_usage := lc_usage c2 + charge\<rparr>) = Some (p, c3)" using c3(1) by (simp add: c2'_def)
    show "\<forall>b. p = Some b \<longrightarrow> b \<in> S \<and> matches c key hash b" using c3(2) m unfolding kh by blast
    show "p = None \<longrightarrow> (\<forall>b \<in> S. \<not> matches c key hash b)" using c3(3) m unfolding kh by blast
    show "cstate c3 xs (ys @ [a]) (insert a (S - set_option p)) (es(a \<mapsto> e))" using cstate_table_only [OF cs2 c3(5,4)] .
    show "counters c3 = (lc_capacity c, lc_usage c + charge, lc_deleted c)" by (rule cnt)
  qed
qed

lemma insert_refines:
  assumes "repr c A n" "n < 2 ^ 31" "0 < s_capacity A" "s_insert a key hash val charge deleter A = Some A'"
  obtains c' where "lc_Insert a key hash val charge deleter c = Some (a, c')" "repr c' A' (n + 1)"
proof -
  have cs: "cstate c (s_lru A) (s_used A) (cached A) (s_entries A)" and cnt: "counters c = (s_capacity A, s_usage A, s_deleted A)"
    and b: "bounds A n" and u: "unique A (cached A)" using assms by (simp_all add: repr_def)
  define e where "e = \<lparr>e_key = key, e_hash = hash, e_value = val, e_deleter = deleter, e_charge = charge, e_clients = 1\<rparr>"
  define A1 where "A1 = A\<lparr>s_used := s_used A @ [a], s_entries := (s_entries A)(a \<mapsto> e)\<rparr>"
  define A2 where "A2 = (case s_find key hash A of None \<Rightarrow> A1 | Some b \<Rightarrow> s_drop b A1)"
  have free: "s_entries A a = None" using assms(4) by (auto simp: s_insert_def split: if_splits)
  then have A': "A' = s_evict (\<lambda>A. s_usage A > s_capacity A) (s_lru A2) A2"
    using assms(4) unfolding s_insert_def Let_def A2_def A1_def e_def by simp
  have "card (cached A) < 2 ^ 31" using b assms(2) by (simp add: bounds_def)
  then obtain c1 c2 p c3 where c: "upd_handle a (\<lambda>e. e\<lparr>h_refs := h_refs e + 1, h_in_cache := True\<rparr>)
        (c\<lparr>lc_store := (lc_store c)(a \<mapsto> \<lparr>h_value = val, h_deleter = deleter, h_next_hash = None, h_next = None, h_prev = None,
          h_charge = charge, h_in_cache = False, h_refs = 1, h_hash = hash, h_key_data = key\<rparr>)\<rparr>) = Some c1"
      "LRU_Append InUse (Entry a) c1 = Some c2" "ht_Insert a (c2\<lparr>lc_usage := lc_usage c2 + charge\<rparr>) = Some (p, c3)"
      "\<forall>b. p = Some b \<longrightarrow> b \<in> cached A \<and> matches c key hash b" "p = None \<longrightarrow> (\<forall>b \<in> cached A. \<not> matches c key hash b)"
      "cstate c3 (s_lru A) (s_used A @ [a]) (insert a (cached A - set_option p)) ((s_entries A)(a \<mapsto> e))"
      "counters c3 = (lc_capacity c, lc_usage c + charge, lc_deleted c)"
    using insert_new [OF cs free cached_def _ refl e_def] by blast
  have p: "s_find key hash A = p" using s_find_eq [OF u] c(4,5) matches_has_key [OF cs] by metis
  have out: "a \<notin> cached A" using cstate_facts(5) [OF cs] free unfolding cached_def by metis
  have A1: "s_lru A1 = s_lru A" "s_used A1 = s_used A @ [a]" "s_entries A1 = (s_entries A)(a \<mapsto> e)" "s_deleted A1 = s_deleted A"
    "s_capacity A1 = s_capacity A" "cached A1 = insert a (cached A)" by (simp_all add: A1_def cached_def)
  have hk: "has_key A1 k h x = has_key A k h x" if "x \<in> cached A" for k h x using that out by (auto simp: has_key_def A1)
  have hka: "has_key A1 k h a \<longleftrightarrow> k = key \<and> h = hash" for k h by (auto simp: has_key_def A1 e_def)
  have uniq: "unique A1 (cached A1 - set_option p)"
    using u hk hka s_find_eq c(4,5) out matches_has_key [OF cs] unfolding unique_def A1(6)
    by (cases p) (auto, metis+)
  have "map (charge_at A1) (s_lru A @ s_used A) = map (charge_at A) (s_lru A @ s_used A)"
    using out by (auto simp: charge_at_def A1 cached_def)
  then have "sum_list (map (charge_at A1) (s_lru A @ s_used A)) = s_usage A" unfolding s_usage_def by (simp only:)
  moreover have "s_usage A1 = sum_list (map (charge_at A1) (s_lru A @ s_used A)) + charge_at A1 a"
    by (simp add: s_usage_def A1(1,2))
  ultimately have us: "s_usage A1 = s_usage A + charge" by (simp add: charge_at_def A1(3) e_def)
  have cnt1: "counters c3 = (s_capacity A1, s_usage A1, s_deleted A1)" using c(7) cnt us A1 by (simp add: counters_def)
  have "bounds A1 (n + 1)"
    using b out by (fastforce simp: bounds_def A1 e_def cached_def card_insert_if)
  moreover have pin: "set_option p \<subseteq> cached A" using c(4) by (cases p) auto
  then have S: "insert a (cached A - set_option p) = cached A1 - set_option p" using out A1(6) by auto
  ultimately obtain c4 where c4: "FinishErase p c3 = Some (p \<noteq> None, c4)" "repr c4 A2 (n + 1)"
  proof (cases p)
    case None
    then show ?thesis using that [of c3] c(6) cnt1 \<open>bounds A1 (n + 1)\<close> uniq p S
      by (simp add: FinishErase_def A2_def repr_def A1)
  next
    case (Some x)
    then have "x \<in> cached A1" using pin A1(6) by auto
    moreover have "cstate c3 (s_lru A1) (s_used A1) (cached A1 - {x}) (s_entries A1)" using c(6) S Some A1 by simp
    ultimately show ?thesis
      using erase_ok [OF _ cnt1 \<open>bounds A1 (n + 1)\<close>, of x] uniq that p Some by (auto simp: A2_def)
  qed
  have go: "(lc_usage c > lc_capacity c) = (s_usage A > s_capacity A)" if "repr c A (n + 1)" for c A
    using that by (simp add: repr_def counters_def)
  obtain c' where c': "evict (\<lambda>c. lc_usage c > lc_capacity c) c4 = Some c'" "repr c' A' (n + 1)"
    using evict_refines [where go = "\<lambda>c. lc_usage c > lc_capacity c" and s_go = "\<lambda>A. s_usage A > s_capacity A", OF c4(2) go]
    unfolding A' by blast
  have cap: "0 < lc_capacity c" using cnt assms(3) by (simp add: counters_def)
  have "lc_store c a = None" using cstate_facts(3) [OF cs] free handles_None by metis
  then have "lc_Insert a key hash val charge deleter c = Some (a, c')"
    using c(1-3) c4(1) c'(1) cap by (simp add: lc_Insert_def)
  then show ?thesis using that c'(2) by blast
qed

section \<open>Destruction\<close>

definition unused :: "('v, 'd) lru_cache \<Rightarrow> nat \<Rightarrow> ('v, 'd) entry \<Rightarrow> bool" where
  "unused c x e \<longleftrightarrow> keyed c x \<and> e_clients e = 0 \<and> (\<exists>h. lc_store c x = Some h \<and> agrees True (bare h) e)"

lemma destroy_step:
  assumes "unused c x e"
  shows "destroy_loop (Entry x) c = Option.bind (get_next c (Entry x)) (\<lambda>nxt.
    destroy_loop nxt (c\<lparr>lc_deleted := lc_deleted c @ [deletion e], lc_store := (lc_store c)(x := None)\<rparr>))"
proof -
  obtain h where h: "lc_store c x = Some h" "agrees True (bare h) e" and cl: "e_clients e = 0" and k: "keyed c x"
    using assms by (auto simp: unused_def)
  have r: "h_refs h = 1" "h_in_cache h" using h(2) cl by (simp_all add: agrees_def word_unat_eq_iff)
  obtain n where "h_next h = Some n" "n \<noteq> Entry x" using k h(1) by (auto simp: keyed_def)
  then show ?thesis using h r
    by (subst destroy_loop.simps)
      (simp add: upd_handle_def Unref_def deallocate_def h_key_def deletion_def agrees_def)
qed

lemma destroy_loop_ok:
  assumes "linked (get_next c) (get_prev c) (map Entry xs @ [Lru])" "distinct xs" "\<forall>x \<in> set xs. \<exists>e. es x = Some e \<and> unused c x e"
  shows "\<exists>c'. destroy_loop (hd (map Entry xs @ [Lru])) c = Some c' \<and> lc_deleted c' = lc_deleted c @ map (\<lambda>x. deletion (the (es x))) xs"
  using assms
proof (induction xs arbitrary: c)
  case Nil
  then show ?case by (subst destroy_loop.simps) simp
next
  case (Cons x xs)
  obtain e where e: "es x = Some e" "unused c x e" using Cons.prems(3) by auto
  let ?c = "c\<lparr>lc_deleted := lc_deleted c @ [deletion e], lc_store := (lc_store c)(x := None)\<rparr>"
  let ?nxt = "hd (map Entry xs @ [Lru])"
  have nxt: "get_next c (Entry x) = Some ?nxt" using Cons.prems(1) by (cases xs) (auto simp del: get_next.simps)
  have lk: "linked (get_next c) (get_prev c) (map Entry xs @ [Lru])" using Cons.prems(1) by (cases xs) auto
  have same: "get_next ?c n = get_next c n \<and> get_prev ?c n = get_prev c n" if "n \<noteq> Entry x" for n
    using that by (cases n) auto
  have "linked (get_next ?c) (get_prev ?c) (map Entry xs @ [Lru]) = linked (get_next c) (get_prev c) (map Entry xs @ [Lru])"
  proof (rule linked_cong)
    show "\<forall>a \<in> set (butlast (map Entry xs @ [Lru])). get_next ?c a = get_next c a" using same Cons.prems(2) by auto
    have "set (tl (map Entry xs @ [Lru])) \<subseteq> insert Lru (Entry ` set xs)" by (cases xs) auto
    then show "\<forall>b \<in> set (tl (map Entry xs @ [Lru])). get_prev ?c b = get_prev c b" using same Cons.prems(2) by fastforce
  qed
  moreover have "unused ?c y f" if "y \<in> set xs" "unused c y f" for y f
  proof -
    have "y \<noteq> x" using that Cons.prems(2) by auto
    then show ?thesis using that(2) by (simp add: unused_def keyed_def)
  qed
  then have "\<forall>y \<in> set xs. \<exists>e. es y = Some e \<and> unused ?c y e" using Cons.prems(3) by (meson list.set_intros(2))
  ultimately obtain c' where "destroy_loop ?nxt ?c = Some c'" "lc_deleted c' = lc_deleted ?c @ map (\<lambda>x. deletion (the (es x))) xs"
    using Cons.IH [of ?c] lk Cons.prems(2) by auto
  then show ?case using destroy_step [OF e(2)] nxt e(1) by (simp del: get_next.simps)
qed

lemma s_evict_all:
  assumes "distinct xs" "\<forall>x \<in> set xs. \<exists>e. s_entries A x = Some e \<and> e_clients e = 0"
  shows "s_deleted (s_evict (\<lambda>_. True) xs A) = s_deleted A @ map (\<lambda>x. deletion (the (s_entries A x))) xs"
  using assms
proof (induction xs arbitrary: A)
  case (Cons x xs)
  obtain e where e: "s_entries A x = Some e" "e_clients e = 0" using Cons.prems(2) by auto
  have "\<forall>y \<in> set xs. s_entries (s_drop x A) y = s_entries A y" using Cons.prems(1) by (auto simp: s_drop_sel [OF e(1)])
  then have "map (\<lambda>y. deletion (the (s_entries (s_drop x A) y))) xs = map (\<lambda>y. deletion (the (s_entries A y))) xs"
    and "\<forall>y \<in> set xs. \<exists>e. s_entries (s_drop x A) y = Some e \<and> e_clients e = 0" using Cons.prems(2) by auto
  moreover have "distinct xs" using Cons.prems(1) by simp
  ultimately have "s_deleted (s_evict (\<lambda>_. True) xs (s_drop x A)) = s_deleted (s_drop x A) @ map (\<lambda>y. deletion (the (s_entries A y))) xs"
    using Cons.IH [of "s_drop x A"] by simp
  then show ?case using e by (simp add: s_drop_sel(4) [OF e(1)])
qed simp

lemma destroy_refines:
  assumes "repr c A n"
  shows "map_option lc_deleted (destroy_LRUCache c) = (if s_used A = [] then Some (s_deleted (s_prune A)) else None)"
proof -
  have cs: "cstate c (s_lru A) (s_used A) (cached A) (s_entries A)" and b: "bounds A n" and d: "lc_deleted c = s_deleted A"
    using assms by (simp_all add: repr_def counters_def)
  have used: "ring (get_next c) (get_prev c) InUse (map Entry (s_used A))" and lru: "ring (get_next c) (get_prev c) Lru (map Entry (s_lru A))"
    using cs by (simp_all add: cstate_def two_lists_def)
  show ?thesis
  proof (cases "s_used A")
    case Nil
    have head: "get_next c InUse = Some InUse" using used Nil by (simp add: ring_def)
    let ?l = "map Entry (s_lru A) @ [Lru]"
    have "linked (get_next c) (get_prev c) (Lru # ?l)" using lru by (simp add: ring_def)
    then have first: "get_next c Lru = Some (hd ?l)" and lk: "linked (get_next c) (get_prev c) ?l"
      by (cases "s_lru A"; simp del: get_next.simps get_prev.simps)+
    have "\<exists>e. s_entries A x = Some e \<and> unused c x e" if "x \<in> set (s_lru A)" for x
    proof -
      have mem: "x \<in> set (s_lru A @ s_used A)" using that by simp
      then obtain e where e: "s_entries A x = Some e" using cstate_facts(5) [OF cs] by auto
      obtain h where h: "lc_store c x = Some h" "agrees True (bare h) e"
        using stored_Some [of c "set (s_lru A @ s_used A)" "s_entries A" x e] cs e mem by (auto simp: cstate_def)
      have "keyed c x" using cstate_facts(2) [OF cs] h(1) by simp
      then show ?thesis using e h b that by (auto simp: unused_def bounds_def)
    qed
    moreover have dist: "distinct (s_lru A)" using cstate_facts(1) [OF cs] by simp
    ultimately obtain c' where c': "destroy_loop (hd ?l) c = Some c'"
        "lc_deleted c' = lc_deleted c @ map (\<lambda>x. deletion (the (s_entries A x))) (s_lru A)"
      using destroy_loop_ok [OF lk, of "s_entries A"] by blast
    have "\<forall>x \<in> set (s_lru A). \<exists>e. s_entries A x = Some e \<and> e_clients e = 0"
      using \<open>\<And>x. x \<in> set (s_lru A) \<Longrightarrow> \<exists>e. s_entries A x = Some e \<and> unused c x e\<close> by (meson unused_def)
    then have "s_deleted (s_prune A) = s_deleted A @ map (\<lambda>x. deletion (the (s_entries A x))) (s_lru A)"
      unfolding s_prune_def by (rule s_evict_all [OF dist])
    then show ?thesis using c' first head d Nil by (simp add: destroy_LRUCache_def)
  next
    case (Cons a as)
    have "get_next c InUse = Some (Entry a)" using used Cons by (simp add: ring_def)
    then show ?thesis using Cons by (simp add: destroy_LRUCache_def)
  qed
qed

section \<open>Sequences\<close>

lemma new_refines:
  obtains c :: "('v, 'd) lru_cache" where "LRUCache garbage = Some c" "repr (SetCapacity capacity c) (s_new capacity) 0"
proof -
  let ?c = "\<lparr>lc_capacity = garbage, lc_usage = 0, lc_lru = (Some Lru, Some Lru), lc_in_use = (Some InUse, Some InUse),
       lc_table = \<lparr>ht_length = 0, ht_elems = 0, ht_list = []\<rparr>, lc_store = Map.empty, lc_deleted = []\<rparr> :: ('v, 'd) lru_cache"
  obtain c where c: "Resize ?c = Some c" "table_of c {}" "table_only ?c c"
    using Resize_ok [of "{}" ?c] by (auto simp: table_holds_def)
  let ?d = "SetCapacity capacity c"
  have hd: "handles ?c = Map.empty" by (auto simp: handles_def)
  have "get_next ?d n = get_next c n \<and> get_prev ?d n = get_prev c n" for n by (cases n) (simp_all add: SetCapacity_def)
  then have "get_next ?d = get_next c" "get_prev ?d = get_prev c" by auto
  moreover have "handles ?d = handles c" "next_hash ?d = next_hash c"
    by (auto simp: SetCapacity_def next_hash_def handles_def)
  ultimately have v: "get_next ?d = get_next ?c" "get_prev ?d = get_prev ?c" "handles ?d = Map.empty" "next_hash ?d = next_hash c"
    using c(3) hd by (simp_all only: table_only_def)
  have "two_lists ?d {} Lru [] InUse []" unfolding two_lists_def v ring_def by auto
  moreover have "table_of ?d {}"
    by (rule table_of_cong [OF _ _ _ c(2)]) (simp_all add: SetCapacity_def)
  moreover have "counters ?d = (capacity, 0, [])" using c(3) by (simp add: table_only_def counters_def SetCapacity_def)
  ultimately have "repr ?d (s_new capacity) 0"
    using v(3) by (simp add: repr_def cstate_def s_new_def stored_def cached_def bounds_def unique_def s_usage_def)
  then show ?thesis using that c(1) by (simp add: LRUCache_def)
qed

lemma capacity_drop [simp]: "s_capacity (s_drop a A) = s_capacity A"
  by (simp add: s_drop_def Let_def s_delete_def split: option.split)

lemma capacity_evict [simp]: "s_capacity (s_evict go xs A) = s_capacity A"
  by (induction xs arbitrary: A) simp_all

lemma capacity_op: "spec_op x A = Some (r, A') \<Longrightarrow> s_capacity A' = s_capacity A"
  by (cases x)
    (auto simp: s_insert_def s_lookup_def s_release_def s_erase_def s_prune_def s_delete_def Let_def
      split: if_splits option.splits)

lemma op_refines:
  assumes "repr c A n" "n < 2 ^ 31" "0 < s_capacity A" "spec_op x A = Some (r, A')"
  obtains c' where "run_op x c = Some (r, c')" "repr c' A' (n + 1)"
proof (cases x)
  case (InsertOp a key hash val charge deleter)
  then have "s_insert a key hash val charge deleter A = Some A'" "r = Some a" using assms(4) by auto
  then show ?thesis using insert_refines [OF assms(1-3)] that InsertOp by (metis option.simps(9) run_op.simps(1) case_prod_conv)
next
  case (LookupOp key hash)
  then have "s_lookup key hash A = (r, A')" using assms(4) by simp
  then show ?thesis using lookup_refines [OF assms(1,2), of key hash] that LookupOp by (metis fst_conv snd_conv run_op.simps(2))
next
  case (ReleaseOp a)
  then have "s_release a A = Some A'" "r = None" using assms(4) by auto
  then obtain c' where "lc_Release a c = Some c'" "repr c' A' n" using release_refines [OF assms(1)] by blast
  then show ?thesis using that [of c'] ReleaseOp \<open>r = None\<close> repr_mono [of c' A' n "n + 1"] by simp
next
  case (EraseOp key hash)
  then obtain c' where "lc_Erase key hash c = Some c'" "repr c' A' n" using erase_refines [OF assms(1)] assms(4) by auto
  then show ?thesis using that [of c'] EraseOp assms(4) repr_mono [of c' A' n "n + 1"] by simp
next
  case PruneOp
  then obtain c' where "lc_Prune c = Some c'" "repr c' A' n" using prune_refines [OF assms(1)] assms(4) by auto
  then show ?thesis using that [of c'] PruneOp assms(4) repr_mono [of c' A' n "n + 1"] by simp
qed

lemma run_refines:
  assumes "repr c A n" "n + length ops \<le> 2 ^ 31" "0 < s_capacity A" "run spec_op ops A = Some (rs, A')"
  shows "\<exists>c'. run run_op ops c = Some (rs, c') \<and> repr c' A' (n + length ops)"
  using assms
proof (induction ops arbitrary: c A n rs)
  case Nil
  then show ?case by simp
next
  case (Cons x xs)
  obtain r A1 rs' where A1: "spec_op x A = Some (r, A1)" "run spec_op xs A1 = Some (rs', A')" "rs = r # rs'"
    using Cons.prems(4) by (auto simp: bind_eq_Some_conv)
  have n: "n < 2 ^ 31" "n + 1 + length xs \<le> 2 ^ 31" using Cons.prems(2) by simp_all
  obtain c1 where c1: "run_op x c = Some (r, c1)" "repr c1 A1 (n + 1)" using op_refines [OF Cons.prems(1) n(1) Cons.prems(3) A1(1)] .
  have "0 < s_capacity A1" using capacity_op [OF A1(1)] Cons.prems(3) by simp
  then obtain c' where "run run_op xs c1 = Some (rs', c')" "repr c' A' (n + 1 + length xs)"
    using Cons.IH [OF c1(2) n(2) _ A1(2)] by blast
  then show ?case using c1(1) A1(3) by simp
qed

text \<open>
  C37. The LRU cache refines its specification: whatever sequence of insertions, lookups, releases,
  erasures and prunings a client performs on a new cache, as long as it releases only handles that
  it holds and \<open>malloc\<close> returns addresses that are free, no assertion fails and no freed memory is
  used, every operation returns the handle the specification says, the total charge is that of the
  cached entries, and the deleters have been called exactly for the entries that are out of the
  cache and of the clients' hands, in that order. When no client holds a cached handle the cache
  can be destroyed, and the remaining entries are deleted oldest first.
\<close>

theorem cache_refines:
  fixes ops :: "('v, 'd) cache_op list"
  assumes "0 < capacity" and "length ops \<le> 2 ^ 31" and "run spec_op ops (s_new capacity) = Some (rs, A)"
  shows "Option.bind (LRUCache garbage) (\<lambda>c.
    map_option (\<lambda>(rs, c). (rs, TotalCharge c, lc_deleted c, map_option lc_deleted (destroy_LRUCache c)))
      (run run_op ops (SetCapacity capacity c))) =
    Some (rs, s_usage A, s_deleted A, if s_used A = [] then Some (s_deleted (s_prune A)) else None)"
proof -
  obtain c :: "('v, 'd) lru_cache" where c: "LRUCache garbage = Some c" "repr (SetCapacity capacity c) (s_new capacity) 0"
    by (rule new_refines)
  have "0 < s_capacity (s_new capacity)" using assms(1) by (simp add: s_new_def)
  then obtain c' where c': "run run_op ops (SetCapacity capacity c) = Some (rs, c')" "repr c' A (0 + length ops)"
    using run_refines [OF c(2) _ _ assms(3)] assms(2) by auto
  have "TotalCharge c' = s_usage A" "lc_deleted c' = s_deleted A"
    using c'(2) by (simp_all add: repr_def counters_def TotalCharge_def)
  then show ?thesis using c(1) c'(1) destroy_refines [OF c'(2)] by simp
qed

text \<open>Three entries in a cache for two: the oldest that no client holds goes, the second is replaced and deleted when it is released.\<close>

theorem cache_refines_witness:
  "Option.bind (LRUCache 0) (\<lambda>c.
    map_option (\<lambda>(rs, c). (rs, TotalCharge c, lc_deleted c, map_option lc_deleted (destroy_LRUCache c)))
      (run run_op [InsertOp 10 [1] 7 ''a'' 1 (), ReleaseOp 10, InsertOp 11 [2] 8 ''b'' 1 (), InsertOp 12 [3] 7 ''c'' 1 (),
         LookupOp [2] 8, InsertOp 13 [2] 8 ''d'' 1 (), ReleaseOp 11, ReleaseOp 11, ReleaseOp 12, ReleaseOp 13] (SetCapacity 2 c))) =
    Some ([Some 10, None, Some 11, Some 12, Some 11, Some 13, None, None, None, None], 2,
      [((), [1], ''a''), ((), [2], ''b'')], Some [((), [1], ''a''), ((), [2], ''b''), ((), [3], ''c''), ((), [2], ''d'')])"
proof -
  let ?ops = "[InsertOp 10 [1] 7 ''a'' 1 (), ReleaseOp 10, InsertOp 11 [2] 8 ''b'' 1 (), InsertOp 12 [3] 7 ''c'' 1 (),
         LookupOp [2] 8, InsertOp 13 [2] 8 ''d'' 1 (), ReleaseOp 11, ReleaseOp 11, ReleaseOp 12, ReleaseOp 13]"
  obtain A where A: "run spec_op ?ops (s_new 2) =
      Some ([Some 10, None, Some 11, Some 12, Some 11, Some 13, None, None, None, None], A)"
    "s_usage A = 2" "s_deleted A = [((), [1], ''a''), ((), [2], ''b'')]" "s_used A = []"
    "s_deleted (s_prune A) = [((), [1], ''a''), ((), [2], ''b''), ((), [3], ''c''), ((), [2], ''d'')]"
    by (simp add: s_new_def s_insert_def s_lookup_def s_release_def s_prune_def s_find_def has_key_def s_usage_def charge_at_def
        cached_def s_drop_def s_delete_def Let_def)
  then show ?thesis using cache_refines [of 2 ?ops _ A 0] by simp
qed

text \<open>
  With capacity 0 nothing is cached, and \<open>next\<close> of the handle is never written. \<open>Unref\<close> reads it to
  find the key for the deleter: releasing the handle reads memory that is not initialised.
\<close>

lemma capacity_0_release:
  fixes c :: "('v, 'd) lru_cache"
  assumes "LRUCache garbage = Some c"
  shows "Option.bind (lc_Insert a key hash val charge deleter (SetCapacity 0 c)) (\<lambda>(a, c). lc_Release a c) = None"
proof -
  obtain c0 :: "('v, 'd) lru_cache" where c0: "LRUCache garbage = Some c0" "repr (SetCapacity 0 c0) (s_new 0) 0" by (rule new_refines)
  let ?c = "SetCapacity 0 c"
  have r: "repr ?c (s_new 0) 0" using c0 assms by simp
  then have "cstate ?c [] [] {} Map.empty" "counters ?c = (0, 0, [])" by (simp_all add: repr_def s_new_def cached_def s_usage_def)
  then have "lc_store ?c a = None" "lc_capacity ?c = 0" "lc_usage ?c = 0"
    using cstate_facts(3) [of ?c "[]" "[]" "{}" Map.empty] handles_None [of ?c a] by (auto simp: counters_def)
  then show ?thesis
    by (simp add: lc_Insert_def Let_def evict.simps lc_Release_def Unref_def upd_handle_def deallocate_def h_key_def)
qed

end
