(* ===== verification/DbImpl.thy ===== *)
theory DbImpl
  imports WriteBatch LogReader
begin

text \<open>
  The write path and the log recovery of \<open>leveldb-library/db/db_impl.cc\<close>. Threads that call \<open>Write\<close>
  queue up; the one at the front writes a group of their batches to the log and the memtable while
  the mutex is unlocked, then tells the others. A thread's \<open>Writer\<close> object is an element of
  \<open>db_threads\<close>, in the order of the calls, and a pointer to it is its index. The steps of the threads
  under the mutex are atomic, and \<open>db_event\<close> executes one of them. What the compaction thread does is a
  parameter.
\<close>

section \<open>The state\<close>

definition kL0_SlowdownWritesTrigger :: int where
  "kL0_SlowdownWritesTrigger = 8"

definition kL0_StopWritesTrigger :: int where
  "kL0_StopWritesTrigger = 12"

record db_writer =
  dw_status :: Status
  dw_batch :: "write_batch option"
  dw_sync :: bool
  dw_done :: bool

text \<open>\<open>db_next_file\<close>, \<open>db_last_sequence\<close>, \<open>db_prev_log\<close> and \<open>db_l0_files\<close> belong to \<open>versions_\<close>.\<close>

record 'f db =
  db_threads :: "db_writer list"
  db_writers :: "nat list"
  db_mem :: memtable
  db_imm :: "memtable option"
  db_log :: "'f log_writer"
  db_log_number :: u64
  db_tmp_batch :: write_batch
  db_bg_error :: Status
  db_last_sequence :: u64
  db_next_file :: u64
  db_prev_log :: u64
  db_l0_files :: int

text \<open>
  The environment: file operations, the comparator and the options, the memory that a memtable
  uses, the addresses of the buffers that checksums depend on, and what has happened when a thread
  that waited or slept has the mutex again.
\<close>

record 'f db_env =
  de_file :: "'f WritableFile"
  de_sync :: "'f \<Rightarrow> Status \<times> 'f"
  de_new_file :: "u64 \<Rightarrow> Status \<times> 'f"
  de_comparator :: Comparator
  de_usage :: "memtable \<Rightarrow> nat"
  de_write_buffer_size :: nat
  de_address :: "u8 list \<Rightarrow> u64"
  de_stack :: u64
  de_wait :: "'f db \<Rightarrow> 'f db"

section \<open>Room for a write\<close>

definition ReuseFileNumber :: "u64 \<Rightarrow> 'f db \<Rightarrow> 'f db" where
  "ReuseFileNumber n d = (if db_next_file d = n + 1 then d\<lparr>db_next_file := n\<rparr> else d)"

text \<open>The loop; it goes on for as long as the compaction makes no room.\<close>

partial_function (option) room_loop :: "'f db_env \<Rightarrow> bool \<Rightarrow> bool \<Rightarrow> 'f db \<Rightarrow> (Status \<times> 'f db) option" where
  "room_loop env force allow_delay d =
     (if \<not> Status_ok (db_bg_error d) then Some (db_bg_error d, d)
      else if allow_delay \<and> db_l0_files d \<ge> kL0_SlowdownWritesTrigger then room_loop env force False (de_wait env d)
      else if \<not> force \<and> de_usage env (db_mem d) \<le> de_write_buffer_size env then Some (OK, d)
      else if db_imm d \<noteq> None then room_loop env force allow_delay (de_wait env d)
      else if db_l0_files d \<ge> kL0_StopWritesTrigger then room_loop env force allow_delay (de_wait env d)
      else if db_prev_log d \<noteq> 0 then None
      else
        (let new_log_number = db_next_file d;
             d = d\<lparr>db_next_file := db_next_file d + 1\<rparr>;
             (s, lfile) = de_new_file env new_log_number
         in if \<not> Status_ok s then Some (s, ReuseFileNumber new_log_number d)
            else room_loop env False allow_delay
              (d\<lparr>db_log_number := new_log_number, db_log := Writer lfile (de_stack env),
                 db_imm := Some (db_mem d), db_mem := MemTable\<rparr>)))"

declare room_loop.simps [code]

definition MakeRoomForWrite :: "'f db_env \<Rightarrow> bool \<Rightarrow> 'f db \<Rightarrow> (Status \<times> 'f db) option" where
  "MakeRoomForWrite env force d = (if db_writers d = [] then None else room_loop env force (\<not> force) d)"

section \<open>Groups of batches\<close>

text \<open>
  The loop over the writers behind the first. \<open>result\<close> is None while it is the first writer's own
  batch and then the contents of \<open>tmp_batch_\<close>.
\<close>

fun group_loop ::
    "'f db \<Rightarrow> db_writer \<Rightarrow> write_batch \<Rightarrow> u64 \<Rightarrow> u64 \<Rightarrow> write_batch option \<Rightarrow> nat \<Rightarrow> nat list
      \<Rightarrow> (write_batch option \<times> nat) option" where
  "group_loop d first batch max_size bytes result lastw [] = Some (result, lastw)"
| "group_loop d first batch max_size bytes result lastw (i # is) =
     (if i \<ge> length (db_threads d) then None
      else
        let w = db_threads d ! i in
        if dw_sync w \<and> \<not> dw_sync first then Some (result, lastw)
        else
          (case dw_batch w of
             None \<Rightarrow> group_loop d first batch max_size bytes result i is
           | Some b \<Rightarrow>
               let bytes = bytes + of_nat (length b) in
               if bytes > max_size then Some (result, lastw)
               else
                 Option.bind
                   (case result of
                      None \<Rightarrow> if WB_Count (db_tmp_batch d) = Some 0 then WB_Append (db_tmp_batch d) batch else None
                    | Some r \<Rightarrow> Some r) (\<lambda>r.
                 Option.bind (WB_Append r b) (\<lambda>r.
                   group_loop d first batch max_size bytes (Some r) i is))))"

text \<open>The batch in \<open>tmp_batch_\<close> if it is not the first writer's own, and the last writer.\<close>

definition BuildBatchGroup :: "'f db \<Rightarrow> (write_batch option \<times> nat) option" where
  "BuildBatchGroup d =
     (case db_writers d of
        [] \<Rightarrow> None
      | f # is \<Rightarrow>
         if f \<ge> length (db_threads d) then None
         else
           Option.bind (dw_batch (db_threads d ! f)) (\<lambda>batch.
             let bytes = of_nat (length batch) :: u64;
                 max_size = (if bytes \<le> 128 * 1024 then bytes + 128 * 1024 else 2 ^ 20)
             in group_loop d (db_threads d ! f) batch max_size bytes None f is))"

section \<open>Writing\<close>

text \<open>
  Where the thread at the front of the queue stands: nowhere, before the section in which the mutex
  is unlocked, and behind it. \<open>ph_own\<close> says that the group is the thread's own batch.
\<close>

datatype phase =
    Idle
  | Unlocked (ph_updates: write_batch) (ph_own: bool) (ph_last: nat) (ph_sequence: u64)
  | Locked Status (ph_group: "(bool \<times> bool \<times> u64) option") nat

record 'f machine =
  ma_db :: "'f db"
  ma_phase :: phase
  ma_returned :: "(nat \<times> Status) list"

definition RecordBackgroundError :: "Status \<Rightarrow> 'f db \<Rightarrow> 'f db" where
  "RecordBackgroundError s d = (if Status_ok (db_bg_error d) then d\<lparr>db_bg_error := s\<rparr> else d)"

definition upd_thread :: "nat \<Rightarrow> (db_writer \<Rightarrow> db_writer) \<Rightarrow> 'f db \<Rightarrow> 'f db" where
  "upd_thread i f d = d\<lparr>db_threads := (db_threads d)[i := f (db_threads d ! i)]\<rparr>"

text \<open>The loop at the end of \<open>Write\<close>, for the thread \<open>w\<close>.\<close>

fun pop_writers :: "nat \<Rightarrow> nat \<Rightarrow> Status \<Rightarrow> nat list \<Rightarrow> 'f db \<Rightarrow> 'f db option" where
  "pop_writers w lastw status [] d = None"
| "pop_writers w lastw status (ready # is) d =
     (let d = d\<lparr>db_writers := is\<rparr>;
          d = (if ready \<noteq> w then upd_thread ready (\<lambda>x. x\<lparr>dw_status := status, dw_done := True\<rparr>) d else d)
      in if ready = lastw then Some d else pop_writers w lastw status is d)"

text \<open>
  The steps: a thread calls \<open>Write\<close> and joins the queue; the thread at the front makes room and
  builds its group; it writes the log and the memtable; it takes the group's writers off the queue
  and returns; a thread that finds its batch done returns.
\<close>

datatype event = Arrive "write_batch option" bool | Lead | Commit | Finish | Wake nat

definition ev_arrive :: "write_batch option \<Rightarrow> bool \<Rightarrow> 'f machine \<Rightarrow> 'f machine option" where
  "ev_arrive batch sync m =
     (let d = ma_db m in
      Some (m\<lparr>ma_db := d\<lparr>db_threads := db_threads d @ [\<lparr>dw_status = OK, dw_batch = batch, dw_sync = sync, dw_done = False\<rparr>],
                         db_writers := db_writers d @ [length (db_threads d)]\<rparr>\<rparr>))"

definition ev_lead :: "'f db_env \<Rightarrow> 'f machine \<Rightarrow> 'f machine option" where
  "ev_lead env m =
     (case (ma_phase m, db_writers (ma_db m)) of
        (Idle, w # _) \<Rightarrow>
          if w \<ge> length (db_threads (ma_db m)) \<or> dw_done (db_threads (ma_db m) ! w) then None
          else
            let my_batch = dw_batch (db_threads (ma_db m) ! w) in
            Option.bind (MakeRoomForWrite env (my_batch = None) (ma_db m)) (\<lambda>(status, d).
              let last_sequence = db_last_sequence d in
              if Status_ok status \<and> my_batch \<noteq> None then
                Option.bind (BuildBatchGroup d) (\<lambda>(result, lastw).
                  let own = (result = None);
                      updates = WB_SetSequence (case result of None \<Rightarrow> the (dw_batch (db_threads d ! w)) | Some r \<Rightarrow> r)
                        (last_sequence + 1);
                      d = (if own then upd_thread w (\<lambda>x. x\<lparr>dw_batch := Some updates\<rparr>) d else d\<lparr>db_tmp_batch := updates\<rparr>)
                  in map_option (\<lambda>count.
                       m\<lparr>ma_db := d, ma_phase := Unlocked updates own lastw (last_sequence + of_int count)\<rparr>)
                       (WB_Count updates))
              else Some (m\<lparr>ma_db := d, ma_phase := Locked status None w\<rparr>))
      | _ \<Rightarrow> None)"

definition ev_commit :: "'f db_env \<Rightarrow> 'f machine \<Rightarrow> 'f machine option" where
  "ev_commit env m =
     (case (ma_phase m, db_writers (ma_db m)) of
        (Unlocked updates own lastw seqno, w # _) \<Rightarrow>
          let d = ma_db m in
          Option.bind (AddRecord (de_file env) (de_address env updates) updates (db_log d)) (\<lambda>(status, log).
            let sync = (Status_ok status \<and> dw_sync (db_threads d ! w));
                (status, dest) = (if sync then de_sync env (lw_dest log) else (status, lw_dest log));
                log = log\<lparr>lw_dest := dest\<rparr>;
                sync_error = (sync \<and> \<not> Status_ok status)
            in map_option (\<lambda>(status, mem).
                 m\<lparr>ma_db := d\<lparr>db_log := log, db_mem := mem\<rparr>,
                   ma_phase := Locked status (Some (sync_error, own, seqno)) lastw\<rparr>)
                 (if Status_ok status then WB_InsertInto (de_comparator env) updates (db_mem d)
                  else Some (status, db_mem d)))
      | _ \<Rightarrow> None)"

definition ev_finish :: "'f machine \<Rightarrow> 'f machine option" where
  "ev_finish m =
     (case (ma_phase m, db_writers (ma_db m)) of
        (Locked status grp lastw, w # _) \<Rightarrow>
          Option.bind
            (case grp of
               None \<Rightarrow> Some (ma_db m)
             | Some (sync_error, own, seqno) \<Rightarrow>
                 let d = (if sync_error then RecordBackgroundError status (ma_db m) else ma_db m);
                     d = (if own then d else d\<lparr>db_tmp_batch := WB_Clear\<rparr>)
                 in if seqno \<ge> db_last_sequence d then Some (d\<lparr>db_last_sequence := seqno\<rparr>) else None)
            (\<lambda>d. map_option (\<lambda>d. m\<lparr>ma_db := d, ma_phase := Idle, ma_returned := ma_returned m @ [(w, status)]\<rparr>)
              (pop_writers w lastw status (db_writers d) d))
      | _ \<Rightarrow> None)"

definition ev_wake :: "nat \<Rightarrow> 'f machine \<Rightarrow> 'f machine option" where
  "ev_wake i m =
     (if i < length (db_threads (ma_db m)) \<and> dw_done (db_threads (ma_db m) ! i) \<and> i \<notin> fst ` set (ma_returned m)
      then Some (m\<lparr>ma_returned := ma_returned m @ [(i, dw_status (db_threads (ma_db m) ! i))]\<rparr>)
      else None)"

fun db_event :: "'f db_env \<Rightarrow> event \<Rightarrow> 'f machine \<Rightarrow> 'f machine option" where
  "db_event env (Arrive batch sync) m = ev_arrive batch sync m"
| "db_event env Lead m = ev_lead env m"
| "db_event env Commit m = ev_commit env m"
| "db_event env Finish m = ev_finish m"
| "db_event env (Wake i) m = ev_wake i m"

text \<open>\<open>DB::Put\<close> and \<open>DB::Delete\<close>: the batch that they write.\<close>

definition DB_Put :: "u8 list \<Rightarrow> u8 list \<Rightarrow> write_batch option" where
  "DB_Put key val = WB_Put WB_Clear key val"

definition DB_Delete :: "u8 list \<Rightarrow> write_batch option" where
  "DB_Delete key = WB_Delete WB_Clear key"

section \<open>Reading\<close>

text \<open>\<open>Get\<close>: the memtables, then the table files, which are a parameter.\<close>

definition DBImpl_Get ::
    "'f db_env \<Rightarrow> (u8 list \<Rightarrow> u64 \<Rightarrow> get_result option) \<Rightarrow> u64 option \<Rightarrow> u8 list \<Rightarrow> 'f db \<Rightarrow> get_result option" where
  "DBImpl_Get env current_Get snapshot key d =
     (let snapshot = (case snapshot of Some s \<Rightarrow> s | None \<Rightarrow> db_last_sequence d) in
      Option.bind (MemTable_Get (de_comparator env) (db_mem d) key snapshot) (\<lambda>r.
        if r \<noteq> Missing then Some r
        else
          (case db_imm d of
             None \<Rightarrow> current_Get key snapshot
           | Some imm \<Rightarrow> Option.bind (MemTable_Get (de_comparator env) imm key snapshot) (\<lambda>r.
               if r \<noteq> Missing then Some r else current_Get key snapshot))))"

section \<open>Recovery\<close>

definition MaybeIgnoreError :: "bool \<Rightarrow> Status \<Rightarrow> Status" where
  "MaybeIgnoreError paranoid s = (if Status_ok s \<or> paranoid then s else OK)"

record 'e recovery =
  rc_status :: Status
  rc_mem :: "memtable option"
  rc_max_sequence :: u64
  rc_compactions :: nat
  rc_save_manifest :: bool
  rc_edit :: 'e

text \<open>The options, the reading of files, and \<open>WriteLevel0Table\<close>, which adds a table to the edit.\<close>

record ('r, 'w, 'e) recovery_env =
  re_file :: "'r SequentialFile"
  re_open :: "u64 \<Rightarrow> Status \<times> 'r"
  re_reopen :: "u64 \<Rightarrow> (u64 \<times> 'w) option"
  re_comparator :: Comparator
  re_usage :: "memtable \<Rightarrow> nat"
  re_write_buffer_size :: nat
  re_paranoid :: bool
  re_reuse_logs :: bool
  re_store :: u64
  re_stack :: u64
  re_level0 :: "memtable \<Rightarrow> 'e \<Rightarrow> Status \<times> 'e"

text \<open>\<open>LogReporter::Corruption\<close>.\<close>

definition LogReporter :: "bool \<Rightarrow> Status \<Rightarrow> 'e recovery \<Rightarrow> 'e recovery" where
  "LogReporter paranoid s st = (if paranoid \<and> Status_ok (rc_status st) then st\<lparr>rc_status := s\<rparr> else st)"

text \<open>A record that is a batch goes to the memtable; true when the loop goes on.\<close>

definition recover_record ::
    "('r, 'w, 'e) recovery_env \<Rightarrow> u8 list \<Rightarrow> 'e recovery \<Rightarrow> (bool \<times> 'e recovery) option" where
  "recover_record env record st =
     (if length record < 12
      then Some (True, LogReporter (re_paranoid env) (Status_Corruption ''log record too small'') st)
      else
        Option.bind (WB_SetContents record) (\<lambda>batch.
        Option.bind (WB_InsertInto (re_comparator env) batch (case rc_mem st of None \<Rightarrow> MemTable | Some mem \<Rightarrow> mem)) (\<lambda>(status, mem).
          let status = MaybeIgnoreError (re_paranoid env) status;
              st = st\<lparr>rc_status := status, rc_mem := Some mem\<rparr>
          in if \<not> Status_ok status then Some (False, st)
             else
               Option.bind (WB_Sequence batch) (\<lambda>seq.
               Option.bind (WB_Count batch) (\<lambda>count.
                 let last_seq = seq + of_int count - 1;
                     st = (if last_seq > rc_max_sequence st then st\<lparr>rc_max_sequence := last_seq\<rparr> else st)
                 in if re_usage env mem > re_write_buffer_size env then
                      (let (status, edit) = re_level0 env mem (rc_edit st);
                           st = st\<lparr>rc_compactions := rc_compactions st + 1, rc_save_manifest := True,
                                   rc_edit := edit, rc_mem := None, rc_status := status\<rparr>
                       in Some (Status_ok status, st))
                    else Some (True, st))))))"

text \<open>The loop over the records of a log.\<close>

partial_function (option) recover_loop ::
    "('r, 'w, 'e) recovery_env \<Rightarrow> 'r log_reader \<Rightarrow> 'e recovery \<Rightarrow> 'e recovery option" where
  "recover_loop env r st =
     Option.bind (ReadRecord (re_file env) r) (\<lambda>(record, r').
       let st = foldl (\<lambda>st (bytes, s). LogReporter (re_paranoid env) s st) st (drop (length (lr_reports r)) (lr_reports r'))
       in case record of
            None \<Rightarrow> Some st
          | Some record \<Rightarrow>
              if \<not> Status_ok (rc_status st) then Some st
              else Option.bind (recover_record env record st) (\<lambda>(continue, st).
                if continue then recover_loop env r' st else Some st))"

declare recover_loop.simps [code]

text \<open>The result has the log and the memtable that the database goes on with, when the log is reused.\<close>

definition RecoverLogFile ::
    "('r, 'w, 'e) recovery_env \<Rightarrow> u64 \<Rightarrow> bool \<Rightarrow> u64 \<Rightarrow> bool \<Rightarrow> 'e
      \<Rightarrow> ('e recovery \<times> ('w log_writer \<times> memtable) option) option" where
  "RecoverLogFile env log_number last_log max_sequence save_manifest edit =
     (let (status, file) = re_open env log_number;
          st = \<lparr>rc_status = status, rc_mem = None, rc_max_sequence = max_sequence, rc_compactions = 0,
                rc_save_manifest = save_manifest, rc_edit = edit\<rparr>
      in if \<not> Status_ok status then Some (st\<lparr>rc_status := MaybeIgnoreError (re_paranoid env) status\<rparr>, None)
         else
           map_option (\<lambda>st.
             let reused = (if Status_ok (rc_status st) \<and> re_reuse_logs env \<and> last_log \<and> rc_compactions st = 0
                           then map_option (\<lambda>(lfile_size, file).
                             (Writer_at file lfile_size (re_stack env), case rc_mem st of None \<Rightarrow> MemTable | Some mem \<Rightarrow> mem))
                             (re_reopen env log_number)
                           else None);
                 mem = (if reused = None then rc_mem st else None)
             in (case mem of
                   None \<Rightarrow> st\<lparr>rc_mem := None\<rparr>
                 | Some mem \<Rightarrow>
                    (if Status_ok (rc_status st) then
                       (let (status, edit) = re_level0 env mem (rc_edit st)
                        in st\<lparr>rc_save_manifest := True, rc_status := status, rc_edit := edit, rc_mem := None\<rparr>)
                     else st\<lparr>rc_mem := None\<rparr>), reused))
             (recover_loop env (Reader file True True (re_store env) 0) st))"

end
