(* ===== verification/DbSpec.thy ===== *)
theory DbSpec
  imports DbImpl LogProps WriteBatchSpec
begin

text \<open>
  What the write path keeps: the log has the batches of the writers in the order of their calls,
  the memtable has the same writes, and recovery replays them. \<open>wops\<close> are the operations of the
  writers' batches; \<open>js\<close> says how many writers' batches the log has behind each of its records.
\<close>

section \<open>Records of groups\<close>

definition seqno_of :: "batch_op list list \<Rightarrow> nat \<Rightarrow> u64" where
  "seqno_of wops j = of_nat (length (concat (take j wops)))"

definition group_batch :: "batch_op list list \<Rightarrow> nat \<Rightarrow> nat \<Rightarrow> write_batch" where
  "group_batch wops i j = batch_of (seqno_of wops i + 1) (concat (drop i (take j wops)))"

primrec group_records :: "batch_op list list \<Rightarrow> nat \<Rightarrow> nat list \<Rightarrow> u8 list list" where
  "group_records wops i [] = []"
| "group_records wops i (j # js) = group_batch wops i j # group_records wops j js"

lemma group_records_snoc: "group_records wops i (js @ [j]) = group_records wops i js @ [group_batch wops (last (i # js)) j]"
  by (induction js arbitrary: i) auto

lemma group_records_append: "group_records wops i (js @ js') = group_records wops i js @ group_records wops (last (i # js)) js'"
  by (induction js arbitrary: i) auto

lemma length_group_records [simp]: "length (group_records wops i js) = length js"
  by (induction js arbitrary: i) simp_all

lemma take_group_records: "take t (group_records wops i js) = group_records wops i (take t js)"
  by (induction js arbitrary: i t) (auto simp: take_Cons split: nat.split)

text \<open>Writers that come later do not matter.\<close>

lemma group_batch_more: "i \<le> length wops \<Longrightarrow> j \<le> length wops \<Longrightarrow> group_batch (wops @ new) i j = group_batch wops i j"
  by (simp add: group_batch_def seqno_of_def)

lemma group_records_more:
  "i \<le> length wops \<Longrightarrow> \<forall>j \<in> set js. j \<le> length wops \<Longrightarrow> group_records (wops @ new) i js = group_records wops i js"
  by (induction js arbitrary: i) (simp_all add: group_batch_more)

text \<open>Writers whose batches can be written: not too many operations, none too long.\<close>

definition ops_fit :: "batch_op list list \<Rightarrow> bool" where
  "ops_fit wops \<longleftrightarrow> (\<forall>ops \<in> set wops. \<forall>op \<in> set ops. op_ok op) \<and> length (concat wops) < 2 ^ 31"

lemma ops_fit_take: "ops_fit wops \<Longrightarrow> ops_fit (take j wops)"
proof -
  assume "ops_fit wops"
  moreover have "length (concat (take j wops)) \<le> length (concat wops)"
    by (metis append_take_drop_id concat_append length_append le_add1)
  ultimately show ?thesis by (auto simp: ops_fit_def dest: in_set_takeD)
qed

lemma ops_fit_part:
  assumes "ops_fit wops"
  shows "\<forall>op \<in> set (concat (drop i (take j wops))). op_ok op" "length (concat (drop i (take j wops))) < 2 ^ 31"
proof -
  have "length (concat (take j wops)) < 2 ^ 31" using ops_fit_take [OF assms] by (simp add: ops_fit_def)
  moreover have "length (concat (drop i (take j wops))) \<le> length (concat (take j wops))"
    by (metis append_take_drop_id concat_append length_append le_add2)
  ultimately show "length (concat (drop i (take j wops))) < 2 ^ 31" by linarith
qed (use assms in \<open>auto simp: ops_fit_def dest!: in_set_dropD in_set_takeD\<close>)

lemma take_split: "i \<le> j \<Longrightarrow> concat (take j wops) = concat (take i wops) @ concat (drop i (take j wops))"
  by (metis append_take_drop_id concat_append min.absorb1 take_take)

lemma seqno_split: "i \<le> j \<Longrightarrow> seqno_of wops j = seqno_of wops i + of_nat (length (concat (drop i (take j wops))))"
  using take_split [of i j wops] by (simp add: seqno_of_def del: length_concat)

lemma seqno_small:
  assumes "ops_fit wops"
  shows "unat (seqno_of wops j) = length (concat (take j wops))" "unat (seqno_of wops j) < 2 ^ 31"
proof -
  have "length (concat (take j wops)) < 2 ^ 31" using ops_fit_take [OF assms] by (simp add: ops_fit_def)
  then show "unat (seqno_of wops j) = length (concat (take j wops))" "unat (seqno_of wops j) < 2 ^ 31"
    by (simp_all add: seqno_of_def del: length_concat)
qed

lemma seqno_mono:
  assumes "ops_fit wops" "i \<le> j"
  shows "seqno_of wops i \<le> seqno_of wops j"
  using take_split [OF assms(2), of wops] by (simp add: word_le_nat_alt seqno_small [OF assms(1)] del: length_concat)

section \<open>The memtable\<close>

text \<open>The memtable after the first \<open>j\<close> batches.\<close>

definition mem_after :: "batch_op list list \<Rightarrow> nat \<Rightarrow> memtable option" where
  "mem_after wops j = mem_adds BytewiseComparator (writes_of 1 (concat (take j wops))) MemTable"

lemma writes_of_append: "writes_of s (ops @ ops') = writes_of s ops @ writes_of (s + of_nat (length ops)) ops'"
  by (induction ops arbitrary: s) (simp_all add: writes_of_Cons add.assoc)

lemma mem_adds_append: "mem_adds user (ws @ ws') mem = Option.bind (mem_adds user ws mem) (mem_adds user ws')"
proof (induction ws arbitrary: mem)
  case (Cons w ws)
  obtain s t k v where "w = (s, t, k, v)" by (cases w)
  then show ?case by (cases "MemTable_Add user mem s t k v") (simp_all add: Cons.IH)
qed simp

lemma mem_after_step:
  assumes "i \<le> j"
  shows "mem_after wops j = Option.bind (mem_after wops i)
    (mem_adds BytewiseComparator (writes_of (seqno_of wops i + 1) (concat (drop i (take j wops)))))"
  unfolding mem_after_def take_split [OF assms, of wops] writes_of_append mem_adds_append
  by (simp add: seqno_of_def add.commute del: length_concat)

lemma kMax: "unat kMaxSequenceNumber = 2 ^ 56 - 1"
  by (simp add: kMaxSequenceNumber_def)

lemma mem_after_some:
  assumes "ops_fit wops"
  shows "\<exists>mem. mem_after wops j = Some mem"
proof -
  have "unat (1 :: u64) + length (concat (take j wops)) \<le> unat kMaxSequenceNumber"
    using ops_fit_take [OF assms, of j] unfolding kMax by (simp add: ops_fit_def del: length_concat)
  moreover have "\<And>op. op \<in> set (concat (take j wops)) \<Longrightarrow> op_ok op"
    using ops_fit_take [OF assms, of j] by (auto simp: ops_fit_def)
  ultimately show ?thesis using mem_adds_writes_of by (metis mem_after_def)
qed

lemma InsertInto_batch:
  assumes "\<forall>op \<in> set ops. op_ok op" "length ops < 2 ^ 31"
  shows "WB_InsertInto user (batch_of s ops) mem = map_option (Pair OK) (mem_adds user (writes_of s ops) mem)"
  using assms by (simp add: WB_InsertInto_def Sequence_batch apply_inserter Iterate_batch option.map_comp comp_def)

lemma InsertInto_group:
  assumes "ops_fit wops" "i \<le> j" "mem_after wops i = Some mem"
  shows "\<exists>mem'. WB_InsertInto BytewiseComparator (group_batch wops i j) mem = Some (OK, mem') \<and> mem_after wops j = Some mem'"
proof -
  obtain mem' where "mem_after wops j = Some mem'" using mem_after_some [OF assms(1)] by blast
  then show ?thesis
    using mem_after_step [OF assms(2), of wops] assms(3) InsertInto_batch ops_fit_part [OF assms(1)]
    by (auto simp: group_batch_def)
qed

text \<open>What a key reads as.\<close>

lemma Get_after:
  assumes "ops_fit wops" "mem_after wops j = Some mem" "length u + 8 < 2 ^ 32"
  shows "MemTable_Get BytewiseComparator mem u (seqno_of wops j) = Some (ops_lookup (concat (take j wops)) u)"
proof -
  let ?ops = "concat (take j wops)"
  have fit: "\<And>op. op \<in> set ?ops \<Longrightarrow> op_ok op" "length ?ops < 2 ^ 31"
    using ops_fit_take [OF assms(1), of j] by (auto simp: ops_fit_def)
  have le: "unat (1 :: u64) + length ?ops \<le> unat kMaxSequenceNumber"
    using fit(2) unfolding kMax by (simp del: length_concat)
  have holds: "holds mem (writes_of 1 ?ops)" using mem_adds_writes_of [OF le fit(1)] assms(2) by (auto simp: mem_after_def)
  show ?thesis
  proof (cases "?ops = []")
    case True
    have "seqno_of wops j = 0" "writes_of 1 ?ops = []" using True by (simp_all add: seqno_of_def del: length_concat concat_eq_Nil_conv)
    moreover have "ops_lookup ?ops u = Missing" using True by (simp add: ops_lookup_def del: concat_eq_Nil_conv)
    ultimately show ?thesis using Get_missing [OF holds assms(3)] by (simp add: seen_def del: concat_eq_Nil_conv)
  next
    case False
    then obtain n where n: "length ?ops = Suc n" by (cases ?ops) auto
    then have "seqno_of wops j = 1 + of_nat n" "take (Suc n) ?ops = ?ops" by (simp_all add: seqno_of_def del: length_concat)
    then show ?thesis using Get_writes_of [OF le fit(1) _ assms(3) holds, of n] n by (simp del: length_concat)
  qed
qed

section \<open>The size of the log\<close>

text \<open>A bound on the bytes that the batch of a writer takes in the log.\<close>

definition log_cost :: "batch_op list \<Rightarrow> nat" where
  "log_cost ops = 14 * length (batch_of 0 ops) + 26"

lemma length_fragment_bytes: "pad \<le> 6 \<Longrightarrow> length (fragment_bytes (pad, t, ptr)) \<le> 13 + length ptr"
  by (simp add: kHeaderSize_def)

lemma length_fragments:
  "length (concat (map fragment_bytes (split_record begin off ptr))) \<le> 13 * length (split_record begin off ptr) + length ptr"
proof (induction "begin" off ptr rule: split_record.induct)
  case (1 b off ptr)
  define n where "n = min (length ptr) (room off)"
  have split: "split_record b off ptr = (padding off, fragment_type b (length ptr \<le> room off), take n ptr) #
      (if length ptr > n then split_record False (padded off + kHeaderSize + n) (drop n ptr) else [])"
    by (subst split_record.simps) (simp add: Let_def n_def)
  have pad: "padding off \<le> 6" by (simp add: padding_def kHeaderSize_def)
  have "length (fragment_bytes (padding off, fragment_type b (length ptr \<le> room off), take n ptr)) \<le> 13 + length (take n ptr)"
    by (rule length_fragment_bytes [OF pad])
  moreover have "n \<le> length ptr" by (simp add: n_def)
  ultimately show ?case using "1.IH" [OF n_def] unfolding split by (auto simp del: fragment_bytes.simps)
qed

lemma length_record_bytes: "length (record_bytes off r) \<le> 14 * length r + 26"
  using length_fragments [of True off r] length_split_record [of True off r]
  by (simp add: record_bytes_def split: if_splits)

lemma length_batch_of: "length (batch_of s ops) = 12 + length (concat (map op_bytes ops))"
  by (simp add: batch_of_def)

lemma length_group:
  assumes "i < j" "j \<le> length wops"
  shows "length (record_bytes off (group_batch wops i j)) \<le> sum_list (map log_cost (drop i (take j wops)))"
proof -
  have sum: "14 * (12 + length (concat (map op_bytes (concat ws)))) + 26 \<le> sum_list (map log_cost ws)" if "ws \<noteq> []" for ws
    using that
  proof (induction ws)
    case (Cons w ws)
    then show ?case
      by (cases "ws = []") (auto simp: log_cost_def length_batch_of simp del: length_concat)
  qed simp
  have "drop i (take j wops) \<noteq> []" using assms by simp
  then have "14 * length (group_batch wops i j) + 26 \<le> sum_list (map log_cost (drop i (take j wops)))"
    unfolding group_batch_def length_batch_of by (rule sum)
  then show ?thesis using length_record_bytes [of off "group_batch wops i j"] by (rule order_trans [rotated])
qed

lemma log_bytes_take_Suc:
  "t < length rs \<Longrightarrow> log_bytes p (take (Suc t) rs) =
    log_bytes p (take t rs) @ record_bytes ((p + length (log_bytes p (take t rs))) mod kBlockSize) (rs ! t)"
  by (simp add: take_Suc_conv_app_nth log_bytes_append Let_def)

text \<open>A log that is cut off has all records up to one of which a proper part is left.\<close>

lemma log_cut:
  "\<exists>t c x. t \<le> length rs \<and> take k (log_bytes p rs) =
      log_bytes p (take t rs) @ take c (record_bytes ((p + length (log_bytes p (take t rs))) mod kBlockSize) x) \<and>
    c < length (record_bytes ((p + length (log_bytes p (take t rs))) mod kBlockSize) x) \<and>
    (\<forall>t' \<le> length rs. length (log_bytes p (take t' rs)) \<le> k \<longrightarrow> t' \<le> t)"
proof (induction rs arbitrary: p k)
  case Nil
  show ?case using record_bytes_nonempty [of "p mod kBlockSize" "[]"] by (intro exI [of _ 0] exI [of _ "[]"]) simp
next
  case (Cons r rs)
  let ?b = "record_bytes (p mod kBlockSize) r"
  show ?case
  proof (cases "length ?b \<le> k")
    case False
    have "t' = 0" if "t' \<le> length (r # rs)" "length (log_bytes p (take t' (r # rs))) \<le> k" for t'
      using that False by (cases t') (auto simp: Let_def)
    then show ?thesis using False
      by (intro exI [of _ 0] exI [of _ k] exI [of _ r]) (simp add: Let_def)
  next
    case True
    obtain t c x where t: "t \<le> length rs" "take (k - length ?b) (log_bytes (p + length ?b) rs) =
        log_bytes (p + length ?b) (take t rs) @
          take c (record_bytes ((p + length ?b + length (log_bytes (p + length ?b) (take t rs))) mod kBlockSize) x)"
        "c < length (record_bytes ((p + length ?b + length (log_bytes (p + length ?b) (take t rs))) mod kBlockSize) x)"
        "\<forall>t' \<le> length rs. length (log_bytes (p + length ?b) (take t' rs)) \<le> k - length ?b \<longrightarrow> t' \<le> t"
      using Cons.IH [of "k - length ?b" "p + length ?b"] by blast
    have "t' \<le> Suc t" if "t' \<le> length (r # rs)" "length (log_bytes p (take t' (r # rs))) \<le> k" for t'
      using that t(4) by (cases t') (auto simp: Let_def)
    then show ?thesis using t True
      by (intro exI [of _ "Suc t"] exI [of _ c] exI [of _ x]) (simp add: Let_def add.assoc)
  qed
qed

section \<open>Building a group\<close>

lemma Append_batch:
  assumes "length ops + length ops' < 2 ^ 31"
  shows "WB_Append (batch_of s ops) (batch_of s' ops') = Some (batch_of s (ops @ ops'))"
proof -
  have "int_add (int (length ops)) (int (length ops')) = Some (int (length ops) + int (length ops'))"
    using assms by (simp add: int_add_def)
  moreover have "drop kHeader (batch_of s' ops') = concat (map op_bytes ops')"
    by (simp add: batch_of_def kHeader_def)
  ultimately show ?thesis
    using assms Count_batch [of ops s] Count_batch [of ops' s']
    by (simp add: WB_Append_def SetCount_batch batch_of_def [of s "ops @ ops'"])
qed

text \<open>The queue and the batches of the writers.\<close>

definition queue_inv :: "batch_op list list \<Rightarrow> nat \<Rightarrow> 'f db \<Rightarrow> bool" where
  "queue_inv wops a d \<longleftrightarrow> length (db_threads d) = length wops \<and>
     (\<forall>i < length wops. \<exists>s. dw_batch (db_threads d ! i) = Some (batch_of s (wops ! i))) \<and>
     db_writers d = [a..<length wops] \<and> a \<le> length wops"

lemma append_step:
  assumes "ops_fit wops" "a \<le> i" "i < length wops"
  shows "WB_Append (batch_of 0 (concat (drop a (take i wops)))) (batch_of s (wops ! i)) =
    Some (batch_of 0 (concat (drop a (take (Suc i) wops))))"
proof -
  have "concat (drop a (take (Suc i) wops)) = concat (drop a (take i wops)) @ wops ! i"
    using assms(2,3) by (simp add: take_Suc_conv_app_nth)
  moreover have "length (concat (drop a (take (Suc i) wops))) < 2 ^ 31" using ops_fit_part(2) [OF assms(1)] by blast
  ultimately show ?thesis by (metis Append_batch length_append)
qed

lemma group_loop_ok:
  assumes "ops_fit wops" "queue_inv wops a d" "db_tmp_batch d = WB_Clear" "a < i" "i \<le> length wops"
    and "result = None \<and> i = Suc a \<or> result = Some (batch_of 0 (concat (drop a (take i wops))))"
    and "batch = batch_of s (wops ! a)"
  shows "\<exists>res l. group_loop d fw batch max_size bytes result (i - 1) [i..<length wops] = Some (res, l) \<and> a \<le> l \<and> l < length wops \<and>
    (res = None \<and> l = a \<or> res = Some (batch_of 0 (concat (drop a (take (Suc l) wops)))))"
  using assms(4-6)
proof (induction "length wops - i" arbitrary: i result bytes)
  case 0
  then show ?case by auto
next
  case (Suc n)
  then have i: "i < length wops" by simp
  obtain s' where s': "dw_batch (db_threads d ! i) = Some (batch_of s' (wops ! i))" and len: "length (db_threads d) = length wops"
    using assms(2) i by (auto simp: queue_inv_def)
  have upt: "[i..<length wops] = i # [Suc i..<length wops]" using i by (simp add: upt_conv_Cons)
  have stop: "a \<le> i - 1 \<and> i - 1 < length wops \<and>
      (result = None \<and> i - 1 = a \<or> result = Some (batch_of 0 (concat (drop a (take (Suc (i - 1)) wops)))))"
    using Suc.prems by auto
  obtain r where r: "(case result of None \<Rightarrow> if WB_Count (db_tmp_batch d) = Some 0 then WB_Append (db_tmp_batch d) batch else None
      | Some r \<Rightarrow> Some r) = Some r" "WB_Append r (batch_of s' (wops ! i)) = Some (batch_of 0 (concat (drop a (take (Suc i) wops))))"
  proof (cases result)
    case None
    then have ia: "i = Suc a" using Suc.prems(3) by simp
    have "WB_Count WB_Clear = Some 0" using Count_batch [of "[]" 0] by (simp add: Clear_batch)
    moreover have "WB_Append WB_Clear batch = Some (batch_of 0 (concat (drop a (take (Suc a) wops))))"
      using append_step [OF assms(1), of a a s] i ia by (simp add: Clear_batch assms(7))
    ultimately show ?thesis using that None append_step [OF assms(1), of a i s'] i ia assms(3) by simp
  next
    case (Some r)
    then show ?thesis using that Suc.prems(1,3) append_step [OF assms(1), of a i s'] i by simp
  qed
  let ?n = "bytes + of_nat (length (batch_of s' (wops ! i)))"
  have "\<exists>res l. group_loop d fw batch max_size ?n (Some (batch_of 0 (concat (drop a (take (Suc i) wops))))) (Suc i - 1) [Suc i..<length wops] =
      Some (res, l) \<and> a \<le> l \<and> l < length wops \<and>
      (res = None \<and> l = a \<or> res = Some (batch_of 0 (concat (drop a (take (Suc l) wops)))))"
    using Suc.prems Suc.hyps i by (intro Suc.hyps(1)) auto
  then show ?case
    using stop r i len s' unfolding upt by (simp add: Let_def)
qed

end
