(* ===== verification/DbInv.thy ===== *)
theory DbInv
  imports DbSpec
begin

text \<open>The invariant of the write path: every step of the writers keeps it.\<close>

section \<open>The invariant\<close>

text \<open>A database with an empty log in the file \<open>f\<close>, as \<open>DB::Open\<close> leaves a new one.\<close>

definition new_machine :: "string \<Rightarrow> FILE \<Rightarrow> u64 \<Rightarrow> PosixWritableFile machine" where
  "new_machine name f stack =
     \<lparr>ma_db = \<lparr>db_threads = [], db_writers = [], db_mem = MemTable, db_imm = None,
        db_log = Writer \<lparr>wf_filename = name, wf_file = f\<rparr> stack, db_log_number = 3, db_tmp_batch = WB_Clear, db_bg_error = OK,
        db_last_sequence = 0, db_next_file = 4, db_prev_log = 0, db_l0_files = 0\<rparr>,
      ma_phase = Idle, ma_returned = []\<rparr>"

definition log_file :: "PosixWritableFile machine \<Rightarrow> FILE" where
  "log_file m = wf_file (lw_dest (db_log (ma_db m)))"

text \<open>An environment whose memtable has room and whose disk can be synced.\<close>

definition calm :: "PosixWritableFile db_env \<Rightarrow> bool" where
  "calm env \<longleftrightarrow> de_file env = posix_writable \<and> de_comparator env = BytewiseComparator \<and>
     (\<forall>mem. de_usage env mem \<le> de_write_buffer_size env) \<and>
     (\<exists>sync_dir fdatasync. de_sync env = PosixWritableFile_Sync sync_dir fdatasync \<and> (\<forall>x. sync_dir x = None) \<and> (\<forall>f. fdatasync f = None))"

definition log_inv :: "u8 list list \<Rightarrow> nat \<Rightarrow> PosixWritableFile log_writer \<Rightarrow> bool" where
  "log_inv rs lim w \<longleftrightarrow> f_data (wf_file (lw_dest w)) = log_bytes 0 rs \<and> f_pending (wf_file (lw_dest w)) = [] \<and>
     f_limit (wf_file (lw_dest w)) = lim \<and> lw_block_offset w \<le> kBlockSize \<and>
     lw_block_offset w mod kBlockSize = length (log_bytes 0 rs) mod kBlockSize \<and> (\<exists>at. lw_type_crc w = InitTypeCrc at)"

definition phase_inv :: "batch_op list list \<Rightarrow> nat \<Rightarrow> nat \<Rightarrow> write_batch \<Rightarrow> phase \<Rightarrow> bool" where
  "phase_inv wops n a tmp ph = (case ph of
     Idle \<Rightarrow> n = a \<and> tmp = WB_Clear
   | Unlocked updates own l s \<Rightarrow> n = a \<and> a \<le> l \<and> l < length wops \<and> updates = group_batch wops a (Suc l) \<and>
       s = seqno_of wops (Suc l) \<and> (own \<longrightarrow> tmp = WB_Clear)
   | Locked status grp l \<Rightarrow> status = OK \<and> Suc l = n \<and> a \<le> l \<and>
       (\<exists>own. grp = Some (False, own, seqno_of wops n) \<and> (own \<longrightarrow> tmp = WB_Clear)))"

text \<open>
  \<open>a\<close> writers are done, and the log and the memtable have the batches of the last number of \<open>js\<close>,
  or of no writer. \<open>lim\<close> is the size of the disk.
\<close>

definition machine_inv :: "nat \<Rightarrow> batch_op list list \<Rightarrow> nat list \<Rightarrow> nat \<Rightarrow> PosixWritableFile machine \<Rightarrow> bool" where
  "machine_inv lim wops js a m \<longleftrightarrow>
     (let d = ma_db m; n = last (0 # js) in
      ops_fit wops \<and> queue_inv wops a d \<and> sorted (0 # js) \<and> n \<le> length wops \<and>
      length (log_bytes 0 (group_records wops 0 js)) \<le> sum_list (map log_cost (take n wops)) \<and>
      log_inv (group_records wops 0 js) lim (db_log d) \<and> mem_after wops n = Some (db_mem d) \<and>
      db_last_sequence d = seqno_of wops a \<and> db_bg_error d = OK \<and> db_l0_files d = 0 \<and>
      (\<forall>i < length wops. dw_done (db_threads d ! i) \<longrightarrow> i < a) \<and> fst ` set (ma_returned m) \<subseteq> {..<a} \<and>
      phase_inv wops n a (db_tmp_batch d) (ma_phase m))"

lemma machine_invI:
  assumes "ops_fit wops" "queue_inv wops a (ma_db m)" "sorted (0 # js)" "last (0 # js) \<le> length wops"
    and "length (log_bytes 0 (group_records wops 0 js)) \<le> sum_list (map log_cost (take (last (0 # js)) wops))"
    and "log_inv (group_records wops 0 js) lim (db_log (ma_db m))" "mem_after wops (last (0 # js)) = Some (db_mem (ma_db m))"
    and "db_last_sequence (ma_db m) = seqno_of wops a" "db_bg_error (ma_db m) = OK" "db_l0_files (ma_db m) = 0"
    and "\<forall>i < length wops. dw_done (db_threads (ma_db m) ! i) \<longrightarrow> i < a" "fst ` set (ma_returned m) \<subseteq> {..<a}"
    and "phase_inv wops (last (0 # js)) a (db_tmp_batch (ma_db m)) (ma_phase m)"
  shows "machine_inv lim wops js a m"
  using assms unfolding machine_inv_def Let_def by blast

lemma machine_invD:
  assumes "machine_inv lim wops js a m"
  shows "ops_fit wops" "queue_inv wops a (ma_db m)" "sorted (0 # js)" "last (0 # js) \<le> length wops"
    "length (log_bytes 0 (group_records wops 0 js)) \<le> sum_list (map log_cost (take (last (0 # js)) wops))"
    "log_inv (group_records wops 0 js) lim (db_log (ma_db m))" "mem_after wops (last (0 # js)) = Some (db_mem (ma_db m))"
    "db_last_sequence (ma_db m) = seqno_of wops a" "db_bg_error (ma_db m) = OK" "db_l0_files (ma_db m) = 0"
    "\<forall>i < length wops. dw_done (db_threads (ma_db m) ! i) \<longrightarrow> i < a" "fst ` set (ma_returned m) \<subseteq> {..<a}"
    "phase_inv wops (last (0 # js)) a (db_tmp_batch (ma_db m)) (ma_phase m)"
  using assms unfolding machine_inv_def Let_def by blast+

lemma sorted_le_last: "sorted (i # js) \<Longrightarrow> j \<in> set js \<Longrightarrow> j \<le> last (i # js)"
  by (induction js arbitrary: i) auto

lemma records_more:
  assumes "sorted (0 # js)" "last (0 # js) \<le> length wops"
  shows "group_records (wops @ new) 0 js = group_records wops 0 js"
  using assms sorted_le_last [OF assms(1)] by (intro group_records_more) (auto intro: order_trans)

lemma seqno_more: "j \<le> length wops \<Longrightarrow> seqno_of (wops @ new) j = seqno_of wops j"
  by (simp add: seqno_of_def)

lemma mem_after_more: "j \<le> length wops \<Longrightarrow> mem_after (wops @ new) j = mem_after wops j"
  by (simp add: mem_after_def)

lemma phase_more:
  assumes "phase_inv wops n a tmp ph" "n \<le> length wops"
  shows "phase_inv (wops @ [ops]) n a tmp ph"
  using assms by (cases ph) (auto simp: phase_inv_def group_batch_more seqno_more)

lemma new_inv:
  assumes "f_data f = []" "f_pending f = []"
  shows "machine_inv (f_limit f) [] [] 0 (new_machine name f stack)"
  using assms by (simp add: machine_inv_def new_machine_def ops_fit_def queue_inv_def log_inv_def Writer_def mem_after_def
      seqno_of_def phase_inv_def) blast

text \<open>Every writer that is done has been told so or has returned, once, and all is well.\<close>

definition answered :: "nat \<Rightarrow> 'f machine \<Rightarrow> bool" where
  "answered a m \<longleftrightarrow> (\<forall>i < a. i \<in> fst ` set (ma_returned m) \<or> dw_done (db_threads (ma_db m) ! i)) \<and>
     (\<forall>w \<in> set (db_threads (ma_db m)). dw_status w = OK) \<and> snd ` set (ma_returned m) \<subseteq> {OK} \<and> distinct (map fst (ma_returned m))"

lemma answered_same:
  assumes "answered a m" "ma_returned m' = ma_returned m" "length (db_threads (ma_db m')) = length (db_threads (ma_db m))"
    and "\<forall>i < length (db_threads (ma_db m)). dw_done (db_threads (ma_db m') ! i) = dw_done (db_threads (ma_db m) ! i) \<and>
      dw_status (db_threads (ma_db m') ! i) = dw_status (db_threads (ma_db m) ! i)"
    and "a \<le> length (db_threads (ma_db m))"
  shows "answered a m'"
  using assms by (fastforce simp: answered_def all_set_conv_all_nth)

section \<open>The steps\<close>

lemma arrive_inv:
  assumes "machine_inv lim wops js a m" "ev_arrive (Some (batch_of 0 ops)) sync m = Some m'" "ops_fit (wops @ [ops])"
  shows "machine_inv lim (wops @ [ops]) js a m'" "answered a m \<Longrightarrow> answered a m'"
proof -
  let ?d = "ma_db m" and ?d' = "ma_db m'" and ?n = "last (0 # js)"
  note inv = machine_invD [OF assms(1)]
  have d': "?d' = ?d\<lparr>db_threads := db_threads ?d @ [\<lparr>dw_status = OK, dw_batch = Some (batch_of 0 ops), dw_sync = sync, dw_done = False\<rparr>],
      db_writers := db_writers ?d @ [length (db_threads ?d)]\<rparr>" "ma_phase m' = ma_phase m" "ma_returned m' = ma_returned m"
    using assms(2) by (auto simp: ev_arrive_def Let_def)
  have len: "length (db_threads ?d) = length wops" and a: "a \<le> length wops" using inv(2) by (simp_all add: queue_inv_def)
  have rec: "group_records (wops @ [ops]) 0 js = group_records wops 0 js" using records_more [OF inv(3,4)] .
  have n: "?n \<le> length (wops @ [ops])" "take ?n (wops @ [ops]) = take ?n wops" using inv(4) by simp_all
  show "answered a m'" if "answered a m" using that len a by (auto simp: answered_def d' nth_append)
  show "machine_inv lim (wops @ [ops]) js a m'"
  proof (rule machine_invI [OF assms(3) _ inv(3) n(1)])
    show "queue_inv (wops @ [ops]) a ?d'"
      using inv(2) by (auto simp: queue_inv_def d' nth_append less_Suc_eq)
    show "\<forall>i < length (wops @ [ops]). dw_done (db_threads ?d' ! i) \<longrightarrow> i < a"
      using inv(11) len by (auto simp: d' nth_append less_Suc_eq)
    show "length (log_bytes 0 (group_records (wops @ [ops]) 0 js)) \<le> sum_list (map log_cost (take ?n (wops @ [ops])))"
      unfolding rec n(2) by (rule inv(5))
    show "log_inv (group_records (wops @ [ops]) 0 js) lim (db_log ?d')" unfolding rec using inv(6) by (simp add: d')
    show "mem_after (wops @ [ops]) ?n = Some (db_mem ?d')" unfolding mem_after_more [OF inv(4)] using inv(7) by (simp add: d')
    show "db_last_sequence ?d' = seqno_of (wops @ [ops]) a" unfolding seqno_more [OF a] using inv(8) by (simp add: d')
    show "phase_inv (wops @ [ops]) ?n a (db_tmp_batch ?d') (ma_phase m')"
      using phase_more [OF inv(13,4)] by (simp add: d')
  qed (use inv(9,10,12) in \<open>simp_all add: d'\<close>)
qed

lemma room_calm:
  assumes "calm env" "db_bg_error d = OK" "db_l0_files d = 0" "db_writers d \<noteq> []"
  shows "MakeRoomForWrite env False d = Some (OK, d)"
  using assms by (simp add: MakeRoomForWrite_def room_loop.simps kL0_SlowdownWritesTrigger_def calm_def)

text \<open>The group that the thread at the front builds.\<close>

lemma BuildBatchGroup_ok:
  assumes "ops_fit wops" "queue_inv wops a d" "db_tmp_batch d = WB_Clear" "a < length wops"
  shows "\<exists>res l. BuildBatchGroup d = Some (res, l) \<and> a \<le> l \<and> l < length wops \<and>
    (res = None \<and> l = a \<or> res = Some (batch_of 0 (concat (drop a (take (Suc l) wops)))))"
proof -
  obtain s where s: "dw_batch (db_threads d ! a) = Some (batch_of s (wops ! a))" using assms(2,4) by (auto simp: queue_inv_def)
  have q: "db_writers d = a # [Suc a..<length wops]" "length (db_threads d) = length wops"
    using assms(2,4) by (simp_all add: queue_inv_def upt_conv_Cons)
  define bytes where "bytes = (of_nat (length (batch_of s (wops ! a))) :: u64)"
  define max_size where "max_size = (if bytes \<le> 128 * 1024 then bytes + 128 * 1024 else 2 ^ 20)"
  have "\<exists>res l. group_loop d (db_threads d ! a) (batch_of s (wops ! a)) max_size bytes None (Suc a - 1) [Suc a..<length wops] = Some (res, l) \<and>
      a \<le> l \<and> l < length wops \<and> (res = None \<and> l = a \<or> res = Some (batch_of 0 (concat (drop a (take (Suc l) wops)))))"
    by (rule group_loop_ok [OF assms(1-3) _ _ _ refl]) (use assms(4) in simp_all)
  moreover have "BuildBatchGroup d = group_loop d (db_threads d ! a) (batch_of s (wops ! a)) max_size bytes None a [Suc a..<length wops]"
    using q s assms(4) by (simp add: BuildBatchGroup_def Let_def max_size_def bytes_def)
  ultimately show ?thesis by simp
qed

lemma queue_upd:
  assumes "queue_inv wops a d" "j < length wops"
  shows "queue_inv wops a (upd_thread j (\<lambda>x. x\<lparr>dw_batch := Some (batch_of s (wops ! j))\<rparr>) d)"
  using assms by (auto simp: queue_inv_def upd_thread_def nth_list_update)

lemma own_group: "a < length wops \<Longrightarrow> concat (drop a (take (Suc a) wops)) = wops ! a"
  by (simp add: take_Suc_conv_app_nth)

lemma queue_front:
  assumes "queue_inv wops a d" "db_writers d = w # ws"
  shows "a < length wops" "w = a" "ws = [Suc a..<length wops]"
proof -
  have q: "[a..<length wops] = w # ws" using assms by (simp add: queue_inv_def)
  then show "a < length wops" by (cases "a < length wops") simp_all
  then show "w = a" "ws = [Suc a..<length wops]" using q by (auto simp: upt_conv_Cons)
qed

lemma lead_step:
  assumes "machine_inv lim wops js a m" "calm env" and idle: "ma_phase m = Idle" and q: "db_writers (ma_db m) = w # ws"
  obtains m' u own l s where "ev_lead env m = Some m'" "machine_inv lim wops js a m'" "ma_phase m' = Unlocked u own l s"
    "ma_returned m' = ma_returned m" "answered a m \<Longrightarrow> answered a m'"
proof -
  let ?d = "ma_db m" and ?n = "last (0 # js)"
  note inv = machine_invD [OF assms(1)]
  have a: "a < length wops" "w = a" using queue_front [OF inv(2) q] by simp_all
  have ph: "?n = a" "db_tmp_batch ?d = WB_Clear" using inv(13) by (simp_all add: idle phase_inv_def)
  obtain s where s: "dw_batch (db_threads ?d ! a) = Some (batch_of s (wops ! a))" using inv(2) a(1) by (auto simp: queue_inv_def)
  have room: "MakeRoomForWrite env False ?d = Some (OK, ?d)" using room_calm [OF assms(2) inv(9,10)] q by simp
  obtain res l where g: "BuildBatchGroup ?d = Some (res, l)" "a \<le> l" "l < length wops"
      "res = None \<and> l = a \<or> res = Some (batch_of 0 (concat (drop a (take (Suc l) wops))))"
    using BuildBatchGroup_ok [OF inv(1,2) ph(2) a(1)] by blast
  let ?u = "group_batch wops a (Suc l)"
  have u: "WB_SetSequence (case res of None \<Rightarrow> batch_of s (wops ! a) | Some r \<Rightarrow> r) (db_last_sequence ?d + 1) = ?u"
    using g(4) own_group [OF a(1)] by (auto simp: SetSequence_batch group_batch_def inv(8))
  have count: "WB_Count ?u = Some (int (length (concat (drop a (take (Suc l) wops)))))"
    unfolding group_batch_def by (rule Count_batch) (rule ops_fit_part(2) [OF inv(1)])
  have seq: "db_last_sequence ?d + of_nat (length (concat (drop a (take (Suc l) wops)))) = seqno_of wops (Suc l)"
    using seqno_split [of a "Suc l" wops] g(2) by (simp add: inv(8) del: length_concat)
  let ?d' = "if res = None then upd_thread a (\<lambda>x. x\<lparr>dw_batch := Some ?u\<rparr>) ?d else ?d\<lparr>db_tmp_batch := ?u\<rparr>"
  have len: "\<not> a \<ge> length (db_threads ?d)" using inv(2) a(1) by (simp add: queue_inv_def)
  have nd: "\<not> dw_done (db_threads ?d ! a)" using inv(11) a(1) by blast
  define m' where m': "m' = m\<lparr>ma_db := ?d', ma_phase := Unlocked ?u (res = None) l (seqno_of wops (Suc l))\<rparr>"
  have step: "ev_lead env m = Some m'"
  proof (cases res)
    case None
    then have "WB_SetSequence (batch_of s (wops ! a)) (db_last_sequence ?d + 1) = ?u" using u by simp
    then show ?thesis
      using len nd by (simp add: m' ev_lead_def idle q a(2) s room Let_def g(1) None count seq del: length_concat)
  next
    case (Some r)
    then have "WB_SetSequence r (db_last_sequence ?d + 1) = ?u" using u by simp
    then show ?thesis
      using len nd by (simp add: m' ev_lead_def idle q a(2) s room Let_def g(1) Some count seq del: length_concat)
  qed
  have f: "db_log ?d' = db_log ?d" "db_mem ?d' = db_mem ?d" "db_last_sequence ?d' = db_last_sequence ?d"
      "db_bg_error ?d' = db_bg_error ?d" "db_l0_files ?d' = db_l0_files ?d"
    by (simp_all add: upd_thread_def)
  have same_done: "dw_done (db_threads ?d' ! i) = dw_done (db_threads ?d ! i)" if "i < length wops" for i
    using that inv(2) by (cases "i = a") (simp_all add: upd_thread_def queue_inv_def)
  have same_status: "dw_status (db_threads ?d' ! i) = dw_status (db_threads ?d ! i)" if "i < length wops" for i
    using that inv(2) by (cases "i = a") (simp_all add: upd_thread_def queue_inv_def)
  have own: "?u = batch_of (seqno_of wops a + 1) (wops ! a)" if "res = None"
    using g(4) that own_group [OF a(1)] by (simp add: group_batch_def)
  have "machine_inv lim wops js a m'"
  proof (rule machine_invI [OF inv(1) _ inv(3-5)])
    show "queue_inv wops a (ma_db m')"
      using queue_upd [OF inv(2) a(1)] inv(2) own by (auto simp: m' queue_inv_def)
    show "log_inv (group_records wops 0 js) lim (db_log (ma_db m'))" using inv(6) by (simp add: m' f(1))
    show "mem_after wops ?n = Some (db_mem (ma_db m'))" using inv(7) by (simp add: m' f(2))
    show "db_last_sequence (ma_db m') = seqno_of wops a" using inv(8) by (simp add: m' f(3))
    show "db_bg_error (ma_db m') = OK" using inv(9) by (simp add: m' f(4))
    show "db_l0_files (ma_db m') = 0" using inv(10) by (simp add: m' f(5))
    show "\<forall>i < length wops. dw_done (db_threads (ma_db m') ! i) \<longrightarrow> i < a"
      using inv(11) same_done by (simp add: m')
    show "fst ` set (ma_returned m') \<subseteq> {..<a}" using inv(12) by (simp add: m')
    show "phase_inv wops ?n a (db_tmp_batch (ma_db m')) (ma_phase m')"
      using g(2,3) ph by (simp add: m' phase_inv_def upd_thread_def)
  qed
  moreover have "answered a m'" if "answered a m"
    using inv(2) same_done same_status by (intro answered_same [OF that]) (simp_all add: m' upd_thread_def queue_inv_def)
  ultimately show ?thesis using that [OF step] by (simp add: m')
qed

lemma lead_inv:
  assumes "machine_inv lim wops js a m" "ev_lead env m = Some m'" "calm env"
  shows "machine_inv lim wops js a m'" "answered a m \<Longrightarrow> answered a m'"
proof -
  obtain w ws where "ma_phase m = Idle" "db_writers (ma_db m) = w # ws"
    using assms(2) by (auto simp: ev_lead_def split: phase.splits list.splits)
  then show "machine_inv lim wops js a m'" "answered a m \<Longrightarrow> answered a m'"
    using lead_step [OF assms(1,3)] assms(2) by auto
qed

lemma sync_ok:
  assumes "calm env" "f_pending (wf_file s) = []" "length (f_data (wf_file s)) \<le> f_limit (wf_file s)"
  shows "de_sync env s = (OK, s)"
proof -
  obtain sync_dir fdatasync where e: "de_sync env = PosixWritableFile_Sync sync_dir fdatasync" "\<forall>x. sync_dir x = None" "\<forall>f. fdatasync f = None"
    using assms(1) by (auto simp: calm_def)
  have "fflush (wf_file s) = (0, wf_file s)" using assms(2,3) by (simp add: fflush_def f_fits_def f_transfer_def)
  then show ?thesis using e by (simp add: PosixWritableFile_Sync_def SyncDirIfManifest_def Let_def)
qed

lemma log_add:
  assumes "log_inv rs lim w" "length (log_bytes 0 rs) + length (record_bytes (length (log_bytes 0 rs) mod kBlockSize) r) \<le> lim"
  shows "\<exists>w'. AddRecord posix_writable pval r w = Some (OK, w') \<and> log_inv (rs @ [r]) lim w'"
proof -
  let ?b = "record_bytes (length (log_bytes 0 rs) mod kBlockSize) r"
  have i: "f_data (wf_file (lw_dest w)) = log_bytes 0 rs" "f_pending (wf_file (lw_dest w)) = []" "f_limit (wf_file (lw_dest w)) = lim"
      "lw_block_offset w \<le> kBlockSize" "lw_block_offset w mod kBlockSize = length (log_bytes 0 rs) mod kBlockSize"
      "\<exists>at. lw_type_crc w = InitTypeCrc at"
    using assms(1) by (simp_all add: log_inv_def)
  obtain w' where w': "AddRecord posix_writable pval r w = Some (OK, w')" "posix_out.appended ?b w w'"
    using posix_out.AddRecord_ok [OF i(4,5,6), of r pval] assms(2) i(1-3) by auto
  have "f_data (wf_file (lw_dest w')) = log_bytes 0 rs @ ?b" "f_pending (wf_file (lw_dest w')) = []"
      "f_limit (wf_file (lw_dest w')) = lim" "lw_block_offset w' \<le> kBlockSize" "lw_type_crc w' = lw_type_crc w"
      "lw_block_offset w' mod kBlockSize = (lw_block_offset w + length ?b) mod kBlockSize"
    using w'(2) i(1-3) by (auto simp: posix_out.appended_def)
  moreover have "(lw_block_offset w + length ?b) mod kBlockSize = (length (log_bytes 0 rs) + length ?b) mod kBlockSize"
    using i(5) by (metis mod_add_left_eq)
  ultimately have "log_inv (rs @ [r]) lim w'" using i(6) by (simp add: log_inv_def log_bytes_append Let_def)
  then show ?thesis using w'(1) by blast
qed

lemma costs_le: "sum_list (map log_cost (take j wops)) \<le> sum_list (map log_cost wops)"
  by (metis append_take_drop_id le_add1 map_append sum_list_append)

lemma costs_split: "i \<le> j \<Longrightarrow> sum_list (map log_cost (take j wops)) = sum_list (map log_cost (take i wops)) + sum_list (map log_cost (drop i (take j wops)))"
  by (metis append_take_drop_id map_append min.absorb1 sum_list_append take_take)

lemma queue_nonempty: "queue_inv wops a d \<Longrightarrow> a < length wops \<Longrightarrow> db_writers d = a # [Suc a..<length wops]"
  by (simp add: queue_inv_def upt_conv_Cons)

lemma commit_step:
  assumes "machine_inv lim wops js a m" and p: "ma_phase m = Unlocked u own l s" and "calm env" "sum_list (map log_cost wops) \<le> lim"
  obtains m' j status grp l where "ev_commit env m = Some m'" "machine_inv lim wops (js @ [j]) a m'" "ma_phase m' = Locked status grp l"
    "ma_returned m' = ma_returned m" "answered a m \<Longrightarrow> answered a m'"
proof -
  let ?d = "ma_db m" and ?n = "last (0 # js)"
  note inv = machine_invD [OF assms(1)]
  have ph: "?n = a" "a \<le> l" "l < length wops" "u = group_batch wops a (Suc l)" "s = seqno_of wops (Suc l)"
      "own \<longrightarrow> db_tmp_batch ?d = WB_Clear"
    using inv(13) by (simp_all add: p phase_inv_def)
  have a: "a < length wops" using ph(2,3) by simp
  note q = queue_nonempty [OF inv(2) a]
  let ?rs = "group_records wops 0 js" let ?off = "length (log_bytes 0 ?rs) mod kBlockSize"
  have rec: "group_records wops 0 (js @ [Suc l]) = ?rs @ [u]" unfolding group_records_snoc ph(1) ph(4) ..
  have size: "length (log_bytes 0 ?rs) + length (record_bytes ?off u) \<le> sum_list (map log_cost (take (Suc l) wops))"
    using inv(5) length_group [of a "Suc l" wops ?off] costs_split [of a "Suc l" wops] ph(1-4) by simp
  have lim: "length (log_bytes 0 ?rs) + length (record_bytes ?off u) \<le> lim"
    using size costs_le [of "Suc l" wops] assms(4) by linarith
  obtain log where log: "AddRecord posix_writable (de_address env u) u (db_log ?d) = Some (OK, log)" "log_inv (?rs @ [u]) lim log"
    using log_add [OF inv(6) lim] by blast
  have "length (log_bytes 0 (?rs @ [u])) \<le> lim" using lim by (simp add: log_bytes_append Let_def)
  then have sync: "de_sync env (lw_dest log) = (OK, lw_dest log)"
    using sync_ok [OF assms(3)] log(2) by (simp add: log_inv_def)
  obtain mem where mem: "WB_InsertInto BytewiseComparator u (db_mem ?d) = Some (OK, mem)" "mem_after wops (Suc l) = Some mem"
    using InsertInto_group [OF inv(1), of a "Suc l" "db_mem ?d"] ph(1,2,4) inv(7) by auto
  have env: "de_file env = posix_writable" "de_comparator env = BytewiseComparator" using assms(3) by (simp_all add: calm_def)
  have same: "log\<lparr>lw_dest := lw_dest log\<rparr> = log" by simp
  define m' where m': "m' = m\<lparr>ma_db := ?d\<lparr>db_log := log, db_mem := mem\<rparr>, ma_phase := Locked OK (Some (False, own, s)) l\<rparr>"
  have step: "ev_commit env m = Some m'"
    using sync mem(1) same by (cases "dw_sync (db_threads ?d ! a)") (simp_all add: m' ev_commit_def p q env log(1) Let_def)
  have n': "last (0 # js @ [Suc l]) = Suc l" by simp
  have "\<forall>j \<in> set (0 # js). j \<le> Suc l" using sorted_le_last [OF inv(3)] ph(1,2) by fastforce
  then have sorted: "sorted (0 # js @ [Suc l])" using inv(3) by (auto simp: sorted_append)
  have "machine_inv lim wops (js @ [Suc l]) a m'"
  proof (rule machine_invI [OF inv(1)])
    show "queue_inv wops a (ma_db m')" using inv(2) by (simp add: m' queue_inv_def)
    show "sorted (0 # js @ [Suc l])" by (rule sorted)
    show "last (0 # js @ [Suc l]) \<le> length wops" using ph(3) by simp
    show "length (log_bytes 0 (group_records wops 0 (js @ [Suc l]))) \<le> sum_list (map log_cost (take (last (0 # js @ [Suc l])) wops))"
      unfolding rec n' using size by (simp add: log_bytes_append Let_def)
    show "log_inv (group_records wops 0 (js @ [Suc l])) lim (db_log (ma_db m'))" unfolding rec using log(2) by (simp add: m')
    show "mem_after wops (last (0 # js @ [Suc l])) = Some (db_mem (ma_db m'))" unfolding n' using mem(2) by (simp add: m')
    show "phase_inv wops (last (0 # js @ [Suc l])) a (db_tmp_batch (ma_db m')) (ma_phase m')"
      unfolding n' using ph by (simp add: m' phase_inv_def)
  qed (use inv(8-12) in \<open>simp_all add: m'\<close>)
  moreover have "answered a m'" if "answered a m"
    using inv(2) by (intro answered_same [OF that]) (simp_all add: m' queue_inv_def)
  ultimately show ?thesis using that [OF step] by (simp add: m')
qed

lemma commit_inv:
  assumes "machine_inv lim wops js a m" "ev_commit env m = Some m'" "calm env" "sum_list (map log_cost wops) \<le> lim"
  shows "\<exists>j. machine_inv lim wops (js @ [j]) a m' \<and> (answered a m \<longrightarrow> answered a m')"
proof -
  obtain u own l s where "ma_phase m = Unlocked u own l s"
    using assms(2) by (auto simp: ev_commit_def split: phase.splits list.splits)
  then show ?thesis using commit_step [OF assms(1) _ assms(3,4)] assms(2) by (metis option.inject)
qed

lemma pop_writers_ok:
  assumes "i \<le> l" "l < n" "n \<le> length (db_threads d)"
  shows "\<exists>ts. pop_writers w l status [i..<n] d = Some (d\<lparr>db_writers := [Suc l..<n], db_threads := ts\<rparr>) \<and>
    length ts = length (db_threads d) \<and> (\<forall>x < length ts. dw_batch (ts ! x) = dw_batch (db_threads d ! x) \<and>
      (dw_done (ts ! x) \<longleftrightarrow> dw_done (db_threads d ! x) \<or> i \<le> x \<and> x \<le> l \<and> x \<noteq> w) \<and>
      dw_status (ts ! x) \<in> {dw_status (db_threads d ! x), status})"
  using assms
proof (induction "l - i" arbitrary: i d)
  case 0
  then have "i = l" by simp
  moreover have "[l..<n] = l # [Suc l..<n]" using 0(3) by (simp add: upt_conv_Cons)
  moreover have "db_threads (d\<lparr>db_writers := x\<rparr>) = db_threads d" for x by simp
  moreover have "d\<lparr>db_writers := x\<rparr> = d\<lparr>db_writers := x, db_threads := db_threads d\<rparr>" for x by simp
  ultimately show ?case using 0(4) 0(3)
    by (intro exI [of _ "if l = w then db_threads d else (db_threads d)[l := (db_threads d ! l)\<lparr>dw_status := status, dw_done := True\<rparr>]"])
      (auto simp: Let_def upd_thread_def nth_list_update)
next
  case (Suc k)
  define d1 where "d1 = (if i \<noteq> w then upd_thread i (\<lambda>x. x\<lparr>dw_status := status, dw_done := True\<rparr>) (d\<lparr>db_writers := [Suc i..<n]\<rparr>)
    else d\<lparr>db_writers := [Suc i..<n]\<rparr>)"
  have upt: "[i..<n] = i # [Suc i..<n]" and il: "i \<noteq> l" using Suc.prems Suc.hyps by (auto simp: upt_conv_Cons)
  have step: "pop_writers w l status [i..<n] d = pop_writers w l status [Suc i..<n] d1"
    unfolding upt d1_def by (simp add: Let_def il)
  have len: "length (db_threads d1) = length (db_threads d)" by (simp add: d1_def upd_thread_def)
  have "k = l - Suc i" "Suc i \<le> l" "n \<le> length (db_threads d1)" using Suc.hyps(2) Suc.prems len by simp_all
  then obtain ts where ts: "pop_writers w l status [Suc i..<n] d1 = Some (d1\<lparr>db_writers := [Suc l..<n], db_threads := ts\<rparr>)"
      "length ts = length (db_threads d1)" "\<forall>x < length ts. dw_batch (ts ! x) = dw_batch (db_threads d1 ! x) \<and>
        (dw_done (ts ! x) \<longleftrightarrow> dw_done (db_threads d1 ! x) \<or> Suc i \<le> x \<and> x \<le> l \<and> x \<noteq> w) \<and>
        dw_status (ts ! x) \<in> {dw_status (db_threads d1 ! x), status}"
    using Suc.hyps(1) [of "Suc i" d1] Suc.prems(2) by blast
  have "d1\<lparr>db_writers := [Suc l..<n], db_threads := ts\<rparr> = d\<lparr>db_writers := [Suc l..<n], db_threads := ts\<rparr>"
    by (simp add: d1_def upd_thread_def)
  moreover have "dw_batch (db_threads d1 ! x) = dw_batch (db_threads d ! x) \<and>
      (dw_done (db_threads d1 ! x) \<longleftrightarrow> dw_done (db_threads d ! x) \<or> x = i \<and> x \<noteq> w) \<and>
      dw_status (db_threads d1 ! x) \<in> {dw_status (db_threads d ! x), status}" if "x < length ts" for x
    using that ts(2) len Suc.prems(1) by (cases "x = i") (auto simp: d1_def upd_thread_def)
  moreover have "x = i \<or> Suc i \<le> x \<and> x \<le> l \<longleftrightarrow> i \<le> x \<and> x \<le> l" for x using Suc.prems(1) by auto
  ultimately show ?case using step ts len by (intro exI [of _ ts]) (metis insert_iff)
qed

lemma finish_step:
  assumes "machine_inv lim wops js a m" and p: "ma_phase m = Locked status grp l"
  obtains m' a' where "ev_finish m = Some m'" "a < a'" "machine_inv lim wops js a' m'" "ma_phase m' = Idle"
    "ma_returned m' = ma_returned m @ [(a, OK)]" "answered a m \<Longrightarrow> answered a' m'"
proof -
  let ?d = "ma_db m" and ?n = "last (0 # js)"
  note inv = machine_invD [OF assms(1)]
  have qa: "db_writers ?d = [a..<length wops]" "length (db_threads ?d) = length wops" using inv(2) by (simp_all add: queue_inv_def)
  obtain own where ph: "status = OK" "?n = Suc l" "a \<le> l" "grp = Some (False, own, seqno_of wops (Suc l))" "own \<longrightarrow> db_tmp_batch ?d = WB_Clear"
    using inv(13) by (auto simp: p phase_inv_def)
  have l: "l < length wops" using ph(2) inv(4) by simp
  have a: "a < length wops" using ph(3) l by simp
  note q = queue_nonempty [OF inv(2) a]
  let ?d1 = "if own then ?d else ?d\<lparr>db_tmp_batch := WB_Clear\<rparr>"
  let ?d2 = "?d1\<lparr>db_last_sequence := seqno_of wops (Suc l)\<rparr>"
  have th: "db_threads ?d2 = db_threads ?d" by simp
  obtain ts where ts: "pop_writers a l OK [a..<length wops] ?d2 = Some (?d2\<lparr>db_writers := [Suc l..<length wops], db_threads := ts\<rparr>)"
      "length ts = length wops" "\<forall>x < length ts. dw_batch (ts ! x) = dw_batch (db_threads ?d ! x) \<and>
        (dw_done (ts ! x) \<longleftrightarrow> dw_done (db_threads ?d ! x) \<or> a \<le> x \<and> x \<le> l \<and> x \<noteq> a) \<and>
        dw_status (ts ! x) \<in> {dw_status (db_threads ?d ! x), OK}"
    using pop_writers_ok [OF ph(3) l, of ?d2 a OK] unfolding th qa(2) by auto
  have mono: "seqno_of wops a \<le> seqno_of wops (Suc l)" using ph(3) by (intro seqno_mono [OF inv(1)]) simp
  let ?d3 = "?d2\<lparr>db_writers := [Suc l..<length wops], db_threads := ts\<rparr>"
  define m' where m': "m' = m\<lparr>ma_db := ?d3, ma_phase := Idle, ma_returned := ma_returned m @ [(a, OK)]\<rparr>"
  have step: "ev_finish m = Some m'"
  proof (cases own)
    case True
    then show ?thesis using ts(1) mono q inv(8) qa(1) by (simp add: m' ev_finish_def p ph(1,4) Let_def)
  next
    case False
    then show ?thesis using ts(1) mono q inv(8) qa(1) by (simp add: m' ev_finish_def p ph(1,4) Let_def)
  qed
  have tmp: "db_tmp_batch ?d3 = WB_Clear" using ph(5) by simp
  have "machine_inv lim wops js (Suc l) m'"
  proof (rule machine_invI [OF inv(1) _ inv(3-5)])
    show "queue_inv wops (Suc l) (ma_db m')" using inv(2) ts(2,3) l by (simp add: m' queue_inv_def)
    show "\<forall>i < length wops. dw_done (db_threads (ma_db m') ! i) \<longrightarrow> i < Suc l"
      using inv(11) ts(2,3) ph(3) by (fastforce simp: m')
    show "fst ` set (ma_returned m') \<subseteq> {..<Suc l}" using inv(12) ph(3) by (auto simp: m')
    show "phase_inv wops ?n (Suc l) (db_tmp_batch (ma_db m')) (ma_phase m')" using tmp ph(2) by (simp add: m' phase_inv_def)
  qed (use inv(6,7,9,10) in \<open>simp_all add: m'\<close>)
  moreover have "answered (Suc l) m'" if "answered a m"
  proof -
    have th_done: "dw_done (ts ! x) \<longleftrightarrow> dw_done (db_threads ?d ! x) \<or> a \<le> x \<and> x \<le> l \<and> x \<noteq> a" if "x < length wops" for x
      using ts(2,3) that by simp
    have "\<forall>i < Suc l. i \<in> fst ` set (ma_returned m') \<or> dw_done (db_threads (ma_db m') ! i)"
    proof (intro allI impI)
      fix i assume i: "i < Suc l"
      consider "i < a" | "i = a" | "a < i" by linarith
      then show "i \<in> fst ` set (ma_returned m') \<or> dw_done (db_threads (ma_db m') ! i)"
      proof cases
        case 1
        then have "i \<in> fst ` set (ma_returned m) \<or> dw_done (db_threads ?d ! i)" using that by (simp add: answered_def)
        then show ?thesis using th_done [of i] i l by (auto simp: m'(1))
      next
        case 2
        then show ?thesis by (simp add: m')
      next
        case 3
        then have "dw_done (ts ! i)" using th_done [of i] i l by simp
        then show ?thesis by (simp add: m')
      qed
    qed
    moreover have "dw_status w = OK" if w: "w \<in> set (db_threads (ma_db m'))" for w
    proof -
      obtain x where x: "x < length wops" "w = ts ! x" using w ts(2) by (auto simp: m' in_set_conv_nth)
      then have "dw_status (db_threads ?d ! x) = OK" using \<open>answered a m\<close> qa(2) by (simp add: answered_def)
      then show ?thesis using ts(2,3) x by auto
    qed
    ultimately show ?thesis using that inv(12) by (auto simp: m' answered_def)
  qed
  ultimately show ?thesis using ph(3) by (intro that [OF step, of "Suc l"]) (simp_all add: m')
qed

lemma finish_inv:
  assumes "machine_inv lim wops js a m" "ev_finish m = Some m'"
  shows "\<exists>a'. a \<le> a' \<and> machine_inv lim wops js a' m' \<and> (answered a m \<longrightarrow> answered a' m')"
proof -
  obtain status grp l where "ma_phase m = Locked status grp l"
    using assms(2) by (auto simp: ev_finish_def split: phase.splits list.splits)
  then show ?thesis using finish_step [OF assms(1)] assms(2) by (metis option.inject less_imp_le)
qed

lemma wake_inv:
  assumes "machine_inv lim wops js a m" "ev_wake i m = Some m'"
  shows "machine_inv lim wops js a m'" "answered a m \<Longrightarrow> answered a m'"
proof -
  note inv = machine_invD [OF assms(1)]
  have m': "m' = m\<lparr>ma_returned := ma_returned m @ [(i, dw_status (db_threads (ma_db m) ! i))]\<rparr>"
      and i: "i < length (db_threads (ma_db m))" "dw_done (db_threads (ma_db m) ! i)" "i \<notin> fst ` set (ma_returned m)"
    using assms(2) by (auto simp: ev_wake_def split: if_splits)
  show "answered a m'" if "answered a m" using that i by (simp add: m' answered_def)
  have "i < a" using i inv(2,11) by (simp add: queue_inv_def)
  then show "machine_inv lim wops js a m'"
    by (intro machine_invI [OF inv(1)]) (use inv(2-13) in \<open>simp_all add: m'\<close>)
qed

section \<open>Schedules\<close>

text \<open>The batches that arrive.\<close>

primrec arrivals :: "event list \<Rightarrow> write_batch option list" where
  "arrivals [] = []"
| "arrivals (e # es) = (case e of Arrive b sync \<Rightarrow> b # arrivals es | _ \<Rightarrow> arrivals es)"

lemma arrivals_append [simp]: "arrivals (es @ es') = arrivals es @ arrivals es'"
  by (induction es) (auto split: event.split)

lemma ops_fit_append: "ops_fit (wops @ wops') \<Longrightarrow> ops_fit wops"
  by (auto simp: ops_fit_def)

lemma schedule_inv:
  assumes "apply_ops (db_event env) es m = Some m'" "arrivals es = map (\<lambda>ops. Some (batch_of 0 ops)) new"
    and "machine_inv lim wops js a m" "calm env" "ops_fit (wops @ new)" "sum_list (map log_cost (wops @ new)) \<le> lim"
  shows "\<exists>js' a'. a \<le> a' \<and> machine_inv lim (wops @ new) (js @ js') a' m' \<and> (answered a m \<longrightarrow> answered a' m')"
  using assms(1-3,5,6)
proof (induction es arbitrary: m wops js a new)
  case Nil
  then show ?case by (intro exI [of _ "[]"] exI [of _ a]) simp
next
  case (Cons e es)
  obtain m1 where m1: "db_event env e m = Some m1" "apply_ops (db_event env) es m1 = Some m'"
    using Cons.prems(1) by (auto simp: bind_eq_Some_conv)
  have costs: "sum_list (map log_cost wops) \<le> lim" using Cons.prems(5) by simp
  show ?case
  proof (cases "\<exists>b sync. e = Arrive b sync")
    case True
    then obtain ops sync new' where e: "e = Arrive (Some (batch_of 0 ops)) sync" and new: "new = ops # new'"
        "arrivals es = map (\<lambda>ops. Some (batch_of 0 ops)) new'"
      using Cons.prems(2) by (cases new) auto
    have fit: "ops_fit (wops @ [ops])" using Cons.prems(4) ops_fit_append [of "wops @ [ops]" new'] by (simp add: new)
    have 1: "machine_inv lim (wops @ [ops]) js a m1" "answered a m \<Longrightarrow> answered a m1"
      using arrive_inv [OF Cons.prems(3) _ fit] m1(1) e by simp_all
    then obtain js' a' where "a \<le> a'" "machine_inv lim ((wops @ [ops]) @ new') (js @ js') a' m'" "answered a m1 \<longrightarrow> answered a' m'"
      using Cons.IH [OF m1(2) new(2), of "wops @ [ops]" js a] Cons.prems(4,5) by (auto simp: new)
    then show ?thesis using 1(2) by (auto simp: new)
  next
    case False
    then have arr: "arrivals es = map (\<lambda>ops. Some (batch_of 0 ops)) new" using Cons.prems(2) by (cases e) auto
    have "\<exists>js1 a1. a \<le> a1 \<and> machine_inv lim wops (js @ js1) a1 m1 \<and> (answered a m \<longrightarrow> answered a1 m1)"
    proof (cases e)
      case Lead
      then show ?thesis using lead_inv [OF Cons.prems(3) _ assms(4)] m1(1) by (intro exI [of _ "[]"] exI [of _ a]) simp
    next
      case Commit
      then show ?thesis using commit_inv [OF Cons.prems(3) _ assms(4) costs] m1(1) by fastforce
    next
      case Finish
      then show ?thesis using finish_inv [OF Cons.prems(3), of m1] m1(1) by (intro exI [of _ "[]"]) simp
    next
      case (Wake i)
      then show ?thesis using wake_inv [OF Cons.prems(3)] m1(1) by (intro exI [of _ "[]"] exI [of _ a]) simp
    qed (use False in blast)
    then obtain js1 a1 where 1: "a \<le> a1" "machine_inv lim wops (js @ js1) a1 m1" "answered a m \<longrightarrow> answered a1 m1" by blast
    obtain js' a' where "a1 \<le> a'" "machine_inv lim (wops @ new) ((js @ js1) @ js') a' m'" "answered a1 m1 \<longrightarrow> answered a' m'"
      using Cons.IH [OF m1(2) arr 1(2) Cons.prems(4,5)] by blast
    then show ?thesis using 1(1,3) by (intro exI [of _ "js1 @ js'"] exI [of _ a']) simp
  qed
qed

section \<open>Progress\<close>

text \<open>A step that the phase calls for is possible, and three of them answer a writer.\<close>

lemma finish_round:
  assumes "machine_inv lim wops js a m" "ma_phase m = Locked status grp l"
  obtains m' a' where "apply_ops (db_event env) [Finish] m = Some m'" "a < a'" "machine_inv lim wops js a' m'" "ma_phase m' = Idle"
    "ma_returned m' = ma_returned m @ [(a, OK)]" "answered a m \<Longrightarrow> answered a' m'"
  by (rule finish_step [OF assms]) (simp add: that)

lemma commit_round:
  assumes "machine_inv lim wops js a m" "ma_phase m = Unlocked u own l s" "calm env" "sum_list (map log_cost wops) \<le> lim"
  obtains m' js' a' where "apply_ops (db_event env) [Commit, Finish] m = Some m'" "a < a'" "machine_inv lim wops js' a' m'"
    "ma_phase m' = Idle" "ma_returned m' = ma_returned m @ [(a, OK)]" "answered a m \<Longrightarrow> answered a' m'"
proof (rule commit_step [OF assms])
  fix m1 j status grp l
  assume 1: "ev_commit env m = Some m1" "machine_inv lim wops (js @ [j]) a m1" "ma_phase m1 = Locked status grp l"
    "ma_returned m1 = ma_returned m" "answered a m \<Longrightarrow> answered a m1"
  show thesis
    by (rule finish_round [OF 1(2,3), of env]) (rule that, use 1 in auto)
qed

lemma lead_round:
  assumes "machine_inv lim wops js a m" "ma_phase m = Idle" "a < length wops" "calm env" "sum_list (map log_cost wops) \<le> lim"
  obtains m' js' a' where "apply_ops (db_event env) [Lead, Commit, Finish] m = Some m'" "a < a'" "machine_inv lim wops js' a' m'"
    "ma_phase m' = Idle" "ma_returned m' = ma_returned m @ [(a, OK)]" "answered a m \<Longrightarrow> answered a' m'"
proof (rule lead_step [OF assms(1,4,2) queue_nonempty [OF machine_invD(2) [OF assms(1)] assms(3)]])
  fix m1 u own l s
  assume 1: "ev_lead env m = Some m1" "machine_inv lim wops js a m1" "ma_phase m1 = Unlocked u own l s"
    "ma_returned m1 = ma_returned m" "answered a m \<Longrightarrow> answered a m1"
  show thesis
    by (rule commit_round [OF 1(2,3) assms(4,5)]) (rule that, use 1 in auto)
qed

lemma apply_ops_append: "apply_ops f (xs @ ys) h = Option.bind (apply_ops f xs h) (apply_ops f ys)"
proof (induction xs arbitrary: h)
  case (Cons x xs)
  then show ?case by (cases "f x h") simp_all
qed simp

lemma done_le: "machine_inv lim wops js a m \<Longrightarrow> a \<le> length wops"
  using machine_invD(2) [of lim wops js a m] by (simp add: queue_inv_def)

text \<open>From any state the writers can all be answered.\<close>

lemma drain_idle:
  assumes "calm env" "sum_list (map log_cost wops) \<le> lim"
  shows "machine_inv lim wops js a m \<Longrightarrow> ma_phase m = Idle \<Longrightarrow> answered a m \<Longrightarrow>
    \<exists>es js' m'. arrivals es = [] \<and> length es \<le> 3 * (length wops - a) \<and> apply_ops (db_event env) es m = Some m' \<and>
      machine_inv lim wops js' (length wops) m' \<and> answered (length wops) m'"
proof (induction "length wops - a" arbitrary: js a m rule: less_induct)
  case less
  show ?case
  proof (cases "a < length wops")
    case False
    then have "a = length wops" using done_le [OF less.prems(1)] by simp
    then show ?thesis using less.prems by (intro exI [of _ "[]"] exI [of _ js] exI [of _ m]) simp
  next
    case True
    obtain m1 js1 a1 where 1: "apply_ops (db_event env) [Lead, Commit, Finish] m = Some m1" "a < a1" "machine_inv lim wops js1 a1 m1"
        "ma_phase m1 = Idle" "answered a1 m1"
      by (rule lead_round [OF less.prems(1,2) True assms]) (use less.prems(3) in blast)
    obtain es js' m' where es: "arrivals es = []" "length es \<le> 3 * (length wops - a1)" "apply_ops (db_event env) es m1 = Some m'"
        "machine_inv lim wops js' (length wops) m'" "answered (length wops) m'"
      using less.hyps [OF _ 1(3-5)] 1(2) True by (meson diff_less_mono2)
    have "apply_ops (db_event env) ([Lead, Commit, Finish] @ es) m = Some m'"
      using 1(1) es(3) unfolding apply_ops_append by simp
    moreover have "length ([Lead, Commit, Finish] @ es) \<le> 3 * (length wops - a)" "arrivals ([Lead, Commit, Finish] @ es) = []"
      using es(1,2) 1(2) True by simp_all
    ultimately show ?thesis using es(4,5) by blast
  qed
qed

lemma drain:
  assumes "calm env" "sum_list (map log_cost wops) \<le> lim" "machine_inv lim wops js a m" "answered a m"
  shows "\<exists>es js' m'. arrivals es = [] \<and> length es \<le> 3 * length wops \<and> apply_ops (db_event env) es m = Some m' \<and>
      machine_inv lim wops js' (length wops) m' \<and> answered (length wops) m'"
proof -
  obtain es0 js0 a0 m0 where 0: "arrivals es0 = []" "length es0 \<le> 3 * a0" "apply_ops (db_event env) es0 m = Some m0"
      "machine_inv lim wops js0 a0 m0" "ma_phase m0 = Idle" "answered a0 m0"
  proof (cases "ma_phase m")
    case Idle
    then show ?thesis using that [of "[]" a m js] assms(3,4) by simp
  next
    case (Unlocked u own l s)
    show ?thesis
      by (rule commit_round [OF assms(3) Unlocked assms(1,2)]) (rule that [of "[Commit, Finish]"], use assms(4) in auto)
  next
    case (Locked status grp l)
    show ?thesis
      by (rule finish_round [OF assms(3) Locked, of env]) (rule that [of "[Finish]"], use assms(4) in auto)
  qed
  obtain es js' m' where es: "arrivals es = []" "length es \<le> 3 * (length wops - a0)" "apply_ops (db_event env) es m0 = Some m'"
      "machine_inv lim wops js' (length wops) m'" "answered (length wops) m'"
    using drain_idle [OF assms(1,2) 0(4-6)] by blast
  have "apply_ops (db_event env) (es0 @ es) m = Some m'" using 0(3) es(3) by (simp add: apply_ops_append)
  moreover have "length (es0 @ es) \<le> 3 * length wops" using 0(2) es(2) done_le [OF 0(4)] by simp
  ultimately show ?thesis using es 0(1) by (metis append_is_Nil_conv arrivals_append)
qed

lemma wake_all:
  assumes "answered n m" "distinct is" "\<forall>i \<in> set is. i < n \<and> i \<notin> fst ` set (ma_returned m)" "n = length (db_threads (ma_db m))"
  shows "\<exists>m'. apply_ops (db_event env) (map Wake is) m = Some m' \<and> ma_returned m' = ma_returned m @ map (\<lambda>i. (i, OK)) is"
  using assms
proof (induction "is" arbitrary: m)
  case (Cons i "is")
  have i: "i < n" "i \<notin> fst ` set (ma_returned m)" using Cons.prems(3) by simp_all
  then have d: "dw_done (db_threads (ma_db m) ! i)" "dw_status (db_threads (ma_db m) ! i) = OK"
    using Cons.prems(1,4) by (auto simp: answered_def)
  let ?m = "m\<lparr>ma_returned := ma_returned m @ [(i, OK)]\<rparr>"
  have step: "ev_wake i m = Some ?m" using i d Cons.prems(4) by (simp add: ev_wake_def)
  have "answered n ?m" using Cons.prems(1) i d by (auto simp: answered_def)
  then obtain m' where "apply_ops (db_event env) (map Wake is) ?m = Some m'" "ma_returned m' = ma_returned ?m @ map (\<lambda>i. (i, OK)) is"
    using Cons.IH [of ?m] Cons.prems(2-4) by auto
  then show ?case using step by simp
qed simp

lemma arrivals_Wake [simp]: "arrivals (map Wake is) = []"
  by (induction "is") simp_all

end
