(* ===== verification/DbProps.thy ===== *)
theory DbProps
  imports DbInv
begin

text \<open>Recovery of a log that the write path has written and a crash has cut off.\<close>




























end
