(* ===== verification/Iterator.thy ===== *)
theory Iterator
  imports DbFormat Status
begin

text \<open>
  \<open>leveldb-library/include/leveldb/iterator.h\<close>, \<open>table/iterator.cc\<close>, \<open>table/iterator_wrapper.h\<close>,
  \<open>table/merger.cc\<close> and \<open>table/two_level_iterator.cc\<close>. The abstract class \<open>Iterator\<close> is a record of its
  virtual functions on the state of an iterator; a failed assertion has no outcome. An object that
  owns iterators holds their states, and the functions of these are a parameter of its own.
  The cleanup functions that run with the destructor are left out.
\<close>

section \<open>The interface\<close>

record 'i Iterator =
  op_Valid :: "'i \<Rightarrow> bool"
  op_key :: "'i \<Rightarrow> u8 list option"
  op_value :: "'i \<Rightarrow> u8 list option"
  op_status :: "'i \<Rightarrow> Status"
  op_Next :: "'i \<Rightarrow> 'i option"
  op_Prev :: "'i \<Rightarrow> 'i option"
  op_Seek :: "u8 list \<Rightarrow> 'i \<Rightarrow> 'i option"
  op_SeekToFirst :: "'i \<Rightarrow> 'i option"
  op_SeekToLast :: "'i \<Rightarrow> 'i option"

text \<open>The iterator without entries; its state is its status.\<close>

definition EmptyIterator_ops :: "Status Iterator" where
  "EmptyIterator_ops =
     \<lparr>op_Valid = (\<lambda>s. False), op_key = (\<lambda>s. None), op_value = (\<lambda>s. None), op_status = (\<lambda>s. s),
      op_Next = (\<lambda>s. None), op_Prev = (\<lambda>s. None), op_Seek = (\<lambda>target s. Some s),
      op_SeekToFirst = Some, op_SeekToLast = Some\<rparr>"

definition NewEmptyIterator :: Status where
  "NewEmptyIterator = OK"

definition NewErrorIterator :: "Status \<Rightarrow> Status" where
  "NewErrorIterator status = status"

section \<open>The wrapper\<close>

text \<open>\<open>wr_iter\<close> is None for the NULL iterator, \<open>wr_key\<close> for a key that has not been set.\<close>

record 'i IteratorWrapper =
  wr_iter :: "'i option"
  wr_valid :: bool
  wr_key :: "u8 list option"

definition IteratorWrapper :: "'i IteratorWrapper" where
  "IteratorWrapper = \<lparr>wr_iter = None, wr_valid = False, wr_key = None\<rparr>"

definition wr_Update :: "'i Iterator \<Rightarrow> 'i \<Rightarrow> 'i IteratorWrapper \<Rightarrow> 'i IteratorWrapper option" where
  "wr_Update f i w =
     (if op_Valid f i then map_option (\<lambda>k. \<lparr>wr_iter = Some i, wr_valid = True, wr_key = Some k\<rparr>) (op_key f i)
      else Some (w\<lparr>wr_iter := Some i, wr_valid := False\<rparr>))"

definition wr_Set :: "'i Iterator \<Rightarrow> 'i option \<Rightarrow> 'i IteratorWrapper \<Rightarrow> 'i IteratorWrapper option" where
  "wr_Set f iter w =
     (case iter of
        None \<Rightarrow> Some (w\<lparr>wr_iter := None, wr_valid := False\<rparr>)
      | Some i \<Rightarrow> wr_Update f i w)"

text \<open>Any of the operations that move the iterator.\<close>

definition wr_move :: "'i Iterator \<Rightarrow> ('i \<Rightarrow> 'i option) \<Rightarrow> 'i IteratorWrapper \<Rightarrow> 'i IteratorWrapper option" where
  "wr_move f move w = Option.bind (wr_iter w) (\<lambda>i. Option.bind (move i) (\<lambda>i. wr_Update f i w))"

definition wr_get_key :: "'i IteratorWrapper \<Rightarrow> u8 list option" where
  "wr_get_key w = (if wr_valid w then wr_key w else None)"

definition wr_value :: "'i Iterator \<Rightarrow> 'i IteratorWrapper \<Rightarrow> u8 list option" where
  "wr_value f w = (if wr_valid w then Option.bind (wr_iter w) (op_value f) else None)"

definition wr_status :: "'i Iterator \<Rightarrow> 'i IteratorWrapper \<Rightarrow> Status option" where
  "wr_status f w = map_option (op_status f) (wr_iter w)"

definition wr_Next :: "'i Iterator \<Rightarrow> 'i IteratorWrapper \<Rightarrow> 'i IteratorWrapper option" where
  "wr_Next f = wr_move f (op_Next f)"

definition wr_Prev :: "'i Iterator \<Rightarrow> 'i IteratorWrapper \<Rightarrow> 'i IteratorWrapper option" where
  "wr_Prev f = wr_move f (op_Prev f)"

definition wr_Seek :: "'i Iterator \<Rightarrow> u8 list \<Rightarrow> 'i IteratorWrapper \<Rightarrow> 'i IteratorWrapper option" where
  "wr_Seek f k = wr_move f (op_Seek f k)"

definition wr_SeekToFirst :: "'i Iterator \<Rightarrow> 'i IteratorWrapper \<Rightarrow> 'i IteratorWrapper option" where
  "wr_SeekToFirst f = wr_move f (op_SeekToFirst f)"

definition wr_SeekToLast :: "'i Iterator \<Rightarrow> 'i IteratorWrapper \<Rightarrow> 'i IteratorWrapper option" where
  "wr_SeekToLast f = wr_move f (op_SeekToLast f)"

section \<open>The merging iterator\<close>

datatype Direction = kForward | kReverse

text \<open>\<open>mi_current\<close> is the index of the child that \<open>current_\<close> points to.\<close>

record 'i MergingIterator =
  mi_children :: "'i IteratorWrapper list"
  mi_current :: "nat option"
  mi_direction :: Direction

definition MergingIterator :: "'i Iterator \<Rightarrow> 'i list \<Rightarrow> 'i MergingIterator option" where
  "MergingIterator f children =
     map_option (\<lambda>ws. \<lparr>mi_children = ws, mi_current = None, mi_direction = kForward\<rparr>)
       (those (map (\<lambda>i. wr_Set f (Some i) IteratorWrapper) children))"

text \<open>
  The loops of \<open>FindSmallest\<close> and \<open>FindLargest\<close> over the indices that are left; \<open>better\<close> is the test of
  the comparison.
\<close>

fun find_best ::
    "Comparator \<Rightarrow> (int \<Rightarrow> bool) \<Rightarrow> 'i IteratorWrapper list \<Rightarrow> nat list \<Rightarrow> nat option \<Rightarrow> nat option option" where
  "find_best cmp better children [] best = Some best"
| "find_best cmp better children (i # is) best =
     (let child = children ! i in
      if wr_valid child then
        (case best of
           None \<Rightarrow> find_best cmp better children is (Some i)
         | Some b \<Rightarrow>
             Option.bind (wr_get_key child) (\<lambda>k.
             Option.bind (wr_get_key (children ! b)) (\<lambda>kb.
               find_best cmp better children is (if better (Compare cmp k kb) then Some i else best))))
      else find_best cmp better children is best)"

definition FindSmallest :: "Comparator \<Rightarrow> 'i MergingIterator \<Rightarrow> 'i MergingIterator option" where
  "FindSmallest cmp m =
     map_option (\<lambda>smallest. m\<lparr>mi_current := smallest\<rparr>)
       (find_best cmp (\<lambda>c. c < 0) (mi_children m) [0..<length (mi_children m)] None)"

definition FindLargest :: "Comparator \<Rightarrow> 'i MergingIterator \<Rightarrow> 'i MergingIterator option" where
  "FindLargest cmp m =
     map_option (\<lambda>largest. m\<lparr>mi_current := largest\<rparr>)
       (find_best cmp (\<lambda>c. c > 0) (mi_children m) (rev [0..<length (mi_children m)]) None)"

definition mi_Valid :: "'i MergingIterator \<Rightarrow> bool" where
  "mi_Valid m \<longleftrightarrow> mi_current m \<noteq> None"

definition mi_key :: "'i MergingIterator \<Rightarrow> u8 list option" where
  "mi_key m = Option.bind (mi_current m) (\<lambda>c. wr_get_key (mi_children m ! c))"

definition mi_value :: "'i Iterator \<Rightarrow> 'i MergingIterator \<Rightarrow> u8 list option" where
  "mi_value f m = Option.bind (mi_current m) (\<lambda>c. wr_value f (mi_children m ! c))"

text \<open>The first error of a child; every child has an iterator.\<close>

definition mi_status :: "'i Iterator \<Rightarrow> 'i MergingIterator \<Rightarrow> Status" where
  "mi_status f m =
     (case List.find (\<lambda>s. \<not> Status_ok s) (map (\<lambda>w. the (wr_status f w)) (mi_children m)) of
        None \<Rightarrow> OK | Some s \<Rightarrow> s)"

text \<open>An operation on every child, or on every child but the current one.\<close>

definition on_children ::
    "('i IteratorWrapper \<Rightarrow> 'i IteratorWrapper option) \<Rightarrow> 'i MergingIterator \<Rightarrow> 'i MergingIterator option" where
  "on_children g m = map_option (\<lambda>ws. m\<lparr>mi_children := ws\<rparr>) (those (map g (mi_children m)))"

definition on_others ::
    "('i IteratorWrapper \<Rightarrow> 'i IteratorWrapper option) \<Rightarrow> 'i MergingIterator \<Rightarrow> 'i MergingIterator option" where
  "on_others g m =
     map_option (\<lambda>ws. m\<lparr>mi_children := ws\<rparr>)
       (those (map (\<lambda>i. if mi_current m = Some i then Some (mi_children m ! i) else g (mi_children m ! i))
         [0..<length (mi_children m)]))"

definition on_current ::
    "('i IteratorWrapper \<Rightarrow> 'i IteratorWrapper option) \<Rightarrow> 'i MergingIterator \<Rightarrow> 'i MergingIterator option" where
  "on_current g m =
     Option.bind (mi_current m) (\<lambda>c.
       map_option (\<lambda>w. m\<lparr>mi_children := (mi_children m)[c := w]\<rparr>) (g (mi_children m ! c)))"

definition mi_SeekToFirst :: "'i Iterator \<Rightarrow> Comparator \<Rightarrow> 'i MergingIterator \<Rightarrow> 'i MergingIterator option" where
  "mi_SeekToFirst f cmp m =
     Option.bind (on_children (wr_SeekToFirst f) m) (\<lambda>m.
       map_option (\<lambda>m. m\<lparr>mi_direction := kForward\<rparr>) (FindSmallest cmp m))"

definition mi_SeekToLast :: "'i Iterator \<Rightarrow> Comparator \<Rightarrow> 'i MergingIterator \<Rightarrow> 'i MergingIterator option" where
  "mi_SeekToLast f cmp m =
     Option.bind (on_children (wr_SeekToLast f) m) (\<lambda>m.
       map_option (\<lambda>m. m\<lparr>mi_direction := kReverse\<rparr>) (FindLargest cmp m))"

definition mi_Seek :: "'i Iterator \<Rightarrow> Comparator \<Rightarrow> u8 list \<Rightarrow> 'i MergingIterator \<Rightarrow> 'i MergingIterator option" where
  "mi_Seek f cmp target m =
     Option.bind (on_children (wr_Seek f target) m) (\<lambda>m.
       map_option (\<lambda>m. m\<lparr>mi_direction := kForward\<rparr>) (FindSmallest cmp m))"

text \<open>A child that is not the current one, when the direction changes.\<close>

definition after_key :: "'i Iterator \<Rightarrow> Comparator \<Rightarrow> u8 list \<Rightarrow> 'i IteratorWrapper \<Rightarrow> 'i IteratorWrapper option" where
  "after_key f cmp key child =
     Option.bind (wr_Seek f key child) (\<lambda>child.
       if wr_valid child
       then Option.bind (wr_get_key child) (\<lambda>k. if Compare cmp key k = 0 then wr_Next f child else Some child)
       else Some child)"

definition before_key :: "'i Iterator \<Rightarrow> u8 list \<Rightarrow> 'i IteratorWrapper \<Rightarrow> 'i IteratorWrapper option" where
  "before_key f key child =
     Option.bind (wr_Seek f key child) (\<lambda>child. if wr_valid child then wr_Prev f child else wr_SeekToLast f child)"

definition mi_Next :: "'i Iterator \<Rightarrow> Comparator \<Rightarrow> 'i MergingIterator \<Rightarrow> 'i MergingIterator option" where
  "mi_Next f cmp m =
     Option.bind (mi_key m) (\<lambda>key.
     Option.bind (if mi_direction m \<noteq> kForward
                  then map_option (\<lambda>m. m\<lparr>mi_direction := kForward\<rparr>) (on_others (after_key f cmp key) m)
                  else Some m) (\<lambda>m.
     Option.bind (on_current (wr_Next f) m) (FindSmallest cmp)))"

definition mi_Prev :: "'i Iterator \<Rightarrow> Comparator \<Rightarrow> 'i MergingIterator \<Rightarrow> 'i MergingIterator option" where
  "mi_Prev f cmp m =
     Option.bind (mi_key m) (\<lambda>key.
     Option.bind (if mi_direction m \<noteq> kReverse
                  then map_option (\<lambda>m. m\<lparr>mi_direction := kReverse\<rparr>) (on_others (before_key f key) m)
                  else Some m) (\<lambda>m.
     Option.bind (on_current (wr_Prev f) m) (FindLargest cmp)))"

definition merging_ops :: "'i Iterator \<Rightarrow> Comparator \<Rightarrow> 'i MergingIterator Iterator" where
  "merging_ops f cmp =
     \<lparr>op_Valid = mi_Valid, op_key = mi_key, op_value = mi_value f, op_status = mi_status f,
      op_Next = mi_Next f cmp, op_Prev = mi_Prev f cmp, op_Seek = mi_Seek f cmp,
      op_SeekToFirst = mi_SeekToFirst f cmp, op_SeekToLast = mi_SeekToLast f cmp\<rparr>"

text \<open>\<open>NewMergingIterator\<close>: which of the three iterators it makes.\<close>

datatype 'i merged = NoIterator Status | OneIterator 'i | ManyIterators "'i MergingIterator"

definition NewMergingIterator :: "'i Iterator \<Rightarrow> 'i list \<Rightarrow> 'i merged option" where
  "NewMergingIterator f children =
     (case children of
        [] \<Rightarrow> Some (NoIterator NewEmptyIterator)
      | [i] \<Rightarrow> Some (OneIterator i)
      | _ \<Rightarrow> map_option ManyIterators (MergingIterator f children))"

text \<open>The virtual functions of the iterator that was made.\<close>

definition merged_get :: "(Status \<Rightarrow> 'r) \<Rightarrow> ('i \<Rightarrow> 'r) \<Rightarrow> ('i MergingIterator \<Rightarrow> 'r) \<Rightarrow> 'i merged \<Rightarrow> 'r" where
  "merged_get g0 g1 g2 m = (case m of NoIterator s \<Rightarrow> g0 s | OneIterator i \<Rightarrow> g1 i | ManyIterators mi \<Rightarrow> g2 mi)"

definition merged_move ::
    "(Status \<Rightarrow> Status option) \<Rightarrow> ('i \<Rightarrow> 'i option) \<Rightarrow> ('i MergingIterator \<Rightarrow> 'i MergingIterator option)
      \<Rightarrow> 'i merged \<Rightarrow> 'i merged option" where
  "merged_move g0 g1 g2 =
     merged_get (\<lambda>s. map_option NoIterator (g0 s)) (\<lambda>i. map_option OneIterator (g1 i)) (\<lambda>mi. map_option ManyIterators (g2 mi))"

definition merged_ops :: "'i Iterator \<Rightarrow> Comparator \<Rightarrow> 'i merged Iterator" where
  "merged_ops f cmp =
     (let e = EmptyIterator_ops; m = merging_ops f cmp in
      \<lparr>op_Valid = merged_get (op_Valid e) (op_Valid f) (op_Valid m), op_key = merged_get (op_key e) (op_key f) (op_key m),
       op_value = merged_get (op_value e) (op_value f) (op_value m), op_status = merged_get (op_status e) (op_status f) (op_status m),
       op_Next = merged_move (op_Next e) (op_Next f) (op_Next m), op_Prev = merged_move (op_Prev e) (op_Prev f) (op_Prev m),
       op_Seek = (\<lambda>k. merged_move (op_Seek e k) (op_Seek f k) (op_Seek m k)),
       op_SeekToFirst = merged_move (op_SeekToFirst e) (op_SeekToFirst f) (op_SeekToFirst m),
       op_SeekToLast = merged_move (op_SeekToLast e) (op_SeekToLast f) (op_SeekToLast m)\<rparr>)"

section \<open>The two-level iterator\<close>

text \<open>
  \<open>block\<close> stands for \<open>block_function_\<close> with its argument and the options: the iterator of the block with
  a handle. \<open>ti_handle\<close> is \<open>data_block_handle_\<close>.
\<close>

record ('x, 'i) TwoLevelIterator =
  ti_status :: Status
  ti_index :: "'x IteratorWrapper"
  ti_data :: "'i IteratorWrapper"
  ti_handle :: "u8 list"

definition TwoLevelIterator :: "'x Iterator \<Rightarrow> 'x \<Rightarrow> ('x, 'i) TwoLevelIterator option" where
  "TwoLevelIterator fx index_iter =
     map_option (\<lambda>w. \<lparr>ti_status = OK, ti_index = w, ti_data = IteratorWrapper, ti_handle = []\<rparr>)
       (wr_Set fx (Some index_iter) IteratorWrapper)"

definition ti_SaveError :: "Status \<Rightarrow> ('x, 'i) TwoLevelIterator \<Rightarrow> ('x, 'i) TwoLevelIterator" where
  "ti_SaveError s t = (if Status_ok (ti_status t) \<and> \<not> Status_ok s then t\<lparr>ti_status := s\<rparr> else t)"

definition SetDataIterator ::
    "'i Iterator \<Rightarrow> 'i option \<Rightarrow> ('x, 'i) TwoLevelIterator \<Rightarrow> ('x, 'i) TwoLevelIterator option" where
  "SetDataIterator f data_iter t =
     (let t = (case wr_status f (ti_data t) of None \<Rightarrow> t | Some s \<Rightarrow> ti_SaveError s t)
      in map_option (\<lambda>w. t\<lparr>ti_data := w\<rparr>) (wr_Set f data_iter (ti_data t)))"

definition InitDataBlock ::
    "'x Iterator \<Rightarrow> 'i Iterator \<Rightarrow> (u8 list \<Rightarrow> 'i) \<Rightarrow> ('x, 'i) TwoLevelIterator \<Rightarrow> ('x, 'i) TwoLevelIterator option" where
  "InitDataBlock fx f block t =
     (if \<not> wr_valid (ti_index t) then SetDataIterator f None t
      else
        Option.bind (wr_value fx (ti_index t)) (\<lambda>handle.
          if wr_iter (ti_data t) \<noteq> None \<and> handle = ti_handle t then Some t
          else SetDataIterator f (Some (block handle)) (t\<lparr>ti_handle := handle\<rparr>)))"

text \<open>\<open>if (data_iter_.iter() != NULL) data_iter_.f()\<close>\<close>

definition on_data ::
    "('i IteratorWrapper \<Rightarrow> 'i IteratorWrapper option) \<Rightarrow> ('x, 'i) TwoLevelIterator \<Rightarrow> ('x, 'i) TwoLevelIterator option" where
  "on_data g t = (if wr_iter (ti_data t) = None then Some t else map_option (\<lambda>w. t\<lparr>ti_data := w\<rparr>) (g (ti_data t)))"

definition on_index ::
    "('x IteratorWrapper \<Rightarrow> 'x IteratorWrapper option) \<Rightarrow> ('x, 'i) TwoLevelIterator \<Rightarrow> ('x, 'i) TwoLevelIterator option" where
  "on_index g t = map_option (\<lambda>w. t\<lparr>ti_index := w\<rparr>) (g (ti_index t))"

partial_function (option) SkipEmptyDataBlocksForward ::
    "'x Iterator \<Rightarrow> 'i Iterator \<Rightarrow> (u8 list \<Rightarrow> 'i) \<Rightarrow> ('x, 'i) TwoLevelIterator \<Rightarrow> ('x, 'i) TwoLevelIterator option" where
  "SkipEmptyDataBlocksForward fx f block t =
     (if wr_iter (ti_data t) = None \<or> \<not> wr_valid (ti_data t) then
        if \<not> wr_valid (ti_index t) then SetDataIterator f None t
        else
          Option.bind (on_index (wr_Next fx) t) (\<lambda>t.
          Option.bind (InitDataBlock fx f block t) (\<lambda>t.
          Option.bind (on_data (wr_SeekToFirst f) t) (SkipEmptyDataBlocksForward fx f block)))
      else Some t)"

declare SkipEmptyDataBlocksForward.simps [code]

partial_function (option) SkipEmptyDataBlocksBackward ::
    "'x Iterator \<Rightarrow> 'i Iterator \<Rightarrow> (u8 list \<Rightarrow> 'i) \<Rightarrow> ('x, 'i) TwoLevelIterator \<Rightarrow> ('x, 'i) TwoLevelIterator option" where
  "SkipEmptyDataBlocksBackward fx f block t =
     (if wr_iter (ti_data t) = None \<or> \<not> wr_valid (ti_data t) then
        if \<not> wr_valid (ti_index t) then SetDataIterator f None t
        else
          Option.bind (on_index (wr_Prev fx) t) (\<lambda>t.
          Option.bind (InitDataBlock fx f block t) (\<lambda>t.
          Option.bind (on_data (wr_SeekToLast f) t) (SkipEmptyDataBlocksBackward fx f block)))
      else Some t)"

declare SkipEmptyDataBlocksBackward.simps [code]

definition ti_Valid :: "('x, 'i) TwoLevelIterator \<Rightarrow> bool" where
  "ti_Valid t \<longleftrightarrow> wr_valid (ti_data t)"

definition ti_key :: "('x, 'i) TwoLevelIterator \<Rightarrow> u8 list option" where
  "ti_key t = wr_get_key (ti_data t)"

definition ti_value :: "'i Iterator \<Rightarrow> ('x, 'i) TwoLevelIterator \<Rightarrow> u8 list option" where
  "ti_value f t = wr_value f (ti_data t)"

definition ti_get_status :: "'x Iterator \<Rightarrow> 'i Iterator \<Rightarrow> ('x, 'i) TwoLevelIterator \<Rightarrow> Status" where
  "ti_get_status fx f t =
     (let s = the (wr_status fx (ti_index t)) in
      if \<not> Status_ok s then s
      else
        (case wr_status f (ti_data t) of
           Some s \<Rightarrow> if \<not> Status_ok s then s else ti_status t
         | None \<Rightarrow> ti_status t))"

definition ti_Seek ::
    "'x Iterator \<Rightarrow> 'i Iterator \<Rightarrow> (u8 list \<Rightarrow> 'i) \<Rightarrow> u8 list \<Rightarrow> ('x, 'i) TwoLevelIterator \<Rightarrow> ('x, 'i) TwoLevelIterator option" where
  "ti_Seek fx f block target t =
     Option.bind (on_index (wr_Seek fx target) t) (\<lambda>t.
     Option.bind (InitDataBlock fx f block t) (\<lambda>t.
     Option.bind (on_data (wr_Seek f target) t) (SkipEmptyDataBlocksForward fx f block)))"

definition ti_SeekToFirst ::
    "'x Iterator \<Rightarrow> 'i Iterator \<Rightarrow> (u8 list \<Rightarrow> 'i) \<Rightarrow> ('x, 'i) TwoLevelIterator \<Rightarrow> ('x, 'i) TwoLevelIterator option" where
  "ti_SeekToFirst fx f block t =
     Option.bind (on_index (wr_SeekToFirst fx) t) (\<lambda>t.
     Option.bind (InitDataBlock fx f block t) (\<lambda>t.
     Option.bind (on_data (wr_SeekToFirst f) t) (SkipEmptyDataBlocksForward fx f block)))"

definition ti_SeekToLast ::
    "'x Iterator \<Rightarrow> 'i Iterator \<Rightarrow> (u8 list \<Rightarrow> 'i) \<Rightarrow> ('x, 'i) TwoLevelIterator \<Rightarrow> ('x, 'i) TwoLevelIterator option" where
  "ti_SeekToLast fx f block t =
     Option.bind (on_index (wr_SeekToLast fx) t) (\<lambda>t.
     Option.bind (InitDataBlock fx f block t) (\<lambda>t.
     Option.bind (on_data (wr_SeekToLast f) t) (SkipEmptyDataBlocksBackward fx f block)))"

definition ti_Next ::
    "'x Iterator \<Rightarrow> 'i Iterator \<Rightarrow> (u8 list \<Rightarrow> 'i) \<Rightarrow> ('x, 'i) TwoLevelIterator \<Rightarrow> ('x, 'i) TwoLevelIterator option" where
  "ti_Next fx f block t =
     (if ti_Valid t
      then Option.bind (on_data (wr_Next f) t) (SkipEmptyDataBlocksForward fx f block)
      else None)"

definition ti_Prev ::
    "'x Iterator \<Rightarrow> 'i Iterator \<Rightarrow> (u8 list \<Rightarrow> 'i) \<Rightarrow> ('x, 'i) TwoLevelIterator \<Rightarrow> ('x, 'i) TwoLevelIterator option" where
  "ti_Prev fx f block t =
     (if ti_Valid t
      then Option.bind (on_data (wr_Prev f) t) (SkipEmptyDataBlocksBackward fx f block)
      else None)"

definition two_level_ops :: "'x Iterator \<Rightarrow> 'i Iterator \<Rightarrow> (u8 list \<Rightarrow> 'i) \<Rightarrow> ('x, 'i) TwoLevelIterator Iterator" where
  "two_level_ops fx f block =
     \<lparr>op_Valid = ti_Valid, op_key = ti_key, op_value = ti_value f, op_status = ti_get_status fx f,
      op_Next = ti_Next fx f block, op_Prev = ti_Prev fx f block, op_Seek = ti_Seek fx f block,
      op_SeekToFirst = ti_SeekToFirst fx f block, op_SeekToLast = ti_SeekToLast fx f block\<rparr>"

end
