(* ===== verification/MemIter.thy ===== *)
theory MemIter
  imports Iterator MemTable
begin

text \<open>
  \<open>leveldb-library/db/memtable.cc\<close>: the class \<open>MemTableIterator\<close>, an \<open>Iterator\<close> over the entries of a
  memtable. The object holds a pointer to the table; here it holds the table as it is when the
  iterator is made. \<open>tmp_\<close> is only scratch space.
\<close>

record MemTableIterator =
  mt_table :: memtable
  mt_node :: "nat option"

definition MemTable_NewIterator :: "memtable \<Rightarrow> MemTableIterator" where
  "MemTable_NewIterator mem = \<lparr>mt_table = mem, mt_node = None\<rparr>"

text \<open>An operation of \<open>iter_\<close> that moves it.\<close>

definition mt_move :: "(memtable \<Rightarrow> nat option \<Rightarrow> nat option option) \<Rightarrow> MemTableIterator \<Rightarrow> MemTableIterator option" where
  "mt_move move i = map_option (\<lambda>node. i\<lparr>mt_node := node\<rparr>) (move (mt_table i) (mt_node i))"

definition mem_iter_ops :: "Comparator \<Rightarrow> MemTableIterator Iterator" where
  "mem_iter_ops user =
     \<lparr>op_Valid = (\<lambda>i. it_Valid (mt_node i)), op_key = (\<lambda>i. mem_key (mt_table i) (mt_node i)),
      op_value = (\<lambda>i. mem_value (mt_table i) (mt_node i)), op_status = (\<lambda>i. OK),
      op_Next = mt_move it_Next, op_Prev = mt_move (it_Prev (mem_compare user)),
      op_Seek = (\<lambda>k. mt_move (\<lambda>mem _. mem_Seek user mem k)),
      op_SeekToFirst = mt_move (\<lambda>mem _. it_SeekToFirst mem), op_SeekToLast = mt_move (\<lambda>mem _. it_SeekToLast mem)\<rparr>"

end
