(* ===== verification/DbIter.thy ===== *)
theory DbIter
  imports Iterator SkipList
begin

text \<open>
  \<open>leveldb-library/db/db_iter.cc\<close>: the iterator that clients get. It shows every user key once, with
  the newest value that the snapshot sees, over an iterator of internal keys. \<open>db_->RecordReadSample\<close>
  is recorded in \<open>di_samples\<close>; what the database makes of the samples is not part of the iterator.
  \<open>ClearSavedValue\<close> also gives back memory, which a list does not show. \<open>di_bytes_counter\<close> is a \<open>ssize_t\<close>,
  which no sum of lengths of slices in memory overflows.
\<close>

record 'i DBIter =
  di_iter :: 'i
  di_sequence :: u64
  di_status :: Status
  di_saved_key :: "u8 list"
  di_saved_value :: "u8 list"
  di_direction :: Direction
  di_valid :: bool
  di_rnd :: u32
  di_bytes_counter :: int
  di_samples :: "u8 list list"

definition kReadBytesPeriod :: nat where
  "kReadBytesPeriod = 1048576"

text \<open>The next number, below \<open>n\<close>, and the new seed.\<close>

definition Random_Uniform :: "u32 \<Rightarrow> u32 \<Rightarrow> u32 \<times> u32" where
  "Random_Uniform n rnd = (let rnd = Random_Next rnd in (rnd mod n, rnd))"

definition RandomPeriod :: "u32 \<Rightarrow> int \<times> u32" where
  "RandomPeriod rnd = (let (r, rnd) = Random_Uniform (of_nat (2 * kReadBytesPeriod)) rnd in (uint r, rnd))"

definition NewDBIterator :: "'i \<Rightarrow> u64 \<Rightarrow> u32 \<Rightarrow> 'i DBIter" where
  "NewDBIterator iter s seed =
     (let (counter, rnd) = RandomPeriod (Random seed)
      in \<lparr>di_iter = iter, di_sequence = s, di_status = OK, di_saved_key = [], di_saved_value = [], di_direction = kForward,
          di_valid = False, di_rnd = rnd, di_bytes_counter = counter, di_samples = []\<rparr>)"

section \<open>Reading entries\<close>

partial_function (option) sample_loop :: "u8 list \<Rightarrow> 'i DBIter \<Rightarrow> 'i DBIter option" where
  "sample_loop k d =
     (if di_bytes_counter d < 0 then
        (let (period, rnd) = RandomPeriod (di_rnd d)
         in sample_loop k (d\<lparr>di_bytes_counter := di_bytes_counter d + period, di_rnd := rnd, di_samples := di_samples d @ [k]\<rparr>))
      else Some d)"

declare sample_loop.simps [code]

definition ParseKey :: "'i Iterator \<Rightarrow> 'i DBIter \<Rightarrow> (ParsedInternalKey option \<times> 'i DBIter) option" where
  "ParseKey f d =
     Option.bind (op_key f (di_iter d)) (\<lambda>k.
     Option.bind (op_value f (di_iter d)) (\<lambda>v.
       let n = int (length k + length v) in
       map_option (\<lambda>d.
         case ParseInternalKey k of
           None \<Rightarrow> (None, d\<lparr>di_status := Status_Corruption ''corrupted internal key in DBIter''\<rparr>)
         | Some ikey \<Rightarrow> (Some ikey, d))
         (sample_loop k (d\<lparr>di_bytes_counter := di_bytes_counter d - n\<rparr>))))"

text \<open>\<open>iter_->f()\<close>, and the user key of the current entry, which has at least 8 bytes.\<close>

definition on_iter :: "('i \<Rightarrow> 'i option) \<Rightarrow> 'i DBIter \<Rightarrow> 'i DBIter option" where
  "on_iter move d = map_option (\<lambda>i. d\<lparr>di_iter := i\<rparr>) (move (di_iter d))"

definition current_user_key :: "'i Iterator \<Rightarrow> 'i DBIter \<Rightarrow> u8 list option" where
  "current_user_key f d =
     Option.bind (op_key f (di_iter d)) (\<lambda>k. if length k < 8 then None else Some (ExtractUserKey k))"

section \<open>Forward\<close>

text \<open>The loop of \<open>FindNextUserEntry\<close>; \<open>skip\<close> is \<open>saved_key_\<close> for every caller.\<close>

partial_function (option) find_next_entry :: "'i Iterator \<Rightarrow> Comparator \<Rightarrow> bool \<Rightarrow> 'i DBIter \<Rightarrow> 'i DBIter option" where
  "find_next_entry f user skipping d =
     Option.bind (ParseKey f d) (\<lambda>(ikey, d).
       case (case ikey of
               None \<Rightarrow> Inr (skipping, d)
             | Some ik \<Rightarrow>
                 if sequence ik \<le> di_sequence d then
                   (case key_type ik of
                      kTypeDeletion \<Rightarrow> Inr (True, d\<lparr>di_saved_key := user_key ik\<rparr>)
                    | kTypeValue \<Rightarrow>
                        if skipping \<and> Compare user (user_key ik) (di_saved_key d) \<le> 0 then Inr (skipping, d)
                        else Inl (d\<lparr>di_valid := True, di_saved_key := []\<rparr>))
                 else Inr (skipping, d)) of
         Inl d \<Rightarrow> Some d
       | Inr (skipping, d) \<Rightarrow>
           Option.bind (on_iter (op_Next f) d) (\<lambda>d.
             if op_Valid f (di_iter d) then find_next_entry f user skipping d
             else Some (d\<lparr>di_saved_key := [], di_valid := False\<rparr>)))"

declare find_next_entry.simps [code]

definition FindNextUserEntry :: "'i Iterator \<Rightarrow> Comparator \<Rightarrow> bool \<Rightarrow> 'i DBIter \<Rightarrow> 'i DBIter option" where
  "FindNextUserEntry f user skipping d =
     (if op_Valid f (di_iter d) \<and> di_direction d = kForward then find_next_entry f user skipping d else None)"

definition di_Next :: "'i Iterator \<Rightarrow> Comparator \<Rightarrow> 'i DBIter \<Rightarrow> 'i DBIter option" where
  "di_Next f user d =
     (if \<not> di_valid d then None
      else if di_direction d = kReverse then
        Option.bind (on_iter (if op_Valid f (di_iter d) then op_Next f else op_SeekToFirst f) (d\<lparr>di_direction := kForward\<rparr>)) (\<lambda>d.
          if \<not> op_Valid f (di_iter d) then Some (d\<lparr>di_valid := False, di_saved_key := []\<rparr>)
          else FindNextUserEntry f user True d)
      else
        Option.bind (current_user_key f d) (\<lambda>k. FindNextUserEntry f user True (d\<lparr>di_saved_key := k\<rparr>)))"

section \<open>Backward\<close>

text \<open>The loop of \<open>FindPrevUserEntry\<close>; the result has the value type of the last entry that counts.\<close>

partial_function (option) find_prev_entry ::
    "'i Iterator \<Rightarrow> Comparator \<Rightarrow> ValueType \<Rightarrow> 'i DBIter \<Rightarrow> (ValueType \<times> 'i DBIter) option" where
  "find_prev_entry f user value_type d =
     Option.bind (ParseKey f d) (\<lambda>(ikey, d).
     Option.bind
       (case ikey of
          None \<Rightarrow> Some (False, value_type, d)
        | Some ik \<Rightarrow>
            if sequence ik \<le> di_sequence d then
              if value_type \<noteq> kTypeDeletion \<and> Compare user (user_key ik) (di_saved_key d) < 0 then Some (True, value_type, d)
              else
                (case key_type ik of
                   kTypeDeletion \<Rightarrow> Some (False, kTypeDeletion, d\<lparr>di_saved_key := [], di_saved_value := []\<rparr>)
                 | kTypeValue \<Rightarrow>
                     Option.bind (op_value f (di_iter d)) (\<lambda>raw_value.
                     map_option (\<lambda>k. (False, kTypeValue, d\<lparr>di_saved_key := k, di_saved_value := raw_value\<rparr>))
                       (current_user_key f d)))
            else Some (False, value_type, d)) (\<lambda>(found, value_type, d).
       if found then Some (value_type, d)
       else
         Option.bind (on_iter (op_Prev f) d) (\<lambda>d.
           if op_Valid f (di_iter d) then find_prev_entry f user value_type d else Some (value_type, d))))"

declare find_prev_entry.simps [code]

definition FindPrevUserEntry :: "'i Iterator \<Rightarrow> Comparator \<Rightarrow> 'i DBIter \<Rightarrow> 'i DBIter option" where
  "FindPrevUserEntry f user d =
     (if di_direction d \<noteq> kReverse then None
      else
        map_option (\<lambda>(value_type, d).
          if value_type = kTypeDeletion
          then d\<lparr>di_valid := False, di_saved_key := [], di_saved_value := [], di_direction := kForward\<rparr>
          else d\<lparr>di_valid := True\<rparr>)
          (if op_Valid f (di_iter d) then find_prev_entry f user kTypeDeletion d else Some (kTypeDeletion, d)))"

text \<open>The scan of \<open>Prev\<close> for an entry before the saved key; true when there is one.\<close>

partial_function (option) scan_before :: "'i Iterator \<Rightarrow> Comparator \<Rightarrow> 'i DBIter \<Rightarrow> (bool \<times> 'i DBIter) option" where
  "scan_before f user d =
     Option.bind (on_iter (op_Prev f) d) (\<lambda>d.
       if \<not> op_Valid f (di_iter d) then Some (False, d\<lparr>di_valid := False, di_saved_key := [], di_saved_value := []\<rparr>)
       else
         Option.bind (current_user_key f d) (\<lambda>k.
           if Compare user k (di_saved_key d) < 0 then Some (True, d) else scan_before f user d))"

declare scan_before.simps [code]

definition di_Prev :: "'i Iterator \<Rightarrow> Comparator \<Rightarrow> 'i DBIter \<Rightarrow> 'i DBIter option" where
  "di_Prev f user d =
     (if \<not> di_valid d then None
      else if di_direction d = kForward then
        if \<not> op_Valid f (di_iter d) then None
        else
          Option.bind (current_user_key f d) (\<lambda>k.
          Option.bind (scan_before f user (d\<lparr>di_saved_key := k\<rparr>)) (\<lambda>(found, d).
            if found then FindPrevUserEntry f user (d\<lparr>di_direction := kReverse\<rparr>) else Some d))
      else FindPrevUserEntry f user d)"

section \<open>Positioning\<close>

definition di_Seek :: "'i Iterator \<Rightarrow> Comparator \<Rightarrow> u8 list \<Rightarrow> 'i DBIter \<Rightarrow> 'i DBIter option" where
  "di_Seek f user target d =
     (let key = AppendInternalKey [] \<lparr>user_key = target, sequence = di_sequence d, key_type = kValueTypeForSeek\<rparr> in
      Option.bind (on_iter (op_Seek f key) (d\<lparr>di_direction := kForward, di_saved_value := [], di_saved_key := key\<rparr>)) (\<lambda>d.
        if op_Valid f (di_iter d) then FindNextUserEntry f user False d else Some (d\<lparr>di_valid := False\<rparr>)))"

definition di_SeekToFirst :: "'i Iterator \<Rightarrow> Comparator \<Rightarrow> 'i DBIter \<Rightarrow> 'i DBIter option" where
  "di_SeekToFirst f user d =
     Option.bind (on_iter (op_SeekToFirst f) (d\<lparr>di_direction := kForward, di_saved_value := []\<rparr>)) (\<lambda>d.
       if op_Valid f (di_iter d) then FindNextUserEntry f user False d else Some (d\<lparr>di_valid := False\<rparr>))"

definition di_SeekToLast :: "'i Iterator \<Rightarrow> Comparator \<Rightarrow> 'i DBIter \<Rightarrow> 'i DBIter option" where
  "di_SeekToLast f user d =
     Option.bind (on_iter (op_SeekToLast f) (d\<lparr>di_direction := kReverse, di_saved_value := []\<rparr>)) (FindPrevUserEntry f user)"

definition di_key :: "'i Iterator \<Rightarrow> 'i DBIter \<Rightarrow> u8 list option" where
  "di_key f d =
     (if \<not> di_valid d then None
      else if di_direction d = kForward then current_user_key f d else Some (di_saved_key d))"

definition di_value :: "'i Iterator \<Rightarrow> 'i DBIter \<Rightarrow> u8 list option" where
  "di_value f d =
     (if \<not> di_valid d then None
      else if di_direction d = kForward then op_value f (di_iter d) else Some (di_saved_value d))"

definition di_get_status :: "'i Iterator \<Rightarrow> 'i DBIter \<Rightarrow> Status" where
  "di_get_status f d = (if Status_ok (di_status d) then op_status f (di_iter d) else di_status d)"

definition DBIter_ops :: "'i Iterator \<Rightarrow> Comparator \<Rightarrow> 'i DBIter Iterator" where
  "DBIter_ops f user =
     \<lparr>op_Valid = di_valid, op_key = di_key f, op_value = di_value f, op_status = di_get_status f,
      op_Next = di_Next f user, op_Prev = di_Prev f user, op_Seek = di_Seek f user,
      op_SeekToFirst = di_SeekToFirst f user, op_SeekToLast = di_SeekToLast f user\<rparr>"

end
