(* ===== verification/DbRead.thy ===== *)
theory DbRead
  imports MemIter DbIter DbImpl
begin

text \<open>
  \<open>leveldb-library/db/db_impl.cc\<close>: \<open>NewInternalIterator\<close> and \<open>NewIterator\<close>. \<open>tables\<close> stands for what
  \<open>Version::AddIterators\<close> pushes, the iterators of the table files, and \<open>ft\<close> for their functions;
  \<open>seed\<close> is \<open>seed_\<close>. The cleanup that gives up the references is left out.
\<close>

text \<open>The children of the internal iterator are objects of different classes.\<close>

datatype 'x child = MemChild MemTableIterator | TableChild 'x

definition child_get :: "(MemTableIterator \<Rightarrow> 'r) \<Rightarrow> ('x \<Rightarrow> 'r) \<Rightarrow> 'x child \<Rightarrow> 'r" where
  "child_get g h c = (case c of MemChild m \<Rightarrow> g m | TableChild x \<Rightarrow> h x)"

definition child_move ::
    "(MemTableIterator \<Rightarrow> MemTableIterator option) \<Rightarrow> ('x \<Rightarrow> 'x option) \<Rightarrow> 'x child \<Rightarrow> 'x child option" where
  "child_move g h = child_get (\<lambda>m. map_option MemChild (g m)) (\<lambda>x. map_option TableChild (h x))"

definition child_ops :: "'x Iterator \<Rightarrow> Comparator \<Rightarrow> 'x child Iterator" where
  "child_ops ft user =
     (let fm = mem_iter_ops user in
      \<lparr>op_Valid = child_get (op_Valid fm) (op_Valid ft), op_key = child_get (op_key fm) (op_key ft),
       op_value = child_get (op_value fm) (op_value ft), op_status = child_get (op_status fm) (op_status ft),
       op_Next = child_move (op_Next fm) (op_Next ft), op_Prev = child_move (op_Prev fm) (op_Prev ft),
       op_Seek = (\<lambda>k. child_move (op_Seek fm k) (op_Seek ft k)),
       op_SeekToFirst = child_move (op_SeekToFirst fm) (op_SeekToFirst ft),
       op_SeekToLast = child_move (op_SeekToLast fm) (op_SeekToLast ft)\<rparr>)"

text \<open>The iterator, the latest sequence number and the new seed.\<close>

definition NewInternalIterator ::
    "'x Iterator \<Rightarrow> Comparator \<Rightarrow> 'x list \<Rightarrow> u32 \<Rightarrow> 'f db \<Rightarrow> ('x child merged \<times> u64 \<times> u32) option" where
  "NewInternalIterator ft user tables seed db =
     (let list = MemChild (MemTable_NewIterator (db_mem db)) #
            (case db_imm db of None \<Rightarrow> [] | Some imm \<Rightarrow> [MemChild (MemTable_NewIterator imm)]) @ map TableChild tables
      in map_option (\<lambda>iter. (iter, db_last_sequence db, seed + 1)) (NewMergingIterator (child_ops ft user) list))"

definition internal_ops :: "'x Iterator \<Rightarrow> Comparator \<Rightarrow> 'x child merged Iterator" where
  "internal_ops ft user = merged_ops (child_ops ft user) (InternalKeyComparator user)"

text \<open>\<open>snapshot\<close> is the sequence number of \<open>options.snapshot\<close>.\<close>

definition DBImpl_NewIterator ::
    "'x Iterator \<Rightarrow> Comparator \<Rightarrow> 'x list \<Rightarrow> u32 \<Rightarrow> u64 option \<Rightarrow> 'f db \<Rightarrow> 'x child merged DBIter option" where
  "DBImpl_NewIterator ft user tables seed snapshot db =
     map_option (\<lambda>(iter, latest_snapshot, seed).
       NewDBIterator iter (case snapshot of Some s \<Rightarrow> s | None \<Rightarrow> latest_snapshot) seed)
       (NewInternalIterator ft user tables seed db)"

definition client_ops :: "'x Iterator \<Rightarrow> Comparator \<Rightarrow> 'x child merged DBIter Iterator" where
  "client_ops ft user = DBIter_ops (internal_ops ft user) user"

end
