(* ===== verification/Cursor.thy ===== *)
theory Cursor
  imports Iterator DbFormatSpec
begin

text \<open>
  The contract of an iterator: a cursor on a sorted list of entries. An iterator that stands on no
  entry has the length of the list as its position. A key \<open>k\<close> with \<open>ok k\<close> may be sought; the merging
  iterator keeps the contract when its children do.
\<close>

section \<open>Cuts of sorted lists\<close>

type_synonym entry = "u8 list \<times> u8 list"

text \<open>The number of entries in front that satisfy \<open>D\<close>, and the position before one.\<close>

definition cut :: "('e \<Rightarrow> bool) \<Rightarrow> 'e list \<Rightarrow> nat" where
  "cut D l = length (takeWhile D l)"

definition step_back :: "nat \<Rightarrow> nat \<Rightarrow> nat" where
  "step_back len n = (if n = 0 then len else n - 1)"

lemma cut_le: "cut D l \<le> length l"
  by (simp add: cut_def length_takeWhile_le)

lemma cut_cong: "(\<And>e. e \<in> set l \<Longrightarrow> D e = D' e) \<Longrightarrow> cut D l = cut D' l"
  unfolding cut_def by (metis takeWhile_cong)

lemma cut_simps [simp]: "cut D [] = 0" "cut (\<lambda>_. False) l = 0" "cut (\<lambda>_. True) l = length l"
  by (induction l) (simp_all add: cut_def)

context key_order
begin

definition sorted_entries :: "('k \<times> 'v) list \<Rightarrow> bool" where
  "sorted_entries es \<longleftrightarrow> sorted_wrt (\<lambda>x y. cmp (fst x) (fst y) < 0) es"

definition downward :: "('k \<times> 'v \<Rightarrow> bool) \<Rightarrow> bool" where
  "downward D \<longleftrightarrow> (\<forall>x y. D y \<longrightarrow> cmp (fst x) (fst y) < 0 \<longrightarrow> D x)"

lemma downward_simps [simp]: "downward (\<lambda>e. cmp (fst e) k < 0)" "downward (\<lambda>e. cmp (fst e) k \<le> 0)"
    "downward (\<lambda>_. True)" "downward (\<lambda>_. False)"
  unfolding downward_def using less_trans less_le_trans less_imp_le by (auto, blast+)

lemma sorted_entries_nth: "sorted_entries es \<Longrightarrow> i < j \<Longrightarrow> j < length es \<Longrightarrow> cmp (fst (es ! i)) (fst (es ! j)) < 0"
  by (simp add: sorted_entries_def sorted_wrt_iff_nth_less)

lemma sorted_index:
  assumes "sorted_entries es" "i < length es" "j < length es"
  shows "cmp (fst (es ! i)) (fst (es ! j)) < 0 \<longleftrightarrow> i < j"
proof -
  consider "i < j" | "i = j" | "j < i" by linarith
  then show ?thesis
    using sorted_entries_nth [OF assms(1), of i j] sorted_entries_nth [OF assms(1), of j i]
      flip [of "fst (es ! i)" "fst (es ! j)"] assms(2,3) by cases auto
qed

lemma sorted_entries_unique:
  assumes "sorted_entries l" "sorted_entries l'" "set l = set l'"
  shows "l = l'"
  using assms
proof (induction l arbitrary: l')
  case (Cons x l)
  then obtain y l1 where l': "l' = y # l1" by (cases l') auto
  have x: "\<And>z. z \<in> set l \<Longrightarrow> cmp (fst x) (fst z) < 0" and y: "\<And>z. z \<in> set l1 \<Longrightarrow> cmp (fst y) (fst z) < 0"
    using Cons.prems(1,2) l' by (simp_all add: sorted_entries_def)
  have irrefl: "\<not> cmp (fst z) (fst z) < 0" for z by simp
  have "x = y"
  proof (rule ccontr)
    assume "x \<noteq> y"
    then have "y \<in> set l" "x \<in> set l1" using Cons.prems(3) l' by auto
    then show False using x [of y] y [of x] flip [of "fst x" "fst y"] by simp
  qed
  moreover have "x \<notin> set l" "y \<notin> set l1" using x [of x] y [of y] by auto
  ultimately have "set l = set l1" using Cons.prems(3) l' by auto
  then show ?case using Cons.IH [of l1] Cons.prems(1,2) l' \<open>x = y\<close> by (simp add: sorted_entries_def)
qed simp

lemma sorted_entries_exist:
  assumes "finite A" "\<And>x y. x \<in> A \<Longrightarrow> y \<in> A \<Longrightarrow> x \<noteq> y \<Longrightarrow> cmp (fst x) (fst y) \<noteq> 0"
  shows "\<exists>es. sorted_entries es \<and> set es = A"
  using assms
proof (induction A)
  case empty
  show ?case by (rule exI [of _ "[]"]) (simp add: sorted_entries_def)
next
  case (insert x A)
  then obtain es where es: "sorted_entries es" "set es = A" by blast
  let ?t = "takeWhile (\<lambda>e. cmp (fst e) (fst x) < 0) es" and ?d = "dropWhile (\<lambda>e. cmp (fst e) (fst x) < 0) es"
  have tr: "cmp (fst e) (fst x) < 0" if "e \<in> set ?t" for e by (rule sorted_split(1) [OF es(1) [unfolded sorted_entries_def] that])
  have d: "cmp (fst x) (fst e) < 0" if "e \<in> set ?d" for e
  proof -
    have "cmp (fst x) (fst e) \<le> 0" by (rule sorted_split(2) [OF es(1) [unfolded sorted_entries_def] that])
    moreover have "e \<in> A" using that set_dropWhileD es(2) by metis
    then have "cmp (fst x) (fst e) \<noteq> 0" using insert.prems [of x e] insert.hyps(2) by auto
    ultimately show ?thesis by simp
  qed
  obtain l1 l2 where l: "l1 = ?t" "l2 = ?d" by blast
  have app: "l1 @ l2 = es" unfolding l by (rule takeWhile_dropWhile_id)
  have s: "sorted_wrt (\<lambda>x y. cmp (fst x) (fst y) < 0) (l1 @ l2)" using es(1) unfolding app sorted_entries_def .
  have "sorted_entries (l1 @ x # l2)"
    using s tr [folded l] d [folded l] unfolding sorted_entries_def sorted_wrt_append by auto
  moreover have "set (l1 @ x # l2) = insert x A" using es(2) app by auto
  ultimately show ?case by blast
qed

lemma cut_iff:
  assumes "sorted_entries es" "downward D" "j < length es"
  shows "D (es ! j) \<longleftrightarrow> j < cut D es"
proof
  assume "j < cut D es"
  then show "D (es ! j)" unfolding cut_def by (metis nth_mem set_takeWhileD takeWhile_nth)
next
  assume D: "D (es ! j)"
  show "j < cut D es"
  proof (rule ccontr)
    assume "\<not> j < cut D es"
    then have c: "cut D es \<le> j" "cut D es < length es" using assms(3) by simp_all
    then have "\<not> D (es ! cut D es)" unfolding cut_def by (metis nth_length_takeWhile)
    moreover have "D (es ! cut D es)"
    proof (cases "cut D es = j")
      case False
      then have "cmp (fst (es ! cut D es)) (fst (es ! j)) < 0" using sorted_entries_nth [OF assms(1) _ assms(3)] c by simp
      then show ?thesis using assms(2) D unfolding downward_def by blast
    qed (use D in simp)
    ultimately show False by simp
  qed
qed

lemma cut_at:
  assumes "sorted_entries es" "n < length es"
  shows "cut (\<lambda>e. cmp (fst e) (fst (es ! n)) < 0) es = n" "cut (\<lambda>e. cmp (fst e) (fst (es ! n)) \<le> 0) es = Suc n"
proof -
  let ?L = "\<lambda>e. cmp (fst e) (fst (es ! n)) < 0" and ?M = "\<lambda>e. cmp (fst e) (fst (es ! n)) \<le> 0"
  have L: "j < cut ?L es \<longleftrightarrow> j < n" if "j < length es" for j
    using cut_iff [OF assms(1) _ that, of ?L] sorted_index [OF assms(1) that assms(2)] by simp
  have M: "j < cut ?M es \<longleftrightarrow> j \<le> n" if "j < length es" for j
    using cut_iff [OF assms(1) _ that, of ?M] sorted_index [OF assms(1,2) that]
      not_le [of "fst (es ! j)" "fst (es ! n)"] by auto
  show "cut ?L es = n" using L [of n] L [of "cut ?L es"] cut_le [of ?L es] assms(2) by (metis nat_neq_iff le_neq_implies_less)
  show "cut ?M es = Suc n"
    using M [of n] M [of "Suc n"] M [of "cut ?M es"] cut_le [of ?M es] assms(2)
    by (metis Suc_leI Suc_n_not_le_n le_antisym le_neq_implies_less not_less_eq_eq order_refl)
qed

end

section \<open>The contract\<close>

locale cursor = key_order cmp for cmp :: "u8 list \<Rightarrow> u8 list \<Rightarrow> int" +
  fixes f :: "'i Iterator" and ok :: "u8 list \<Rightarrow> bool" and at :: "'i \<Rightarrow> entry list \<Rightarrow> nat \<Rightarrow> bool"
  assumes at_le: "at i es n \<Longrightarrow> n \<le> length es"
    and at_sorted: "at i es n \<Longrightarrow> sorted_entries es"
    and at_ok: "at i es n \<Longrightarrow> e \<in> set es \<Longrightarrow> ok (fst e)"
    and Valid: "at i es n \<Longrightarrow> op_Valid f i \<longleftrightarrow> n < length es"
    and key: "at i es n \<Longrightarrow> n < length es \<Longrightarrow> op_key f i = Some (fst (es ! n))"
    and val: "at i es n \<Longrightarrow> n < length es \<Longrightarrow> op_value f i = Some (snd (es ! n))"
    and status: "at i es n \<Longrightarrow> op_status f i = OK"
    and Next: "at i es n \<Longrightarrow> n < length es \<Longrightarrow> \<exists>i'. op_Next f i = Some i' \<and> at i' es (Suc n)"
    and Prev: "at i es n \<Longrightarrow> n < length es \<Longrightarrow> \<exists>i'. op_Prev f i = Some i' \<and> at i' es (step_back (length es) n)"
    and Seek: "at i es n \<Longrightarrow> ok k \<Longrightarrow> \<exists>i'. op_Seek f k i = Some i' \<and> at i' es (cut (\<lambda>e. cmp (fst e) k < 0) es)"
    and SeekToFirst: "at i es n \<Longrightarrow> \<exists>i'. op_SeekToFirst f i = Some i' \<and> at i' es 0"
    and SeekToLast: "at i es n \<Longrightarrow> \<exists>i'. op_SeekToLast f i = Some i' \<and> at i' es (step_back (length es) (length es))"
begin

text \<open>The wrapper keeps it.\<close>

definition wrapped :: "'i IteratorWrapper \<Rightarrow> entry list \<Rightarrow> nat \<Rightarrow> bool" where
  "wrapped w es n \<longleftrightarrow> (\<exists>i. wr_iter w = Some i \<and> at i es n) \<and> wr_valid w = (n < length es) \<and>
     (n < length es \<longrightarrow> wr_key w = Some (fst (es ! n)))"

lemma Update_ok: "at i es n \<Longrightarrow> \<exists>w'. wr_Update f i w = Some w' \<and> wrapped w' es n"
  using Valid [of i es n] key [of i es n] by (auto simp: wr_Update_def wrapped_def)

lemma Set_ok: "at i es n \<Longrightarrow> \<exists>w'. wr_Set f (Some i) w = Some w' \<and> wrapped w' es n"
  using Update_ok by (simp add: wr_Set_def)

lemma move_ok:
  assumes "wrapped w es n" "\<And>i. at i es n \<Longrightarrow> \<exists>i'. move i = Some i' \<and> at i' es n'"
  shows "\<exists>w'. wr_move f move w = Some w' \<and> wrapped w' es n'"
proof -
  obtain i where i: "wr_iter w = Some i" "at i es n" using assms(1) by (auto simp: wrapped_def)
  then show ?thesis using assms(2) [OF i(2)] Update_ok by (force simp: wr_move_def)
qed

lemma wrapped_ops:
  assumes "wrapped w es n"
  shows "n < length es \<Longrightarrow> \<exists>w'. wr_Next f w = Some w' \<and> wrapped w' es (Suc n)"
    and "n < length es \<Longrightarrow> \<exists>w'. wr_Prev f w = Some w' \<and> wrapped w' es (step_back (length es) n)"
    and "ok k \<Longrightarrow> \<exists>w'. wr_Seek f k w = Some w' \<and> wrapped w' es (cut (\<lambda>e. cmp (fst e) k < 0) es)"
    and "\<exists>w'. wr_SeekToFirst f w = Some w' \<and> wrapped w' es 0"
    and "\<exists>w'. wr_SeekToLast f w = Some w' \<and> wrapped w' es (step_back (length es) (length es))"
  unfolding wr_Next_def wr_Prev_def wr_Seek_def wr_SeekToFirst_def wr_SeekToLast_def
  by (rule move_ok [OF assms], use Next Prev Seek SeekToFirst SeekToLast in blast)+

lemma wrapped_get:
  assumes "wrapped w es n"
  shows "wr_valid w \<longleftrightarrow> n < length es" "n < length es \<Longrightarrow> wr_get_key w = Some (fst (es ! n))"
    "n < length es \<Longrightarrow> wr_value f w = Some (snd (es ! n))" "n \<le> length es" "sorted_entries es"
    "e \<in> set es \<Longrightarrow> ok (fst e)" "wr_status f w = Some OK"
proof -
  obtain i where i: "wr_iter w = Some i" "at i es n" using assms by (auto simp: wrapped_def)
  show "wr_valid w \<longleftrightarrow> n < length es" "n < length es \<Longrightarrow> wr_get_key w = Some (fst (es ! n))"
    "n < length es \<Longrightarrow> wr_value f w = Some (snd (es ! n))" "wr_status f w = Some OK"
    using assms i(1) val [OF i(2)] status [OF i(2)] by (simp_all add: wrapped_def wr_get_key_def wr_value_def wr_status_def)
  show "n \<le> length es" "sorted_entries es" "e \<in> set es \<Longrightarrow> ok (fst e)"
    using at_le [OF i(2)] at_sorted [OF i(2)] at_ok [OF i(2)] by auto
qed

end

section \<open>Runs\<close>

text \<open>What a client sees: the entry the iterator stands on, if any, after each of its calls.\<close>

datatype cursor_call = CallSeekToFirst | CallSeekToLast | CallSeek "u8 list" | CallNext | CallPrev

fun iter_call :: "'i Iterator \<Rightarrow> cursor_call \<Rightarrow> 'i \<Rightarrow> 'i option" where
  "iter_call f CallSeekToFirst i = op_SeekToFirst f i"
| "iter_call f CallSeekToLast i = op_SeekToLast f i"
| "iter_call f (CallSeek k) i = op_Seek f k i"
| "iter_call f CallNext i = op_Next f i"
| "iter_call f CallPrev i = op_Prev f i"

definition iter_entry :: "'i Iterator \<Rightarrow> 'i \<Rightarrow> entry option option" where
  "iter_entry f i =
     (if op_Valid f i then Option.bind (op_key f i) (\<lambda>k. map_option (\<lambda>v. Some (k, v)) (op_value f i)) else Some None)"

text \<open>A call of \<open>Next\<close> or \<open>Prev\<close> on an iterator that is not valid has no outcome.\<close>

primrec iter_run :: "'i Iterator \<Rightarrow> cursor_call list \<Rightarrow> 'i \<Rightarrow> (entry option \<times> Status) list option" where
  "iter_run f [] i = Some []"
| "iter_run f (c # cs) i =
     (if (c = CallNext \<or> c = CallPrev) \<and> \<not> op_Valid f i then None
      else
        Option.bind (iter_call f c i) (\<lambda>i.
        Option.bind (iter_entry f i) (\<lambda>e.
          map_option (\<lambda>es. (e, op_status f i) # es) (iter_run f cs i))))"

text \<open>The same on a list of entries.\<close>

fun list_call :: "(u8 list \<Rightarrow> u8 list \<Rightarrow> int) \<Rightarrow> entry list \<Rightarrow> cursor_call \<Rightarrow> nat \<Rightarrow> nat" where
  "list_call cmp es CallSeekToFirst n = 0"
| "list_call cmp es CallSeekToLast n = step_back (length es) (length es)"
| "list_call cmp es (CallSeek k) n = cut (\<lambda>e. cmp (fst e) k < 0) es"
| "list_call cmp es CallNext n = Suc n"
| "list_call cmp es CallPrev n = step_back (length es) n"

primrec list_run :: "(u8 list \<Rightarrow> u8 list \<Rightarrow> int) \<Rightarrow> entry list \<Rightarrow> cursor_call list \<Rightarrow> nat \<Rightarrow> (entry option \<times> Status) list option" where
  "list_run cmp es [] n = Some []"
| "list_run cmp es (c # cs) n =
     (if (c = CallNext \<or> c = CallPrev) \<and> \<not> n < length es then None
      else
        let n = list_call cmp es c n in
        map_option (\<lambda>r. (if n < length es then Some (es ! n) else None, OK) # r) (list_run cmp es cs n))"

context cursor
begin

lemma call_ok:
  assumes "at i es n" "(c = CallNext \<or> c = CallPrev) \<longrightarrow> n < length es" "\<And>k. c = CallSeek k \<Longrightarrow> ok k"
  shows "\<exists>i'. iter_call f c i = Some i' \<and> at i' es (list_call cmp es c n)"
  using assms Next [OF assms(1)] Prev [OF assms(1)] Seek [OF assms(1)] SeekToFirst [OF assms(1)] SeekToLast [OF assms(1)]
  by (cases c) simp_all

lemma run_ok:
  assumes "at i es n" "\<And>k. CallSeek k \<in> set cs \<Longrightarrow> ok k"
  shows "iter_run f cs i = list_run cmp es cs n"
  using assms
proof (induction cs arbitrary: i n)
  case (Cons c cs)
  show ?case
  proof (cases "(c = CallNext \<or> c = CallPrev) \<and> \<not> n < length es")
    case True
    then show ?thesis using Valid [OF Cons.prems(1)] by simp
  next
    case False
    then obtain i' where i': "iter_call f c i = Some i'" "at i' es (list_call cmp es c n)"
      using call_ok [OF Cons.prems(1), of c] Cons.prems(2) by auto
    have "iter_entry f i' = Some (if list_call cmp es c n < length es then Some (es ! list_call cmp es c n) else None)"
      using Valid [OF i'(2)] key [OF i'(2)] val [OF i'(2)] by (simp add: iter_entry_def)
    then show ?thesis
      using False Valid [OF Cons.prems(1)] i'(1) status [OF i'(2)] Cons.IH [OF i'(2)] Cons.prems(2) by (auto simp: Let_def)
  qed
qed simp

end

end
