(* ===== verification/DbIterSpec.thy ===== *)
theory DbIterSpec
  imports DbIter Cursor
begin

text \<open>
  The iterator of the clients is a cursor on the view that a snapshot has of the internal entries:
  the user keys whose newest visible entry is a value, each with that value.
\<close>

section \<open>Sampling ends\<close>

text \<open>The generator of \<open>random.h\<close> multiplies modulo a prime, and stays between 1 and the modulus.\<close>

definition seed_ok :: "u32 \<Rightarrow> bool" where
  "seed_ok rnd \<longleftrightarrow> 0 < unat rnd \<and> unat rnd < 2147483647"

lemma Random_ok: "seed_ok (Random s)"
proof -
  define x where "x = s AND 0x7fffffff"
  have "unat x < 2147483648"
  proof -
    have "x = take_bit 31 s" unfolding x_def take_bit_eq_mask by (simp add: mask_eq_exp_minus_1)
    then show ?thesis using take_bit_nat_less_exp [of 31 "unat s"] by (simp add: unsigned_take_bit_eq)
  qed
  then have "unat x < 2147483647" if "x \<noteq> 2147483647" using that by (cases "unat x = 2147483647") (simp_all add: word_unat_eq_iff)
  moreover have "x \<noteq> 0 \<Longrightarrow> 0 < unat x" by (simp add: unat_gt_0)
  ultimately show ?thesis by (simp add: Random_def Let_def x_def [symmetric] seed_ok_def)
qed

lemma Random_Next_mod:
  assumes "seed_ok rnd"
  shows "unat (Random_Next rnd) mod 2147483647 = unat rnd * 16807 mod 2147483647" "unat (Random_Next rnd) \<le> 2147483647"
proof -
  define n where "n = unat rnd * 16807"
  have n: "n < 2147483647 * 16807" using assms by (simp add: n_def seed_ok_def)
  let ?product = "ucast rnd * 16807 :: u64"
  have "unat (ucast rnd :: u64) = unat rnd" by (simp add: unsigned_ucast_eq take_bit_nat_eq_self_iff less_le_trans [OF unsigned_less])
  then have p: "unat ?product = n" using n by (simp add: unat_word_ariths n_def)
  have hi: "unat (drop_bit 31 ?product) = n div 2147483648" by (simp add: drop_bit_eq_div unat_div_distrib p)
  have mask: "?product AND ucast (2147483647 :: u32) = take_bit 31 ?product" unfolding take_bit_eq_mask by (simp add: mask_eq_exp_minus_1)
  have lo: "unat (?product AND ucast (2147483647 :: u32)) = n mod 2147483648"
    unfolding mask by (simp add: take_bit_eq_mod unat_mod_distrib p)
  define t where "t = n div 2147483648 + n mod 2147483648"
  have "n div 2147483648 < 16807" using n by (simp add: less_mult_imp_div_less)
  moreover have "n mod 2147483648 < 2147483648" by simp
  ultimately have t: "t < 2147483648 + 16807" unfolding t_def by linarith
  have sum: "unat (drop_bit 31 ?product + (?product AND ucast (2147483647 :: u32))) = t"
    using t hi lo by (simp add: unat_word_ariths t_def)
  then have seed: "unat (ucast (drop_bit 31 ?product + (?product AND ucast (2147483647 :: u32))) :: u32) = t"
    using t by (simp add: unsigned_ucast_eq take_bit_nat_eq_self_iff)
  have r: "unat (Random_Next rnd) = (if t > 2147483647 then t - 2147483647 else t)"
    using seed t by (auto simp: Random_Next_def Let_def word_less_nat_alt unat_sub_if_size)
  have "n = 2147483648 * (n div 2147483648) + n mod 2147483648" by simp
  then have "n = t + 2147483647 * (n div 2147483648)" unfolding t_def by linarith
  then have "n mod 2147483647 = t mod 2147483647" by (metis mod_mult_self2)
  then show "unat (Random_Next rnd) mod 2147483647 = unat rnd * 16807 mod 2147483647"
    unfolding r n_def [symmetric] by (auto simp: le_mod_geq)
  show "unat (Random_Next rnd) \<le> 2147483647" unfolding r using t by auto
qed

lemma Random_Next_ok:
  assumes "seed_ok rnd"
  shows "seed_ok (Random_Next rnd)" "unat (Random_Next rnd) = unat rnd * 16807 mod 2147483647"
proof -
  have "coprime (2147483647 :: nat) 16807" by (simp add: coprime_iff_gcd_eq_1 gcd_non_0_nat)
  moreover have "\<not> 2147483647 dvd unat rnd" using assms by (auto simp: seed_ok_def dest: dvd_imp_le)
  ultimately have "\<not> 2147483647 dvd unat rnd * 16807" by (simp add: coprime_dvd_mult_left_iff)
  then have "unat (Random_Next rnd) mod 2147483647 \<noteq> 0" unfolding Random_Next_mod(1) [OF assms] by (simp add: dvd_eq_mod_eq_0)
  then have "unat (Random_Next rnd) \<noteq> 0" "unat (Random_Next rnd) \<noteq> 2147483647" by auto
  then have "0 < unat (Random_Next rnd)" "unat (Random_Next rnd) < 2147483647" using Random_Next_mod(2) [OF assms] by linarith+
  then show "seed_ok (Random_Next rnd)" "unat (Random_Next rnd) = unat rnd * 16807 mod 2147483647"
    using Random_Next_mod(1) [OF assms] by (simp_all add: seed_ok_def)
qed

text \<open>No two gaps in a row are empty.\<close>

lemma gap_positive:
  assumes "seed_ok rnd" "unat rnd mod 2097152 = 0"
  shows "unat (Random_Next rnd) mod 2097152 \<noteq> 0"
proof -
  obtain a where a: "unat rnd = 2097152 * a" using assms(2) by auto
  then have "1 \<le> a" "a \<le> 1023" using assms(1) by (auto simp: seed_ok_def)
  define hi lo where "hi = 16807 * a div 1024" and "lo = 16807 * a mod 1024"
  have b: "16807 * a = 1024 * hi + lo" by (simp add: hi_def lo_def)
  have hi: "1 \<le> hi" "hi < 16807" and lo: "lo < 1024" using \<open>1 \<le> a\<close> \<open>a \<le> 1023\<close> by (simp_all add: hi_def lo_def)
  have "unat rnd * 16807 = 2097152 * (16807 * a)" using a by simp
  also have "\<dots> = 2147483647 * hi + (hi + 2097152 * lo)" unfolding b by simp
  finally have "unat rnd * 16807 mod 2147483647 = (hi + 2097152 * lo) mod 2147483647" by (simp only: mod_mult_self4)
  then have "unat (Random_Next rnd) = hi + 2097152 * lo" using Random_Next_ok(2) [OF assms(1)] hi lo by simp
  then show ?thesis using hi by simp
qed

text \<open>A step of the sampling changes only the counter, the generator and the samples.\<close>

definition sampled :: "'i DBIter \<Rightarrow> 'i DBIter \<Rightarrow> bool" where
  "sampled d d' \<longleftrightarrow> seed_ok (di_rnd d') \<and>
     d' = d\<lparr>di_bytes_counter := di_bytes_counter d', di_rnd := di_rnd d', di_samples := di_samples d'\<rparr>"

lemma RandomPeriod_ok:
  assumes "seed_ok rnd" "RandomPeriod rnd = (p, rnd')"
  shows "seed_ok rnd'" "0 \<le> p" "p = 0 \<Longrightarrow> unat rnd' mod 2097152 = 0" "rnd' = Random_Next rnd" "unat rnd' mod 2097152 = 0 \<Longrightarrow> p = 0"
proof -
  have e: "rnd' = Random_Next rnd" "p = uint (Random_Next rnd mod 2097152)"
    using assms(2) by (auto simp: RandomPeriod_def Random_Uniform_def kReadBytesPeriod_def Let_def)
  then have "p = int (unat rnd' mod 2097152)" by (simp add: uint_nat unat_mod_distrib)
  then show "seed_ok rnd'" "0 \<le> p" "p = 0 \<Longrightarrow> unat rnd' mod 2097152 = 0" "rnd' = Random_Next rnd" "unat rnd' mod 2097152 = 0 \<Longrightarrow> p = 0"
    using e(1) Random_Next_ok(1) [OF assms(1)] by simp_all
qed

lemma sample_loop_ok:
  assumes "seed_ok (di_rnd d)"
  shows "\<exists>d'. sample_loop k d = Some d' \<and> sampled d d'"
  using assms
proof (induction "2 * nat (- di_bytes_counter d) + (if unat (Random_Next (di_rnd d)) mod 2097152 = 0 then 1 else 0)"
    arbitrary: d rule: less_induct)
  case less
  obtain p rnd where p: "RandomPeriod (di_rnd d) = (p, rnd)" by (cases "RandomPeriod (di_rnd d)")
  note r = RandomPeriod_ok [OF less.prems p]
  let ?d = "d\<lparr>di_bytes_counter := di_bytes_counter d + p, di_rnd := rnd, di_samples := di_samples d @ [k]\<rparr>"
  show ?case
  proof (cases "di_bytes_counter d < 0")
    case False
    then have "sample_loop k d = Some d" by (simp add: sample_loop.simps)
    then show ?thesis using less.prems by (simp add: sampled_def)
  next
    case True
    then have step: "sample_loop k d = sample_loop k ?d" by (subst sample_loop.simps) (simp add: p)
    have "2 * nat (- (di_bytes_counter d + p)) + (if unat (Random_Next rnd) mod 2097152 = 0 then 1 else 0) <
        2 * nat (- di_bytes_counter d) + (if unat (Random_Next (di_rnd d)) mod 2097152 = 0 then 1 else 0)"
    proof (cases "p = 0")
      case zero: True
      then have "unat (Random_Next rnd) mod 2097152 \<noteq> 0" using gap_positive [OF r(1) r(3)] by simp
      then show ?thesis using zero r(3,4) by simp
    next
      case False
      then have "nat (- (di_bytes_counter d + p)) < nat (- di_bytes_counter d)" using r(2) True by linarith
      then show ?thesis by auto
    qed
    then obtain d' where d': "sample_loop k ?d = Some d'" "sampled ?d d'" using less.hyps [of ?d] r(1) by auto
    then have "sampled d d'" unfolding sampled_def by (auto intro: DBIter.equality)
    then show ?thesis using d'(1) step by simp
  qed
qed

lemma NewDBIterator_seed: "seed_ok (di_rnd (NewDBIterator i s seed))"
  using RandomPeriod_ok(1) [OF Random_ok [of seed]] by (simp add: NewDBIterator_def split: prod.split)

section \<open>The view of a snapshot\<close>

definition wf_entry :: "entry \<Rightarrow> bool" where
  "wf_entry e \<longleftrightarrow> (\<exists>ik. sequence ik \<le> kMaxSequenceNumber \<and> fst e = AppendInternalKey [] ik)"

definition ikey :: "entry \<Rightarrow> ParsedInternalKey" where
  "ikey e = the (ParseInternalKey (fst e))"

abbreviation uk :: "entry \<Rightarrow> u8 list" where
  "uk e \<equiv> user_key (ikey e)"

definition visible :: "u64 \<Rightarrow> entry \<Rightarrow> bool" where
  "visible s e \<longleftrightarrow> sequence (ikey e) \<le> s"

definition is_value :: "entry \<Rightarrow> bool" where
  "is_value e \<longleftrightarrow> key_type (ikey e) = kTypeValue"

text \<open>The entries that a client sees: visible values with no visible entry of the key before them.\<close>

definition yields :: "Comparator \<Rightarrow> u64 \<Rightarrow> entry list \<Rightarrow> nat \<Rightarrow> bool" where
  "yields user s es i \<longleftrightarrow> visible s (es ! i) \<and> is_value (es ! i) \<and>
     (\<forall>j < i. visible s (es ! j) \<longrightarrow> Compare user (uk (es ! j)) (uk (es ! i)) \<noteq> 0)"

definition yield_list :: "Comparator \<Rightarrow> u64 \<Rightarrow> entry list \<Rightarrow> nat list" where
  "yield_list user s es = filter (yields user s es) [0..<length es]"

definition view :: "Comparator \<Rightarrow> u64 \<Rightarrow> entry list \<Rightarrow> entry list" where
  "view user s es = map (\<lambda>i. (uk (es ! i), snd (es ! i))) (yield_list user s es)"

lemma wf_entry_facts:
  assumes "wf_entry e"
  shows "ParseInternalKey (fst e) = Some (ikey e)" "ExtractUserKey (fst e) = uk e" "8 \<le> length (fst e)"
    "key_num (fst e) = PackSequenceAndType (sequence (ikey e)) (key_type (ikey e))" "sequence (ikey e) \<le> kMaxSequenceNumber"
proof -
  obtain ik where ik: "sequence ik \<le> kMaxSequenceNumber" "fst e = AppendInternalKey [] ik" using assms by (auto simp: wf_entry_def)
  obtain u q t where "ik = \<lparr>user_key = u, sequence = q, key_type = t\<rparr>" by (cases ik)
  then have p: "ParseInternalKey (fst e) = Some ik" using Parse_Append [of q u t] ik by simp
  then show "ParseInternalKey (fst e) = Some (ikey e)" by (simp add: ikey_def)
  have i: "ikey e = ik" using p by (simp add: ikey_def)
  show "ExtractUserKey (fst e) = uk e" "8 \<le> length (fst e)" "sequence (ikey e) \<le> kMaxSequenceNumber"
      "key_num (fst e) = PackSequenceAndType (sequence (ikey e)) (key_type (ikey e))"
    using ik unfolding i by (simp_all add: AppendInternalKey_def PutFixed64_def)
qed

text \<open>Cuts of ascending lists of numbers.\<close>

lemma cut_numbers:
  fixes ys :: "nat list"
  assumes "sorted_wrt (<) ys"
  shows "m < length ys \<Longrightarrow> cut (\<lambda>i. i < n) ys \<le> m \<longleftrightarrow> n \<le> ys ! m"
proof -
  assume m: "m < length ys"
  show "cut (\<lambda>i. i < n) ys \<le> m \<longleftrightarrow> n \<le> ys ! m"
  proof
    assume le: "cut (\<lambda>i. i < n) ys \<le> m"
    then have c: "cut (\<lambda>i. i < n) ys < length ys" using m by simp
    then have "n \<le> ys ! cut (\<lambda>i. i < n) ys" unfolding cut_def by (metis nth_length_takeWhile not_less)
    also have "\<dots> \<le> ys ! m"
      using assms le m by (cases "cut (\<lambda>i. i < n) ys = m") (auto simp: sorted_wrt_iff_nth_less less_imp_le)
    finally show "n \<le> ys ! m" .
  next
    assume "n \<le> ys ! m"
    then show "cut (\<lambda>i. i < n) ys \<le> m"
      using m unfolding cut_def by (metis not_le_imp_less nth_mem set_takeWhileD takeWhile_nth leD)
  qed
qed

lemma cut_numbers_found:
  fixes ys :: "nat list"
  assumes "sorted_wrt (<) ys" "y \<in> set ys" "n \<le> y" "\<And>x. x \<in> set ys \<Longrightarrow> n \<le> x \<Longrightarrow> y \<le> x"
  shows "cut (\<lambda>i. i < n) ys < length ys" "ys ! cut (\<lambda>i. i < n) ys = y"
proof -
  obtain m where m: "m < length ys" "ys ! m = y" using assms(2) by (auto simp: in_set_conv_nth)
  have le: "cut (\<lambda>i. i < n) ys \<le> m" using cut_numbers [OF assms(1) m(1)] assms(3) m(2) by simp
  then show c: "cut (\<lambda>i. i < n) ys < length ys" using m(1) by simp
  have "n \<le> ys ! cut (\<lambda>i. i < n) ys" using cut_numbers [OF assms(1) c, of n] by simp
  then have "y \<le> ys ! cut (\<lambda>i. i < n) ys" using assms(4) nth_mem [OF c] by blast
  moreover have "ys ! cut (\<lambda>i. i < n) ys \<le> y"
    using assms(1) le m by (cases "cut (\<lambda>i. i < n) ys = m") (auto simp: sorted_wrt_iff_nth_less less_imp_le)
  ultimately show "ys ! cut (\<lambda>i. i < n) ys = y" by simp
qed

lemma cut_numbers_none:
  fixes ys :: "nat list"
  assumes "\<And>x. x \<in> set ys \<Longrightarrow> x < n"
  shows "cut (\<lambda>i. i < n) ys = length ys"
proof -
  have "takeWhile (\<lambda>i. i < n) ys = ys" unfolding takeWhile_eq_all_conv using assms by blast
  then show ?thesis by (simp only: cut_def)
qed

lemma cut_numbers_nth:
  fixes ys :: "nat list"
  assumes "sorted_wrt (<) ys" "m < length ys"
  shows "cut (\<lambda>i. i < ys ! m) ys = m" "cut (\<lambda>i. i < Suc (ys ! m)) ys = Suc m"
proof -
  have less: "ys ! i < ys ! j \<longleftrightarrow> i < j" if "i < length ys" "j < length ys" for i j
    using assms(1) that by (metis linorder_neqE_nat not_less_iff_gr_or_eq sorted_wrt_nth_less)
  have p: "cut (\<lambda>i. i < n) ys \<le> i \<longleftrightarrow> n \<le> ys ! i" if "i < length ys" for n i by (rule cut_numbers [OF assms(1) that])
  show "cut (\<lambda>i. i < ys ! m) ys = m"
  proof (rule antisym)
    show "cut (\<lambda>i. i < ys ! m) ys \<le> m" using p [OF assms(2)] by simp
    show "m \<le> cut (\<lambda>i. i < ys ! m) ys"
    proof (rule ccontr)
      assume "\<not> ?thesis"
      then show False using p [of "cut (\<lambda>i. i < ys ! m) ys" "ys ! m"] less [of "cut (\<lambda>i. i < ys ! m) ys" m] assms(2) by simp
    qed
  qed
  let ?c = "cut (\<lambda>i. i < Suc (ys ! m)) ys"
  have gt: "m < ?c" using p [OF assms(2), of "Suc (ys ! m)"] by simp
  show "?c = Suc m"
  proof (cases "Suc m < length ys")
    case True
    then show ?thesis using p [OF True, of "Suc (ys ! m)"] less [of m "Suc m"] gt by simp
  next
    case False
    then show ?thesis using gt cut_le [of "\<lambda>i. i < Suc (ys ! m)" ys] assms(2) by simp
  qed
qed

lemma cut_numbers_last:
  fixes ys :: "nat list"
  assumes "sorted_wrt (<) ys" "l \<in> set ys" "l < c" "\<And>y. y \<in> set ys \<Longrightarrow> y < c \<Longrightarrow> y \<le> l"
  shows "0 < cut (\<lambda>i. i < c) ys" "ys ! (cut (\<lambda>i. i < c) ys - 1) = l"
proof -
  obtain m where m: "m < length ys" "ys ! m = l" using assms(2) by (auto simp: in_set_conv_nth)
  have "(i < c) = (i < Suc l)" if "i \<in> set ys" for i using assms(3,4) that by (auto simp: less_Suc_eq_le)
  then have "cut (\<lambda>i. i < c) ys = Suc m" using cut_numbers_nth(2) [OF assms(1) m(1)] m(2) by (metis (mono_tags, lifting) cut_cong)
  then show "0 < cut (\<lambda>i. i < c) ys" "ys ! (cut (\<lambda>i. i < c) ys - 1) = l" using m(2) by simp_all
qed

lemma cut_numbers_zero:
  fixes ys :: "nat list"
  assumes "\<not> (\<exists>y \<in> set ys. y < c)"
  shows "cut (\<lambda>i. i < c) ys = 0"
  using assms by (cases ys) (simp_all add: cut_def)

lemma sorted_yield_list: "sorted_wrt (<) (yield_list user s es)"
  unfolding yield_list_def by (rule sorted_wrt_filter) simp

lemma set_yield_list: "i \<in> set (yield_list user s es) \<longleftrightarrow> i < length es \<and> yields user s es i"
  by (auto simp: yield_list_def)

lemma length_view [simp]: "length (view user s es) = length (yield_list user s es)"
  by (simp add: view_def)

lemma view_nth: "m < length (yield_list user s es) \<Longrightarrow>
    view user s es ! m = (uk (es ! (yield_list user s es ! m)), snd (es ! (yield_list user s es ! m)))"
  by (simp add: view_def)

end
