(* ===== verification/Merging.thy ===== *)
theory Merging
  imports Cursor
begin

text \<open>
  The merging iterator is a cursor on the merged entries of its children. While it moves forward every
  child stands at its first entry that is not below the current key, while it moves backward at its
  last entry that is not above it.
\<close>

lemma those_map_ok:
  assumes "\<And>x. x \<in> set xs \<Longrightarrow> \<exists>y. g x = Some y \<and> R x y"
  shows "\<exists>ys. those (map g xs) = Some ys \<and> length ys = length xs \<and> (\<forall>i < length xs. R (xs ! i) (ys ! i))"
  using assms
proof (induction xs)
  case (Cons x xs)
  obtain y where y: "g x = Some y" "R x y" using Cons.prems by auto
  obtain ys where ys: "those (map g xs) = Some ys" "length ys = length xs" "\<forall>i < length xs. R (xs ! i) (ys ! i)"
    using Cons by auto
  then have "those (map g (x # xs)) = Some (y # ys)" using y by simp
  moreover have "\<forall>i < length (x # xs). R ((x # xs) ! i) ((y # ys) ! i)" using y(2) ys(3) by (auto simp: nth_Cons split: nat.split)
  ultimately show ?case using ys(2) by (metis length_Cons)
qed simp

lemma find_best_ok:
  assumes trans: "\<forall>a b d. \<not> better (Compare C a b) \<longrightarrow> \<not> better (Compare C b d) \<longrightarrow> \<not> better (Compare C a d)"
    and asym: "\<forall>a b. better (Compare C a b) \<longrightarrow> \<not> better (Compare C b a)"
    and "\<forall>i \<in> set is \<union> set_option best. wr_valid (ws ! i) \<longrightarrow> wr_get_key (ws ! i) = Some (K i)"
    and "\<forall>b \<in> set_option best. wr_valid (ws ! b)"
  shows "\<exists>r. find_best C better ws is best = Some r \<and> (r = None \<longrightarrow> best = None \<and> (\<forall>i \<in> set is. \<not> wr_valid (ws ! i))) \<and>
    (\<forall>b \<in> set_option r. b \<in> set is \<union> set_option best \<and> wr_valid (ws ! b) \<and>
      (\<forall>i \<in> set is \<union> set_option best. wr_valid (ws ! i) \<longrightarrow> \<not> better (Compare C (K i) (K b))))"
  using assms(3,4)
proof (induction "is" arbitrary: best)
  case Nil
  have "\<not> better (Compare C k k)" for k using asym by blast
  then show ?case using Nil by (cases best) auto
next
  case (Cons i "is")
  have irrefl: "\<not> better (Compare C k k)" for k using asym by blast
  show ?case
  proof (cases "wr_valid (ws ! i)")
    case False
    then show ?thesis using Cons.IH [of best] Cons.prems by (auto simp: Let_def)
  next
    case True
    show ?thesis
    proof (cases best)
      case None
      then show ?thesis using Cons.IH [of "Some i"] Cons.prems True by (auto simp: Let_def)
    next
      case (Some b)
      define n where "n = (if better (Compare C (K i) (K b)) then i else b)"
      have step: "find_best C better ws (i # is) best = find_best C better ws is (Some n)"
        using Cons.prems True by (simp add: Let_def Some n_def)
      have n: "n = i \<or> n = b" "\<not> better (Compare C (K i) (K n))" "\<not> better (Compare C (K b) (K n))"
        using irrefl asym by (auto simp: n_def)
      obtain r where r: "find_best C better ws is (Some n) = Some r" "r \<noteq> None"
          "\<forall>b \<in> set_option r. b \<in> set is \<union> {n} \<and> wr_valid (ws ! b) \<and>
            (\<forall>i \<in> set is \<union> {n}. wr_valid (ws ! i) \<longrightarrow> \<not> better (Compare C (K i) (K b)))"
        using Cons.IH [of "Some n"] Cons.prems True n(1) by (auto simp: Some)
      have "\<not> better (Compare C (K x) (K y))" if "r = Some y" "x \<in> set (i # is) \<union> set_option best" "wr_valid (ws ! x)" for x y
      proof -
        have "wr_valid (ws ! n)" using n(1) True Cons.prems(2) Some by auto
        then have "\<not> better (Compare C (K n) (K y))" using r(3) that(1) by simp
        then show ?thesis using r(3) that n(2,3) trans by (auto simp: Some)
      qed
      then show ?thesis using r n(1) unfolding step by (auto simp: Some)
    qed
  qed
qed

locale merging = cursor "Compare C" f ok at
  for C :: Comparator and f :: "'i Iterator" and ok :: "u8 list \<Rightarrow> bool" and at :: "'i \<Rightarrow> entry list \<Rightarrow> nat \<Rightarrow> bool"
begin

abbreviation less :: "u8 list \<Rightarrow> entry \<Rightarrow> bool" where
  "less k \<equiv> \<lambda>e. Compare C (fst e) k < 0"

abbreviation upto :: "u8 list \<Rightarrow> entry \<Rightarrow> bool" where
  "upto k \<equiv> \<lambda>e. Compare C (fst e) k \<le> 0"

definition merges :: "entry list list \<Rightarrow> entry list \<Rightarrow> bool" where
  "merges ess es \<longleftrightarrow> sorted_entries es \<and> set es = (\<Union>l \<in> set ess. set l) \<and>
     (\<forall>c < length ess. \<forall>d < length ess. c \<noteq> d \<longrightarrow> (\<forall>x \<in> set (ess ! c). \<forall>y \<in> set (ess ! d). Compare C (fst x) (fst y) \<noteq> 0))"

definition tracks :: "'i IteratorWrapper list \<Rightarrow> entry list list \<Rightarrow> (entry list \<Rightarrow> nat) \<Rightarrow> bool" where
  "tracks ws ess p \<longleftrightarrow> length ess = length ws \<and> (\<forall>d < length ws. wrapped (ws ! d) (ess ! d) (p (ess ! d)))"

definition placed :: "'i IteratorWrapper list \<Rightarrow> entry list list \<Rightarrow> bool" where
  "placed ws ess \<longleftrightarrow> length ess = length ws \<and> (\<forall>d < length ws. \<exists>q. wrapped (ws ! d) (ess ! d) q)"

text \<open>The position of a child that moves backward.\<close>

definition before_cut :: "(entry \<Rightarrow> bool) \<Rightarrow> entry list \<Rightarrow> nat" where
  "before_cut D l = step_back (length l) (cut D l)"

definition merge_at :: "'i MergingIterator \<Rightarrow> entry list \<Rightarrow> nat \<Rightarrow> bool" where
  "merge_at m es n \<longleftrightarrow> (\<exists>ess. merges ess es \<and>
     (case mi_current m of
        None \<Rightarrow> n = length es \<and> placed (mi_children m) ess
      | Some c \<Rightarrow> n < length es \<and> c < length ess \<and> es ! n \<in> set (ess ! c) \<and>
          tracks (mi_children m) ess
            (if mi_direction m = kForward then cut (less (fst (es ! n))) else before_cut (upto (fst (es ! n))))))"

lemma tracks_sorted: "tracks ws ess p \<Longrightarrow> d < length ess \<Longrightarrow> sorted_entries (ess ! d)"
  using wrapped_get(5) by (auto simp: tracks_def)

lemma tracks_placed: "tracks ws ess p \<Longrightarrow> placed ws ess"
  by (auto simp: tracks_def placed_def)

lemma tracks_cong: "tracks ws ess p \<Longrightarrow> (\<And>d. d < length ess \<Longrightarrow> p' (ess ! d) = p (ess ! d)) \<Longrightarrow> tracks ws ess p'"
  by (simp add: tracks_def)

lemma merges_index:
  assumes "merges ess es" "d < length ess" "e \<in> set (ess ! d)"
  obtains j where "j < length es" "es ! j = e"
proof -
  have "e \<in> set es" using assms nth_mem [OF assms(2)] unfolding merges_def by blast
  then show ?thesis using that by (auto simp: in_set_conv_nth)
qed

lemma merges_owner:
  assumes "merges ess es" "j < length es"
  obtains d q where "d < length ess" "q < length (ess ! d)" "ess ! d ! q = es ! j"
proof -
  have "es ! j \<in> (\<Union>l \<in> set ess. set l)" using assms nth_mem [OF assms(2)] unfolding merges_def by blast
  then obtain l where l: "l \<in> set ess" "es ! j \<in> set l" by blast
  obtain d where "d < length ess" "ess ! d = l" using l(1) unfolding in_set_conv_nth by blast
  moreover obtain q where "q < length l" "l ! q = es ! j" using l(2) unfolding in_set_conv_nth by blast
  ultimately show ?thesis using that [of d q] by simp
qed

text \<open>The entries below a cut, in terms of the entry there.\<close>

lemma below_cut:
  assumes "merges ess es" "downward D" "cut D es < length es" "d < length ess" "e \<in> set (ess ! d)"
  shows "D e \<longleftrightarrow> less (fst (es ! cut D es)) e"
proof -
  have s: "sorted_entries es" using assms(1) by (simp add: merges_def)
  obtain j where j: "j < length es" "es ! j = e" by (rule merges_index [OF assms(1,4,5)])
  then show ?thesis using cut_iff [OF s assms(2) j(1)] sorted_index [OF s j(1) assms(3)] by simp
qed

lemma upto_cut:
  assumes "merges ess es" "downward D" "0 < cut D es" "d < length ess" "e \<in> set (ess ! d)"
  shows "D e \<longleftrightarrow> upto (fst (es ! (cut D es - 1))) e"
proof -
  have s: "sorted_entries es" using assms(1) by (simp add: merges_def)
  obtain j where j: "j < length es" "es ! j = e" by (rule merges_index [OF assms(1,4,5)])
  have n: "cut D es - 1 < length es" using assms(3) cut_le [of D es] by linarith
  have "upto (fst (es ! (cut D es - 1))) e \<longleftrightarrow> \<not> cut D es - 1 < j"
    using sorted_index [OF s n j(1)] j(2) not_le by blast
  then show ?thesis using cut_iff [OF s assms(2) j(1)] j(2) assms(3) by auto
qed

text \<open>No other child has an entry with the current key.\<close>

lemma other_cut:
  assumes "merges ess es" "c < length ess" "x \<in> set (ess ! c)" "d < length ess" "d \<noteq> c"
  shows "cut (upto (fst x)) (ess ! d) = cut (less (fst x)) (ess ! d)"
proof (rule cut_cong)
  fix e assume "e \<in> set (ess ! d)"
  then have "Compare C (fst e) (fst x) \<noteq> 0" using assms by (auto simp: merges_def)
  then show "upto (fst x) e = less (fst x) e" by auto
qed

lemma own_cut:
  assumes "sorted_entries l" "x \<in> set l"
  shows "cut (less (fst x)) l < length l" "l ! cut (less (fst x)) l = x" "cut (upto (fst x)) l = Suc (cut (less (fst x)) l)"
proof -
  obtain q where q: "q < length l" "l ! q = x" using assms(2) by (auto simp: in_set_conv_nth)
  then show "cut (less (fst x)) l < length l" "l ! cut (less (fst x)) l = x" "cut (upto (fst x)) l = Suc (cut (less (fst x)) l)"
    using cut_at [OF assms(1) q(1)] by auto
qed

lemma least: "\<forall>a b d. \<not> Compare C a b < 0 \<longrightarrow> \<not> Compare C b d < 0 \<longrightarrow> \<not> Compare C a d < 0"
    "\<forall>a b. Compare C a b < 0 \<longrightarrow> \<not> Compare C b a < 0"
  unfolding not_less using le_trans less_imp_le by blast+

lemma largest: "\<forall>a b d. \<not> 0 < Compare C a b \<longrightarrow> \<not> 0 < Compare C b d \<longrightarrow> \<not> 0 < Compare C a d"
    "\<forall>a b. 0 < Compare C a b \<longrightarrow> \<not> 0 < Compare C b a"
  unfolding flip [symmetric] not_less using le_trans less_imp_le by blast+

text \<open>The children stand behind the entries of \<open>D\<close>: the smallest is the next entry.\<close>

lemma FindSmallest_ok:
  assumes "tracks (mi_children m) ess (cut D)" "merges ess es" "downward D"
  shows "\<exists>m'. FindSmallest C m = Some m' \<and> merge_at (m'\<lparr>mi_direction := kForward\<rparr>) es (cut D es)"
proof -
  let ?ws = "mi_children m"
  have len: "length ess = length ?ws" and w: "\<And>d. d < length ?ws \<Longrightarrow> wrapped (?ws ! d) (ess ! d) (cut D (ess ! d))"
    using assms(1) by (auto simp: tracks_def)
  define K where "K = (\<lambda>d. fst (ess ! d ! cut D (ess ! d)))"
  have v: "wr_valid (?ws ! d) \<longleftrightarrow> cut D (ess ! d) < length (ess ! d)" if "d < length ?ws" for d
    using wrapped_get(1) [OF w [OF that]] .
  have keys: "\<forall>i \<in> set [0..<length ?ws] \<union> set_option None. wr_valid (?ws ! i) \<longrightarrow> wr_get_key (?ws ! i) = Some (K i)"
    using wrapped_get(1,2) [OF w] by (auto simp: K_def)
  obtain r where r: "find_best C (\<lambda>c. c < 0) ?ws [0..<length ?ws] None = Some r"
      "r = None \<longrightarrow> (\<forall>i < length ?ws. \<not> wr_valid (?ws ! i))"
      "\<forall>b \<in> set_option r. b < length ?ws \<and> wr_valid (?ws ! b) \<and> (\<forall>i < length ?ws. wr_valid (?ws ! i) \<longrightarrow> \<not> Compare C (K i) (K b) < 0)"
    using find_best_ok [where better = "\<lambda>c. c < 0", OF least keys] by auto
  have m': "FindSmallest C m = Some (m\<lparr>mi_current := r\<rparr>)" using r(1) by (simp add: FindSmallest_def)
  have s: "sorted_entries es" using assms(2) by (simp add: merges_def)
  show ?thesis
  proof (cases r)
    case None
    have "\<not> cut D es < length es"
    proof
      assume n: "cut D es < length es"
      obtain d q where d: "d < length ess" "q < length (ess ! d)" "ess ! d ! q = es ! cut D es" by (rule merges_owner [OF assms(2) n])
      have "\<not> D (es ! cut D es)" using cut_iff [OF s assms(3) n] by simp
      then have "\<not> q < cut D (ess ! d)" using cut_iff [OF tracks_sorted [OF assms(1) d(1)] assms(3) d(2)] d(3) by simp
      then show False using v [of d] r(2) None d(1,2) len by auto
    qed
    then have "cut D es = length es" using cut_le [of D es] by simp
    then show ?thesis using m' assms(2) tracks_placed [OF assms(1)] None by (auto simp: merge_at_def)
  next
    case (Some c)
    have c: "c < length ess" "cut D (ess ! c) < length (ess ! c)" using r(3) v len by (auto simp: Some)
    let ?y = "ess ! c ! cut D (ess ! c)"
    have y: "?y \<in> set (ess ! c)" "\<not> D ?y"
      using c cut_iff [OF tracks_sorted [OF assms(1) c(1)] assms(3) c(2)] by auto
    obtain j where j: "j < length es" "es ! j = ?y" by (rule merges_index [OF assms(2) c(1) y(1)])
    have "\<not> j < cut D es" using cut_iff [OF s assms(3) j(1)] j(2) y(2) by simp
    then have n: "cut D es < length es" "cut D es \<le> j" using j(1) by simp_all
    have "\<not> cut D es < j"
    proof
      assume "cut D es < j"
      obtain d q where d: "d < length ess" "q < length (ess ! d)" "ess ! d ! q = es ! cut D es" by (rule merges_owner [OF assms(2) n(1)])
      note sd = tracks_sorted [OF assms(1) d(1)]
      have "\<not> D (es ! cut D es)" using cut_iff [OF s assms(3) n(1)] by simp
      then have q: "cut D (ess ! d) \<le> q" using cut_iff [OF sd assms(3) d(2)] d(3) by simp
      then have qd: "cut D (ess ! d) < length (ess ! d)" using d(2) by simp
      have "\<not> Compare C (K d) (fst ?y) < 0" using r(3) v [of d] qd d(1) len by (simp add: Some K_def)
      moreover have "\<not> Compare C (fst (es ! cut D es)) (K d) < 0"
        using sorted_index [OF sd d(2) qd] q d(3) by (simp add: K_def)
      ultimately have "\<not> Compare C (fst (es ! cut D es)) (fst ?y) < 0" using le_trans unfolding not_less by blast
      then show False using sorted_index [OF s n(1) j(1)] j(2) \<open>cut D es < j\<close> by simp
    qed
    then have e: "es ! cut D es = ?y" using n(2) j(2) by simp
    have "cut (less (fst (es ! cut D es))) (ess ! d) = cut D (ess ! d)" if "d < length ess" for d
      by (rule cut_cong) (use below_cut [OF assms(2,3) n(1) that] in simp)
    then have "tracks ?ws ess (cut (less (fst (es ! cut D es))))" by (rule tracks_cong [OF assms(1)])
    then show ?thesis using m' assms(2) c(1) n(1) y(1) e by (auto simp: merge_at_def Some)
  qed
qed

lemma before_cut_nth:
  assumes "before_cut D l < length l"
  shows "0 < cut D l" "before_cut D l = cut D l - 1"
  using assms by (auto simp: before_cut_def step_back_def split: if_splits)

lemma before_cut_valid: "before_cut D l < length l \<longleftrightarrow> 0 < cut D l"
  using cut_le [of D l] by (auto simp: before_cut_def step_back_def)

text \<open>The children stand before the entries above \<open>D\<close>: the largest is the last entry in \<open>D\<close>.\<close>

lemma FindLargest_ok:
  assumes "tracks (mi_children m) ess (before_cut D)" "merges ess es" "downward D"
  shows "\<exists>m'. FindLargest C m = Some m' \<and> merge_at (m'\<lparr>mi_direction := kReverse\<rparr>) es (before_cut D es)"
proof -
  let ?ws = "mi_children m"
  have len: "length ess = length ?ws" and w: "\<And>d. d < length ?ws \<Longrightarrow> wrapped (?ws ! d) (ess ! d) (before_cut D (ess ! d))"
    using assms(1) by (auto simp: tracks_def)
  define K where "K = (\<lambda>d. fst (ess ! d ! before_cut D (ess ! d)))"
  have v: "wr_valid (?ws ! d) \<longleftrightarrow> 0 < cut D (ess ! d)" if "d < length ?ws" for d
    using wrapped_get(1) [OF w [OF that]] by (simp add: before_cut_valid)
  have keys: "\<forall>i \<in> set (rev [0..<length ?ws]) \<union> set_option None. wr_valid (?ws ! i) \<longrightarrow> wr_get_key (?ws ! i) = Some (K i)"
    using wrapped_get(1,2) [OF w] by (auto simp: K_def)
  obtain r where r: "find_best C (\<lambda>c. c > 0) ?ws (rev [0..<length ?ws]) None = Some r"
      "r = None \<longrightarrow> (\<forall>i < length ?ws. \<not> wr_valid (?ws ! i))"
      "\<forall>b \<in> set_option r. b < length ?ws \<and> wr_valid (?ws ! b) \<and> (\<forall>i < length ?ws. wr_valid (?ws ! i) \<longrightarrow> \<not> Compare C (K i) (K b) > 0)"
    using find_best_ok [where better = "\<lambda>c. c > 0", OF largest keys] by auto
  have m': "FindLargest C m = Some (m\<lparr>mi_current := r\<rparr>)" using r(1) by (simp add: FindLargest_def)
  have s: "sorted_entries es" using assms(2) by (simp add: merges_def)
  show ?thesis
  proof (cases r)
    case None
    have "\<not> 0 < cut D es"
    proof
      assume n: "0 < cut D es"
      then have l: "0 < length es" using cut_le [of D es] by linarith
      obtain d q where d: "d < length ess" "q < length (ess ! d)" "ess ! d ! q = es ! 0" by (rule merges_owner [OF assms(2) l])
      have "D (es ! 0)" using cut_iff [OF s assms(3) l] n by simp
      then have "q < cut D (ess ! d)" using cut_iff [OF tracks_sorted [OF assms(1) d(1)] assms(3) d(2)] d(3) by simp
      then show False using v [of d] r(2) None d(1) len by auto
    qed
    then have "before_cut D es = length es" by (simp add: before_cut_def step_back_def)
    then show ?thesis using m' assms(2) tracks_placed [OF assms(1)] None by (auto simp: merge_at_def)
  next
    case (Some c)
    have c: "c < length ess" "0 < cut D (ess ! c)" using r(3) v len by (auto simp: Some)
    let ?q = "cut D (ess ! c) - 1"
    have q: "?q < length (ess ! c)" "before_cut D (ess ! c) = ?q"
      using c(2) cut_le [of D "ess ! c"] by (simp_all add: before_cut_def step_back_def)
    let ?y = "ess ! c ! ?q"
    have y: "?y \<in> set (ess ! c)" "D ?y"
      using q(1) c(2) cut_iff [OF tracks_sorted [OF assms(1) c(1)] assms(3) q(1)] by auto
    obtain j where j: "j < length es" "es ! j = ?y" by (rule merges_index [OF assms(2) c(1) y(1)])
    have "j < cut D es" using cut_iff [OF s assms(3) j(1)] j(2) y(2) by simp
    then have n: "0 < cut D es" "j \<le> cut D es - 1" "cut D es - 1 < length es" using cut_le [of D es] by linarith+
    have "\<not> j < cut D es - 1"
    proof
      assume jn: "j < cut D es - 1"
      obtain d p where d: "d < length ess" "p < length (ess ! d)" "ess ! d ! p = es ! (cut D es - 1)" by (rule merges_owner [OF assms(2) n(3)])
      note sd = tracks_sorted [OF assms(1) d(1)]
      have "D (es ! (cut D es - 1))" using cut_iff [OF s assms(3) n(3)] n(1) by simp
      then have p: "p < cut D (ess ! d)" using cut_iff [OF sd assms(3) d(2)] d(3) by simp
      then have pd: "cut D (ess ! d) - 1 < length (ess ! d)" "before_cut D (ess ! d) = cut D (ess ! d) - 1"
        using cut_le [of D "ess ! d"] by (simp_all add: before_cut_def step_back_def)
      have "\<not> Compare C (K d) (fst ?y) > 0" using r(3) v [of d] p d(1) len q(2) by (simp add: Some K_def)
      moreover have "\<not> Compare C (K d) (fst (es ! (cut D es - 1))) < 0"
        using sorted_index [OF sd pd(1) d(2)] p pd(2) d(3) by (simp add: K_def)
      ultimately have "\<not> Compare C (fst ?y) (fst (es ! (cut D es - 1))) < 0"
        unfolding not_less flip [symmetric] using le_trans by blast
      then show False using sorted_index [OF s j(1) n(3)] j(2) jn by simp
    qed
    then have e: "es ! (cut D es - 1) = ?y" using n(2) j(2) by simp
    have b: "before_cut D es = cut D es - 1" using n(1) by (simp add: before_cut_def step_back_def)
    have "before_cut (upto (fst (es ! (cut D es - 1)))) (ess ! d) = before_cut D (ess ! d)" if "d < length ess" for d
    proof -
      have "cut (upto (fst (es ! (cut D es - 1)))) (ess ! d) = cut D (ess ! d)"
        by (rule cut_cong) (use upto_cut [OF assms(2,3) n(1) that] in simp)
      then show ?thesis by (simp add: before_cut_def)
    qed
    then have "tracks ?ws ess (before_cut (upto (fst (es ! (cut D es - 1)))))" by (rule tracks_cong [OF assms(1)])
    then show ?thesis using m' assms(2) c(1) n(3) y(1) e b by (auto simp: merge_at_def Some)
  qed
qed

end

section \<open>The operations\<close>

context merging
begin

lemma on_children_ok:
  assumes "placed (mi_children m) ess"
    and "\<And>w l q. l \<in> set ess \<Longrightarrow> wrapped w l q \<Longrightarrow> \<exists>w'. g w = Some w' \<and> wrapped w' l (p l)"
  shows "\<exists>m'. on_children g m = Some m' \<and> tracks (mi_children m') ess p \<and> mi_current m' = mi_current m \<and> mi_direction m' = mi_direction m"
proof -
  let ?ws = "mi_children m" and ?R = "\<lambda>i w'. wrapped w' (ess ! i) (p (ess ! i))"
  have len: "length ess = length ?ws" using assms(1) by (simp add: placed_def)
  have "\<exists>w'. g (?ws ! i) = Some w' \<and> ?R i w'" if "i \<in> set [0..<length ?ws]" for i
    using assms(1) assms(2) [of "ess ! i"] that len by (auto simp: placed_def)
  then obtain ws where ws: "those (map (\<lambda>i. g (?ws ! i)) [0..<length ?ws]) = Some ws" "length ws = length ?ws"
      "\<forall>i < length ?ws. ?R i (ws ! i)"
    using those_map_ok [of "[0..<length ?ws]" "\<lambda>i. g (?ws ! i)" ?R] by auto
  have "map (\<lambda>i. g (?ws ! i)) [0..<length ?ws] = map g ?ws" by (rule nth_equalityI) simp_all
  then show ?thesis using ws len by (auto simp: on_children_def tracks_def)
qed

lemma on_others_ok:
  assumes "tracks (mi_children m) ess p" "mi_current m = Some c" "p' (ess ! c) = p (ess ! c)"
    and "\<And>d w. d < length ess \<Longrightarrow> d \<noteq> c \<Longrightarrow> wrapped w (ess ! d) (p (ess ! d)) \<Longrightarrow> \<exists>w'. g w = Some w' \<and> wrapped w' (ess ! d) (p' (ess ! d))"
  shows "\<exists>m'. on_others g m = Some m' \<and> tracks (mi_children m') ess p' \<and> mi_current m' = Some c \<and> mi_direction m' = mi_direction m"
proof -
  let ?ws = "mi_children m" and ?R = "\<lambda>i w'. wrapped w' (ess ! i) (p' (ess ! i))"
  let ?g = "\<lambda>i. if mi_current m = Some i then Some (?ws ! i) else g (?ws ! i)"
  have len: "length ess = length ?ws" using assms(1) by (simp add: tracks_def)
  have "\<exists>w'. ?g i = Some w' \<and> ?R i w'" if "i \<in> set [0..<length ?ws]" for i
    using assms(1,2,3) assms(4) [of i] that len by (auto simp: tracks_def)
  then obtain ws where ws: "those (map ?g [0..<length ?ws]) = Some ws" "length ws = length ?ws" "\<forall>i < length ?ws. ?R i (ws ! i)"
    using those_map_ok [of "[0..<length ?ws]" ?g ?R] by auto
  then show ?thesis using len assms(2) by (auto simp: on_others_def tracks_def)
qed

lemma on_current_ok:
  assumes "tracks (mi_children m) ess p" "mi_current m = Some c" "c < length ess"
    and "\<And>d. d < length ess \<Longrightarrow> d \<noteq> c \<Longrightarrow> p' (ess ! d) = p (ess ! d)"
    and "\<And>w. wrapped w (ess ! c) (p (ess ! c)) \<Longrightarrow> \<exists>w'. g w = Some w' \<and> wrapped w' (ess ! c) (p' (ess ! c))"
  shows "\<exists>m'. on_current g m = Some m' \<and> tracks (mi_children m') ess p' \<and> mi_direction m' = mi_direction m"
proof -
  let ?ws = "mi_children m"
  have len: "length ess = length ?ws" using assms(1) by (simp add: tracks_def)
  have "wrapped (?ws ! c) (ess ! c) (p (ess ! c))" using assms(1,3) len by (simp add: tracks_def)
  then obtain w' where w': "g (?ws ! c) = Some w'" "wrapped w' (ess ! c) (p' (ess ! c))" using assms(5) by blast
  have "wrapped (?ws[c := w'] ! d) (ess ! d) (p' (ess ! d))" if "d < length ?ws" for d
    using assms(1,4) w'(2) len that by (cases "d = c") (auto simp: tracks_def)
  then have "tracks (?ws[c := w']) ess p'" using len by (simp add: tracks_def)
  then show ?thesis using w'(1) assms(2) by (simp add: on_current_def)
qed

lemma placed_of: "merge_at m es n \<Longrightarrow> \<exists>ess. merges ess es \<and> placed (mi_children m) ess"
  by (auto simp: merge_at_def split: option.splits intro: tracks_placed)

lemma FindSmallest_dir: "FindSmallest C m = Some m' \<Longrightarrow> mi_direction m = kForward \<Longrightarrow> m'\<lparr>mi_direction := kForward\<rparr> = m'"
  by (cases m) (auto simp: FindSmallest_def)

lemma FindLargest_dir: "FindLargest C m = Some m' \<Longrightarrow> mi_direction m = kReverse \<Longrightarrow> m'\<lparr>mi_direction := kReverse\<rparr> = m'"
  by (cases m) (auto simp: FindLargest_def)

lemma mi_SeekToFirst_ok:
  assumes "merge_at m es n"
  shows "\<exists>m'. mi_SeekToFirst f C m = Some m' \<and> merge_at m' es 0"
proof -
  obtain ess where e: "merges ess es" "placed (mi_children m) ess" using placed_of [OF assms] by blast
  obtain m1 where m1: "on_children (wr_SeekToFirst f) m = Some m1" "tracks (mi_children m1) ess (cut (\<lambda>_. False))"
    using on_children_ok [OF e(2), of "wr_SeekToFirst f" "cut (\<lambda>_. False)"] wrapped_ops(4) by auto
  show ?thesis using m1(1) FindSmallest_ok [OF m1(2) e(1)] by (auto simp: mi_SeekToFirst_def)
qed

lemma mi_SeekToLast_ok:
  assumes "merge_at m es n"
  shows "\<exists>m'. mi_SeekToLast f C m = Some m' \<and> merge_at m' es (step_back (length es) (length es))"
proof -
  obtain ess where e: "merges ess es" "placed (mi_children m) ess" using placed_of [OF assms] by blast
  have b: "before_cut (\<lambda>_. True) l = step_back (length l) (length l)" for l by (simp add: before_cut_def)
  obtain m1 where m1: "on_children (wr_SeekToLast f) m = Some m1" "tracks (mi_children m1) ess (before_cut (\<lambda>_. True))"
    using on_children_ok [OF e(2), of "wr_SeekToLast f" "before_cut (\<lambda>_. True)"] wrapped_ops(5) unfolding b by blast
  show ?thesis using m1(1) FindLargest_ok [OF m1(2) e(1)] unfolding b by (auto simp: mi_SeekToLast_def)
qed

lemma mi_Seek_ok:
  assumes "merge_at m es n" "ok k"
  shows "\<exists>m'. mi_Seek f C k m = Some m' \<and> merge_at m' es (cut (less k) es)"
proof -
  obtain ess where e: "merges ess es" "placed (mi_children m) ess" using placed_of [OF assms(1)] by blast
  obtain m1 where m1: "on_children (wr_Seek f k) m = Some m1" "tracks (mi_children m1) ess (cut (less k))"
    using on_children_ok [OF e(2), of "wr_Seek f k" "cut (less k)"] wrapped_ops(3) [OF _ assms(2)] by auto
  show ?thesis using m1(1) FindSmallest_ok [OF m1(2) e(1)] by (auto simp: mi_Seek_def)
qed

text \<open>The entry a valid iterator stands on.\<close>

lemma merge_at_current:
  assumes "merge_at m es n" "n < length es"
  obtains ess c where "merges ess es" "mi_current m = Some c" "c < length ess" "es ! n \<in> set (ess ! c)"
    "tracks (mi_children m) ess (if mi_direction m = kForward then cut (less (fst (es ! n))) else before_cut (upto (fst (es ! n))))"
  using assms by (auto simp: merge_at_def split: option.splits)

lemma own_position:
  assumes "tracks ws ess p" "c < length ess" "x \<in> set (ess ! c)"
  shows "before_cut (upto (fst x)) (ess ! c) = cut (less (fst x)) (ess ! c)"
  using own_cut [OF tracks_sorted [OF assms(1,2)] assms(3)] by (simp add: before_cut_def step_back_def)

lemma mi_get:
  assumes "merge_at m es n" "n < length es"
  shows "mi_key m = Some (fst (es ! n))" "mi_value f m = Some (snd (es ! n))" "ok (fst (es ! n))"
proof -
  let ?x = "es ! n"
  obtain ess c where e: "merges ess es" "mi_current m = Some c" "c < length ess" "?x \<in> set (ess ! c)"
      "tracks (mi_children m) ess (if mi_direction m = kForward then cut (less (fst ?x)) else before_cut (upto (fst ?x)))"
    by (rule merge_at_current [OF assms])
  let ?q = "cut (less (fst ?x)) (ess ! c)"
  have "wrapped (mi_children m ! c) (ess ! c) ?q"
    using e(3,5) own_position [OF e(5,3,4)] by (auto simp: tracks_def split: if_splits)
  note w = wrapped_get [OF this]
  have "?q < length (ess ! c)" "ess ! c ! ?q = ?x" using own_cut [OF tracks_sorted [OF e(5,3)] e(4)] by auto
  then show "mi_key m = Some (fst ?x)" "mi_value f m = Some (snd ?x)" "ok (fst ?x)"
    using w(2,3) w(6) [OF e(4)] e(2) by (simp_all add: mi_key_def mi_value_def)
qed

text \<open>Turning round.\<close>

lemma after_key_ok:
  assumes "merges ess es" "c < length ess" "x \<in> set (ess ! c)" "ok (fst x)" "d < length ess" "d \<noteq> c" "wrapped w (ess ! d) q"
  shows "\<exists>w'. after_key f C (fst x) w = Some w' \<and> wrapped w' (ess ! d) (cut (less (fst x)) (ess ! d))"
proof -
  let ?l = "ess ! d" let ?p = "cut (less (fst x)) ?l"
  obtain w1 where w1: "wr_Seek f (fst x) w = Some w1" "wrapped w1 ?l ?p" using wrapped_ops(3) [OF assms(7,4)] by blast
  have "Compare C (fst x) (fst (?l ! ?p)) \<noteq> 0" if "?p < length ?l"
    using assms(1,2,3,5,6) nth_mem [OF that] unfolding merges_def by blast
  then show ?thesis using w1 wrapped_get(1,2) [OF w1(2)] by (auto simp: after_key_def)
qed

lemma before_key_ok:
  assumes "ok k" "wrapped w l q"
  shows "\<exists>w'. before_key f k w = Some w' \<and> wrapped w' l (before_cut (less k) l)"
proof -
  let ?p = "cut (less k) l"
  obtain w1 where w1: "wr_Seek f k w = Some w1" "wrapped w1 l ?p" using wrapped_ops(3) [OF assms(2,1)] by blast
  show ?thesis
  proof (cases "?p < length l")
    case True
    then show ?thesis using w1 wrapped_get(1) [OF w1(2)] wrapped_ops(2) [OF w1(2)] by (auto simp: before_key_def before_cut_def)
  next
    case False
    then have "?p = length l" using cut_le [of "less k" l] by simp
    then show ?thesis using w1 wrapped_get(1) [OF w1(2)] wrapped_ops(5) [OF w1(2)] by (auto simp: before_key_def before_cut_def)
  qed
qed

lemma mi_Next_ok:
  assumes "merge_at m es n" "n < length es"
  shows "\<exists>m'. mi_Next f C m = Some m' \<and> merge_at m' es (Suc n)"
proof -
  let ?x = "es ! n" let ?k = "fst ?x"
  obtain ess c where e: "merges ess es" "mi_current m = Some c" "c < length ess" "?x \<in> set (ess ! c)"
      "tracks (mi_children m) ess (if mi_direction m = kForward then cut (less ?k) else before_cut (upto ?k))"
    by (rule merge_at_current [OF assms])
  note get = mi_get [OF assms] and own = own_cut [OF tracks_sorted [OF e(5,3)] e(4)]
  obtain m1 where m1: "(if mi_direction m \<noteq> kForward
        then map_option (\<lambda>m. m\<lparr>mi_direction := kForward\<rparr>) (on_others (after_key f C ?k) m) else Some m) = Some m1"
      "tracks (mi_children m1) ess (cut (less ?k))" "mi_current m1 = Some c" "mi_direction m1 = kForward"
  proof (cases "mi_direction m = kForward")
    case True
    then show ?thesis using that [of m] e(2,5) by simp
  next
    case False
    then have t: "tracks (mi_children m) ess (before_cut (upto ?k))" using e(5) by simp
    have g: "\<exists>w'. after_key f C ?k w = Some w' \<and> wrapped w' (ess ! d) (cut (less ?k) (ess ! d))"
      if "d < length ess" "d \<noteq> c" "wrapped w (ess ! d) (before_cut (upto ?k) (ess ! d))" for d w
      by (rule after_key_ok [OF e(1,3,4) get(3) that])
    obtain m2 where "on_others (after_key f C ?k) m = Some m2" "tracks (mi_children m2) ess (cut (less ?k))" "mi_current m2 = Some c"
      using on_others_ok [where g = "after_key f C ?k", OF t e(2) own_position [OF t e(3,4), symmetric] g] by blast
    then show ?thesis using that [of "m2\<lparr>mi_direction := kForward\<rparr>"] False by simp
  qed
  have same: "cut (upto ?k) (ess ! d) = cut (less ?k) (ess ! d)" if "d < length ess" "d \<noteq> c" for d
    by (rule other_cut [OF e(1,3,4) that])
  have step: "\<exists>w'. wr_Next f w = Some w' \<and> wrapped w' (ess ! c) (cut (upto ?k) (ess ! c))"
    if "wrapped w (ess ! c) (cut (less ?k) (ess ! c))" for w
    using wrapped_ops(1) [OF that own(1)] unfolding own(3) .
  obtain m3 where m3: "on_current (wr_Next f) m1 = Some m3" "tracks (mi_children m3) ess (cut (upto ?k))" "mi_direction m3 = kForward"
    using on_current_ok [where g = "wr_Next f", OF m1(2,3) e(3) same step] m1(4) by auto
  have s: "sorted_entries es" using e(1) by (simp add: merges_def)
  obtain m' where "FindSmallest C m3 = Some m'" "merge_at (m'\<lparr>mi_direction := kForward\<rparr>) es (Suc n)"
    using FindSmallest_ok [OF m3(2) e(1)] cut_at(2) [OF s assms(2)] by auto
  then show ?thesis using get(1) m1(1) m3(1) FindSmallest_dir [OF _ m3(3)] by (simp add: mi_Next_def)
qed

lemma mi_Prev_ok:
  assumes "merge_at m es n" "n < length es"
  shows "\<exists>m'. mi_Prev f C m = Some m' \<and> merge_at m' es (step_back (length es) n)"
proof -
  let ?x = "es ! n" let ?k = "fst ?x"
  obtain ess c where e: "merges ess es" "mi_current m = Some c" "c < length ess" "?x \<in> set (ess ! c)"
      "tracks (mi_children m) ess (if mi_direction m = kForward then cut (less ?k) else before_cut (upto ?k))"
    by (rule merge_at_current [OF assms])
  note get = mi_get [OF assms] and own = own_cut [OF tracks_sorted [OF e(5,3)] e(4)]
  have same: "before_cut (upto ?k) (ess ! d) = before_cut (less ?k) (ess ! d)" if "d < length ess" "d \<noteq> c" for d
    using other_cut [OF e(1,3,4) that] by (simp add: before_cut_def)
  obtain m1 where m1: "(if mi_direction m \<noteq> kReverse
        then map_option (\<lambda>m. m\<lparr>mi_direction := kReverse\<rparr>) (on_others (before_key f ?k) m) else Some m) = Some m1"
      "tracks (mi_children m1) ess (before_cut (upto ?k))" "mi_current m1 = Some c" "mi_direction m1 = kReverse"
  proof (cases "mi_direction m")
    case kReverse
    then show ?thesis using that [of m] e(2,5) by simp
  next
    case kForward
    then have t: "tracks (mi_children m) ess (cut (less ?k))" using e(5) by simp
    have g: "\<exists>w'. before_key f ?k w = Some w' \<and> wrapped w' (ess ! d) (before_cut (upto ?k) (ess ! d))"
      if "d < length ess" "d \<noteq> c" "wrapped w (ess ! d) (cut (less ?k) (ess ! d))" for d w
      using before_key_ok [OF get(3) that(3)] same [OF that(1,2)] by simp
    obtain m2 where "on_others (before_key f ?k) m = Some m2" "tracks (mi_children m2) ess (before_cut (upto ?k))" "mi_current m2 = Some c"
      using on_others_ok [where g = "before_key f ?k", OF t e(2) own_position [OF t e(3,4)] g] by blast
    then show ?thesis using that [of "m2\<lparr>mi_direction := kReverse\<rparr>"] kForward by simp
  qed
  have step: "\<exists>w'. wr_Prev f w = Some w' \<and> wrapped w' (ess ! c) (before_cut (less ?k) (ess ! c))"
    if "wrapped w (ess ! c) (before_cut (upto ?k) (ess ! c))" for w
    using wrapped_ops(2) [OF that [unfolded own_position [OF e(5,3,4)]] own(1)] by (simp add: before_cut_def)
  obtain m3 where m3: "on_current (wr_Prev f) m1 = Some m3" "tracks (mi_children m3) ess (before_cut (less ?k))" "mi_direction m3 = kReverse"
    using on_current_ok [where g = "wr_Prev f", OF m1(2,3) e(3) same [symmetric] step] m1(4) by auto
  have s: "sorted_entries es" using e(1) by (simp add: merges_def)
  have n: "before_cut (less ?k) es = step_back (length es) n" using cut_at(1) [OF s assms(2)] by (simp add: before_cut_def)
  obtain m' where "FindLargest C m3 = Some m'" "merge_at (m'\<lparr>mi_direction := kReverse\<rparr>) es (step_back (length es) n)"
    using FindLargest_ok [OF m3(2) e(1)] unfolding n by auto
  then show ?thesis using get(1) m1(1) m3(1) FindLargest_dir [OF _ m3(3)] by (simp add: mi_Prev_def)
qed

lemma mi_status_ok:
  assumes "merge_at m es n"
  shows "mi_status f m = OK"
proof -
  obtain ess where "placed (mi_children m) ess" using placed_of [OF assms] by blast
  then have "\<forall>w \<in> set (mi_children m). the (wr_status f w) = OK"
    using wrapped_get(7) by (fastforce simp: placed_def in_set_conv_nth)
  then have "List.find (\<lambda>s. \<not> Status_ok s) (map (\<lambda>w. the (wr_status f w)) (mi_children m)) = None"
    by (auto simp: find_None_iff)
  then show ?thesis by (simp add: mi_status_def)
qed

lemma MergingIterator_ok:
  assumes "merges ess es" "length is = length ess" "\<And>d. d < length ess \<Longrightarrow> \<exists>q. at (is ! d) (ess ! d) q"
  shows "\<exists>m. MergingIterator f is = Some m \<and> merge_at m es (length es)"
proof -
  let ?R = "\<lambda>d w. \<exists>q. wrapped w (ess ! d) q"
  have "\<exists>w. wr_Set f (Some (is ! d)) IteratorWrapper = Some w \<and> ?R d w" if "d \<in> set [0..<length ess]" for d
    using assms(3) [of d] Set_ok that by fastforce
  then obtain ws where ws: "those (map (\<lambda>d. wr_Set f (Some (is ! d)) IteratorWrapper) [0..<length ess]) = Some ws"
      "length ws = length ess" "\<forall>d < length ess. ?R d (ws ! d)"
    using those_map_ok [of "[0..<length ess]" "\<lambda>d. wr_Set f (Some (is ! d)) IteratorWrapper" ?R] by auto
  moreover have "map (\<lambda>d. wr_Set f (Some (is ! d)) IteratorWrapper) [0..<length ess] = map (\<lambda>i. wr_Set f (Some i) IteratorWrapper) is"
    by (rule nth_equalityI) (simp_all add: assms(2))
  ultimately show ?thesis using assms(1) by (auto simp: MergingIterator_def merge_at_def placed_def)
qed

end

sublocale merging \<subseteq> merged: cursor "Compare C" "merging_ops f C" ok merge_at
proof unfold_locales
  fix m :: "'i MergingIterator" and es n
  assume at: "merge_at m es n"
  then show "n \<le> length es" "sorted_entries es" by (auto simp: merge_at_def merges_def split: option.splits)
  show "ok (fst e)" if "e \<in> set es" for e
  proof -
    obtain ess where e: "merges ess es" "placed (mi_children m) ess" using placed_of [OF at] by blast
    have "e \<in> (\<Union>l \<in> set ess. set l)" using e(1) that by (simp add: merges_def)
    then obtain l where "l \<in> set ess" "e \<in> set l" by blast
    then obtain d where d: "d < length ess" "e \<in> set (ess ! d)" by (metis in_set_conv_nth)
    then obtain q where "wrapped (mi_children m ! d) (ess ! d) q" using e(2) by (auto simp: placed_def)
    then show ?thesis using wrapped_get(6) d(2) by blast
  qed
  show "op_Valid (merging_ops f C) m \<longleftrightarrow> n < length es"
    using at by (auto simp: merging_ops_def mi_Valid_def merge_at_def split: option.splits)
qed (simp_all add: merging_ops_def mi_get mi_status_ok mi_Next_ok mi_Prev_ok mi_Seek_ok mi_SeekToFirst_ok mi_SeekToLast_ok)

text \<open>So is whichever iterator \<open>NewMergingIterator\<close> makes.\<close>

context merging
begin

definition merged_at :: "'i merged \<Rightarrow> entry list \<Rightarrow> nat \<Rightarrow> bool" where
  "merged_at m es n \<longleftrightarrow>
     (case m of
        NoIterator s \<Rightarrow> s = OK \<and> es = [] \<and> n = 0
      | OneIterator i \<Rightarrow> at i es n
      | ManyIterators mi \<Rightarrow> merge_at mi es n)"

lemmas merged_defs = merged_ops_def merged_get_def merged_move_def EmptyIterator_ops_def Let_def

lemma NewMergingIterator_ok:
  assumes "merges ess es" "length is = length ess" "\<And>d. d < length ess \<Longrightarrow> at (is ! d) (ess ! d) (length (ess ! d))"
  shows "\<exists>m. NewMergingIterator f is = Some m \<and> merged_at m es (length es)"
proof -
  consider "is = []" | i where "is = [i]" | i j js where "is = i # j # js" by (metis list.exhaust)
  then show ?thesis
  proof cases
    case 1
    then have "es = []" using assms(1,2) by (simp add: merges_def)
    then show ?thesis using 1 by (simp add: NewMergingIterator_def merged_at_def NewEmptyIterator_def)
  next
    case (2 i)
    then obtain l where l: "ess = [l]" using assms(2) by (cases ess) auto
    then have "at i l (length l)" using assms(3) [of 0] 2 by simp
    moreover have "l = es"
      using sorted_entries_unique [of l es] at_sorted [OF calculation] assms(1) l by (simp add: merges_def)
    ultimately show ?thesis using 2 by (simp add: NewMergingIterator_def merged_at_def)
  next
    case (3 i j js)
    obtain mi where "MergingIterator f is = Some mi" "merge_at mi es (length es)"
      using MergingIterator_ok [OF assms(1,2)] assms(3) by blast
    then show ?thesis using 3 by (simp add: NewMergingIterator_def merged_at_def)
  qed
qed

end

sublocale merging \<subseteq> made: cursor "Compare C" "merged_ops f C" ok merged_at
proof unfold_locales
  fix m :: "'i merged" and es n
  assume at: "merged_at m es n"
  show "n \<le> length es" using at at_le merged.at_le by (cases m) (auto simp: merged_at_def)
  show "sorted_entries es" using at at_sorted merged.at_sorted by (cases m) (auto simp: merged_at_def sorted_entries_def)
  show "ok (fst e)" if "e \<in> set es" for e using at at_ok merged.at_ok that by (cases m) (auto simp: merged_at_def)
  show "op_Valid (merged_ops f C) m \<longleftrightarrow> n < length es"
    using at Valid merged.Valid by (cases m) (auto simp: merged_at_def merged_defs)
  show "op_status (merged_ops f C) m = OK"
    using at status merged.status by (cases m) (auto simp: merged_at_def merged_defs)
  show "n < length es \<Longrightarrow> op_key (merged_ops f C) m = Some (fst (es ! n))"
    using at key merged.key by (cases m) (auto simp: merged_at_def merged_defs)
  show "n < length es \<Longrightarrow> op_value (merged_ops f C) m = Some (snd (es ! n))"
    using at val merged.val by (cases m) (auto simp: merged_at_def merged_defs)
  show "n < length es \<Longrightarrow> \<exists>m'. op_Next (merged_ops f C) m = Some m' \<and> merged_at m' es (Suc n)"
    using at Next merged.Next by (cases m) (fastforce simp: merged_at_def merged_defs)+
  show "n < length es \<Longrightarrow> \<exists>m'. op_Prev (merged_ops f C) m = Some m' \<and> merged_at m' es (step_back (length es) n)"
    using at Prev merged.Prev by (cases m) (fastforce simp: merged_at_def merged_defs)+
  show "ok k \<Longrightarrow> \<exists>m'. op_Seek (merged_ops f C) k m = Some m' \<and> merged_at m' es (cut (\<lambda>e. Compare C (fst e) k < 0) es)" for k
    using at Seek merged.Seek by (cases m) (fastforce simp: merged_at_def merged_defs)+
  show "\<exists>m'. op_SeekToFirst (merged_ops f C) m = Some m' \<and> merged_at m' es 0"
    using at SeekToFirst merged.SeekToFirst by (cases m) (fastforce simp: merged_at_def merged_defs)+
  show "\<exists>m'. op_SeekToLast (merged_ops f C) m = Some m' \<and> merged_at m' es (step_back (length es) (length es))"
    using at SeekToLast merged.SeekToLast by (cases m) (fastforce simp: merged_at_def merged_defs step_back_def)+
qed

end
