(* ===== verification/DbIterProps.thy ===== *)
theory DbIterProps
  imports DbIterSpec Merging
begin

text \<open>The iterator of the clients moves on the view of its snapshot as a cursor.\<close>

locale db_iterator = cursor "Compare (InternalKeyComparator user)" f ok at + user: comparator user
  for user :: Comparator and f :: "'i Iterator" and ok :: "u8 list \<Rightarrow> bool" and at :: "'i \<Rightarrow> entry list \<Rightarrow> nat \<Rightarrow> bool" +
  fixes s :: u64
  assumes ok_user: "wf_entry e \<Longrightarrow> ok (fst e) \<Longrightarrow>
      ok (AppendInternalKey [] \<lparr>user_key = user_key (ikey e), sequence = s, key_type = kValueTypeForSeek\<rparr>)"
begin

definition entries :: "entry list \<Rightarrow> bool" where
  "entries es \<longleftrightarrow> sorted_entries es \<and> (\<forall>e \<in> set es. wf_entry e)"

lemma wf_nth: "entries es \<Longrightarrow> i < length es \<Longrightarrow> wf_entry (es ! i)"
  by (simp add: entries_def)

lemma uk_mono:
  assumes "entries es" "i \<le> j" "j < length es"
  shows "Compare user (uk (es ! i)) (uk (es ! j)) \<le> 0"
proof (cases "i = j")
  case False
  then have "internal_compare user (fst (es ! i)) (fst (es ! j)) < 0"
    using assms sorted_entries_nth [of es i j] by (simp add: entries_def)
  then show ?thesis
    using wf_entry_facts(2) [OF wf_nth [OF assms(1)]] assms(2,3) by (auto simp: user.internal_less_iff)
qed simp

lemma uk_less_index:
  assumes "entries es" "i < length es" "j < length es" "Compare user (uk (es ! i)) (uk (es ! j)) < 0"
  shows "i < j"
proof (rule ccontr)
  assume "\<not> i < j"
  then have "Compare user (uk (es ! j)) (uk (es ! i)) \<le> 0" using uk_mono [OF assms(1) _ assms(2)] by simp
  then show False using assms(4) user.flip by force
qed

abbreviation ys :: "entry list \<Rightarrow> nat list" where
  "ys \<equiv> yield_list user s"

text \<open>Different entries of the view have different user keys.\<close>

lemma ys_distinct:
  assumes "entries es" "i \<in> set (ys es)" "j \<in> set (ys es)" "i < j"
  shows "Compare user (uk (es ! i)) (uk (es ! j)) < 0"
proof -
  have "j < length es" "visible s (es ! i)" "Compare user (uk (es ! i)) (uk (es ! j)) \<noteq> 0"
    using assms(2-4) by (auto simp: set_yield_list yields_def)
  then show ?thesis using uk_mono [OF assms(1), of i j] assms(4) by simp
qed

lemma ParseKey_ok:
  assumes "at (di_iter d) es n" "n < length es" "entries es" "seed_ok (di_rnd d)"
  shows "\<exists>d'. ParseKey f d = Some (Some (ikey (es ! n)), d') \<and> sampled d d'"
proof -
  let ?e = "es ! n"
  let ?d = "d\<lparr>di_bytes_counter := di_bytes_counter d - int (length (fst ?e) + length (snd ?e))\<rparr>"
  obtain d' where d': "sample_loop (fst ?e) ?d = Some d'" "sampled ?d d'" using sample_loop_ok [of ?d "fst ?e"] assms(4) by auto
  then have "sampled d d'" unfolding sampled_def by (auto intro: DBIter.equality)
  then show ?thesis
    using d'(1) key [OF assms(1,2)] val [OF assms(1,2)] wf_entry_facts(1) [OF wf_nth [OF assms(3,2)]]
    by (simp add: ParseKey_def Let_def)
qed

lemma sampled_simps:
  assumes "sampled d d'"
  shows "di_iter d' = di_iter d" "di_sequence d' = di_sequence d" "di_status d' = di_status d" "di_saved_key d' = di_saved_key d"
    "di_saved_value d' = di_saved_value d" "di_direction d' = di_direction d" "di_valid d' = di_valid d" "seed_ok (di_rnd d')"
  using assms by (auto simp: sampled_def dest: arg_cong [where f = di_iter] arg_cong [where f = di_sequence] arg_cong [where f = di_status]
      arg_cong [where f = di_saved_key] arg_cong [where f = di_saved_value] arg_cong [where f = di_direction] arg_cong [where f = di_valid])

lemma user_key_ok:
  assumes "at (di_iter d) es n" "n < length es" "entries es"
  shows "current_user_key f d = Some (uk (es ! n))"
  using key [OF assms(1,2)] wf_entry_facts(2,3) [OF wf_nth [OF assms(3,2)]] by (simp add: current_user_key_def)

text \<open>What does not change, and a state that stands at an entry.\<close>

definition base :: "entry list \<Rightarrow> 'i DBIter \<Rightarrow> nat \<Rightarrow> bool" where
  "base es d q \<longleftrightarrow> at (di_iter d) es q \<and> entries es \<and> di_sequence d = s \<and> di_status d = OK \<and> seed_ok (di_rnd d) \<and>
     s \<le> kMaxSequenceNumber"

lemma base_sampled: "base es d q \<Longrightarrow> sampled d d' \<Longrightarrow> base es d' q"
  using sampled_simps [of d d'] by (simp add: base_def)

section \<open>Forward\<close>

text \<open>
  The search from position \<open>n\<close> for the first entry of the view from position \<open>n0\<close> on: what \<open>skip\<close>
  hides is what the view does not have.
\<close>

definition seeking :: "entry list \<Rightarrow> nat \<Rightarrow> bool \<Rightarrow> u8 list \<Rightarrow> nat \<Rightarrow> bool" where
  "seeking es n0 skipping skip n \<longleftrightarrow>
     (skipping \<longrightarrow> (\<forall>i. n \<le> i \<longrightarrow> i < length es \<longrightarrow> visible s (es ! i) \<longrightarrow> Compare user skip (uk (es ! i)) \<le> 0)) \<and>
     (\<forall>i. n \<le> i \<longrightarrow> i < length es \<longrightarrow> visible s (es ! i) \<longrightarrow> is_value (es ! i) \<longrightarrow>
       (i \<in> set (ys es) \<and> n0 \<le> i \<longleftrightarrow> \<not> (skipping \<and> Compare user (uk (es ! i)) skip \<le> 0) \<and>
         (\<forall>j. n \<le> j \<longrightarrow> j < i \<longrightarrow> visible s (es ! j) \<longrightarrow> Compare user (uk (es ! j)) (uk (es ! i)) \<noteq> 0))) \<and>
     (\<forall>y \<in> set (ys es). n0 \<le> y \<longrightarrow> n \<le> y)"

lemma seeking_not_yield:
  assumes "seeking es n0 skipping skip n" "n \<notin> set (ys es) \<or> n < n0"
  shows "\<forall>y \<in> set (ys es). n0 \<le> y \<longrightarrow> Suc n \<le> y"
proof (intro ballI impI)
  fix y
  assume y: "y \<in> set (ys es)" "n0 \<le> y"
  then have "n \<le> y" using assms(1) unfolding seeking_def by blast
  moreover have "n \<noteq> y" using assms(2) y by auto
  ultimately show "Suc n \<le> y" by simp
qed

lemma range_Suc: "(\<forall>j. n \<le> j \<longrightarrow> j < i \<longrightarrow> P j) \<longleftrightarrow> (n < i \<longrightarrow> P n) \<and> (\<forall>j. Suc n \<le> j \<longrightarrow> j < i \<longrightarrow> P j)"
  by (metis Suc_leD Suc_leI le_neq_implies_less order_refl)

lemma seeking_invisible:
  assumes "seeking es n0 skipping skip n" "\<not> visible s (es ! n)"
  shows "seeking es n0 skipping skip (Suc n)"
proof -
  have "n \<notin> set (ys es)" using assms(2) by (simp add: set_yield_list yields_def)
  then show ?thesis
    using assms seeking_not_yield [OF assms(1)] unfolding seeking_def range_Suc [of n] by auto
qed

lemma seeking_deletion:
  assumes "seeking es n0 skipping skip n" "entries es" "n < length es" "visible s (es ! n)" "\<not> is_value (es ! n)"
  shows "seeking es n0 True (uk (es ! n)) (Suc n)"
proof -
  let ?u = "uk (es ! n)"
  have ge: "Compare user ?u (uk (es ! i)) \<le> 0" if "Suc n \<le> i" "i < length es" for i
    using uk_mono [OF assms(2), of n i] that by simp
  have "n \<notin> set (ys es)" using assms(5) by (simp add: set_yield_list yields_def)
  then have y: "\<forall>y \<in> set (ys es). n0 \<le> y \<longrightarrow> Suc n \<le> y" using seeking_not_yield [OF assms(1)] by simp
  have "i \<in> set (ys es) \<and> n0 \<le> i \<longleftrightarrow> \<not> (True \<and> Compare user (uk (es ! i)) ?u \<le> 0) \<and>
      (\<forall>j. Suc n \<le> j \<longrightarrow> j < i \<longrightarrow> visible s (es ! j) \<longrightarrow> Compare user (uk (es ! j)) (uk (es ! i)) \<noteq> 0)"
    if i: "Suc n \<le> i" "i < length es" "visible s (es ! i)" "is_value (es ! i)" for i
  proof -
    have old: "i \<in> set (ys es) \<and> n0 \<le> i \<longleftrightarrow> \<not> (skipping \<and> Compare user (uk (es ! i)) skip \<le> 0) \<and>
        (\<forall>j. n \<le> j \<longrightarrow> j < i \<longrightarrow> visible s (es ! j) \<longrightarrow> Compare user (uk (es ! j)) (uk (es ! i)) \<noteq> 0)"
      using assms(1) i unfolding seeking_def by (meson Suc_leD)
    have n: "skipping \<Longrightarrow> Compare user skip ?u \<le> 0" using assms(1,3,4) unfolding seeking_def by blast
    have "Compare user (uk (es ! i)) ?u \<le> 0 \<longleftrightarrow> Compare user ?u (uk (es ! i)) = 0"
      using ge [OF i(1,2)] user.not_less [of ?u "uk (es ! i)"] by auto
    moreover have "skipping \<Longrightarrow> Compare user (uk (es ! i)) skip \<le> 0 \<Longrightarrow> Compare user (uk (es ! i)) ?u \<le> 0"
      using n user.le_trans by blast
    ultimately show ?thesis unfolding old range_Suc [of n] using assms(4) i(1) by auto
  qed
  then show ?thesis using ge y unfolding seeking_def by blast
qed

lemma seeking_hidden:
  assumes "seeking es n0 skipping skip n" "entries es" "n < length es" "visible s (es ! n)" "is_value (es ! n)"
    and "skipping" "Compare user (uk (es ! n)) skip \<le> 0"
  shows "seeking es n0 skipping skip (Suc n)"
proof -
  let ?u = "uk (es ! n)"
  have n: "Compare user skip ?u \<le> 0" using assms(1,3,4,6) unfolding seeking_def by blast
  have "\<not> (n \<in> set (ys es) \<and> n0 \<le> n)" using assms unfolding seeking_def by blast
  then have y: "\<forall>y \<in> set (ys es). n0 \<le> y \<longrightarrow> Suc n \<le> y" using seeking_not_yield [OF assms(1)] by auto
  have "i \<in> set (ys es) \<and> n0 \<le> i \<longleftrightarrow> \<not> (skipping \<and> Compare user (uk (es ! i)) skip \<le> 0) \<and>
      (\<forall>j. Suc n \<le> j \<longrightarrow> j < i \<longrightarrow> visible s (es ! j) \<longrightarrow> Compare user (uk (es ! j)) (uk (es ! i)) \<noteq> 0)"
    if i: "Suc n \<le> i" "i < length es" "visible s (es ! i)" "is_value (es ! i)" for i
  proof -
    have old: "i \<in> set (ys es) \<and> n0 \<le> i \<longleftrightarrow> \<not> (skipping \<and> Compare user (uk (es ! i)) skip \<le> 0) \<and>
        (\<forall>j. n \<le> j \<longrightarrow> j < i \<longrightarrow> visible s (es ! j) \<longrightarrow> Compare user (uk (es ! j)) (uk (es ! i)) \<noteq> 0)"
      using assms(1) i unfolding seeking_def by (meson Suc_leD)
    have "Compare user ?u (uk (es ! i)) = 0 \<Longrightarrow> Compare user (uk (es ! i)) skip \<le> 0"
      using assms(7) user.le_trans user.eq_sym by (metis order_refl)
    then show ?thesis unfolding old range_Suc [of n] using assms(4,6) i(1) by auto
  qed
  moreover have "\<forall>i. Suc n \<le> i \<longrightarrow> i < length es \<longrightarrow> visible s (es ! i) \<longrightarrow> Compare user skip (uk (es ! i)) \<le> 0"
    using assms(1,6) unfolding seeking_def by (meson Suc_leD)
  ultimately show ?thesis using y unfolding seeking_def by blast
qed

lemma find_next_step:
  assumes "base es d n" "n < length es" "seeking es n0 skipping (di_saved_key d) n"
  obtains (found) d1 where "find_next_entry f user skipping d = Some (d1\<lparr>di_valid := True, di_saved_key := []\<rparr>)"
      "base es d1 n" "di_direction d1 = di_direction d" "n \<in> set (ys es)" "n0 \<le> n"
    | (skip) sk d1 where "find_next_entry f user skipping d =
          Option.bind (on_iter (op_Next f) d1) (\<lambda>d.
            if op_Valid f (di_iter d) then find_next_entry f user sk d else Some (d\<lparr>di_saved_key := [], di_valid := False\<rparr>))"
      "base es d1 n" "di_direction d1 = di_direction d" "seeking es n0 sk (di_saved_key d1) (Suc n)"
proof -
  have b: "at (di_iter d) es n" "entries es" "seed_ok (di_rnd d)" "di_sequence d = s" using assms(1) by (auto simp: base_def)
  obtain d1 where d1: "ParseKey f d = Some (Some (ikey (es ! n)), d1)" "sampled d d1"
    using ParseKey_ok [OF b(1) assms(2) b(2,3)] by blast
  note sm = sampled_simps [OF d1(2)] and b1 = base_sampled [OF assms(1) d1(2)]
  let ?u = "uk (es ! n)"
  consider (invisible) "\<not> visible s (es ! n)" | (deletion) "visible s (es ! n)" "\<not> is_value (es ! n)"
    | (hidden) "visible s (es ! n)" "is_value (es ! n)" "skipping" "Compare user ?u (di_saved_key d) \<le> 0"
    | (shown) "visible s (es ! n)" "is_value (es ! n)" "\<not> (skipping \<and> Compare user ?u (di_saved_key d) \<le> 0)" by blast
  then show ?thesis
  proof cases
    case invisible
    show ?thesis
      by (rule skip [of d1 skipping]) (subst find_next_entry.simps, use invisible d1(1) sm b(4) b1
        seeking_invisible [OF assms(3) invisible] in \<open>simp_all add: visible_def\<close>)
  next
    case deletion
    have t: "key_type (ikey (es ! n)) = kTypeDeletion" using deletion(2) by (cases "key_type (ikey (es ! n))") (simp_all add: is_value_def)
    show ?thesis
      by (rule skip [of "d1\<lparr>di_saved_key := ?u\<rparr>" True]) (subst find_next_entry.simps, use deletion(1) t d1(1) sm b(4) b1
        seeking_deletion [OF assms(3) b(2) assms(2) deletion] in \<open>simp_all add: visible_def base_def\<close>)
  next
    case hidden
    show ?thesis
      by (rule skip [of d1 True]) (subst find_next_entry.simps, use hidden d1(1) sm b(4) b1
        seeking_hidden [OF assms(3) b(2) assms(2) hidden] in \<open>simp_all add: visible_def is_value_def\<close>)
  next
    case shown
    have "n \<in> set (ys es) \<and> n0 \<le> n"
      using assms(2,3) shown unfolding seeking_def by auto
    moreover have "find_next_entry f user skipping d = Some (d1\<lparr>di_valid := True, di_saved_key := []\<rparr>)"
      by (subst find_next_entry.simps) (use shown d1(1) sm b(4) in \<open>auto simp: visible_def is_value_def\<close>)
    ultimately show ?thesis using found [of d1] b1 sm by simp
  qed
qed

abbreviation upward :: "entry list \<Rightarrow> nat \<Rightarrow> nat" where
  "upward es n0 \<equiv> cut (\<lambda>i. i < n0) (ys es)"

lemma find_next_ok:
  assumes "base es d n" "n < length es" "seeking es n0 skipping (di_saved_key d) n"
  shows "\<exists>d' q. find_next_entry f user skipping d = Some d' \<and> base es d' q \<and> di_direction d' = di_direction d \<and>
    di_valid d' = (upward es n0 < length (ys es)) \<and> (di_valid d' \<longrightarrow> q = ys es ! upward es n0)"
  using assms
proof (induction "length es - n" arbitrary: d n skipping rule: less_induct)
  case less
  show ?case
  proof (rule find_next_step [OF less.prems])
    fix d1
    assume d1: "find_next_entry f user skipping d = Some (d1\<lparr>di_valid := True, di_saved_key := []\<rparr>)"
      "base es d1 n" "di_direction d1 = di_direction d" "n \<in> set (ys es)" "n0 \<le> n"
    have least: "x \<in> set (ys es) \<Longrightarrow> n0 \<le> x \<Longrightarrow> n \<le> x" for x using less.prems(3) unfolding seeking_def by blast
    note c = cut_numbers_found [OF sorted_yield_list d1(4,5) least]
    have "base es (d1\<lparr>di_valid := True, di_saved_key := []\<rparr>) n" using d1(2) by (simp add: base_def)
    then show ?thesis using c d1(1,3) by (intro exI [of _ "d1\<lparr>di_valid := True, di_saved_key := []\<rparr>"] exI [of _ n]) auto
  next
    fix sk d1
    assume d1: "find_next_entry f user skipping d =
          Option.bind (on_iter (op_Next f) d1) (\<lambda>d.
            if op_Valid f (di_iter d) then find_next_entry f user sk d else Some (d\<lparr>di_saved_key := [], di_valid := False\<rparr>))"
      "base es d1 n" "di_direction d1 = di_direction d" "seeking es n0 sk (di_saved_key d1) (Suc n)"
    have at1: "at (di_iter d1) es n" using d1(2) by (simp add: base_def)
    obtain i where i: "op_Next f (di_iter d1) = Some i" "at i es (Suc n)" using Next [OF at1 less.prems(2)] by blast
    let ?d = "d1\<lparr>di_iter := i\<rparr>"
    have b: "base es ?d (Suc n)" using d1(2) i(2) by (simp add: base_def)
    show ?thesis
    proof (cases "Suc n < length es")
      case True
      have "find_next_entry f user skipping d = find_next_entry f user sk ?d"
        using d1(1) i Valid [OF i(2)] True by (simp add: on_iter_def)
      then show ?thesis using less.hyps [of "Suc n" ?d sk] True b d1(3,4) by auto
    next
      case False
      have "x < n0" if "x \<in> set (ys es)" for x
      proof (rule ccontr)
        assume "\<not> x < n0"
        then have "Suc n \<le> x" using d1(4) that unfolding seeking_def by simp
        then show False using that False by (simp add: set_yield_list)
      qed
      then have "upward es n0 = length (ys es)" by (rule cut_numbers_none)
      moreover have "find_next_entry f user skipping d = Some (?d\<lparr>di_saved_key := [], di_valid := False\<rparr>)"
        using d1(1) i Valid [OF i(2)] False by (simp add: on_iter_def)
      moreover have "base es (?d\<lparr>di_saved_key := [], di_valid := False\<rparr>) (Suc n)" using b by (simp add: base_def)
      ultimately show ?thesis using d1(3) by auto
    qed
  qed
qed

end

section \<open>Backward\<close>

context db_iterator
begin

text \<open>The number of entries that a backward scan from position \<open>q\<close> has before it.\<close>

definition remaining :: "entry list \<Rightarrow> nat \<Rightarrow> nat" where
  "remaining es q = (if q < length es then Suc q else 0)"

text \<open>
  After the scan down to \<open>c\<close>: nothing of the view is passed, or only the entry \<open>l\<close>, which is saved, and
  it is the first visible one from \<open>c\<close> on.
\<close>

definition saved_at :: "entry list \<Rightarrow> 'i DBIter \<Rightarrow> nat \<Rightarrow> bool" where
  "saved_at es d l \<longleftrightarrow> l < length es \<and> di_saved_key d = uk (es ! l) \<and> di_saved_value d = snd (es ! l)"

definition passing :: "entry list \<Rightarrow> nat \<Rightarrow> ValueType \<Rightarrow> 'i DBIter \<Rightarrow> nat \<Rightarrow> bool" where
  "passing es c0 vt d c \<longleftrightarrow>
     (case vt of
        kTypeDeletion \<Rightarrow> \<forall>y \<in> set (ys es). y < c0 \<longrightarrow> y < c
      | kTypeValue \<Rightarrow> \<exists>l. c \<le> l \<and> l < c0 \<and> saved_at es d l \<and> visible s (es ! l) \<and> is_value (es ! l) \<and>
          (\<forall>j. c \<le> j \<longrightarrow> j < l \<longrightarrow> \<not> visible s (es ! j)) \<and> (\<forall>y \<in> set (ys es). y < c0 \<longrightarrow> y < c \<or> y = l))"

definition behind :: "entry list \<Rightarrow> u8 list \<Rightarrow> nat \<Rightarrow> bool" where
  "behind es k c \<longleftrightarrow> (\<forall>i < length es. i < c \<longrightarrow> Compare user (uk (es ! i)) k < 0) \<and>
     (\<forall>i < length es. visible s (es ! i) \<longrightarrow> Compare user (uk (es ! i)) k < 0 \<longrightarrow> i < c)"

definition passed :: "entry list \<Rightarrow> nat \<Rightarrow> ValueType \<Rightarrow> 'i DBIter \<Rightarrow> nat \<Rightarrow> bool" where
  "passed es c0 vt d q \<longleftrightarrow>
     (case vt of
        kTypeDeletion \<Rightarrow> \<forall>y \<in> set (ys es). c0 \<le> y
      | kTypeValue \<Rightarrow> \<exists>l \<in> set (ys es). l < c0 \<and> saved_at es d l \<and> behind es (uk (es ! l)) (remaining es q) \<and>
          (\<forall>y \<in> set (ys es). y < c0 \<longrightarrow> y \<le> l))"

lemma passing_start: "passing es c0 kTypeDeletion d c0"
  by (simp add: passing_def)

lemma passing_down:
  assumes "passing es c0 vt d (Suc n)" "n \<notin> set (ys es)" "\<not> visible s (es ! n)"
  shows "passing es c0 vt d n"
proof (cases vt)
  case kTypeDeletion
  then show ?thesis using assms(1,2) by (auto simp: passing_def less_Suc_eq)
next
  case kTypeValue
  then obtain l where l: "Suc n \<le> l" "l < c0" "saved_at es d l" "visible s (es ! l)" "is_value (es ! l)"
      "\<forall>j. Suc n \<le> j \<longrightarrow> j < l \<longrightarrow> \<not> visible s (es ! j)" "\<forall>y \<in> set (ys es). y < c0 \<longrightarrow> y < Suc n \<or> y = l"
    using assms(1) by (auto simp: passing_def)
  have "\<not> visible s (es ! j)" if "n \<le> j" "j < l" for j using that l(6) assms(3) by (cases "n = j") simp_all
  moreover have "y < n \<or> y = l" if "y \<in> set (ys es)" "y < c0" for y using l(7) that assms(2) by (auto simp: less_Suc_eq)
  ultimately show ?thesis using l(1-5) kTypeValue by (auto simp: passing_def intro!: exI [of _ l])
qed

text \<open>An entry of the view that is passed has no visible entry of its key before it.\<close>

lemma passing_none:
  assumes "passing es c0 vt d (Suc n)" "entries es" "n < length es" "visible s (es ! n)" "n < c0"
    and "\<not> (vt \<noteq> kTypeDeletion \<and> Compare user (uk (es ! n)) (di_saved_key d) < 0)"
  shows "\<forall>y \<in> set (ys es). y < c0 \<longrightarrow> y \<le> n"
proof (intro ballI impI)
  fix y
  assume y: "y \<in> set (ys es)" "y < c0"
  show "y \<le> n"
  proof (cases vt)
    case kTypeDeletion
    then show ?thesis using assms(1) y by (auto simp: passing_def)
  next
    case kTypeValue
    then obtain l where l: "Suc n \<le> l" "saved_at es d l" "y < Suc n \<or> y = l" using assms(1) y by (auto simp: passing_def)
    show ?thesis
    proof (rule ccontr)
      assume "\<not> y \<le> n"
      then have "y = l" "n < y" using l(3) by auto
      then have "Compare user (uk (es ! n)) (uk (es ! l)) \<noteq> 0" "l < length es"
        using y(1) assms(4) by (auto simp: set_yield_list yields_def)
      then show False using uk_mono [OF assms(2), of n l] l(1,2) assms(6) kTypeValue by (simp add: saved_at_def)
    qed
  qed
qed

text \<open>The scan ends, at the front or at a smaller key.\<close>

lemma passing_end:
  assumes "passing es c0 vt d c" "entries es" "remaining es q = c"
    and "c = 0 \<or> vt \<noteq> kTypeDeletion \<and> visible s (es ! (c - 1)) \<and> Compare user (uk (es ! (c - 1))) (di_saved_key d) < 0 \<and> c \<le> length es"
  shows "passed es c0 vt d q"
proof (cases vt)
  case kTypeDeletion
  then show ?thesis using assms(1,4) by (auto simp: passing_def passed_def)
next
  case kTypeValue
  then obtain l where l: "c \<le> l" "l < c0" "saved_at es d l" "visible s (es ! l)" "is_value (es ! l)"
      "\<forall>j. c \<le> j \<longrightarrow> j < l \<longrightarrow> \<not> visible s (es ! j)" "\<forall>y \<in> set (ys es). y < c0 \<longrightarrow> y < c \<or> y = l"
    using assms(1) by (auto simp: passing_def)
  have len: "l < length es" and k: "di_saved_key d = uk (es ! l)" using l(3) by (auto simp: saved_at_def)
  have less: "Compare user (uk (es ! i)) (uk (es ! l)) < 0" if "i < c" for i
  proof -
    have c: "c - 1 < length es" "i \<le> c - 1" "Compare user (uk (es ! (c - 1))) (uk (es ! l)) < 0" using assms(4) k that by auto
    then show ?thesis using uk_mono [OF assms(2) c(2,1)] user.le_less_trans by blast
  qed
  have "Compare user (uk (es ! j)) (uk (es ! l)) \<noteq> 0" if "j < l" "visible s (es ! j)" for j
    using l(6) that less [of j] by (cases "c \<le> j") auto
  then have "l \<in> set (ys es)" using len l(4,5) by (simp add: set_yield_list yields_def)
  moreover have "i < c" if i: "i < length es" "visible s (es ! i)" "Compare user (uk (es ! i)) (uk (es ! l)) < 0" for i
  proof (rule ccontr)
    assume "\<not> i < c"
    moreover have "i < l" by (rule uk_less_index [OF assms(2) i(1) len i(3)])
    ultimately show False using l(6) i(2) by simp
  qed
  then have "behind es (uk (es ! l)) c" using less by (simp add: behind_def)
  moreover have "y \<le> l" if "y \<in> set (ys es)" "y < c0" for y using l(1,7) that by fastforce
  ultimately show ?thesis using l(2,3) kTypeValue assms(3) by (auto simp: passed_def)
qed

lemma passing_cong:
  "di_saved_key d' = di_saved_key d \<Longrightarrow> di_saved_value d' = di_saved_value d \<Longrightarrow> passing es c0 vt d' c = passing es c0 vt d c"
  by (simp add: passing_def saved_at_def cong: ValueType.case_cong)

lemma passed_cong:
  "di_saved_key d' = di_saved_key d \<Longrightarrow> di_saved_value d' = di_saved_value d \<Longrightarrow> passed es c0 vt d' c = passed es c0 vt d c"
  by (simp add: passed_def saved_at_def cong: ValueType.case_cong)

lemma find_prev_step:
  assumes "base es d n" "n < length es" "passing es c0 vt d (Suc n)" "n < c0"
  obtains (found) d1 where "find_prev_entry f user vt d = Some (vt, d1)" "base es d1 n" "di_direction d1 = di_direction d"
      "passed es c0 vt d1 n"
    | (skip) vt' d1 where "find_prev_entry f user vt d =
          Option.bind (on_iter (op_Prev f) d1) (\<lambda>d. if op_Valid f (di_iter d) then find_prev_entry f user vt' d else Some (vt', d))"
      "base es d1 n" "di_direction d1 = di_direction d" "passing es c0 vt' d1 n"
proof -
  have b: "at (di_iter d) es n" "entries es" "seed_ok (di_rnd d)" "di_sequence d = s" using assms(1) by (auto simp: base_def)
  obtain d1 where d1: "ParseKey f d = Some (Some (ikey (es ! n)), d1)" "sampled d d1"
    using ParseKey_ok [OF b(1) assms(2) b(2,3)] by blast
  note sm = sampled_simps [OF d1(2)] and b1 = base_sampled [OF assms(1) d1(2)]
  let ?u = "uk (es ! n)"
  have at1: "at (di_iter d1) es n" using b1 by (simp add: base_def)
  note none = passing_none [OF assms(3) b(2) assms(2) _ assms(4)]
  consider (invisible) "\<not> visible s (es ! n)"
    | (stop) "visible s (es ! n)" "vt \<noteq> kTypeDeletion" "Compare user ?u (di_saved_key d) < 0"
    | (deletion) "visible s (es ! n)" "\<not> (vt \<noteq> kTypeDeletion \<and> Compare user ?u (di_saved_key d) < 0)" "\<not> is_value (es ! n)"
    | (saved) "visible s (es ! n)" "\<not> (vt \<noteq> kTypeDeletion \<and> Compare user ?u (di_saved_key d) < 0)" "is_value (es ! n)" by blast
  then show ?thesis
  proof cases
    case invisible
    have "passing es c0 vt d1 n"
      using passing_down [OF assms(3) _ invisible] invisible passing_cong [of d1 d] sm by (simp add: set_yield_list yields_def)
    then show ?thesis
      by (rule skip [rotated 3]) (subst find_prev_entry.simps, use invisible d1(1) sm b(4) b1 in \<open>simp_all add: visible_def\<close>)
  next
    case stop
    have "passed es c0 vt d n"
      by (rule passing_end [OF assms(3) b(2)]) (use stop assms(2) in \<open>simp_all add: remaining_def\<close>)
    then have "passed es c0 vt d1 n" using passed_cong [of d1 d] sm by simp
    then show ?thesis
      by (rule found [rotated 3]) (subst find_prev_entry.simps, use stop d1(1) sm b(4) b1 in \<open>simp_all add: visible_def\<close>)
  next
    case deletion
    have t: "key_type (ikey (es ! n)) = kTypeDeletion" using deletion(3) by (cases "key_type (ikey (es ! n))") (simp_all add: is_value_def)
    let ?d = "d1\<lparr>di_saved_key := [], di_saved_value := []\<rparr>"
    have "n \<notin> set (ys es)" using deletion(3) by (simp add: set_yield_list yields_def)
    then have "passing es c0 kTypeDeletion ?d n"
      using none [OF deletion(1,2)] by (auto simp: passing_def le_eq_less_or_eq)
    then show ?thesis
      by (rule skip [rotated 3]) (subst find_prev_entry.simps, use deletion(1,2) t d1(1) sm b(4) b1 in \<open>auto simp: visible_def base_def\<close>)
  next
    case saved
    have t: "key_type (ikey (es ! n)) = kTypeValue" using saved(3) by (simp add: is_value_def)
    let ?d = "d1\<lparr>di_saved_key := ?u, di_saved_value := snd (es ! n)\<rparr>"
    have "passing es c0 kTypeValue ?d n"
      using none [OF saved(1,2)] saved(1,3) assms(2,4) by (auto simp: passing_def saved_at_def le_eq_less_or_eq intro!: exI [of _ n])
    then show ?thesis
      by (rule skip [rotated 3]) (subst find_prev_entry.simps, use saved(1,2) t d1(1) sm b(4) b1
        val [OF at1 assms(2)] user_key_ok [OF at1 assms(2) b(2)] in \<open>auto simp: visible_def base_def\<close>)
  qed
qed

lemma find_prev_ok:
  assumes "base es d n" "n < length es" "passing es c0 vt d (Suc n)" "n < c0"
  shows "\<exists>vt' d' q. find_prev_entry f user vt d = Some (vt', d') \<and> base es d' q \<and> di_direction d' = di_direction d \<and> passed es c0 vt' d' q"
  using assms
proof (induction n arbitrary: d vt rule: less_induct)
  case (less n)
  show ?case
  proof (rule find_prev_step [OF less.prems])
    fix d1
    assume "find_prev_entry f user vt d = Some (vt, d1)" "base es d1 n" "di_direction d1 = di_direction d" "passed es c0 vt d1 n"
    then show ?thesis by blast
  next
    fix vt' d1
    assume d1: "find_prev_entry f user vt d =
          Option.bind (on_iter (op_Prev f) d1) (\<lambda>d. if op_Valid f (di_iter d) then find_prev_entry f user vt' d else Some (vt', d))"
      "base es d1 n" "di_direction d1 = di_direction d" "passing es c0 vt' d1 n"
    have at1: "at (di_iter d1) es n" and e: "entries es" using d1(2) by (simp_all add: base_def)
    obtain i where i: "op_Prev f (di_iter d1) = Some i" "at i es (step_back (length es) n)" using Prev [OF at1 less.prems(2)] by blast
    let ?d = "d1\<lparr>di_iter := i\<rparr>"
    have b: "base es ?d (step_back (length es) n)" using d1(2) i(2) by (simp add: base_def)
    have p: "passing es c0 vt' ?d n" using d1(4) passing_cong [of ?d d1] by simp
    show ?thesis
    proof (cases n)
      case 0
      then have "find_prev_entry f user vt d = Some (vt', ?d)" "step_back (length es) n = length es"
        using d1(1) i Valid [OF i(2)] by (simp_all add: on_iter_def step_back_def)
      moreover have "passed es c0 vt' ?d (length es)" by (rule passing_end [OF p e]) (simp_all add: 0 remaining_def)
      ultimately show ?thesis using b d1(3) by auto
    next
      case (Suc q)
      then have "find_prev_entry f user vt d = find_prev_entry f user vt' ?d" "step_back (length es) n = q"
        using d1(1) i Valid [OF i(2)] less.prems(2) by (simp_all add: on_iter_def step_back_def)
      then show ?thesis using less.IH [of q ?d vt'] b p d1(3) less.prems(2,4) Suc by auto
    qed
  qed
qed

text \<open>What \<open>FindPrevUserEntry\<close> leaves: the last entry of the view before \<open>c0\<close>.\<close>

lemma FindPrev_ok:
  assumes "base es d q" "remaining es q = c0" "di_direction d = kReverse" "q < length es \<or> q = length es"
  shows "\<exists>d' q'. FindPrevUserEntry f user d = Some d' \<and> base es d' q' \<and>
    (if \<exists>y \<in> set (ys es). y < c0
     then di_valid d' \<and> di_direction d' = kReverse \<and>
       (\<exists>l \<in> set (ys es). l < c0 \<and> saved_at es d' l \<and> behind es (uk (es ! l)) (remaining es q') \<and> (\<forall>y \<in> set (ys es). y < c0 \<longrightarrow> y \<le> l))
     else \<not> di_valid d')"
proof -
  have at: "at (di_iter d) es q" using assms(1) by (simp add: base_def)
  obtain vt d1 q1 where r: "(if op_Valid f (di_iter d) then find_prev_entry f user kTypeDeletion d else Some (kTypeDeletion, d)) = Some (vt, d1)"
      "base es d1 q1" "di_direction d1 = kReverse" "passed es c0 vt d1 q1"
  proof (cases "q < length es")
    case True
    then have c0: "c0 = Suc q" using assms(2) by (simp add: remaining_def)
    then show ?thesis
      using find_prev_ok [OF assms(1) True passing_start [of es "Suc q" d, folded c0, unfolded c0]] assms(3) that Valid [OF at] True by auto
  next
    case False
    then have "c0 = 0" using assms(2) by (simp add: remaining_def)
    then show ?thesis using that [of kTypeDeletion d q] assms(1,3) Valid [OF at] False by (simp add: passed_def)
  qed
  show ?thesis
  proof (cases vt)
    case kTypeDeletion
    let ?d = "d1\<lparr>di_valid := False, di_saved_key := [], di_saved_value := [], di_direction := kForward\<rparr>"
    have "FindPrevUserEntry f user d = Some ?d" using assms(3) r(1) kTypeDeletion by (simp add: FindPrevUserEntry_def)
    moreover have "base es ?d q1" using r(2) by (simp add: base_def)
    moreover have "\<not> (\<exists>y \<in> set (ys es). y < c0)" using r(4) kTypeDeletion by (auto simp: passed_def not_less)
    ultimately show ?thesis by (intro exI [of _ ?d] exI [of _ q1]) simp
  next
    case kTypeValue
    let ?d = "d1\<lparr>di_valid := True\<rparr>"
    have "FindPrevUserEntry f user d = Some ?d" using assms(3) r(1) kTypeValue by (simp add: FindPrevUserEntry_def)
    moreover have "base es ?d q1" using r(2) by (simp add: base_def)
    moreover obtain l where "l \<in> set (ys es)" "l < c0" "saved_at es d1 l" "behind es (uk (es ! l)) (remaining es q1)"
        "\<forall>y \<in> set (ys es). y < c0 \<longrightarrow> y \<le> l" using r(4) kTypeValue by (auto simp: passed_def)
    moreover have "saved_at es ?d l = saved_at es d1 l" by (simp add: saved_at_def)
    ultimately show ?thesis using r(3) by (intro exI [of _ ?d] exI [of _ q1]) auto
  qed
qed

end

section \<open>The cursor\<close>

context db_iterator
begin

definition di_at :: "'i DBIter \<Rightarrow> entry list \<Rightarrow> nat \<Rightarrow> bool" where
  "di_at d vs m \<longleftrightarrow>
     (\<exists>es q. base es d q \<and> vs = view user s es \<and> m \<le> length vs \<and> di_valid d = (m < length vs) \<and>
       (m < length vs \<longrightarrow>
         (case di_direction d of
            kForward \<Rightarrow> q = ys es ! m
          | kReverse \<Rightarrow> saved_at es d (ys es ! m) \<and> behind es (uk (es ! (ys es ! m))) (remaining es q))))"

lemma ys_nth: "m < length (ys es) \<Longrightarrow> ys es ! m \<in> set (ys es) \<and> ys es ! m < length es"
  using nth_mem [of m "ys es"] by (simp add: set_yield_list)

lemma di_at_forward:
  assumes "base es d q" "di_direction d = kForward" "m \<le> length (ys es)" "di_valid d = (m < length (ys es))" "di_valid d \<longrightarrow> q = ys es ! m"
  shows "di_at d (view user s es) m"
  using assms by (auto simp: di_at_def intro!: exI [of _ es] exI [of _ q])

lemma di_at_invalid: "base es d q \<Longrightarrow> \<not> di_valid d \<Longrightarrow> di_at d (view user s es) (length (ys es))"
  by (auto simp: di_at_def)

lemma FindNext_at:
  assumes "base es d n" "n < length es" "seeking es n0 skipping (di_saved_key d) n" "di_direction d = kForward"
  shows "\<exists>d'. FindNextUserEntry f user skipping d = Some d' \<and> di_at d' (view user s es) (upward es n0)"
proof -
  obtain d' q where d': "find_next_entry f user skipping d = Some d'" "base es d' q" "di_direction d' = di_direction d"
      "di_valid d' = (upward es n0 < length (ys es))" "di_valid d' \<longrightarrow> q = ys es ! upward es n0"
    using find_next_ok [OF assms(1-3)] by blast
  have at: "at (di_iter d) es n" using assms(1) by (simp add: base_def)
  show ?thesis
    using d'(1) Valid [OF at] assms(2,4) di_at_forward [OF d'(2) _ cut_le d'(4,5)] d'(3) by (simp add: FindNextUserEntry_def)
qed

lemma FindPrev_at:
  assumes "base es d q" "remaining es q = c0" "di_direction d = kReverse" "q < length es \<or> q = length es"
  shows "\<exists>d'. FindPrevUserEntry f user d = Some d' \<and> di_at d' (view user s es) (step_back (length (ys es)) (upward es c0))"
proof -
  obtain d' q' where d': "FindPrevUserEntry f user d = Some d'" "base es d' q'"
    "if \<exists>y \<in> set (ys es). y < c0
     then di_valid d' \<and> di_direction d' = kReverse \<and>
       (\<exists>l \<in> set (ys es). l < c0 \<and> saved_at es d' l \<and> behind es (uk (es ! l)) (remaining es q') \<and> (\<forall>y \<in> set (ys es). y < c0 \<longrightarrow> y \<le> l))
     else \<not> di_valid d'"
    using FindPrev_ok [OF assms] by blast
  show ?thesis
  proof (cases "\<exists>y \<in> set (ys es). y < c0")
    case True
    then obtain l where l: "l \<in> set (ys es)" "l < c0" "saved_at es d' l" "behind es (uk (es ! l)) (remaining es q')"
        "\<And>y. y \<in> set (ys es) \<Longrightarrow> y < c0 \<Longrightarrow> y \<le> l" and v: "di_valid d'" "di_direction d' = kReverse" using d'(3) by auto
    note c = cut_numbers_last [OF sorted_yield_list l(1,2,5)]
    then have "upward es c0 - 1 < length (ys es)" using cut_le [of "\<lambda>i. i < c0" "ys es"] by simp
    then have "di_at d' (view user s es) (upward es c0 - 1)"
      using c d'(2) l(3,4) v by (auto simp: di_at_def intro!: exI [of _ es] exI [of _ q'])
    then show ?thesis using d'(1) c(1) by (simp add: step_back_def)
  next
    case False
    then show ?thesis using d' di_at_invalid [OF d'(2)] cut_numbers_zero [OF False] by (simp add: step_back_def)
  qed
qed

lemma move_at:
  assumes "base es d q" "\<exists>i'. move (di_iter d) = Some i' \<and> at i' es q'"
  shows "\<exists>i'. on_iter move d = Some (d\<lparr>di_iter := i'\<rparr>) \<and> base es (d\<lparr>di_iter := i'\<rparr>) q'"
  using assms by (auto simp: on_iter_def base_def)

lemma base_le: "base es d q \<Longrightarrow> q \<le> length es"
  using at_le by (auto simp: base_def)

lemma base_Valid: "base es d q \<Longrightarrow> op_Valid f (di_iter d) \<longleftrightarrow> q < length es"
  using Valid by (auto simp: base_def)

lemma seeking_zero: "entries es \<Longrightarrow> seeking es 0 False skip 0"
  by (auto simp: seeking_def set_yield_list yields_def)

text \<open>The entries after the one at \<open>y\<close>.\<close>

lemma seeking_after:
  assumes "entries es" "y \<in> set (ys es)" "n \<le> y" "k = uk (es ! y)"
    and "\<And>i. i < n \<Longrightarrow> Compare user (uk (es ! i)) k \<le> 0"
    and "\<And>i. n \<le> i \<Longrightarrow> i < length es \<Longrightarrow> visible s (es ! i) \<Longrightarrow> Compare user k (uk (es ! i)) \<le> 0"
  shows "seeking es (Suc y) True k n"
proof -
  have y: "y < length es" using assms(2) by (simp add: set_yield_list)
  have "i \<in> set (ys es) \<and> Suc y \<le> i \<longleftrightarrow> \<not> Compare user (uk (es ! i)) k \<le> 0 \<and>
      (\<forall>j. n \<le> j \<longrightarrow> j < i \<longrightarrow> visible s (es ! j) \<longrightarrow> Compare user (uk (es ! j)) (uk (es ! i)) \<noteq> 0)"
    (is "?L \<longleftrightarrow> ?R") if i: "n \<le> i" "i < length es" "visible s (es ! i)" "is_value (es ! i)" for i
  proof
    assume L: ?L
    then have "Compare user k (uk (es ! i)) < 0" using ys_distinct [OF assms(1,2), of i] assms(4) by simp
    then show ?R using L user.not_le by (auto simp: set_yield_list yields_def)
  next
    assume R: ?R
    then have k: "Compare user k (uk (es ! i)) < 0" using user.not_le by blast
    have "Compare user (uk (es ! j)) (uk (es ! i)) \<noteq> 0" if "j < i" "visible s (es ! j)" for j
      using R that assms(5) [of j] k user.le_less_trans [of "uk (es ! j)" k "uk (es ! i)"] by (cases "n \<le> j") auto
    then have "i \<in> set (ys es)" using i by (simp add: set_yield_list yields_def)
    moreover have "y < i" by (rule uk_less_index [OF assms(1) y i(2)]) (use k assms(4) in simp)
    ultimately show ?L by simp
  qed
  then show ?thesis using assms(3,6) unfolding seeking_def by auto
qed

lemma scan_before_ok:
  assumes "base es d n" "n < length es" "\<And>i. n \<le> i \<Longrightarrow> i < length es \<Longrightarrow> Compare user (di_saved_key d) (uk (es ! i)) \<le> 0"
  shows "\<exists>found d' q. scan_before f user d = Some (found, d') \<and> base es d' q \<and>
    (if found
     then q < length es \<and> di_saved_key d' = di_saved_key d \<and> Compare user (uk (es ! q)) (di_saved_key d) < 0 \<and>
       (\<forall>i. q < i \<longrightarrow> i < length es \<longrightarrow> Compare user (di_saved_key d) (uk (es ! i)) \<le> 0)
     else \<not> di_valid d' \<and> (\<forall>i < length es. Compare user (di_saved_key d) (uk (es ! i)) \<le> 0))"
  using assms
proof (induction n arbitrary: d rule: less_induct)
  case (less n)
  have at: "at (di_iter d) es n" and e: "entries es" using less.prems(1) by (simp_all add: base_def)
  obtain i where i: "on_iter (op_Prev f) d = Some (d\<lparr>di_iter := i\<rparr>)" "base es (d\<lparr>di_iter := i\<rparr>) (step_back (length es) n)"
    using move_at [where move = "op_Prev f", OF less.prems(1) Prev [OF at less.prems(2)]] by blast
  let ?d = "d\<lparr>di_iter := i\<rparr>"
  show ?case
  proof (cases n)
    case 0
    then have "\<not> op_Valid f i" using base_Valid [OF i(2)] by (simp add: step_back_def)
    then have "scan_before f user d = Some (False, ?d\<lparr>di_valid := False, di_saved_key := [], di_saved_value := []\<rparr>)"
      by (subst scan_before.simps) (simp add: i(1))
    moreover have "base es (?d\<lparr>di_valid := False, di_saved_key := [], di_saved_value := []\<rparr>) (step_back (length es) n)"
      using i(2) by (simp add: base_def)
    ultimately show ?thesis using less.prems(3) 0
      by (intro exI [of _ False] exI [of _ "?d\<lparr>di_valid := False, di_saved_key := [], di_saved_value := []\<rparr>"] exI) simp
  next
    case (Suc q)
    then have q: "q < length es" "step_back (length es) n = q" using less.prems(2) by (simp_all add: step_back_def)
    have b: "base es ?d q" and v: "op_Valid f i" using i(2) q base_Valid [OF i(2)] by simp_all
    have at': "at (di_iter ?d) es q" using b by (simp add: base_def)
    note k = user_key_ok [OF at' q(1) e]
    show ?thesis
    proof (cases "Compare user (uk (es ! q)) (di_saved_key d) < 0")
      case True
      have "scan_before f user d = Some (True, ?d)"
        by (subst scan_before.simps) (use i(1) v k True in simp)
      then show ?thesis using b q(1) True less.prems(3) Suc by (intro exI [of _ True] exI [of _ ?d] exI [of _ q]) simp
    next
      case False
      have step: "scan_before f user d = scan_before f user ?d"
        by (subst scan_before.simps) (use i(1) v k False in simp)
      have "Compare user (di_saved_key d) (uk (es ! j)) \<le> 0" if "q \<le> j" "j < length es" for j
        using that less.prems(3) [of j] False user.not_less Suc by (cases "j = q") auto
      then have "Compare user (di_saved_key ?d) (uk (es ! j)) \<le> 0" if "q \<le> j" "j < length es" for j
        using that by simp
      note ge = this
      have key: "di_saved_key ?d = di_saved_key d" and "q < n" using Suc by simp_all
      show ?thesis using less.IH [of q ?d, OF \<open>q < n\<close> b q(1) ge] unfolding step key .
    qed
  qed
qed

lemma behind_scanned:
  assumes "entries es" "q < length es" "Compare user (uk (es ! q)) k < 0"
    "\<And>i. q < i \<Longrightarrow> i < length es \<Longrightarrow> Compare user k (uk (es ! i)) \<le> 0"
  shows "behind es k (Suc q)"
proof -
  have "Compare user (uk (es ! i)) k < 0" if "i < Suc q" for i
    using uk_mono [OF assms(1), of i q] assms(2,3) that user.le_less_trans by force
  moreover have "i < Suc q" if "i < length es" "Compare user (uk (es ! i)) k < 0" for i
    using assms(4) [of i] that user.not_less [of "uk (es ! i)" k] by (cases "q < i") auto
  ultimately show ?thesis by (simp add: behind_def)
qed

text \<open>What lies behind the key of an entry of the view.\<close>

lemma upward_behind:
  assumes "m < length (ys es)" "behind es (uk (es ! (ys es ! m))) c" "entries es"
  shows "upward es c = m"
proof -
  note y = ys_nth [OF assms(1)]
  have "(i < c) = (i < ys es ! m)" if i: "i \<in> set (ys es)" for i
  proof
    have il: "i < length es" "visible s (es ! i)" using i by (auto simp: set_yield_list yields_def)
    show "i < ys es ! m" if "i < c"
      by (rule uk_less_index [OF assms(3) il(1)]) (use y assms(2) il that in \<open>simp_all add: behind_def\<close>)
    show "i < c" if "i < ys es ! m"
      using ys_distinct [OF assms(3) i _ that] y assms(2) il by (simp add: behind_def)
  qed
  then show ?thesis using cut_numbers_nth(1) [OF sorted_yield_list assms(1)] by (metis (mono_tags, lifting) cut_cong)
qed

lemma di_SeekToFirst_at:
  assumes "di_at d vs m"
  shows "\<exists>d'. di_SeekToFirst f user d = Some d' \<and> di_at d' vs 0"
proof -
  obtain es q where b: "base es d q" "vs = view user s es" using assms by (auto simp: di_at_def)
  let ?d = "d\<lparr>di_direction := kForward, di_saved_value := []\<rparr>"
  have b1: "base es ?d q" and at: "at (di_iter ?d) es q" and e: "entries es" using b(1) by (simp_all add: base_def)
  obtain i where i: "on_iter (op_SeekToFirst f) ?d = Some (?d\<lparr>di_iter := i\<rparr>)" "base es (?d\<lparr>di_iter := i\<rparr>) 0"
    using move_at [where move = "op_SeekToFirst f", OF b1 SeekToFirst [OF at]] by blast
  note v = base_Valid [OF i(2)]
  have z: "upward es 0 = 0" by (rule cut_numbers_zero) simp
  show ?thesis
  proof (cases "es = []")
    case True
    then have "yield_list user s es = []" by (simp add: yield_list_def)
    then show ?thesis
      using di_at_invalid [of es "?d\<lparr>di_iter := i, di_valid := False\<rparr>" 0] i v True b(2) by (auto simp: di_SeekToFirst_def base_def)
  next
    case False
    have "\<exists>d'. FindNextUserEntry f user False (?d\<lparr>di_iter := i\<rparr>) = Some d' \<and> di_at d' (view user s es) (upward es 0)"
      by (rule FindNext_at [OF i(2)]) (use False e seeking_zero in simp_all)
    then show ?thesis using i(1) v False b(2) z by (simp add: di_SeekToFirst_def)
  qed
qed

lemma di_SeekToLast_at:
  assumes "di_at d vs m"
  shows "\<exists>d'. di_SeekToLast f user d = Some d' \<and> di_at d' vs (step_back (length vs) (length vs))"
proof -
  obtain es q where b: "base es d q" "vs = view user s es" using assms by (auto simp: di_at_def)
  let ?d = "d\<lparr>di_direction := kReverse, di_saved_value := []\<rparr>"
  have b1: "base es ?d q" and at: "at (di_iter ?d) es q" using b(1) by (simp_all add: base_def)
  obtain i where i: "on_iter (op_SeekToLast f) ?d = Some (?d\<lparr>di_iter := i\<rparr>)"
      "base es (?d\<lparr>di_iter := i\<rparr>) (step_back (length es) (length es))"
    using move_at [where move = "op_SeekToLast f", OF b1 SeekToLast [OF at]] by blast
  have r: "remaining es (step_back (length es) (length es)) = length es" by (simp add: remaining_def step_back_def)
  have u: "upward es (length es) = length (ys es)" by (rule cut_numbers_none) (simp add: set_yield_list)
  have "\<exists>d'. FindPrevUserEntry f user (?d\<lparr>di_iter := i\<rparr>) = Some d' \<and>
      di_at d' (view user s es) (step_back (length (ys es)) (upward es (length es)))"
    by (rule FindPrev_at [OF i(2) r]) (auto simp: step_back_def)
  then show ?thesis using i(1) b(2) u by (simp add: di_SeekToLast_def)
qed

lemma di_Prev_at:
  assumes "di_at d vs m" "m < length vs"
  shows "\<exists>d'. di_Prev f user d = Some d' \<and> di_at d' vs (step_back (length vs) m)"
proof -
  obtain es q where b: "base es d q" "vs = view user s es" "di_valid d" "m < length (ys es)"
    "case di_direction d of
       kForward \<Rightarrow> q = ys es ! m
     | kReverse \<Rightarrow> saved_at es d (ys es ! m) \<and> behind es (uk (es ! (ys es ! m))) (remaining es q)"
    using assms by (auto simp: di_at_def)
  have at: "at (di_iter d) es q" and e: "entries es" using b(1) by (simp_all add: base_def)
  show ?thesis
  proof (cases "di_direction d")
    case kReverse
    then have "\<exists>d'. FindPrevUserEntry f user d = Some d' \<and> di_at d' (view user s es) (step_back (length (ys es)) (upward es (remaining es q)))"
      using base_le [OF b(1)] by (intro FindPrev_at [OF b(1) HOL.refl]) auto
    moreover have "upward es (remaining es q) = m" using upward_behind [OF b(4) _ e] b(5) kReverse by simp
    ultimately show ?thesis using b(2,3) kReverse by (simp add: di_Prev_def)
  next
    case kForward
    then have q: "q = ys es ! m" "q < length es" using b(5) ys_nth [OF b(4)] by simp_all
    let ?k = "uk (es ! q)" let ?d = "d\<lparr>di_saved_key := ?k\<rparr>"
    have b1: "base es ?d q" using b(1) by (simp add: base_def)
    have ge: "Compare user (di_saved_key ?d) (uk (es ! i)) \<le> 0" if "q \<le> i" "i < length es" for i using uk_mono [OF e that] by simp
    have key: "di_saved_key ?d = ?k" by simp
    obtain found d1 q1 where s: "scan_before f user ?d = Some (found, d1)" "base es d1 q1"
      "if found
       then q1 < length es \<and> di_saved_key d1 = ?k \<and> Compare user (uk (es ! q1)) ?k < 0 \<and>
         (\<forall>i. q1 < i \<longrightarrow> i < length es \<longrightarrow> Compare user ?k (uk (es ! i)) \<le> 0)
       else \<not> di_valid d1 \<and> (\<forall>i < length es. Compare user ?k (uk (es ! i)) \<le> 0)"
      using scan_before_ok [OF b1 q(2) ge] unfolding key by blast
    have prev: "di_Prev f user d = (if found then FindPrevUserEntry f user (d1\<lparr>di_direction := kReverse\<rparr>) else Some d1)"
      using b(3) kForward base_Valid [OF b(1)] q(2) user_key_ok [OF at q(2) e] s(1) by (simp add: di_Prev_def)
    show ?thesis
    proof (cases found)
      case True
      have bh: "behind es ?k (Suc q1)" by (rule behind_scanned [OF e]) (use s(3) True in auto)
      have "base es (d1\<lparr>di_direction := kReverse\<rparr>) q1" using s(2) by (simp add: base_def)
      then have "\<exists>d'. FindPrevUserEntry f user (d1\<lparr>di_direction := kReverse\<rparr>) = Some d' \<and>
          di_at d' (view user s es) (step_back (length (ys es)) (upward es (Suc q1)))"
        using s(3) True by (intro FindPrev_at) (auto simp: remaining_def)
      moreover have "upward es (Suc q1) = m" using upward_behind [OF b(4) _ e] bh q(1) by simp
      ultimately show ?thesis using prev True b(2) by simp
    next
      case False
      then have no: "\<not> di_valid d1" "behind es ?k 0" using s(3) user.not_less by (auto simp: behind_def)
      then have "m = 0" using upward_behind [OF b(4) _ e, of 0] q(1) cut_numbers_zero [of "ys es" 0] by simp
      then show ?thesis using prev False b(2) di_at_invalid [OF s(2) no(1)] by (simp add: step_back_def)
    qed
  qed
qed

lemma di_Next_at:
  assumes "di_at d vs m" "m < length vs"
  shows "\<exists>d'. di_Next f user d = Some d' \<and> di_at d' vs (Suc m)"
proof -
  obtain es q where b: "base es d q" "vs = view user s es" "di_valid d" "m < length (ys es)"
    "case di_direction d of
       kForward \<Rightarrow> q = ys es ! m
     | kReverse \<Rightarrow> saved_at es d (ys es ! m) \<and> behind es (uk (es ! (ys es ! m))) (remaining es q)"
    using assms by (auto simp: di_at_def)
  have at: "at (di_iter d) es q" and e: "entries es" using b(1) by (simp_all add: base_def)
  let ?y = "ys es ! m" let ?k = "uk (es ! ?y)"
  note y = ys_nth [OF b(4)] and up = cut_numbers_nth(2) [OF sorted_yield_list b(4)]
  show ?thesis
  proof (cases "di_direction d")
    case kForward
    then have q: "q = ?y" "q < length es" using b(5) y by simp_all
    let ?d = "d\<lparr>di_saved_key := ?k\<rparr>"
    have b1: "base es ?d q" using b(1) by (simp add: base_def)
    have "seeking es (Suc ?y) True ?k q"
      by (rule seeking_after [OF e _ _ HOL.refl]) (use y q uk_mono [OF e] in \<open>simp_all add: less_imp_le\<close>)
    then have "\<exists>d'. FindNextUserEntry f user True ?d = Some d' \<and> di_at d' (view user s es) (upward es (Suc ?y))"
      by (intro FindNext_at [OF b1 q(2)]) (simp_all add: kForward)
    then show ?thesis using b(2,3) kForward up q(1) user_key_ok [OF at q(2) e] by (simp add: di_Next_def)
  next
    case kReverse
    let ?n = "remaining es q" let ?d = "d\<lparr>di_direction := kForward\<rparr>"
    have bh: "behind es ?k ?n" and sk: "di_saved_key d = ?k" using b(5) kReverse by (simp_all add: saved_at_def)
    have le: "?n \<le> length es" by (simp add: remaining_def)
    have n: "?n \<le> ?y"
    proof (rule ccontr)
      assume "\<not> ?n \<le> ?y"
      then have "ys es ! m < ?n" by simp
      then show False using bh [unfolded behind_def, THEN conjunct1, rule_format, of "ys es ! m"] y by simp
    qed
    have b1: "base es ?d q" and at1: "at (di_iter ?d) es q" using b(1) by (simp_all add: base_def)
    have "\<exists>i'. (if op_Valid f (di_iter d) then op_Next f else op_SeekToFirst f) (di_iter ?d) = Some i' \<and> at i' es ?n"
      using Next [OF at] SeekToFirst [OF at] base_Valid [OF b(1)] by (simp add: remaining_def)
    from move_at [where move = "if op_Valid f (di_iter d) then op_Next f else op_SeekToFirst f", OF b1 this]
    obtain i where i: "on_iter (if op_Valid f (di_iter d) then op_Next f else op_SeekToFirst f) ?d = Some (?d\<lparr>di_iter := i\<rparr>)"
        "base es (?d\<lparr>di_iter := i\<rparr>) ?n" by blast
    have "Compare user (uk (es ! i)) ?k \<le> 0" if "i < ?n" for i
      using bh [unfolded behind_def, THEN conjunct1, rule_format, of i] le that by simp
    moreover have "Compare user ?k (uk (es ! i)) \<le> 0" if "?n \<le> i" "i < length es" "visible s (es ! i)" for i
    proof -
      have "\<not> Compare user (uk (es ! i)) ?k < 0"
        using bh [unfolded behind_def, THEN conjunct2, rule_format, of i] that by linarith
      then show ?thesis unfolding user.not_less .
    qed
    ultimately have "seeking es (Suc ?y) True ?k ?n" using y n by (intro seeking_after [OF e _ _ HOL.refl]) simp_all
    then have "\<exists>d'. FindNextUserEntry f user True (?d\<lparr>di_iter := i\<rparr>) = Some d' \<and> di_at d' (view user s es) (upward es (Suc ?y))"
      using n y by (intro FindNext_at [OF i(2)]) (simp_all add: sk)
    moreover have "op_Valid f (di_iter (?d\<lparr>di_iter := i\<rparr>))" using base_Valid [OF i(2)] n y by simp
    ultimately show ?thesis using i(1) b(2,3) kReverse up by (simp add: di_Next_def)
  qed
qed

text \<open>The internal key that \<open>Seek\<close> looks for.\<close>

definition seek_key :: "u8 list \<Rightarrow> u8 list" where
  "seek_key target = AppendInternalKey [] \<lparr>user_key = target, sequence = s, key_type = kValueTypeForSeek\<rparr>"

lemma before_seek_key:
  assumes "wf_entry e" and snapshot: "s \<le> kMaxSequenceNumber"
  shows "visible s e \<Longrightarrow> Compare (InternalKeyComparator user) (fst e) (seek_key t) < 0 \<longleftrightarrow> Compare user (uk e) t < 0"
    "\<not> Compare (InternalKeyComparator user) (fst e) (seek_key t) < 0 \<Longrightarrow> Compare user t (uk e) \<le> 0"
    "Compare user (uk e) t < 0 \<Longrightarrow> Compare (InternalKeyComparator user) (fst e) (seek_key t) < 0"
proof -
  note w = wf_entry_facts [OF assms(1)]
  have k: "ExtractUserKey (seek_key t) = t" "key_num (seek_key t) = PackSequenceAndType s kTypeValue"
    by (simp_all add: seek_key_def AppendInternalKey_def PutFixed64_def kValueTypeForSeek_def)
  show "visible s e \<Longrightarrow> Compare (InternalKeyComparator user) (fst e) (seek_key t) < 0 \<longleftrightarrow> Compare user (uk e) t < 0"
    using w Pack_le [OF w(5) snapshot, of "key_type (ikey e)"] by (auto simp: user.internal_less_iff k visible_def not_le [symmetric])
  show "\<not> Compare (InternalKeyComparator user) (fst e) (seek_key t) < 0 \<Longrightarrow> Compare user t (uk e) \<le> 0"
    using w user.not_less [of "uk e" t] by (auto simp: user.internal_less_iff k)
  show "Compare user (uk e) t < 0 \<Longrightarrow> Compare (InternalKeyComparator user) (fst e) (seek_key t) < 0"
    using w by (simp add: user.internal_less_iff k)
qed

lemma di_Seek_at:
  assumes "di_at d vs m" "ok (seek_key t)"
  shows "\<exists>d'. di_Seek f user t d = Some d' \<and> di_at d' vs (cut (\<lambda>e. Compare user (fst e) t < 0) vs)"
proof -
  obtain es q where b: "base es d q" "vs = view user s es" using assms by (auto simp: di_at_def)
  let ?D = "\<lambda>e. Compare (InternalKeyComparator user) (fst e) (seek_key t) < 0" let ?n = "cut ?D es"
  let ?d = "d\<lparr>di_direction := kForward, di_saved_value := [], di_saved_key := seek_key t\<rparr>"
  have b1: "base es ?d q" and at: "at (di_iter ?d) es q" and e: "entries es" using b(1) by (simp_all add: base_def)
  have sorted: "sorted_entries es" using e by (simp add: entries_def)
  have sq: "s \<le> kMaxSequenceNumber" using b(1) by (simp add: base_def)
  obtain i where i: "on_iter (op_Seek f (seek_key t)) ?d = Some (?d\<lparr>di_iter := i\<rparr>)" "base es (?d\<lparr>di_iter := i\<rparr>) ?n"
    using move_at [where move = "op_Seek f (seek_key t)", OF b1 Seek [OF at assms(2)]] by blast
  have D: "i < ?n \<longleftrightarrow> ?D (es ! i)" if "i < length es" for i by (rule cut_iff [OF sorted downward_simps(1) that, symmetric])
  have vis: "i < ?n \<longleftrightarrow> Compare user (uk (es ! i)) t < 0" if "i < length es" "visible s (es ! i)" for i
    using D [OF that(1)] before_seek_key(1) [OF wf_nth [OF e that(1)] sq that(2)] by simp
  have u: "cut (\<lambda>e. Compare user (fst e) t < 0) vs = upward es ?n"
  proof -
    have "cut (\<lambda>e. Compare user (fst e) t < 0) vs = cut (\<lambda>i. Compare user (uk (es ! i)) t < 0) (ys es)"
      by (simp add: b(2) view_def cut_def takeWhile_map comp_def)
    also have "\<dots> = upward es ?n" by (rule cut_cong) (use vis in \<open>auto simp: set_yield_list yields_def\<close>)
    finally show ?thesis .
  qed
  have "di_sequence d = s" using b(1) by (simp add: base_def)
  then have step: "di_Seek f user t d = Option.bind (on_iter (op_Seek f (seek_key t)) ?d) (\<lambda>d.
      if op_Valid f (di_iter d) then FindNextUserEntry f user False d else Some (d\<lparr>di_valid := False\<rparr>))"
    by (simp add: di_Seek_def Let_def seek_key_def)
  show ?thesis
  proof (cases "?n < length es")
    case False
    then have "upward es ?n = length (ys es)"
      by (intro cut_numbers_none) (auto simp: set_yield_list intro: less_le_trans)
    moreover have "base es (?d\<lparr>di_iter := i, di_valid := False\<rparr>) ?n" using i(2) by (simp add: base_def)
    ultimately show ?thesis
      using di_at_invalid [of es "?d\<lparr>di_iter := i, di_valid := False\<rparr>" ?n] i(1) base_Valid [OF i(2)] False b(2) u
      by (simp add: step)
  next
    case True
    have "a \<in> set (ys es) \<and> ?n \<le> a \<longleftrightarrow>
        (\<forall>j. ?n \<le> j \<longrightarrow> j < a \<longrightarrow> visible s (es ! j) \<longrightarrow> Compare user (uk (es ! j)) (uk (es ! a)) \<noteq> 0)"
      (is "_ \<longleftrightarrow> ?R") if a: "?n \<le> a" "a < length es" "visible s (es ! a)" "is_value (es ! a)" for a
    proof
      assume R: "?R"
      have "Compare user (uk (es ! j)) (uk (es ! a)) \<noteq> 0" if j: "j < ?n" "visible s (es ! j)" for j
      proof -
        have "j < length es" using j(1) a(1,2) by simp
        then have "Compare user (uk (es ! j)) t < 0" using vis j by blast
        moreover have "Compare user t (uk (es ! a)) \<le> 0"
          using before_seek_key(2) [OF wf_nth [OF e a(2)] sq] D [OF a(2)] a(1) by simp
        ultimately show ?thesis using user.less_le_trans by fastforce
      qed
      then have "Compare user (uk (es ! j)) (uk (es ! a)) \<noteq> 0" if "j < a" "visible s (es ! j)" for j
        using R that by (cases "?n \<le> j") simp_all
      then show "a \<in> set (ys es) \<and> ?n \<le> a" using a by (simp add: set_yield_list yields_def)
    qed (auto simp: set_yield_list yields_def)
    then have "seeking es ?n False (seek_key t) ?n" by (auto simp: seeking_def)
    then have "\<exists>d'. FindNextUserEntry f user False (?d\<lparr>di_iter := i\<rparr>) = Some d' \<and> di_at d' (view user s es) (upward es ?n)"
      by (intro FindNext_at [OF i(2) True]) simp_all
    then show ?thesis using i(1) base_Valid [OF i(2)] True b(2) u by (simp add: step)
  qed
qed

lemma di_get_at:
  assumes "di_at d vs m"
  shows "di_valid d \<longleftrightarrow> m < length vs" "m < length vs \<Longrightarrow> di_key f d = Some (fst (vs ! m))"
    "m < length vs \<Longrightarrow> di_value f d = Some (snd (vs ! m))" "di_get_status f d = OK" "m \<le> length vs"
proof -
  obtain es q where b: "base es d q" "vs = view user s es" "m \<le> length vs" "di_valid d = (m < length vs)"
    "m < length vs \<longrightarrow> (case di_direction d of
       kForward \<Rightarrow> q = ys es ! m
     | kReverse \<Rightarrow> saved_at es d (ys es ! m) \<and> behind es (uk (es ! (ys es ! m))) (remaining es q))"
    using assms unfolding di_at_def by blast
  have at: "at (di_iter d) es q" and e: "entries es" and st: "di_status d = OK" using b(1) by (simp_all add: base_def)
  show "di_valid d \<longleftrightarrow> m < length vs" "m \<le> length vs" using b by simp_all
  show "di_get_status f d = OK" using st status [OF at] by (simp add: di_get_status_def)
  assume m: "m < length vs"
  then have y: "m < length (ys es)" using b(2) by simp
  note v = view_nth [OF y]
  show "di_key f d = Some (fst (vs ! m))" "di_value f d = Some (snd (vs ! m))"
    using b(2,4,5) m v ys_nth [OF y] user_key_ok [OF at _ e] val [OF at]
    by (cases "di_direction d"; simp add: di_key_def di_value_def saved_at_def)+
qed

end

sublocale db_iterator \<subseteq> clients: cursor "Compare user" "DBIter_ops f user" "\<lambda>t. ok (seek_key t)" di_at
proof unfold_locales
  fix d vs m
  assume at: "di_at d vs m"
  obtain es q where b: "base es d q" "vs = view user s es" using at by (auto simp: di_at_def)
  have e: "entries es" and i: "at (di_iter d) es q" using b(1) by (simp_all add: base_def)
  show "m \<le> length vs" by (rule di_get_at(5) [OF at])
  show "user.sorted_entries vs"
    unfolding user.sorted_entries_def sorted_wrt_iff_nth_less
  proof (intro allI impI)
    fix a c
    assume ac: "a < c" "c < length vs"
    then have "a < length (ys es)" "c < length (ys es)" "ys es ! a < ys es ! c"
      using sorted_yield_list [of user s es] by (simp_all add: b(2) sorted_wrt_iff_nth_less)
    then show "Compare user (fst (vs ! a)) (fst (vs ! c)) < 0"
      using ys_distinct [OF e] ys_nth by (simp add: b(2) view_nth)
  qed
  show "ok (seek_key (fst x))" if x: "x \<in> set vs" for x
  proof -
    obtain y where y: "y \<in> set (ys es)" "fst x = uk (es ! y)" using x by (auto simp: b(2) view_def)
    then have "es ! y \<in> set es" "y < length es" by (simp_all add: set_yield_list)
    then show ?thesis using ok_user [OF wf_nth [OF e] at_ok [OF i]] y(2) by (simp add: seek_key_def)
  qed
qed (simp_all add: DBIter_ops_def di_get_at di_Next_at di_Prev_at di_Seek_at di_SeekToFirst_at di_SeekToLast_at)

context db_iterator
begin

lemma NewDBIterator_at:
  assumes "at i es n" "\<And>e. e \<in> set es \<Longrightarrow> wf_entry e" "s \<le> kMaxSequenceNumber"
  shows "di_at (NewDBIterator i s seed) (view user s es) (length (view user s es))"
proof -
  have d: "di_iter (NewDBIterator i s seed) = i" "di_sequence (NewDBIterator i s seed) = s"
      "di_status (NewDBIterator i s seed) = OK" "\<not> di_valid (NewDBIterator i s seed)"
    by (simp_all add: NewDBIterator_def split: prod.split)
  have "base es (NewDBIterator i s seed) n"
    using assms at_sorted [OF assms(1)] NewDBIterator_seed by (simp add: base_def entries_def d)
  from di_at_invalid [OF this d(4)] show ?thesis by simp
qed

end

end
