(* ===== verification/DbReadProps.thy ===== *)
theory DbReadProps
  imports DbRead DbIterProps MemTableSpec
begin

text \<open>
  What a client reads through \<open>DB::NewIterator\<close>. The iterator of a memtable is a cursor on its writes,
  the children of the internal iterator are, and so is the iterator of the client on the view of the
  snapshot, which holds every key whose newest write that is seen is a value.
\<close>

section \<open>The iterator of a memtable\<close>

fun internal_entry :: "mem_write \<Rightarrow> entry" where
  "internal_entry (s, t, k, v) = (AppendInternalKey [] \<lparr>user_key = k, sequence = s, key_type = t\<rparr>, v)"

definition stored_entry :: "u8 list \<Rightarrow> entry" where
  "stored_entry b = (fst (the (mem_slice b)), fst (the (mem_slice (snd (the (mem_slice b))))))"

definition seekable :: "u8 list \<Rightarrow> bool" where
  "seekable k \<longleftrightarrow> length k < 2 ^ 32"

lemma entry_slices:
  assumes "write_ok w"
  obtains rest where "mem_slice (entry_of w) = Some (fst (internal_entry w), rest)" "mem_slice rest = Some (snd (internal_entry w), [])"
proof -
  obtain s t k v where w: "w = (s, t, k, v)" by (cases w)
  have ok: "length k + 8 < 2 ^ 32" "length v < 2 ^ 32" using assms unfolding w by simp_all
  have i: "internal_entry w = (k @ EncodeFixed64 (PackSequenceAndType s t), v)" "entry_of w = mem_entry s t k v"
    unfolding w by (simp_all add: AppendInternalKey_def PutFixed64_def)
  show ?thesis
    by (rule that [of "EncodeVarint32 (of_nat (length v)) @ v"])
      (use mem_entry_slice [OF ok(1)] mem_slice_Encode [OF ok(2), of "[]"] in \<open>simp_all add: i\<close>)
qed

lemma seekable_entry: "write_ok w \<Longrightarrow> seekable (fst (internal_entry w))"
  by (cases w) (simp add: AppendInternalKey_def PutFixed64_def seekable_def)

lemma stored_entry_of: "write_ok w \<Longrightarrow> stored_entry (entry_of w) = internal_entry w"
  by (rule entry_slices [of w]) (simp_all add: stored_entry_def)

lemma mem_compare_stored:
  "mem_compare BytewiseComparator a b = Compare (InternalKeyComparator BytewiseComparator) (fst (stored_entry a)) (fst (stored_entry b))"
  by (simp add: mem_compare_def stored_entry_def)

lemma mem_compare_key:
  assumes "seekable k"
  shows "mem_compare BytewiseComparator a (EncodeKey k) = Compare (InternalKeyComparator BytewiseComparator) (fst (stored_entry a)) k"
  using assms mem_slice_Encode [of k "[]"]
  by (simp add: mem_compare_def stored_entry_def EncodeKey_def PutVarint32_def seekable_def)

definition mem_at :: "MemTableIterator \<Rightarrow> entry list \<Rightarrow> nat \<Rightarrow> bool" where
  "mem_at i es n \<longleftrightarrow>
     (\<exists>chain. sl_inv (mem_compare BytewiseComparator) (mt_table i) chain \<and>
       (\<forall>x \<in> set chain. \<exists>w. write_ok w \<and> sl_key (mt_table i) x = entry_of w) \<and>
       es = map (\<lambda>x. stored_entry (sl_key (mt_table i) x)) chain \<and> n \<le> length chain \<and>
       mt_node i = (if n < length chain then Some (chain ! n) else None))"

lemma mem_atI:
  assumes "sl_inv (mem_compare BytewiseComparator) mem chain" "\<forall>x \<in> set chain. \<exists>w. write_ok w \<and> sl_key mem x = entry_of w"
    and "n \<le> length chain" "node = (if n < length chain then Some (chain ! n) else None)"
  shows "mem_at \<lparr>mt_table = mem, mt_node = node\<rparr> (map (\<lambda>x. stored_entry (sl_key mem x)) chain) n"
  using assms unfolding mem_at_def by auto

lemma first_drop: "first (drop n chain) None = (if n < length chain then Some (chain ! n) else None)"
  by (cases "n < length chain") (simp_all add: Cons_nth_drop_Suc [symmetric])

lemma mem_iterator: "cursor (Compare (InternalKeyComparator BytewiseComparator)) (mem_iter_ops BytewiseComparator) seekable mem_at"
proof (intro cursor.intro cursor_axioms.intro)
  show "key_order (Compare (InternalKeyComparator BytewiseComparator))" by (rule internal.key_order_axioms)
  fix i es n
  assume "mem_at i es n"
  then obtain chain where c: "sl_inv (mem_compare BytewiseComparator) (mt_table i) chain"
      "\<forall>x \<in> set chain. \<exists>w. write_ok w \<and> sl_key (mt_table i) x = entry_of w"
      "es = map (\<lambda>x. stored_entry (sl_key (mt_table i) x)) chain" "n \<le> length chain"
      "mt_node i = (if n < length chain then Some (chain ! n) else None)" by (auto simp: mem_at_def)
  let ?mem = "mt_table i" and ?f = "mem_iter_ops BytewiseComparator"
  have at: "mem_at (i\<lparr>mt_node := node\<rparr>) es q" if "q \<le> length chain" "node = (if q < length chain then Some (chain ! q) else None)" for q node
    using mem_atI [OF c(1,2) that] c(3) by (cases i) simp
  show "n \<le> length es" using c(3,4) by simp
  show "internal.sorted_entries es"
    using c(1) unfolding internal.sorted_entries_def c(3) sorted_wrt_map mem_compare_stored [symmetric] by (simp only: sl_inv_def)
  show "seekable (fst e)" if e: "e \<in> set es" for e
  proof -
    obtain x where x: "x \<in> set chain" "e = stored_entry (sl_key ?mem x)" using e c(3) by auto
    then obtain w where "write_ok w" "sl_key ?mem x = entry_of w" using c(2) by blast
    then show ?thesis using x(2) stored_entry_of seekable_entry by simp
  qed
  show "op_Valid ?f i \<longleftrightarrow> n < length es" using c(3,5) by (simp add: mem_iter_ops_def it_Valid_def)
  show "op_status ?f i = OK" by (simp add: mem_iter_ops_def)
  show "\<exists>i'. op_SeekToFirst ?f i = Some i' \<and> mem_at i' es 0"
    using it_SeekToFirst_result [OF c(1)] at [of 0] first_drop [of 0 chain] by (simp add: mem_iter_ops_def mt_move_def)
  show "\<exists>i'. op_SeekToLast ?f i = Some i' \<and> mem_at i' es (step_back (length es) (length es))"
    using it_SeekToLast_result [OF c(1)] at [of "length chain - 1"] at [of 0 None] c(3)
    by (cases "chain = []") (simp_all add: mem_iter_ops_def mt_move_def step_back_def last_conv_nth)
  show "\<exists>i'. op_Seek ?f k i = Some i' \<and> mem_at i' es (cut (\<lambda>e. Compare (InternalKeyComparator BytewiseComparator) (fst e) k < 0) es)"
    if k: "seekable k" for k
  proof -
    let ?P = "\<lambda>x. mem_compare BytewiseComparator (sl_key ?mem x) (EncodeKey k) < 0"
    have cut: "cut (\<lambda>e. Compare (InternalKeyComparator BytewiseComparator) (fst e) k < 0) es = length (takeWhile ?P chain)"
      by (simp add: cut_def c(3) takeWhile_map comp_def mem_compare_key [OF k])
    have "dropWhile ?P chain = drop (length (takeWhile ?P chain)) chain" by (rule dropWhile_eq_drop)
    then have "mem_Seek BytewiseComparator ?mem k = Some (first (drop (length (takeWhile ?P chain)) chain) None)"
      using key_order.it_Seek_result [OF mem_key_order c(1), of "EncodeKey k"] by (simp add: mem_Seek_def)
    then show ?thesis
      unfolding cut using at [of "length (takeWhile ?P chain)"] first_drop [of "length (takeWhile ?P chain)" chain]
      by (simp add: mem_iter_ops_def mt_move_def length_takeWhile_le)
  qed
  assume n: "n < length es"
  then have n': "n < length chain" using c(3) by simp
  have node: "mt_node i = Some (chain ! n)" using c(5) n' by simp
  have split: "take n chain @ chain ! n # drop (Suc n) chain = chain" using n' by (rule id_take_nth_drop [symmetric])
  obtain w where w: "write_ok w" "sl_key ?mem (chain ! n) = entry_of w" using c(2) n' by (meson nth_mem)
  obtain rest where sl: "mem_slice (entry_of w) = Some (fst (internal_entry w), rest)" "mem_slice rest = Some (snd (internal_entry w), [])"
    by (rule entry_slices [OF w(1)])
  show "op_key ?f i = Some (fst (es ! n))"
    using c(3) n' node w sl by (simp add: mem_iter_ops_def mem_key_def it_key_def stored_entry_of)
  show "op_value ?f i = Some (snd (es ! n))"
    using c(3) n' node w sl by (simp add: mem_iter_ops_def mem_value_def it_key_def stored_entry_of)
  show "\<exists>i'. op_Next ?f i = Some i' \<and> mem_at i' es (Suc n)"
    using it_Next_result [of "mem_compare BytewiseComparator" ?mem "take n chain" "chain ! n" "drop (Suc n) chain"] c(1) node
      at [of "Suc n"] first_drop [of "Suc n" chain] n' by (simp add: mem_iter_ops_def mt_move_def split)
  have prev: "it_Prev (mem_compare BytewiseComparator) ?mem (Some (chain ! n)) =
      Some (if take n chain = [] then None else Some (last (take n chain)))"
    by (rule key_order.it_Prev_result [OF mem_key_order, where ys = "drop (Suc n) chain"]) (simp only: split c(1))
  show "\<exists>i'. op_Prev ?f i = Some i' \<and> mem_at i' es (step_back (length es) n)"
  proof (cases n)
    case 0
    then show ?thesis using prev node c(3) at [of "length chain"] by (simp add: mem_iter_ops_def mt_move_def step_back_def)
  next
    case (Suc m)
    then have "last (take n chain) = chain ! m" "chain \<noteq> []" "n \<noteq> 0" using n' by (auto simp: take_Suc_conv_app_nth)
    then show ?thesis using prev node c(3) at [of m] n' Suc by (simp add: mem_iter_ops_def mt_move_def step_back_def)
  qed
qed

interpretation mem_cursor: merging "InternalKeyComparator BytewiseComparator" "mem_iter_ops BytewiseComparator" seekable mem_at
  unfolding merging_def by (rule mem_iterator)

section \<open>Writes and views\<close>

lemma internal_entry_facts:
  assumes "write_ok (q, t, k, v)"
  shows "wf_entry (internal_entry (q, t, k, v))" "ikey (internal_entry (q, t, k, v)) = \<lparr>user_key = k, sequence = q, key_type = t\<rparr>"
proof -
  have q: "q \<le> kMaxSequenceNumber" using assms by simp
  then show "wf_entry (internal_entry (q, t, k, v))" by (auto simp: wf_entry_def intro!: exI [of _ "\<lparr>user_key = k, sequence = q, key_type = t\<rparr>"])
  show "ikey (internal_entry (q, t, k, v)) = \<lparr>user_key = k, sequence = q, key_type = t\<rparr>"
    using Parse_Append [OF q] by (simp add: ikey_def)
qed

lemma internal_entries_differ:
  assumes "write_ok w" "write_ok w'" "fst w \<noteq> fst w'"
  shows "Compare (InternalKeyComparator BytewiseComparator) (fst (internal_entry w)) (fst (internal_entry w')) \<noteq> 0"
  using entries_differ [OF assms] unfolding mem_compare_stored stored_entry_of [OF assms(1)] stored_entry_of [OF assms(2)] .

text \<open>The keys that a snapshot shows, with the values of their newest writes that it sees.\<close>

definition shown :: "mem_write list \<Rightarrow> u64 \<Rightarrow> entry set" where
  "shown ws s = {(k, v). \<exists>q. (q, kTypeValue, k, v) \<in> seen ws k s \<and> (\<forall>w \<in> seen ws k s. fst w \<le> q)}"

lemma shown_filter:
  "shown ws s = (\<lambda>(q, t, k, v). (k, v)) ` set (filter (\<lambda>(q, t, k, v). t = kTypeValue \<and> q \<le> s \<and>
     list_all (\<lambda>(q', t', k', v'). k' = k \<and> q' \<le> s \<longrightarrow> q' \<le> q) ws) ws)" (is "_ = ?R")
proof -
  have "(k, v) \<in> shown ws s \<longleftrightarrow> (k, v) \<in> ?R" for k v
  proof
    assume "(k, v) \<in> shown ws s"
    then obtain q where q: "(q, kTypeValue, k, v) \<in> seen ws k s" "\<forall>w \<in> seen ws k s. fst w \<le> q" by (auto simp: shown_def)
    have "list_all (\<lambda>(q', t', k', v'). k' = k \<and> q' \<le> s \<longrightarrow> q' \<le> q) ws"
      unfolding list_all_iff
    proof
      fix w
      assume w: "w \<in> set ws"
      obtain q' t' k' v' where e: "w = (q', t', k', v')" by (rule prod_cases4)
      show "case w of (q', t', k', v') \<Rightarrow> k' = k \<and> q' \<le> s \<longrightarrow> q' \<le> q"
        using w bspec [OF q(2), of w] by (simp add: e seen_def)
    qed
    then show "(k, v) \<in> ?R" using q(1) by (force simp: seen_def)
  next
    assume "(k, v) \<in> ?R"
    then obtain q where q: "(q, kTypeValue, k, v) \<in> set ws" "q \<le> s"
        "list_all (\<lambda>(q', t', k', v'). k' = k \<and> q' \<le> s \<longrightarrow> q' \<le> q) ws" by auto
    have "fst w \<le> q" if "w \<in> seen ws k s" for w using q(3) that by (auto simp: seen_def list_all_iff)
    then show "(k, v) \<in> shown ws s" using q(1,2) by (auto simp: shown_def seen_def)
  qed
  note iff = this
  show ?thesis
  proof (rule set_eqI)
    fix x :: entry
    obtain k v where x: "x = (k, v)" by (rule prod.exhaust)
    show "x \<in> shown ws s \<longleftrightarrow> x \<in> ?R" unfolding x by (rule iff)
  qed
qed

lemma set_view:
  assumes "internal.sorted_entries es" "set es = internal_entry ` set ws" "distinct (map fst ws)" "\<And>w. w \<in> set ws \<Longrightarrow> write_ok w"
  shows "set (view BytewiseComparator s es) = shown ws s"
proof -
  have inj: "inj_on fst (set ws)" using assms(3) by (simp add: distinct_map)
  have nth: "\<exists>q t k v. (q, t, k, v) \<in> set ws \<and> es ! i = internal_entry (q, t, k, v)" if i: "i < length es" for i
  proof -
    obtain w where "w \<in> set ws" "es ! i = internal_entry w" using nth_mem [OF i] assms(2) by blast
    moreover obtain q t k v where "w = (q, t, k, v)" by (rule prod_cases4)
    ultimately show ?thesis by blast
  qed
  have facts: "uk (internal_entry (q, t, k, v)) = k" "visible s (internal_entry (q, t, k, v)) \<longleftrightarrow> q \<le> s"
      "is_value (internal_entry (q, t, k, v)) \<longleftrightarrow> t = kTypeValue" "snd (internal_entry (q, t, k, v)) = v"
    if "(q, t, k, v) \<in> set ws" for q t k v
    using internal_entry_facts(2) [OF assms(4) [OF that]] by (simp_all add: visible_def is_value_def del: internal_entry.simps, simp)
  have order: "q \<le> q'" if "i < j" "j < length es" "es ! j = internal_entry (q, t, k, v)" "es ! i = internal_entry (q', t', k, v')"
      "(q, t, k, v) \<in> set ws" "(q', t', k, v') \<in> set ws" for i j q t k v q' t' v'
  proof -
    have "Compare (InternalKeyComparator BytewiseComparator) (fst (es ! i)) (fst (es ! j)) < 0"
      using internal.sorted_entries_nth [OF assms(1) that(1,2)] .
    then have "PackSequenceAndType q t < PackSequenceAndType q' t'"
      by (simp add: that(3,4) AppendInternalKey_def PutFixed64_def bytewise.internal_less_iff)
    then show ?thesis using Pack_less [of q' q t' t] assms(4) [OF that(5)] assms(4) [OF that(6)] by (fastforce simp: not_le [symmetric])
  qed
  have "(k, v) \<in> set (view BytewiseComparator s es) \<longleftrightarrow> (k, v) \<in> shown ws s" for k v
  proof
    assume "(k, v) \<in> set (view BytewiseComparator s es)"
    then obtain i where i: "i < length es" "yields BytewiseComparator s es i" "k = uk (es ! i)" "v = snd (es ! i)"
      by (auto simp: view_def set_yield_list)
    then obtain q t where w: "(q, t, k, v) \<in> set ws" "es ! i = internal_entry (q, t, k, v)" using nth [of i] facts by fastforce
    then have t: "t = kTypeValue" "q \<le> s" using i(2) facts [OF w(1)] by (auto simp: yields_def)
    have "q' \<le> q" if w': "(q', t', k, v') \<in> set ws" "q' \<le> s" for q' t' v'
    proof -
      obtain j where j: "j < length es" "es ! j = internal_entry (q', t', k, v')"
        using w'(1) assms(2) by (metis imageI in_set_conv_nth)
      have "\<not> j < i" using i(2) facts [OF w'(1)] facts [OF w(1)] j(2) w(2) w'(2) by (auto simp: yields_def slice_compare_eq)
      then consider "i = j" | "i < j" by linarith
      then show ?thesis
      proof cases
        case 1
        then have "ikey (internal_entry (q', t', k, v')) = ikey (internal_entry (q, t, k, v))" using j(2) w(2) by metis
        then show ?thesis
          unfolding internal_entry_facts(2) [OF assms(4) [OF w(1)]] internal_entry_facts(2) [OF assms(4) [OF w'(1)]] by simp
      next
        case 2
        then show ?thesis using order [OF 2 j(1) j(2) w(2) w'(1) w(1)] by simp
      qed
    qed
    then show "(k, v) \<in> shown ws s" using w(1) t by (auto simp: shown_def seen_def)
  next
    assume "(k, v) \<in> shown ws s"
    then obtain q where seen: "(q, kTypeValue, k, v) \<in> seen ws k s" "\<forall>w \<in> seen ws k s. fst w \<le> q"
      by (auto simp: shown_def)
    have q: "(q, kTypeValue, k, v) \<in> set ws" "q \<le> s" "\<And>w. w \<in> seen ws k s \<Longrightarrow> fst w \<le> q"
      using seen(1) bspec [OF seen(2)] by (simp_all add: seen_def)
    obtain i where i: "i < length es" "es ! i = internal_entry (q, kTypeValue, k, v)" using q(1) assms(2) by (metis imageI in_set_conv_nth)
    have "Compare BytewiseComparator (uk (es ! j)) (uk (es ! i)) \<noteq> 0" if j: "j < i" "visible s (es ! j)" for j
    proof
      assume eq: "Compare BytewiseComparator (uk (es ! j)) (uk (es ! i)) = 0"
      obtain q' t' k' v' where w': "(q', t', k', v') \<in> set ws" "es ! j = internal_entry (q', t', k', v')" using nth [of j] i(1) j(1) by auto
      have k': "k' = k" "q' \<le> s" using eq facts [OF w'(1)] facts [OF q(1)] i(2) j(2) w'(2) by (simp_all add: slice_compare_eq)
      then have "q' \<le> q" using q(3) [of "(q', t', k', v')"] w'(1) by (auto simp: seen_def)
      moreover have "q \<le> q'" using order [OF j(1) i(1) i(2) _ q(1)] w' k'(1) by simp
      ultimately have "(q', t', k', v') = (q, kTypeValue, k, v)" using inj_onD [OF inj _ w'(1) q(1)] by simp
      then have "es ! j = es ! i" using w'(2) i(2) by simp
      then show False using internal.sorted_entries_nth [OF assms(1) j(1) i(1)] by (simp only: internal.refl)
    qed
    then have "yields BytewiseComparator s es i" using q(2) i(2) facts [OF q(1)] by (simp add: yields_def)
    then show "(k, v) \<in> set (view BytewiseComparator s es)"
      using i facts [OF q(1)] by (auto simp: view_def set_yield_list image_iff intro!: bexI [of _ i])
  qed
  then show ?thesis by auto
qed

section \<open>The database\<close>

lemma new_mem_at:
  assumes "holds mem ws"
  shows "\<exists>es. mem_at (MemTable_NewIterator mem) es (length es) \<and> set es = internal_entry ` set ws"
proof -
  obtain chain where c: "sl_inv (mem_compare BytewiseComparator) mem chain" "sl_key mem ` set chain = entry_of ` set ws"
      and ok: "\<forall>w \<in> set ws. write_ok w"
    using assms by (auto simp: holds_def sl_represents_def sl_abs_def)
  have "\<exists>w. write_ok w \<and> sl_key mem x = entry_of w" if "x \<in> set chain" for x
  proof -
    have "sl_key mem x \<in> entry_of ` set ws" using c(2) that by blast
    then show ?thesis using ok by blast
  qed
  then have "mem_at (MemTable_NewIterator mem) (map (\<lambda>x. stored_entry (sl_key mem x)) chain) (length chain)"
    unfolding MemTable_NewIterator_def by (intro mem_atI [OF c(1)]) simp_all
  moreover have "stored_entry ` sl_key mem ` set chain = internal_entry ` set ws"
    unfolding c(2) image_image using ok by (auto simp: stored_entry_of simp del: internal_entry.simps intro!: image_cong)
  ultimately show ?thesis by (intro exI [of _ "map (\<lambda>x. stored_entry (sl_key mem x)) chain"]) (simp add: image_image)
qed

lemma distinct_concat_nth:
  assumes "distinct (concat xss)" "c < d" "d < length xss"
  shows "set (xss ! c) \<inter> set (xss ! d) = {}"
  using assms
proof (induction xss arbitrary: c d)
  case (Cons xs xss)
  then obtain d' where d: "d = Suc d'" "d' < length xss" by (cases d) auto
  show ?case
  proof (cases c)
    case 0
    have "set (xss ! d') \<subseteq> \<Union> (set ` set xss)" using nth_mem [OF d(2)] by blast
    then show ?thesis using Cons.prems(1) d 0 by auto
  next
    case (Suc c')
    then show ?thesis using Cons.IH [of c' d'] Cons.prems d by simp
  qed
qed simp

lemma list_choice:
  assumes "\<And>d. d < n \<Longrightarrow> \<exists>x. P d x"
  shows "\<exists>xs. length xs = n \<and> (\<forall>d < n. P d (xs ! d))"
proof -
  have "\<exists>g. \<forall>d. d < n \<longrightarrow> P d (g d)" using assms by metis
  then obtain g where "\<forall>d. d < n \<longrightarrow> P d (g d)" by blast
  then show ?thesis by (intro exI [of _ "map g [0..<n]"]) simp
qed

lemma Union_nth: "(\<Union>l \<in> set xss. set l) = (\<Union>d < length xss. set (xss ! d))"
proof -
  have "set xss = (!) xss ` {..<length xss}" by (auto simp: set_conv_nth)
  then show ?thesis by simp
qed

text \<open>The iterators of the table files keep the contract.\<close>

locale db_reader = tables: cursor "Compare (InternalKeyComparator BytewiseComparator)" ft seekable at
  for ft :: "'x Iterator" and at :: "'x \<Rightarrow> entry list \<Rightarrow> nat \<Rightarrow> bool"
begin

definition child_at :: "'x child \<Rightarrow> entry list \<Rightarrow> nat \<Rightarrow> bool" where
  "child_at c es n = child_get (\<lambda>m. mem_at m es n) (\<lambda>x. at x es n) c"

lemmas child_defs = child_at_def child_ops_def child_get_def child_move_def Let_def

end

sublocale db_reader \<subseteq> child: merging "InternalKeyComparator BytewiseComparator" "child_ops ft BytewiseComparator" seekable child_at
proof unfold_locales
  fix c es n
  let ?f = "child_ops ft BytewiseComparator"
  assume at: "child_at c es n"
  show "n \<le> length es" using at tables.at_le mem_cursor.at_le by (cases c) (auto simp: child_defs)
  show "internal.sorted_entries es"
    using at tables.at_sorted mem_cursor.at_sorted by (cases c) (simp_all only: child_at_def child_get_def child.case)
  show "seekable (fst e)" if "e \<in> set es" for e using at tables.at_ok mem_cursor.at_ok that by (cases c) (auto simp: child_defs)
  show "op_Valid ?f c \<longleftrightarrow> n < length es" using at tables.Valid mem_cursor.Valid by (cases c) (auto simp: child_defs)
  show "op_status ?f c = OK" using at tables.status mem_cursor.status by (cases c) (auto simp: child_defs)
  show "n < length es \<Longrightarrow> op_key ?f c = Some (fst (es ! n))" using at tables.key mem_cursor.key by (cases c) (auto simp: child_defs)
  show "n < length es \<Longrightarrow> op_value ?f c = Some (snd (es ! n))" using at tables.val mem_cursor.val by (cases c) (auto simp: child_defs)
  show "n < length es \<Longrightarrow> \<exists>c'. op_Next ?f c = Some c' \<and> child_at c' es (Suc n)"
    using at tables.Next mem_cursor.Next by (cases c) (fastforce simp: child_defs)+
  show "n < length es \<Longrightarrow> \<exists>c'. op_Prev ?f c = Some c' \<and> child_at c' es (step_back (length es) n)"
    using at tables.Prev mem_cursor.Prev by (cases c) (fastforce simp: child_defs)+
  show "seekable k \<Longrightarrow> \<exists>c'. op_Seek ?f k c = Some c' \<and>
      child_at c' es (cut (\<lambda>e. Compare (InternalKeyComparator BytewiseComparator) (fst e) k < 0) es)" for k
    using at tables.Seek mem_cursor.Seek by (cases c) (fastforce simp: child_defs)+
  show "\<exists>c'. op_SeekToFirst ?f c = Some c' \<and> child_at c' es 0"
    using at tables.SeekToFirst mem_cursor.SeekToFirst by (cases c) (fastforce simp: child_defs)+
  show "\<exists>c'. op_SeekToLast ?f c = Some c' \<and> child_at c' es (step_back (length es) (length es))"
    using at tables.SeekToLast mem_cursor.SeekToLast by (cases c) (fastforce simp: child_defs)+
qed

sublocale db_reader \<subseteq> reader: db_iterator BytewiseComparator "internal_ops ft BytewiseComparator" seekable child.merged_at s for s :: u64
  unfolding internal_ops_def
proof (intro db_iterator.intro db_iterator_axioms.intro)
  show "cursor (Compare (InternalKeyComparator BytewiseComparator)) (merged_ops (child_ops ft BytewiseComparator) (InternalKeyComparator BytewiseComparator))
      seekable child.merged_at" by (rule child.made.cursor_axioms)
  show "comparator BytewiseComparator" by (rule bytewise.comparator_axioms)
  fix e
  assume e: "wf_entry e" "seekable (fst e)"
  have "length (ExtractUserKey (fst e)) = length (fst e) - 8" by (simp add: ExtractUserKey_def)
  with e show "seekable (AppendInternalKey [] \<lparr>user_key = uk e, sequence = s, key_type = kValueTypeForSeek\<rparr>)"
    using wf_entry_facts(2,3) [of e] by (auto simp: seekable_def AppendInternalKey_def PutFixed64_def)
qed

interpretation mem_reader: db_reader "mem_iter_ops BytewiseComparator" mem_at
  unfolding db_reader_def by (rule mem_iterator)

context db_reader
begin

lemma merged_children:
  assumes "length children = length wss" "\<And>d. d < length wss \<Longrightarrow> \<exists>es. child_at (children ! d) es (length es) \<and> set es = internal_entry ` set (wss ! d)"
    and "distinct (map fst (concat wss))" "\<And>w. w \<in> set (concat wss) \<Longrightarrow> write_ok w"
  shows "\<exists>m es. NewMergingIterator (child_ops ft BytewiseComparator) children = Some m \<and> child.merged_at m es (length es) \<and>
    internal.sorted_entries es \<and> set es = internal_entry ` set (concat wss)"
proof -
  obtain ess where ess: "length ess = length wss"
      "\<forall>d < length wss. child_at (children ! d) (ess ! d) (length (ess ! d)) \<and> set (ess ! d) = internal_entry ` set (wss ! d)"
    using list_choice [of "length wss"
        "\<lambda>d es. child_at (children ! d) es (length es) \<and> set es = internal_entry ` set (wss ! d)"] assms(2) by blast
  have differ: "Compare (InternalKeyComparator BytewiseComparator) (fst (internal_entry w)) (fst (internal_entry w')) \<noteq> 0"
    if "w \<in> set (concat wss)" "w' \<in> set (concat wss)" "fst w \<noteq> fst w'" for w w'
    by (rule internal_entries_differ [OF assms(4) [OF that(1)] assms(4) [OF that(2)] that(3)])
  have inj: "inj_on fst (set (concat wss))" using assms(3) unfolding distinct_map by blast
  have "\<exists>es. internal.sorted_entries es \<and> set es = internal_entry ` set (concat wss)"
  proof (rule internal.sorted_entries_exist)
    fix x y
    assume "x \<in> internal_entry ` set (concat wss)" "y \<in> internal_entry ` set (concat wss)" "x \<noteq> y"
    then obtain w w' where w: "w \<in> set (concat wss)" "w' \<in> set (concat wss)" "x = internal_entry w" "y = internal_entry w'" "w \<noteq> w'" by blast
    then have "fst w \<noteq> fst w'" using inj_onD [OF inj] by blast
    then show "Compare (InternalKeyComparator BytewiseComparator) (fst x) (fst y) \<noteq> 0" using differ w by blast
  qed simp
  then obtain es where es: "internal.sorted_entries es" "set es = internal_entry ` set (concat wss)" by blast
  have sep: "Compare (InternalKeyComparator BytewiseComparator) (fst x) (fst y) \<noteq> 0"
    if cd: "c < length ess" "d < length ess" "c \<noteq> d" "x \<in> set (ess ! c)" "y \<in> set (ess ! d)" for c d x y
  proof -
    have "set (ess ! c) = internal_entry ` set (wss ! c)" "set (ess ! d) = internal_entry ` set (wss ! d)" using ess cd(1,2) by simp_all
    then obtain w w' where w: "w \<in> set (wss ! c)" "w' \<in> set (wss ! d)" "x = internal_entry w" "y = internal_entry w'" using cd(4,5) by blast
    have "distinct (concat (map (map fst) wss))" using assms(3) by (simp add: map_concat)
    then have "set (map fst (wss ! c)) \<inter> set (map fst (wss ! d)) = {}"
      using distinct_concat_nth [of "map (map fst) wss" c d] distinct_concat_nth [of "map (map fst) wss" d c] cd(1-3) ess(1)
      by (cases "c < d") auto
    then have "fst w \<noteq> fst w'" using w(1,2) by fastforce
    moreover have "w \<in> set (concat wss)" "w' \<in> set (concat wss)"
      using w(1,2) cd(1,2) ess(1) nth_mem [of c wss] nth_mem [of d wss] by auto
    ultimately show ?thesis using differ w(3,4) by blast
  qed
  have "(\<Union>l \<in> set ess. set l) = set es"
  proof -
    have "(\<Union>l \<in> set ess. set l) = (\<Union>d < length wss. internal_entry ` set (wss ! d))"
      unfolding Union_nth using ess by simp
    also have "\<dots> = internal_entry ` (\<Union>l \<in> set wss. set l)" unfolding Union_nth by (simp add: image_UN)
    finally show ?thesis using es(2) by simp
  qed
  then have "child.merges ess es" using es(1) sep unfolding child.merges_def by blast
  from child.NewMergingIterator_ok [OF this] show ?thesis using ess assms(1) es by metis
qed

end

context db_reader
begin

lemma NewIterator_at:
  fixes db :: "'f db"
  assumes "holds (db_mem db) wm" "case db_imm db of None \<Rightarrow> wi = [] | Some imm \<Rightarrow> holds imm wi"
    and "length tables = length wts"
    and "\<And>d. d < length wts \<Longrightarrow> \<exists>es. at (tables ! d) es (length es) \<and> set es = internal_entry ` set (wts ! d)"
    and "distinct (map fst (wm @ wi @ concat wts))" "\<And>w. w \<in> set (wm @ wi @ concat wts) \<Longrightarrow> write_ok w"
    and "s = (case snapshot of Some q \<Rightarrow> q | None \<Rightarrow> db_last_sequence db)" "s \<le> kMaxSequenceNumber"
  shows "\<exists>it vs. DBImpl_NewIterator ft BytewiseComparator tables seed snapshot db = Some it \<and>
    reader.di_at s it vs (length vs) \<and> set vs = shown (wm @ wi @ concat wts) s"
proof -
  define wis where "wis = (case db_imm db of None \<Rightarrow> [] | Some imm \<Rightarrow> [wi])"
  define mems where "mems = db_mem db # (case db_imm db of None \<Rightarrow> [] | Some imm \<Rightarrow> [imm])"
  let ?wss = "wm # wis @ wts"
  let ?children = "map (\<lambda>m. MemChild (MemTable_NewIterator m)) mems @ map TableChild tables"
  have imm: "concat wis = wi" "length mems = Suc (length wis)" "\<And>d. d < length mems \<Longrightarrow> holds (mems ! d) ((wm # wis) ! d)"
    using assms(1,2) by (auto simp: wis_def mems_def nth_Cons split: option.splits nat.splits)
  have all: "concat ?wss = wm @ wi @ concat wts" using imm(1) by simp
  have kids: "\<exists>es. child_at (?children ! d) es (length es) \<and> set es = internal_entry ` set (?wss ! d)" if d: "d < length ?wss" for d
  proof (cases "d < length mems")
    case True
    then have "?wss ! d = (wm # wis) ! d" using imm(2) nth_append [of "wm # wis" wts d] by simp
    then show ?thesis using new_mem_at [OF imm(3) [OF True]] True by (simp add: nth_append child_at_def child_get_def)
  next
    case False
    then have j: "d - length mems < length wts" "?wss ! d = wts ! (d - length mems)" "?children ! d = TableChild (tables ! (d - length mems))"
      using d imm(2) assms(3) by (auto simp: nth_append nth_Cons split: nat.split)
    then show ?thesis using assms(4) [OF j(1)] by (simp add: child_at_def child_get_def)
  qed
  have dist: "distinct (map fst (concat ?wss))" "\<And>w. w \<in> set (concat ?wss) \<Longrightarrow> write_ok w" using assms(5,6) unfolding all by blast+
  have len: "length ?children = length ?wss" using imm(2) assms(3) by simp
  obtain m es where m: "NewMergingIterator (child_ops ft BytewiseComparator) ?children = Some m" "child.merged_at m es (length es)"
      "internal.sorted_entries es" "set es = internal_entry ` set (wm @ wi @ concat wts)"
    using merged_children [OF len kids dist] unfolding all by blast
  have wf: "wf_entry e" if e: "e \<in> set es" for e
  proof -
    obtain w where "w \<in> set (wm @ wi @ concat wts)" "e = internal_entry w" by (rule imageE [OF e [unfolded m(4)]])
    moreover obtain q t k v where "w = (q, t, k, v)" by (rule prod_cases4)
    ultimately show ?thesis using internal_entry_facts(1) [of q t k v] assms(6) [of w] by blast
  qed
  have list: "MemChild (MemTable_NewIterator (db_mem db)) #
      (case db_imm db of None \<Rightarrow> [] | Some imm \<Rightarrow> [MemChild (MemTable_NewIterator imm)]) @ map TableChild tables = ?children"
    by (simp add: mems_def split: option.split)
  have "DBImpl_NewIterator ft BytewiseComparator tables seed snapshot db = Some (NewDBIterator m s (seed + 1))"
    unfolding DBImpl_NewIterator_def NewInternalIterator_def Let_def list m(1) assms(7) by simp
  moreover have "reader.di_at s (NewDBIterator m s (seed + 1)) (view BytewiseComparator s es) (length (view BytewiseComparator s es))"
    by (rule reader.NewDBIterator_at [OF m(2) wf assms(8)])
  moreover have "set (view BytewiseComparator s es) = shown (wm @ wi @ concat wts) s" by (rule set_view [OF m(3,4) assms(5,6)])
  ultimately show ?thesis by blast
qed

lemma NewIterator_run:
  fixes db :: "'f db"
  assumes "holds (db_mem db) wm" "case db_imm db of None \<Rightarrow> wi = [] | Some imm \<Rightarrow> holds imm wi"
    and "length tables = length wts"
    and "\<And>d. d < length wts \<Longrightarrow> \<exists>es. at (tables ! d) es (length es) \<and> set es = internal_entry ` set (wts ! d)"
    and "distinct (map fst (wm @ wi @ concat wts))" "\<And>w. w \<in> set (wm @ wi @ concat wts) \<Longrightarrow> write_ok w"
    and "s = (case snapshot of Some q \<Rightarrow> q | None \<Rightarrow> db_last_sequence db)" "s \<le> kMaxSequenceNumber"
    and "sorted_wrt (\<lambda>x y. slice_compare (fst x) (fst y) < 0) L" "set L = shown (wm @ wi @ concat wts) s"
    and "\<And>k. CallSeek k \<in> set cs \<Longrightarrow> length k + 8 < 2 ^ 32"
  shows "Option.bind (DBImpl_NewIterator ft BytewiseComparator tables seed snapshot db) (iter_run (client_ops ft BytewiseComparator) cs) =
    list_run slice_compare L cs (length L)"
proof -
  obtain it vs where it: "DBImpl_NewIterator ft BytewiseComparator tables seed snapshot db = Some it"
      "reader.di_at s it vs (length vs)" "set vs = shown (wm @ wi @ concat wts) s"
    using NewIterator_at [OF assms(1-8)] by blast
  have "bytewise.sorted_entries L" unfolding bytewise.sorted_entries_def using assms(9) by simp
  then have vs: "vs = L" using bytewise.sorted_entries_unique [OF reader.clients.at_sorted [OF it(2)]] it(3) assms(10) by blast
  have ok: "seekable (reader.seek_key s k)" if "CallSeek k \<in> set cs" for k
    using assms(11) [OF that] by (simp add: seekable_def reader.seek_key_def AppendInternalKey_def PutFixed64_def)
  show ?thesis using it(1) reader.clients.run_ok [OF it(2) ok] unfolding vs client_ops_def by simp
qed

end

text \<open>
  C40. An iterator of the database is a cursor on the snapshot: whatever the merging iterator has below
  it (the memtable, the immutable memtable if there is one, any number of table files whose iterators
  behave as cursors on their entries), every sequence of calls of \<open>SeekToFirst\<close>, \<open>SeekToLast\<close>, \<open>Seek\<close>,
  \<open>Next\<close> and \<open>Prev\<close> on it gives, call for call, what the same calls give on the sorted list of the keys
  whose newest write that the snapshot sees is a value, each with this value. No call fails or runs for
  ever, a deleted or overwritten entry never shows, and the status is OK.
\<close>

theorem iterator_reads_snapshot:
  fixes db :: "'f db"
  assumes "cursor (Compare (InternalKeyComparator BytewiseComparator)) ft seekable at"
    and "holds (db_mem db) wm" and "case db_imm db of None \<Rightarrow> wi = [] | Some imm \<Rightarrow> holds imm wi"
    and "length tables = length wts"
    and "\<And>d. d < length wts \<Longrightarrow> \<exists>es. at (tables ! d) es (length es) \<and> set es = internal_entry ` set (wts ! d)"
    and "distinct (map fst (wm @ wi @ concat wts))" and "\<And>w. w \<in> set (wm @ wi @ concat wts) \<Longrightarrow> write_ok w"
    and "s = (case snapshot of Some q \<Rightarrow> q | None \<Rightarrow> db_last_sequence db)" and "s \<le> kMaxSequenceNumber"
    and "sorted_wrt (\<lambda>x y. slice_compare (fst x) (fst y) < 0) L" and "set L = shown (wm @ wi @ concat wts) s"
    and "\<And>k. CallSeek k \<in> set cs \<Longrightarrow> length k + 8 < 2 ^ 32"
  shows "Option.bind (DBImpl_NewIterator ft BytewiseComparator tables seed snapshot db) (iter_run (client_ops ft BytewiseComparator) cs) =
    list_run slice_compare L cs (length L)"
  by (rule db_reader.NewIterator_run [OF db_reader.intro [OF assms(1)] assms(2-)])

definition example_db :: "memtable \<Rightarrow> memtable \<Rightarrow> u64 \<Rightarrow> unit db" where
  "example_db mem imm s =
     \<lparr>db_threads = [], db_writers = [], db_mem = mem, db_imm = Some imm, db_log = Writer () 0, db_log_number = 3,
      db_tmp_batch = WB_Clear, db_bg_error = OK, db_last_sequence = s, db_next_file = 4, db_prev_log = 0, db_l0_files = 0\<rparr>"

theorem iterator_reads_snapshot_witness:
  "\<exists>mem imm old.
     mem_adds BytewiseComparator [(7, kTypeValue, [3], [33]), (8, kTypeDeletion, [5], [])] MemTable = Some mem \<and>
     mem_adds BytewiseComparator [(5, kTypeValue, [5], [55]), (6, kTypeValue, [3], [30])] MemTable = Some imm \<and>
     mem_adds BytewiseComparator [(2, kTypeValue, [1], [11]), (3, kTypeValue, [6], [66])] MemTable = Some old \<and>
     Option.bind (DBImpl_NewIterator (mem_iter_ops BytewiseComparator) BytewiseComparator [MemTable_NewIterator old] 301 None (example_db mem imm 8))
       (iter_run (client_ops (mem_iter_ops BytewiseComparator) BytewiseComparator)
         [CallSeekToFirst, CallNext, CallNext, CallPrev, CallSeek [4], CallNext, CallSeekToLast]) =
     Some [(Some ([1], [11]), OK), (Some ([3], [33]), OK), (Some ([6], [66]), OK), (Some ([3], [33]), OK),
       (Some ([6], [66]), OK), (None, OK), (Some ([6], [66]), OK)]"
proof -
  let ?wm = "[(7, kTypeValue, [3], [33]), (8, kTypeDeletion, [5], [])] :: mem_write list"
  let ?wi = "[(5, kTypeValue, [5], [55]), (6, kTypeValue, [3], [30])] :: mem_write list"
  let ?wt = "[(2, kTypeValue, [1], [11]), (3, kTypeValue, [6], [66])] :: mem_write list"
  let ?L = "[([1], [11]), ([3], [33]), ([6], [66])] :: entry list"
  let ?cs = "[CallSeekToFirst, CallNext, CallNext, CallPrev, CallSeek [4], CallNext, CallSeekToLast]"
  have ok: "w \<in> set ?wm \<Longrightarrow> write_ok w" "w \<in> set ?wi \<Longrightarrow> write_ok w" "w \<in> set ?wt \<Longrightarrow> write_ok w"
      "w \<in> set (?wm @ ?wi @ concat [?wt]) \<Longrightarrow> write_ok w" for w
    by (auto simp: kMaxSequenceNumber_def)
  have dist: "distinct (map fst ?wm)" "distinct (map fst ?wi)" "distinct (map fst ?wt)" by simp_all
  obtain mem where mem: "mem_adds BytewiseComparator ?wm MemTable = Some mem" "holds mem ?wm" using mem_adds_all [OF dist(1) ok(1)] by blast
  obtain imm where imm: "mem_adds BytewiseComparator ?wi MemTable = Some imm" "holds imm ?wi" using mem_adds_all [OF dist(2) ok(2)] by blast
  obtain old where old: "mem_adds BytewiseComparator ?wt MemTable = Some old" "holds old ?wt" using mem_adds_all [OF dist(3) ok(3)] by blast
  have "shown (?wm @ ?wi @ concat [?wt]) 8 = set ?L" unfolding shown_filter by (simp add: insert_commute)
  then have L: "set ?L = shown (?wm @ ?wi @ concat [?wt]) 8" ..
  have tables: "\<exists>es. mem_at ([MemTable_NewIterator old] ! d) es (length es) \<and> set es = internal_entry ` set ([?wt] ! d)"
    if "d < length [?wt]" for d using new_mem_at [OF old(2)] that by simp
  have "Option.bind (DBImpl_NewIterator (mem_iter_ops BytewiseComparator) BytewiseComparator [MemTable_NewIterator old] 301 None (example_db mem imm 8))
      (iter_run (client_ops (mem_iter_ops BytewiseComparator) BytewiseComparator) ?cs) = list_run slice_compare ?L ?cs (length ?L)"
    by (rule iterator_reads_snapshot [OF mem_iterator _ _ _ tables _ ok(4) _ _ _ L])
      (use mem(2) imm(2) in \<open>auto simp: example_db_def kMaxSequenceNumber_def\<close>)
  moreover have "list_run slice_compare ?L ?cs (length ?L) =
      Some [(Some ([1], [11]), OK), (Some ([3], [33]), OK), (Some ([6], [66]), OK), (Some ([3], [33]), OK),
       (Some ([6], [66]), OK), (None, OK), (Some ([6], [66]), OK)]"
    by (simp add: Let_def cut_def step_back_def)
  ultimately show ?thesis using mem(1) imm(1) old(1) by (intro exI [of _ mem] exI [of _ imm] exI [of _ old]) simp
qed

end
