(* ===== verification/Spec2Isabelle.thy ===== *)
theory Spec2Isabelle
  imports WireRoundtrip Layout DecodeProps Base64Props CodingProps BloomSpec WriteBatchSpec LogProps VersionEditSpec BlockProps
    CacheRefine DbProps DbReadProps
begin

text \<open>
  A model of the C and C++ code of this repository, an iOS application with its libraries under
  \<open>src/Account/Pods\<close>: nanopb, which encodes and decodes Protocol Buffers messages, the Base64
  functions of the Firebase WebSocket client, and leveldb, the storage engine below Firebase.

  \<^bold>\<open>Conventions.\<close> A machine integer is a word of its width (\<open>u8\<close>, \<open>u32\<close>, \<open>u64\<close>; \<open>size_t\<close> and
  pointers have 64 bits) and wraps; an \<open>int\<close> whose overflow is undefined has no outcome then. \<open>None\<close>
  as the result of an operation means that the C code would have undefined behaviour there: an access
  outside a mapped block, a failed assertion, a read of a field no one has written. It also stands
  for a loop that does not end. Errors that the code reports are values: \<open>False\<close> with a message in the
  stream for nanopb, a \<open>Status\<close> for leveldb, -1 for Base64. Every theorem on a result therefore also
  says that the code returns and stays defined.

  \<^bold>\<open>nanopb\<close> (\<open>Pods/nanopb\<close>). \<open>PbTypes\<close>: the descriptors of \<open>pb.h\<close> and its macros. \<open>Memory\<close> is the C
  memory as a partial map from addresses to bytes. \<open>FieldIter\<close>: \<open>pb_common.c\<close>. \<open>OStream\<close> and \<open>Encode\<close>:
  \<open>pb_encode.c\<close>. \<open>IStream\<close>, \<open>Heap\<close> and \<open>Decode\<close>: \<open>pb_decode.c\<close>. A message encoder walks the fields of a
  struct with the iterator and calls an encoder per field type, which calls the message encoder
  again for a submessage; the decoder likewise. \<open>Emit\<close> has the contract of an encoding operation as
  the locale \<open>message_encoder\<close>; \<open>EncodeSpec\<close> the reference encoder \<open>message_wire\<close> and the refinement,
  \<open>EncodeProps\<close> what it gives the callers. \<open>Varint\<close> has the reference varints, \<open>IStreamSpec\<close> and
  \<open>WireRoundtrip\<close> what the input streams do with encodings and with arbitrary input. \<open>DecodeSafe\<close>,
  \<open>DecodeStatic\<close> and \<open>DecodeMessage\<close> carry the memory safety and termination of the decoder through
  its functions, \<open>DecodeProps\<close> states it. \<open>Layout\<close> relates descriptor tables to the structs they
  describe. Bounds: the C functions recurse on nested messages; \<open>pb_encode\<close> and \<open>pb_decode\<close> take the
  depth as fuel, one more than the nesting of the descriptors is enough (\<open>pb_encode_meets_wire\<close>,
  \<open>pb_decode_stays_in_struct\<close>). The search of \<open>pb_field_iter_find\<close> takes at most one step per field.
  Parameters are the callbacks, the allocator's choice of addresses and the contents of fresh blocks.

  \<^bold>\<open>Base64\<close> (\<open>FirebaseDatabase/.../fbase64.c\<close>). \<open>Base64\<close> has both functions, \<open>Base64Spec\<close> the encoding of
  RFC 1521 as a stream of bits, \<open>Base64Props\<close> the theorems.

  \<^bold>\<open>leveldb\<close> (\<open>Pods/leveldb-library\<close>), from below:
  \<^item> \<open>Coding\<close>, \<open>CodingSpec\<close> (\<open>util/coding.cc\<close>, \<open>slice.h\<close>); \<open>Crc32c\<close>, \<open>Crc32cSpec\<close> (\<open>util/crc32c.cc\<close>),
    the table-driven checksum against the shift register of the polynomial; \<open>CodingProps\<close>;
  \<^item> \<open>Bloom\<close>, \<open>BloomSpec\<close> (\<open>util/hash.cc\<close>, \<open>util/bloom.cc\<close>): the filter as a set of bit positions;
  \<^item> \<open>DbFormat\<close>, \<open>DbFormatSpec\<close> (\<open>util/comparator.cc\<close>, \<open>db/dbformat.cc\<close>): the contract of
    \<open>comparator.h\<close> as the locale \<open>comparator\<close>, which the byte-wise and the internal comparator interpret;
  \<^item> \<open>SkipList\<close>, \<open>SkipListSpec\<close> (\<open>db/skiplist.h\<close>, \<open>util/random.h\<close>): the levels as sublists of a sorted
    list, over any comparison with the laws of the locale \<open>key_order\<close> of \<open>KeyOrder\<close>;
  \<^item> \<open>MemTable\<close>, \<open>MemTableSpec\<close> (\<open>db/memtable.cc\<close>): the newest write that a snapshot sees, through the
    interface \<open>sorted_table\<close> of the skip list;
  \<^item> \<open>Status\<close>, \<open>WriteBatch\<close>, \<open>WriteBatchSpec\<close> (\<open>util/status.cc\<close>, \<open>db/write_batch.cc\<close>): a batch is the
    list of its operations;
  \<^item> \<open>EnvPosix\<close> (\<open>util/env_posix.cc\<close>): the stdio files, a file with a buffer and a limit of its size;
  \<^item> \<open>LogWriter\<close>, \<open>LogReader\<close>, \<open>LogSpec\<close>, \<open>LogProps\<close> (\<open>db/log_writer.cc\<close>, \<open>db/log_reader.cc\<close>): the log
    as a function of its records, over files with the laws of the locales \<open>sink\<close> and \<open>source\<close>;
  \<^item> \<open>VersionEdit\<close>, \<open>VersionEditSpec\<close> (\<open>db/version_edit.cc\<close>);
  \<^item> \<open>Block\<close>, \<open>BlockSpec\<close>, \<open>BlockProps\<close> (\<open>table/block_builder.cc\<close>, \<open>table/block.cc\<close>): the layout of a
    block, that the builder makes it, and what the iterator does on it;
  \<^item> \<open>Cache\<close>, \<open>CacheSpec\<close>, \<open>CacheTable\<close>, \<open>CacheProps\<close>, \<open>CacheRefine\<close> (\<open>util/cache.cc\<close>): circular lists and
    hash chains in a store of handles, refined to a specification without pointers;
  \<^item> \<open>DbImpl\<close>, \<open>DbSpec\<close>, \<open>DbInv\<close>, \<open>DbProps\<close> (\<open>db/db_impl.cc\<close>): the write path as steps of interleaved
    threads (\<open>db_event\<close>), the invariant \<open>machine_inv\<close> that relates the queue, the log, the memtable and
    the sequence number, and the recovery of a log that a crash has cut off.

  Loops over pointers and files that the code does not bound are \<open>partial_function\<close>s, and the theorems
  show that they return. Bounds that appear as hypotheses: fewer than $2^{31}$ operations, because
  \<open>Count\<close> is a 32-bit number read as an \<open>int\<close> and the hash table of the cache doubles in 32 bits; keys and
  values below $2^{32}$ bytes, because their lengths are varints of 32 bits; blocks below $2^{32}$ bytes;
  \<open>log_cost\<close> bounds the bytes a batch takes in the log, so that the file stays below the size limit.
  Parameters are addresses (checksums align their buffers), the floating-point product that gives the
  number of Bloom probes, what the compaction thread does while a writer waits (\<open>de_wait\<close>), the
  making of tables (\<open>re_level0\<close>), and the results of system calls.

  \<^bold>\<open>Not modelled.\<close> The application and the Firebase, Facebook and Google pods are Swift and
  Objective-C over the system's frameworks; their C files are headers that declare such classes. Of
  leveldb: table files and their readers and iterators, version sets and compaction, the scheduling
  of background work, directories, locks and memory-mapped files. Mutexes and
  atomic pointers are left out where operations run one after the other; the interleaving of
  writers is modelled at the points where \<open>Write\<close> holds the mutex. The floating-point parts of the
  histograms and the debug strings have no theorem that would matter.
\<close>

end
